(* ===== verification/Prelude.thy ===== *)
theory Prelude
  imports Main "HOL-Library.Word" "HOL-Library.Multiset" "HOL-Library.Monad_Syntax"
    "HOL-Library.Char_ord" "HOL-Library.List_Lexorder"
begin

text \<open>
  Shared vocabulary of the development.

  Machine integers are words of the width the C declaration has. A C string is
  the list of its bytes without the terminating NUL; a pointer to a string that
  may be NULL is an \<open>option\<close>. A failing \<open>c_assert\<close> aborts the broker, so an
  operation that asserts returns an \<open>option\<close>: \<open>None\<close> is the abort, and the
  operations are written in the option monad. Return codes are values, and an
  operation that changes state returns the new state on its error paths too,
  because the C code keeps what it wrote before the error return.

  The second half is the ordered index: the intrusive red-black trees of the
  program (\<open>c-rbtree\<close>) are used through \<open>find\<close>, \<open>find_slot\<close> + \<open>add\<close> and \<open>unlink\<close>
  with a three-way comparison. They are modelled by their in-order sequence, and
  the locale \<open>compare_order\<close> states what the comparison has to satisfy for the
  sequence to behave like a finite map. Every comparison function of the program
  is an interpretation of it.
\<close>

section \<open>Machine types and constants\<close>

type_synonym u8 = "8 word"
type_synonym u32 = "32 word"
type_synonym u64 = "64 word"
type_synonym uid = u32
type_synonym owner_id = u64

abbreviation UINT_MAX :: u32 where "UINT_MAX \<equiv> - 1"
abbreviation UINT64_MAX :: u64 where "UINT64_MAX \<equiv> - 1"
abbreviation ULLONG_MAX :: u64 where "ULLONG_MAX \<equiv> - 1"

named_theorems cstring_simps \<open>unfolding rules of the C string helpers\<close>
named_theorems verdict_simps \<open>rules about policy verdicts\<close>

section \<open>Assertions\<close>

definition c_assert :: "bool \<Rightarrow> unit option" where
  "c_assert b = (if b then Some () else None)"

lemma c_assert_simps [simp]:
  "c_assert True = Some ()" "c_assert False = None"
  "c_assert b = Some u \<longleftrightarrow> b" "c_assert b = None \<longleftrightarrow> \<not> b"
  by (auto simp: c_assert_def)

lemma c_assert_bind [simp]:
  "Option.bind (c_assert b) f = (if b then f () else None)"
  by (simp add: c_assert_def)

section \<open>Bytes\<close>

abbreviation byte_val :: "char \<Rightarrow> nat" where
  "byte_val c \<equiv> of_char c"

lemma byte_val_less: "byte_val c < 256"
  using of_char_mod_256 [of c, where ?'a = nat] by (metis mod_less_divisor zero_less_numeral)

lemma char_of_byte_val [simp]: "char_of (byte_val c) = c"
  by simp

section \<open>Lists, maps and words\<close>

lemma takeWhile_append_stop:
  "\<lbrakk>\<forall>x \<in> set xs. P x; ys = [] \<or> \<not> P (hd ys)\<rbrakk> \<Longrightarrow> takeWhile P (xs @ ys) = xs"
  by (induction xs) (auto, cases ys, auto)

lemma dropWhile_append_stop:
  "\<lbrakk>\<forall>x \<in> set xs. P x; ys = [] \<or> \<not> P (hd ys)\<rbrakk> \<Longrightarrow> dropWhile P (xs @ ys) = ys"
  by (induction xs) (auto, cases ys, auto)

lemma find_Some_mem: "List.find P xs = Some x \<Longrightarrow> x \<in> set xs \<and> P x"
  by (auto simp: find_Some_iff)

lemma apsnd_Some_eq: "apsnd Some p = (a, b) \<longleftrightarrow> (\<exists>c. p = (a, c) \<and> b = Some c)"
  by (cases p) auto

lemma distinct_remove1_notin: "distinct xs \<Longrightarrow> x \<notin> set (remove1 x xs)"
  by simp

lemma word_le_minus_one [simp]: "(w :: 'a::len word) \<le> - 1"
  by simp

lemma unat_plus_no_wrap:
  "unat (a :: u32) + unat b < 2 ^ 32 \<Longrightarrow> unat (a + b) = unat a + unat b"
  by (simp add: unat_word_ariths)

lemma unat_minus_no_wrap:
  "unat (b :: u32) \<le> unat a \<Longrightarrow> unat (a - b) = unat a - unat b"
  by (simp add: unat_sub word_le_nat_alt)

lemma unat_u32_less [simp]: "unat (a :: u32) < 4294967296"
  using unsigned_less [of a, where ?'a = nat] by simp

lemma sum_mset_pos_member:
  "x \<in># M \<Longrightarrow> f x \<le> (\<Sum>y \<in># M. (f y :: nat))"
  by (metis image_mset_add_mset insert_DiffM le_add1 sum_mset.insert)

lemma mset_drop_key:
  "\<lbrakk>distinct (map f t); x \<in> set t\<rbrakk> \<Longrightarrow> mset t = add_mset x (mset (filter (\<lambda>e. f e \<noteq> f x) t))"
proof (induction t)
  case (Cons e t)
  show ?case
  proof (cases "x = e")
    case True
    with Cons.prems have "filter (\<lambda>d. f d \<noteq> f x) t = t"
      by (auto simp: filter_id_conv) (metis imageI)
    with True show ?thesis by simp
  next
    case False
    with Cons.prems have "f e \<noteq> f x" "x \<in> set t" by auto
    with Cons show ?thesis by simp
  qed
qed simp

section \<open>Three-way comparison and the ordered index\<close>

definition three_way :: "'a::linorder \<Rightarrow> 'a \<Rightarrow> int" where
  "three_way a b = (if a < b then - 1 else if b < a then 1 else 0)"

lemma three_way_simps [simp]:
  "three_way a b = 0 \<longleftrightarrow> a = b"
  "three_way a b < 0 \<longleftrightarrow> a < b"
  "0 < three_way a b \<longleftrightarrow> b < a"
  "three_way a a = 0"
  by (auto simp: three_way_def)

text \<open>
  A tree is the list of its entries in order; \<open>cmp k e\<close> is the sign of comparing the
  search key \<open>k\<close> with the entry \<open>e\<close>, as in \<open>CRBCompareFunc\<close>. \<open>rb_slot\<close> is where
  \<open>c_rbtree_find_slot\<close> would attach a new entry.
\<close>

definition rb_find :: "('k \<Rightarrow> 'e \<Rightarrow> int) \<Rightarrow> 'k \<Rightarrow> 'e list \<Rightarrow> 'e option" where
  "rb_find cmp k t = List.find (\<lambda>e. cmp k e = 0) t"

fun rb_add :: "('k \<Rightarrow> 'e \<Rightarrow> int) \<Rightarrow> 'k \<Rightarrow> 'e \<Rightarrow> 'e list \<Rightarrow> 'e list" where
  "rb_add cmp k x [] = [x]"
| "rb_add cmp k x (e # t) = (if cmp k e < 0 then x # e # t else e # rb_add cmp k x t)"

definition rb_unlink :: "('k \<Rightarrow> 'e \<Rightarrow> int) \<Rightarrow> 'k \<Rightarrow> 'e list \<Rightarrow> 'e list" where
  "rb_unlink cmp k t = filter (\<lambda>e. cmp k e \<noteq> 0) t"

text \<open>An update in place of the entry a key finds.\<close>

definition rb_modify :: "('k \<Rightarrow> 'e \<Rightarrow> int) \<Rightarrow> 'k \<Rightarrow> ('e \<Rightarrow> 'e) \<Rightarrow> 'e list \<Rightarrow> 'e list" where
  "rb_modify cmp k f t = map (\<lambda>e. if cmp k e = 0 then f e else e) t"

lemma set_rb_add [simp]: "set (rb_add cmp k x t) = insert x (set t)"
  by (induction t) auto

lemma length_rb_add [simp]: "length (rb_add cmp k x t) = Suc (length t)"
  by (induction t) auto

lemma mset_rb_add: "mset (rb_add cmp k x t) = add_mset x (mset t)"
  by (induction t) auto

lemma rb_find_None: "rb_find cmp k t = None \<longleftrightarrow> (\<forall>e \<in> set t. cmp k e \<noteq> 0)"
  by (auto simp: rb_find_def find_None_iff)

lemma rb_find_SomeD: "rb_find cmp k t = Some e \<Longrightarrow> e \<in> set t \<and> cmp k e = 0"
  unfolding rb_find_def by (rule find_Some_mem)

text \<open>
  The contract of a comparison: entries carry a key (\<open>key_of\<close>), and on the keys the
  program builds (\<open>ok\<close>) the comparison is the sign of a strict total order.
\<close>

locale compare_order =
  fixes cmp :: "'k \<Rightarrow> 'e \<Rightarrow> int"
    and key_of :: "'e \<Rightarrow> 'k"
    and ok :: "'k \<Rightarrow> bool"
  assumes cmp_eq: "\<lbrakk>ok k; ok (key_of e)\<rbrakk> \<Longrightarrow> cmp k e = 0 \<longleftrightarrow> k = key_of e"
    and cmp_anti: "\<lbrakk>ok (key_of d); ok (key_of e)\<rbrakk> \<Longrightarrow>
      cmp (key_of d) e < 0 \<longleftrightarrow> 0 < cmp (key_of e) d"
    and cmp_trans: "\<lbrakk>ok k; ok (key_of d); ok (key_of e); cmp k d < 0; cmp (key_of d) e < 0\<rbrakk>
      \<Longrightarrow> cmp k e < 0"
begin

definition ordered :: "'e list \<Rightarrow> bool" where
  "ordered t \<longleftrightarrow> (\<forall>e \<in> set t. ok (key_of e)) \<and> sorted_wrt (\<lambda>d e. cmp (key_of d) e < 0) t"

lemma ordered_Nil: "ordered []"
  by (simp add: ordered_def)

lemma ordered_find:
  assumes "ordered t" "ok k"
  shows "rb_find cmp k t = Some e \<longleftrightarrow> e \<in> set t \<and> key_of e = k"
proof (cases "\<exists>e \<in> set t. key_of e = k")
  case False
  with assms have "rb_find cmp k t = None"
    by (auto simp: rb_find_None ordered_def cmp_eq)
  with False show ?thesis by auto
next
  case True
  from assms have inj: "\<lbrakk>d \<in> set t; e \<in> set t; key_of d = key_of e\<rbrakk> \<Longrightarrow> d = e" for d e
  proof -
    assume de: "d \<in> set t" "e \<in> set t" "key_of d = key_of e"
    from assms(1) have ok: "\<forall>e \<in> set t. ok (key_of e)"
      and srt: "sorted_wrt (\<lambda>d e. cmp (key_of d) e < 0) t"
      by (auto simp: ordered_def)
    show "d = e"
    proof (rule ccontr)
      assume "d \<noteq> e"
      with de(1,2) obtain i j where ij: "i < length t" "j < length t" "t ! i = d" "t ! j = e" "i \<noteq> j"
        by (metis in_set_conv_nth)
      then have "cmp (key_of d) e < 0 \<or> cmp (key_of e) d < 0"
        using srt by (metis linorder_neqE_nat sorted_wrt_nth_less)
      moreover have "cmp (key_of d) e = 0" "cmp (key_of e) d = 0"
        using ok de by (auto simp: cmp_eq)
      ultimately show False by simp
    qed
  qed
  from True obtain d where d: "d \<in> set t" "key_of d = k" by blast
  with assms have "rb_find cmp k t \<noteq> None"
    by (auto simp: rb_find_None ordered_def cmp_eq)
  then obtain f where f: "rb_find cmp k t = Some f" by blast
  then have "f \<in> set t" "cmp k f = 0" by (auto dest: rb_find_SomeD)
  with assms have "key_of f = k" by (auto simp: ordered_def cmp_eq)
  with f \<open>f \<in> set t\<close> show ?thesis using inj by auto
qed

lemma ordered_find_None:
  "\<lbrakk>ordered t; ok k\<rbrakk> \<Longrightarrow> rb_find cmp k t = None \<longleftrightarrow> k \<notin> key_of ` set t"
  by (auto simp: rb_find_None ordered_def cmp_eq)

lemma ordered_add:
  assumes "ordered t" "ok (key_of x)" "rb_find cmp (key_of x) t = None"
  shows "ordered (rb_add cmp (key_of x) x t)"
  using assms
proof (induction t)
  case Nil
  then show ?case by (simp add: ordered_def)
next
  case (Cons e t)
  from Cons.prems have okx: "ok (key_of x)" "ok (key_of e)" "\<forall>d \<in> set t. ok (key_of d)"
    and less: "\<forall>d \<in> set t. cmp (key_of e) d < 0" and t: "ordered t"
    and ne: "cmp (key_of x) e \<noteq> 0" and nf: "rb_find cmp (key_of x) t = None"
    by (auto simp: ordered_def rb_find_None)
  show ?case
  proof (cases "cmp (key_of x) e < 0")
    case True
    then have "\<forall>d \<in> set t. cmp (key_of x) d < 0"
      using okx less cmp_trans by blast
    with True Cons.prems show ?thesis by (simp add: ordered_def)
  next
    case False
    with ne have "0 < cmp (key_of x) e" by simp
    with okx have "cmp (key_of e) x < 0" by (simp add: cmp_anti)
    with False less okx Cons.IH [OF t okx(1) nf] show ?thesis by (auto simp: ordered_def)
  qed
qed

lemma ordered_filter: "ordered t \<Longrightarrow> ordered (filter P t)"
  by (auto simp: ordered_def sorted_wrt_filter)

lemma ordered_unlink: "ordered t \<Longrightarrow> ordered (rb_unlink cmp k t)"
  unfolding rb_unlink_def by (rule ordered_filter)

lemma ordered_keys_distinct:
  assumes "ordered t"
  shows "distinct (map key_of t)"
proof -
  have "sorted_wrt (\<lambda>d e. key_of d \<noteq> key_of e) t"
  proof (rule sorted_wrt_mono_rel)
    show "sorted_wrt (\<lambda>d e. cmp (key_of d) e < 0) t" using assms by (simp add: ordered_def)
    show "key_of d \<noteq> key_of e" if "d \<in> set t" "e \<in> set t" "cmp (key_of d) e < 0" for d e
      using that assms cmp_eq [of "key_of d" e] by (auto simp: ordered_def)
  qed
  then show ?thesis
    by (induction t) auto
qed

text \<open>What a client relies on: lookups after an insertion and after a removal.\<close>

lemma find_cong:
  assumes "ordered t" "ordered t'" "ok k" "\<And>e. key_of e = k \<Longrightarrow> e \<in> set t \<longleftrightarrow> e \<in> set t'"
  shows "rb_find cmp k t = rb_find cmp k t'"
proof (cases "rb_find cmp k t")
  case None
  with assms have "k \<notin> key_of ` set t'" by (auto simp: ordered_find_None)
  with assms have "rb_find cmp k t' = None" by (simp add: ordered_find_None)
  with None show ?thesis by simp
next
  case (Some e)
  with assms(1,3) have "e \<in> set t" "key_of e = k" by (simp_all add: ordered_find)
  with assms have "rb_find cmp k t' = Some e" by (simp add: ordered_find)
  with Some show ?thesis by simp
qed

lemma find_add:
  assumes "ordered t" "ok (key_of x)" "rb_find cmp (key_of x) t = None" "ok k"
  shows "rb_find cmp k (rb_add cmp (key_of x) x t) =
    (if k = key_of x then Some x else rb_find cmp k t)"
proof -
  have ord: "ordered (rb_add cmp (key_of x) x t)" using assms by (simp add: ordered_add)
  show ?thesis
  proof (cases "k = key_of x")
    case True
    with ord assms show ?thesis by (simp add: ordered_find)
  next
    case False
    with ord assms have "rb_find cmp k (rb_add cmp (key_of x) x t) = rb_find cmp k t"
      by (intro find_cong) auto
    with False show ?thesis by simp
  qed
qed

lemma find_unlink:
  assumes "ordered t" "ok k" "ok k'"
  shows "rb_find cmp k (rb_unlink cmp k' t) = (if k = k' then None else rb_find cmp k t)"
proof -
  have ord: "ordered (rb_unlink cmp k' t)" using assms by (simp add: ordered_unlink)
  have mem: "e \<in> set (rb_unlink cmp k' t) \<longleftrightarrow> e \<in> set t \<and> key_of e \<noteq> k'" for e
    using assms by (auto simp: rb_unlink_def ordered_def cmp_eq)
  show ?thesis
  proof (cases "k = k'")
    case True
    with ord assms mem have "k \<notin> key_of ` set (rb_unlink cmp k' t)" by auto
    with ord assms True show ?thesis by (simp add: ordered_find_None)
  next
    case False
    with ord assms mem have "rb_find cmp k (rb_unlink cmp k' t) = rb_find cmp k t"
      by (intro find_cong) simp_all
    with False show ?thesis by simp
  qed
qed

end

end
