(* ===== verification/User.thy ===== *)
theory User
  imports Prelude
begin

text \<open>
  User accounting (\<open>src/util/user.h\<close>, \<open>src/util/user.c\<close>, reference counting from
  \<open>src/util/ref.h\<close>). Every resource that a peer pins is charged on a user, on behalf
  of an acting user; a charge object embedded in the pinning object records what to
  give back.

  A \<open>User\<close> is identified by its UID, since the registry holds at most one object per
  UID, and a \<open>UserUsage\<close> by the UIDs of its user and its actor. Whether an allocation
  succeeds (\<open>mem\<close>) and whether a log commit succeeds (\<open>log_ok\<close>) are inputs.

  The invariant \<open>user_inv reg ext C\<close> relates the registry to the references held
  outside of it: \<open>ext\<close> counts the references to users, and \<open>C\<close> is the multiset of all
  live charge objects. It states that reference counts are exact, and that for every
  user and slot the remaining budget and the amounts of all live charges add up to the
  configured maximum. All operations keep it and never fail an assertion.
\<close>

section \<open>Objects\<close>

datatype user_ret = USER_OK | USER_E_QUOTA | USER_ENOMEM | USER_ELOG

text \<open>The accounting slots, by their index in the \<open>slots\<close> arrays.\<close>

definition USER_SLOT_BYTES :: nat where "USER_SLOT_BYTES = 0"
definition USER_SLOT_FDS :: nat where "USER_SLOT_FDS = 1"
definition USER_SLOT_MATCHES :: nat where "USER_SLOT_MATCHES = 2"
definition USER_SLOT_OBJECTS :: nat where "USER_SLOT_OBJECTS = 3"

record user_usage =
  usage_refs :: nat
  usage_logged :: bool
  usage_slots :: "u32 list"

record user_slot =
  slot_n :: u32
  slot_max :: u32

record user =
  user_refs :: nat
  usages :: "uid \<rightharpoonup> user_usage"
  n_usages :: u32
  user_slots :: "user_slot list"

record user_log_entry =
  log_user :: uid
  log_actor :: uid
  log_amount :: u32
  log_n_actors :: u32
  log_slot :: nat
  log_remaining :: u32
  log_consumed :: u32

record user_registry =
  reg_log :: "user_log_entry list option"
  users :: "uid \<rightharpoonup> user"
  n_slots :: nat
  maxima :: "u32 list"

record user_charge =
  ch_usage :: "(uid \<times> uid) option"
  ch_slot :: nat
  ch_charge :: u32

section \<open>Operations\<close>

definition upd_user :: "uid \<Rightarrow> (user \<Rightarrow> user) \<Rightarrow> user_registry \<Rightarrow> user_registry" where
  "upd_user u f reg = reg\<lparr>users := (users reg)(u := map_option f (users reg u))\<rparr>"

definition upd_usage :: "uid \<Rightarrow> uid \<Rightarrow> (user_usage \<Rightarrow> user_usage) \<Rightarrow> user_registry \<Rightarrow> user_registry" where
  "upd_usage u a f = upd_user u (\<lambda>usr. usr\<lparr>usages := (usages usr)(a := map_option f (usages usr a))\<rparr>)"

definition user_charge_init :: user_charge where
  "user_charge_init = \<lparr>ch_usage = None, ch_slot = 0, ch_charge = 0\<rparr>"

definition user_ref :: "user_registry \<Rightarrow> uid \<Rightarrow> user_registry option" where
  "user_ref reg u = do {
     usr \<leftarrow> users reg u;
     _ \<leftarrow> c_assert (user_refs usr > 0);
     Some (upd_user u (\<lambda>usr. usr\<lparr>user_refs := user_refs usr + 1\<rparr>) reg) }"

definition user_free :: "user_registry \<Rightarrow> uid \<Rightarrow> user_registry option" where
  "user_free reg u = do {
     usr \<leftarrow> users reg u;
     _ \<leftarrow> c_assert (usages usr = Map.empty);
     _ \<leftarrow> c_assert (n_usages usr = 0);
     _ \<leftarrow> c_assert (list_all (\<lambda>s. slot_n s = slot_max s) (user_slots usr));
     Some (reg\<lparr>users := (users reg)(u := None)\<rparr>) }"

definition user_unref :: "user_registry \<Rightarrow> uid \<Rightarrow> user_registry option" where
  "user_unref reg u = do {
     usr \<leftarrow> users reg u;
     _ \<leftarrow> c_assert (user_refs usr > 0);
     let reg = upd_user u (\<lambda>usr. usr\<lparr>user_refs := user_refs usr - 1\<rparr>) reg;
     if user_refs usr = 1 then user_free reg u else Some reg }"

text \<open>\<open>user_new\<close> and \<open>user_link\<close>: a user starts with one reference and a full budget.\<close>

definition user_new :: "user_registry \<Rightarrow> user" where
  "user_new reg =
     \<lparr>user_refs = 1, usages = Map.empty, n_usages = 0,
      user_slots = map (\<lambda>m. \<lparr>slot_n = m, slot_max = m\<rparr>) (take (n_slots reg) (maxima reg))\<rparr>"

definition user_usage_new :: "user_registry \<Rightarrow> user_usage" where
  "user_usage_new reg =
     \<lparr>usage_refs = 1, usage_logged = False, usage_slots = replicate (n_slots reg) 0\<rparr>"

definition user_usage_link :: "uid \<Rightarrow> user_usage \<Rightarrow> user \<Rightarrow> user" where
  "user_usage_link a us usr = usr\<lparr>n_usages := n_usages usr + 1, usages := (usages usr)(a \<mapsto> us)\<rparr>"

definition user_usage_unlink :: "uid \<Rightarrow> user \<Rightarrow> user" where
  "user_usage_unlink a usr = usr\<lparr>usages := (usages usr)(a := None), n_usages := n_usages usr - 1\<rparr>"

definition user_usage_free :: "user_registry \<Rightarrow> uid \<Rightarrow> uid \<Rightarrow> user_registry option" where
  "user_usage_free reg u a = do {
     usr \<leftarrow> users reg u;
     us \<leftarrow> usages usr a;
     _ \<leftarrow> c_assert (list_all (\<lambda>s. s = 0) (usage_slots us));
     user_unref (upd_user u (user_usage_unlink a) reg) u }"

definition user_usage_ref :: "user_registry \<Rightarrow> uid \<Rightarrow> uid \<Rightarrow> user_registry option" where
  "user_usage_ref reg u a = do {
     usr \<leftarrow> users reg u;
     us \<leftarrow> usages usr a;
     _ \<leftarrow> c_assert (usage_refs us > 0);
     Some (upd_usage u a (\<lambda>us. us\<lparr>usage_refs := usage_refs us + 1\<rparr>) reg) }"

definition user_usage_unref :: "user_registry \<Rightarrow> uid \<Rightarrow> uid \<Rightarrow> user_registry option" where
  "user_usage_unref reg u a = do {
     usr \<leftarrow> users reg u;
     us \<leftarrow> usages usr a;
     _ \<leftarrow> c_assert (usage_refs us > 0);
     let reg = upd_usage u a (\<lambda>us. us\<lparr>usage_refs := usage_refs us - 1\<rparr>) reg;
     if usage_refs us = 1 then user_usage_free reg u a else Some reg }"

definition user_charge_deinit :: "user_registry \<Rightarrow> user_charge \<Rightarrow> (user_charge \<times> user_registry) option" where
  "user_charge_deinit reg ch =
     (case ch_usage ch of
        Some (u, a) \<Rightarrow> do {
          let reg = upd_user u (\<lambda>usr. usr\<lparr>user_slots := (user_slots usr)[ch_slot ch :=
                (user_slots usr ! ch_slot ch)
                  \<lparr>slot_n := slot_n (user_slots usr ! ch_slot ch) + ch_charge ch\<rparr>]\<rparr>) reg;
          let reg = upd_usage u a (\<lambda>us. us\<lparr>usage_slots := (usage_slots us)[ch_slot ch :=
                usage_slots us ! ch_slot ch - ch_charge ch]\<rparr>) reg;
          reg \<leftarrow> user_usage_unref reg u a;
          Some (\<lparr>ch_usage = None, ch_slot = 0, ch_charge = 0\<rparr>, reg) }
      | None \<Rightarrow> do {
          _ \<leftarrow> c_assert (ch_charge ch = 0);
          Some (ch, reg) })"

text \<open>The overflow builtins report whether the exact result leaves \<open>unsigned int\<close>; \<open>users + 1\<close> wraps.\<close>

definition user_charge_check :: "u32 \<Rightarrow> u32 \<Rightarrow> u32 \<Rightarrow> u32 \<Rightarrow> user_ret" where
  "user_charge_check remaining n_users share charge =
     (if unat share + unat charge < 2 ^ 32 \<and>
         unat (share + charge) * unat (n_users + 1) < 2 ^ 32 \<and>
         unat share \<le> unat ((share + charge) * (n_users + 1)) \<and>
         (share + charge) * (n_users + 1) - share \<le> remaining
      then USER_OK else USER_E_QUOTA)"

definition user_ref_usage :: "bool \<Rightarrow> user_registry \<Rightarrow> uid \<Rightarrow> uid \<Rightarrow> (user_ret \<times> user_registry) option" where
  "user_ref_usage mem reg u a = do {
     usr \<leftarrow> users reg u;
     case usages usr a of
       None \<Rightarrow>
         if \<not> mem then Some (USER_ENOMEM, reg)
         else do {
           reg \<leftarrow> user_ref reg u;
           Some (USER_OK, upd_user u (user_usage_link a (user_usage_new reg)) reg) }
     | Some us \<Rightarrow> do {
         reg \<leftarrow> user_usage_ref reg u a;
         Some (USER_OK, reg) } }"

definition user_charge_commit_log ::
  "bool \<Rightarrow> user_registry \<Rightarrow> uid \<Rightarrow> uid \<Rightarrow> nat \<Rightarrow> u32 \<Rightarrow> (user_ret \<times> user_registry) option" where
  "user_charge_commit_log log_ok reg u a slot amount =
     (case reg_log reg of
        None \<Rightarrow> Some (USER_OK, reg)
      | Some entries \<Rightarrow> do {
          usr \<leftarrow> users reg u;
          us \<leftarrow> usages usr a;
          if usage_logged us then Some (USER_OK, reg)
          else do {
            _ \<leftarrow> c_assert (slot < n_slots reg);
            if \<not> log_ok then Some (USER_ELOG, reg)
            else Some (USER_OK, upd_usage u a (\<lambda>us. us\<lparr>usage_logged := True\<rparr>)
              (reg\<lparr>reg_log := Some (entries @ [\<lparr>log_user = u, log_actor = a, log_amount = amount,
                 log_n_actors = n_usages usr, log_slot = slot,
                 log_remaining = slot_n (user_slots usr ! slot),
                 log_consumed = usage_slots us ! slot\<rparr>])\<rparr>)) } })"

text \<open>
  The part of \<open>user_charge\<close> after the usage is pinned: \<open>ch\<close> already refers to it (the
  source stores the usage in an unused charge on both the success and the quota path).
\<close>

definition user_charge_apply ::
  "bool \<Rightarrow> user_registry \<Rightarrow> uid \<Rightarrow> user_charge \<Rightarrow> uid \<Rightarrow> nat \<Rightarrow> u32 \<Rightarrow>
   (user_ret \<times> user_charge \<times> user_registry) option" where
  "user_charge_apply log_ok reg u ch a slot amount = do {
     usr \<leftarrow> users reg u;
     us \<leftarrow> usages usr a;
     _ \<leftarrow> c_assert (slot < n_slots reg);
     let s = user_slots usr ! slot;
     if (if u = a then amount \<le> slot_n s
         else user_charge_check (slot_n s) (n_usages usr) (usage_slots us ! slot) amount = USER_OK)
     then Some (USER_OK, ch\<lparr>ch_charge := ch_charge ch + amount\<rparr>,
       upd_usage u a (\<lambda>us. us\<lparr>usage_slots := (usage_slots us)[slot := usage_slots us ! slot + amount]\<rparr>)
         (upd_user u (\<lambda>usr. usr\<lparr>user_slots := (user_slots usr)[slot := s\<lparr>slot_n := slot_n s - amount\<rparr>]\<rparr>) reg))
     else do {
       (r, reg) \<leftarrow> user_charge_commit_log log_ok reg u a slot amount;
       Some (if r = USER_OK then USER_E_QUOTA else r, ch, reg) } }"

text \<open>A charge without an actor is a charge of the user itself.\<close>

definition charge_actor :: "uid \<Rightarrow> uid option \<Rightarrow> uid" where
  "charge_actor u actor = (case actor of None \<Rightarrow> u | Some a \<Rightarrow> a)"

definition user_charge ::
  "bool \<Rightarrow> bool \<Rightarrow> user_registry \<Rightarrow> uid option \<Rightarrow> user_charge \<Rightarrow> uid option \<Rightarrow> nat \<Rightarrow> u32 \<Rightarrow>
   (user_ret \<times> user_charge \<times> user_registry) option" where
  "user_charge mem log_ok reg user ch actor slot amount =
     (if amount = 0 then Some (USER_OK, ch, reg)
      else case user of None \<Rightarrow> Some (USER_OK, ch, reg)
      | Some u \<Rightarrow>
        (let a = charge_actor u actor in
         case ch_usage ch of
           Some (cu, ca) \<Rightarrow> do {
             _ \<leftarrow> c_assert (u = cu);
             _ \<leftarrow> c_assert (a = ca);
             _ \<leftarrow> c_assert (slot = ch_slot ch);
             reg \<leftarrow> user_usage_ref reg u a;
             (r, ch, reg) \<leftarrow> user_charge_apply log_ok reg u ch a slot amount;
             reg \<leftarrow> user_usage_unref reg u a;
             Some (r, ch, reg) }
         | None \<Rightarrow> do {
             (r, reg) \<leftarrow> user_ref_usage mem reg u a;
             if r \<noteq> USER_OK then Some (r, ch, reg)
             else user_charge_apply log_ok reg u (ch\<lparr>ch_usage := Some (u, a), ch_slot := slot\<rparr>)
                    a slot amount }))"

definition user_registry_init :: "bool \<Rightarrow> user_log_entry list option \<Rightarrow> nat \<Rightarrow> u32 list \<Rightarrow> user_ret \<times> user_registry" where
  "user_registry_init mem log n mx =
     (if \<not> mem then (USER_ENOMEM, \<lparr>reg_log = None, users = Map.empty, n_slots = 0, maxima = []\<rparr>)
      else (USER_OK, \<lparr>reg_log = log, users = Map.empty, n_slots = n, maxima = take n mx\<rparr>))"

definition user_registry_deinit :: "user_registry \<Rightarrow> unit option" where
  "user_registry_deinit reg = c_assert (users reg = Map.empty)"

definition user_registry_ref_user :: "bool \<Rightarrow> user_registry \<Rightarrow> uid \<Rightarrow> (user_ret \<times> user_registry) option" where
  "user_registry_ref_user mem reg u =
     (case users reg u of
        None \<Rightarrow>
          if \<not> mem then Some (USER_ENOMEM, reg)
          else Some (USER_OK, reg\<lparr>users := (users reg)(u \<mapsto> user_new reg)\<rparr>)
      | Some _ \<Rightarrow> map_option (Pair USER_OK) (user_ref reg u))"

section \<open>The quota\<close>

text \<open>
  With fewer than \<open>2\<^sup>32 - 1\<close> actors and amounts below the maximum of a slot the check is
  the inequality of the source's comment, over the integers.
\<close>

lemma unat_Suc_u32: "unat (n :: u32) + 1 < 2 ^ 32 \<Longrightarrow> unat (n + 1) = unat n + 1"
  by (simp add: unat_word_ariths)

lemma user_charge_check_iff:
  assumes "unat n + 1 < 2 ^ 32" "unat remaining + unat share < 2 ^ 32"
  shows "user_charge_check remaining n share charge = USER_OK \<longleftrightarrow>
    (unat n + 1) * (unat charge + unat share) \<le> unat remaining + unat share"
proof -
  let ?l = "(unat n + 1) * (unat charge + unat share)"
  have un: "unat (n + 1) = unat n + 1" using assms(1) by (rule unat_Suc_u32)
  have ge: "unat charge + unat share \<le> ?l" by simp
  show ?thesis
  proof (cases "?l < 2 ^ 32")
    case True
    with ge have sum: "unat share + unat charge < 2 ^ 32" by linarith
    then have us: "unat (share + charge) = unat share + unat charge" by (simp add: unat_word_ariths)
    have prod: "unat (share + charge) * unat (n + 1) = ?l"
      unfolding us un by (simp add: algebra_simps)
    then have um: "unat ((share + charge) * (n + 1)) = ?l"
      using True by (simp add: unat_word_ariths)
    have le: "unat share \<le> ?l" using ge by linarith
    then have ud: "unat ((share + charge) * (n + 1) - share) = ?l - unat share"
      using um by (simp add: unat_minus_no_wrap)
    show ?thesis
      using sum prod um le ud True
      by (simp add: user_charge_check_def word_le_nat_alt le_diff_conv)
  next
    case False
    with assms(2) have "\<not> ?l \<le> unat remaining + unat share" by linarith
    moreover have "user_charge_check remaining n share charge \<noteq> USER_OK"
    proof
      assume ok: "user_charge_check remaining n share charge = USER_OK"
      then have "unat share + unat charge < 2 ^ 32"
        and m: "unat (share + charge) * unat (n + 1) < 2 ^ 32"
        by (auto simp: user_charge_check_def split: if_splits)
      then have "unat (share + charge) = unat share + unat charge"
        by (simp add: unat_word_ariths)
      with m have "?l < 2 ^ 32" unfolding un by (simp add: algebra_simps)
      with False show False by simp
    qed
    ultimately show ?thesis by simp
  qed
qed

lemma user_charge_check_remaining:
  assumes "unat n + 1 < 2 ^ 32" "unat remaining + unat share < 2 ^ 32"
    "user_charge_check remaining n share charge = USER_OK"
  shows "unat charge \<le> unat remaining"
proof -
  have "unat charge + unat share \<le> (unat n + 1) * (unat charge + unat share)" by simp
  also have "\<dots> \<le> unat remaining + unat share"
    using assms user_charge_check_iff by blast
  finally show ?thesis by simp
qed

section \<open>The invariant\<close>

text \<open>What the live charges hold of a usage, per slot, and how many of them pin it.\<close>

definition held :: "user_charge multiset \<Rightarrow> uid \<times> uid \<Rightarrow> nat \<Rightarrow> nat" where
  "held C k i = (\<Sum>c \<in># C. if ch_usage c = Some k \<and> ch_slot c = i then unat (ch_charge c) else 0)"

definition pins :: "user_charge multiset \<Rightarrow> uid \<times> uid \<Rightarrow> nat" where
  "pins C k = size (filter_mset (\<lambda>c. ch_usage c = Some k) C)"

lemma held_add [simp]:
  "held (add_mset c C) k i =
     (if ch_usage c = Some k \<and> ch_slot c = i then unat (ch_charge c) else 0) + held C k i"
  by (simp add: held_def)

lemma pins_add [simp]: "pins (add_mset c C) k = (if ch_usage c = Some k then 1 else 0) + pins C k"
  by (simp add: pins_def)

lemma held_pins_empty [simp]: "held {#} k i = 0" "pins {#} k = 0"
  by (simp_all add: held_def pins_def)

lemma held_unpinned: "pins C k = 0 \<Longrightarrow> held C k i = 0"
  by (induction C) (auto split: if_splits)

definition usage_ok :: "nat \<Rightarrow> user_charge multiset \<Rightarrow> uid \<times> uid \<Rightarrow> user_usage \<Rightarrow> bool" where
  "usage_ok n C k us \<longleftrightarrow>
     length (usage_slots us) = n \<and> usage_refs us = pins C k \<and> 0 < pins C k \<and>
     (\<forall>i<n. unat (usage_slots us ! i) = held C k i)"

definition consumed :: "user \<Rightarrow> nat \<Rightarrow> nat" where
  "consumed usr i = (\<Sum>a \<in> dom (usages usr). unat (usage_slots (the (usages usr a)) ! i))"

definition user_ok ::
  "nat \<Rightarrow> u32 list \<Rightarrow> nat \<Rightarrow> user_charge multiset \<Rightarrow> uid \<Rightarrow> user \<Rightarrow> bool" where
  "user_ok n mx ext C u usr \<longleftrightarrow>
     finite (dom (usages usr)) \<and> n_usages usr = of_nat (card (dom (usages usr))) \<and>
     user_refs usr = ext + card (dom (usages usr)) \<and> 0 < ext + card (dom (usages usr)) \<and>
     length (user_slots usr) = n \<and>
     (\<forall>i<n. slot_max (user_slots usr ! i) = mx ! i \<and>
        unat (slot_n (user_slots usr ! i)) + consumed usr i = unat (mx ! i)) \<and>
     (\<forall>a us. usages usr a = Some us \<longrightarrow> usage_ok n C (u, a) us)"

definition charge_ok :: "user_registry \<Rightarrow> user_charge \<Rightarrow> bool" where
  "charge_ok reg c \<longleftrightarrow>
     (case ch_usage c of
        None \<Rightarrow> ch_charge c = 0
      | Some (u, a) \<Rightarrow>
          (\<exists>usr us. users reg u = Some usr \<and> usages usr a = Some us) \<and> ch_slot c < n_slots reg)"

definition user_inv :: "user_registry \<Rightarrow> (uid \<Rightarrow> nat) \<Rightarrow> user_charge multiset \<Rightarrow> bool" where
  "user_inv reg ext C \<longleftrightarrow>
     length (maxima reg) = n_slots reg \<and>
     (\<forall>u. case users reg u of
        None \<Rightarrow> ext u = 0
      | Some usr \<Rightarrow> user_ok (n_slots reg) (maxima reg) (ext u) C u usr) \<and>
     (\<forall>c \<in># C. charge_ok reg c)"

lemma user_inv_ok:
  "\<lbrakk>user_inv reg ext C; users reg u = Some usr\<rbrakk> \<Longrightarrow>
     user_ok (n_slots reg) (maxima reg) (ext u) C u usr"
  by (auto simp: user_inv_def split: option.splits)

lemma user_inv_usage_ok:
  "\<lbrakk>user_inv reg ext C; users reg u = Some usr; usages usr a = Some us\<rbrakk> \<Longrightarrow>
     usage_ok (n_slots reg) C (u, a) us"
  using user_inv_ok by (auto simp: user_ok_def)

lemma user_inv_charge: "user_inv reg ext (add_mset c C) \<Longrightarrow> charge_ok reg c"
  by (simp add: user_inv_def)

lemma user_inv_chargeD:
  assumes "user_inv reg ext (add_mset c C)" "ch_usage c = Some (u, a)"
  obtains usr us where "users reg u = Some usr" "usages usr a = Some us" "ch_slot c < n_slots reg"
  using user_inv_charge [OF assms(1)] assms(2) by (auto simp: charge_ok_def)

text \<open>An unused charge object is invisible to the registry.\<close>

lemma user_ok_unused: "ch_usage c = None \<Longrightarrow> user_ok n mx ext (add_mset c C) u usr = user_ok n mx ext C u usr"
  by (simp add: user_ok_def usage_ok_def)

lemma user_inv_unused:
  "ch_usage c = None \<Longrightarrow> user_inv reg ext (add_mset c C) \<longleftrightarrow> user_inv reg ext C \<and> ch_charge c = 0"
  by (auto simp: user_inv_def user_ok_unused charge_ok_def split: option.splits)

text \<open>
  One user changes and only charges on that user change: the rest of the invariant is
  kept. All operations below are instances of these two rules.
\<close>

definition same_elsewhere :: "uid \<Rightarrow> user_charge multiset \<Rightarrow> user_charge multiset \<Rightarrow> bool" where
  "same_elsewhere u C C' \<longleftrightarrow>
     (\<forall>v a. v \<noteq> u \<longrightarrow> pins C' (v, a) = pins C (v, a) \<and> held C' (v, a) = held C (v, a))"

lemma user_ok_elsewhere:
  assumes "same_elsewhere u C C'" "v \<noteq> u" "user_ok n mx ext C v usr"
  shows "user_ok n mx ext C' v usr"
proof -
  have "usage_ok n C' (v, a) us = usage_ok n C (v, a) us" for a us
    using assms(1,2) by (simp add: usage_ok_def same_elsewhere_def)
  then show ?thesis using assms(3) unfolding user_ok_def by metis
qed

lemma user_inv_update:
  assumes inv: "user_inv reg ext C" and same: "same_elsewhere u C C'"
    and ext: "\<And>v. v \<noteq> u \<Longrightarrow> ext' v = ext v"
    and ok: "case x of None \<Rightarrow> ext' u = 0 | Some usr \<Rightarrow> user_ok (n_slots reg) (maxima reg) (ext' u) C' u usr"
    and frame: "users reg' = (users reg)(u := x)" "n_slots reg' = n_slots reg" "maxima reg' = maxima reg"
    and ch: "\<And>c. c \<in># C' \<Longrightarrow> charge_ok reg' c"
  shows "user_inv reg' ext' C'"
  unfolding user_inv_def
proof (intro conjI allI ballI)
  show "length (maxima reg') = n_slots reg'" using inv frame by (simp add: user_inv_def)
  show "charge_ok reg' c" if "c \<in># C'" for c using that by (rule ch)
  fix v
  show "case users reg' v of None \<Rightarrow> ext' v = 0
    | Some usr \<Rightarrow> user_ok (n_slots reg') (maxima reg') (ext' v) C' v usr"
  proof (cases "v = u")
    case True
    with ok frame show ?thesis by (simp split: option.splits)
  next
    case False
    then have "case users reg v of None \<Rightarrow> ext v = 0
      | Some usr \<Rightarrow> user_ok (n_slots reg) (maxima reg) (ext v) C v usr"
      using inv by (simp add: user_inv_def)
    with False ext frame same show ?thesis
      by (auto split: option.splits intro: user_ok_elsewhere)
  qed
qed

lemma charge_ok_update:
  assumes "charge_ok reg c" "users reg u = Some usr"
    "users reg' = (users reg)(u \<mapsto> usr')" "dom (usages usr) \<subseteq> dom (usages usr')" "n_slots reg' = n_slots reg"
  shows "charge_ok reg' c"
proof (cases "ch_usage c")
  case None
  with assms show ?thesis by (simp add: charge_ok_def)
next
  case (Some k)
  obtain v a where k: "k = (v, a)" by fastforce
  with Some assms(1) obtain usr0 us where u0: "users reg v = Some usr0" "usages usr0 a = Some us" "ch_slot c < n_slots reg"
    by (auto simp: charge_ok_def)
  show ?thesis
  proof (cases "v = u")
    case True
    with u0 assms(2) have "a \<in> dom (usages usr)" by auto
    with assms(4) obtain us' where "usages usr' a = Some us'" by blast
    with True Some k u0 assms show ?thesis by (auto simp: charge_ok_def)
  next
    case False
    with Some k u0 assms show ?thesis by (auto simp: charge_ok_def)
  qed
qed

lemma same_elsewhere_simps [simp]:
  "same_elsewhere u C C"
  "ch_usage c = Some (u, a) \<Longrightarrow> same_elsewhere u C (add_mset c C') \<longleftrightarrow> same_elsewhere u C C'"
  "ch_usage c = Some (u, a) \<Longrightarrow> same_elsewhere u (add_mset c C) C' \<longleftrightarrow> same_elsewhere u C C'"
  by (auto simp: same_elsewhere_def fun_eq_iff)

lemma consumed_upd:
  assumes "finite (dom (usages usr))" "usages usr a = Some us"
  shows "consumed (usr\<lparr>usages := (usages usr)(a \<mapsto> us')\<rparr>) i + unat (usage_slots us ! i)
    = consumed usr i + unat (usage_slots us' ! i)"
proof -
  have dom: "insert a (dom (usages usr)) = insert a (dom (usages usr) - {a})" by auto
  have rest: "(\<Sum>b \<in> dom (usages usr) - {a}. unat (usage_slots (the (((usages usr)(a \<mapsto> us')) b)) ! i))
      = (\<Sum>b \<in> dom (usages usr) - {a}. unat (usage_slots (the (usages usr b)) ! i))"
    by (rule sum.cong) auto
  have "consumed usr i = unat (usage_slots us ! i)
      + (\<Sum>b \<in> dom (usages usr) - {a}. unat (usage_slots (the (usages usr b)) ! i))"
    unfolding consumed_def using assms by (subst sum.remove [of _ a]) auto
  moreover have "consumed (usr\<lparr>usages := (usages usr)(a \<mapsto> us')\<rparr>) i = unat (usage_slots us' ! i)
      + (\<Sum>b \<in> dom (usages usr) - {a}. unat (usage_slots (the (usages usr b)) ! i))"
    unfolding consumed_def using assms rest by (simp add: dom del: insert_Diff_single)
  ultimately show ?thesis by simp
qed

lemma consumed_link:
  assumes "finite (dom (usages usr))" "usages usr a = None"
  shows "consumed (usr\<lparr>usages := (usages usr)(a \<mapsto> us)\<rparr>) i = unat (usage_slots us ! i) + consumed usr i"
proof -
  have "(\<Sum>b \<in> dom (usages usr). unat (usage_slots (the (((usages usr)(a \<mapsto> us)) b)) ! i)) = consumed usr i"
    unfolding consumed_def using assms(2) by (intro sum.cong) auto
  with assms show ?thesis by (simp add: consumed_def domIff)
qed

lemma consumed_unlink:
  assumes "finite (dom (usages usr))" "usages usr a = Some us"
  shows "consumed usr i = unat (usage_slots us ! i) + consumed (usr\<lparr>usages := (usages usr)(a := None)\<rparr>) i"
proof -
  have "(\<Sum>b \<in> dom (usages usr) - {a}. unat (usage_slots (the (((usages usr)(a := None)) b)) ! i))
      = (\<Sum>b \<in> dom (usages usr) - {a}. unat (usage_slots (the (usages usr b)) ! i))"
    by (rule sum.cong) auto
  then show ?thesis
    unfolding consumed_def using assms by (subst sum.remove [of _ a]) auto
qed

lemma consumed_eqI: "usages x = usages y \<Longrightarrow> consumed x i = consumed y i"
  by (simp add: consumed_def)

lemma consumed_cong [simp]:
  "consumed (usr\<lparr>user_refs := x\<rparr>) i = consumed usr i"
  "consumed (usr\<lparr>n_usages := y\<rparr>) i = consumed usr i"
  "consumed (usr\<lparr>user_slots := z\<rparr>) i = consumed usr i"
  by (simp_all add: consumed_def)

lemma consumed_ge:
  assumes "finite (dom (usages usr))" "usages usr a = Some us"
  shows "unat (usage_slots us ! i) \<le> consumed usr i"
  using consumed_unlink [OF assms, of i] by simp

section \<open>Every operation keeps the invariant\<close>

text \<open>A charge of amount zero that only pins a usage; it stands for a local reference.\<close>

abbreviation pin :: "uid \<Rightarrow> uid \<Rightarrow> nat \<Rightarrow> user_charge" where
  "pin u a slot \<equiv> \<lparr>ch_usage = Some (u, a), ch_slot = slot, ch_charge = 0\<rparr>"

lemma upd_user_sel [simp]:
  "users (upd_user u f reg) = (users reg)(u := map_option f (users reg u))"
  "n_slots (upd_user u f reg) = n_slots reg" "maxima (upd_user u f reg) = maxima reg"
  "reg_log (upd_user u f reg) = reg_log reg"
  by (simp_all add: upd_user_def)

lemma upd_usage_sel [simp]:
  "users (upd_usage u a f reg) =
     (users reg)(u := map_option (\<lambda>usr. usr\<lparr>usages := (usages usr)(a := map_option f (usages usr a))\<rparr>) (users reg u))"
  "n_slots (upd_usage u a f reg) = n_slots reg" "maxima (upd_usage u a f reg) = maxima reg"
  "reg_log (upd_usage u a f reg) = reg_log reg"
  by (simp_all add: upd_usage_def)

lemma dom_upd_usage [simp]: "usages usr a = Some us \<Longrightarrow> insert a (dom (usages usr)) = dom (usages usr)"
  by auto

text \<open>Changing one usage of a user: what has to be shown of the user record.\<close>

lemma user_ok_upd_usage:
  assumes ok: "user_ok n mx e C u usr" and us: "usages usr a = Some us"
    and same: "\<And>b. b \<noteq> a \<Longrightarrow> pins C' (u, b) = pins C (u, b) \<and> held C' (u, b) = held C (u, b)"
    and us': "usage_ok n C' (u, a) us'"
    and len: "length ss = n"
    and slots: "\<And>i. i < n \<Longrightarrow> slot_max (ss ! i) = slot_max (user_slots usr ! i) \<and>
      unat (slot_n (ss ! i)) + unat (usage_slots us' ! i) = unat (slot_n (user_slots usr ! i)) + unat (usage_slots us ! i)"
  shows "user_ok n mx e C' u (usr\<lparr>user_slots := ss, usages := (usages usr)(a \<mapsto> us')\<rparr>)"
proof -
  let ?usr = "usr\<lparr>user_slots := ss, usages := (usages usr)(a \<mapsto> us')\<rparr>"
  have eq: "?usr = (usr\<lparr>usages := (usages usr)(a \<mapsto> us')\<rparr>)\<lparr>user_slots := ss\<rparr>" by simp
  have con: "consumed ?usr i + unat (usage_slots us ! i) = consumed usr i + unat (usage_slots us' ! i)" for i
    unfolding eq consumed_cong by (rule consumed_upd [OF finite us])
  have bal: "slot_max (ss ! i) = mx ! i \<and> unat (slot_n (ss ! i)) + consumed ?usr i = unat (mx ! i)" if "i < n" for i
  proof -
    have "slot_max (user_slots usr ! i) = mx ! i"
      "unat (slot_n (user_slots usr ! i)) + consumed usr i = unat (mx ! i)"
      using ok that by (simp_all add: user_ok_def)
    with slots [OF that] con [of i] show ?thesis by (intro conjI) (metis, linarith)
  qed
  have usg: "usage_ok n C' (u, b) x" if "usages ?usr b = Some x" for b x
  proof (cases "b = a")
    case True
    with that us' show ?thesis by simp
  next
    case False
    with that ok have "usage_ok n C (u, b) x" by (simp add: user_ok_def)
    with same [OF False] show ?thesis by (simp add: usage_ok_def)
  qed
  show ?thesis
    using ok us len bal usg by (simp add: user_ok_def)
qed

lemma user_inv_upd_usage:
  assumes inv: "user_inv reg ext C" and usr: "users reg u = Some usr" and us: "usages usr a = Some us"
    and same: "same_elsewhere u C C'"
      "\<And>b. b \<noteq> a \<Longrightarrow> pins C' (u, b) = pins C (u, b) \<and> held C' (u, b) = held C (u, b)"
    and us': "usage_ok (n_slots reg) C' (u, a) us'"
    and len: "length ss = n_slots reg"
    and slots: "\<And>i. i < n_slots reg \<Longrightarrow> slot_max (ss ! i) = slot_max (user_slots usr ! i) \<and>
      unat (slot_n (ss ! i)) + unat (usage_slots us' ! i) = unat (slot_n (user_slots usr ! i)) + unat (usage_slots us ! i)"
    and frame: "users reg' = (users reg)(u \<mapsto> usr\<lparr>user_slots := ss, usages := (usages usr)(a \<mapsto> us')\<rparr>)"
      "n_slots reg' = n_slots reg" "maxima reg' = maxima reg"
    and ch: "\<And>c. c \<in># C' \<Longrightarrow> charge_ok reg c"
  shows "user_inv reg' ext C'"
proof (rule user_inv_update [OF inv same(1)])
  show "case Some (usr\<lparr>user_slots := ss, usages := (usages usr)(a \<mapsto> us')\<rparr>) of None \<Rightarrow> ext u = 0
    | Some usr \<Rightarrow> user_ok (n_slots reg) (maxima reg) (ext u) C' u usr"
    using user_ok_upd_usage [OF user_inv_ok [OF inv usr] us same(2) us' len slots] by simp
  show "charge_ok reg' c" if "c \<in># C'" for c
    by (rule charge_ok_update [OF ch [OF that] usr frame(1)]) (use us frame in auto)
qed (use frame in simp_all)

lemma user_inv_member: "user_inv reg ext C \<Longrightarrow> c \<in># C \<Longrightarrow> charge_ok reg c"
  by (simp add: user_inv_def)

text \<open>Taking and dropping a reference on a usage.\<close>

lemma user_usage_ref_inv:
  assumes inv: "user_inv reg ext C" and usr: "users reg u = Some usr" and us: "usages usr a = Some us"
    and slot: "slot < n_slots reg"
  shows "\<exists>reg'. user_usage_ref reg u a = Some reg' \<and> user_inv reg' ext (add_mset (pin u a slot) C) \<and>
    users reg' = (users reg)(u \<mapsto> usr\<lparr>usages := (usages usr)(a \<mapsto> us\<lparr>usage_refs := usage_refs us + 1\<rparr>)\<rparr>) \<and>
    n_slots reg' = n_slots reg \<and> reg_log reg' = reg_log reg"
proof -
  let ?us = "us\<lparr>usage_refs := usage_refs us + 1\<rparr>"
  let ?reg = "upd_usage u a (\<lambda>us. us\<lparr>usage_refs := usage_refs us + 1\<rparr>) reg"
  have ok: "usage_ok (n_slots reg) C (u, a) us" using inv usr us by (rule user_inv_usage_ok)
  have "user_inv ?reg ext (add_mset (pin u a slot) C)"
  proof (rule user_inv_upd_usage [OF inv usr us, where us' = ?us and ss = "user_slots usr"])
    show "usage_ok (n_slots reg) (add_mset (pin u a slot) C) (u, a) ?us"
      using ok by (simp add: usage_ok_def)
    show "length (user_slots usr) = n_slots reg" using user_inv_ok [OF inv usr] by (simp add: user_ok_def)
    show "charge_ok reg c" if "c \<in># add_mset (pin u a slot) C" for c
      using that inv usr us slot by (auto simp: charge_ok_def [of _ "pin u a slot"] user_inv_member)
  qed (use usr us in \<open>auto simp: fun_eq_iff\<close>)
  moreover have "user_usage_ref reg u a = Some ?reg"
    using usr us ok by (simp add: user_usage_ref_def usage_ok_def)
  ultimately show ?thesis using usr us by auto
qed

lemma pins_zero_notin: "\<lbrakk>pins C k = 0; c \<in># C\<rbrakk> \<Longrightarrow> ch_usage c \<noteq> Some k"
  by (auto simp: pins_def)

lemma charge_ok_other:
  assumes "charge_ok reg c" "users reg u = Some usr" "ch_usage c \<noteq> Some (u, a)"
    "users reg' = (users reg)(u \<mapsto> usr')" "usages usr' = (usages usr)(a := None)" "n_slots reg' = n_slots reg"
  shows "charge_ok reg' c"
  using assms by (auto simp: charge_ok_def split: option.splits)

lemma user_ok_unlink:
  assumes ok: "user_ok n mx e (add_mset (pin u a slot) C) u usr" and us: "usages usr a = Some us"
    and last: "pins C (u, a) = 0" and pos: "0 < e + card (dom (usages usr) - {a})"
  shows "user_ok n mx e C u (user_usage_unlink a usr\<lparr>user_refs := user_refs usr - 1\<rparr>)"
proof -
  let ?usr = "user_usage_unlink a usr\<lparr>user_refs := user_refs usr - 1\<rparr>"
  have zero: "unat (usage_slots us ! i) = 0" if "i < n" for i
    using ok us that held_unpinned [OF last] by (simp add: user_ok_def usage_ok_def)
  have a: "a \<in> dom (usages usr)" using us by auto
  then have card: "card (dom (usages usr)) = Suc (card (dom (usages usr) - {a}))"
    by (intro card_Suc_Diff1 [symmetric] finite)
  have con: "consumed ?usr i = consumed usr i" if "i < n" for i
    using consumed_unlink [OF finite us, of i] zero [OF that]
    by (simp add: user_usage_unlink_def)
  have dom: "dom (usages ?usr) = dom (usages usr) - {a}" by (auto simp: user_usage_unlink_def)
  have usg: "usage_ok n C (u, b) x" if "usages ?usr b = Some x" for b x
    using that ok by (auto simp: user_ok_def usage_ok_def user_usage_unlink_def split: if_splits)
  have eqs: "user_refs ?usr = user_refs usr - 1" "n_usages ?usr = n_usages usr - 1"
    "user_slots ?usr = user_slots usr"
    by (simp_all add: user_usage_unlink_def)
  show ?thesis
    unfolding user_ok_def eqs dom
    using ok con usg pos card by (simp add: user_ok_def)
qed

lemma user_usage_unref_inv:
  assumes inv: "user_inv reg ext (add_mset (pin u a slot) C)"
  shows "\<exists>reg'. user_usage_unref reg u a = Some reg' \<and> user_inv reg' ext C \<and>
    n_slots reg' = n_slots reg \<and> maxima reg' = maxima reg \<and> reg_log reg' = reg_log reg"
proof -
  obtain usr us where usr: "users reg u = Some usr" and us: "usages usr a = Some us"
    using inv by (rule user_inv_chargeD) simp
  have ok: "user_ok (n_slots reg) (maxima reg) (ext u) (add_mset (pin u a slot) C) u usr"
    using inv usr by (rule user_inv_ok)
  then have uok: "usage_ok (n_slots reg) (add_mset (pin u a slot) C) (u, a) us"
    using us by (simp add: user_ok_def)
  let ?dec = "\<lambda>us. us\<lparr>usage_refs := usage_refs us - 1\<rparr>"
  show ?thesis
  proof (cases "pins C (u, a) = 0")
    case False
    have "user_inv (upd_usage u a ?dec reg) ext C"
    proof (rule user_inv_upd_usage [OF inv usr us, where us' = "?dec us" and ss = "user_slots usr"])
      show "usage_ok (n_slots reg) C (u, a) (?dec us)"
        using uok False by (simp add: usage_ok_def)
      show "length (user_slots usr) = n_slots reg" using ok by (simp add: user_ok_def)
      show "charge_ok reg c" if "c \<in># C" for c using inv that by (simp add: user_inv_def)
    qed (use usr us in \<open>auto simp: fun_eq_iff\<close>)
    then show ?thesis
      using usr us uok False by (simp add: user_usage_unref_def usage_ok_def)
  next
    case True
    let ?usr = "usr\<lparr>usages := (usages usr)(a \<mapsto> ?dec us)\<rparr>"
    let ?usr' = "user_usage_unlink a ?usr\<lparr>user_refs := user_refs usr - 1\<rparr>"
    have z: "list_all (\<lambda>s. s = 0) (usage_slots us)"
      using uok held_unpinned [OF True]
      by (auto simp: usage_ok_def list_all_length unat_eq_0 split: if_splits)
    have refs: "user_refs usr = ext u + card (dom (usages usr))" "0 < card (dom (usages usr))"
      using ok us by (auto simp: user_ok_def card_gt_0_iff)
    have free: "user_usage_unref reg u a =
        user_unref (upd_user u (user_usage_unlink a) (upd_usage u a ?dec reg)) u"
      using usr us uok True z by (simp add: user_usage_unref_def usage_ok_def user_usage_free_def)
    have eq': "user_usage_unlink a ?usr = user_usage_unlink a usr"
      by (simp add: user_usage_unlink_def)
    have others: "charge_ok reg c" "ch_usage c \<noteq> Some (u, a)" if "c \<in># C" for c
      using that inv pins_zero_notin [OF True] by (auto simp: user_inv_def)
    show ?thesis
    proof (cases "user_refs usr = 1")
      case False
      let ?reg = "upd_user u (\<lambda>usr. usr\<lparr>user_refs := user_refs usr - 1\<rparr>)
          (upd_user u (user_usage_unlink a) (upd_usage u a ?dec reg))"
      have pos: "0 < ext u + card (dom (usages usr) - {a})"
        using False refs us by (auto simp: card_Diff_singleton_if)
      have "user_inv ?reg ext C"
      proof (rule user_inv_update [OF inv, where u = u])
        show "case Some (user_usage_unlink a usr\<lparr>user_refs := user_refs usr - 1\<rparr>) of None \<Rightarrow> ext u = 0
          | Some usr \<Rightarrow> user_ok (n_slots reg) (maxima reg) (ext u) C u usr"
          using user_ok_unlink [OF ok us True pos] by simp
        show fr: "users ?reg = (users reg)(u := Some (user_usage_unlink a usr\<lparr>user_refs := user_refs usr - 1\<rparr>))"
          using usr us by (simp add: fun_eq_iff user_usage_unlink_def)
        show "charge_ok ?reg c" if "c \<in># C" for c
          by (rule charge_ok_other [OF others(1) [OF that] usr others(2) [OF that] fr])
            (simp_all add: user_usage_unlink_def)
      qed (simp_all)
      then show ?thesis
        using usr us free refs False by (simp add: user_unref_def user_usage_unlink_def)
    next
      case last: True
      with refs have e: "ext u = 0" and c1: "card (dom (usages usr)) = 1" by simp_all
      with us have d: "dom (usages usr) = {a}" by (metis card_1_singletonE domI singletonD)
      then have empty: "(usages usr)(a := None) = Map.empty"
        by (auto simp: fun_eq_iff domIff)
      have con: "consumed usr i = 0" if "i < n_slots reg" for i
        using that uok held_unpinned [OF True] us by (simp add: consumed_def d usage_ok_def)
      have full: "list_all (\<lambda>s. slot_n s = slot_max s) (user_slots usr)"
        using ok con by (auto simp: user_ok_def list_all_length intro: unat_eq_nat_uint word_unat_eq_iff [THEN iffD2])
      let ?reg = "reg\<lparr>users := (users reg)(u := None)\<rparr>"
      have "user_inv ?reg ext C"
      proof (rule user_inv_update [OF inv, where u = u and x = None])
        show "charge_ok ?reg c" if "c \<in># C" for c
        proof -
          from others [OF that] d us usr show ?thesis
            by (auto simp: charge_ok_def split: option.splits)
        qed
      qed (use e in simp_all)
      moreover have "user_usage_unref reg u a = Some ?reg"
        using usr us free last full empty ok c1
        by (simp add: user_unref_def user_free_def user_usage_unlink_def upd_user_def upd_usage_def user_ok_def)
      ultimately show ?thesis by simp
    qed
  qed
qed

text \<open>Pinning a usage, which is created on the first charge of an actor.\<close>

lemma user_ok_link:
  assumes ok: "user_ok n mx e C u usr" and none: "usages usr a = None"
    and unpinned: "pins C (u, a) = 0" and us: "us = \<lparr>usage_refs = 1, usage_logged = False, usage_slots = replicate n 0\<rparr>"
  shows "user_ok n mx e (add_mset (pin u a slot) C) u
    (user_usage_link a us (usr\<lparr>user_refs := user_refs usr + 1\<rparr>))"
proof -
  let ?usr = "user_usage_link a us (usr\<lparr>user_refs := user_refs usr + 1\<rparr>)"
  have dom: "dom (usages ?usr) = insert a (dom (usages usr))" by (simp add: user_usage_link_def)
  have card: "card (insert a (dom (usages usr))) = Suc (card (dom (usages usr)))"
    using none by (simp add: card_insert_if domIff)
  have con: "consumed ?usr i = consumed usr i" if "i < n" for i
  proof -
    have "consumed ?usr i = consumed (usr\<lparr>usages := (usages usr)(a \<mapsto> us)\<rparr>) i"
      by (rule consumed_eqI) (simp add: user_usage_link_def)
    with consumed_link [OF finite none, of us i] us that show ?thesis by simp
  qed
  have usg: "usage_ok n (add_mset (pin u a slot) C) (u, b) x" if "usages ?usr b = Some x" for b x
    using that ok us unpinned held_unpinned [OF unpinned]
    by (auto simp: user_ok_def usage_ok_def user_usage_link_def split: if_splits)
  have eqs: "user_refs ?usr = user_refs usr + 1" "n_usages ?usr = n_usages usr + 1"
    "user_slots ?usr = user_slots usr"
    by (simp_all add: user_usage_link_def)
  show ?thesis
    unfolding user_ok_def eqs dom card
    using ok con usg by (simp add: user_ok_def)
qed

lemma user_inv_no_usage_unpinned:
  assumes inv: "user_inv reg ext C" and usr: "users reg u = Some usr" and none: "usages usr a = None"
  shows "pins C (u, a) = 0"
proof (rule ccontr)
  assume "pins C (u, a) \<noteq> 0"
  then obtain c where c: "c \<in># C" "ch_usage c = Some (u, a)"
    by (auto simp: pins_def filter_mset_eq_mempty_iff)
  from user_inv_member [OF inv c(1)] c(2) usr none show False by (auto simp: charge_ok_def)
qed

lemma user_ref_usage_inv:
  assumes inv: "user_inv reg ext C" and usr: "users reg u = Some usr" and slot: "slot < n_slots reg"
  shows "\<exists>r reg'. user_ref_usage mem reg u a = Some (r, reg') \<and>
    n_slots reg' = n_slots reg \<and> maxima reg' = maxima reg \<and>
    (if r = USER_OK then user_inv reg' ext (add_mset (pin u a slot) C)
     else r = USER_ENOMEM \<and> \<not> mem \<and> reg' = reg)"
proof (cases "usages usr a")
  case (Some us)
  from user_usage_ref_inv [OF inv usr Some slot] obtain reg' where
    "user_usage_ref reg u a = Some reg'" "user_inv reg' ext (add_mset (pin u a slot) C)" "n_slots reg' = n_slots reg"
    by blast
  moreover from this(1) have "maxima reg' = maxima reg"
    using usr Some by (auto simp: user_usage_ref_def split: if_splits)
  ultimately show ?thesis using usr Some by (simp add: user_ref_usage_def)
next
  case None
  show ?thesis
  proof (cases mem)
    case False
    with usr None show ?thesis by (simp add: user_ref_usage_def)
  next
    case True
    let ?us = "\<lparr>usage_refs = 1, usage_logged = False, usage_slots = replicate (n_slots reg) 0\<rparr>"
    let ?usr = "user_usage_link a ?us (usr\<lparr>user_refs := user_refs usr + 1\<rparr>)"
    let ?reg = "upd_user u (user_usage_link a ?us) (upd_user u (\<lambda>usr. usr\<lparr>user_refs := user_refs usr + 1\<rparr>) reg)"
    have ok: "user_ok (n_slots reg) (maxima reg) (ext u) C u usr" using inv usr by (rule user_inv_ok)
    then have refs: "0 < user_refs usr" by (simp add: user_ok_def)
    have unp: "pins C (u, a) = 0" using inv usr None by (rule user_inv_no_usage_unpinned)
    have fr: "users ?reg = (users reg)(u \<mapsto> ?usr)" using usr by (simp add: fun_eq_iff)
    have "user_inv ?reg ext (add_mset (pin u a slot) C)"
    proof (rule user_inv_update [OF inv, where u = u])
      show "case Some ?usr of None \<Rightarrow> ext u = 0
        | Some usr \<Rightarrow> user_ok (n_slots reg) (maxima reg) (ext u) (add_mset (pin u a slot) C) u usr"
        using user_ok_link [OF ok None unp refl] by simp
      show "users ?reg = (users reg)(u := Some ?usr)" by (rule fr)
      show "charge_ok ?reg c" if "c \<in># add_mset (pin u a slot) C" for c
      proof (cases "c = pin u a slot")
        case True
        with fr slot show ?thesis by (simp add: charge_ok_def user_usage_link_def)
      next
        case False
        with that inv have "charge_ok reg c" by (auto simp: user_inv_member)
        then show ?thesis
          by (rule charge_ok_update [OF _ usr fr]) (auto simp: user_usage_link_def)
      qed
    qed simp_all
    moreover have "user_ref_usage mem reg u a = Some (USER_OK, ?reg)"
      using True usr None refs by (simp add: user_ref_usage_def user_ref_def user_usage_new_def)
    ultimately show ?thesis by simp
  qed
qed

text \<open>Moving an amount between the budget of a user and a charge.\<close>

lemma user_inv_move:
  assumes inv: "user_inv reg ext (add_mset ch C)" and ch: "ch_usage ch = Some (u, a)"
    and usr: "users reg u = Some usr" and us: "usages usr a = Some us"
    and bal: "unat y + unat z = unat (slot_n (user_slots usr ! ch_slot ch)) + unat (usage_slots us ! ch_slot ch)"
      "unat z + unat (ch_charge ch) = unat (usage_slots us ! ch_slot ch) + unat x"
    and frame: "users reg' = (users reg)(u \<mapsto>
        usr\<lparr>user_slots := (user_slots usr)[ch_slot ch := (user_slots usr ! ch_slot ch)\<lparr>slot_n := y\<rparr>],
            usages := (usages usr)(a \<mapsto> us\<lparr>usage_slots := (usage_slots us)[ch_slot ch := z]\<rparr>)\<rparr>)"
      "n_slots reg' = n_slots reg" "maxima reg' = maxima reg"
  shows "user_inv reg' ext (add_mset (ch\<lparr>ch_charge := x\<rparr>) C)"
proof (rule user_inv_upd_usage [OF inv usr us _ _ _ _ _ frame])
  have ok: "user_ok (n_slots reg) (maxima reg) (ext u) (add_mset ch C) u usr"
    using inv usr by (rule user_inv_ok)
  then have uok: "usage_ok (n_slots reg) (add_mset ch C) (u, a) us" using us by (simp add: user_ok_def)
  have slot: "ch_slot ch < n_slots reg" using user_inv_charge [OF inv] ch by (simp add: charge_ok_def)
  have len: "length (user_slots usr) = n_slots reg" using ok by (simp add: user_ok_def)
  have ul: "length (usage_slots us) = n_slots reg" using uok by (simp add: usage_ok_def)
  show "same_elsewhere u (add_mset ch C) (add_mset (ch\<lparr>ch_charge := x\<rparr>) C)" using ch by simp
  show "pins (add_mset (ch\<lparr>ch_charge := x\<rparr>) C) (u, b) = pins (add_mset ch C) (u, b) \<and>
      held (add_mset (ch\<lparr>ch_charge := x\<rparr>) C) (u, b) = held (add_mset ch C) (u, b)" if "b \<noteq> a" for b
    using that ch by (simp add: fun_eq_iff)
  show "usage_ok (n_slots reg) (add_mset (ch\<lparr>ch_charge := x\<rparr>) C) (u, a)
      (us\<lparr>usage_slots := (usage_slots us)[ch_slot ch := z]\<rparr>)"
    using uok ch bal(2) slot by (auto simp: usage_ok_def nth_list_update)
  show "length ((user_slots usr)[ch_slot ch := (user_slots usr ! ch_slot ch)\<lparr>slot_n := y\<rparr>]) = n_slots reg"
    using len by simp
  show "slot_max ((user_slots usr)[ch_slot ch := (user_slots usr ! ch_slot ch)\<lparr>slot_n := y\<rparr>] ! i) =
        slot_max (user_slots usr ! i) \<and>
      unat (slot_n ((user_slots usr)[ch_slot ch := (user_slots usr ! ch_slot ch)\<lparr>slot_n := y\<rparr>] ! i)) +
        unat (usage_slots (us\<lparr>usage_slots := (usage_slots us)[ch_slot ch := z]\<rparr>) ! i) =
      unat (slot_n (user_slots usr ! i)) + unat (usage_slots us ! i)" if "i < n_slots reg" for i
    using that len ul bal(1) by (cases "i = ch_slot ch") simp_all
  show "charge_ok reg c" if "c \<in># add_mset (ch\<lparr>ch_charge := x\<rparr>) C" for c
    using that inv ch by (auto simp: user_inv_def charge_ok_def)
qed

text \<open>The amounts of a slot never exceed its maximum.\<close>

lemma user_inv_slot_bound:
  assumes inv: "user_inv reg ext (add_mset ch C)" and ch: "ch_usage ch = Some (u, a)"
    and usr: "users reg u = Some usr" and us: "usages usr a = Some us"
  shows "unat (slot_n (user_slots usr ! ch_slot ch)) + unat (usage_slots us ! ch_slot ch) < 2 ^ 32"
    and "unat (ch_charge ch) \<le> unat (usage_slots us ! ch_slot ch)"
proof -
  have ok: "user_ok (n_slots reg) (maxima reg) (ext u) (add_mset ch C) u usr"
    using inv usr by (rule user_inv_ok)
  have slot: "ch_slot ch < n_slots reg" using user_inv_charge [OF inv] ch by (simp add: charge_ok_def)
  have "unat (slot_n (user_slots usr ! ch_slot ch)) + consumed usr (ch_slot ch) = unat (maxima reg ! ch_slot ch)"
    using ok slot by (simp add: user_ok_def)
  moreover have "unat (usage_slots us ! ch_slot ch) \<le> consumed usr (ch_slot ch)"
    using us by (intro consumed_ge finite)
  moreover have "unat (maxima reg ! ch_slot ch) < 2 ^ 32" by simp
  ultimately show "unat (slot_n (user_slots usr ! ch_slot ch)) + unat (usage_slots us ! ch_slot ch) < 2 ^ 32"
    by linarith
  show "unat (ch_charge ch) \<le> unat (usage_slots us ! ch_slot ch)"
    using ok slot us ch by (simp add: user_ok_def usage_ok_def)
qed

lemma user_charge_deinit_inv:
  assumes inv: "user_inv reg ext (add_mset ch C)"
  shows "\<exists>ch' reg'. user_charge_deinit reg ch = Some (ch', reg') \<and> user_inv reg' ext C \<and>
    ch_usage ch' = None \<and> ch_charge ch' = 0 \<and>
    n_slots reg' = n_slots reg \<and> maxima reg' = maxima reg \<and> reg_log reg' = reg_log reg"
proof (cases "ch_usage ch")
  case None
  with inv show ?thesis by (simp add: user_charge_deinit_def user_inv_unused)
next
  case (Some k)
  obtain u a where k: "k = (u, a)" by fastforce
  with Some have chu: "ch_usage ch = Some (u, a)" by simp
  obtain usr us where usr: "users reg u = Some usr" and us: "usages usr a = Some us"
    using inv chu by (rule user_inv_chargeD)
  note bound = user_inv_slot_bound [OF inv chu usr us]
  let ?y = "slot_n (user_slots usr ! ch_slot ch) + ch_charge ch"
  let ?z = "usage_slots us ! ch_slot ch - ch_charge ch"
  let ?r1 = "upd_user u (\<lambda>usr. usr\<lparr>user_slots := (user_slots usr)[ch_slot ch := (user_slots usr ! ch_slot ch)
      \<lparr>slot_n := slot_n (user_slots usr ! ch_slot ch) + ch_charge ch\<rparr>]\<rparr>) reg"
  let ?r2 = "upd_usage u a (\<lambda>us. us\<lparr>usage_slots := (usage_slots us)[ch_slot ch :=
      usage_slots us ! ch_slot ch - ch_charge ch]\<rparr>) ?r1"
  have "user_inv ?r2 ext (add_mset (ch\<lparr>ch_charge := 0\<rparr>) C)"
  proof (rule user_inv_move [OF inv chu usr us, where y = ?y and z = ?z])
    show "unat ?y + unat ?z = unat (slot_n (user_slots usr ! ch_slot ch)) + unat (usage_slots us ! ch_slot ch)"
      using bound by (simp add: unat_plus_no_wrap unat_minus_no_wrap)
    show "unat ?z + unat (ch_charge ch) = unat (usage_slots us ! ch_slot ch) + unat (0 :: u32)"
      using bound by (simp add: unat_minus_no_wrap)
  qed (use usr us in \<open>simp_all add: fun_eq_iff\<close>)
  moreover have "ch\<lparr>ch_charge := 0\<rparr> = pin u a (ch_slot ch)" using chu by simp
  ultimately have "user_inv ?r2 ext (add_mset (pin u a (ch_slot ch)) C)" by simp
  from user_usage_unref_inv [OF this] obtain reg' where
    "user_usage_unref ?r2 u a = Some reg'" "user_inv reg' ext C" "n_slots reg' = n_slots reg"
    "maxima reg' = maxima reg" "reg_log reg' = reg_log reg"
    by auto
  then show ?thesis using chu by (simp add: user_charge_deinit_def Let_def)
qed

text \<open>
  The one bound the accounting relies on: \<open>users + 1\<close> of the quota check must not wrap,
  so a user has fewer than \<open>2\<^sup>32 - 1\<close> actors (each of them is an allocated object).
\<close>

definition few_actors :: "user_registry \<Rightarrow> uid \<Rightarrow> bool" where
  "few_actors reg u \<longleftrightarrow> (\<forall>usr. users reg u = Some usr \<longrightarrow> card (dom (usages usr)) < 2 ^ 32 - 2)"

lemma user_inv_logged:
  assumes inv: "user_inv reg ext C" and usr: "users reg u = Some usr" and us: "usages usr a = Some us"
  shows "user_inv (upd_usage u a (\<lambda>us. us\<lparr>usage_logged := True\<rparr>) (reg\<lparr>reg_log := l\<rparr>)) ext C"
proof (rule user_inv_upd_usage [OF inv usr us, where us' = "us\<lparr>usage_logged := True\<rparr>" and ss = "user_slots usr"])
  show "usage_ok (n_slots reg) C (u, a) (us\<lparr>usage_logged := True\<rparr>)"
    using user_inv_usage_ok [OF inv usr us] by (simp add: usage_ok_def)
  show "length (user_slots usr) = n_slots reg" using user_inv_ok [OF inv usr] by (simp add: user_ok_def)
  show "charge_ok reg c" if "c \<in># C" for c using inv that by (rule user_inv_member)
qed (use usr us in \<open>auto simp: fun_eq_iff\<close>)

lemma commit_log_inv:
  assumes inv: "user_inv reg ext C" and usr: "users reg u = Some usr" and us: "usages usr a = Some us"
    and slot: "slot < n_slots reg"
  shows "\<exists>r reg'. user_charge_commit_log log_ok reg u a slot amount = Some (r, reg') \<and>
    user_inv reg' ext C \<and> n_slots reg' = n_slots reg \<and> maxima reg' = maxima reg \<and>
    (r = USER_OK \<or> r = USER_ELOG)"
  using assms user_inv_logged [OF inv usr us]
  by (auto simp: user_charge_commit_log_def split: option.splits)

text \<open>The budget that a charge leaves on a slot of a user.\<close>

definition remaining :: "user_registry \<Rightarrow> uid \<Rightarrow> nat \<Rightarrow> u32" where
  "remaining reg u i = (case users reg u of None \<Rightarrow> maxima reg ! i | Some usr \<Rightarrow> slot_n (user_slots usr ! i))"

lemma user_charge_apply_inv:
  assumes inv: "user_inv reg ext (add_mset ch C)" and ch: "ch_usage ch = Some (u, a)"
    and few: "\<And>usr. users reg u = Some usr \<Longrightarrow> card (dom (usages usr)) < 2 ^ 32 - 1"
  shows "\<exists>r ch' reg'. user_charge_apply log_ok reg u ch a (ch_slot ch) amount = Some (r, ch', reg') \<and>
    user_inv reg' ext (add_mset ch' C) \<and> n_slots reg' = n_slots reg \<and> maxima reg' = maxima reg \<and>
    ch_usage ch' = Some (u, a) \<and> ch_slot ch' = ch_slot ch \<and>
    (if r = USER_OK then unat (ch_charge ch') = unat (ch_charge ch) + unat amount
     else ch' = ch \<and> (r = USER_E_QUOTA \<or> r = USER_ELOG))"
proof -
  obtain usr us where usr: "users reg u = Some usr" and us: "usages usr a = Some us"
    and slot: "ch_slot ch < n_slots reg"
    using inv ch by (rule user_inv_chargeD)
  note bound = user_inv_slot_bound [OF inv ch usr us]
  let ?s = "user_slots usr ! ch_slot ch" and ?x = "usage_slots us ! ch_slot ch"
  let ?ok = "if u = a then amount \<le> slot_n ?s
     else user_charge_check (slot_n ?s) (n_usages usr) ?x amount = USER_OK"
  let ?reg = "upd_usage u a (\<lambda>us. us\<lparr>usage_slots := (usage_slots us)[ch_slot ch := usage_slots us ! ch_slot ch + amount]\<rparr>)
      (upd_user u (\<lambda>usr. usr\<lparr>user_slots := (user_slots usr)[ch_slot ch := ?s\<lparr>slot_n := slot_n ?s - amount\<rparr>]\<rparr>) reg)"
  show ?thesis
  proof (cases ?ok)
    case True
    have n: "unat (n_usages usr) + 1 < 2 ^ 32"
    proof -
      have "n_usages usr = of_nat (card (dom (usages usr)))"
        using user_inv_ok [OF inv usr] by (simp add: user_ok_def)
      then show ?thesis using few [OF usr] by (simp add: unat_of_nat)
    qed
    have le: "unat amount \<le> unat (slot_n ?s)"
      using True user_charge_check_remaining [OF n bound(1)]
      by (auto simp: word_le_nat_alt split: if_splits)
    have sums: "unat (slot_n ?s - amount) = unat (slot_n ?s) - unat amount"
      "unat (?x + amount) = unat ?x + unat amount"
      "unat (ch_charge ch + amount) = unat (ch_charge ch) + unat amount"
      using le bound by (simp_all add: unat_minus_no_wrap unat_plus_no_wrap)
    have "user_inv ?reg ext (add_mset (ch\<lparr>ch_charge := ch_charge ch + amount\<rparr>) C)"
      by (rule user_inv_move [OF inv ch usr us, where y = "slot_n ?s - amount" and z = "?x + amount"])
        (use sums le usr us in \<open>auto simp: fun_eq_iff\<close>)
    moreover have "user_charge_apply log_ok reg u ch a (ch_slot ch) amount =
        Some (USER_OK, ch\<lparr>ch_charge := ch_charge ch + amount\<rparr>, ?reg)"
      using True usr us slot by (simp add: user_charge_apply_def Let_def)
    ultimately show ?thesis using sums ch by simp
  next
    case False
    from commit_log_inv [OF inv usr us slot, of log_ok amount] obtain r reg' where
      log: "user_charge_commit_log log_ok reg u a (ch_slot ch) amount = Some (r, reg')"
      "user_inv reg' ext (add_mset ch C)" "n_slots reg' = n_slots reg" "maxima reg' = maxima reg"
      "r = USER_OK \<or> r = USER_ELOG"
      by blast
    have "user_charge_apply log_ok reg u ch a (ch_slot ch) amount =
        Some (if r = USER_OK then USER_E_QUOTA else r, ch, reg')"
      using False usr us slot log(1) by (simp add: user_charge_apply_def Let_def)
    with log ch show ?thesis by auto
  qed
qed

lemma user_ref_usage_actors:
  assumes "user_ref_usage mem reg u a = Some (r, reg')" "users reg u = Some usr" "users reg' u = Some usr'"
  shows "card (dom (usages usr')) \<le> Suc (card (dom (usages usr)))"
  using assms
  by (auto simp: user_ref_usage_def user_ref_def user_usage_ref_def user_usage_link_def card_insert_if
      split: option.splits if_splits)

lemma user_charge_fresh_inv:
  assumes inv: "user_inv reg ext C" and usr: "users reg u = Some usr"
    and card: "card (dom (usages usr)) < 2 ^ 32 - 2" and slot: "slot < n_slots reg"
    and ch: "ch_usage ch = None" "ch_charge ch = 0" and amount: "amount \<noteq> 0" and a: "charge_actor u actor = a"
  shows "\<exists>r ch' reg'. user_charge mem log_ok reg (Some u) ch actor slot amount = Some (r, ch', reg') \<and>
    user_inv reg' ext (add_mset ch' C) \<and> n_slots reg' = n_slots reg \<and> maxima reg' = maxima reg \<and>
    (if r = USER_OK then unat (ch_charge ch') = unat amount \<and> ch_usage ch' = Some (u, a) \<and> ch_slot ch' = slot
     else ch_charge ch' = 0 \<and> (r = USER_E_QUOTA \<longrightarrow> ch_usage ch' = Some (u, a)))"
proof -
  from user_ref_usage_inv [OF inv usr slot, of mem a] obtain r reg1 where
    r: "user_ref_usage mem reg u a = Some (r, reg1)" "n_slots reg1 = n_slots reg" "maxima reg1 = maxima reg"
    and ok: "if r = USER_OK then user_inv reg1 ext (add_mset (pin u a slot) C)
      else r = USER_ENOMEM \<and> \<not> mem \<and> reg1 = reg"
    by blast
  show ?thesis
  proof (cases "r = USER_OK")
    case False
    then have "user_charge mem log_ok reg (Some u) ch actor slot amount = Some (r, ch, reg)"
      using r ok ch amount a by (simp add: user_charge_def Let_def)
    with False inv ch ok show ?thesis by (auto simp: user_inv_unused)
  next
    case True
    have p: "ch\<lparr>ch_usage := Some (u, a), ch_slot := slot\<rparr> = pin u a slot" using ch by simp
    have inv1: "user_inv reg1 ext (add_mset (pin u a slot) C)" using ok True by simp
    have few1: "card (dom (usages usr')) < 2 ^ 32 - 1" if "users reg1 u = Some usr'" for usr'
      using user_ref_usage_actors [OF r(1) usr that] card by linarith
    have pu: "ch_usage (pin u a slot) = Some (u, a)" by simp
    from user_charge_apply_inv [OF inv1 pu few1, of log_ok amount]
    obtain r' ch' reg2 where ap:
      "user_charge_apply log_ok reg1 u (pin u a slot) a slot amount = Some (r', ch', reg2)"
      "user_inv reg2 ext (add_mset ch' C)" "n_slots reg2 = n_slots reg1" "maxima reg2 = maxima reg1"
      "ch_usage ch' = Some (u, a)" "ch_slot ch' = slot"
      "if r' = USER_OK then unat (ch_charge ch') = unat amount else ch' = pin u a slot"
      by (auto split: if_splits)
    have "user_charge mem log_ok reg (Some u) ch actor slot amount = Some (r', ch', reg2)"
      using ap(1) r True ch amount a by (simp add: user_charge_def Let_def p)
    with ap r show ?thesis by (auto split: if_splits)
  qed
qed

lemma user_charge_again_inv:
  assumes inv: "user_inv reg ext (add_mset ch C)" and usr: "users reg u = Some usr"
    and card: "card (dom (usages usr)) < 2 ^ 32 - 2"
    and ch: "ch_usage ch = Some (u, a)" and amount: "amount \<noteq> 0" and a: "charge_actor u actor = a"
  shows "\<exists>r ch' reg'. user_charge mem log_ok reg (Some u) ch actor (ch_slot ch) amount = Some (r, ch', reg') \<and>
    user_inv reg' ext (add_mset ch' C) \<and> n_slots reg' = n_slots reg \<and> maxima reg' = maxima reg \<and>
    (if r = USER_OK then unat (ch_charge ch') = unat (ch_charge ch) + unat amount \<and>
       ch_usage ch' = Some (u, a) \<and> ch_slot ch' = ch_slot ch
     else ch_charge ch' = ch_charge ch)"
proof -
  let ?p = "pin u a (ch_slot ch)"
  obtain us where us: "usages usr a = Some us" and slot: "ch_slot ch < n_slots reg"
    using user_inv_charge [OF inv] ch usr by (auto simp: charge_ok_def)
  from user_usage_ref_inv [OF inv usr us slot] obtain reg1 where
    r1: "user_usage_ref reg u a = Some reg1" "user_inv reg1 ext (add_mset ?p (add_mset ch C))"
      "users reg1 = (users reg)(u \<mapsto> usr\<lparr>usages := (usages usr)(a \<mapsto> us\<lparr>usage_refs := usage_refs us + 1\<rparr>)\<rparr>)"
      "n_slots reg1 = n_slots reg"
    by blast
  have mx1: "maxima reg1 = maxima reg" using r1(1) usr us by (auto simp: user_usage_ref_def split: if_splits)
  have inv1: "user_inv reg1 ext (add_mset ch (add_mset ?p C))" using r1(2) by (simp add: add_mset_commute)
  have few1: "card (dom (usages usr')) < 2 ^ 32 - 1" if "users reg1 u = Some usr'" for usr'
    using that r1(3) card us by auto
  from user_charge_apply_inv [OF inv1 ch few1, of log_ok amount]
  obtain r' ch' reg2 where
    ap: "user_charge_apply log_ok reg1 u ch a (ch_slot ch) amount = Some (r', ch', reg2)"
      "user_inv reg2 ext (add_mset ch' (add_mset ?p C))" "n_slots reg2 = n_slots reg1"
      "maxima reg2 = maxima reg1" "ch_usage ch' = Some (u, a)" "ch_slot ch' = ch_slot ch"
      "if r' = USER_OK then unat (ch_charge ch') = unat (ch_charge ch) + unat amount
       else ch' = ch \<and> (r' = USER_E_QUOTA \<or> r' = USER_ELOG)"
    by blast
  have "user_inv reg2 ext (add_mset ?p (add_mset ch' C))" using ap(2) by (simp add: add_mset_commute)
  from user_usage_unref_inv [OF this] obtain reg3 where
    un: "user_usage_unref reg2 u a = Some reg3" "user_inv reg3 ext (add_mset ch' C)"
    "n_slots reg3 = n_slots reg2" "maxima reg3 = maxima reg2"
    by blast
  have "user_charge mem log_ok reg (Some u) ch actor (ch_slot ch) amount = Some (r', ch', reg3)"
    using ap(1) r1(1) un(1) ch amount a by (simp add: user_charge_def Let_def)
  with un ap r1(4) mx1 show ?thesis by (auto split: if_splits)
qed

text \<open>The preconditions of \<open>user_charge\<close>: the user exists, and the charge is unused or on the same combination.\<close>

definition chargeable :: "user_registry \<Rightarrow> uid option \<Rightarrow> user_charge \<Rightarrow> uid option \<Rightarrow> nat \<Rightarrow> bool" where
  "chargeable reg user ch actor slot \<longleftrightarrow> slot < n_slots reg \<and>
     (case user of None \<Rightarrow> True
      | Some u \<Rightarrow> users reg u \<noteq> None \<and> few_actors reg u \<and>
          (ch_usage ch = None \<or> (ch_usage ch = Some (u, charge_actor u actor) \<and> ch_slot ch = slot)))"

lemma user_charge_inv:
  assumes inv: "user_inv reg ext (add_mset ch C)" and pre: "chargeable reg user ch actor slot"
  shows "\<exists>r ch' reg'. user_charge mem log_ok reg user ch actor slot amount = Some (r, ch', reg') \<and>
    user_inv reg' ext (add_mset ch' C) \<and> n_slots reg' = n_slots reg \<and> maxima reg' = maxima reg \<and>
    unat (ch_charge ch') =
      unat (ch_charge ch) + (if r = USER_OK \<and> user \<noteq> None then unat amount else 0)"
proof (cases "amount = 0 \<or> user = None")
  case True
  with inv show ?thesis by (auto simp: user_charge_def)
next
  case False
  then obtain u where u: "user = Some u" and am: "amount \<noteq> 0" by blast
  obtain usr where usr: "users reg u = Some usr" and card: "card (dom (usages usr)) < 2 ^ 32 - 2"
    using pre u by (auto simp: chargeable_def few_actors_def)
  show ?thesis
  proof (cases "ch_usage ch")
    case None
    with inv have "user_inv reg ext C" "ch_charge ch = 0" by (simp_all add: user_inv_unused)
    from user_charge_fresh_inv [OF this(1) usr card _ None this(2) am refl, where mem = mem and log_ok = log_ok and slot = slot and actor = actor]
    show ?thesis using pre u \<open>ch_charge ch = 0\<close> by (auto simp: chargeable_def split: if_splits)
  next
    case (Some k)
    with pre u have k: "ch_usage ch = Some (u, charge_actor u actor)" "slot = ch_slot ch"
      by (auto simp: chargeable_def)
    from user_charge_again_inv [OF inv usr card k(1) am refl, where mem = mem and log_ok = log_ok]
    show ?thesis unfolding u k(2) by (auto split: if_splits)
  qed
qed

lemma ref_usage_slots:
  "user_ref_usage mem reg u a = Some (r, reg') \<Longrightarrow> (r = USER_OK \<or> r = USER_ENOMEM \<and> \<not> mem) \<and> (\<forall>v i. remaining reg' v i = remaining reg v i)"
  by (auto simp: user_ref_usage_def user_ref_def user_usage_ref_def user_usage_link_def upd_user_def upd_usage_def remaining_def
      split: option.splits if_splits bind_splits)

lemma commit_log_result:
  "user_charge_commit_log log_ok reg u a slot amount = Some (r, reg') \<Longrightarrow> r = USER_OK \<or> r = USER_ELOG \<and> \<not> log_ok"
  by (auto simp: user_charge_commit_log_def Let_def split: option.splits if_splits bind_splits)

lemma charge_apply_self:
  "user_charge_apply log_ok reg u ch u slot amount = Some (r, ch', reg') \<Longrightarrow>
   (r = USER_OK \<longleftrightarrow> amount \<le> remaining reg u slot) \<and> r \<noteq> USER_ENOMEM \<and> (r = USER_OK \<or> r = USER_E_QUOTA \<or> \<not> log_ok) \<and>
   (r = USER_OK \<and> slot' \<noteq> slot \<longrightarrow> remaining reg' u slot' = remaining reg u slot')"
  by (auto simp: user_charge_apply_def Let_def remaining_def upd_user_def upd_usage_def split: option.splits if_splits bind_splits
      dest!: commit_log_result)

text \<open>A fresh charge of the user itself: it is refused exactly if the budget that remains does not cover it.\<close>

lemma user_charge_self:
  assumes "user_charge mem log_ok reg (Some u) user_charge_init None slot amount = Some (r, ch, reg')"
  shows "(amount \<le> remaining reg u slot \<longrightarrow> r = USER_OK \<or> r = USER_ENOMEM \<and> \<not> mem) \<and>
    (r = USER_OK \<longrightarrow> amount \<le> remaining reg u slot) \<and> (mem \<and> log_ok \<longrightarrow> r = USER_OK \<or> r = USER_E_QUOTA) \<and>
    (r = USER_OK \<and> slot' \<noteq> slot \<longrightarrow> remaining reg' u slot' = remaining reg u slot')"
proof (cases "amount = 0")
  case False
  let ?ch = "user_charge_init\<lparr>ch_usage := Some (u, u), ch_slot := slot\<rparr>"
  from assms False obtain r1 reg1 where
    1: "user_ref_usage mem reg u u = Some (r1, reg1)"
      "if r1 = USER_OK then user_charge_apply log_ok reg1 u ?ch u slot amount = Some (r, ch, reg') else r = r1 \<and> reg' = reg1"
    by (auto simp: user_charge_def charge_actor_def user_charge_init_def Let_def split: bind_splits if_splits)
  note s = ref_usage_slots [OF 1(1)]
  show ?thesis
  proof (cases "r1 = USER_OK")
    case True
    with charge_apply_self [of log_ok reg1 u ?ch slot amount r ch reg' slot'] 1(2) s show ?thesis by auto
  next
    case False
    with 1(2) s show ?thesis by auto
  qed
qed (use assms in \<open>simp add: user_charge_def\<close>)

section \<open>References to users\<close>

lemma user_registry_init_inv: "n \<le> length mx \<Longrightarrow> user_inv (snd (user_registry_init mem l n mx)) (\<lambda>_. 0) {#}"
  by (simp add: user_inv_def user_registry_init_def)

lemma user_ok_ext:
  "\<lbrakk>user_ok n mx e C u usr; e' + card (dom (usages usr)) = r; 0 < r\<rbrakk>
     \<Longrightarrow> user_ok n mx e' C u (usr\<lparr>user_refs := r\<rparr>)"
  by (auto simp: user_ok_def)

lemma user_inv_none: "\<lbrakk>user_inv reg ext C; users reg u = None\<rbrakk> \<Longrightarrow> ext u = 0"
  unfolding user_inv_def by (metis option.simps(4))

lemma user_ref_inv:
  assumes inv: "user_inv reg ext C" and usr: "users reg u = Some usr"
  shows "\<exists>reg'. user_ref reg u = Some reg' \<and> user_inv reg' (ext(u := ext u + 1)) C"
proof -
  have ok: "user_ok (n_slots reg) (maxima reg) (ext u) C u usr" using inv usr by (rule user_inv_ok)
  let ?usr = "usr\<lparr>user_refs := user_refs usr + 1\<rparr>"
  let ?reg = "upd_user u (\<lambda>usr. usr\<lparr>user_refs := user_refs usr + 1\<rparr>) reg"
  have fr: "users ?reg = (users reg)(u \<mapsto> ?usr)" using usr by simp
  have "user_inv ?reg (ext(u := ext u + 1)) C"
  proof (rule user_inv_update [OF inv, where u = u])
    show "case Some ?usr of None \<Rightarrow> (ext(u := ext u + 1)) u = 0
      | Some usr \<Rightarrow> user_ok (n_slots reg) (maxima reg) ((ext(u := ext u + 1)) u) C u usr"
      using user_ok_ext [OF ok, of "ext u + 1" "user_refs usr + 1"] ok by (simp add: user_ok_def)
    show "charge_ok ?reg c" if "c \<in># C" for c
      by (rule charge_ok_update [OF user_inv_member [OF inv that] usr fr]) auto
  qed (use fr in simp_all)
  moreover have "0 < user_refs usr" using ok by (simp add: user_ok_def)
  ultimately show ?thesis using usr by (simp add: user_ref_def)
qed

lemma user_new_ok: "length mx = n \<Longrightarrow> n_slots reg = n \<Longrightarrow> maxima reg = mx \<Longrightarrow> user_ok n mx 1 C u (user_new reg)"
  by (simp add: user_ok_def user_new_def consumed_def)

lemma user_registry_ref_user_inv:
  assumes inv: "user_inv reg ext C"
  shows "\<exists>r reg'. user_registry_ref_user mem reg u = Some (r, reg') \<and>
    (if r = USER_OK then users reg' u \<noteq> None \<and> user_inv reg' (ext(u := ext u + 1)) C
     else r = USER_ENOMEM \<and> reg' = reg \<and> \<not> mem)"
proof (cases "users reg u")
  case (Some usr)
  from user_ref_inv [OF inv Some] show ?thesis
    using Some by (auto simp: user_registry_ref_user_def user_ref_def split: if_splits)
next
  case None
  then have e: "ext u = 0" using inv by (simp add: user_inv_none)
  let ?reg = "reg\<lparr>users := (users reg)(u \<mapsto> user_new reg)\<rparr>"
  have "user_inv ?reg (ext(u := ext u + 1)) C"
  proof (rule user_inv_update [OF inv, where u = u])
    show "case Some (user_new reg) of None \<Rightarrow> (ext(u := ext u + 1)) u = 0
      | Some usr \<Rightarrow> user_ok (n_slots reg) (maxima reg) ((ext(u := ext u + 1)) u) C u usr"
      using user_new_ok [of "maxima reg" "n_slots reg"] inv e by (simp add: user_inv_def)
    show "charge_ok ?reg c" if "c \<in># C" for c
      using user_inv_member [OF inv that] None by (auto simp: charge_ok_def split: option.splits)
  qed simp_all
  with None show ?thesis by (simp add: user_registry_ref_user_def)
qed

lemma user_unref_inv:
  assumes inv: "user_inv reg ext C" and ext: "0 < ext u"
  shows "\<exists>reg'. user_unref reg u = Some reg' \<and> user_inv reg' (ext(u := ext u - 1)) C"
proof -
  from inv ext obtain usr where usr: "users reg u = Some usr"
    by (cases "users reg u") (auto dest: user_inv_none)
  have ok: "user_ok (n_slots reg) (maxima reg) (ext u) C u usr" using inv usr by (rule user_inv_ok)
  then have refs: "user_refs usr = ext u + card (dom (usages usr))" by (simp add: user_ok_def)
  show ?thesis
  proof (cases "user_refs usr = 1")
    case False
    let ?usr = "usr\<lparr>user_refs := user_refs usr - 1\<rparr>"
    let ?reg = "upd_user u (\<lambda>usr. usr\<lparr>user_refs := user_refs usr - 1\<rparr>) reg"
    have fr: "users ?reg = (users reg)(u \<mapsto> ?usr)" using usr by simp
    have "user_inv ?reg (ext(u := ext u - 1)) C"
    proof (rule user_inv_update [OF inv, where u = u])
      show "case Some ?usr of None \<Rightarrow> (ext(u := ext u - 1)) u = 0
        | Some usr \<Rightarrow> user_ok (n_slots reg) (maxima reg) ((ext(u := ext u - 1)) u) C u usr"
        using user_ok_ext [OF ok, of "ext u - 1" "user_refs usr - 1"] refs ext False by simp
      show "charge_ok ?reg c" if "c \<in># C" for c
        by (rule charge_ok_update [OF user_inv_member [OF inv that] usr fr]) auto
    qed (use fr in simp_all)
    with usr refs ext False show ?thesis by (simp add: user_unref_def)
  next
    case True
    with refs ext have e: "ext u = 1" and "card (dom (usages usr)) = 0" by linarith+
    then have empty: "usages usr = Map.empty" by simp
    then have con: "consumed usr i = 0" for i by (simp add: consumed_def)
    have full: "list_all (\<lambda>s. slot_n s = slot_max s) (user_slots usr)"
      using ok con by (auto simp: user_ok_def list_all_length word_unat_eq_iff)
    let ?reg = "reg\<lparr>users := (users reg)(u := None)\<rparr>"
    have "user_inv ?reg (ext(u := ext u - 1)) C"
    proof (rule user_inv_update [OF inv, where u = u and x = None])
      show "charge_ok ?reg c" if "c \<in># C" for c
        using user_inv_member [OF inv that] usr empty by (auto simp: charge_ok_def split: option.splits)
    qed (use e in simp_all)
    moreover have "user_unref reg u = Some ?reg"
      using usr True full empty ok by (simp add: user_unref_def user_free_def upd_user_def user_ok_def)
    ultimately show ?thesis by simp
  qed
qed

section \<open>Conservation\<close>

definition charged :: "user_charge multiset \<Rightarrow> uid \<Rightarrow> nat \<Rightarrow> nat" where
  "charged C u i =
     (\<Sum>c \<in># C. if map_option fst (ch_usage c) = Some u \<and> ch_slot c = i then unat (ch_charge c) else 0)"

lemma charged_held: "charged C u i = (\<Sum>a \<in> UNIV. held C (u, a) i)"
proof (induction C)
  case (add c C)
  have "(\<Sum>a \<in> UNIV. if ch_usage c = Some (u, a) \<and> ch_slot c = i then unat (ch_charge c) else 0)
      = (if map_option fst (ch_usage c) = Some u \<and> ch_slot c = i then unat (ch_charge c) else 0)"
  proof (cases "ch_usage c")
    case (Some k)
    obtain v b where k: "k = (v, b)" by fastforce
    have "(\<lambda>a. if ch_usage c = Some (u, a) \<and> ch_slot c = i then unat (ch_charge c) else 0)
        = (\<lambda>a. if a = b then (if v = u \<and> ch_slot c = i then unat (ch_charge c) else 0) else 0)"
      using Some k by (auto simp: fun_eq_iff)
    then show ?thesis using Some k by auto
  qed simp
  with add show ?case by (simp add: charged_def sum.distrib)
qed (simp add: charged_def)

lemma user_inv_conservation:
  assumes inv: "user_inv reg ext C" and i: "i < n_slots reg"
  shows "unat (remaining reg u i) + charged C u i = unat (maxima reg ! i)"
proof (cases "users reg u")
  case None
  have "held C (u, a) i = 0" for a
  proof (rule held_unpinned, rule ccontr)
    assume "pins C (u, a) \<noteq> 0"
    then obtain c where c: "c \<in># C" "ch_usage c = Some (u, a)"
      by (auto simp: pins_def filter_mset_eq_mempty_iff)
    with user_inv_member [OF inv c(1)] None show False by (auto simp: charge_ok_def)
  qed
  then show ?thesis using None by (simp add: remaining_def charged_held)
next
  case (Some usr)
  have ok: "user_ok (n_slots reg) (maxima reg) (ext u) C u usr" using inv Some by (rule user_inv_ok)
  have "held C (u, a) i = 0" if "a \<notin> dom (usages usr)" for a
    using that user_inv_no_usage_unpinned [OF inv Some] by (intro held_unpinned) (auto simp: domIff)
  then have "charged C u i = (\<Sum>a \<in> dom (usages usr). held C (u, a) i)"
    unfolding charged_held by (intro sum.mono_neutral_right) auto
  also have "\<dots> = consumed usr i"
    unfolding consumed_def using ok i by (intro sum.cong) (auto simp: user_ok_def usage_ok_def)
  finally show ?thesis using ok i Some by (simp add: remaining_def user_ok_def)
qed

section \<open>The accounting interface\<close>

text \<open>
  What a component that embeds charge objects relies on: a fresh charge can always be
  charged and any charge can be released, and both keep the accounting invariant over
  the multiset of live charges. The lemmas are about the charges a component holds.
\<close>

locale accounting =
  fixes inv :: "'reg \<Rightarrow> user_charge multiset \<Rightarrow> bool"
    and charge :: "'reg \<Rightarrow> 'arg \<Rightarrow> user_charge \<Rightarrow> (user_ret \<times> user_charge \<times> 'reg) option"
    and release :: "'reg \<Rightarrow> user_charge \<Rightarrow> (user_charge \<times> 'reg) option"
    and can_charge :: "'reg \<Rightarrow> 'arg \<Rightarrow> bool"
  assumes unused: "inv reg (add_mset user_charge_init C) = inv reg C"
    and charge_inv: "\<lbrakk>inv reg C; can_charge reg x\<rbrakk> \<Longrightarrow>
      \<exists>r ch reg'. charge reg x user_charge_init = Some (r, ch, reg') \<and> inv reg' (add_mset ch C)"
    and release_inv: "inv reg (add_mset ch C) \<Longrightarrow>
      \<exists>ch' reg'. release reg ch = Some (ch', reg') \<and> inv reg' C"
begin

text \<open>Charging a new object and releasing it again never aborts and leaves the other charges accounted for.\<close>

lemma charge_release:
  assumes "inv reg C" "can_charge reg x"
  shows "\<exists>r ch reg1 ch' reg2. charge reg x user_charge_init = Some (r, ch, reg1) \<and>
    release reg1 ch = Some (ch', reg2) \<and> inv reg2 C"
  using charge_inv [OF assms] release_inv by blast

end

interpretation user_account: accounting
  "\<lambda>reg. user_inv reg ext"
  "\<lambda>reg (mem, log_ok, user, actor, slot, amount) ch. user_charge mem log_ok reg user ch actor slot amount"
  user_charge_deinit
  "\<lambda>reg (mem, log_ok, user, actor, slot, amount). chargeable reg user user_charge_init actor slot"
  for ext
proof
  fix reg C and x :: "bool \<times> bool \<times> uid option \<times> uid option \<times> nat \<times> u32"
  show unused: "user_inv reg ext (add_mset user_charge_init C) = user_inv reg ext C"
    by (simp add: user_inv_unused user_charge_init_def)
  obtain mem log_ok user actor slot amount where x: "x = (mem, log_ok, user, actor, slot, amount)"
    by (cases x) auto
  assume "user_inv reg ext C" and pre: "case x of (mem, log_ok, user, actor, slot, amount) \<Rightarrow>
    chargeable reg user user_charge_init actor slot"
  then have "user_inv reg ext (add_mset user_charge_init C)" by (simp add: unused)
  from user_charge_inv [OF this, of user actor slot mem log_ok amount] pre x
  show "\<exists>r ch reg'. (case x of (mem, log_ok, user, actor, slot, amount) \<Rightarrow>
      \<lambda>ch. user_charge mem log_ok reg user ch actor slot amount) user_charge_init = Some (r, ch, reg') \<and>
    user_inv reg' ext (add_mset ch C)"
    by auto
next
  show "\<exists>ch' reg'. user_charge_deinit reg ch = Some (ch', reg') \<and> user_inv reg' ext C"
    if "user_inv reg ext (add_mset ch C)" for reg ch C
    using user_charge_deinit_inv [OF that] by blast
qed

section \<open>Properties of the accounting\<close>

text \<open>
  C3: a charge is applied exactly if it is within the quota. For a user whose slot has
  \<open>remaining\<close> units left, of which the actor already holds \<open>share\<close>, and which \<open>n\<close>
  actors use, the check succeeds exactly if the actor's new total is at most a fraction
  \<open>1/(n+1)\<close> of what is left plus what the actor already holds; the arithmetic never
  overflows unnoticed, and an accepted amount is always still available.
\<close>
theorem user_charge_check_quota:
  assumes "unat n < 2 ^ 32 - 1" "unat rem + unat share < 2 ^ 32"
  shows "(user_charge_check rem n share amount = USER_OK \<longleftrightarrow>
      unat amount + unat share \<le> (unat rem + unat share) div (unat n + 1)) \<and>
    (user_charge_check rem n share amount = USER_OK \<longrightarrow> amount \<le> rem)"
proof -
  have n: "unat n + 1 < 2 ^ 32" using assms(1) by simp
  have "(unat n + 1) * (unat amount + unat share) \<le> unat rem + unat share \<longleftrightarrow>
      unat amount + unat share \<le> (unat rem + unat share) div (unat n + 1)"
    by (simp add: less_eq_div_iff_mult_less_eq mult.commute)
  with user_charge_check_iff [OF n assms(2)] user_charge_check_remaining [OF n assms(2)]
  show ?thesis unfolding word_le_nat_alt by blast
qed

theorem user_charge_check_quota_witness:
  "unat (1 :: u32) < 2 ^ 32 - 1 \<and> unat (10 :: u32) + unat (2 :: u32) < 2 ^ 32 \<and>
   user_charge_check 10 1 2 4 = USER_OK \<and> user_charge_check 10 1 2 5 = USER_E_QUOTA"
proof -
  have pre: "unat (1 :: u32) < 2 ^ 32 - 1" "unat (10 :: u32) + unat (2 :: u32) < 2 ^ 32" by simp_all
  have "user_charge_check 10 1 2 5 \<noteq> USER_OK" "user_charge_check 10 1 2 4 = USER_OK"
    using user_charge_check_quota [OF pre, of 5] user_charge_check_quota [OF pre, of 4]
    by (simp_all add: numeral_2_eq_2 [symmetric])
  then show ?thesis using pre by (simp add: user_charge_check_def split: if_splits)
qed

text \<open>
  C4: charging keeps the accounts. If the accounting invariant holds for all live
  charges and the charge object is unused or already charged on the same user, actor and
  slot, then \<open>user_charge\<close> returns without failing an assertion whatever the outcome of
  the allocation and of the log, the invariant holds again with the updated charge, and
  the charge has grown by exactly the amount if the call succeeded and not at all
  otherwise.
\<close>
theorem user_charge_keeps_accounts:
  assumes "user_inv reg ext (add_mset ch C)" "chargeable reg user ch actor slot"
  shows "\<exists>r ch' reg'. user_charge mem log_ok reg user ch actor slot amount = Some (r, ch', reg') \<and>
    user_inv reg' ext (add_mset ch' C) \<and>
    unat (ch_charge ch') =
      unat (ch_charge ch) + (if r = USER_OK \<and> user \<noteq> None then unat amount else 0)"
  using user_charge_inv [OF assms] by blast

text \<open>
  C13: releasing gives everything back. Under the invariant \<open>user_charge_deinit\<close> never
  fails an assertion, also when it drops the last reference to a usage and to a user; the
  charge is unused afterwards, the invariant holds for the remaining charges, and on
  every slot the budget of every user grows by exactly what this charge held.
\<close>
theorem user_charge_deinit_gives_back:
  assumes "user_inv reg ext (add_mset ch C)"
  shows "\<exists>ch' reg'. user_charge_deinit reg ch = Some (ch', reg') \<and>
    ch_usage ch' = None \<and> ch_charge ch' = 0 \<and> user_inv reg' ext C \<and>
    (\<forall>u i. i < n_slots reg \<longrightarrow>
       unat (remaining reg' u i) = unat (remaining reg u i) +
         (if map_option fst (ch_usage ch) = Some u \<and> ch_slot ch = i then unat (ch_charge ch) else 0))"
proof -
  from user_charge_deinit_inv [OF assms] obtain ch' reg' where
    d: "user_charge_deinit reg ch = Some (ch', reg')" "user_inv reg' ext C" "ch_usage ch' = None"
      "ch_charge ch' = 0" "n_slots reg' = n_slots reg" "maxima reg' = maxima reg"
    by blast
  have "unat (remaining reg' u i) = unat (remaining reg u i) +
      (if map_option fst (ch_usage ch) = Some u \<and> ch_slot ch = i then unat (ch_charge ch) else 0)"
    if "i < n_slots reg" for u i
  proof -
    have "charged (add_mset ch C) u i = charged C u i +
        (if map_option fst (ch_usage ch) = Some u \<and> ch_slot ch = i then unat (ch_charge ch) else 0)"
      by (simp add: charged_def)
    with user_inv_conservation [OF assms that, of u] user_inv_conservation [OF d(2), of i u] d(5,6) that
    show ?thesis by simp
  qed
  with d show ?thesis by blast
qed

text \<open>
  Conservation of resources. In every state that satisfies the invariant, for every
  user and every slot, what is left of the budget and the amounts of all live charges on
  that user add up to the configured maximum of the slot.
\<close>
theorem user_accounts_conserved:
  assumes "user_inv reg ext C" "i < n_slots reg"
  shows "unat (remaining reg u i) + charged C u i = unat (maxima reg ! i)"
  using assms by (rule user_inv_conservation)

text \<open>A registry with one referenced user, for the witnesses.\<close>

definition one_user :: "nat \<Rightarrow> u32 list \<Rightarrow> uid \<Rightarrow> user_registry" where
  "one_user n mx u = (snd (user_registry_init True None n mx))
     \<lparr>users := [u \<mapsto> user_new (snd (user_registry_init True None n mx))]\<rparr>"

lemma one_user_inv:
  assumes "n \<le> length mx"
  shows "user_inv (one_user n mx u) ((\<lambda>_. 0)(u := 1)) {#}"
proof -
  have "user_registry_ref_user True (snd (user_registry_init True None n mx)) u = Some (USER_OK, one_user n mx u)"
    by (simp add: user_registry_ref_user_def one_user_def user_registry_init_def user_new_def)
  with user_registry_ref_user_inv [OF user_registry_init_inv [OF assms, of True None], of True u]
  show ?thesis by auto
qed

lemma one_user_chargeable:
  "slot < n \<Longrightarrow> ch_usage ch = None \<Longrightarrow> chargeable (one_user n mx u) (Some u) ch actor slot"
  by (simp add: chargeable_def one_user_def few_actors_def user_registry_init_def user_new_def)

lemma one_user_sel [simp]: "n_slots (one_user n mx u) = n" "maxima (one_user n mx u) = take n mx"
  by (simp_all add: one_user_def user_registry_init_def)

theorem user_charge_keeps_accounts_witness:
  "user_inv (one_user 4 [100, 10, 10, 10] 1) ((\<lambda>_. 0)(1 := 1)) {#user_charge_init#} \<and>
   (\<exists>r ch' reg'. user_charge True True (one_user 4 [100, 10, 10, 10] 1) (Some 1) user_charge_init None 3 7
      = Some (r, ch', reg') \<and> user_inv reg' ((\<lambda>_. 0)(1 := 1)) {#ch'#})"
proof -
  have inv: "user_inv (one_user 4 [100, 10, 10, 10] 1) ((\<lambda>_. 0)(1 := 1)) {#user_charge_init#}"
    using one_user_inv [of 4 "[100, 10, 10, 10]" 1] by (simp add: user_inv_unused user_charge_init_def)
  have "chargeable (one_user 4 [100, 10, 10, 10] 1) (Some 1) user_charge_init None 3"
    by (rule one_user_chargeable) (simp_all add: user_charge_init_def)
  from user_charge_keeps_accounts [OF inv this, of True True 7] inv show ?thesis by blast
qed

theorem user_charge_deinit_gives_back_witness:
  "user_inv (one_user 4 [100, 10, 10, 10] 1) ((\<lambda>_. 0)(1 := 1)) {#user_charge_init#} \<and>
   (\<exists>ch' reg'. user_charge_deinit (one_user 4 [100, 10, 10, 10] 1) user_charge_init = Some (ch', reg') \<and>
      user_inv reg' ((\<lambda>_. 0)(1 := 1)) {#})"
proof -
  have inv: "user_inv (one_user 4 [100, 10, 10, 10] 1) ((\<lambda>_. 0)(1 := 1)) {#user_charge_init#}"
    using one_user_inv [of 4 "[100, 10, 10, 10]" 1] by (simp add: user_inv_unused user_charge_init_def)
  from user_charge_deinit_gives_back [OF inv] inv show ?thesis by blast
qed

theorem user_accounts_conserved_witness:
  "user_inv (one_user 4 [100, 10, 10, 10] 1) ((\<lambda>_. 0)(1 := 1)) {#} \<and>
   unat (remaining (one_user 4 [100, 10, 10, 10] 1) 1 3) + charged {#} 1 3 = 10"
  using user_accounts_conserved [OF one_user_inv [of 4 "[100, 10, 10, 10]" 1], of 3 1]
    one_user_inv [of 4 "[100, 10, 10, 10]" 1]
  by (simp add: charged_def)

end
