(* ===== verification/Queue.thy ===== *)
theory Queue
  imports User
begin

text \<open>
  The input queue of a connection (\<open>src/dbus/queue.h\<close>, \<open>src/dbus/queue.c\<close>): bytes arrive in
  an input buffer or directly in the buffer of the pending message, and leave it as lines
  during authentication and as messages afterwards.

  \<open>iq_data\<close> is the memory \<open>data\<close> points to, so \<open>data_size\<close> is its length; \<open>iq_heap\<close> tells
  whether it is the allocated one, in which case \<open>iq_buffer\<close> is what the built-in buffer
  still holds. The target of the pending message is its memory (its length is \<open>n_data\<close>),
  and a list of file descriptors is an optional list of numbers. Differences of positions
  are over the naturals; the invariant shows that none of them is negative.
\<close>

section \<open>The queue\<close>

datatype iqueue_ret = IQUEUE_OK | IQUEUE_E_PENDING | IQUEUE_E_QUOTA | IQUEUE_E_VIOLATION
  | IQUEUE_ENOMEM | IQUEUE_ERR user_ret

definition IQUEUE_LINE_MAX :: nat where "IQUEUE_LINE_MAX = 16 * 1024"
definition IQUEUE_RECV_MAX :: nat where "IQUEUE_RECV_MAX = 2 * 1024"

record iqueue =
  iq_user :: "uid option"
  charge_data :: user_charge
  charge_fds :: user_charge
  iq_data :: string
  iq_heap :: bool
  iq_buffer :: string
  data_start :: nat
  data_end :: nat
  data_cursor :: nat
  iq_fds :: "int list option"
  pending_charge_data :: user_charge
  pending_charge_fds :: user_charge
  pending_data :: "string option"
  pending_copied :: nat
  pending_fds :: "int list option"

definition data_size :: "iqueue \<Rightarrow> nat" where
  "data_size iq = length (iq_data iq)"

definition pending_size :: "iqueue \<Rightarrow> nat" where
  "pending_size iq = (case pending_data iq of None \<Rightarrow> 0 | Some d \<Rightarrow> length d)"

definition fdlist_count :: "int list option \<Rightarrow> nat" where
  "fdlist_count fds = (case fds of None \<Rightarrow> 0 | Some l \<Rightarrow> length l)"

definition iqueue_null :: "uid option \<Rightarrow> string \<Rightarrow> iqueue" where
  "iqueue_null user buffer = \<lparr>iq_user = user, charge_data = user_charge_init, charge_fds = user_charge_init,
     iq_data = buffer, iq_heap = False, iq_buffer = [], data_start = 0, data_end = 0, data_cursor = 0,
     iq_fds = None, pending_charge_data = user_charge_init, pending_charge_fds = user_charge_init,
     pending_data = None, pending_copied = 0, pending_fds = None\<rparr>"

definition iqueue_init :: "uid option \<Rightarrow> string \<Rightarrow> user_registry \<Rightarrow> (iqueue \<times> user_registry) option" where
  "iqueue_init user buffer us = do {
     us \<leftarrow> (case user of None \<Rightarrow> Some us | Some u \<Rightarrow> user_ref us u);
     Some (iqueue_null user buffer, us) }"

definition iqueue_flush :: "iqueue \<Rightarrow> user_registry \<Rightarrow> (iqueue \<times> user_registry) option" where
  "iqueue_flush iq us = do {
     let iq = iq\<lparr>data_start := 0, data_end := 0, data_cursor := 0, iq_fds := None,
                 pending_data := None, pending_copied := 0, pending_fds := None\<rparr>;
     (c, us) \<leftarrow> user_charge_deinit us (charge_fds iq);
     (pf, us) \<leftarrow> user_charge_deinit us (pending_charge_fds iq);
     (pd, us) \<leftarrow> user_charge_deinit us (pending_charge_data iq);
     Some (iq\<lparr>charge_fds := c, pending_charge_fds := pf, pending_charge_data := pd\<rparr>, us) }"

definition iqueue_deinit :: "iqueue \<Rightarrow> user_registry \<Rightarrow> (iqueue \<times> user_registry) option" where
  "iqueue_deinit iq us = do {
     (iq, us) \<leftarrow> iqueue_flush iq us;
     _ \<leftarrow> c_assert (iq_fds iq = None);
     _ \<leftarrow> c_assert (pending_data iq = None);
     _ \<leftarrow> c_assert (pending_fds iq = None);
     let iq = (if iq_heap iq then iq\<lparr>iq_heap := False, iq_data := iq_buffer iq\<rparr> else iq);
     (pf, us) \<leftarrow> user_charge_deinit us (pending_charge_fds iq);
     (pd, us) \<leftarrow> user_charge_deinit us (pending_charge_data iq);
     (cf, us) \<leftarrow> user_charge_deinit us (charge_fds iq);
     (cd, us) \<leftarrow> user_charge_deinit us (charge_data iq);
     us \<leftarrow> (case iq_user iq of None \<Rightarrow> Some us | Some u \<Rightarrow> user_unref us u);
     Some (iq\<lparr>pending_charge_fds := pf, pending_charge_data := pd, charge_fds := cf, charge_data := cd,
              iq_user := None\<rparr>, us) }"

definition iqueue_is_eof :: "iqueue \<Rightarrow> bool" where
  "iqueue_is_eof iq \<longleftrightarrow> data_cursor iq \<ge> data_end iq \<and>
     (pending_data iq = None \<or> pending_copied iq < pending_size iq)"

definition iqueue_set_target ::
  "bool \<Rightarrow> bool \<Rightarrow> iqueue \<Rightarrow> user_registry \<Rightarrow> string \<Rightarrow> (iqueue_ret \<times> iqueue \<times> user_registry) option" where
  "iqueue_set_target mem log_ok iq us d = do {
     _ \<leftarrow> c_assert (pending_data iq = None);
     (r, ch, us) \<leftarrow> user_charge mem log_ok us (iq_user iq) (pending_charge_data iq) None USER_SLOT_BYTES (of_nat (length d));
     let iq = iq\<lparr>pending_charge_data := ch\<rparr>;
     if r \<noteq> USER_OK then Some (if r = USER_E_QUOTA then IQUEUE_E_QUOTA else IQUEUE_ERR r, iq, us)
     else Some (IQUEUE_OK, iq\<lparr>pending_data := Some d, pending_copied := 0\<rparr>, us) }"

text \<open>Where the next bytes go: the memory, the position of the first one, and the end of the room.\<close>

datatype cursor = INPUT nat nat | TARGET nat nat

definition iqueue_shift :: "iqueue \<Rightarrow> iqueue" where
  "iqueue_shift iq = iq\<lparr>
     iq_data := take (data_end iq - data_start iq) (drop (data_start iq) (iq_data iq)) @
       drop (data_end iq - data_start iq) (iq_data iq),
     data_cursor := data_cursor iq - data_start iq,
     data_end := data_end iq - data_start iq,
     data_start := 0\<rparr>"

definition iqueue_room :: "iqueue \<Rightarrow> cursor" where
  "iqueue_room iq =
     (if pending_size iq - pending_copied iq \<ge> data_size iq - data_end iq
      then TARGET (pending_copied iq) (pending_size iq)
      else INPUT (data_end iq)
        (if data_size iq - data_end iq > IQUEUE_RECV_MAX then data_end iq + IQUEUE_RECV_MAX else data_size iq))"

text \<open>\<open>fresh\<close> is what the allocated memory contains at first.\<close>

definition iqueue_get_cursor ::
  "bool \<Rightarrow> bool \<Rightarrow> bool \<Rightarrow> string \<Rightarrow> iqueue \<Rightarrow> user_registry \<Rightarrow>
   (iqueue_ret \<times> cursor option \<times> iqueue \<times> user_registry) option" where
  "iqueue_get_cursor mem mem' log_ok fresh iq us =
     (let iq = iqueue_shift iq in
      if data_cursor iq < data_end iq then Some (IQUEUE_E_PENDING, None, iq, us)
      else if data_size iq \<le> data_end iq then
        (if data_size iq \<ge> IQUEUE_LINE_MAX then Some (IQUEUE_E_VIOLATION, None, iq, us)
         else if \<not> mem then Some (IQUEUE_ENOMEM, None, iq, us)
         else do {
           (r, ch, us) \<leftarrow> user_charge mem' log_ok us (iq_user iq) (charge_data iq) None USER_SLOT_BYTES (of_nat IQUEUE_LINE_MAX);
           let iq = iq\<lparr>charge_data := ch\<rparr>;
           if r \<noteq> USER_OK then Some (if r = USER_E_QUOTA then IQUEUE_E_QUOTA else IQUEUE_ERR r, None, iq, us)
           else do {
             _ \<leftarrow> c_assert (data_start iq = 0);
             _ \<leftarrow> c_assert (\<not> iq_heap iq);
             let iq = iq\<lparr>iq_heap := True, iq_buffer := iq_data iq,
                         iq_data := take (data_end iq) (iq_data iq) @ drop (data_end iq) fresh\<rparr>;
             Some (IQUEUE_OK, Some (iqueue_room iq), iq, us) } })
      else if iq_heap iq \<and> pending_data iq \<noteq> None then do {
        _ \<leftarrow> c_assert (data_start iq = 0);
        _ \<leftarrow> c_assert (data_end iq \<le> length (iq_buffer iq));
        (ch, us) \<leftarrow> user_charge_deinit us (charge_data iq);
        let iq = iq\<lparr>charge_data := ch, iq_heap := False,
                    iq_data := take (data_end iq) (iq_data iq) @ drop (data_end iq) (iq_buffer iq)\<rparr>;
        Some (IQUEUE_OK, Some (iqueue_room iq), iq, us) }
      else Some (IQUEUE_OK, Some (iqueue_room iq), iq, us))"

text \<open>The loop of \<open>iqueue_pop_line\<close>; the line is returned as the bytes it consists of.\<close>

function iqueue_scan_line :: "iqueue \<Rightarrow> iqueue_ret \<times> string option \<times> iqueue" where
  "iqueue_scan_line iq =
     (if data_cursor iq < data_end iq then
        if data_cursor iq + 1 \<ge> data_end iq \<and> fdlist_count (iq_fds iq) > 0 then (IQUEUE_E_VIOLATION, None, iq)
        else if data_cursor iq > 0 \<and> iq_data iq ! data_cursor iq = CHR 0x0A \<and>
                iq_data iq ! (data_cursor iq - 1) = CHR 0x0D then
          (let n = data_cursor iq - data_start iq - 1 in
           (IQUEUE_OK, Some (take n (drop (data_start iq) (iq_data iq))),
            iq\<lparr>data_cursor := data_cursor iq + 1, data_start := data_cursor iq + 1,
               iq_data := (iq_data iq)[data_start iq + n := CHR 0x00]\<rparr>))
        else iqueue_scan_line (iq\<lparr>data_cursor := data_cursor iq + 1\<rparr>)
      else (IQUEUE_E_PENDING, None, iq))"
  by pat_completeness auto
termination
  by (relation "measure (\<lambda>iq. data_end iq - data_cursor iq)") auto

declare iqueue_scan_line.simps [simp del]

definition iqueue_pop_line :: "iqueue \<Rightarrow> (iqueue_ret \<times> string option \<times> iqueue) option" where
  "iqueue_pop_line iq = do {
     _ \<leftarrow> c_assert (pending_data iq = None);
     Some (iqueue_scan_line iq) }"

text \<open>The copy from the input buffer into the target.\<close>

definition iqueue_copy :: "iqueue \<Rightarrow> string \<Rightarrow> iqueue" where
  "iqueue_copy iq d =
     (let n = min (data_end iq - data_start iq) (length d - pending_copied iq) in
      iq\<lparr>pending_data := Some (take (pending_copied iq) d @ take n (drop (data_start iq) (iq_data iq)) @
             drop (pending_copied iq + n) d),
         data_start := data_start iq + n, data_cursor := data_cursor iq + n,
         pending_copied := pending_copied iq + n\<rparr>)"

text \<open>
  \<open>want_fds\<close> tells whether the caller passes a place for the file descriptors. On success
  the result is the filled memory and, if asked for, the file descriptors.
\<close>

definition iqueue_pop_data ::
  "bool \<Rightarrow> iqueue \<Rightarrow> user_registry \<Rightarrow>
   (iqueue_ret \<times> (string \<times> int list option) option \<times> iqueue \<times> user_registry) option" where
  "iqueue_pop_data want_fds iq us = do {
     d \<leftarrow> pending_data iq;
     _ \<leftarrow> c_assert (pending_copied iq \<le> length d);
     let iq = (if data_end iq - data_start iq > 0 then iqueue_copy iq d else iq);
     d \<leftarrow> pending_data iq;
     if data_end iq - data_start iq = 0 \<and> iq_fds iq \<noteq> None \<and> pending_fds iq \<noteq> None
     then Some (IQUEUE_E_VIOLATION, None, iq, us)
     else do {
       let iq = (if data_end iq - data_start iq = 0 \<and> iq_fds iq \<noteq> None
                 then iq\<lparr>pending_fds := iq_fds iq, pending_charge_fds := charge_fds iq,
                         iq_fds := None, charge_fds := user_charge_init\<rparr>
                 else iq);
       if pending_copied iq < length d then Some (IQUEUE_E_PENDING, None, iq, us)
       else do {
         let fds = (if want_fds then pending_fds iq else None);
         (iq, us) \<leftarrow> (if want_fds then do {
             (ch, us) \<leftarrow> user_charge_deinit us (pending_charge_fds iq);
             Some (iq\<lparr>pending_fds := None, pending_charge_fds := ch\<rparr>, us) }
           else Some (iq, us));
         (ch, us) \<leftarrow> user_charge_deinit us (pending_charge_data iq);
         Some (IQUEUE_OK, Some (d, fds),
           iq\<lparr>pending_data := None, pending_copied := 0, pending_charge_data := ch\<rparr>, us) } } }"

section \<open>The stream\<close>

text \<open>
  The bytes that were received and not handed out yet, in their order; and what the
  reception of bytes at a cursor does, as \<open>recv\<close> and the update of the position in
  \<open>socket_recvmsg\<close> do it.
\<close>

definition unread :: "iqueue \<Rightarrow> string" where
  "unread iq = take (data_end iq - data_start iq) (drop (data_start iq) (iq_data iq))"

definition stream :: "iqueue \<Rightarrow> string" where
  "stream iq = (case pending_data iq of None \<Rightarrow> [] | Some d \<Rightarrow> take (pending_copied iq) d) @ unread iq"

definition overwrite :: "nat \<Rightarrow> string \<Rightarrow> string \<Rightarrow> string" where
  "overwrite i bs s = take i s @ bs @ drop (i + length bs) s"

definition receive :: "cursor \<Rightarrow> string \<Rightarrow> iqueue \<Rightarrow> iqueue" where
  "receive c bs iq = (case c of
     INPUT from _ \<Rightarrow> iq\<lparr>iq_data := overwrite from bs (iq_data iq), data_end := from + length bs\<rparr>
   | TARGET from _ \<Rightarrow> iq\<lparr>pending_data := map_option (overwrite from bs) (pending_data iq),
       pending_copied := from + length bs\<rparr>)"

fun cursor_room :: "cursor \<Rightarrow> nat" where
  "cursor_room (INPUT from to) = to - from"
| "cursor_room (TARGET from to) = to - from"

text \<open>
  The invariant: the buffer has one of its two sizes; while lines are read, the part
  before the cursor has been searched; while messages are read, everything before the
  cursor has been handed out.
\<close>

definition buffer_ok :: "iqueue \<Rightarrow> bool" where
  "buffer_ok iq \<longleftrightarrow> data_start iq \<le> data_cursor iq \<and> data_cursor iq \<le> data_end iq \<and> data_end iq \<le> data_size iq \<and>
     data_size iq = (if iq_heap iq then IQUEUE_LINE_MAX else IQUEUE_RECV_MAX) \<and>
     (iq_heap iq \<longrightarrow> length (iq_buffer iq) = IQUEUE_RECV_MAX)"

definition crlf_at :: "string \<Rightarrow> nat \<Rightarrow> bool" where
  "crlf_at s i \<longleftrightarrow> i > 0 \<and> s ! (i - 1) = CHR 0x0D \<and> s ! i = CHR 0x0A"

definition line_inv :: "iqueue \<Rightarrow> bool" where
  "line_inv iq \<longleftrightarrow> buffer_ok iq \<and> pending_data iq = None \<and> pending_copied iq = 0 \<and>
     (data_start iq > 0 \<longrightarrow> iq_data iq ! (data_start iq - 1) = CHR 0x0A) \<and>
     (\<forall>i. data_start iq \<le> i \<longrightarrow> i < data_cursor iq \<longrightarrow> \<not> crlf_at (iq_data iq) i)"

definition data_inv :: "iqueue \<Rightarrow> bool" where
  "data_inv iq \<longleftrightarrow> buffer_ok iq \<and> data_cursor iq = data_start iq \<and>
     pending_copied iq \<le> pending_size iq"

section \<open>Lines\<close>

definition has_crlf :: "string \<Rightarrow> bool" where
  "has_crlf s \<longleftrightarrow> (\<exists>i < length s. crlf_at s i)"

lemma line_inv_advance:
  assumes "line_inv iq" "data_cursor iq < data_end iq" "\<not> crlf_at (iq_data iq) (data_cursor iq)"
  shows "line_inv (iq\<lparr>data_cursor := data_cursor iq + 1\<rparr>)"
  using assms by (auto simp: line_inv_def buffer_ok_def data_size_def less_Suc_eq)

lemma unread_split:
  assumes "start < cur" "cur < stop" "stop \<le> length d"
  shows "take (stop - start) (drop start d) =
    take (cur - start - 1) (drop start d) @ d ! (cur - 1) # d ! cur # take (stop - (cur + 1)) (drop (cur + 1) d)"
proof -
  have "drop start d = take (cur - start - 1) (drop start d) @ drop (cur - 1) d"
    using assms append_take_drop_id [of "cur - start - 1" "drop start d"] by (simp add: drop_drop add.commute)
  moreover have "drop (cur - 1) d = d ! (cur - 1) # d ! cur # drop (cur + 1) d"
    using assms Cons_nth_drop_Suc [of "cur - 1" d] Cons_nth_drop_Suc [of cur d] by simp
  moreover have "length (take (cur - start - 1) (drop start d)) = cur - start - 1" using assms by simp
  ultimately have "take (stop - start) (drop start d) = take (stop - start)
      (take (cur - start - 1) (drop start d) @ d ! (cur - 1) # d ! cur # drop (cur + 1) d)" by simp
  also have "\<dots> = take (cur - start - 1) (drop start d) @
      take (stop - start - (cur - start - 1)) (d ! (cur - 1) # d ! cur # drop (cur + 1) d)"
    using assms by simp
  also have "stop - start - (cur - start - 1) = Suc (Suc (stop - (cur + 1)))" using assms by simp
  finally show ?thesis by simp
qed

lemma line_found:
  assumes inv: "line_inv iq" and cur: "data_cursor iq < data_end iq" "crlf_at (iq_data iq) (data_cursor iq)"
  defines "n \<equiv> data_cursor iq - data_start iq - 1"
  defines "iq' \<equiv> iq\<lparr>data_cursor := data_cursor iq + 1, data_start := data_cursor iq + 1,
               iq_data := (iq_data iq)[data_start iq + n := CHR 0x00]\<rparr>"
  shows "line_inv iq'" and "unread iq = take n (drop (data_start iq) (iq_data iq)) @ [CHR 0x0D, CHR 0x0A] @ unread iq'"
    and "\<not> has_crlf (take n (drop (data_start iq) (iq_data iq)) @ [CHR 0x0D])"
proof -
  have b: "data_start iq \<le> data_cursor iq" "data_end iq \<le> length (iq_data iq)"
    using inv by (simp_all add: line_inv_def buffer_ok_def data_size_def)
  have ch: "iq_data iq ! (data_cursor iq - 1) = CHR 0x0D" "iq_data iq ! data_cursor iq = CHR 0x0A" "data_cursor iq > 0"
    using cur(2) by (simp_all add: crlf_at_def)
  have lt: "data_start iq < data_cursor iq"
  proof (rule ccontr)
    assume "\<not> data_start iq < data_cursor iq"
    with b have "data_start iq = data_cursor iq" by simp
    with inv ch show False by (simp add: line_inv_def)
  qed
  have sn: "data_start iq + n = data_cursor iq - 1" using lt by (simp add: n_def)
  show "line_inv iq'"
    using inv cur(1) lt ch b unfolding iq'_def sn by (auto simp: line_inv_def buffer_ok_def data_size_def)
  have "unread iq' = take (data_end iq - (data_cursor iq + 1)) (drop (data_cursor iq + 1) (iq_data iq))"
    unfolding iq'_def unread_def sn by simp
  with unread_split [OF lt cur(1) b(2)] ch
  show "unread iq = take n (drop (data_start iq) (iq_data iq)) @ [CHR 0x0D, CHR 0x0A] @ unread iq'"
    by (simp add: unread_def n_def)
  show "\<not> has_crlf (take n (drop (data_start iq) (iq_data iq)) @ [CHR 0x0D])"
  proof
    let ?l = "take n (drop (data_start iq) (iq_data iq)) @ [CHR 0x0D]"
    assume "has_crlf ?l"
    then obtain i where i: "i < length ?l" "crlf_at ?l i" by (auto simp: has_crlf_def)
    have len: "length ?l = data_cursor iq - data_start iq" using lt cur(1) b(2) by (simp add: n_def)
    have nth: "?l ! j = iq_data iq ! (data_start iq + j)" if "j < length ?l" for j
    proof (cases "j < n")
      case True
      then show ?thesis using that len lt cur(1) b(2) by (simp add: nth_append n_def)
    next
      case False
      with that len have "j = n" by (simp add: n_def)
      then show ?thesis using ch(1) sn lt cur(1) b(2) by (simp add: nth_append n_def)
    qed
    from i(2) have "crlf_at (iq_data iq) (data_start iq + i)"
      using nth [OF i(1)] nth [of "i - 1"] i(1) by (auto simp: crlf_at_def)
    moreover have "data_start iq + i < data_cursor iq" using i(1) len by simp
    ultimately show False using inv by (simp add: line_inv_def)
  qed
qed

lemma no_line:
  assumes "line_inv iq" "data_cursor iq = data_end iq"
  shows "\<not> has_crlf (unread iq)"
proof
  assume "has_crlf (unread iq)"
  then obtain i where i: "i < length (unread iq)" "crlf_at (unread iq) i" by (auto simp: has_crlf_def)
  have b: "data_end iq \<le> length (iq_data iq)" using assms(1) by (simp add: line_inv_def buffer_ok_def data_size_def)
  have nth: "unread iq ! j = iq_data iq ! (data_start iq + j)" if "j < length (unread iq)" for j
    using that b by (simp add: unread_def)
  from i(2) have "crlf_at (iq_data iq) (data_start iq + i)"
    using nth [OF i(1)] nth [of "i - 1"] i(1) by (auto simp: crlf_at_def)
  moreover have "data_start iq + i < data_cursor iq" using i(1) assms(2) by (auto simp: unread_def)
  ultimately show False using assms(1) by (simp add: line_inv_def)
qed

text \<open>Descriptors in the middle of the authentication are a violation, found at the last received byte.\<close>

lemma iqueue_scan_line_ok:
  "line_inv iq \<Longrightarrow>
   \<exists>r lo iq'. iqueue_scan_line iq = (r, lo, iq') \<and> line_inv iq' \<and>
     iq' = iq\<lparr>data_cursor := data_cursor iq', data_start := data_start iq', iq_data := iq_data iq'\<rparr> \<and>
     (case lo of
        None \<Rightarrow> r = IQUEUE_E_PENDING \<and> unread iq' = unread iq \<and> \<not> has_crlf (unread iq) \<or>
          r = IQUEUE_E_VIOLATION \<and> fdlist_count (iq_fds iq) > 0
      | Some l \<Rightarrow> r = IQUEUE_OK \<and> unread iq = l @ [CHR 0x0D, CHR 0x0A] @ unread iq' \<and> \<not> has_crlf (l @ [CHR 0x0D]) \<and>
          data_cursor iq' = data_start iq')"
proof (induction iq rule: iqueue_scan_line.induct)
  case (1 iq)
  consider "\<not> data_cursor iq < data_end iq" | "data_cursor iq < data_end iq" "data_cursor iq + 1 \<ge> data_end iq" "fdlist_count (iq_fds iq) > 0"
    | "data_cursor iq < data_end iq" "\<not> (data_cursor iq + 1 \<ge> data_end iq \<and> fdlist_count (iq_fds iq) > 0)" by auto
  then show ?case
  proof cases
    case 1
    with "1.prems" have "data_cursor iq = data_end iq" by (simp add: line_inv_def buffer_ok_def)
    with "1.prems" no_line [OF "1.prems"] show ?thesis by (subst iqueue_scan_line.simps) simp
  next
    case 2
    with "1.prems" show ?thesis by (subst iqueue_scan_line.simps) simp
  next
    case 3
    show ?thesis
    proof (cases "crlf_at (iq_data iq) (data_cursor iq)")
      case crlf: True
      note f = line_found [OF "1.prems" 3(1) crlf]
      have "iqueue_scan_line iq = (IQUEUE_OK, Some (take (data_cursor iq - data_start iq - 1) (drop (data_start iq) (iq_data iq))),
          iq\<lparr>data_cursor := data_cursor iq + 1, data_start := data_cursor iq + 1,
             iq_data := (iq_data iq)[data_start iq + (data_cursor iq - data_start iq - 1) := CHR 0x00]\<rparr>)"
        using 3 crlf by (subst iqueue_scan_line.simps) (simp add: crlf_at_def Let_def)
      with f show ?thesis by simp
    next
      case False
      let ?iq = "iq\<lparr>data_cursor := data_cursor iq + 1\<rparr>"
      have eq: "iqueue_scan_line iq = iqueue_scan_line ?iq"
        using 3 False by (subst iqueue_scan_line.simps) (auto simp: crlf_at_def)
      have u: "unread ?iq = unread iq" "iq_fds ?iq = iq_fds iq" by (simp_all add: unread_def)
      have "\<not> (0 < data_cursor iq \<and> iq_data iq ! data_cursor iq = CHR 0x0A \<and>
          iq_data iq ! (data_cursor iq - 1) = CHR 0x0D)" using False by (auto simp: crlf_at_def)
      from "1.IH" [OF 3 this line_inv_advance [OF "1.prems" 3(1) False]] show ?thesis unfolding eq u by auto
    qed
  qed
qed

section \<open>The cursor\<close>

lemma shift_unread:
  assumes "buffer_ok iq"
  shows "unread (iqueue_shift iq) = unread iq" "buffer_ok (iqueue_shift iq)"
    "data_start (iqueue_shift iq) = 0" "pending_data (iqueue_shift iq) = pending_data iq"
    "pending_copied (iqueue_shift iq) = pending_copied iq"
proof -
  have b: "data_start iq \<le> data_cursor iq" "data_cursor iq \<le> data_end iq" "data_end iq \<le> length (iq_data iq)"
    using assms by (simp_all add: buffer_ok_def data_size_def)
  then have "length (take (data_end iq - data_start iq) (drop (data_start iq) (iq_data iq))) = data_end iq - data_start iq"
    by simp
  then show "unread (iqueue_shift iq) = unread iq" by (simp add: unread_def iqueue_shift_def)
  show "buffer_ok (iqueue_shift iq)"
    using assms b by (auto simp: buffer_ok_def iqueue_shift_def data_size_def)
qed (simp_all add: iqueue_shift_def)

lemma shift_nth:
  assumes "buffer_ok iq" "i < data_end iq - data_start iq"
  shows "iq_data (iqueue_shift iq) ! i = iq_data iq ! (data_start iq + i)"
  using assms by (auto simp: iqueue_shift_def nth_append buffer_ok_def data_size_def)

lemma shift_line_inv:
  assumes "line_inv iq"
  shows "line_inv (iqueue_shift iq)"
proof -
  have b: "buffer_ok iq" using assms by (simp add: line_inv_def)
  have bs: "data_start iq \<le> data_cursor iq" "data_cursor iq \<le> data_end iq" using b by (simp_all add: buffer_ok_def)
  have "\<not> crlf_at (iq_data (iqueue_shift iq)) i" if "i < data_cursor (iqueue_shift iq)" for i
  proof
    assume c: "crlf_at (iq_data (iqueue_shift iq)) i"
    from that have i: "i < data_cursor iq - data_start iq" by (simp add: iqueue_shift_def)
    with bs have "i < data_end iq - data_start iq" by simp
    with c have "crlf_at (iq_data iq) (data_start iq + i)"
      using shift_nth [OF b, of i] shift_nth [OF b, of "i - 1"] by (auto simp: crlf_at_def)
    moreover from i have "data_start iq + i < data_cursor iq" by simp
    ultimately show False using assms by (simp add: line_inv_def)
  qed
  with shift_unread [OF b] assms show ?thesis by (simp add: line_inv_def)
qed

lemma shift_data_inv: "data_inv iq \<Longrightarrow> data_inv (iqueue_shift iq)"
  using shift_unread [of iq] by (auto simp: data_inv_def iqueue_shift_def pending_size_def)

text \<open>The choice of the memory: there is room, and reading into the target skips no bytes.\<close>

lemma take_overwrite:
  "i \<le> length s \<Longrightarrow> take (i + length bs) (overwrite i bs s) = take i s @ bs"
  by (simp add: overwrite_def)

lemma overwrite_nth: "\<lbrakk>j < i; i \<le> length s\<rbrakk> \<Longrightarrow> overwrite i bs s ! j = s ! j"
  by (simp add: overwrite_def nth_append)

lemma length_overwrite: "i + length bs \<le> length s \<Longrightarrow> length (overwrite i bs s) = length s"
  by (simp add: overwrite_def)

definition ready :: "iqueue \<Rightarrow> bool" where
  "ready iq \<longleftrightarrow> buffer_ok iq \<and> data_cursor iq = data_end iq \<and> data_end iq < data_size iq \<and> data_start iq = 0"

lemma room_target:
  assumes "ready iq" "line_inv iq \<or> data_inv iq" "iqueue_room iq = TARGET from to" "length bs \<le> to - from"
  shows "stream (receive (TARGET from to) bs iq) = stream iq @ bs" "data_inv (receive (TARGET from to) bs iq)"
    "\<not> line_inv iq" "from < to"
proof -
  have ft: "from = pending_copied iq" "to = pending_size iq"
    and ge: "pending_size iq - pending_copied iq \<ge> data_size iq - data_end iq"
    using assms(3) by (auto simp: iqueue_room_def split: if_splits)
  moreover have "data_end iq < data_size iq" using assms(1) by (simp add: ready_def)
  ultimately have pos: "pending_copied iq < pending_size iq" by linarith
  then obtain d where d: "pending_data iq = Some d" "pending_copied iq < length d"
    by (auto simp: pending_size_def split: option.splits)
  then show "\<not> line_inv iq" by (auto simp: line_inv_def)
  with assms(2) have inv: "data_inv iq" by blast
  with assms(1) have empty: "data_end iq = 0" by (simp add: ready_def data_inv_def)
  have le: "pending_copied iq + length bs \<le> length d" using assms(4) ft d pos by (simp add: pending_size_def)
  show "stream (receive (TARGET from to) bs iq) = stream iq @ bs"
    using d empty le by (simp add: stream_def receive_def unread_def ft take_overwrite)
  show "data_inv (receive (TARGET from to) bs iq)"
    using inv d le by (auto simp: data_inv_def receive_def buffer_ok_def data_size_def pending_size_def ft length_overwrite)
  show "from < to" using pos ft by simp
qed

lemma room_input:
  assumes "ready iq" "iqueue_room iq = INPUT from to" "length bs \<le> to - from"
  shows "stream (receive (INPUT from to) bs iq) = stream iq @ bs"
    "line_inv iq \<Longrightarrow> line_inv (receive (INPUT from to) bs iq)"
    "data_inv iq \<Longrightarrow> data_inv (receive (INPUT from to) bs iq)"
    "from < to" "to \<le> data_size iq" "to - from \<le> IQUEUE_RECV_MAX"
proof -
  have f: "from = data_end iq" and t: "to = (if data_size iq - data_end iq > IQUEUE_RECV_MAX
      then data_end iq + IQUEUE_RECV_MAX else data_size iq)"
    using assms(2) by (auto simp: iqueue_room_def split: if_splits)
  have r: "buffer_ok iq" "data_cursor iq = data_end iq" "data_end iq < data_size iq" "data_start iq = 0"
    using assms(1) by (simp_all add: ready_def)
  show room: "from < to" "to \<le> data_size iq" "to - from \<le> IQUEUE_RECV_MAX"
    using r(3) by (auto simp: f t IQUEUE_RECV_MAX_def)
  have le: "data_end iq + length bs \<le> length (iq_data iq)" using assms(3) room f by (simp add: data_size_def)
  show "stream (receive (INPUT from to) bs iq) = stream iq @ bs"
    using r(4) le by (simp add: stream_def receive_def unread_def f take_overwrite split: option.split)
  have b: "buffer_ok (receive (INPUT from to) bs iq)"
    using r le by (auto simp: buffer_ok_def receive_def data_size_def f length_overwrite)
  show "data_inv iq \<Longrightarrow> data_inv (receive (INPUT from to) bs iq)"
    using b by (simp add: data_inv_def receive_def pending_size_def)
  show "line_inv (receive (INPUT from to) bs iq)" if inv: "line_inv iq"
  proof -
    have "\<not> crlf_at (overwrite (data_end iq) bs (iq_data iq)) i" if "i < data_end iq" for i
    proof -
      have "crlf_at (overwrite (data_end iq) bs (iq_data iq)) i = crlf_at (iq_data iq) i"
        using that le by (auto simp: crlf_at_def overwrite_nth)
      then show ?thesis using inv that r by (simp add: line_inv_def)
    qed
    with inv b r show ?thesis by (simp add: line_inv_def receive_def f)
  qed
qed

definition iq_charges :: "iqueue \<Rightarrow> user_charge multiset" where
  "iq_charges iq = {#charge_data iq, charge_fds iq, pending_charge_data iq, pending_charge_fds iq#}"

lemma stream_cong:
  "\<lbrakk>pending_data iq' = pending_data iq; pending_copied iq' = pending_copied iq; unread iq' = unread iq\<rbrakk> \<Longrightarrow>
   stream iq' = stream iq"
  by (simp add: stream_def split: option.split)

lemma shift_ok:
  assumes "line_inv iq \<or> data_inv iq"
  defines "iq1 \<equiv> iqueue_shift iq"
  shows "buffer_ok iq1" "data_start iq1 = 0" "stream iq1 = stream iq" "iq_charges iq1 = iq_charges iq"
    "line_inv iq \<Longrightarrow> line_inv iq1" "data_inv iq \<Longrightarrow> data_inv iq1" "iq_user iq1 = iq_user iq" "charge_data iq1 = charge_data iq"
    "data_cursor iq1 < data_end iq1 \<longleftrightarrow> data_cursor iq < data_end iq"
proof -
  have b: "buffer_ok iq" using assms(1) by (auto simp: line_inv_def data_inv_def)
  note s = shift_unread [OF b]
  show "buffer_ok iq1" "data_start iq1 = 0" unfolding iq1_def using s by simp_all
  show "stream iq1 = stream iq" unfolding iq1_def by (rule stream_cong) (rule s)+
  show "iq_charges iq1 = iq_charges iq" "iq_user iq1 = iq_user iq" "charge_data iq1 = charge_data iq"
    by (simp_all add: iq1_def iqueue_shift_def iq_charges_def)
  show "line_inv iq \<Longrightarrow> line_inv iq1" "data_inv iq \<Longrightarrow> data_inv iq1"
    unfolding iq1_def by (rule shift_line_inv shift_data_inv; assumption)+
  show "data_cursor iq1 < data_end iq1 \<longleftrightarrow> data_cursor iq < data_end iq"
    using b by (auto simp: iq1_def iqueue_shift_def buffer_ok_def)
qed

text \<open>Moving a searched line to the allocated memory, and an empty buffer back to the built-in one.\<close>

lemma release_ok:
  assumes "user_inv us ext (add_mset ch C)"
  shows "\<exists>ch' us'. user_charge_deinit us ch = Some (ch', us') \<and> user_inv us' ext (add_mset ch' C) \<and> user_inv us' ext C"
  using user_charge_deinit_inv [OF assms] user_inv_unused by metis

lemma grow_ok:
  fixes ch :: user_charge
  assumes inv: "line_inv iq" and full: "data_end iq = IQUEUE_RECV_MAX" "\<not> iq_heap iq" "data_start iq = 0"
    "data_cursor iq = data_end iq" and fresh: "length fresh = IQUEUE_LINE_MAX"
  defines "iq' \<equiv> iq\<lparr>charge_data := ch, iq_heap := True, iq_buffer := iq_data iq,
    iq_data := take (data_end iq) (iq_data iq) @ drop (data_end iq) fresh\<rparr>"
  shows "line_inv iq'" "ready iq'" "stream iq' = stream iq"
proof -
  have b: "length (iq_data iq) = IQUEUE_RECV_MAX" using inv full by (simp add: line_inv_def buffer_ok_def data_size_def)
  have "\<not> crlf_at (take (data_end iq) (iq_data iq) @ drop (data_end iq) fresh) i" if "i < data_end iq" for i
  proof -
    have "crlf_at (take (data_end iq) (iq_data iq) @ drop (data_end iq) fresh) i = crlf_at (iq_data iq) i"
      using that b full(1) by (auto simp: crlf_at_def nth_append)
    then show ?thesis using inv that full by (simp add: line_inv_def)
  qed
  then show "line_inv iq'"
    using inv full fresh b
    by (simp add: line_inv_def buffer_ok_def data_size_def iq'_def IQUEUE_RECV_MAX_def IQUEUE_LINE_MAX_def)
  then show "ready iq'" using full fresh b
    by (simp add: ready_def line_inv_def iq'_def data_size_def IQUEUE_RECV_MAX_def IQUEUE_LINE_MAX_def)
  show "stream iq' = stream iq"
    using full b by (intro stream_cong) (simp_all add: iq'_def unread_def)
qed

lemma fall_back_ok:
  fixes ch :: user_charge
  assumes inv: "data_inv iq" and empty: "data_end iq = 0" and heap: "iq_heap iq"
  defines "iq' \<equiv> iq\<lparr>charge_data := ch, iq_heap := False,
    iq_data := take (data_end iq) (iq_data iq) @ drop (data_end iq) (iq_buffer iq)\<rparr>"
  shows "data_inv iq'" "ready iq'" "stream iq' = stream iq"
proof -
  have b: "length (iq_buffer iq) = IQUEUE_RECV_MAX" "data_start iq = 0" "data_cursor iq = 0"
    using inv empty heap by (simp_all add: data_inv_def buffer_ok_def)
  show "data_inv iq'" using inv empty b
    by (simp add: data_inv_def buffer_ok_def data_size_def iq'_def pending_size_def)
  then show "ready iq'" using empty b by (simp add: ready_def data_inv_def iq'_def data_size_def IQUEUE_RECV_MAX_def)
  show "stream iq' = stream iq"
    using empty b by (intro stream_cong) (simp_all add: iq'_def unread_def)
qed

lemma get_cursor_ok:
  assumes mode: "line_inv iq \<or> data_inv iq" and fresh: "length fresh = IQUEUE_LINE_MAX"
    and us: "user_inv us ext (iq_charges iq + C)"
    and can: "chargeable us (iq_user iq) (charge_data iq) None USER_SLOT_BYTES"
  shows "\<exists>r co iq' us'. iqueue_get_cursor mem mem' log_ok fresh iq us = Some (r, co, iq', us') \<and>
    stream iq' = stream iq \<and> (line_inv iq \<longrightarrow> line_inv iq') \<and> (data_inv iq \<longrightarrow> data_inv iq') \<and>
    user_inv us' ext (iq_charges iq' + C) \<and>
    (r = IQUEUE_E_PENDING \<longleftrightarrow> data_cursor iq < data_end iq) \<and>
    (r = IQUEUE_E_VIOLATION \<longrightarrow> length (stream iq) = IQUEUE_LINE_MAX) \<and>
    (case co of None \<Rightarrow> r \<noteq> IQUEUE_OK | Some c \<Rightarrow> r = IQUEUE_OK \<and> ready iq' \<and> c = iqueue_room iq')"
proof -
  let ?iq = "iqueue_shift iq"
  note s = shift_ok [OF mode]
  have us1: "user_inv us ext (add_mset (charge_data ?iq)
      ({#charge_fds ?iq, pending_charge_data ?iq, pending_charge_fds ?iq#} + C))"
  proof -
    have "user_inv us ext (iq_charges ?iq + C)" using us s(4) by simp
    then show ?thesis by (simp add: iq_charges_def)
  qed
  have b: "data_cursor ?iq \<le> data_end ?iq" "data_end ?iq \<le> data_size ?iq" using s(1) by (simp_all add: buffer_ok_def)
  consider (pending) "data_cursor ?iq < data_end ?iq"
    | (full) "data_cursor ?iq = data_end ?iq" "data_end ?iq = data_size ?iq"
    | (room) "data_cursor ?iq = data_end ?iq" "data_end ?iq < data_size ?iq" using b by linarith
  then show ?thesis
  proof cases
    case pending
    then show ?thesis using s us by (simp add: iqueue_get_cursor_def Let_def)
  next
    case full
    have size: "data_size ?iq = (if iq_heap ?iq then IQUEUE_LINE_MAX else IQUEUE_RECV_MAX)"
      using s(1) by (simp add: buffer_ok_def)
    then have "data_size ?iq > 0" by (simp add: IQUEUE_LINE_MAX_def IQUEUE_RECV_MAX_def)
    with full s(2) have "\<not> data_inv ?iq" by (auto simp: data_inv_def)
    with mode s(5,6) have line: "line_inv ?iq" "line_inv iq" "\<not> data_inv iq" by auto
    have np: "\<not> data_cursor iq < data_end iq" using s(9) full by simp
    show ?thesis
    proof (cases "iq_heap ?iq")
      case True
      have "length (stream ?iq) = IQUEUE_LINE_MAX"
        using line full True size s(2) by (simp add: stream_def unread_def line_inv_def data_size_def)
      then show ?thesis
        using full True size line np us s by (simp add: iqueue_get_cursor_def Let_def)
    next
      case False
      have small: "\<not> data_size ?iq \<ge> IQUEUE_LINE_MAX" using size False by (simp add: IQUEUE_LINE_MAX_def IQUEUE_RECV_MAX_def)
      show ?thesis
      proof (cases mem)
        case nomem: False
        then show ?thesis using full small line np us s by (simp add: iqueue_get_cursor_def Let_def)
      next
        case True
        from user_charge_inv [OF us1, of "iq_user ?iq" None USER_SLOT_BYTES mem' log_ok "of_nat IQUEUE_LINE_MAX"] can s(7,8)
        obtain r ch us' where ch: "user_charge mem' log_ok us (iq_user ?iq) (charge_data ?iq) None USER_SLOT_BYTES
            (of_nat IQUEUE_LINE_MAX) = Some (r, ch, us')"
          "user_inv us' ext (add_mset ch ({#charge_fds ?iq, pending_charge_data ?iq, pending_charge_fds ?iq#} + C))" by auto
        show ?thesis
        proof (cases "r = USER_OK")
          case quota: False
          have "line_inv (?iq\<lparr>charge_data := ch\<rparr>)" "stream (?iq\<lparr>charge_data := ch\<rparr>) = stream iq"
            "iq_charges (?iq\<lparr>charge_data := ch\<rparr>) = add_mset ch {#charge_fds ?iq, pending_charge_data ?iq, pending_charge_fds ?iq#}"
            using line s(3)
            by (simp_all add: line_inv_def buffer_ok_def data_size_def stream_def unread_def iq_charges_def)
          then show ?thesis
            using quota ch full small True line np by (simp add: iqueue_get_cursor_def Let_def)
        next
          case good: True
          have e: "data_end ?iq = IQUEUE_RECV_MAX" using full size False by simp
          note g = grow_ok [OF line(1) e False s(2) full(1) fresh, where ch = ch]
          show ?thesis
            using good ch full small True line np g False s(2,3)
            by (simp add: iqueue_get_cursor_def Let_def iq_charges_def)
        qed
      qed
    qed
  next
    case room
    have np: "\<not> data_cursor iq < data_end iq" using s(9) room by simp
    show ?thesis
    proof (cases "iq_heap ?iq \<and> pending_data ?iq \<noteq> None")
      case False
      have "ready ?iq" using s(1,2) room by (simp add: ready_def)
      then show ?thesis using False room np us s by (auto simp: iqueue_get_cursor_def Let_def)
    next
      case True
      then have "\<not> line_inv ?iq" by (auto simp: line_inv_def)
      with mode s(5,6) have data: "data_inv ?iq" "data_inv iq" "\<not> line_inv iq" by auto
      with room s(2) have e: "data_end ?iq = 0" by (simp add: data_inv_def)
      from release_ok [OF us1] obtain ch us' where
        ch: "user_charge_deinit us (charge_data ?iq) = Some (ch, us')"
          "user_inv us' ext (add_mset ch ({#charge_fds ?iq, pending_charge_data ?iq, pending_charge_fds ?iq#} + C))" by blast
      note g = fall_back_ok [OF data(1) e conjunct1 [OF True], where ch = ch]
      have "0 < data_size ?iq" using room e by simp
      then show ?thesis
        using True ch room e np data g s(2,3) by (simp add: iqueue_get_cursor_def Let_def iq_charges_def)
    qed
  qed
qed

section \<open>Messages\<close>

lemma copy_ok:
  assumes inv: "data_inv iq" and d: "pending_data iq = Some d"
  defines "iq' \<equiv> if data_end iq - data_start iq > 0 then iqueue_copy iq d else iq"
  obtains d' where "data_inv iq'" "pending_data iq' = Some d'" "length d' = length d" "stream iq' = stream iq"
    "data_start iq' < data_end iq' \<Longrightarrow> pending_copied iq' = length d'"
    "iq_charges iq' = iq_charges iq" "iq_fds iq' = iq_fds iq" "pending_fds iq' = pending_fds iq"
    "charge_fds iq' = charge_fds iq" "pending_charge_fds iq' = pending_charge_fds iq"
    "pending_charge_data iq' = pending_charge_data iq" "charge_data iq' = charge_data iq"
proof -
  have b: "data_start iq \<le> data_end iq" "data_end iq \<le> length (iq_data iq)" "pending_copied iq \<le> length d"
    using inv d by (auto simp: data_inv_def buffer_ok_def data_size_def pending_size_def)
  show ?thesis
  proof (cases "data_end iq - data_start iq > 0")
    case False
    then have "iq' = iq" by (simp add: iq'_def)
    with that [of d] inv d False show ?thesis by simp
  next
    case True
    let ?n = "min (data_end iq - data_start iq) (length d - pending_copied iq)"
    let ?d = "take (pending_copied iq) d @ take ?n (drop (data_start iq) (iq_data iq)) @ drop (pending_copied iq + ?n) d"
    have eq: "iq' = iq\<lparr>pending_data := Some ?d, data_start := data_start iq + ?n, data_cursor := data_cursor iq + ?n,
        pending_copied := pending_copied iq + ?n\<rparr>"
      using True by (simp add: iq'_def iqueue_copy_def Let_def)
    have n: "?n \<le> length (drop (data_start iq) (iq_data iq))" using b by simp
    have len: "length ?d = length d" using b n by simp
    have str: "stream iq' = stream iq"
    proof -
      let ?u = "drop (data_start iq) (iq_data iq)"
      have "take (pending_copied iq + ?n) ?d = take (pending_copied iq) d @ take ?n ?u" using b n by simp
      moreover have "take (data_end iq - (data_start iq + ?n)) (drop (data_start iq + ?n) (iq_data iq)) =
          drop ?n (take (data_end iq - data_start iq) ?u)"
        by (simp add: drop_take drop_drop add.commute diff_diff_left)
      moreover have "take ?n ?u = take ?n (take (data_end iq - data_start iq) ?u)" by simp
      ultimately show ?thesis
        using d by (simp add: eq stream_def unread_def del: take_take)
    qed
    show ?thesis
    proof (rule that [of ?d])
      show "data_inv iq'" using inv b len by (auto simp: eq data_inv_def buffer_ok_def data_size_def pending_size_def)
      show "pending_data iq' = Some ?d" by (simp add: eq)
      show "pending_copied iq' = length ?d" if "data_start iq' < data_end iq'" using that len b by (auto simp: eq)
      show "length ?d = length d" by (rule len)
      show "stream iq' = stream iq" by (rule str)
    qed (simp_all add: eq iq_charges_def)
  qed
qed

definition fds_inv :: "iqueue \<Rightarrow> bool" where
  "fds_inv iq \<longleftrightarrow> (pending_fds iq = None \<longrightarrow> ch_usage (pending_charge_fds iq) = None)"

lemma unread_empty: "buffer_ok iq \<Longrightarrow> unread iq = [] \<longleftrightarrow> data_end iq - data_start iq = 0"
  by (auto simp: unread_def buffer_ok_def data_size_def)

definition adopt_fds :: "iqueue \<Rightarrow> iqueue" where
  "adopt_fds iq = (if data_end iq - data_start iq = 0 \<and> iq_fds iq \<noteq> None
     then iq\<lparr>pending_fds := iq_fds iq, pending_charge_fds := charge_fds iq,
             iq_fds := None, charge_fds := user_charge_init\<rparr>
     else iq)"

lemma adopt_fds_ok:
  assumes "data_inv iq" "fds_inv iq" "user_inv us ext (iq_charges iq + C)"
    and "\<not> (data_end iq - data_start iq = 0 \<and> iq_fds iq \<noteq> None \<and> pending_fds iq \<noteq> None)"
  shows "data_inv (adopt_fds iq)" "fds_inv (adopt_fds iq)" "stream (adopt_fds iq) = stream iq"
    "pending_data (adopt_fds iq) = pending_data iq" "pending_copied (adopt_fds iq) = pending_copied iq"
    "unread (adopt_fds iq) = unread iq"
    "pending_fds (adopt_fds iq) = (if unread iq = [] \<and> iq_fds iq \<noteq> None then iq_fds iq else pending_fds iq)"
    "user_inv us ext (iq_charges (adopt_fds iq) + C)"
proof -
  have b: "buffer_ok iq" using assms(1) by (simp add: data_inv_def)
  show "data_inv (adopt_fds iq)" using assms(1)
    by (auto simp: adopt_fds_def data_inv_def buffer_ok_def data_size_def pending_size_def)
  show u: "unread (adopt_fds iq) = unread iq" by (simp add: adopt_fds_def unread_def)
  show p: "pending_data (adopt_fds iq) = pending_data iq" "pending_copied (adopt_fds iq) = pending_copied iq"
    by (simp_all add: adopt_fds_def)
  show "stream (adopt_fds iq) = stream iq" by (rule stream_cong) (rule p u)+
  show "fds_inv (adopt_fds iq)" using assms(2) by (auto simp: fds_inv_def adopt_fds_def)
  show "pending_fds (adopt_fds iq) = (if unread iq = [] \<and> iq_fds iq \<noteq> None then iq_fds iq else pending_fds iq)"
    using unread_empty [OF b] by (auto simp: adopt_fds_def)
  show "user_inv us ext (iq_charges (adopt_fds iq) + C)"
  proof (cases "data_end iq - data_start iq = 0 \<and> iq_fds iq \<noteq> None")
    case True
    with assms(2,4) have unused: "ch_usage (pending_charge_fds iq) = None" by (auto simp: fds_inv_def)
    have "user_inv us ext (add_mset (pending_charge_fds iq) ({#charge_data iq, charge_fds iq, pending_charge_data iq#} + C))"
      using assms(3) by (simp add: iq_charges_def add_mset_commute)
    then have "user_inv us ext ({#charge_data iq, charge_fds iq, pending_charge_data iq#} + C)"
      using unused by (simp add: user_inv_unused)
    then have "user_inv us ext (add_mset user_charge_init ({#charge_data iq, charge_fds iq, pending_charge_data iq#} + C))"
      by (simp add: user_account.unused)
    moreover have eq: "iq_charges (adopt_fds iq) + C =
        add_mset user_charge_init ({#charge_data iq, charge_fds iq, pending_charge_data iq#} + C)"
      using True by (simp add: adopt_fds_def iq_charges_def add_mset_commute)
    ultimately show ?thesis by (simp only: eq)
  next
    case False
    then show ?thesis using assms(3) by (auto simp: adopt_fds_def)
  qed
qed

lemma deinit_unused:
  "user_inv us ext (add_mset ch C) \<Longrightarrow>
   \<exists>ch' us'. user_charge_deinit us ch = Some (ch', us') \<and> user_inv us' ext (add_mset ch' C) \<and> ch_usage ch' = None"
  using user_charge_deinit_inv user_inv_unused by metis

text \<open>Handing out a complete message.\<close>

lemma hand_out_ok:
  assumes "data_inv iq" "fds_inv iq" "user_inv us ext (iq_charges iq + C)"
    and d: "pending_data iq = Some d" "pending_copied iq = length d"
  shows "\<exists>iq' us'. do {
      (iq, us) \<leftarrow> (if want_fds then do {
          (ch, us) \<leftarrow> user_charge_deinit us (pending_charge_fds iq);
          Some (iq\<lparr>pending_fds := None, pending_charge_fds := ch\<rparr>, us) }
        else Some (iq, us));
      (ch, us) \<leftarrow> user_charge_deinit us (pending_charge_data iq);
      Some (IQUEUE_OK, Some (d, fds),
        iq\<lparr>pending_data := None, pending_copied := 0, pending_charge_data := ch\<rparr>, us) } =
    Some (IQUEUE_OK, Some (d, fds), iq', us') \<and>
    data_inv iq' \<and> fds_inv iq' \<and> user_inv us' ext (iq_charges iq' + C) \<and> stream iq = d @ stream iq' \<and>
    pending_data iq' = None \<and> unread iq' = unread iq"
proof -
  obtain iq1 us1 where
    1: "(if want_fds then do {
          (ch, us) \<leftarrow> user_charge_deinit us (pending_charge_fds iq);
          Some (iq\<lparr>pending_fds := None, pending_charge_fds := ch\<rparr>, us) }
        else Some (iq, us)) = Some (iq1, us1)"
    and same: "buffer_ok iq1" "data_cursor iq1 = data_start iq1" "unread iq1 = unread iq" "fds_inv iq1"
    and us1: "user_inv us1 ext (iq_charges iq1 + C)"
  proof (cases want_fds)
    case True
    have "user_inv us ext (add_mset (pending_charge_fds iq) ({#charge_data iq, charge_fds iq, pending_charge_data iq#} + C))"
      using assms(3) by (simp add: iq_charges_def add_mset_commute)
    from deinit_unused [OF this] obtain ch us' where
      ch: "user_charge_deinit us (pending_charge_fds iq) = Some (ch, us')" "ch_usage ch = None"
        "user_inv us' ext (add_mset ch ({#charge_data iq, charge_fds iq, pending_charge_data iq#} + C))" by blast
    show ?thesis
      using True ch assms(1)
      by (intro that [of "iq\<lparr>pending_fds := None, pending_charge_fds := ch\<rparr>" us'])
        (simp_all add: data_inv_def buffer_ok_def data_size_def unread_def fds_inv_def iq_charges_def add_mset_commute)
  next
    case False
    then show ?thesis using that [of iq us] assms(1-3) by (simp add: data_inv_def)
  qed
  have "user_inv us1 ext (add_mset (pending_charge_data iq1) ({#charge_data iq1, charge_fds iq1, pending_charge_fds iq1#} + C))"
    using us1 by (simp add: iq_charges_def add_mset_commute)
  from deinit_unused [OF this] obtain ch us2 where
    ch: "user_charge_deinit us1 (pending_charge_data iq1) = Some (ch, us2)"
      "user_inv us2 ext (add_mset ch ({#charge_data iq1, charge_fds iq1, pending_charge_fds iq1#} + C))" by blast
  let ?iq = "iq1\<lparr>pending_data := None, pending_copied := 0, pending_charge_data := ch\<rparr>"
  have "data_inv ?iq" using same(1,2) by (simp add: data_inv_def buffer_ok_def data_size_def pending_size_def)
  moreover have "fds_inv ?iq" using same(4) by (simp add: fds_inv_def)
  moreover have "user_inv us2 ext (iq_charges ?iq + C)" using ch(2) by (simp add: iq_charges_def add_mset_commute)
  moreover have u: "unread ?iq = unread iq" using same(3) by (simp add: unread_def)
  moreover have "stream iq = d @ stream ?iq" unfolding stream_def u by (simp add: d)
  ultimately show ?thesis using 1 ch(1) by simp
qed

lemma pop_data_ok:
  assumes inv: "data_inv iq" "fds_inv iq" and us: "user_inv us ext (iq_charges iq + C)" and d: "pending_data iq = Some d"
  shows "\<exists>r res iq' us'. iqueue_pop_data want_fds iq us = Some (r, res, iq', us') \<and> data_inv iq' \<and> fds_inv iq' \<and>
    user_inv us' ext (iq_charges iq' + C) \<and>
    (case res of
       Some (m, fds) \<Rightarrow> r = IQUEUE_OK \<and> length m = length d \<and> stream iq = m @ stream iq' \<and> pending_data iq' = None \<and>
         fds = (if \<not> want_fds then None else if unread iq' = [] \<and> iq_fds iq \<noteq> None then iq_fds iq else pending_fds iq)
     | None \<Rightarrow> stream iq' = stream iq \<and>
         (r = IQUEUE_E_PENDING \<and> length (stream iq) < length d \<and> unread iq' = [] \<or>
          r = IQUEUE_E_VIOLATION \<and> iq_fds iq \<noteq> None \<and> pending_fds iq \<noteq> None))"
proof -
  have le: "pending_copied iq \<le> length d" using inv(1) d by (simp add: data_inv_def pending_size_def)
  let ?iq = "if data_end iq - data_start iq > 0 then iqueue_copy iq d else iq"
  from copy_ok [OF inv(1) d] obtain d' where
    c: "data_inv ?iq" "pending_data ?iq = Some d'" "length d' = length d" "stream ?iq = stream iq"
      "data_start ?iq < data_end ?iq \<Longrightarrow> pending_copied ?iq = length d'"
      "iq_charges ?iq = iq_charges iq" "iq_fds ?iq = iq_fds iq" "pending_fds ?iq = pending_fds iq"
      "pending_charge_fds ?iq = pending_charge_fds iq" by metis
  define iq1 where "iq1 = ?iq"
  note c = c [folded iq1_def]
  have inv1: "fds_inv iq1" "user_inv us ext (iq_charges iq1 + C)" using inv(2) us c by (simp_all add: fds_inv_def)
  have pop: "iqueue_pop_data want_fds iq us =
      (if data_end iq1 - data_start iq1 = 0 \<and> iq_fds iq1 \<noteq> None \<and> pending_fds iq1 \<noteq> None
       then Some (IQUEUE_E_VIOLATION, None, iq1, us)
       else if pending_copied (adopt_fds iq1) < length d' then Some (IQUEUE_E_PENDING, None, adopt_fds iq1, us)
       else do {
         (iq, us) \<leftarrow> (if want_fds then do {
             (ch, us) \<leftarrow> user_charge_deinit us (pending_charge_fds (adopt_fds iq1));
             Some ((adopt_fds iq1)\<lparr>pending_fds := None, pending_charge_fds := ch\<rparr>, us) }
           else Some (adopt_fds iq1, us));
         (ch, us) \<leftarrow> user_charge_deinit us (pending_charge_data iq);
         Some (IQUEUE_OK, Some (d', if want_fds then pending_fds (adopt_fds iq1) else None),
           iq\<lparr>pending_data := None, pending_copied := 0, pending_charge_data := ch\<rparr>, us) })"
    unfolding iqueue_pop_data_def d Let_def Option.bind.bind_lunit iq1_def [symmetric] c(2) adopt_fds_def [symmetric]
    using le by simp
  show ?thesis
  proof (cases "data_end iq1 - data_start iq1 = 0 \<and> iq_fds iq1 \<noteq> None \<and> pending_fds iq1 \<noteq> None")
    case True
    with pop c inv1 show ?thesis by simp
  next
    case ok: False
    note a = adopt_fds_ok [OF c(1) inv1 ok]
    show ?thesis
    proof (cases "pending_copied iq1 < length d'")
      case True
      with c(5) have "\<not> data_start iq1 < data_end iq1" by auto
      then have "unread iq1 = []" by (simp add: unread_def)
      moreover from this have "length (stream iq1) < length d" using True c(2,3) by (simp add: stream_def)
      ultimately show ?thesis using pop ok a True c(4) by (auto split: if_splits)
    next
      case False
      with c(1-3) have full: "pending_copied (adopt_fds iq1) = length d'" "pending_data (adopt_fds iq1) = Some d'"
        using a(4,5) by (simp_all add: data_inv_def pending_size_def)
      let ?fds = "if want_fds then pending_fds (adopt_fds iq1) else None"
      from hand_out_ok [OF a(1,2,8) full(2,1), of want_fds ?fds] obtain iq' us' where
        h: "iqueue_pop_data want_fds iq us = Some (IQUEUE_OK, Some (d', ?fds), iq', us')"
          "data_inv iq'" "fds_inv iq'" "user_inv us' ext (iq_charges iq' + C)" "stream (adopt_fds iq1) = d' @ stream iq'"
          "pending_data iq' = None" "unread iq' = unread (adopt_fds iq1)"
        using pop ok False a(5) by auto
      have "?fds = (if \<not> want_fds then None else if unread iq' = [] \<and> iq_fds iq \<noteq> None then iq_fds iq else pending_fds iq)"
        using a(6,7) c(7,8) h(7) by auto
      with h a(3) c(3,4) show ?thesis by simp
    qed
  qed
qed

section \<open>Properties of the input queue\<close>

text \<open>
  Lines come out as they went in. While lines are read and no file descriptor was
  received, \<open>iqueue_pop_line\<close> never aborts and terminates; it returns the received bytes up
  to the first CR LF and removes them together with it, or, if there is none yet, leaves the
  received bytes as they are and reports that more are needed.
\<close>
theorem iqueue_pop_line_first:
  assumes "line_inv iq" "fdlist_count (iq_fds iq) = 0"
  shows "\<exists>r lo iq'. iqueue_pop_line iq = Some (r, lo, iq') \<and> line_inv iq' \<and>
    (case lo of
       None \<Rightarrow> r = IQUEUE_E_PENDING \<and> unread iq' = unread iq \<and> \<not> has_crlf (unread iq)
     | Some l \<Rightarrow> r = IQUEUE_OK \<and> unread iq = l @ [CHR 0x0D, CHR 0x0A] @ unread iq' \<and> \<not> has_crlf (l @ [CHR 0x0D]))"
proof -
  have "pending_data iq = None" using assms(1) by (simp add: line_inv_def)
  with iqueue_scan_line_ok [OF assms(1)] assms(2) show ?thesis by (fastforce simp: iqueue_pop_line_def split: option.splits)
qed

text \<open>
  C31: room for the next bytes. \<open>iqueue_get_cursor\<close> never aborts, keeps the received bytes and
  the accounts, and refuses to receive exactly while received bytes are still unparsed. If it
  succeeds, there is room for at least one byte inside the memory, at most
  \<open>IQUEUE_RECV_MAX\<close> bytes if it is the input buffer, and any bytes received there are
  appended to the stream, whether they go to the input buffer or directly to the pending
  message. A line is refused only once it fills \<open>IQUEUE_LINE_MAX\<close> bytes.
\<close>
theorem iqueue_get_cursor_stream:
  assumes "line_inv iq \<or> data_inv iq" "length fresh = IQUEUE_LINE_MAX" "user_inv us ext (iq_charges iq + C)"
    "chargeable us (iq_user iq) (charge_data iq) None USER_SLOT_BYTES"
  shows "\<exists>r co iq' us'. iqueue_get_cursor mem mem' log_ok fresh iq us = Some (r, co, iq', us') \<and>
    stream iq' = stream iq \<and> user_inv us' ext (iq_charges iq' + C) \<and>
    (r = IQUEUE_E_PENDING \<longleftrightarrow> data_cursor iq < data_end iq) \<and>
    (r = IQUEUE_E_VIOLATION \<longrightarrow> length (stream iq) = IQUEUE_LINE_MAX) \<and>
    (case co of
       None \<Rightarrow> r \<noteq> IQUEUE_OK
     | Some c \<Rightarrow> r = IQUEUE_OK \<and> 0 < cursor_room c \<and>
         (case c of INPUT from to \<Rightarrow> to \<le> data_size iq' \<and> to - from \<le> IQUEUE_RECV_MAX
          | TARGET from to \<Rightarrow> to \<le> pending_size iq') \<and>
         (\<forall>bs. length bs \<le> cursor_room c \<longrightarrow> stream (receive c bs iq') = stream iq @ bs \<and>
            (line_inv iq \<longrightarrow> line_inv (receive c bs iq')) \<and> (data_inv iq \<longrightarrow> data_inv (receive c bs iq'))))"
proof -
  from get_cursor_ok [OF assms, of mem mem' log_ok] obtain r co iq' us' where
    g: "iqueue_get_cursor mem mem' log_ok fresh iq us = Some (r, co, iq', us')" "stream iq' = stream iq"
      "line_inv iq \<Longrightarrow> line_inv iq'" "data_inv iq \<Longrightarrow> data_inv iq'" "user_inv us' ext (iq_charges iq' + C)"
      "r = IQUEUE_E_PENDING \<longleftrightarrow> data_cursor iq < data_end iq" "r = IQUEUE_E_VIOLATION \<longrightarrow> length (stream iq) = IQUEUE_LINE_MAX"
      "case co of None \<Rightarrow> r \<noteq> IQUEUE_OK | Some c \<Rightarrow> r = IQUEUE_OK \<and> ready iq' \<and> c = iqueue_room iq'" by blast
  have mode: "line_inv iq' \<or> data_inv iq'" using assms(1) g(3,4) by blast
  have "0 < cursor_room c \<and> (case c of INPUT from to \<Rightarrow> to \<le> data_size iq' \<and> to - from \<le> IQUEUE_RECV_MAX
          | TARGET from to \<Rightarrow> to \<le> pending_size iq') \<and>
         (\<forall>bs. length bs \<le> cursor_room c \<longrightarrow> stream (receive c bs iq') = stream iq @ bs \<and>
            (line_inv iq \<longrightarrow> line_inv (receive c bs iq')) \<and> (data_inv iq \<longrightarrow> data_inv (receive c bs iq')))"
    if "ready iq'" "c = iqueue_room iq'" for c
  proof (cases c)
    case (INPUT a b)
    with that(2) have r: "iqueue_room iq' = INPUT a b" by simp
    have "length [] \<le> b - a" by simp
    from room_input [OF that(1) r this] room_input(1-3) [OF that(1) r] INPUT g(2-4) show ?thesis by auto
  next
    case (TARGET a b)
    with that(2) have r: "iqueue_room iq' = TARGET a b" by simp
    have "length [] \<le> b - a" by simp
    note t = room_target [OF that(1) mode r this]
    have "b = pending_size iq'" using r by (auto simp: iqueue_room_def split: if_splits)
    with t room_target(1,2) [OF that(1) mode r] TARGET g(2-4) show ?thesis by auto
  qed
  with g show ?thesis by (cases co) auto
qed

text \<open>
  C32: messages come out as they went in. With a target set, \<open>iqueue_pop_data\<close> never aborts and
  keeps the accounts. It succeeds once as many bytes as the target holds were received, and
  then the target contains exactly the first of them and the rest of the stream is what
  remains; until then it loses nothing and has emptied the input buffer. File descriptors are
  handed out with the message that contains the last byte received with them, and only a
  second set of descriptors for the same message is a violation.
\<close>
theorem iqueue_pop_data_stream:
  assumes "data_inv iq" "fds_inv iq" "user_inv us ext (iq_charges iq + C)" "pending_data iq = Some d"
  shows "\<exists>r res iq' us'. iqueue_pop_data want_fds iq us = Some (r, res, iq', us') \<and> data_inv iq' \<and> fds_inv iq' \<and>
    user_inv us' ext (iq_charges iq' + C) \<and>
    (case res of
       Some (m, fds) \<Rightarrow> r = IQUEUE_OK \<and> length m = length d \<and> stream iq = m @ stream iq' \<and> pending_data iq' = None \<and>
         fds = (if \<not> want_fds then None else if unread iq' = [] \<and> iq_fds iq \<noteq> None then iq_fds iq else pending_fds iq)
     | None \<Rightarrow> stream iq' = stream iq \<and>
         (r = IQUEUE_E_PENDING \<and> length (stream iq) < length d \<and> unread iq' = [] \<or>
          r = IQUEUE_E_VIOLATION \<and> iq_fds iq \<noteq> None \<and> pending_fds iq \<noteq> None))"
  by (rule pop_data_ok [OF assms])

section \<open>Concrete instances\<close>

definition some_queue :: "string \<Rightarrow> iqueue" where
  "some_queue s = (iqueue_null (Some 1) (s @ replicate (2048 - length s) (CHR 0x00)))\<lparr>data_end := length s\<rparr>"

lemma some_queue_ok:
  assumes "length s \<le> 2048"
  shows "line_inv (some_queue s)" "data_inv (some_queue s)" "fds_inv (some_queue s)" "unread (some_queue s) = s"
    "user_inv (one_user 4 [100, 10, 10, 10] 1) ((\<lambda>_. 0)(1 := 1)) (iq_charges (some_queue s) + {#})"
proof -
  show "unread (some_queue s) = s" by (simp add: some_queue_def unread_def iqueue_null_def)
  show "user_inv (one_user 4 [100, 10, 10, 10] 1) ((\<lambda>_. 0)(1 := 1)) (iq_charges (some_queue s) + {#})"
    using one_user_inv [of 4 "[100, 10, 10, 10]" 1]
    by (simp add: iq_charges_def some_queue_def iqueue_null_def user_inv_unused user_charge_init_def)
qed (use assms in \<open>simp_all add: some_queue_def iqueue_null_def line_inv_def data_inv_def fds_inv_def buffer_ok_def
    data_size_def pending_size_def IQUEUE_RECV_MAX_def user_charge_init_def\<close>)

theorem iqueue_pop_line_first_witness:
  "\<exists>l iq'. iqueue_pop_line (some_queue ''OK'') = Some (IQUEUE_E_PENDING, l, iq') \<and> unread iq' = ''OK''"
proof -
  have "line_inv (some_queue ''OK'')" "fdlist_count (iq_fds (some_queue ''OK'')) = 0"
    by (simp_all add: some_queue_ok) (simp add: some_queue_def iqueue_null_def fdlist_count_def)
  from iqueue_pop_line_first [OF this] show ?thesis
    by (auto simp: some_queue_ok Cons_eq_append_conv split: option.splits)
qed

theorem iqueue_get_cursor_stream_witness:
  "\<exists>r co iq' us'. iqueue_get_cursor True True True (replicate 16384 (CHR 0x00)) (some_queue ''OK'') (one_user 4 [100, 10, 10, 10] 1) =
     Some (r, co, iq', us') \<and> stream iq' = ''OK''"
proof -
  have 1: "line_inv (some_queue ''OK'') \<or> data_inv (some_queue ''OK'')" by (simp add: some_queue_ok)
  have 2: "length (replicate 16384 (CHR 0x00)) = IQUEUE_LINE_MAX" by (simp add: IQUEUE_LINE_MAX_def)
  have 3: "user_inv (one_user 4 [100, 10, 10, 10] 1) ((\<lambda>_. 0)(1 := 1)) (iq_charges (some_queue ''OK'') + {#})"
    by (rule some_queue_ok) simp
  have 4: "chargeable (one_user 4 [100, 10, 10, 10] 1) (iq_user (some_queue ''OK'')) (charge_data (some_queue ''OK'')) None USER_SLOT_BYTES"
    by (simp add: some_queue_def iqueue_null_def one_user_chargeable USER_SLOT_BYTES_def user_charge_init_def)
  have "stream (some_queue ''OK'') = ''OK''"
    using some_queue_ok(4) [of "''OK''"] by (simp add: stream_def) (simp add: some_queue_def iqueue_null_def)
  with iqueue_get_cursor_stream [OF 1 2 3 4, of True True True] show ?thesis by (metis (no_types, lifting))
qed

theorem iqueue_pop_data_stream_witness:
  "\<exists>m iq' us'. iqueue_pop_data True ((some_queue ''message'')\<lparr>pending_data := Some ''????''\<rparr>) (one_user 4 [100, 10, 10, 10] 1) =
     Some (IQUEUE_OK, Some (m, None), iq', us') \<and> length m = 4 \<and> ''message'' = m @ stream iq'"
proof -
  let ?iq = "(some_queue ''message'')\<lparr>pending_data := Some ''????''\<rparr>"
  have 1: "data_inv ?iq" "fds_inv ?iq" "unread ?iq = ''message''"
    using some_queue_ok [of "''message''"]
    by (simp_all add: data_inv_def fds_inv_def buffer_ok_def data_size_def pending_size_def unread_def)
      (simp add: some_queue_def iqueue_null_def)
  have 2: "user_inv (one_user 4 [100, 10, 10, 10] 1) ((\<lambda>_. 0)(1 := 1)) (iq_charges ?iq + {#})"
    using some_queue_ok(5) [of "''message''"] by (simp add: iq_charges_def)
  have 3: "stream ?iq = ''message''" "iq_fds ?iq = None" "pending_fds ?iq = None"
    using 1(3) by (simp_all add: stream_def) (simp_all add: some_queue_def iqueue_null_def)
  from iqueue_pop_data_stream [OF 1(1,2) 2, of "''????''" True] show ?thesis
    unfolding 3 by (auto split: option.splits)
qed

end
