(* ===== verification/Strings.thy ===== *)
theory Strings
  imports Prelude
begin

unbundle bit_operations_syntax

text \<open>
  String and integer helpers: \<open>src/util/string.h\<close>, \<open>src/util/string.c\<close> and the
  arithmetic helpers of \<open>src/util/misc.c\<close>, with the C library functions they
  call (\<open>strcmp\<close>, \<open>strtoull\<close>, \<open>snprintf\<close> of a decimal). The lemmas show that
  comparison is a total order, that hexadecimal and decimal coding round-trip,
  and what the saturating helpers compute.
\<close>

section \<open>Comparison\<close>

text \<open>\<open>strcmp\<close> compares unsigned bytes lexicographically; only the sign of its result is used.\<close>

definition strcmp :: "string \<Rightarrow> string \<Rightarrow> int" where
  "strcmp a b = three_way a b"

fun string_compare :: "string option \<Rightarrow> string option \<Rightarrow> int" where
  "string_compare None None = 0"
| "string_compare (Some a) None = 1"
| "string_compare None (Some b) = - 1"
| "string_compare (Some a) (Some b) = strcmp a b"

fun string_equal :: "string option \<Rightarrow> string option \<Rightarrow> bool" where
  "string_equal None None = True"
| "string_equal (Some a) (Some b) = (strcmp a b = 0)"
| "string_equal _ _ = False"

text \<open>The returned pointer behind the prefix is the rest of the string.\<close>

definition string_prefix :: "string \<Rightarrow> string \<Rightarrow> string option" where
  "string_prefix str prefix =
     (if take (length prefix) str = prefix then Some (drop (length prefix) str) else None)"

lemma strcmp_simps [simp]:
  "strcmp a b = 0 \<longleftrightarrow> a = b" "strcmp a b < 0 \<longleftrightarrow> a < b" "0 < strcmp a b \<longleftrightarrow> b < a"
  by (simp_all add: strcmp_def)

lemma string_compare_eq [simp]: "string_compare a b = 0 \<longleftrightarrow> a = b"
  by (cases "(a, b)" rule: string_compare.cases) auto

lemma string_compare_anti: "string_compare a b < 0 \<longleftrightarrow> 0 < string_compare b a"
  by (cases "(a, b)" rule: string_compare.cases) auto

lemma string_compare_trans:
  "\<lbrakk>string_compare a b < 0; string_compare b c < 0\<rbrakk> \<Longrightarrow> string_compare a c < 0"
  by (cases a; cases b; cases c) auto

lemma string_equal_iff [simp]: "string_equal a b \<longleftrightarrow> a = b"
  by (cases "(a, b)" rule: string_equal.cases) auto

lemma string_prefix_Some: "string_prefix s p = Some t \<longleftrightarrow> s = p @ t"
proof
  assume "string_prefix s p = Some t"
  then have "take (length p) s = p" "t = drop (length p) s"
    by (auto simp: string_prefix_def split: if_splits)
  then show "s = p @ t" by (metis append_take_drop_id)
qed (simp add: string_prefix_def)

section \<open>Hexadecimal coding\<close>

definition hex_table :: string where
  "hex_table = ''0123456789abcdef''"

fun string_to_hex :: "string \<Rightarrow> string" where
  "string_to_hex [] = []"
| "string_to_hex (c # cs) =
     hex_table ! (byte_val c div 16) # hex_table ! (byte_val c mod 16) # string_to_hex cs"

text \<open>The 128-entry decoding table, as the byte the index holds (255 is the \<open>-1\<close> of the table).\<close>

definition hex_value :: "nat \<Rightarrow> nat" where
  "hex_value i =
     (if 48 \<le> i \<and> i \<le> 57 then i - 48
      else if 65 \<le> i \<and> i \<le> 70 then i - 55
      else if 97 \<le> i \<and> i \<le> 102 then i - 87
      else 255)"

fun string_from_hex :: "string \<Rightarrow> string option" where
  "string_from_hex [] = Some []"
| "string_from_hex [_] = None"
| "string_from_hex (h0 # h1 # hex) =
     (let v1 = hex_value (byte_val h0 mod 128); v2 = hex_value (byte_val h1 mod 128) in
      if 128 \<le> byte_val h0 \<or> 128 \<le> byte_val h1 \<or> 128 \<le> v1 \<or> 128 \<le> v2 then None
      else map_option ((#) (char_of (v1 * 16 + v2))) (string_from_hex hex))"

lemma hex_table_value:
  assumes "n < 16"
  shows "byte_val (hex_table ! n) < 128" "hex_value (byte_val (hex_table ! n) mod 128) = n"
proof -
  have "n \<in> {0..<16}" using assms by simp
  also have "{0..<16} = {0,1,2,3,4,5,6,7,8,9,10,11,12,13,14,15::nat}" by code_simp
  finally show "byte_val (hex_table ! n) < 128" "hex_value (byte_val (hex_table ! n) mod 128) = n"
    by (auto simp: hex_table_def hex_value_def)
qed

lemma length_string_to_hex [simp]: "length (string_to_hex s) = 2 * length s"
  by (induction s) auto

lemma string_from_to_hex: "string_from_hex (string_to_hex s) = Some s"
proof (induction s)
  case (Cons c s)
  have lt: "byte_val c div 16 < 16" "byte_val c mod 16 < 16"
    using byte_val_less [of c] by (simp_all add: less_mult_imp_div_less)
  show ?case
    using hex_table_value [OF lt(1)] hex_table_value [OF lt(2)] lt Cons.IH
    by (simp add: Let_def)
qed simp

lemma string_to_hex_inject: "string_to_hex a = string_to_hex b \<longleftrightarrow> a = b"
  by (metis option.inject string_from_to_hex)

section \<open>Decimal numbers\<close>

definition is_digit :: "char \<Rightarrow> bool" where
  "is_digit c \<longleftrightarrow> 48 \<le> byte_val c \<and> byte_val c \<le> 57"

definition digit_char :: "nat \<Rightarrow> char" where
  "digit_char d = char_of (48 + d)"

text \<open>\<open>%u\<close> and \<open>%"PRIu64"\<close> of \<open>snprintf\<close>.\<close>

fun decimal :: "nat \<Rightarrow> string" where
  "decimal n = (if n < 10 then [digit_char n] else decimal (n div 10) @ [digit_char (n mod 10)])"

declare decimal.simps [simp del]

definition digits_value :: "string \<Rightarrow> nat" where
  "digits_value ds = foldl (\<lambda>v c. 10 * v + (byte_val c - 48)) 0 ds"

lemma digit_char_simps:
  assumes "d < 10"
  shows "is_digit (digit_char d)" "byte_val (digit_char d) - 48 = d"
  using assms by (auto simp: is_digit_def digit_char_def)

lemma decimal_digits: "\<forall>c \<in> set (decimal n). is_digit c"
proof (induction n rule: decimal.induct)
  case (1 n)
  show ?case
    by (subst decimal.simps) (use 1 digit_char_simps(1) in auto)
qed

lemma decimal_nonempty [simp]: "decimal n \<noteq> []" "[] \<noteq> decimal n"
  using decimal.simps [of n] by auto

lemma digits_value_decimal [simp]: "digits_value (decimal n) = n"
proof (induction n rule: decimal.induct)
  case (1 n)
  show ?case
    by (subst decimal.simps)
      (use 1 digit_char_simps(2) in \<open>auto simp: digits_value_def\<close>)
qed

lemma decimal_inject [simp]: "decimal m = decimal n \<longleftrightarrow> m = n"
  by (metis digits_value_decimal)

lemma decimal_length: "n < 10 ^ k \<Longrightarrow> 0 < k \<Longrightarrow> length (decimal n) \<le> k"
proof (induction n arbitrary: k rule: decimal.induct)
  case (1 n)
  show ?case
  proof (cases "n < 10")
    case True
    with 1 show ?thesis by (subst decimal.simps) simp
  next
    case False
    then obtain k' where k: "k = Suc k'" "0 < k'"
      using 1 by (cases k; cases "k - 1") auto
    with 1 False have "length (decimal (n div 10)) \<le> k'"
      by (intro 1) auto
    with False k show ?thesis by (subst decimal.simps) simp
  qed
qed

text \<open>
  \<open>strtoul\<close>/\<open>strtoull\<close> in base 10 at a width of \<open>w\<close> bits: leading white space, an
  optional sign, digits. The result is the value, the unparsed rest (the whole
  input if there are no digits) and whether \<open>errno\<close> became \<open>ERANGE\<close>.
\<close>

definition is_space :: "char \<Rightarrow> bool" where
  "is_space c \<longleftrightarrow> byte_val c = 32 \<or> (9 \<le> byte_val c \<and> byte_val c \<le> 13)"

definition split_sign :: "string \<Rightarrow> bool \<times> string" where
  "split_sign s = (case s of
     [] \<Rightarrow> (False, [])
   | c # cs \<Rightarrow> if c = CHR ''-'' then (True, cs) else if c = CHR ''+'' then (False, cs) else (False, s))"

definition strtou :: "nat \<Rightarrow> string \<Rightarrow> nat \<times> string \<times> bool" where
  "strtou w s =
     (let (neg, s') = split_sign (dropWhile is_space s);
          ds = takeWhile is_digit s'; rest = dropWhile is_digit s'; v = digits_value ds
      in if ds = [] then (0, s, False)
         else if 2 ^ w \<le> v then (2 ^ w - 1, rest, True)
         else ((if neg then (2 ^ w - v) mod 2 ^ w else v), rest, False))"

text \<open>\<open>strtol\<close>: the same scan, with a signed result of \<open>w\<close> bits.\<close>

definition strtol :: "nat \<Rightarrow> string \<Rightarrow> int \<times> string \<times> bool" where
  "strtol w s =
     (let (neg, s') = split_sign (dropWhile is_space s);
          ds = takeWhile is_digit s'; rest = dropWhile is_digit s';
          v = (if neg then - int (digits_value ds) else int (digits_value ds))
      in if ds = [] then (0, s, False)
         else if v < - (2 ^ (w - 1)) then (- (2 ^ (w - 1)), rest, True)
         else if 2 ^ (w - 1) \<le> v then (2 ^ (w - 1) - 1, rest, True)
         else (v, rest, False))"

datatype string_error = UTIL_STRING_E_INVALID | UTIL_STRING_E_RANGE

text \<open>\<open>w\<close> is the width of \<open>unsigned long\<close>; the source asserts that it is at least 32 bits.\<close>

definition util_strtou32 :: "nat \<Rightarrow> string \<Rightarrow> string_error + u32" where
  "util_strtou32 w s =
     (case strtou w s of (val, rest, erange) \<Rightarrow>
        if erange then Inl UTIL_STRING_E_RANGE
        else if rest \<noteq> [] \<or> rest = s then Inl UTIL_STRING_E_INVALID
        else if val > 4294967295 then Inl UTIL_STRING_E_RANGE
        else Inr (of_nat val))"

definition util_strtou64 :: "string \<Rightarrow> string_error + u64" where
  "util_strtou64 s =
     (case strtou 64 s of (val, rest, erange) \<Rightarrow>
        if erange then Inl UTIL_STRING_E_RANGE
        else if rest \<noteq> [] \<or> rest = s then Inl UTIL_STRING_E_INVALID
        else if val > 18446744073709551615 then Inl UTIL_STRING_E_RANGE
        else Inr (of_nat val))"

definition util_strtoint :: "nat \<Rightarrow> string \<Rightarrow> string_error + int" where
  "util_strtoint w s =
     (case strtol w s of (val, rest, erange) \<Rightarrow>
        if erange then Inl UTIL_STRING_E_RANGE
        else if rest \<noteq> [] \<or> rest = s then Inl UTIL_STRING_E_INVALID
        else if val > 2147483647 \<or> val < - 2147483648 then Inl UTIL_STRING_E_RANGE
        else Inr val)"

lemma digit_not_space_sign:
  "is_digit c \<Longrightarrow> \<not> is_space c \<and> c \<noteq> CHR ''-'' \<and> c \<noteq> CHR ''+''"
  by (auto simp: is_digit_def is_space_def)

lemma split_sign_decimal: "split_sign (dropWhile is_space (decimal n)) = (False, decimal n)"
proof (cases "decimal n")
  case (Cons c cs)
  then have "is_digit c" using decimal_digits [of n] by simp
  then show ?thesis using Cons digit_not_space_sign [of c] by (simp add: split_sign_def)
qed simp

lemma strtou_decimal:
  "strtou w (decimal n) = (if 2 ^ w \<le> n then (2 ^ w - 1, [], True) else (n, [], False))"
proof -
  have tw: "takeWhile is_digit (decimal n) = decimal n" "dropWhile is_digit (decimal n) = []"
    using decimal_digits [of n] by (auto simp: takeWhile_eq_all_conv dropWhile_eq_Nil_conv)
  show ?thesis
    unfolding strtou_def split_sign_decimal Let_def prod.case tw by simp
qed

lemma strtou_bound: "strtou w s = (v, rest, e) \<Longrightarrow> v < 2 ^ w"
  by (auto simp: strtou_def Let_def split: prod.splits if_splits)

lemma util_strtou32_decimal:
  assumes "32 \<le> w"
  shows "util_strtou32 w (decimal n) =
    (if n < 2 ^ 32 then Inr (of_nat n) else Inl UTIL_STRING_E_RANGE)"
proof -
  have "(2 ^ 32 :: nat) \<le> 2 ^ w" using assms by (rule power_increasing) simp
  then show ?thesis
    by (auto simp: util_strtou32_def strtou_decimal)
qed

lemma util_strtou64_decimal:
  "util_strtou64 (decimal n) = (if n < 2 ^ 64 then Inr (of_nat n) else Inl UTIL_STRING_E_RANGE)"
  by (auto simp: util_strtou64_def strtou_decimal)

section \<open>Saturating arithmetic and peaks\<close>

definition util_umul64_saturating :: "u64 \<Rightarrow> u64 \<Rightarrow> u64" where
  "util_umul64_saturating a b = (if 2 ^ 64 \<le> unat a * unat b then UINT64_MAX else a * b)"

definition util_z2u_saturating :: "u64 \<Rightarrow> u32" where
  "util_z2u_saturating v = (let cast = ucast v :: u32 in if ucast cast \<noteq> v then UINT_MAX else cast)"

definition util_t2u_saturating :: "u64 \<Rightarrow> u32" where
  "util_t2u_saturating v = (let cast = ucast v :: u32 in if ucast cast \<noteq> v then UINT_MAX else cast)"

definition util_peak_update :: "u64 \<Rightarrow> u64 \<Rightarrow> u64" where
  "util_peak_update peak update = (if update > peak then update else peak)"

lemma util_peak_update_max: "util_peak_update p u = max p u"
  by (auto simp: util_peak_update_def max_def)

lemma umul64_saturating_unat:
  "unat (util_umul64_saturating a b) = min (unat a * unat b) (2 ^ 64 - 1)"
proof (cases "2 ^ 64 \<le> unat a * unat b")
  case True
  then show ?thesis by (simp add: util_umul64_saturating_def unsigned_minus_1_eq_mask mask_eq_exp_minus_1)
next
  case False
  then show ?thesis by (simp add: util_umul64_saturating_def unat_word_ariths)
qed

lemma saturating_cast_unat:
  "unat (let cast = ucast (v :: u64) :: u32 in if ucast cast \<noteq> v then UINT_MAX else cast)
     = min (unat v) (2 ^ 32 - 1)"
proof (cases "unat v < 2 ^ 32")
  case True
  then have "unat (ucast v :: u32) = unat v" by (simp add: unsigned_ucast_eq unsigned_take_bit_eq take_bit_nat_eq_self)
  moreover from this True have "ucast (ucast v :: u32) = v"
    by (simp add: unsigned_ucast_eq unsigned_take_bit_eq take_bit_nat_eq_self word_unat_eq_iff)
  ultimately show ?thesis using True by (simp add: Let_def)
next
  case False
  have "unat (ucast (ucast v :: u32) :: u64) < 2 ^ 32"
    using take_bit_nat_less_exp [of 32 "unat v"]
    by (simp add: unsigned_ucast_eq unsigned_take_bit_eq)
  with False have "ucast (ucast v :: u32) \<noteq> v" by metis
  with False show ?thesis by (simp add: Let_def unsigned_minus_1_eq_mask mask_eq_exp_minus_1)
qed

end
