(* ===== verification/Protocol.thy ===== *)
theory Protocol
  imports Strings
begin

text \<open>
  D-Bus protocol constants and the validation of bus names, namespaces,
  interfaces, members and error names (\<open>src/dbus/protocol.h\<close>,
  \<open>src/dbus/protocol.c\<close>). The validators scan the bytes once with a few flags;
  the properties say that each accepts exactly the strings of the grammar of the
  D-Bus specification, stated over the dot-separated elements.
\<close>

section \<open>Constants\<close>

definition DBUS_NAME_FLAG_ALLOW_REPLACEMENT :: u64 where "DBUS_NAME_FLAG_ALLOW_REPLACEMENT = 1"
definition DBUS_NAME_FLAG_REPLACE_EXISTING :: u64 where "DBUS_NAME_FLAG_REPLACE_EXISTING = 2"
definition DBUS_NAME_FLAG_DO_NOT_QUEUE :: u64 where "DBUS_NAME_FLAG_DO_NOT_QUEUE = 4"

definition DBUS_MESSAGE_TYPE_INVALID :: u8 where "DBUS_MESSAGE_TYPE_INVALID = 0"
definition DBUS_MESSAGE_TYPE_METHOD_CALL :: u8 where "DBUS_MESSAGE_TYPE_METHOD_CALL = 1"
definition DBUS_MESSAGE_TYPE_METHOD_RETURN :: u8 where "DBUS_MESSAGE_TYPE_METHOD_RETURN = 2"
definition DBUS_MESSAGE_TYPE_ERROR :: u8 where "DBUS_MESSAGE_TYPE_ERROR = 3"
definition DBUS_MESSAGE_TYPE_SIGNAL :: u8 where "DBUS_MESSAGE_TYPE_SIGNAL = 4"

lemmas dbus_message_type_defs =
  DBUS_MESSAGE_TYPE_INVALID_def DBUS_MESSAGE_TYPE_METHOD_CALL_def
  DBUS_MESSAGE_TYPE_METHOD_RETURN_def DBUS_MESSAGE_TYPE_ERROR_def DBUS_MESSAGE_TYPE_SIGNAL_def

section \<open>Validation\<close>

definition is_alpha :: "char \<Rightarrow> bool" where
  "is_alpha c \<longleftrightarrow> (97 \<le> byte_val c \<and> byte_val c \<le> 122) \<or> (65 \<le> byte_val c \<and> byte_val c \<le> 90)"

text \<open>
  The scan that names and interfaces have in common: \<open>allowed dot c\<close> is the test of a
  byte other than \<open>.\<close>, where \<open>dot\<close> says that the previous byte was a dot (or that there
  is none). \<open>None\<close> is the \<open>return false\<close> inside the \<open>for\<close>, otherwise the final flags
  are returned.
\<close>

fun dotted_scan :: "(bool \<Rightarrow> char \<Rightarrow> bool) \<Rightarrow> bool \<Rightarrow> bool \<Rightarrow> string \<Rightarrow> (bool \<times> bool) option" where
  "dotted_scan allowed has_dot dot [] = Some (has_dot, dot)"
| "dotted_scan allowed has_dot dot (c # cs) =
     (if c = CHR ''.'' then (if dot then None else dotted_scan allowed True True cs)
      else if \<not> allowed dot c then None
      else dotted_scan allowed has_dot False cs)"

definition name_byte :: "bool \<Rightarrow> bool \<Rightarrow> char \<Rightarrow> bool" where
  "name_byte unique dot c \<longleftrightarrow>
     is_alpha c \<or> (is_digit c \<and> (\<not> dot \<or> unique)) \<or> c = CHR ''_'' \<or> c = CHR ''-''"

definition interface_byte :: "bool \<Rightarrow> char \<Rightarrow> bool" where
  "interface_byte dot c \<longleftrightarrow> is_alpha c \<or> (is_digit c \<and> \<not> dot) \<or> c = CHR ''_''"

definition dbus_validate_name_common :: "string \<Rightarrow> bool \<Rightarrow> bool" where
  "dbus_validate_name_common name namespace =
     (if length name > 255 then False
      else
        let unique = (name \<noteq> [] \<and> hd name = CHR '':'');
            body = (if unique then tl name else name)
        in case dotted_scan (name_byte unique) False True body of
             None \<Rightarrow> False
           | Some (has_dot, dot) \<Rightarrow> (has_dot \<or> namespace) \<and> \<not> dot)"

definition dbus_validate_name :: "string \<Rightarrow> bool" where
  "dbus_validate_name name = dbus_validate_name_common name False"

definition dbus_validate_namespace :: "string \<Rightarrow> bool" where
  "dbus_validate_namespace namespace = dbus_validate_name_common namespace True"

definition dbus_validate_interface :: "string \<Rightarrow> bool" where
  "dbus_validate_interface interface =
     (if length interface > 255 then False
      else case dotted_scan interface_byte False True interface of
             None \<Rightarrow> False
           | Some (has_dot, dot) \<Rightarrow> has_dot \<and> \<not> dot)"

fun member_scan :: "bool \<Rightarrow> string \<Rightarrow> bool" where
  "member_scan first [] = (\<not> first)"
| "member_scan first (c # cs) =
     (if \<not> (is_alpha c \<or> (is_digit c \<and> \<not> first) \<or> c = CHR ''_'') then False
      else member_scan False cs)"

definition dbus_validate_member :: "string \<Rightarrow> bool" where
  "dbus_validate_member member = (if length member > 255 then False else member_scan True member)"

definition dbus_validate_error_name :: "string \<Rightarrow> bool" where
  "dbus_validate_error_name name = dbus_validate_interface name"

section \<open>The grammar of the specification\<close>

text \<open>The elements of a string are its maximal dot-free pieces, empty ones included.\<close>

fun elements :: "string \<Rightarrow> string list" where
  "elements [] = [[]]"
| "elements (c # cs) =
     (if c = CHR ''.'' then [] # elements cs
      else case elements cs of e # es \<Rightarrow> (c # e) # es | [] \<Rightarrow> [[c]])"

definition element_ok :: "(bool \<Rightarrow> char \<Rightarrow> bool) \<Rightarrow> string \<Rightarrow> bool" where
  "element_ok allowed e \<longleftrightarrow> e \<noteq> [] \<and> allowed True (hd e) \<and> (\<forall>c \<in> set (tl e). allowed False c)"

lemma elements_nonempty [simp]: "elements s \<noteq> []"
  by (cases s) (auto split: list.splits)

lemma elements_length_le: "e \<in> set (elements s) \<Longrightarrow> length e \<le> length s"
proof (induction s arbitrary: e)
  case (Cons c s)
  obtain d ds where el: "elements s = d # ds" by (cases "elements s") auto
  with Cons show ?case by (fastforce split: if_splits)
qed simp

lemma dotted_scan_elements:
  "dotted_scan allowed has_dot dot s = Some (h, False) \<longleftrightarrow>
     (let e = hd (elements s); es = tl (elements s)
      in (if dot then element_ok allowed e else \<forall>c \<in> set e. allowed False c)
         \<and> (\<forall>e \<in> set es. element_ok allowed e) \<and> (h \<longleftrightarrow> has_dot \<or> es \<noteq> []))"
proof (induction allowed has_dot dot s rule: dotted_scan.induct)
  case (1 allowed has_dot dot)
  show ?case by (auto simp: Let_def element_ok_def)
next
  case (2 allowed has_dot dot c cs)
  obtain e es where el: "elements cs = e # es" by (cases "elements cs") auto
  show ?case
    using 2 el by (cases "c = CHR ''.''"; cases dot) (auto simp: Let_def element_ok_def)
qed

lemma dotted_scan_accept:
  "(case dotted_scan allowed False True s of None \<Rightarrow> False | Some (h, d) \<Rightarrow> (h \<or> ns) \<and> \<not> d) \<longleftrightarrow>
     (\<forall>e \<in> set (elements s). element_ok allowed e) \<and> (ns \<or> 2 \<le> length (elements s))"
proof -
  obtain e es where el: "elements s = e # es" by (cases "elements s") auto
  have "(case dotted_scan allowed False True s of None \<Rightarrow> False | Some (h, d) \<Rightarrow> (h \<or> ns) \<and> \<not> d)
      \<longleftrightarrow> (\<exists>h. dotted_scan allowed False True s = Some (h, False) \<and> (h \<or> ns))"
    by (auto split: option.splits prod.splits)
  also have "\<dots> \<longleftrightarrow> (\<forall>e \<in> set (elements s). element_ok allowed e) \<and> (ns \<or> 2 \<le> length (elements s))"
    unfolding dotted_scan_elements using el by (cases es) (auto simp: Let_def)
  finally show ?thesis .
qed

lemma member_scan_False: "member_scan False s \<longleftrightarrow> (\<forall>c \<in> set s. interface_byte False c)"
  by (induction s) (auto simp: interface_byte_def)

lemma member_scan_True: "member_scan True s \<longleftrightarrow> element_ok interface_byte s"
  by (cases s) (auto simp: member_scan_False element_ok_def interface_byte_def)

lemma interface_element:
  "element_ok interface_byte e \<longleftrightarrow> e \<noteq> [] \<and> \<not> is_digit (hd e) \<and>
     list_all (\<lambda>c. is_alpha c \<or> is_digit c \<or> c = CHR ''_'') e"
  by (cases e) (auto simp: element_ok_def interface_byte_def list_all_iff is_alpha_def is_digit_def)

lemma name_element:
  "element_ok (name_byte u) e \<longleftrightarrow> e \<noteq> [] \<and> (u \<or> \<not> is_digit (hd e)) \<and>
     list_all (\<lambda>c. is_alpha c \<or> is_digit c \<or> c = CHR ''_'' \<or> c = CHR ''-'') e"
  by (cases e) (auto simp: element_ok_def name_byte_def list_all_iff is_alpha_def is_digit_def)

text \<open>
  The grammar with a minimal number of elements: 2 for a bus name, 1 for a namespace.
\<close>

definition grammar_bus_name :: "nat \<Rightarrow> string \<Rightarrow> bool" where
  "grammar_bus_name k name \<longleftrightarrow>
     length name \<le> 255 \<and>
     (let unique = (take 1 name = '':''); es = elements (if unique then tl name else name)
      in k \<le> length es \<and>
         list_all (\<lambda>e. e \<noteq> [] \<and> (unique \<or> \<not> is_digit (hd e)) \<and>
           list_all (\<lambda>c. is_alpha c \<or> is_digit c \<or> c = CHR ''_'' \<or> c = CHR ''-'') e) es)"

definition grammar_member :: "string \<Rightarrow> bool" where
  "grammar_member m \<longleftrightarrow> m \<noteq> [] \<and> length m \<le> 255 \<and> \<not> is_digit (hd m) \<and>
     list_all (\<lambda>c. is_alpha c \<or> is_digit c \<or> c = CHR ''_'') m"

definition grammar_interface :: "string \<Rightarrow> bool" where
  "grammar_interface i \<longleftrightarrow>
     length i \<le> 255 \<and> 2 \<le> length (elements i) \<and> list_all grammar_member (elements i)"

lemma validate_name_common_grammar:
  "dbus_validate_name_common name ns = grammar_bus_name (if ns then 1 else 2) name"
proof -
  have u: "(name \<noteq> [] \<and> hd name = CHR '':'') = (take 1 name = '':'')"
    by (cases name) auto
  have "1 \<le> length (elements s)" for s
    using elements_nonempty [of s] by (cases "elements s") auto
  then show ?thesis
    unfolding dbus_validate_name_common_def dotted_scan_accept grammar_bus_name_def u Let_def
      list_all_iff name_element [unfolded list_all_iff]
    by (simp add: not_less) auto
qed

lemma validate_member_grammar: "dbus_validate_member m = grammar_member m"
  by (auto simp: dbus_validate_member_def grammar_member_def member_scan_True interface_element)

lemma validate_interface_grammar: "dbus_validate_interface i = grammar_interface i"
proof -
  have scan: "(case dotted_scan interface_byte False True i of None \<Rightarrow> False
        | Some (has_dot, dot) \<Rightarrow> has_dot \<and> \<not> dot)
      = (list_all (element_ok interface_byte) (elements i) \<and> 2 \<le> length (elements i))"
    using dotted_scan_accept [where allowed = interface_byte and s = i and ns = False]
    by (cases "dotted_scan interface_byte False True i") (auto simp: list_all_iff)
  have mem: "list_all grammar_member (elements i) = list_all (element_ok interface_byte) (elements i)"
    if "length i \<le> 255"
    using that elements_length_le [of _ i]
    by (fastforce simp: list_all_iff grammar_member_def interface_element)
  show ?thesis
    using mem by (cases "length i \<le> 255") (auto simp: dbus_validate_interface_def grammar_interface_def scan)
qed

text \<open>
  C15: the bus-name validator accepts exactly the names of the D-Bus specification:
  at most 255 bytes, an optional leading colon, at least two dot-separated elements,
  every element non-empty and made of letters, digits, underscore and hyphen, and an
  element starts with a digit only in a unique name (one with the colon). The
  namespace validator accepts the same strings and those of a single element.
\<close>
theorem dbus_validate_name_grammar:
  "dbus_validate_name name = grammar_bus_name 2 name \<and>
   dbus_validate_namespace name = grammar_bus_name 1 name"
  by (simp add: dbus_validate_name_def dbus_validate_namespace_def validate_name_common_grammar)

text \<open>
  A member is accepted exactly if it has between 1 and 255 bytes, all letters,
  digits or underscores, the first not a digit; an interface (or an error name) is
  accepted exactly if it has at most 255 bytes and at least two dot-separated
  elements and each element is a valid member.
\<close>
theorem dbus_validate_interface_grammar:
  "dbus_validate_member s = grammar_member s \<and>
   dbus_validate_interface s = grammar_interface s \<and>
   dbus_validate_error_name s = grammar_interface s"
  by (simp add: validate_member_grammar validate_interface_grammar dbus_validate_error_name_def)

end
