(* ===== verification/Address.thy ===== *)
theory Address
  imports Protocol
begin

text \<open>
  Peer addresses (\<open>src/dbus/address.h\<close>, \<open>src/dbus/address.c\<close>): a message is sent to
  a unique ID \<open>:1.<n>\<close> or to a well-known name. The union of the C struct is a
  datatype; \<open>address_to_string\<close> and \<open>address_write\<close> assert that the address has a
  known type and that the text fits the buffer, so they return an \<open>option\<close>.
\<close>

datatype address = ADDRESS_TYPE_OTHER | ADDRESS_TYPE_ID u64 | ADDRESS_TYPE_NAME string

definition ADDRESS_ID_INVALID :: u64 where "ADDRESS_ID_INVALID = ULLONG_MAX"

text \<open>\<open>3 + C_DECIMAL_MAX(uint64_t)\<close>: the latter is 20 digits and a sign.\<close>

definition ADDRESS_ID_STRING_MAX :: nat where "ADDRESS_ID_STRING_MAX = 3 + 21"

definition address_init_from_id :: "u64 \<Rightarrow> address" where
  "address_init_from_id i = ADDRESS_TYPE_ID i"

definition address_init_from_name :: "string \<Rightarrow> address" where
  "address_init_from_name name = ADDRESS_TYPE_NAME name"

definition address_from_string :: "string \<Rightarrow> address" where
  "address_from_string s =
     (case s of
        [] \<Rightarrow> ADDRESS_TYPE_OTHER
      | c # _ \<Rightarrow>
          if c = CHR '':'' then
            (if take 3 s \<noteq> '':1.'' then ADDRESS_TYPE_OTHER
             else let str = drop 3 s in
                  case strtou 64 str of (i, rest, erange) \<Rightarrow>
                    if rest = str \<or> rest \<noteq> [] \<or> erange \<or> i = 2 ^ 64 - 1 then ADDRESS_TYPE_OTHER
                    else ADDRESS_TYPE_ID (of_nat i))
          else ADDRESS_TYPE_NAME s)"

text \<open>The text of \<open>snprintf(buffer, n, ":1.%"PRIu64, id)\<close>, which must be shorter than the buffer.\<close>

definition address_id_text :: "u64 \<Rightarrow> string" where
  "address_id_text i = '':1.'' @ decimal (unat i)"

definition address_to_string :: "address \<Rightarrow> string option" where
  "address_to_string a =
     (case a of
        ADDRESS_TYPE_ID i \<Rightarrow> do {
          _ \<leftarrow> c_assert (length (address_id_text i) < ADDRESS_ID_STRING_MAX + 1);
          Some (address_id_text i) }
      | ADDRESS_TYPE_NAME name \<Rightarrow> Some name
      | ADDRESS_TYPE_OTHER \<Rightarrow> None)"

definition address_write :: "address \<Rightarrow> nat \<Rightarrow> string option" where
  "address_write a n_buffer =
     (case a of
        ADDRESS_TYPE_ID i \<Rightarrow> do {
          _ \<leftarrow> c_assert (length (address_id_text i) < n_buffer);
          Some (address_id_text i) }
      | ADDRESS_TYPE_NAME name \<Rightarrow> do {
          _ \<leftarrow> c_assert (n_buffer > length name);
          Some name }
      | ADDRESS_TYPE_OTHER \<Rightarrow> None)"

lemma address_id_text_length: "length (address_id_text i) \<le> 23"
proof -
  have "unat i < 10 ^ 20"
    using unsigned_less [of i, where ?'a = nat] by simp
  then have "length (decimal (unat i)) \<le> 20" by (rule decimal_length) simp
  then show ?thesis by (simp add: address_id_text_def)
qed

lemma address_id_text_not_empty: "address_id_text i = CHR '':'' # CHR ''1'' # CHR ''.'' # decimal (unat i)"
  by (simp add: address_id_text_def)

lemma address_from_id_text:
  "address_from_string (address_id_text i) =
     (if i = ADDRESS_ID_INVALID then ADDRESS_TYPE_OTHER else ADDRESS_TYPE_ID i)"
proof -
  have lt: "unat i < 2 ^ 64" using unsigned_less [of i, where ?'a = nat] by simp
  have st: "strtou 64 (decimal (unat i)) = (unat i, [], False)"
    using lt by (simp add: strtou_decimal)
  have inv: "unat i = 2 ^ 64 - 1 \<longleftrightarrow> i = ADDRESS_ID_INVALID"
    by (simp add: ADDRESS_ID_INVALID_def word_unat_eq_iff unsigned_minus_1_eq_mask mask_eq_exp_minus_1)
  show ?thesis
    unfolding address_id_text_not_empty address_from_string_def list.case st Let_def prod.case
    using inv by (simp add: st)
qed

text \<open>
  C18: round trip of addresses. The text of every unique ID other than the reserved
  invalid ID fits the internal buffer and parses back to that ID (the invalid ID
  parses as no address), and a well-known name parses back to itself.
\<close>
theorem address_roundtrip:
  "map_option address_from_string (address_to_string (address_init_from_id i)) =
     Some (if i = ADDRESS_ID_INVALID then ADDRESS_TYPE_OTHER else ADDRESS_TYPE_ID i) \<and>
   map_option address_from_string (address_to_string (address_init_from_name (c # cs))) =
     Some (if c = CHR '':'' then address_from_string (c # cs) else ADDRESS_TYPE_NAME (c # cs))"
  using address_id_text_length [of i]
  by (simp add: address_to_string_def address_init_from_id_def address_init_from_name_def
      address_from_id_text ADDRESS_ID_STRING_MAX_def)
    (simp add: address_from_string_def)

text \<open>
  The parser never yields the invalid ID, and distinct IDs have distinct texts: the
  text of an ID identifies the peer.
\<close>

lemma address_from_string_id_valid:
  "address_from_string s = ADDRESS_TYPE_ID i \<Longrightarrow> i \<noteq> ADDRESS_ID_INVALID"
proof -
  assume "address_from_string s = ADDRESS_TYPE_ID i"
  then obtain v rest where v: "strtou 64 (drop 3 s) = (v, rest, False)" "v \<noteq> 2 ^ 64 - 1" "i = of_nat v"
    by (auto simp: address_from_string_def Let_def split: list.splits if_splits prod.splits)
  from v(1) have "v < 2 ^ 64" by (rule strtou_bound)
  then have "unat i = v" using v(3) by (simp add: unat_of_nat)
  with v(2) show ?thesis
    by (auto simp: ADDRESS_ID_INVALID_def unsigned_minus_1_eq_mask mask_eq_exp_minus_1)
qed

lemma address_id_text_inject: "address_id_text a = address_id_text b \<longleftrightarrow> a = b"
  by (simp add: address_id_text_def word_unat_eq_iff)

text \<open>
  Writing an address needs a buffer longer than its text and then writes exactly
  what \<open>address_to_string\<close> returns; the address buffer that the struct carries is
  always long enough for an ID, so only an address of unknown type aborts.
\<close>
theorem address_write_fits:
  "address_write a n =
     (case address_to_string a of
        None \<Rightarrow> None
      | Some s \<Rightarrow> if length s < n then Some s else None) \<and>
   (address_to_string a = None) = (a = ADDRESS_TYPE_OTHER)"
proof (cases a)
  case (ADDRESS_TYPE_ID i)
  then show ?thesis
    using address_id_text_length [of i]
    by (simp add: address_write_def address_to_string_def ADDRESS_ID_STRING_MAX_def)
qed (simp_all add: address_write_def address_to_string_def)

end
