(* ===== verification/Message.thy ===== *)
theory Message
  imports Address
begin

text \<open>
  Messages (\<open>src/dbus/message.h\<close>, \<open>src/dbus/message.c\<close>): the fixed header and its sizes, the
  construction of incoming and outgoing messages, and the replacement of the sender field
  before a message is forwarded.

  The memory of a message is the list of its bytes; \<open>header\<close> always points to its start, and
  \<open>body\<close> and \<open>original_sender\<close> are positions in it. An I/O vector is a part of this memory or of
  the patch buffer. The sizes are sums of 32-bit numbers computed in 64 bits, which cannot
  overflow, so they are natural numbers. References to messages are not counted, as messages
  are values here.
\<close>

section \<open>Bytes of the header\<close>

definition load32 :: "bool \<Rightarrow> string \<Rightarrow> u32" where
  "load32 big_endian s =
     of_nat (horner_sum of_char 256 (if big_endian then rev (take 4 s) else take 4 s))"

definition store32 :: "bool \<Rightarrow> u32 \<Rightarrow> string" where
  "store32 big_endian w =
     (let bs = map (\<lambda>i. char_of (unat w div 256 ^ i)) [0, 1, 2, 3] in if big_endian then rev bs else bs)"

definition c_align_to :: "nat \<Rightarrow> nat \<Rightarrow> nat" where
  "c_align_to n a = (n + a - 1) div a * a"

definition DBUS_MESSAGE_FIELD_SENDER :: nat where "DBUS_MESSAGE_FIELD_SENDER = 7"

definition MESSAGE_SIZE_MAX :: nat where "MESSAGE_SIZE_MAX = 128 * 1024 * 1024"

definition MESSAGE_PATCH_MAX :: nat where
  "MESSAGE_PATCH_MAX = c_align_to (1 + 3 + 4 + ADDRESS_ID_STRING_MAX + 1) 8"

datatype message_error = MESSAGE_E_CORRUPT_HEADER | MESSAGE_E_TOO_LARGE | MESSAGE_E_INVALID_HEADER
  | MESSAGE_E_INVALID_BODY | MESSAGE_E_MISSING_FDS | MESSAGE_ENOMEM

section \<open>Messages\<close>

datatype iovec = IOV_NULL | IOV_DATA nat nat | IOV_PATCH nat

fun iov_len :: "iovec \<Rightarrow> nat" where
  "iov_len IOV_NULL = 0"
| "iov_len (IOV_DATA _ n) = n"
| "iov_len (IOV_PATCH n) = n"

record message =
  m_big_endian :: bool
  m_allocated_data :: bool
  m_parsed :: bool
  m_fds :: "int list option"
  m_n_data :: nat
  m_n_copied :: nat
  m_n_header :: nat
  m_n_body :: nat
  m_data :: string
  m_sender_id :: u64
  m_body :: nat
  m_original_sender :: "nat option"
  m_vecs :: "iovec list"
  m_patch :: string

definition message_new :: "bool \<Rightarrow> message" where
  "message_new big_endian = \<lparr>m_big_endian = big_endian, m_allocated_data = False, m_parsed = False, m_fds = None,
     m_n_data = 0, m_n_copied = 0, m_n_header = 0, m_n_body = 0, m_data = [], m_sender_id = ADDRESS_ID_INVALID,
     m_body = 0, m_original_sender = None, m_vecs = [], m_patch = replicate MESSAGE_PATCH_MAX (CHR 0x00)\<rparr>"

text \<open>\<open>memory\<close> is what the memory after the message structure contains at first.\<close>

definition message_new_incoming :: "bool \<Rightarrow> (nat \<Rightarrow> char) \<Rightarrow> string \<Rightarrow> message_error + message" where
  "message_new_incoming mem memory header =
     (if header ! 0 \<noteq> CHR ''l'' \<and> header ! 0 \<noteq> CHR ''B'' then Inl MESSAGE_E_CORRUPT_HEADER
      else
        let big_endian = (header ! 0 = CHR ''B'');
            n_header = 16 + unat (load32 big_endian (drop 12 header));
            n_body = unat (load32 big_endian (drop 4 header));
            n_data = c_align_to n_header 8 + n_body
        in if n_data > MESSAGE_SIZE_MAX then Inl MESSAGE_E_TOO_LARGE
           else if \<not> mem then Inl MESSAGE_ENOMEM
           else Inr ((message_new big_endian)\<lparr>m_n_data := n_data, m_n_header := n_header, m_n_body := n_body,
             m_data := take 16 header @ drop 16 (map memory [0..<n_data]),
             m_body := c_align_to n_header 8,
             m_vecs := [IOV_DATA 0 (c_align_to n_header 8), IOV_NULL, IOV_NULL, IOV_DATA (c_align_to n_header 8) n_body],
             m_n_copied := 16\<rparr>))"

text \<open>
  An outgoing message is a native one that the broker wrote itself; \<open>native\<close> is the byte order
  of the machine.
\<close>

definition message_new_outgoing :: "bool \<Rightarrow> bool \<Rightarrow> string \<Rightarrow> (message_error + message) option" where
  "message_new_outgoing native mem data = do {
     _ \<leftarrow> c_assert (length data \<ge> 16);
     _ \<leftarrow> c_assert ((data ! 0 = CHR ''B'') = native \<and> (data ! 0 = CHR ''l'') = (\<not> native));
     let n_fields = unat (load32 native (drop 12 data));
     _ \<leftarrow> c_assert (length data \<ge> 16 + c_align_to n_fields 8);
     let n_header = 16 + n_fields;
     let n_body = length data - c_align_to n_header 8;
     let data = take 4 data @ store32 native (of_nat (length data - 16 - c_align_to n_fields 8)) @ drop 8 data;
     Some (if \<not> mem then Inl MESSAGE_ENOMEM
       else Inr ((message_new (data ! 0 = CHR ''B''))\<lparr>m_allocated_data := True, m_n_data := length data,
         m_n_header := n_header, m_n_body := n_body, m_data := data, m_body := c_align_to n_header 8,
         m_vecs := [IOV_DATA 0 (c_align_to n_header 8), IOV_NULL, IOV_NULL, IOV_DATA (c_align_to n_header 8) n_body]\<rparr>)) }"

definition message_read_serial :: "message \<Rightarrow> u32" where
  "message_read_serial m =
     (if of_char (m_data m ! 1) \<noteq> DBUS_MESSAGE_TYPE_METHOD_CALL \<or>
         (of_char (m_data m ! 2) :: nat) mod 2 = 1
      then 0 else load32 (m_big_endian m) (drop 8 (m_data m)))"

text \<open>The bytes an I/O vector stands for, and what is sent for a message.\<close>

fun iov_bytes :: "message \<Rightarrow> iovec \<Rightarrow> string" where
  "iov_bytes m IOV_NULL = []"
| "iov_bytes m (IOV_DATA off n) = take n (drop off (m_data m))"
| "iov_bytes m (IOV_PATCH n) = take n (m_patch m)"

definition message_bytes :: "message \<Rightarrow> string" where
  "message_bytes m = concat (map (iov_bytes m) (m_vecs m))"

section \<open>Stitching the sender\<close>

text \<open>The bytes from a position up to the first NUL, as \<open>strlen\<close> sees them.\<close>

definition cstr_at :: "string \<Rightarrow> nat \<Rightarrow> string" where
  "cstr_at s off = takeWhile (\<lambda>c. c \<noteq> CHR 0x00) (drop off s)"

definition sender_patch :: "bool \<Rightarrow> string \<Rightarrow> string \<Rightarrow> string" where
  "sender_patch big_endian sender patch =
     (let n_sender = length sender;
          n_field = 1 + 3 + 4 + n_sender + 1;
          n_stitch = c_align_to n_field 8;
          bytes = [char_of DBUS_MESSAGE_FIELD_SENDER, CHR 0x01, CHR ''s'', CHR 0x00] @
            store32 big_endian (of_nat n_sender) @ sender @ [CHR 0x00] @ replicate (n_stitch - n_field) (CHR 0x00)
      in bytes @ drop n_stitch patch)"

definition message_stitch_sender :: "message \<Rightarrow> u64 \<Rightarrow> message option" where
  "message_stitch_sender m sender_id = do {
     _ \<leftarrow> c_assert (m_parsed m);
     _ \<leftarrow> c_assert (m_vecs m ! 1 = IOV_NULL);
     _ \<leftarrow> c_assert (m_vecs m ! 2 = IOV_NULL);
     sender \<leftarrow> address_to_string (ADDRESS_TYPE_ID sender_id);
     let m = m\<lparr>m_sender_id := sender_id\<rparr>;
     let n_sender = length sender;
     let n_field = 1 + 3 + 4 + n_sender + 1;
     let n_stitch = c_align_to n_field 8;
     _ \<leftarrow> c_assert (n_stitch \<le> MESSAGE_PATCH_MAX);
     _ \<leftarrow> c_assert (n_sender \<le> ADDRESS_ID_STRING_MAX);
     m \<leftarrow> (case m_original_sender m of
            None \<Rightarrow> Some m
          | Some off \<Rightarrow> do {
              let n = length (cstr_at (m_data m) off);
              _ \<leftarrow> c_assert (off + n + 1 \<le> c_align_to (m_n_header m) 8);
              let field = off - (1 + 3 + 4);
              let rest = field + c_align_to (1 + 3 + 4 + n + 1) 8;
              Some (m\<lparr>m_vecs := (m_vecs m)[1 := IOV_DATA rest (iov_len (m_vecs m ! 0) - rest), 0 := IOV_DATA 0 field]\<rparr>) });
     let m = m\<lparr>m_vecs := (m_vecs m)[2 := IOV_PATCH n_stitch],
               m_patch := sender_patch (m_big_endian m) sender (m_patch m)\<rparr>;
     let n_header = iov_len (m_vecs m ! 0) + iov_len (m_vecs m ! 1) + n_field;
     Some (m\<lparr>m_n_header := n_header,
             m_n_data := c_align_to n_header 8 + m_n_body m,
             m_data := take 12 (m_data m) @ store32 (m_big_endian m) (of_nat (n_header - 16)) @ drop 16 (m_data m)\<rparr>) }"

section \<open>Lemmas\<close>

lemma length_store32 [simp]: "length (store32 be w) = 4"
  by (simp add: store32_def Let_def)

lemma nat_digits:
  fixes n :: nat
  assumes "n < 2 ^ 32"
  shows "n mod 256 + 256 * (n div 256 mod 256 + 256 * (n div 256 ^ 2 mod 256 + 256 * (n div 256 ^ 3 mod 256))) = n"
proof -
  have "n div 256 ^ 3 < 256" using assms by (simp add: less_mult_imp_div_less)
  then have 3: "n div 256 ^ 3 mod 256 = n div 256 ^ 2 div 256" by (simp add: div_mult2_eq [symmetric])
  have 2: "n div 256 ^ 2 = n div 256 div 256" by (simp add: div_mult2_eq [symmetric])
  show ?thesis unfolding 3 2 using mod_mult_div_eq [of _ "256 :: nat"] by simp
qed

lemma load32_store32 [simp]: "load32 be (store32 be w @ s) = w"
proof -
  define bs where "bs = map (\<lambda>i. char_of (unat w div 256 ^ i) :: char) [0, 1, 2, 3]"
  have "horner_sum of_char 256 bs = unat w"
    using nat_digits [of "unat w"] less_mult_imp_div_less [of "unat w" 256 "256 ^ 3"] unsigned_less [of w, where ?'a = nat]
    by (simp add: bs_def horner_sum_simps)
  moreover have "length bs = 4" by (simp add: bs_def)
  ultimately show ?thesis
    unfolding load32_def store32_def Let_def bs_def [symmetric] by simp
qed

lemma c_align_to_8:
  shows "n \<le> c_align_to n 8" and "c_align_to n 8 < n + 8" and "8 dvd c_align_to n 8"
    and "8 dvd m \<Longrightarrow> c_align_to (m + n) 8 = m + c_align_to n 8"
proof -
  have "(n + 8 - 1) div 8 * 8 + (n + 8 - 1) mod 8 = n + 7" "(n + 8 - 1) mod 8 < (8 :: nat)" by simp_all
  then show "n \<le> c_align_to n 8" "c_align_to n 8 < n + 8" unfolding c_align_to_def by linarith+
  show "8 dvd c_align_to n 8" by (simp add: c_align_to_def)
  show "c_align_to (m + n) 8 = m + c_align_to n 8" if "8 dvd m"
  proof -
    from that obtain k where m: "m = 8 * k" by (rule dvdE)
    have "m + n + 8 - 1 = (n + 8 - 1) + k * 8" by (simp add: m)
    then have "(m + n + 8 - 1) div 8 = k + (n + 8 - 1) div 8" by simp
    then show ?thesis unfolding c_align_to_def by (simp add: m algebra_simps)
  qed
qed

definition pad8 :: "string \<Rightarrow> string" where
  "pad8 s = s @ replicate (c_align_to (length s) 8 - length s) (CHR 0x00)"

lemma length_pad8 [simp]: "length (pad8 s) = c_align_to (length s) 8"
  using c_align_to_8(1) [of "length s"] by (simp add: pad8_def)

definition fields_bytes :: "string list \<Rightarrow> string" where
  "fields_bytes fs = concat (map pad8 fs)"

lemma fields_bytes_append [simp]: "fields_bytes (fs @ gs) = fields_bytes fs @ fields_bytes gs"
  and fields_bytes_Cons [simp]: "fields_bytes (f # fs) = pad8 f @ fields_bytes fs" and fields_bytes_Nil [simp]: "fields_bytes [] = []"
  by (simp_all add: fields_bytes_def)

lemma fields_bytes_aligned: "8 dvd length (fields_bytes fs)"
  by (induction fs) (simp_all add: fields_bytes_def c_align_to_8(3))

text \<open>The wire format of a sender field, and of a message as its fields.\<close>

definition sender_field :: "bool \<Rightarrow> string \<Rightarrow> string" where
  "sender_field be sender = [char_of DBUS_MESSAGE_FIELD_SENDER, CHR 0x01, CHR ''s'', CHR 0x00] @
     store32 be (of_nat (length sender)) @ sender @ [CHR 0x00]"

definition laid_out :: "message \<Rightarrow> string \<Rightarrow> string list \<Rightarrow> string \<Rightarrow> bool" where
  "laid_out m fixed fs body \<longleftrightarrow>
     m_data m = fixed @ fields_bytes fs @ body \<and> length fixed = 16 \<and>
     c_align_to (m_n_header m) 8 = 16 + length (fields_bytes fs) \<and> m_n_body m = length body \<and>
     m_vecs m = [IOV_DATA 0 (16 + length (fields_bytes fs)), IOV_NULL, IOV_NULL,
       IOV_DATA (16 + length (fields_bytes fs)) (length body)] \<and>
     length (m_patch m) = MESSAGE_PATCH_MAX"

lemma sender_patch_bytes:
  "take (c_align_to (9 + length sender) 8) (sender_patch be sender patch) = pad8 (sender_field be sender)"
proof -
  have "length (sender_field be sender) = 9 + length sender" by (simp add: sender_field_def)
  moreover have "sender_patch be sender patch = pad8 (sender_field be sender) @ drop (c_align_to (9 + length sender) 8) patch"
    using calculation by (simp add: sender_patch_def sender_field_def pad8_def Let_def)
  ultimately show ?thesis by simp
qed

lemma sender_text:
  "address_to_string (ADDRESS_TYPE_ID i) = Some (address_id_text i)" "length (address_id_text i) \<le> ADDRESS_ID_STRING_MAX"
  "c_align_to (9 + length (address_id_text i)) 8 \<le> MESSAGE_PATCH_MAX"
proof -
  have "length (address_id_text i) \<le> ADDRESS_ID_STRING_MAX"
    using address_id_text_length [of i] by (simp add: ADDRESS_ID_STRING_MAX_def)
  then show "address_to_string (ADDRESS_TYPE_ID i) = Some (address_id_text i)" "length (address_id_text i) \<le> ADDRESS_ID_STRING_MAX"
    "c_align_to (9 + length (address_id_text i)) 8 \<le> MESSAGE_PATCH_MAX"
    by (simp_all add: address_to_string_def MESSAGE_PATCH_MAX_def c_align_to_def div_le_mono)
qed


text \<open>
  The assertions of the stitching hold, and the vectors stand for the header without the
  old sender field, the new one, and the body.
\<close>

lemma stitch_vecs:
  fixes i :: u64
  assumes "m_parsed m" "laid_out m fixed (fs1 @ (case old of None \<Rightarrow> [] | Some s \<Rightarrow> [sender_field (m_big_endian m) s]) @ fs2) body"
    and "m_original_sender m = map_option (\<lambda>_. 16 + length (fields_bytes fs1) + 8) old"
    and nul: "\<And>s. old = Some s \<Longrightarrow> CHR 0x00 \<notin> set s"
  defines "new \<equiv> sender_field (m_big_endian m) (address_id_text i)"
  defines "n \<equiv> length (fields_bytes (fs1 @ fs2)) + length new"
  shows "\<exists>m'. message_stitch_sender m i = Some m' \<and> m_n_header m' = 16 + n \<and>
    m_n_data m' = c_align_to (16 + n) 8 + length body \<and>
    message_bytes m' = take 12 fixed @ store32 (m_big_endian m) (of_nat n) @ fields_bytes (fs1 @ fs2 @ [new]) @ body"
proof -
  note t = sender_text [of i]
  have new: "length new = 9 + length (address_id_text i)" by (simp add: new_def sender_field_def)
  have data: "m_data m = fixed @ fields_bytes fs1 @ (case old of None \<Rightarrow> [] | Some s \<Rightarrow> pad8 (sender_field (m_big_endian m) s)) @
      fields_bytes fs2 @ body" and fixed: "length fixed = 16"
    using assms(2) by (auto simp: laid_out_def split: option.splits)
  show ?thesis
  proof (cases old)
    case None
    let ?L = "16 + length (fields_bytes fs1) + length (fields_bytes fs2)"
    have vecs: "m_vecs m = [IOV_DATA 0 ?L, IOV_NULL, IOV_NULL, IOV_DATA ?L (length body)]" "m_n_body m = length body"
      using assms(2) None by (auto simp: laid_out_def)
    have "16 + n = ?L + (9 + length (address_id_text i))" by (simp add: n_def new)
    then have st: "message_stitch_sender m i = Some (m\<lparr>m_sender_id := i,
        m_vecs := [IOV_DATA 0 ?L, IOV_NULL, IOV_PATCH (c_align_to (9 + length (address_id_text i)) 8), IOV_DATA ?L (length body)],
        m_patch := sender_patch (m_big_endian m) (address_id_text i) (m_patch m),
        m_n_header := 16 + n, m_n_data := c_align_to (16 + n) 8 + length body,
        m_data := take 12 (m_data m) @ store32 (m_big_endian m) (of_nat n) @ drop 16 (m_data m)\<rparr>)"
      using assms(1,3) None t vecs by (simp add: message_stitch_sender_def Let_def)
    show ?thesis unfolding st using None fixed data sender_patch_bytes [of "address_id_text i" "m_big_endian m" "m_patch m"]
      by (simp add: message_bytes_def new_def)
  next
    case (Some s)
    let ?f = "sender_field (m_big_endian m) s"
    let ?L = "16 + length (fields_bytes fs1) + c_align_to (9 + length s) 8 + length (fields_bytes fs2)"
    have f: "length ?f = 9 + length s" by (simp add: sender_field_def)
    have vecs: "m_vecs m = [IOV_DATA 0 ?L, IOV_NULL, IOV_NULL, IOV_DATA ?L (length body)]" "c_align_to (m_n_header m) 8 = ?L"
      "m_n_body m = length body"
      using assms(2) Some f by (auto simp: laid_out_def)
    have str: "cstr_at (m_data m) (24 + length (fields_bytes fs1)) = s"
    proof -
      have "drop (24 + length (fields_bytes fs1)) (m_data m) = drop 8 (pad8 ?f) @ fields_bytes fs2 @ body"
        using fixed f c_align_to_8(1) [of "9 + length s"] by (simp add: data Some)
      moreover have "drop 8 (pad8 ?f) = s @ CHR 0x00 # replicate (c_align_to (9 + length s) 8 - (9 + length s)) (CHR 0x00)"
        using f by (simp add: pad8_def) (simp add: sender_field_def)
      ultimately show ?thesis using nul [OF Some] by (auto simp: cstr_at_def takeWhile_append)
    qed
    have le: "9 + length s \<le> c_align_to (9 + length s) 8" by (rule c_align_to_8)
    have "16 + n = 16 + length (fields_bytes fs1) + length (fields_bytes fs2) + (9 + length (address_id_text i))"
      by (simp add: n_def new)
    then have st: "message_stitch_sender m i = Some (m\<lparr>m_sender_id := i,
        m_vecs := [IOV_DATA 0 (16 + length (fields_bytes fs1)),
          IOV_DATA (16 + length (fields_bytes fs1) + c_align_to (9 + length s) 8) (length (fields_bytes fs2)),
          IOV_PATCH (c_align_to (9 + length (address_id_text i)) 8), IOV_DATA ?L (length body)],
        m_patch := sender_patch (m_big_endian m) (address_id_text i) (m_patch m),
        m_n_header := 16 + n, m_n_data := c_align_to (16 + n) 8 + length body,
        m_data := take 12 (m_data m) @ store32 (m_big_endian m) (of_nat n) @ drop 16 (m_data m)\<rparr>)"
      using assms(1,3) Some t vecs str le by (simp add: message_stitch_sender_def Let_def)
    show ?thesis unfolding st using Some fixed data f sender_patch_bytes [of "address_id_text i" "m_big_endian m" "m_patch m"]
      by (simp add: message_bytes_def new_def)
  qed
qed

text \<open>What a receiver computes from the fixed header.\<close>

definition endian_byte :: "bool \<Rightarrow> char" where
  "endian_byte be = (if be then CHR ''B'' else CHR ''l'')"

lemma incoming_sizes:
  assumes "header ! 0 = endian_byte be" "unat (load32 be (drop 12 header)) = nf" "unat (load32 be (drop 4 header)) = nb"
    and "c_align_to (16 + nf) 8 + nb \<le> MESSAGE_SIZE_MAX"
  shows "\<exists>r. message_new_incoming True memory header = Inr r \<and> m_n_header r = 16 + nf \<and> m_n_body r = nb \<and>
    m_n_data r = c_align_to (16 + nf) 8 + nb \<and> m_big_endian r = be"
  using assms by (cases be) (auto simp: message_new_incoming_def Let_def endian_byte_def message_new_def)

lemma unat_of_nat_small: "n \<le> MESSAGE_SIZE_MAX \<Longrightarrow> unat (of_nat n :: u32) = n"
  by (simp add: MESSAGE_SIZE_MAX_def unat_of_nat)

text \<open>
  The body length an outgoing message gets is the one with which a receiver computes the
  sizes of the message object, and the vectors stand for all of its bytes.
\<close>

lemma message_new_outgoing_read_back:
  assumes out: "message_new_outgoing native True data = Some (Inr m)" and max: "length data \<le> MESSAGE_SIZE_MAX"
  shows "message_bytes m = m_data m" "length (m_data m) = length data"
    "\<exists>r. message_new_incoming True memory (take 16 (m_data m)) = Inr r \<and> m_n_header r = m_n_header m \<and>
      m_n_body r = m_n_body m \<and> m_n_data r = length data"
proof -
  define nf where "nf = unat (load32 native (drop 12 data))"
  have a: "length data \<ge> 16" "(data ! 0 = CHR ''B'') = native" "(data ! 0 = CHR ''l'') = (\<not> native)"
    "length data \<ge> 16 + c_align_to nf 8"
    using out by (auto simp: message_new_outgoing_def nf_def Let_def split: if_splits)
  have al: "c_align_to (16 + nf) 8 = 16 + c_align_to nf 8" by (rule c_align_to_8(4)) simp
  define d where "d = take 4 data @ store32 native (of_nat (length data - (16 + c_align_to nf 8))) @ drop 8 data"
  have len: "length d = length data" using a(1) by (simp add: d_def)
  have d0: "d ! 0 = data ! 0" using a(1) by (simp add: d_def nth_append)
  have m: "m_data m = d" "m_n_header m = 16 + nf" "m_n_body m = length data - (16 + c_align_to nf 8)"
    "m_vecs m = [IOV_DATA 0 (16 + c_align_to nf 8), IOV_NULL, IOV_NULL,
      IOV_DATA (16 + c_align_to nf 8) (length data - (16 + c_align_to nf 8))]"
    using out a al by (auto simp: message_new_outgoing_def Let_def nf_def [symmetric] d_def)
  show "message_bytes m = m_data m" "length (m_data m) = length data"
    using a(4) len by (simp_all add: message_bytes_def m)
  have h: "take 16 d = take 4 data @ store32 native (of_nat (length data - (16 + c_align_to nf 8))) @ take 8 (drop 8 data)"
    using a(1) by (simp add: d_def)
  have "\<exists>r. message_new_incoming True memory (take 16 d) = Inr r \<and> m_n_header r = 16 + nf \<and>
      m_n_body r = length data - (16 + c_align_to nf 8) \<and>
      m_n_data r = c_align_to (16 + nf) 8 + (length data - (16 + c_align_to nf 8)) \<and> m_big_endian r = native"
  proof (rule incoming_sizes)
    show "take 16 d ! 0 = endian_byte native" using a d0 len by (auto simp: endian_byte_def)
    have "take 4 (drop 12 (take 16 d)) = take 4 (drop 12 data)" using a(1) unfolding h by (simp add: drop_take)
    then show "unat (load32 native (drop 12 (take 16 d))) = nf" by (simp add: nf_def load32_def)
    show "unat (load32 native (drop 4 (take 16 d))) = length data - (16 + c_align_to nf 8)"
      using a(1) max unfolding h by (simp add: unat_of_nat_small)
    show "c_align_to (16 + nf) 8 + (length data - (16 + c_align_to nf 8)) \<le> MESSAGE_SIZE_MAX"
      using a(4) max by (simp add: al)
  qed
  with m a(4) al show "\<exists>r. message_new_incoming True memory (take 16 (m_data m)) = Inr r \<and> m_n_header r = m_n_header m \<and>
      m_n_body r = m_n_body m \<and> m_n_data r = length data" by auto
qed

section \<open>Properties\<close>

text \<open>
  C33: forwarding a message replaces its sender. For a message that consists of its fixed header,
  padded fields and body, and whose old sender field (if it has one) is where the parser found
  it, \<open>message_stitch_sender\<close> fails no assertion, and what is sent afterwards is the fixed header
  with a new field length, all other fields in their order, one sender field with the unique
  name of the sender, and the unchanged body. The sizes of the message object agree with these
  bytes, and so do the sizes a receiver computes from the fixed header.
\<close>
theorem message_stitch_sender_replaces:
  fixes i :: u64
  assumes "m_parsed m" "laid_out m fixed (fs1 @ (case old of None \<Rightarrow> [] | Some s \<Rightarrow> [sender_field (m_big_endian m) s]) @ fs2) body"
    and "m_original_sender m = map_option (\<lambda>_. 16 + length (fields_bytes fs1) + 8) old"
    and "case old of None \<Rightarrow> True | Some s \<Rightarrow> CHR 0x00 \<notin> set s"
    and "fixed ! 0 = endian_byte (m_big_endian m)" "unat (load32 (m_big_endian m) (drop 4 fixed)) = length body"
  shows "\<exists>m' n. message_stitch_sender m i = Some m' \<and>
    message_bytes m' = take 12 fixed @ store32 (m_big_endian m) (of_nat n) @
      fields_bytes (fs1 @ fs2 @ [sender_field (m_big_endian m) (address_id_text i)]) @ body \<and>
    length (message_bytes m') = m_n_data m' \<and>
    (m_n_data m' \<le> MESSAGE_SIZE_MAX \<longrightarrow>
      (\<exists>r. message_new_incoming True memory (take 16 (message_bytes m')) = Inr r \<and>
        m_n_data r = m_n_data m' \<and> m_n_header r = m_n_header m' \<and> m_n_body r = length body))"
proof -
  let ?be = "m_big_endian m"
  let ?new = "sender_field ?be (address_id_text i)"
  define n where "n = length (fields_bytes (fs1 @ fs2)) + length ?new"
  have fixed: "length fixed = 16" using assms(2) by (simp add: laid_out_def)
  have "\<And>s. old = Some s \<Longrightarrow> CHR 0x00 \<notin> set s" using assms(4) by simp
  from stitch_vecs [OF assms(1-3) this, of i] obtain m' where
    m': "message_stitch_sender m i = Some m'" "m_n_header m' = 16 + n" "m_n_data m' = c_align_to (16 + n) 8 + length body"
      "message_bytes m' = take 12 fixed @ store32 ?be (of_nat n) @ fields_bytes (fs1 @ fs2 @ [?new]) @ body"
    unfolding n_def by blast
  have "8 dvd 16 + length (fields_bytes (fs1 @ fs2))"
    by (rule dvd_add) (simp_all only: fields_bytes_aligned, simp)
  from c_align_to_8(4) [OF this, of "length ?new"]
  have "c_align_to (16 + n) 8 = 16 + length (fields_bytes (fs1 @ fs2)) + c_align_to (length ?new) 8"
    by (simp add: n_def add.assoc)
  then have len: "length (message_bytes m') = m_n_data m'" using fixed by (simp add: m'(3,4))
  have "\<exists>r. message_new_incoming True memory (take 16 (message_bytes m')) = Inr r \<and>
      m_n_header r = 16 + n \<and> m_n_body r = length body \<and> m_n_data r = c_align_to (16 + n) 8 + length body \<and> m_big_endian r = ?be"
    if max: "m_n_data m' \<le> MESSAGE_SIZE_MAX"
  proof (rule incoming_sizes)
    have n: "n \<le> MESSAGE_SIZE_MAX" using max m'(3) c_align_to_8(1) [of "16 + n"] by simp
    have h: "take 16 (message_bytes m') = take 12 fixed @ store32 ?be (of_nat n)" using fixed by (simp add: m'(4))
    show "take 16 (message_bytes m') ! 0 = endian_byte ?be" using assms(5) fixed unfolding h by (simp add: nth_append)
    show "unat (load32 ?be (drop 12 (take 16 (message_bytes m')))) = n"
      using fixed n load32_store32 [of ?be "of_nat n" "[]"] unfolding h by (simp add: unat_of_nat_small)
    have "take 4 (drop 4 (take 16 (message_bytes m'))) = take 4 (drop 4 fixed)" using fixed unfolding h by (simp add: drop_take)
    then show "unat (load32 ?be (drop 4 (take 16 (message_bytes m')))) = length body"
      using assms(6) by (auto simp: load32_def split: if_splits)
    show "c_align_to (16 + n) 8 + length body \<le> MESSAGE_SIZE_MAX" using max by (simp add: m'(3))
  qed
  with m' len show ?thesis by auto
qed

definition some_message :: message where
  "some_message = (message_new False)\<lparr>m_parsed := True,
     m_data := (CHR ''l'' # replicate 15 (CHR 0x00)) @ fields_bytes [''field'', sender_field False '':1.9''],
     m_n_header := 16 + length (fields_bytes [''field'', sender_field False '':1.9'']),
     m_original_sender := Some (16 + length (fields_bytes [''field'']) + 8),
     m_vecs := [IOV_DATA 0 (16 + length (fields_bytes [''field'', sender_field False '':1.9''])), IOV_NULL, IOV_NULL,
       IOV_DATA (16 + length (fields_bytes [''field'', sender_field False '':1.9''])) 0]\<rparr>"

lemma some_message_laid_out:
  "laid_out some_message (CHR ''l'' # replicate 15 (CHR 0x00)) [''field'', sender_field False '':1.9''] []"
proof -
  have "8 dvd 16 + length (fields_bytes [''field'', sender_field False '':1.9''])"
    by (rule dvd_add) (simp_all only: fields_bytes_aligned, simp)
  from c_align_to_8(4) [OF this, of 0] show ?thesis
    by (simp add: laid_out_def some_message_def message_new_def) (simp add: c_align_to_def)
qed

theorem message_stitch_sender_replaces_witness:
  "\<exists>m' n. message_stitch_sender some_message 5 = Some m' \<and>
     message_bytes m' = (CHR ''l'' # replicate 11 (CHR 0x00)) @ store32 False (of_nat n) @
       fields_bytes [''field'', sender_field False (address_id_text 5)] \<and>
     length (message_bytes m') = m_n_data m'"
proof -
  have m: "m_parsed some_message" "m_big_endian some_message = False"
    "m_original_sender some_message = map_option (\<lambda>_. 16 + length (fields_bytes [''field'']) + 8) (Some '':1.9'')"
    by (simp_all add: some_message_def message_new_def)
  have l: "laid_out some_message (CHR ''l'' # replicate 15 (CHR 0x00))
      ([''field''] @ (case Some '':1.9'' of None \<Rightarrow> [] | Some s \<Rightarrow> [sender_field (m_big_endian some_message) s]) @ []) []"
    using some_message_laid_out by (simp add: m)
  have e: "case Some '':1.9'' of None \<Rightarrow> True | Some s \<Rightarrow> CHR 0x00 \<notin> set s"
    "(CHR ''l'' # replicate 15 (CHR 0x00)) ! 0 = endian_byte (m_big_endian some_message)"
    "unat (load32 (m_big_endian some_message) (drop 4 (CHR ''l'' # replicate 15 (CHR 0x00)))) = length ([] :: string)"
    by (simp_all add: m endian_byte_def load32_def horner_sum_simps numeral_nat)
  from message_stitch_sender_replaces [OF m(1) l m(3) e, of 5] show ?thesis by (simp add: m) blast
qed

end
