(* ===== verification/Accounts.thy ===== *)
theory Accounts
  imports User
begin

text \<open>
  Charging in components that hold many charges and make several calls in a row
  (\<open>src/dbus/socket.c\<close>, \<open>src/dbus/connection.c\<close>). The precondition of \<open>user_charge\<close> that a
  user has fewer than \<open>2\<^sup>32 - 2\<close> actors is not kept by the call itself; it is if all users and
  actors come from a fixed set of user ids, and this is what \<open>accounts\<close> adds to the
  accounting invariant.
\<close>

definition actors_in :: "uid set \<Rightarrow> user_registry \<Rightarrow> bool" where
  "actors_in A us \<longleftrightarrow> (\<forall>u usr. users us u = Some usr \<longrightarrow> dom (usages usr) \<subseteq> A)"

definition accounts :: "uid set \<Rightarrow> user_registry \<Rightarrow> (uid \<Rightarrow> nat) \<Rightarrow> user_charge multiset \<Rightarrow> bool" where
  "accounts A us ext C \<longleftrightarrow> user_inv us ext C \<and> actors_in A us \<and> finite A \<and> card A < 2 ^ 32 - 2 \<and> 4 \<le> n_slots us"

lemma actors_in_upd_user:
  assumes "actors_in A us" "\<And>usr. users us u = Some usr \<Longrightarrow> dom (usages (f usr)) \<subseteq> A"
  shows "actors_in A (upd_user u f us)"
  using assms unfolding actors_in_def upd_user_def by (fastforce split: if_splits)

lemma actors_in_upd_usage [simp]: "actors_in A us \<Longrightarrow> actors_in A (upd_usage u a f us)"
  unfolding upd_usage_def
  by (rule actors_in_upd_user) (auto simp: actors_in_def subset_iff dom_def split: if_splits)

lemma actors_in_same:
  assumes "actors_in A us" "\<And>usr. usages (f usr) = usages usr"
  shows "actors_in A (upd_user u f us)"
  using assms by (intro actors_in_upd_user) (auto simp: actors_in_def)

lemma actors_in_unref:
  assumes "actors_in A us" "user_unref us u = Some us'"
  shows "actors_in A us'"
proof -
  let ?us = "upd_user u (\<lambda>usr. usr\<lparr>user_refs := user_refs usr - 1\<rparr>) us"
  have 1: "actors_in A ?us" using assms(1) by (rule actors_in_same) simp
  then have "actors_in A (?us\<lparr>users := (users ?us)(u := None)\<rparr>)" by (auto simp: actors_in_def split: if_splits)
  moreover have "us' = ?us \<or> us' = ?us\<lparr>users := (users ?us)(u := None)\<rparr>"
    using assms(2) by (auto simp: user_unref_def user_free_def Let_def split: if_splits bind_splits)
  ultimately show ?thesis using 1 by blast
qed

lemma actors_in_usage_unref:
  assumes "actors_in A us" "user_usage_unref us u a = Some us'"
  shows "actors_in A us'"
proof -
  let ?us = "upd_usage u a (\<lambda>x. x\<lparr>usage_refs := usage_refs x - 1\<rparr>) us"
  have 1: "actors_in A ?us" using assms(1) by simp
  then have "actors_in A (upd_user u (user_usage_unlink a) ?us)"
    by (rule actors_in_upd_user) (use 1 in \<open>auto simp: actors_in_def user_usage_unlink_def split: if_splits\<close>)
  with 1 assms(2) actors_in_unref show ?thesis
    by (auto simp: user_usage_unref_def user_usage_free_def Let_def split: if_splits bind_splits)
qed

lemma actors_in_deinit: "actors_in A us \<Longrightarrow> user_charge_deinit us ch = Some (ch', us') \<Longrightarrow> actors_in A us'"
  by (auto simp: user_charge_deinit_def Let_def split: option.splits bind_splits if_splits
      elim!: actors_in_usage_unref [rotated] intro!: actors_in_upd_usage actors_in_same)

lemma actors_in_ref_usage:
  assumes "actors_in A us" "a \<in> A" "user_ref_usage mem us u a = Some (r, us')"
  shows "actors_in A us'"
proof -
  have "actors_in A (upd_user u (user_usage_link a x) us1)" if "user_ref us u = Some us1" for us1 x
  proof -
    have "us1 = upd_user u (\<lambda>usr. usr\<lparr>user_refs := user_refs usr + 1\<rparr>) us"
      using that by (auto simp: user_ref_def split: bind_splits if_splits)
    then have 1: "actors_in A us1" using assms(1) by (simp add: actors_in_same)
    then show ?thesis
      by (rule actors_in_upd_user) (use 1 assms(2) in \<open>auto simp: actors_in_def user_usage_link_def split: if_splits\<close>)
  qed
  with assms show ?thesis
    by (auto simp: user_ref_usage_def user_usage_ref_def split: option.splits if_splits bind_splits)
qed

lemma actors_in_apply:
  assumes "actors_in A us" "user_charge_apply log_ok us u ch a slot n = Some (r, ch', us')"
  shows "actors_in A us' \<and> ch_usage ch' = ch_usage ch \<and> ch_slot ch' = ch_slot ch"
proof -
  have "actors_in A (us\<lparr>reg_log := l\<rparr>)" for l using assms(1) by (simp add: actors_in_def)
  with assms show ?thesis
    by (auto simp: user_charge_apply_def user_charge_commit_log_def Let_def actors_in_same
        split: option.splits if_splits bind_splits)
qed

text \<open>A charge object that can be charged (again) on this combination.\<close>

definition usable :: "uid option \<Rightarrow> uid option \<Rightarrow> nat \<Rightarrow> user_charge \<Rightarrow> bool" where
  "usable user actor slot ch \<longleftrightarrow> (case user of None \<Rightarrow> True
     | Some u \<Rightarrow> ch_usage ch = None \<or> (ch_usage ch = Some (u, charge_actor u actor) \<and> ch_slot ch = slot))"

lemma usable_init [simp]: "usable user actor slot user_charge_init"
  by (simp add: usable_def user_charge_init_def split: option.splits)

lemma actors_in_charge:
  assumes "actors_in A us" "user_charge mem log_ok us user ch actor slot n = Some (r, ch', us')"
    and "\<And>u. user = Some u \<Longrightarrow> charge_actor u actor \<in> A" "usable user actor slot ch"
  shows "actors_in A us' \<and> usable user actor slot ch'"
proof (cases "n = 0 \<or> user = None")
  case True
  with assms(1,2,4) show ?thesis by (auto simp: user_charge_def usable_def split: if_splits)
next
  case False
  then obtain u where u: "user = Some u" and n: "n \<noteq> 0" by auto
  let ?a = "charge_actor u actor"
  have a: "?a \<in> A" using assms(3) u by simp
  show ?thesis
  proof (cases "ch_usage ch")
    case None
    with assms(2) u n obtain r1 us1 where ref: "user_ref_usage mem us u ?a = Some (r1, us1)"
      by (auto simp: user_charge_def Let_def split: bind_splits)
    note in1 = actors_in_ref_usage [OF assms(1) a ref]
    show ?thesis
      using assms(2) u n None ref in1 actors_in_apply [OF in1, of log_ok u "ch\<lparr>ch_usage := Some (u, ?a), ch_slot := slot\<rparr>" ?a slot n]
      by (auto simp: user_charge_def Let_def usable_def split: if_splits)
  next
    case (Some k)
    with assms(4) u have k: "k = (u, ?a)" "ch_slot ch = slot" by (auto simp: usable_def)
    with assms(2) u n Some obtain us1 ch2 r2 us2 where
      s: "user_usage_ref us u ?a = Some us1" "user_charge_apply log_ok us1 u ch ?a slot n = Some (r2, ch2, us2)"
        "user_usage_unref us2 u ?a = Some us'" "ch' = ch2"
      by (auto simp: user_charge_def Let_def split: bind_splits if_splits)
    from s(1) assms(1) have in1: "actors_in A us1" by (auto simp: user_usage_ref_def split: bind_splits if_splits)
    from actors_in_apply [OF in1 s(2)] actors_in_usage_unref [OF _ s(3)] show ?thesis
      using Some k u s(4) by (auto simp: usable_def)
  qed
qed

text \<open>The two steps of every component: charging and releasing.\<close>

definition payer :: "uid set \<Rightarrow> (uid \<Rightarrow> nat) \<Rightarrow> uid option \<Rightarrow> uid option \<Rightarrow> bool" where
  "payer A ext user actor \<longleftrightarrow> (case user of None \<Rightarrow> True | Some u \<Rightarrow> 0 < ext u \<and> charge_actor u actor \<in> A)"

lemma accounts_charge:
  assumes "accounts A us ext (add_mset ch C)" "payer A ext user actor" "usable user actor slot ch" "slot < 4"
  shows "\<exists>r ch' us'. user_charge mem log_ok us user ch actor slot n = Some (r, ch', us') \<and>
    accounts A us' ext (add_mset ch' C) \<and> usable user actor slot ch'"
proof -
  have inv: "user_inv us ext (add_mset ch C)" "actors_in A us" "finite A" "card A < 2 ^ 32 - 2" "4 \<le> n_slots us"
    using assms(1) by (simp_all add: accounts_def)
  have few: "few_actors us u" for u
    unfolding few_actors_def
  proof (intro allI impI)
    fix usr assume "users us u = Some usr"
    then have "dom (usages usr) \<subseteq> A" using inv(2) by (simp add: actors_in_def)
    then have "card (dom (usages usr)) \<le> card A" by (rule card_mono [OF inv(3)])
    with inv(4) show "card (dom (usages usr)) < 2 ^ 32 - 2" by linarith
  qed
  have "users us u \<noteq> None" if "user = Some u" for u
    using assms(2) that user_inv_none [OF inv(1), of u] by (auto simp: payer_def)
  then have "chargeable us user ch actor slot"
    using assms(3,4) inv(5) few by (auto simp: chargeable_def usable_def split: option.splits)
  from user_charge_inv [OF inv(1) this, of mem log_ok n] obtain r ch' us' where
    c: "user_charge mem log_ok us user ch actor slot n = Some (r, ch', us')" "user_inv us' ext (add_mset ch' C)"
      "n_slots us' = n_slots us" by blast
  moreover have "actors_in A us' \<and> usable user actor slot ch'"
    by (rule actors_in_charge [OF inv(2) c(1) _ assms(3)]) (use assms(2) in \<open>auto simp: payer_def\<close>)
  ultimately show ?thesis using inv by (auto simp: accounts_def)
qed

lemma accounts_unused:
  "ch_usage ch = None \<Longrightarrow> accounts A us ext (add_mset ch C) \<longleftrightarrow> accounts A us ext C \<and> ch_charge ch = 0"
  by (auto simp: accounts_def user_inv_unused)

lemma accounts_init [simp]: "accounts A us ext (add_mset user_charge_init C) \<longleftrightarrow> accounts A us ext C"
  by (simp add: accounts_unused user_charge_init_def)

lemma accounts_deinit:
  assumes "accounts A us ext (add_mset ch C)"
  shows "\<exists>ch' us'. user_charge_deinit us ch = Some (ch', us') \<and> accounts A us' ext C \<and>
    ch_usage ch' = None \<and> ch_charge ch' = 0"
proof -
  have inv: "user_inv us ext (add_mset ch C)" "actors_in A us" using assms by (simp_all add: accounts_def)
  from user_charge_deinit_inv [OF inv(1)] obtain ch' us' where
    d: "user_charge_deinit us ch = Some (ch', us')" "user_inv us' ext C" "n_slots us' = n_slots us"
      "ch_usage ch' = None" "ch_charge ch' = 0" by blast
  with actors_in_deinit [OF inv(2) d(1)] assms show ?thesis by (auto simp: accounts_def)
qed

text \<open>What a sequence of releases keeps of a registry.\<close>

definition keeps :: "user_registry \<Rightarrow> user_registry \<Rightarrow> bool" where
  "keeps us us' \<longleftrightarrow> n_slots us' = n_slots us \<and> (\<forall>A. actors_in A us \<longrightarrow> actors_in A us')"

lemma keeps_refl [simp]: "keeps us us"
  by (simp add: keeps_def)

lemma keeps_trans: "keeps us us1 \<Longrightarrow> keeps us1 us2 \<Longrightarrow> keeps us us2"
  by (simp add: keeps_def)

lemma keeps_deinit: "user_charge_deinit us ch = Some (ch', us') \<Longrightarrow> keeps us us'"
  using actors_in_deinit
  by (auto simp: keeps_def user_charge_deinit_def user_usage_unref_def user_usage_free_def user_unref_def user_free_def
      Let_def upd_user_def upd_usage_def split: option.splits bind_splits if_splits)

lemma accounts_keeps: "accounts A us ext C \<Longrightarrow> keeps us us' \<Longrightarrow> user_inv us' ext C' \<Longrightarrow> accounts A us' ext C'"
  by (auto simp: accounts_def keeps_def)

lemma accounts_user_inv: "accounts A us ext C \<Longrightarrow> user_inv us ext C"
  by (simp add: accounts_def)

lemma one_user_accounts: "accounts {1} (one_user 4 [100, 10, 10, 10] 1) ((\<lambda>_. 0)(1 := 1)) {#}"
  using one_user_inv [of 4 "[100, 10, 10, 10]" 1]
  by (simp add: accounts_def actors_in_def) (simp add: one_user_def user_new_def)

end
