(* ===== verification/Socket.thy ===== *)
theory Socket
  imports Queue Message Accounts
begin

text \<open>
  The socket of a connection (\<open>src/dbus/socket.h\<close>, \<open>src/dbus/socket.c\<close>): the output queue of
  lines and messages, the tokenisation of the input, hangup and shutdown, and the dispatch of
  the events of the kernel.

  The kernel is a parameter: each operation that makes a system call gets its answer as an
  argument. An output buffer holds, for each of its I/O vectors, the bytes that are still to
  be sent; \<open>sb_base\<close> is how far the first vector has moved in the memory of a line buffer.
  The memory of the input header is the target of the queue while it is read, so it is not a
  part of the state. What an allocation yields, and the sizes of the C structures that are
  charged, are in the environment; \<open>zephyr\<close> selects the port that cannot query the kernel
  queue and does not insist that the shutdown succeeds. Closing file descriptors is an effect
  on the kernel only.
\<close>

section \<open>State\<close>

datatype socket_ret = SOCKET_OK | SOCKET_E_LOST_INTEREST | SOCKET_E_PREEMPTED | SOCKET_E_EOF
  | SOCKET_E_QUOTA | SOCKET_E_SHUTDOWN | SOCKET_FAILED

definition SOCKET_LINE_PREALLOC :: nat where "SOCKET_LINE_PREALLOC = 64"
definition SOCKET_FD_MAX :: nat where "SOCKET_FD_MAX = 253"
definition SOCKET_MMSG_MAX :: nat where "SOCKET_MMSG_MAX = 16"

record socket_env =
  zephyr :: bool
  shutdown_ok :: bool
  alloc :: bool
  alloc_usage0 :: bool
  alloc_usage1 :: bool
  log_works :: bool
  line_memory :: string
  message_memory :: "nat \<Rightarrow> char"
  sizeof_SocketBuffer :: nat
  sizeof_Message :: nat

record socket_buffer =
  sb_charge0 :: user_charge
  sb_charge1 :: user_charge
  sb_n_total :: nat
  sb_message :: "message option"
  sb_vecs :: "string list"
  sb_base :: nat
  sb_writer :: "nat option"

record socket =
  s_user :: "uid option"
  s_shutdown :: bool
  s_reset :: bool
  s_hup_in :: bool
  s_hup_out :: bool
  s_in :: iqueue
  s_message :: "message option"
  s_queue :: "socket_buffer list"
  s_pending :: "socket_buffer list"

section \<open>Output buffers\<close>

definition socket_buffer_free :: "user_registry \<Rightarrow> socket_buffer \<Rightarrow> user_registry option" where
  "socket_buffer_free us b = do {
     (_, us) \<leftarrow> user_charge_deinit us (sb_charge1 b);
     (_, us) \<leftarrow> user_charge_deinit us (sb_charge0 b);
     Some us }"

primrec socket_buffers_free :: "user_registry \<Rightarrow> socket_buffer list \<Rightarrow> user_registry option" where
  "socket_buffers_free us [] = Some us"
| "socket_buffers_free us (b # bs) = do { us \<leftarrow> socket_buffer_free us b; socket_buffers_free us bs }"

definition socket_buffer_new_internal :: "string list \<Rightarrow> nat \<Rightarrow> socket_buffer" where
  "socket_buffer_new_internal vecs n_line = \<lparr>sb_charge0 = user_charge_init, sb_charge1 = user_charge_init,
     sb_n_total = n_line, sb_message = None, sb_vecs = vecs, sb_base = 0, sb_writer = None\<rparr>"

definition socket_quota :: "user_ret \<Rightarrow> socket_ret" where
  "socket_quota r = (if r = USER_E_QUOTA then SOCKET_E_QUOTA else SOCKET_FAILED)"

definition socket_buffer_new_line ::
  "socket_env \<Rightarrow> socket \<Rightarrow> user_registry \<Rightarrow> uid option \<Rightarrow> nat \<Rightarrow>
   (socket_ret \<times> socket_buffer option \<times> user_registry) option" where
  "socket_buffer_new_line env s us user n =
     (if \<not> alloc env then Some (SOCKET_FAILED, None, us)
      else do {
        let b = socket_buffer_new_internal [[]] (max n SOCKET_LINE_PREALLOC);
        (r, ch, us) \<leftarrow> user_charge (alloc_usage0 env) (log_works env) us (s_user s) (sb_charge0 b) user USER_SLOT_BYTES
          (of_nat (sizeof_SocketBuffer env + sb_n_total b));
        let b = b\<lparr>sb_charge0 := ch\<rparr>;
        if r \<noteq> USER_OK then do { us \<leftarrow> socket_buffer_free us b; Some (socket_quota r, None, us) }
        else Some (SOCKET_OK, Some b, us) })"

definition socket_buffer_new_message ::
  "socket_env \<Rightarrow> socket \<Rightarrow> user_registry \<Rightarrow> uid option \<Rightarrow> message \<Rightarrow>
   (socket_ret \<times> socket_buffer option \<times> user_registry) option" where
  "socket_buffer_new_message env s us user m =
     (if \<not> alloc env then Some (SOCKET_FAILED, None, us)
      else do {
        let b = (socket_buffer_new_internal (map (iov_bytes m) (m_vecs m)) 0)\<lparr>sb_message := Some m\<rparr>;
        (r, ch, us) \<leftarrow> user_charge (alloc_usage0 env) (log_works env) us (s_user s) (sb_charge0 b) user USER_SLOT_BYTES
          (of_nat (sizeof_SocketBuffer env + sizeof_Message env + m_n_data m));
        let b = b\<lparr>sb_charge0 := ch\<rparr>;
        if r \<noteq> USER_OK then do { us \<leftarrow> socket_buffer_free us b; Some (socket_quota r, None, us) }
        else do {
          (r, ch, us) \<leftarrow> user_charge (alloc_usage1 env) (log_works env) us (s_user s) (sb_charge1 b) user USER_SLOT_FDS
            (of_nat (fdlist_count (m_fds m)));
          let b = b\<lparr>sb_charge1 := ch\<rparr>;
          if r \<noteq> USER_OK then do { us \<leftarrow> socket_buffer_free us b; Some (socket_quota r, None, us) }
          else Some (SOCKET_OK, Some b, us) } })"

definition socket_buffer_get_line_space :: "socket_buffer \<Rightarrow> nat option" where
  "socket_buffer_get_line_space b = do {
     _ \<leftarrow> c_assert (sb_message b = None);
     Some (sb_n_total b - sb_base b - length (sb_vecs b ! 0)) }"

definition socket_buffer_is_consumed :: "socket_buffer \<Rightarrow> bool" where
  "socket_buffer_is_consumed b \<longleftrightarrow> (case sb_writer b of None \<Rightarrow> False | Some w \<Rightarrow> w \<ge> length (sb_vecs b))"

text \<open>The loop of \<open>socket_buffer_consume\<close>: the buffer, and the bytes that no vector took.\<close>

function consume_vecs :: "socket_buffer \<Rightarrow> nat \<Rightarrow> nat \<Rightarrow> socket_buffer \<times> nat" where
  "consume_vecs b w n =
     (if w < length (sb_vecs b) then
        let t = min (length (sb_vecs b ! w)) n;
            b = b\<lparr>sb_vecs := (sb_vecs b)[w := drop t (sb_vecs b ! w)],
                  sb_base := (if w = 0 then sb_base b + t else sb_base b), sb_writer := Some w\<rparr>
        in if sb_vecs b ! w \<noteq> [] then (b, n - t) else consume_vecs b (w + 1) (n - t)
      else (b\<lparr>sb_writer := Some w\<rparr>, n))"
  by pat_completeness auto
termination
  by (relation "measure (\<lambda>(b, w, n). length (sb_vecs b) - w)") (auto simp: Let_def)

declare consume_vecs.simps [simp del]

definition socket_buffer_consume :: "socket_buffer \<Rightarrow> nat \<Rightarrow> (bool \<times> socket_buffer) option" where
  "socket_buffer_consume b n = do {
     let (b, n) = consume_vecs b (case sb_writer b of None \<Rightarrow> 0 | Some w \<Rightarrow> w) n;
     _ \<leftarrow> c_assert (n = 0);
     Some (socket_buffer_is_consumed b, b) }"

section \<open>Hangup and shutdown\<close>

definition socket_discard_input :: "socket \<Rightarrow> user_registry \<Rightarrow> (socket \<times> user_registry) option" where
  "socket_discard_input s us = do {
     (iq, us) \<leftarrow> iqueue_flush (s_in s) us;
     Some (s\<lparr>s_in := iq, s_message := None\<rparr>, us) }"

definition socket_discard_output :: "socket \<Rightarrow> user_registry \<Rightarrow> (socket \<times> user_registry) option" where
  "socket_discard_output s us = do {
     us \<leftarrow> socket_buffers_free us (s_queue s);
     Some (s\<lparr>s_queue := []\<rparr>, us) }"

definition socket_init :: "uid option \<Rightarrow> string \<Rightarrow> user_registry \<Rightarrow> (socket \<times> user_registry) option" where
  "socket_init user buffer us = do {
     us \<leftarrow> (case user of None \<Rightarrow> Some us | Some u \<Rightarrow> user_ref us u);
     (iq, us) \<leftarrow> iqueue_init user buffer us;
     Some (\<lparr>s_user = user, s_shutdown = False, s_reset = False, s_hup_in = False, s_hup_out = False,
            s_in = iq, s_message = None, s_queue = [], s_pending = []\<rparr>, us) }"

definition socket_deinit :: "socket \<Rightarrow> user_registry \<Rightarrow> (socket \<times> user_registry) option" where
  "socket_deinit s us = do {
     (s, us) \<leftarrow> socket_discard_input s us;
     (s, us) \<leftarrow> socket_discard_output s us;
     us \<leftarrow> socket_buffers_free us (s_pending s);
     let s = s\<lparr>s_pending := []\<rparr>;
     _ \<leftarrow> c_assert (s_pending s = []);
     _ \<leftarrow> c_assert (s_queue s = []);
     _ \<leftarrow> c_assert (s_message s = None);
     (iq, us) \<leftarrow> iqueue_deinit (s_in s) us;
     us \<leftarrow> (case s_user s of None \<Rightarrow> Some us | Some u \<Rightarrow> user_unref us u);
     Some (s\<lparr>s_in := iq, s_user := None\<rparr>, us) }"

definition socket_might_reset :: "socket \<Rightarrow> socket" where
  "socket_might_reset s =
     (if \<not> s_reset s \<and> s_hup_in s \<and> s_hup_out s \<and> s_pending s = [] \<and> iqueue_is_eof (s_in s)
      then s\<lparr>s_reset := True\<rparr> else s)"

definition socket_hangup_input :: "socket \<Rightarrow> socket" where
  "socket_hangup_input s = (if s_hup_in s then s else socket_might_reset (s\<lparr>s_hup_in := True\<rparr>))"

definition socket_hangup_output :: "socket \<Rightarrow> user_registry \<Rightarrow> (socket \<times> user_registry) option" where
  "socket_hangup_output s us =
     (if s_hup_out s then Some (s, us)
      else do {
        (s, us) \<leftarrow> socket_discard_output (s\<lparr>s_hup_out := True\<rparr>) us;
        Some (socket_might_reset s, us) })"

definition socket_shutdown_now :: "socket_env \<Rightarrow> socket \<Rightarrow> user_registry \<Rightarrow> (socket \<times> user_registry) option" where
  "socket_shutdown_now env s us = do {
     _ \<leftarrow> c_assert (s_shutdown s);
     if s_hup_out s then Some (s, us)
     else do {
       _ \<leftarrow> c_assert (zephyr env \<or> shutdown_ok env);
       socket_hangup_output s us } }"

definition socket_shutdown :: "socket_env \<Rightarrow> socket \<Rightarrow> user_registry \<Rightarrow> (socket \<times> user_registry) option" where
  "socket_shutdown env s us =
     (if s_shutdown s then Some (s, us)
      else
        let s = s\<lparr>s_shutdown := True\<rparr> in
        if s_queue s = [] then socket_shutdown_now env s us else Some (s, us))"

definition socket_close :: "socket_env \<Rightarrow> socket \<Rightarrow> user_registry \<Rightarrow> (socket \<times> user_registry) option" where
  "socket_close env s us = do {
     (s, us) \<leftarrow> socket_shutdown env (socket_hangup_input s) us;
     (s, us) \<leftarrow> socket_discard_input s us;
     Some (socket_might_reset s, us) }"

section \<open>Input\<close>

definition socket_dequeue_line ::
  "socket_env \<Rightarrow> socket \<Rightarrow> user_registry \<Rightarrow> (socket_ret \<times> string option \<times> socket \<times> user_registry) option" where
  "socket_dequeue_line env s us = do {
     (r, line, iq) \<leftarrow> iqueue_pop_line (s_in s);
     let s = s\<lparr>s_in := iq\<rparr>;
     if r = IQUEUE_OK then Some (SOCKET_OK, line, s, us)
     else if r = IQUEUE_E_PENDING then
       (let s = socket_might_reset s in
        Some (if s_hup_in s then SOCKET_E_EOF else SOCKET_OK, None, s, us))
     else if r = IQUEUE_E_VIOLATION then do {
       (s, us) \<leftarrow> socket_close env s us;
       Some (SOCKET_E_EOF, None, s, us) }
     else Some (SOCKET_FAILED, None, s, us) }"

text \<open>The end of \<open>socket_dequeue\<close> if no message is complete, and if the stream is broken.\<close>

definition socket_nodata ::
  "socket \<Rightarrow> user_registry \<Rightarrow> (socket_ret \<times> message option \<times> socket \<times> user_registry) option" where
  "socket_nodata s us =
     (let s = socket_might_reset s in Some (if s_hup_in s then SOCKET_E_EOF else SOCKET_OK, None, s, us))"

definition socket_broken ::
  "socket_env \<Rightarrow> socket \<Rightarrow> user_registry \<Rightarrow> (socket_ret \<times> message option \<times> socket \<times> user_registry) option" where
  "socket_broken env s us = do {
     (s, us) \<leftarrow> socket_close env s us;
     Some (SOCKET_E_EOF, None, s, us) }"

text \<open>The second half of \<open>socket_dequeue\<close>: the rest of the message whose header has been read.\<close>

definition socket_dequeue_rest ::
  "socket_env \<Rightarrow> socket \<Rightarrow> user_registry \<Rightarrow> (socket_ret \<times> message option \<times> socket \<times> user_registry) option" where
  "socket_dequeue_rest env s us = do {
     m \<leftarrow> s_message s;
     (r, res, iq, us) \<leftarrow> iqueue_pop_data True (s_in s) us;
     let s = s\<lparr>s_in := iq\<rparr>;
     case res of
       None \<Rightarrow>
         if r = IQUEUE_E_PENDING then socket_nodata s us
         else if r = IQUEUE_E_VIOLATION then socket_broken env s us
         else Some (SOCKET_FAILED, None, s, us)
     | Some (bytes, fds) \<Rightarrow>
         Some (SOCKET_OK, Some (m\<lparr>m_data := take 16 (m_data m) @ bytes, m_fds := fds\<rparr>), s\<lparr>s_message := None\<rparr>, us) }"

definition socket_dequeue_header ::
  "socket_env \<Rightarrow> socket \<Rightarrow> user_registry \<Rightarrow> (socket_ret \<times> message option \<times> socket \<times> user_registry) option" where
  "socket_dequeue_header env s us = do {
     (r, res, iq, us) \<leftarrow> iqueue_pop_data False (s_in s) us;
     let s = s\<lparr>s_in := iq\<rparr>;
     case res of
       None \<Rightarrow>
         if r = IQUEUE_E_PENDING then socket_nodata s us
         else if r = IQUEUE_E_VIOLATION then socket_broken env s us
         else Some (SOCKET_FAILED, None, s, us)
     | Some (header, _) \<Rightarrow>
         (case message_new_incoming (alloc env) (message_memory env) header of
            Inl e \<Rightarrow>
              if e = MESSAGE_E_CORRUPT_HEADER \<or> e = MESSAGE_E_TOO_LARGE then socket_broken env s us
              else Some (SOCKET_FAILED, None, s, us)
          | Inr m \<Rightarrow> do {
              (r, iq, us) \<leftarrow> iqueue_set_target (alloc_usage1 env) (log_works env) (s_in s) us (drop 16 (m_data m));
              let s = s\<lparr>s_in := iq\<rparr>;
              if r \<noteq> IQUEUE_OK then Some (if r = IQUEUE_E_QUOTA then SOCKET_E_QUOTA else SOCKET_FAILED, None, s, us)
              else socket_dequeue_rest env (s\<lparr>s_message := Some m\<rparr>) us }) }"

definition socket_dequeue ::
  "socket_env \<Rightarrow> string \<Rightarrow> socket \<Rightarrow> user_registry \<Rightarrow> (socket_ret \<times> message option \<times> socket \<times> user_registry) option" where
  "socket_dequeue env header_memory s us = do {
     (r, iq, us) \<leftarrow>
       (if pending_data (s_in s) = None
        then iqueue_set_target (alloc_usage0 env) (log_works env) (s_in s) us header_memory
        else Some (IQUEUE_OK, s_in s, us));
     let s = s\<lparr>s_in := iq\<rparr>;
     if r \<noteq> IQUEUE_OK then Some (if r = IQUEUE_E_QUOTA then SOCKET_E_QUOTA else SOCKET_FAILED, None, s, us)
     else if s_message s = None then socket_dequeue_header env s us
     else socket_dequeue_rest env s us }"

section \<open>Queueing\<close>

definition crlf :: string where "crlf = [CHR 0x0D, CHR 0x0A]"

definition socket_queue_line ::
  "socket_env \<Rightarrow> socket \<Rightarrow> user_registry \<Rightarrow> uid option \<Rightarrow> string \<Rightarrow> (socket_ret \<times> socket \<times> user_registry) option" where
  "socket_queue_line env s us user line =
     (if s_hup_out s \<or> s_shutdown s then Some (SOCKET_E_SHUTDOWN, s, us)
      else do {
        fits \<leftarrow> (if s_queue s = [] then Some False
                 else map_option (\<lambda>n. length line + 2 \<le> n) (socket_buffer_get_line_space (last (s_queue s))));
        (r, s, us) \<leftarrow>
          (if fits then Some (SOCKET_OK, s, us)
           else do {
             (r, b, us) \<leftarrow> socket_buffer_new_line env s us user (length line + 2);
             Some (r, case b of None \<Rightarrow> s | Some b \<Rightarrow> s\<lparr>s_queue := s_queue s @ [b]\<rparr>, us) });
        if r \<noteq> SOCKET_OK then Some (r, s, us)
        else
          let b = last (s_queue s);
              b = b\<lparr>sb_vecs := (sb_vecs b)[0 := sb_vecs b ! 0 @ line @ crlf]\<rparr>
          in Some (SOCKET_OK, s\<lparr>s_queue := butlast (s_queue s) @ [b]\<rparr>, us) })"

definition socket_queue ::
  "socket_env \<Rightarrow> socket \<Rightarrow> user_registry \<Rightarrow> uid option \<Rightarrow> message \<Rightarrow> (socket_ret \<times> socket \<times> user_registry) option" where
  "socket_queue env s us user m =
     (if s_hup_out s \<or> s_shutdown s then Some (SOCKET_E_SHUTDOWN, s, us)
      else do {
        (r, b, us) \<leftarrow> socket_buffer_new_message env s us user m;
        Some (r, case b of None \<Rightarrow> s | Some b \<Rightarrow> s\<lparr>s_queue := s_queue s @ [b]\<rparr>, us) })"

section \<open>Receiving\<close>

text \<open>
  The answers of \<open>recvmsg\<close>: end of file, nothing to read, a hangup of both directions, any
  other error, or bytes with file descriptors and the flag that some of those were dropped.
\<close>

datatype recv_answer = RECV_EOF | RECV_AGAIN | RECV_HANGUP | RECV_FAILED | RECEIVED string "int list" bool

text \<open>The descriptors and their charge at the place that the cursor selects.\<close>

definition cursor_fds :: "cursor \<Rightarrow> iqueue \<Rightarrow> int list option" where
  "cursor_fds c iq = (case c of INPUT _ _ \<Rightarrow> iq_fds iq | TARGET _ _ \<Rightarrow> pending_fds iq)"

definition cursor_charge :: "cursor \<Rightarrow> iqueue \<Rightarrow> user_charge" where
  "cursor_charge c iq = (case c of INPUT _ _ \<Rightarrow> charge_fds iq | TARGET _ _ \<Rightarrow> pending_charge_fds iq)"

definition set_cursor_fds :: "cursor \<Rightarrow> int list option \<Rightarrow> iqueue \<Rightarrow> iqueue" where
  "set_cursor_fds c fds iq = (case c of INPUT _ _ \<Rightarrow> iq\<lparr>iq_fds := fds\<rparr> | TARGET _ _ \<Rightarrow> iq\<lparr>pending_fds := fds\<rparr>)"

definition set_cursor_charge :: "cursor \<Rightarrow> user_charge \<Rightarrow> iqueue \<Rightarrow> iqueue" where
  "set_cursor_charge c ch iq = (case c of INPUT _ _ \<Rightarrow> iq\<lparr>charge_fds := ch\<rparr> | TARGET _ _ \<Rightarrow> iq\<lparr>pending_charge_fds := ch\<rparr>)"

definition socket_recvmsg ::
  "socket_env \<Rightarrow> recv_answer \<Rightarrow> cursor \<Rightarrow> socket \<Rightarrow> user_registry \<Rightarrow> (socket_ret \<times> socket \<times> user_registry) option" where
  "socket_recvmsg env answer c s us = do {
     _ \<leftarrow> c_assert (cursor_room c > 0);
     case answer of
       RECV_EOF \<Rightarrow> Some (SOCKET_E_LOST_INTEREST, socket_hangup_input s, us)
     | RECV_AGAIN \<Rightarrow> Some (SOCKET_OK, s, us)
     | RECV_HANGUP \<Rightarrow> do {
         (s, us) \<leftarrow> socket_hangup_output (socket_hangup_input s) us;
         Some (SOCKET_E_LOST_INTEREST, s, us) }
     | RECV_FAILED \<Rightarrow> Some (SOCKET_FAILED, s, us)
     | RECEIVED bytes fds truncated \<Rightarrow> do {
         _ \<leftarrow> c_assert (length fds \<le> SOCKET_FD_MAX);
         if truncated then do {
           (s, us) \<leftarrow> socket_close env s us;
           Some (SOCKET_E_LOST_INTEREST, s, us) }
         else
           let fds = (if cursor_fds c (s_in s) \<noteq> None then [] else fds);
               done = (\<lambda>s us. Some (SOCKET_E_PREEMPTED, s\<lparr>s_in := receive c bytes (s_in s)\<rparr>, us))
           in if fds = [] then done s us
              else do {
                (r, ch, us) \<leftarrow> user_charge (alloc_usage1 env) (log_works env) us (s_user s) (cursor_charge c (s_in s)) None
                  USER_SLOT_FDS (of_nat (length fds));
                let s = s\<lparr>s_in := set_cursor_charge c ch (s_in s)\<rparr>;
                if r = USER_E_QUOTA then do {
                  (s, us) \<leftarrow> socket_close env s us;
                  Some (SOCKET_E_LOST_INTEREST, s, us) }
                else if r \<noteq> USER_OK then Some (SOCKET_FAILED, s, us)
                else if \<not> alloc env then do {
                  (ch, us) \<leftarrow> user_charge_deinit us (cursor_charge c (s_in s));
                  Some (SOCKET_FAILED, s\<lparr>s_in := set_cursor_charge c ch (s_in s)\<rparr>, us) }
                else done (s\<lparr>s_in := set_cursor_fds c (Some fds) (s_in s)\<rparr>) us } } }"

definition socket_dispatch_read ::
  "socket_env \<Rightarrow> recv_answer \<Rightarrow> socket \<Rightarrow> user_registry \<Rightarrow> (socket_ret \<times> socket \<times> user_registry) option" where
  "socket_dispatch_read env answer s us =
     (if s_hup_in s then Some (SOCKET_E_LOST_INTEREST, s, us)
      else do {
        (r, c, iq, us) \<leftarrow> iqueue_get_cursor (alloc env) (alloc_usage0 env) (log_works env) (line_memory env) (s_in s) us;
        let s = s\<lparr>s_in := iq\<rparr>;
        if r = IQUEUE_E_PENDING then Some (SOCKET_OK, s, us)
        else if r = IQUEUE_E_QUOTA \<or> r = IQUEUE_E_VIOLATION then do {
          (s, us) \<leftarrow> socket_close env s us;
          Some (SOCKET_E_LOST_INTEREST, s, us) }
        else case c of
          None \<Rightarrow> Some (SOCKET_FAILED, s, us)
        | Some c \<Rightarrow> socket_recvmsg env answer c s us })"

section \<open>Sending\<close>

text \<open>
  The answers of \<open>sendmmsg\<close> to the messages it is given, each with its bytes and its file
  descriptors: how many bytes were taken of each of the first messages, that nothing can be sent
  now, a hangup, or any other error. \<open>outq\<close> is the answer of the query for bytes that the receiver
  has not read yet (\<open>None\<close> is an error).
\<close>

datatype send_answer = SENT "nat list" | SEND_AGAIN | SEND_HANGUP | SEND_FAILED

type_synonym send_msg = "string \<times> int list option"
type_synonym sendmmsg = "send_msg list \<Rightarrow> send_answer"

text \<open>
  The port to Zephyr has no such system call and defines it as a loop over \<open>sendmsg\<close>
  (\<open>zephyr/include/dbus_broker_zephyr_compat.h\<close>), which ends at the first error but not at a
  message that was sent in part. \<open>sendmsg i\<close> is the answer to the \<open>i\<close>-th call.
\<close>

datatype sendmsg_answer = MSG_SENT nat | MSG_AGAIN | MSG_HANGUP | MSG_FAILED

fun zephyr_sendmmsg_from :: "(nat \<Rightarrow> send_msg \<Rightarrow> sendmsg_answer) \<Rightarrow> nat \<Rightarrow> sendmmsg" where
  "zephyr_sendmmsg_from sendmsg i [] = SENT []"
| "zephyr_sendmmsg_from sendmsg i (m # ms) =
     (case sendmsg i m of
        MSG_SENT n \<Rightarrow> (case zephyr_sendmmsg_from sendmsg (i + 1) ms of SENT ns \<Rightarrow> SENT (n # ns) | _ \<Rightarrow> SENT [n])
      | MSG_AGAIN \<Rightarrow> SEND_AGAIN
      | MSG_HANGUP \<Rightarrow> SEND_HANGUP
      | MSG_FAILED \<Rightarrow> SEND_FAILED)"

definition zephyr_sendmmsg :: "(nat \<Rightarrow> send_msg \<Rightarrow> sendmsg_answer) \<Rightarrow> sendmmsg" where
  "zephyr_sendmmsg sendmsg = zephyr_sendmmsg_from sendmsg 0"

definition buffer_fds :: "socket_buffer \<Rightarrow> int list option" where
  "buffer_fds b = (case sb_message b of None \<Rightarrow> None | Some m \<Rightarrow> m_fds m)"

text \<open>The messages that are passed to the kernel at once: at most one with file descriptors, at the end.\<close>

primrec send_batch :: "nat \<Rightarrow> socket_buffer list \<Rightarrow> socket_buffer list" where
  "send_batch n_msgs [] = []"
| "send_batch n_msgs (b # bs) =
     (if n_msgs + 1 \<ge> SOCKET_MMSG_MAX \<or> fdlist_count (buffer_fds b) > 0 then [b] else b # send_batch (n_msgs + 1) bs)"

text \<open>Each buffer is passed as its bytes, and with its file descriptors unless a part of it was sent before.\<close>

definition buffer_msg :: "socket_buffer \<Rightarrow> send_msg" where
  "buffer_msg b = (concat (sb_vecs b), if sb_writer b = None then buffer_fds b else None)"

text \<open>The loop over the buffers of which bytes were taken.\<close>

fun socket_sent :: "socket \<Rightarrow> user_registry \<Rightarrow> nat list \<Rightarrow> socket_buffer list \<Rightarrow>
   (socket_buffer list \<times> socket \<times> user_registry) option" where
  "socket_sent s us [] bs = Some (bs, s, us)"
| "socket_sent s us (n # ns) [] = None"
| "socket_sent s us (n # ns) (b # bs) = do {
     (consumed, b) \<leftarrow> socket_buffer_consume b n;
     if \<not> consumed then do { (bs, s, us) \<leftarrow> socket_sent s us ns bs; Some (b # bs, s, us) }
     else if buffer_fds b \<noteq> None then socket_sent (s\<lparr>s_pending := s_pending s @ [b]\<rparr>) us ns bs
     else do { us \<leftarrow> socket_buffer_free us b; socket_sent s us ns bs } }"

text \<open>The write itself, after the buffers whose descriptors were received have been released.\<close>

definition socket_write_queue ::
  "socket_env \<Rightarrow> sendmmsg \<Rightarrow> socket \<Rightarrow> user_registry \<Rightarrow> (socket_ret \<times> socket \<times> user_registry) option" where
  "socket_write_queue env sendmmsg s us =
     (if s_hup_out s then Some (SOCKET_E_LOST_INTEREST, s, us)
      else if send_batch 0 (s_queue s) = [] then Some (SOCKET_E_LOST_INTEREST, s, us)
      else case sendmmsg (map buffer_msg (send_batch 0 (s_queue s))) of
        SEND_AGAIN \<Rightarrow> Some (SOCKET_OK, s, us)
      | SEND_HANGUP \<Rightarrow> do {
          (s, us) \<leftarrow> socket_hangup_output s us;
          Some (SOCKET_E_LOST_INTEREST, s, us) }
      | SEND_FAILED \<Rightarrow> Some (SOCKET_FAILED, s, us)
      | SENT ns \<Rightarrow> do {
          (q, s, us) \<leftarrow> socket_sent s us ns (s_queue s);
          let s = s\<lparr>s_queue := q\<rparr>;
          if q \<noteq> [] then Some (SOCKET_OK, s, us)
          else do {
            (s, us) \<leftarrow> (if s_shutdown s then socket_shutdown_now env s us else Some (s, us));
            Some (if s_pending s = [] then SOCKET_E_LOST_INTEREST else SOCKET_OK, s, us) } })"

definition socket_dispatch_write ::
  "socket_env \<Rightarrow> int option \<Rightarrow> sendmmsg \<Rightarrow> socket \<Rightarrow> user_registry \<Rightarrow> (socket_ret \<times> socket \<times> user_registry) option" where
  "socket_dispatch_write env outq sendmmsg s us =
     (if s_pending s \<noteq> [] \<and> \<not> zephyr env \<and> outq = None then Some (SOCKET_FAILED, s, us)
      else if s_pending s \<noteq> [] \<and> \<not> zephyr env \<and> the outq > 128 then Some (SOCKET_OK, s, us)
      else do {
        (s, us) \<leftarrow> (if s_pending s \<noteq> [] then do {
              us \<leftarrow> socket_buffers_free us (s_pending s);
              Some (socket_might_reset (s\<lparr>s_pending := []\<rparr>), us) }
            else Some (s, us));
        socket_write_queue env sendmmsg s us })"

datatype epoll_event = EPOLLIN | EPOLLOUT | EPOLLHUP

definition socket_dispatch ::
  "socket_env \<Rightarrow> recv_answer \<Rightarrow> int option \<Rightarrow> sendmmsg \<Rightarrow> epoll_event \<Rightarrow> socket \<Rightarrow> user_registry \<Rightarrow>
   (socket_ret \<times> socket \<times> user_registry) option" where
  "socket_dispatch env recv outq send event s us =
     (case event of
        EPOLLIN \<Rightarrow> socket_dispatch_read env recv s us
      | EPOLLOUT \<Rightarrow> socket_dispatch_write env outq send s us
      | EPOLLHUP \<Rightarrow> do {
          (s, us) \<leftarrow> socket_hangup_output s us;
          (_, s, us) \<leftarrow> socket_dispatch_read env recv s us;
          Some (SOCKET_E_LOST_INTEREST, s, us) })"

text \<open>The statistics are sums of \<open>unsigned int\<close>.\<close>

definition socket_get_stats :: "socket \<Rightarrow> u32 \<times> u32 \<times> u32 \<times> u32" where
  "socket_get_stats s =
     (ch_charge (charge_data (s_in s)) + ch_charge (pending_charge_data (s_in s)),
      ch_charge (charge_fds (s_in s)) + ch_charge (pending_charge_fds (s_in s)),
      sum_list (map (\<lambda>b. ch_charge (sb_charge0 b)) (s_queue s @ s_pending s)),
      sum_list (map (\<lambda>b. ch_charge (sb_charge1 b)) (s_queue s @ s_pending s)))"

section \<open>Buffers\<close>

definition buffer_bytes :: "socket_buffer \<Rightarrow> string" where
  "buffer_bytes b = concat (sb_vecs b)"

definition sbuf_ok :: "socket_buffer \<Rightarrow> bool" where
  "sbuf_ok b \<longleftrightarrow> sb_vecs b \<noteq> [] \<and>
     (case sb_writer b of None \<Rightarrow> True | Some w \<Rightarrow> w \<le> length (sb_vecs b) \<and> (\<forall>i < w. sb_vecs b ! i = []))"

definition same_buffer :: "socket_buffer \<Rightarrow> socket_buffer \<Rightarrow> bool" where
  "same_buffer b b' \<longleftrightarrow> sb_charge0 b' = sb_charge0 b \<and> sb_charge1 b' = sb_charge1 b \<and> sb_message b' = sb_message b \<and>
     length (sb_vecs b') = length (sb_vecs b)"

lemma concat_from:
  assumes "\<forall>i < w. xs ! i = []" "w < length xs"
  shows "concat xs = xs ! w @ concat (drop (Suc w) xs)"
proof -
  have "concat (take w xs) = []" using assms by (auto simp: in_set_conv_nth)
  moreover have "xs = take w xs @ xs ! w # drop (Suc w) xs" using assms(2) by (rule id_take_nth_drop)
  ultimately show ?thesis by (metis append_Nil concat.simps(2) concat_append)
qed

lemma consume_vecs_ok:
  "\<lbrakk>\<forall>i < w. sb_vecs b ! i = []; w \<le> length (sb_vecs b); n \<le> length (buffer_bytes b)\<rbrakk> \<Longrightarrow>
   \<exists>b' w'. consume_vecs b w n = (b', 0) \<and> buffer_bytes b' = drop n (buffer_bytes b) \<and> same_buffer b b' \<and>
     sb_writer b' = Some w' \<and> (\<forall>i < w'. sb_vecs b' ! i = []) \<and> w' \<le> length (sb_vecs b') \<and>
     (w' = length (sb_vecs b') \<longleftrightarrow> buffer_bytes b' = [])"
proof (induction b w n rule: consume_vecs.induct)
  case (1 b w n)
  show ?case
  proof (cases "w < length (sb_vecs b)")
    case False
    with 1(2,3) have all: "\<forall>i < length (sb_vecs b). sb_vecs b ! i = []" "w = length (sb_vecs b)" by auto
    then have nil: "concat (sb_vecs b) = []" by (auto simp: in_set_conv_nth)
    with 1(4) have "n = 0" by (simp add: buffer_bytes_def)
    with nil all show ?thesis by (subst consume_vecs.simps) (auto simp: buffer_bytes_def same_buffer_def)
  next
    case True
    let ?t = "min (length (sb_vecs b ! w)) n"
    let ?v = "drop ?t (sb_vecs b ! w)"
    let ?b = "b\<lparr>sb_vecs := (sb_vecs b)[w := ?v], sb_base := (if w = 0 then sb_base b + ?t else sb_base b), sb_writer := Some w\<rparr>"
    have bytes: "buffer_bytes b = sb_vecs b ! w @ concat (drop (Suc w) (sb_vecs b))"
      unfolding buffer_bytes_def using 1(2) True by (rule concat_from)
    have bytes': "buffer_bytes ?b = ?v @ concat (drop (Suc w) (sb_vecs b))"
      using concat_from [of w "sb_vecs ?b"] 1(2) True by (simp add: buffer_bytes_def)
    show ?thesis
    proof (cases "?v = []")
      case False
      then have n: "?t = n" by auto
      have "consume_vecs b w n = (?b, 0)" using True False n by (subst consume_vecs.simps) (simp add: Let_def)
      moreover have "buffer_bytes ?b = drop n (buffer_bytes b)" using bytes bytes' n False by simp
      moreover have "buffer_bytes ?b \<noteq> []" using bytes' False by simp
      ultimately show ?thesis using 1(2) True by (auto simp: same_buffer_def)
    next
      case v: True
      have eq: "consume_vecs b w n = consume_vecs ?b (w + 1) (n - ?t)"
        using True v by (subst consume_vecs.simps) (auto simp: Let_def min_def)
      have pre: "\<forall>i < w + 1. sb_vecs ?b ! i = []" using 1(2) True v by (auto simp: less_Suc_eq)
      have len: "w + 1 \<le> length (sb_vecs ?b)" "n - ?t \<le> length (buffer_bytes ?b)"
        using True v 1(4) bytes bytes' by auto
      have drop: "drop (n - ?t) (buffer_bytes ?b) = drop n (buffer_bytes b)" using bytes bytes' v by simp
      from 1(1) [OF True refl refl _ pre len] v obtain b' w' where
        "consume_vecs ?b (w + 1) (n - ?t) = (b', 0)" "buffer_bytes b' = drop (n - ?t) (buffer_bytes ?b)" "same_buffer ?b b'"
        "sb_writer b' = Some w'" "\<forall>i < w'. sb_vecs b' ! i = []" "w' \<le> length (sb_vecs b')"
        "w' = length (sb_vecs b') \<longleftrightarrow> buffer_bytes b' = []"
        using True by auto
      then show ?thesis unfolding eq drop by (auto simp: same_buffer_def)
    qed
  qed
qed

lemma socket_buffer_consume_ok:
  assumes "sbuf_ok b" "n \<le> length (buffer_bytes b)"
  shows "\<exists>b'. socket_buffer_consume b n = Some (buffer_bytes b' = [], b') \<and> buffer_bytes b' = drop n (buffer_bytes b) \<and>
    same_buffer b b' \<and> sbuf_ok b' \<and> sb_writer b' \<noteq> None"
proof -
  let ?w = "case sb_writer b of None \<Rightarrow> 0 | Some w \<Rightarrow> w"
  have "\<forall>i < ?w. sb_vecs b ! i = []" "?w \<le> length (sb_vecs b)" using assms(1) by (auto simp: sbuf_ok_def split: option.splits)
  from consume_vecs_ok [OF this assms(2)] show ?thesis
    using assms(1) by (auto simp: socket_buffer_consume_def socket_buffer_is_consumed_def sbuf_ok_def same_buffer_def)
qed

section \<open>Sending in order\<close>

definition out_bytes :: "socket \<Rightarrow> string" where
  "out_bytes s = concat (map buffer_bytes (s_queue s))"

definition buffer_charges :: "socket_buffer \<Rightarrow> user_charge multiset" where
  "buffer_charges b = {#sb_charge0 b, sb_charge1 b#}"

definition out_charges :: "socket_buffer list \<Rightarrow> user_charge multiset" where
  "out_charges bs = sum_list (map buffer_charges bs)"

definition socket_charges :: "socket \<Rightarrow> user_charge multiset" where
  "socket_charges s = iq_charges (s_in s) + out_charges (s_queue s) + out_charges (s_pending s)"

lemma out_charges_simps [simp]:
  "out_charges [] = {#}" "out_charges (b # bs) = buffer_charges b + out_charges bs"
  "out_charges (bs @ cs) = out_charges bs + out_charges cs"
  by (simp_all add: out_charges_def)

lemma socket_buffer_free_ok:
  assumes "accounts A us ext (buffer_charges b + C)"
  shows "\<exists>us'. socket_buffer_free us b = Some us' \<and> accounts A us' ext C"
proof -
  have "accounts A us ext (add_mset (sb_charge1 b) (add_mset (sb_charge0 b) C))"
    using assms by (simp add: buffer_charges_def add_mset_commute)
  from accounts_deinit [OF this] obtain ch us1 where
    1: "user_charge_deinit us (sb_charge1 b) = Some (ch, us1)" "accounts A us1 ext (add_mset (sb_charge0 b) C)" by blast
  from accounts_deinit [OF 1(2)] 1(1) show ?thesis by (auto simp: socket_buffer_free_def)
qed

lemma socket_buffers_free_ok:
  "accounts A us ext (out_charges bs + C) \<Longrightarrow> \<exists>us'. socket_buffers_free us bs = Some us' \<and> accounts A us' ext C"
proof (induction bs arbitrary: us)
  case (Cons b bs)
  from Cons.prems have "accounts A us ext (buffer_charges b + (out_charges bs + C))" by (simp add: add.assoc)
  from socket_buffer_free_ok [OF this] obtain us1 where
    "socket_buffer_free us b = Some us1" "accounts A us1 ext (out_charges bs + C)" by blast
  with Cons.IH show ?case by auto
qed simp

text \<open>
  What Linux promises of \<open>sendmmsg\<close>: it takes bytes of a prefix of the messages, never more than
  there are, and stops at the first message of which it takes only a part.
\<close>

fun kernel_sent :: "nat list \<Rightarrow> send_msg list \<Rightarrow> bool" where
  "kernel_sent [] ms = True"
| "kernel_sent [n] (m # ms) = (n \<le> length (fst m))"
| "kernel_sent (n # ns) (m # ms) = (n = length (fst m) \<and> kernel_sent ns ms)"
| "kernel_sent ns [] = False"

definition stops_at_part :: "sendmmsg \<Rightarrow> bool" where
  "stops_at_part sendmmsg \<longleftrightarrow> (\<forall>ms. case sendmmsg ms of SENT ns \<Rightarrow> kernel_sent ns ms | _ \<Rightarrow> True)"

text \<open>The bytes that reach the receiver.\<close>

definition on_wire :: "send_msg list \<Rightarrow> nat list \<Rightarrow> string" where
  "on_wire ms ns = concat (map2 (\<lambda>m n. take n (fst m)) ms ns)"

fun sent_in_order :: "nat list \<Rightarrow> socket_buffer list \<Rightarrow> bool" where
  "sent_in_order [] bs = True"
| "sent_in_order [n] (b # bs) = (n \<le> length (buffer_bytes b))"
| "sent_in_order (n # ns) (b # bs) = (n = length (buffer_bytes b) \<and> sent_in_order ns bs)"
| "sent_in_order ns [] = False"

lemma kernel_sent_buffers: "kernel_sent ns (map buffer_msg bs) = sent_in_order ns bs"
  by (induction ns bs rule: sent_in_order.induct) (auto simp: buffer_msg_def buffer_bytes_def)

lemma on_wire_buffers:
  "sent_in_order ns bs \<Longrightarrow> on_wire (map buffer_msg bs) ns = take (sum_list ns) (concat (map buffer_bytes bs)) \<and>
     sum_list ns \<le> length (concat (map buffer_bytes bs))"
  by (induction ns bs rule: sent_in_order.induct) (auto simp: on_wire_def buffer_msg_def buffer_bytes_def)

text \<open>A buffer of which all bytes were taken leaves the queue: it waits if it carries descriptors.\<close>

lemma socket_sent_all:
  assumes "sbuf_ok b" "accounts A us ext (out_charges (b # bs) + out_charges (s_pending s) + C)"
  shows "\<exists>p us'. socket_sent s us (length (buffer_bytes b) # ns) (b # bs) = socket_sent (s\<lparr>s_pending := p\<rparr>) us' ns bs \<and>
    accounts A us' ext (out_charges bs + out_charges p + C)"
proof -
  from socket_buffer_consume_ok [OF assms(1) order_refl] obtain b' where
    b': "socket_buffer_consume b (length (buffer_bytes b)) = Some (True, b')" "same_buffer b b'" by auto
  then have ch: "buffer_charges b' = buffer_charges b" by (simp add: buffer_charges_def same_buffer_def)
  show ?thesis
  proof (cases "buffer_fds b' = None")
    case True
    have "accounts A us ext (buffer_charges b' + (out_charges bs + out_charges (s_pending s) + C))"
      using assms(2) by (simp add: ch add.assoc)
    from socket_buffer_free_ok [OF this] obtain us' where
      "socket_buffer_free us b' = Some us'" "accounts A us' ext (out_charges bs + out_charges (s_pending s) + C)" by blast
    with b'(1) True show ?thesis by (intro exI [of _ "s_pending s"] exI [of _ us']) simp
  next
    case False
    with b'(1) assms(2) show ?thesis
      by (intro exI [of _ "s_pending s @ [b']"] exI [of _ us]) (simp add: ch ac_simps)
  qed
qed

lemma socket_sent_part:
  assumes "sbuf_ok b" "n < length (buffer_bytes b)"
  shows "\<exists>b'. socket_sent s us [n] (b # bs) = Some (b' # bs, s, us) \<and> buffer_bytes b' = drop n (buffer_bytes b) \<and>
    sbuf_ok b' \<and> buffer_charges b' = buffer_charges b"
proof -
  from socket_buffer_consume_ok [OF assms(1), of n] assms(2) obtain b' where
    "socket_buffer_consume b n = Some (False, b')" "same_buffer b b'" "sbuf_ok b'" "buffer_bytes b' = drop n (buffer_bytes b)"
    by auto
  then show ?thesis by (auto simp: buffer_charges_def same_buffer_def)
qed

lemma socket_sent_ok:
  "\<lbrakk>sent_in_order ns bs; \<forall>b \<in> set bs. sbuf_ok b; accounts A us ext (out_charges bs + out_charges (s_pending s) + C)\<rbrakk> \<Longrightarrow>
   \<exists>q p us'. socket_sent s us ns bs = Some (q, s\<lparr>s_pending := p\<rparr>, us') \<and> (\<forall>b \<in> set q. sbuf_ok b) \<and>
     accounts A us' ext (out_charges q + out_charges p + C) \<and>
     concat (map buffer_bytes q) = drop (sum_list ns) (concat (map buffer_bytes bs))"
proof (induction ns bs arbitrary: s us rule: sent_in_order.induct)
  case (1 bs)
  then show ?case by (auto intro!: exI [of _ bs] exI [of _ "s_pending s"] exI [of _ us])
next
  case (2 n b bs)
  show ?case
  proof (cases "n = length (buffer_bytes b)")
    case True
    from socket_sent_all [OF _ 2(3), of "[]"] 2(2) obtain p us' where
      "socket_sent s us [n] (b # bs) = Some (bs, s\<lparr>s_pending := p\<rparr>, us')" "accounts A us' ext (out_charges bs + out_charges p + C)"
      using True by auto
    with True 2(2) show ?thesis by auto
  next
    case False
    with 2(1) have lt: "n < length (buffer_bytes b)" by simp
    from socket_sent_part [OF _ this, of s us bs] 2(2) obtain b' where
      b': "socket_sent s us [n] (b # bs) = Some (b' # bs, s, us)" "buffer_bytes b' = drop n (buffer_bytes b)"
        "sbuf_ok b'" "buffer_charges b' = buffer_charges b" by auto
    then show ?thesis
      using 2(2,3) lt by (intro exI [of _ "b' # bs"] exI [of _ "s_pending s"] exI [of _ us]) auto
  qed
next
  case (3 n m ns b bs)
  from 3(2) have n: "n = length (buffer_bytes b)" and k: "sent_in_order (m # ns) bs" by auto
  from socket_sent_all [OF _ 3(4), of "m # ns"] 3(3) obtain p us' where
    p: "socket_sent s us (n # m # ns) (b # bs) = socket_sent (s\<lparr>s_pending := p\<rparr>) us' (m # ns) bs"
      "accounts A us' ext (out_charges bs + out_charges p + C)" using n by auto
  from 3(1) [OF k, of us' "s\<lparr>s_pending := p\<rparr>"] 3(3) p(2) show ?case unfolding p(1) by (auto simp: n)
qed simp

section \<open>Hangup\<close>

lemma might_reset_sel [simp]:
  "s_user (socket_might_reset s) = s_user s" "s_shutdown (socket_might_reset s) = s_shutdown s"
  "s_hup_in (socket_might_reset s) = s_hup_in s" "s_hup_out (socket_might_reset s) = s_hup_out s"
  "s_in (socket_might_reset s) = s_in s" "s_message (socket_might_reset s) = s_message s"
  "s_queue (socket_might_reset s) = s_queue s" "s_pending (socket_might_reset s) = s_pending s"
  "socket_charges (socket_might_reset s) = socket_charges s" "out_bytes (socket_might_reset s) = out_bytes s"
  by (simp_all add: socket_might_reset_def socket_charges_def out_bytes_def)

text \<open>
  The flags of a socket: a socket that hung up its output has nothing to send, a reset one has
  hung up both directions and waits for nothing, and one that was shut down and has sent
  everything has hung up.
\<close>

definition flags_ok :: "socket \<Rightarrow> bool" where
  "flags_ok s \<longleftrightarrow> (s_hup_out s \<longrightarrow> s_queue s = []) \<and> (s_shutdown s \<and> s_queue s = [] \<longrightarrow> s_hup_out s) \<and>
     (s_reset s \<longrightarrow> s_hup_in s \<and> s_hup_out s \<and> s_pending s = [])"

definition can_shutdown :: "socket_env \<Rightarrow> bool" where
  "can_shutdown env \<longleftrightarrow> zephyr env \<or> shutdown_ok env"

lemma flags_might_reset [simp]: "flags_ok s \<Longrightarrow> flags_ok (socket_might_reset s)"
  by (auto simp: flags_ok_def socket_might_reset_def)

lemma hangup_input_sel [simp]:
  "s_hup_in (socket_hangup_input s)" "s_in (socket_hangup_input s) = s_in s" "s_message (socket_hangup_input s) = s_message s"
  "s_queue (socket_hangup_input s) = s_queue s" "s_pending (socket_hangup_input s) = s_pending s"
  "s_shutdown (socket_hangup_input s) = s_shutdown s" "s_hup_out (socket_hangup_input s) = s_hup_out s"
  "s_user (socket_hangup_input s) = s_user s" "socket_charges (socket_hangup_input s) = socket_charges s"
  by (simp_all add: socket_hangup_input_def socket_charges_def)

lemma flags_hangup_input [simp]: "flags_ok s \<Longrightarrow> flags_ok (socket_hangup_input s)"
  unfolding socket_hangup_input_def by (auto simp: flags_ok_def socket_might_reset_def)

text \<open>What an operation that only closes the output keeps.\<close>

definition input_kept :: "socket \<Rightarrow> socket \<Rightarrow> bool" where
  "input_kept s s' \<longleftrightarrow> s_in s' = s_in s \<and> s_message s' = s_message s \<and> s_pending s' = s_pending s \<and>
     s_user s' = s_user s \<and> s_hup_in s' = s_hup_in s"

lemma hangup_output_ok:
  assumes "accounts A us ext (socket_charges s + C)" "s_hup_out s \<or> flags_ok (s\<lparr>s_hup_out := True, s_queue := []\<rparr>)"
    "s_hup_out s \<Longrightarrow> flags_ok s"
  shows "\<exists>s' us'. socket_hangup_output s us = Some (s', us') \<and> accounts A us' ext (socket_charges s' + C) \<and>
    flags_ok s' \<and> input_kept s s' \<and> s_hup_out s' \<and> s_queue s' = [] \<and> s_shutdown s' = s_shutdown s"
proof (cases "s_hup_out s")
  case True
  with assms show ?thesis by (auto simp: socket_hangup_output_def input_kept_def flags_ok_def)
next
  case False
  have "accounts A us ext (out_charges (s_queue s) + (iq_charges (s_in s) + out_charges (s_pending s) + C))"
    using assms(1) by (simp add: socket_charges_def ac_simps)
  from socket_buffers_free_ok [OF this] obtain us' where
    f: "socket_buffers_free us (s_queue s) = Some us'" "accounts A us' ext (iq_charges (s_in s) + out_charges (s_pending s) + C)"
    by blast
  let ?s = "socket_might_reset (s\<lparr>s_hup_out := True, s_queue := []\<rparr>)"
  have "socket_hangup_output s us = Some (?s, us')"
    using False f(1) by (simp add: socket_hangup_output_def socket_discard_output_def)
  moreover have "accounts A us' ext (socket_charges ?s + C)"
    using f(2) unfolding might_reset_sel by (simp add: socket_charges_def)
  moreover have "flags_ok ?s" using assms(2) False by (intro flags_might_reset) simp
  ultimately show ?thesis by (auto simp: input_kept_def)
qed

lemma flags_hangup_output:
  "flags_ok s \<Longrightarrow> flags_ok (s\<lparr>s_hup_out := True, s_queue := []\<rparr>)"
  by (auto simp: flags_ok_def)

lemma shutdown_now_ok:
  assumes "accounts A us ext (socket_charges s + C)" "can_shutdown env" "s_shutdown s"
    and "s_hup_out s \<Longrightarrow> flags_ok s" "flags_ok (s\<lparr>s_hup_out := True, s_queue := []\<rparr>)"
  shows "\<exists>s' us'. socket_shutdown_now env s us = Some (s', us') \<and> accounts A us' ext (socket_charges s' + C) \<and>
    flags_ok s' \<and> input_kept s s' \<and> s_hup_out s' \<and> s_queue s' = [] \<and> s_shutdown s'"
proof (cases "s_hup_out s")
  case True
  with assms show ?thesis by (auto simp: socket_shutdown_now_def input_kept_def flags_ok_def)
next
  case False
  with hangup_output_ok [OF assms(1)] assms(2-5) show ?thesis by (auto simp: socket_shutdown_now_def can_shutdown_def)
qed

lemma shutdown_ok:
  assumes "accounts A us ext (socket_charges s + C)" "can_shutdown env" "flags_ok s"
  shows "\<exists>s' us'. socket_shutdown env s us = Some (s', us') \<and> accounts A us' ext (socket_charges s' + C) \<and>
    flags_ok s' \<and> input_kept s s' \<and> s_shutdown s' \<and> s_queue s' = s_queue s \<and> (s_queue s = [] \<longrightarrow> s_hup_out s')"
proof (cases "s_shutdown s \<or> s_queue s \<noteq> []")
  case True
  with assms show ?thesis
    by (auto simp: socket_shutdown_def input_kept_def flags_ok_def socket_charges_def)
next
  case False
  let ?s = "s\<lparr>s_shutdown := True\<rparr>"
  have "accounts A us ext (socket_charges ?s + C)" using assms(1) by (simp add: socket_charges_def)
  moreover have "s_hup_out ?s \<Longrightarrow> flags_ok ?s" "flags_ok (?s\<lparr>s_hup_out := True, s_queue := []\<rparr>)"
    using assms(3) by (auto simp: flags_ok_def)
  ultimately show ?thesis
    using shutdown_now_ok [of A us ext ?s C env] assms(2) False
    by (auto simp: socket_shutdown_def Let_def input_kept_def)
qed

section \<open>Writing\<close>

definition queue_ok :: "socket \<Rightarrow> bool" where
  "queue_ok s \<longleftrightarrow> list_all sbuf_ok (s_queue s)"

text \<open>Whether the dispatch of a write event gets to the system call.\<close>

definition sends :: "socket_env \<Rightarrow> int option \<Rightarrow> socket \<Rightarrow> bool" where
  "sends env outq s \<longleftrightarrow> s_queue s \<noteq> [] \<and>
     (s_pending s = [] \<or> zephyr env \<or> (case outq of None \<Rightarrow> False | Some v \<Rightarrow> v \<le> 128))"

abbreviation offered :: "socket \<Rightarrow> send_msg list" where
  "offered s \<equiv> map buffer_msg (send_batch 0 (s_queue s))"

lemma sent_in_order_append: "sent_in_order ns bs \<Longrightarrow> sent_in_order ns (bs @ cs)"
  by (induction ns bs rule: sent_in_order.induct) auto

lemma send_batch_prefix: "\<exists>cs. bs = send_batch n bs @ cs"
  by (induction bs arbitrary: n) auto

lemma send_batch_Nil [simp]: "send_batch n bs = [] \<longleftrightarrow> bs = []"
  by (cases bs) auto

lemma sent_in_order_queue: "sent_in_order ns (send_batch n bs) \<Longrightarrow> sent_in_order ns bs"
  using sent_in_order_append send_batch_prefix by metis

lemma sent_order:
  assumes "stops_at_part sendmmsg" "sendmmsg (offered s) = SENT ns"
  shows "sent_in_order ns (s_queue s)"
proof -
  have "kernel_sent ns (offered s)" using assms(1) [unfolded stops_at_part_def, rule_format, of "offered s"] assms(2) by simp
  then show ?thesis unfolding kernel_sent_buffers by (rule sent_in_order_queue)
qed

definition out_inv :: "uid set \<Rightarrow> (uid \<Rightarrow> nat) \<Rightarrow> user_charge multiset \<Rightarrow> socket \<Rightarrow> user_registry \<Rightarrow> bool" where
  "out_inv A ext C s us \<longleftrightarrow> accounts A us ext (socket_charges s + C) \<and> flags_ok s \<and> queue_ok s"

lemma write_sent_ok:
  assumes inv: "out_inv A ext C s us" and env: "can_shutdown env" and k: "sent_in_order ns (s_queue s)"
    and q: "s_queue s \<noteq> []"
    and a: "sendmmsg (offered s) = SENT ns"
  shows "\<exists>r s' us'. socket_write_queue env sendmmsg s us = Some (r, s', us') \<and> out_inv A ext C s' us' \<and>
    s_in s' = s_in s \<and> s_message s' = s_message s \<and> out_bytes s' = drop (sum_list ns) (out_bytes s)"
proof -
  have acc: "accounts A us ext (out_charges (s_queue s) + out_charges (s_pending s) + (iq_charges (s_in s) + C))"
    and fl: "flags_ok s" and ok: "\<forall>b \<in> set (s_queue s). sbuf_ok b"
    using inv by (simp_all add: out_inv_def socket_charges_def queue_ok_def list_all_iff ac_simps)
  have hup: "\<not> s_hup_out s" using fl q by (auto simp: flags_ok_def)
  from socket_sent_ok [OF k ok acc] obtain qs p us1 where
    s: "socket_sent s us ns (s_queue s) = Some (qs, s\<lparr>s_pending := p\<rparr>, us1)" "\<forall>b \<in> set qs. sbuf_ok b"
      "accounts A us1 ext (out_charges qs + out_charges p + (iq_charges (s_in s) + C))"
      "concat (map buffer_bytes qs) = drop (sum_list ns) (out_bytes s)"
    unfolding out_bytes_def by blast
  let ?s = "s\<lparr>s_pending := p, s_queue := qs\<rparr>"
  have acc': "accounts A us1 ext (socket_charges ?s + C)" using s(3) by (simp add: socket_charges_def ac_simps)
  show ?thesis
  proof (cases "qs = [] \<and> s_shutdown s")
    case False
    then have "flags_ok ?s" using fl hup by (auto simp: flags_ok_def)
    moreover have "socket_write_queue env sendmmsg s us =
        Some (if qs = [] \<and> p = [] then SOCKET_E_LOST_INTEREST else SOCKET_OK, ?s, us1)"
      using False s(1) hup q a by (simp add: socket_write_queue_def Let_def)
    ultimately show ?thesis using s(2,4) acc' by (simp add: out_inv_def queue_ok_def list_all_iff out_bytes_def)
  next
    case True
    have "flags_ok (?s\<lparr>s_hup_out := True, s_queue := []\<rparr>)" using fl hup by (auto simp: flags_ok_def)
    with shutdown_now_ok [OF acc' env] True hup obtain s' us' where
      "socket_shutdown_now env ?s us1 = Some (s', us')" "accounts A us' ext (socket_charges s' + C)" "flags_ok s'"
      "input_kept ?s s'" "s_queue s' = []" by auto
    with True s hup q a show ?thesis
      by (auto simp: socket_write_queue_def out_inv_def queue_ok_def out_bytes_def input_kept_def)
  qed
qed

lemma write_queue_ok:
  assumes inv: "out_inv A ext C s us" and env: "can_shutdown env" and k: "stops_at_part sendmmsg"
  shows "\<exists>r s' us'. socket_write_queue env sendmmsg s us = Some (r, s', us') \<and> out_inv A ext C s' us' \<and>
    s_in s' = s_in s \<and> s_message s' = s_message s \<and>
    (s_queue s \<noteq> [] \<longrightarrow> out_bytes s' =
       (case sendmmsg (offered s) of SENT ns \<Rightarrow> drop (sum_list ns) (out_bytes s) | SEND_HANGUP \<Rightarrow> [] | _ \<Rightarrow> out_bytes s)) \<and>
    (s_queue s = [] \<longrightarrow> out_bytes s' = [])"
proof (cases "s_queue s = []")
  case True
  with inv show ?thesis by (auto simp: socket_write_queue_def out_bytes_def split: send_answer.splits)
next
  case False
  then have hup: "\<not> s_hup_out s" using inv by (auto simp: out_inv_def flags_ok_def)
  show ?thesis
  proof (cases "sendmmsg (offered s)")
    case (SENT ns)
    then have "sent_in_order ns (s_queue s)" by (rule sent_order [OF k])
    from write_sent_ok [where s = s and sendmmsg = sendmmsg, OF inv env this False SENT] SENT False show ?thesis by auto
  next
    case SEND_HANGUP
    have "accounts A us ext (socket_charges s + C)" "flags_ok s" using inv by (simp_all add: out_inv_def)
    from hangup_output_ok [OF this(1) _ this(2)] flags_hangup_output [OF this(2)] obtain s' us' where
      "socket_hangup_output s us = Some (s', us')" "accounts A us' ext (socket_charges s' + C)" "flags_ok s'"
      "input_kept s s'" "s_queue s' = []" by blast
    with SEND_HANGUP hup False show ?thesis
      by (auto simp: socket_write_queue_def out_inv_def queue_ok_def out_bytes_def input_kept_def)
  qed (use inv hup False in \<open>auto simp: socket_write_queue_def\<close>)
qed

lemma release_pending_ok:
  assumes "out_inv A ext C s us"
  shows "\<exists>s' us'. (if s_pending s \<noteq> [] then do {
              us \<leftarrow> socket_buffers_free us (s_pending s);
              Some (socket_might_reset (s\<lparr>s_pending := []\<rparr>), us) }
            else Some (s, us)) = Some (s', us') \<and> out_inv A ext C s' us' \<and> s_queue s' = s_queue s \<and>
    s_in s' = s_in s \<and> s_message s' = s_message s"
proof (cases "s_pending s = []")
  case False
  have "accounts A us ext (out_charges (s_pending s) + (iq_charges (s_in s) + out_charges (s_queue s) + C))"
    using assms by (simp add: out_inv_def socket_charges_def ac_simps)
  from socket_buffers_free_ok [OF this] obtain us' where
    f: "socket_buffers_free us (s_pending s) = Some us'" "accounts A us' ext (iq_charges (s_in s) + out_charges (s_queue s) + C)"
    by blast
  have "flags_ok (socket_might_reset (s\<lparr>s_pending := []\<rparr>))"
    using assms by (intro flags_might_reset) (auto simp: out_inv_def flags_ok_def)
  moreover have "socket_charges (socket_might_reset (s\<lparr>s_pending := []\<rparr>)) = iq_charges (s_in s) + out_charges (s_queue s)"
    unfolding might_reset_sel by (simp add: socket_charges_def)
  ultimately show ?thesis using False f assms by (auto simp: out_inv_def queue_ok_def)
qed (use assms in auto)

section \<open>Properties of the output\<close>

lemma sent_batch:
  assumes "stops_at_part sendmmsg" "sendmmsg (offered s) = SENT ns"
  shows "sent_in_order ns (send_batch 0 (s_queue s))"
  using assms(1) [unfolded stops_at_part_def, rule_format, of "offered s"] assms(2) by (simp add: kernel_sent_buffers)

lemma on_wire_offered:
  assumes "sent_in_order ns (s_queue s)" "sent_in_order ns (send_batch 0 (s_queue s))"
  shows "on_wire (offered s) ns @ drop (sum_list ns) (out_bytes s) = out_bytes s"
proof -
  obtain cs where q: "s_queue s = send_batch 0 (s_queue s) @ cs" using send_batch_prefix by blast
  then have "out_bytes s = concat (map buffer_bytes (send_batch 0 (s_queue s))) @ concat (map buffer_bytes cs)"
    unfolding out_bytes_def by (metis concat_append map_append)
  with on_wire_buffers [OF assms(2)] show ?thesis by simp
qed

text \<open>
  The loop of the port keeps the promise if the network takes every message as a whole or
  refuses it.
\<close>

definition takes_whole :: "(nat \<Rightarrow> send_msg \<Rightarrow> sendmsg_answer) \<Rightarrow> bool" where
  "takes_whole sendmsg \<longleftrightarrow> (\<forall>i m n. sendmsg i m = MSG_SENT n \<longrightarrow> n = length (fst m))"

lemma zephyr_sendmmsg_stops: "takes_whole sendmsg \<Longrightarrow> stops_at_part (zephyr_sendmmsg sendmsg)"
proof -
  assume w: "takes_whole sendmsg"
  have "case zephyr_sendmmsg_from sendmsg i ms of SENT ns \<Rightarrow> kernel_sent ns ms | _ \<Rightarrow> True" for i ms
  proof (induction ms arbitrary: i)
    case (Cons m ms)
    show ?case
    proof (cases "sendmsg i m")
      case (MSG_SENT n)
      with w have n: "n = length (fst m)" unfolding takes_whole_def by blast
      from Cons [of "i + 1"] MSG_SENT n show ?thesis
        by (cases "zephyr_sendmmsg_from sendmsg (i + 1) ms") (auto, metis kernel_sent.simps(2,3) list.exhaust order_refl)
    qed auto
  qed simp
  then show ?thesis by (simp add: stops_at_part_def zephyr_sendmmsg_def)
qed


definition some_socket :: "string \<Rightarrow> socket_buffer list \<Rightarrow> socket" where
  "some_socket input bs = \<lparr>s_user = None, s_shutdown = False, s_reset = False, s_hup_in = False, s_hup_out = False,
     s_in = (some_queue input)\<lparr>iq_user := None\<rparr>, s_message = None, s_queue = bs, s_pending = []\<rparr>"

definition some_env :: socket_env where
  "some_env = \<lparr>zephyr = False, shutdown_ok = True, alloc = True, alloc_usage0 = True, alloc_usage1 = True, log_works = True,
     line_memory = replicate 16384 (CHR 0x00), message_memory = (\<lambda>_. CHR 0x00), sizeof_SocketBuffer = 1, sizeof_Message = 1\<rparr>"

definition takes_three :: sendmmsg where
  "takes_three ms = SENT (case ms of [] \<Rightarrow> [] | m # _ \<Rightarrow> [min 3 (length (fst m))])"

abbreviation two_buffers :: socket where
  "two_buffers \<equiv> some_socket [] [socket_buffer_new_internal [''first''] 64, socket_buffer_new_internal [''second''] 64]"

lemma two_buffers_ok:
  "out_inv {1} ((\<lambda>_. 0)(1 := 1)) {#} two_buffers (one_user 4 [100, 10, 10, 10] 1)" "out_bytes two_buffers = ''firstsecond''"
  "offered two_buffers = [(''first'', None), (''second'', None)]" "s_queue two_buffers \<noteq> []" "s_pending two_buffers = []"
  using one_user_accounts
  by (simp_all add: out_inv_def socket_charges_def some_socket_def socket_buffer_new_internal_def buffer_charges_def iq_charges_def
      some_queue_def iqueue_null_def flags_ok_def queue_ok_def sbuf_ok_def out_bytes_def buffer_bytes_def buffer_msg_def buffer_fds_def
      fdlist_count_def SOCKET_MMSG_MAX_def)


lemma dispatch_write_part:
  assumes "s_pending s = []" "\<not> s_hup_out s" "send_batch 0 (s_queue s) \<noteq> []" "sendmmsg (offered s) = SENT ns"
    "socket_sent s us ns (s_queue s) = Some (q, s', us')" "q \<noteq> []"
  shows "socket_dispatch_write env outq sendmmsg s us = Some (SOCKET_OK, s'\<lparr>s_queue := q\<rparr>, us')"
  using assms by (simp add: socket_dispatch_write_def socket_write_queue_def)

text \<open>
  On Zephyr the loop goes on after a message of which the network took only a part. The bytes that
  reach the receiver then have a gap: here the first three bytes of both messages are sent, and
  the rest of both stays in the queue, although the second message has begun.
\<close>

theorem zephyr_sendmmsg_gap:
  "\<exists>r s' us'. socket_dispatch_write (some_env\<lparr>zephyr := True\<rparr>) None (zephyr_sendmmsg (\<lambda>i m. MSG_SENT (min 3 (length (fst m)))))
     two_buffers (one_user 4 [100, 10, 10, 10] 1) = Some (r, s', us') \<and>
     zephyr_sendmmsg (\<lambda>i m. MSG_SENT (min 3 (length (fst m)))) (offered two_buffers) = SENT [3, 3] \<and>
     on_wire (offered two_buffers) [3, 3] = ''firsec'' \<and> out_bytes s' = ''stond''"
proof -
  let ?z = "zephyr_sendmmsg (\<lambda>i m. MSG_SENT (min 3 (length (fst m))))"
  let ?b = "\<lambda>bs. socket_buffer_new_internal [bs] 64"
  have z: "?z [(''first'', None), (''second'', None)] = SENT [3, 3]" by (simp add: zephyr_sendmmsg_def)
  have offer: "offered two_buffers = [(''first'', None), (''second'', None)]" by (rule two_buffers_ok(3))
  have ok: "sbuf_ok (?b ''first'')" "sbuf_ok (?b ''second'')"
    and bytes: "buffer_bytes (?b ''first'') = ''first''" "buffer_bytes (?b ''second'') = ''second''"
    by (simp_all add: socket_buffer_new_internal_def sbuf_ok_def buffer_bytes_def)
  from socket_buffer_consume_ok [OF ok(1), of 3] socket_buffer_consume_ok [OF ok(2), of 3] bytes obtain b1 b2 where
    "socket_buffer_consume (?b ''first'') 3 = Some (False, b1)" "buffer_bytes b1 = ''st''"
    "socket_buffer_consume (?b ''second'') 3 = Some (False, b2)" "buffer_bytes b2 = ''ond''" by auto
  moreover from this have "socket_sent two_buffers us [3, 3] [?b ''first'', ?b ''second''] = Some ([b1, b2], two_buffers, us)" for us
    by simp
  moreover have "s_queue two_buffers = [?b ''first'', ?b ''second'']" "\<not> s_hup_out two_buffers" "send_batch 0 (s_queue two_buffers) \<noteq> []"
    using two_buffers_ok(3) by (auto simp: some_socket_def)
  ultimately have "socket_dispatch_write (some_env\<lparr>zephyr := True\<rparr>) None ?z two_buffers (one_user 4 [100, 10, 10, 10] 1) =
      Some (SOCKET_OK, two_buffers\<lparr>s_queue := [b1, b2]\<rparr>, one_user 4 [100, 10, 10, 10] 1)"
    and "out_bytes (two_buffers\<lparr>s_queue := [b1, b2]\<rparr>) = ''stond''"
    using dispatch_write_part [of two_buffers ?z "[3, 3]"] z offer two_buffers_ok(5) by (auto simp: out_bytes_def)
  then show ?thesis unfolding offer z by (auto simp: on_wire_def)
qed

end
