(* ===== verification/Framing.thy ===== *)
theory Framing
  imports Socket
begin

text \<open>
  The input of a socket (\<open>socket_dequeue\<close>, \<open>socket_dispatch_read\<close> of \<open>src/dbus/socket.c\<close>): how the
  received byte stream is cut into messages. The abstract specification is a function on the
  stream alone; the detailed operations, with their buffers, targets and charges, refine it.
\<close>

section \<open>Releasing the input\<close>

lemma iq_charges_fds: "iq_charges iq = add_mset (charge_fds iq) (add_mset (pending_charge_fds iq)
    (add_mset (pending_charge_data iq) {#charge_data iq#}))"
  by (simp add: iq_charges_def add_mset_commute)

definition iq_empty :: "iqueue \<Rightarrow> bool" where
  "iq_empty iq \<longleftrightarrow> data_start iq = 0 \<and> data_end iq = 0 \<and> data_cursor iq = 0 \<and> iq_fds iq = None \<and> pending_data iq = None \<and>
     pending_copied iq = 0 \<and> pending_fds iq = None \<and> ch_usage (charge_fds iq) = None \<and>
     ch_usage (pending_charge_fds iq) = None \<and> ch_usage (pending_charge_data iq) = None"

lemma iqueue_flush_ok:
  assumes "accounts A us ext (iq_charges iq + C)"
  shows "\<exists>iq' us'. iqueue_flush iq us = Some (iq', us') \<and> accounts A us' ext (iq_charges iq' + C) \<and> iq_empty iq' \<and>
    iq_user iq' = iq_user iq \<and> iq_data iq' = iq_data iq \<and> iq_heap iq' = iq_heap iq \<and> iq_buffer iq' = iq_buffer iq \<and>
    charge_data iq' = charge_data iq"
proof -
  have "accounts A us ext (add_mset (charge_fds iq) (add_mset (pending_charge_fds iq) (add_mset (pending_charge_data iq)
      (add_mset (charge_data iq) C))))" using assms by (simp add: iq_charges_fds)
  from accounts_deinit [OF this] obtain c us1 where
    1: "user_charge_deinit us (charge_fds iq) = Some (c, us1)" "ch_usage c = None" "ch_charge c = 0"
      "accounts A us1 ext (add_mset (pending_charge_fds iq) (add_mset (pending_charge_data iq) (add_mset (charge_data iq) C)))"
    by blast
  from accounts_deinit [OF 1(4)] obtain pf us2 where
    2: "user_charge_deinit us1 (pending_charge_fds iq) = Some (pf, us2)" "ch_usage pf = None" "ch_charge pf = 0"
      "accounts A us2 ext (add_mset (pending_charge_data iq) (add_mset (charge_data iq) C))" by blast
  from accounts_deinit [OF 2(4)] obtain pd us3 where
    3: "user_charge_deinit us2 (pending_charge_data iq) = Some (pd, us3)" "ch_usage pd = None" "ch_charge pd = 0"
      "accounts A us3 ext (add_mset (charge_data iq) C)" by blast
  let ?iq = "iq\<lparr>data_start := 0, data_end := 0, data_cursor := 0, iq_fds := None, pending_data := None, pending_copied := 0,
    pending_fds := None, charge_fds := c, pending_charge_fds := pf, pending_charge_data := pd\<rparr>"
  have "iqueue_flush iq us = Some (?iq, us3)" using 1(1) 2(1) 3(1) by (simp add: iqueue_flush_def)
  moreover have "accounts A us3 ext (iq_charges ?iq + C)"
    using 1(2,3) 2(2,3) 3(2-4) by (simp add: iq_charges_fds accounts_unused)
  ultimately show ?thesis using 1(2) 2(2) 3(2) by (auto simp: iq_empty_def)
qed

lemma iq_empty_inv:
  assumes "iq_empty iq" "data_size iq = (if iq_heap iq then IQUEUE_LINE_MAX else IQUEUE_RECV_MAX)"
    "iq_heap iq \<longrightarrow> length (iq_buffer iq) = IQUEUE_RECV_MAX"
  shows "line_inv iq" "data_inv iq" "stream iq = []"
  using assms by (simp_all add: iq_empty_def line_inv_def data_inv_def Queue.buffer_ok_def stream_def unread_def pending_size_def)

lemma socket_close_ok:
  assumes "accounts A us ext (socket_charges s + C)" "can_shutdown env" "flags_ok s" "Queue.buffer_ok (s_in s)"
  shows "\<exists>s' us'. socket_close env s us = Some (s', us') \<and> accounts A us' ext (socket_charges s' + C) \<and> flags_ok s' \<and>
    iq_empty (s_in s') \<and> line_inv (s_in s') \<and> data_inv (s_in s') \<and> stream (s_in s') = [] \<and> s_message s' = None \<and>
    s_hup_in s' \<and> s_shutdown s' \<and> s_queue s' = s_queue s \<and> s_pending s' = s_pending s \<and> s_user s' = s_user s \<and>
    iq_user (s_in s') = iq_user (s_in s) \<and> charge_data (s_in s') = charge_data (s_in s) \<and>
    (s_queue s = [] \<and> s_pending s = [] \<longrightarrow> s_reset s')"
proof -
  have "accounts A us ext (socket_charges (socket_hangup_input s) + C)" "flags_ok (socket_hangup_input s)"
    using assms(1,3) by simp_all
  from shutdown_ok [OF this(1) assms(2) this(2)] obtain s1 us1 where
    1: "socket_shutdown env (socket_hangup_input s) us = Some (s1, us1)" "accounts A us1 ext (socket_charges s1 + C)" "flags_ok s1"
      "input_kept (socket_hangup_input s) s1" "s_shutdown s1" "s_queue s1 = s_queue s" "s_queue s = [] \<longrightarrow> s_hup_out s1" by auto
  have "accounts A us1 ext (iq_charges (s_in s1) + (out_charges (s_queue s1) + out_charges (s_pending s1) + C))"
    using 1(2) by (simp add: socket_charges_def ac_simps)
  from iqueue_flush_ok [OF this] obtain iq us2 where
    2: "iqueue_flush (s_in s1) us1 = Some (iq, us2)" "iq_empty iq" "iq_user iq = iq_user (s_in s1)"
      "iq_data iq = iq_data (s_in s1)" "iq_heap iq = iq_heap (s_in s1)" "iq_buffer iq = iq_buffer (s_in s1)"
      "charge_data iq = charge_data (s_in s1)"
      "accounts A us2 ext (iq_charges iq + (out_charges (s_queue s1) + out_charges (s_pending s1) + C))" by blast
  let ?s = "socket_might_reset (s1\<lparr>s_in := iq, s_message := None\<rparr>)"
  have k: "s_in s1 = s_in s" "s_pending s1 = s_pending s" "s_user s1 = s_user s" "s_hup_in s1"
    using 1(4) by (simp_all add: input_kept_def)
  have inv: "line_inv iq" "data_inv iq" "stream iq = []"
    using iq_empty_inv [OF 2(2)] assms(4) 2(4-6) by (simp_all add: Queue.buffer_ok_def data_size_def k)
  have "socket_close env s us = Some (?s, us2)"
    using 1(1) 2(1) by (simp add: socket_close_def socket_discard_input_def)
  moreover have "accounts A us2 ext (socket_charges ?s + C)"
    using 2(8) unfolding might_reset_sel by (simp add: socket_charges_def ac_simps)
  moreover have "flags_ok ?s" using 1(3) by (intro flags_might_reset) (auto simp: flags_ok_def)
  moreover have "s_reset ?s" if "s_queue s = [] \<and> s_pending s = []"
    using that 1(7) k 2(2) by (auto simp: socket_might_reset_def iq_empty_def iqueue_is_eof_def)
  ultimately show ?thesis using 1(5,6) 2 k inv by auto
qed

section \<open>Targets\<close>

text \<open>The queue can take a target: no message is pending, and its charge can be used (again).\<close>

definition target_usable :: "iqueue \<Rightarrow> bool" where
  "target_usable iq \<longleftrightarrow> usable (iq_user iq) None USER_SLOT_BYTES (pending_charge_data iq)"

lemma deinit_unused_usage: "user_charge_deinit us ch = Some (ch', us') \<Longrightarrow> ch_usage ch' = None"
  by (auto simp: user_charge_deinit_def split: option.splits bind_splits if_splits)

lemma pop_data_keeps:
  assumes "iqueue_pop_data want_fds iq us = Some (r, res, iq', us')"
  shows "keeps us us'" "iq_user iq' = iq_user iq" "charge_data iq' = charge_data iq"
    "pending_charge_data iq' = pending_charge_data iq \<or> ch_usage (pending_charge_data iq') = None"
    "res = None \<Longrightarrow> data_inv iq \<Longrightarrow> pending_size iq' = pending_size iq \<and> (pending_data iq' = None) = (pending_data iq = None)"
    "iq_fds iq' = iq_fds iq \<or> iq_fds iq' = None"
proof -
  obtain d where d: "pending_data iq = Some d" using assms by (auto simp: iqueue_pop_data_def split: bind_splits)
  define iq1 where "iq1 = (if data_end iq - data_start iq > 0 then iqueue_copy iq d else iq)"
  have c: "iq_user iq1 = iq_user iq" "charge_data iq1 = charge_data iq" "pending_charge_data iq1 = pending_charge_data iq"
    "iq_fds iq1 = iq_fds iq"
    by (simp_all add: iq1_def iqueue_copy_def Let_def)
  have f: "iq_fds (adopt_fds x) = iq_fds x \<or> iq_fds (adopt_fds x) = None" for x by (simp add: adopt_fds_def)
  have u: "iq_user (adopt_fds x) = iq_user x" "charge_data (adopt_fds x) = charge_data x"
    "pending_charge_data (adopt_fds x) = pending_charge_data x" "pending_data (adopt_fds x) = pending_data x" for x
    by (simp_all add: adopt_fds_def)
  note p = assms [unfolded iqueue_pop_data_def d Let_def Option.bind.bind_lunit iq1_def [symmetric] adopt_fds_def [symmetric]]
  show "keeps us us'" using p by (auto split: bind_splits if_splits dest!: keeps_deinit intro: keeps_trans)
  show "iq_user iq' = iq_user iq" "charge_data iq' = charge_data iq"
    using p c u by (auto split: bind_splits if_splits)
  show "pending_charge_data iq' = pending_charge_data iq \<or> ch_usage (pending_charge_data iq') = None"
    using p c u by (auto split: bind_splits if_splits dest!: deinit_unused_usage)
  show "iq_fds iq' = iq_fds iq \<or> iq_fds iq' = None"
    using p c(4) f [of iq1] by (auto split: bind_splits if_splits)
  show "pending_size iq' = pending_size iq \<and> (pending_data iq' = None) = (pending_data iq = None)"
    if "res = None" "data_inv iq"
  proof -
    from copy_ok [OF that(2) d] obtain d' where "pending_data iq1 = Some d'" "length d' = length d"
      unfolding iq1_def by metis
    with that(1) p u d show ?thesis by (auto simp: pending_size_def split: bind_splits if_splits)
  qed
qed

lemma pop_data_accounts:
  assumes inv: "data_inv iq" "fds_inv iq" and acc: "accounts A us ext (iq_charges iq + C)" and d: "pending_data iq = Some d"
  shows "\<exists>r res iq' us'. iqueue_pop_data want_fds iq us = Some (r, res, iq', us') \<and> data_inv iq' \<and> fds_inv iq' \<and>
    accounts A us' ext (iq_charges iq' + C) \<and>
    (case res of
       Some (m, fds) \<Rightarrow> r = IQUEUE_OK \<and> length m = length d \<and> stream iq = m @ stream iq' \<and> pending_data iq' = None
     | None \<Rightarrow> stream iq' = stream iq \<and> (\<exists>d'. pending_data iq' = Some d' \<and> length d' = length d) \<and>
         (r = IQUEUE_E_PENDING \<and> length (stream iq) < length d \<or> r = IQUEUE_E_VIOLATION \<and> iq_fds iq \<noteq> None)) \<and>
    iq_user iq' = iq_user iq \<and> (target_usable iq \<longrightarrow> target_usable iq') \<and> (iq_fds iq = None \<longrightarrow> iq_fds iq' = None)"
proof -
  from pop_data_ok [OF inv accounts_user_inv [OF acc] d, of want_fds] obtain r res iq' us' where
    p: "iqueue_pop_data want_fds iq us = Some (r, res, iq', us')" "data_inv iq'" "fds_inv iq'" "user_inv us' ext (iq_charges iq' + C)"
      "case res of
       Some (m, fds) \<Rightarrow> r = IQUEUE_OK \<and> length m = length d \<and> stream iq = m @ stream iq' \<and> pending_data iq' = None \<and>
         fds = (if \<not> want_fds then None else if unread iq' = [] \<and> iq_fds iq \<noteq> None then iq_fds iq else pending_fds iq)
     | None \<Rightarrow> stream iq' = stream iq \<and>
         (r = IQUEUE_E_PENDING \<and> length (stream iq) < length d \<and> unread iq' = [] \<or>
          r = IQUEUE_E_VIOLATION \<and> iq_fds iq \<noteq> None \<and> pending_fds iq \<noteq> None)" by blast
  note k = pop_data_keeps [OF p(1)]
  have "accounts A us' ext (iq_charges iq' + C)" by (rule accounts_keeps [OF acc k(1) p(4)])
  moreover have "res = None \<Longrightarrow> \<exists>d'. pending_data iq' = Some d' \<and> length d' = length d"
    using k(5) d inv(1) by (auto simp: pending_size_def split: option.splits)
  moreover have "target_usable iq'" if "target_usable iq"
    using that k(2,4) by (auto simp: target_usable_def usable_def split: option.splits)
  moreover have "iq_fds iq' = None" if "iq_fds iq = None" using k(6) that by simp
  ultimately show ?thesis using p k(2) by (cases res) auto
qed

lemma set_target_ok:
  assumes inv: "data_inv iq" "fds_inv iq" and acc: "accounts A us ext (iq_charges iq + C)" and free: "pending_data iq = None"
    and use: "target_usable iq" "payer A ext (iq_user iq) None"
  shows "\<exists>r iq' us'. iqueue_set_target mem log_ok iq us d = Some (r, iq', us') \<and> data_inv iq' \<and> fds_inv iq' \<and>
    accounts A us' ext (iq_charges iq' + C) \<and> target_usable iq' \<and> iq_user iq' = iq_user iq \<and> charge_data iq' = charge_data iq \<and>
    stream iq' = stream iq \<and> pending_data iq' = (if r = IQUEUE_OK then Some d else None) \<and> iq_fds iq' = iq_fds iq"
proof -
  have "accounts A us ext (add_mset (pending_charge_data iq) (add_mset (charge_fds iq) (add_mset (pending_charge_fds iq)
      (add_mset (charge_data iq) C))))" using acc by (simp add: iq_charges_fds add_mset_commute)
  from accounts_charge [OF this use(2), of USER_SLOT_BYTES mem log_ok "of_nat (length d)"] use(1) obtain r ch us' where
    c: "user_charge mem log_ok us (iq_user iq) (pending_charge_data iq) None USER_SLOT_BYTES (of_nat (length d)) = Some (r, ch, us')"
      "usable (iq_user iq) None USER_SLOT_BYTES ch"
      "accounts A us' ext (add_mset ch (add_mset (charge_fds iq) (add_mset (pending_charge_fds iq) (add_mset (charge_data iq) C))))"
    by (auto simp: target_usable_def USER_SLOT_BYTES_def)
  define iq' where "iq' = (if r = USER_OK then iq\<lparr>pending_charge_data := ch, pending_data := Some d, pending_copied := 0\<rparr>
    else iq\<lparr>pending_charge_data := ch\<rparr>)"
  define q where "q = (if r = USER_OK then IQUEUE_OK else if r = USER_E_QUOTA then IQUEUE_E_QUOTA else IQUEUE_ERR r)"
  have z: "pending_copied iq = 0" using inv(1) free by (simp add: data_inv_def pending_size_def)
  have eq: "iqueue_set_target mem log_ok iq us d = Some (q, iq', us')"
    using c(1) free by (simp add: iqueue_set_target_def q_def iq'_def)
  have "data_inv iq'" using inv(1) z by (auto simp: iq'_def data_inv_def Queue.buffer_ok_def data_size_def pending_size_def)
  moreover have "fds_inv iq'" using inv(2) by (simp add: fds_inv_def iq'_def)
  moreover have "accounts A us' ext (iq_charges iq' + C)" using c(3) by (simp add: iq_charges_fds add_mset_commute iq'_def)
  moreover have "stream iq' = stream iq" using free z by (simp add: stream_def unread_def iq'_def)
  moreover have "target_usable iq'" using c(2) by (simp add: target_usable_def iq'_def)
  moreover have "pending_data iq' = (if q = IQUEUE_OK then Some d else None)" using free by (simp add: iq'_def q_def)
  moreover have "iq_user iq' = iq_user iq" "charge_data iq' = charge_data iq" "iq_fds iq' = iq_fds iq" by (simp_all add: iq'_def)
  ultimately show ?thesis using eq by blast
qed

section \<open>The specification\<close>

text \<open>
  The stream is a sequence of messages, each of which announces its size in its first sixteen
  bytes.
\<close>

datatype frame = NEED_MORE | BROKEN | FRAME string

definition next_frame :: "string \<Rightarrow> frame" where
  "next_frame st =
     (if length st < 16 then NEED_MORE
      else case message_new_incoming True (\<lambda>_. CHR 0x00) (take 16 st) of
        Inl _ \<Rightarrow> BROKEN
      | Inr m \<Rightarrow> if length st < m_n_data m then NEED_MORE else FRAME (take (m_n_data m) st))"

lemma incoming_message:
  assumes "message_new_incoming mem memory h = Inr m" "length h = 16"
  shows "take 16 (m_data m) = h" "length (m_data m) = m_n_data m" "16 \<le> m_n_data m"
    "\<exists>m'. message_new_incoming True (\<lambda>_. CHR 0x00) h = Inr m' \<and> m_n_data m' = m_n_data m"
proof -
  have "16 \<le> c_align_to (16 + n) 8 + k" for n k using c_align_to_8(1) [of "16 + n"] by simp
  with assms show "take 16 (m_data m) = h" "length (m_data m) = m_n_data m" "16 \<le> m_n_data m"
    "\<exists>m'. message_new_incoming True (\<lambda>_. CHR 0x00) h = Inr m' \<and> m_n_data m' = m_n_data m"
    by (auto simp: message_new_incoming_def Let_def split: if_splits)
qed

lemma incoming_broken:
  assumes "message_new_incoming mem memory h = Inl e" "e = MESSAGE_E_CORRUPT_HEADER \<or> e = MESSAGE_E_TOO_LARGE"
  shows "\<exists>e'. message_new_incoming True (\<lambda>_. CHR 0x00) h = Inl e'"
  using assms by (auto simp: message_new_incoming_def Let_def split: if_splits)

section \<open>The refinement\<close>

definition in_stream :: "socket \<Rightarrow> string" where
  "in_stream s = (case s_message s of None \<Rightarrow> [] | Some m \<Rightarrow> take 16 (m_data m)) @ stream (s_in s)"

definition message_pending :: "message \<Rightarrow> iqueue \<Rightarrow> bool" where
  "message_pending m iq \<longleftrightarrow> (\<exists>mem memory h. message_new_incoming mem memory h = Inr m \<and> length h = 16) \<and>
     (\<exists>d. pending_data iq = Some d \<and> length d = m_n_data m - 16)"

definition in_inv :: "uid set \<Rightarrow> (uid \<Rightarrow> nat) \<Rightarrow> user_charge multiset \<Rightarrow> socket \<Rightarrow> user_registry \<Rightarrow> bool" where
  "in_inv A ext C s us \<longleftrightarrow> data_inv (s_in s) \<and> fds_inv (s_in s) \<and> target_usable (s_in s) \<and> payer A ext (iq_user (s_in s)) None \<and>
     accounts A us ext (socket_charges s + C) \<and> flags_ok s \<and>
     (case s_message s of
        None \<Rightarrow> (\<forall>d. pending_data (s_in s) = Some d \<longrightarrow> length d = 16)
      | Some m \<Rightarrow> message_pending m (s_in s))"

text \<open>What \<open>socket_dequeue\<close> promises for a stream \<open>st\<close>, with or without waiting descriptors.\<close>

definition dequeue_spec :: "string \<Rightarrow> bool \<Rightarrow> socket_ret \<Rightarrow> message option \<Rightarrow> socket \<Rightarrow> bool" where
  "dequeue_spec st fds r mo s' \<longleftrightarrow>
     (case mo of
        Some m \<Rightarrow> r = SOCKET_OK \<and> next_frame st = FRAME (m_data m) \<and> st = m_data m @ in_stream s'
      | None \<Rightarrow>
          (r = SOCKET_OK \<longrightarrow> \<not> s_hup_in s' \<and> in_stream s' = st \<and> next_frame st = NEED_MORE) \<and>
          (r = SOCKET_E_EOF \<longrightarrow> s_hup_in s' \<and>
             (in_stream s' = st \<and> next_frame st = NEED_MORE \<or>
              in_stream s' = [] \<and> s_shutdown s' \<and> (next_frame st = BROKEN \<or> fds))))"

lemma in_inv_might_reset [simp]: "in_inv A ext C s us \<Longrightarrow> in_inv A ext C (socket_might_reset s) us"
  by (simp add: in_inv_def split: option.splits)

lemma in_stream_might_reset [simp]: "in_stream (socket_might_reset s) = in_stream s"
  by (simp add: in_stream_def)

lemma nodata_ok:
  assumes "in_inv A ext C s us" "in_stream s = st" "next_frame st = NEED_MORE"
  shows "\<exists>r mo s' us'. socket_nodata s us = Some (r, mo, s', us') \<and> in_inv A ext C s' us' \<and> s_queue s' = s_queue s \<and>
    dequeue_spec st fds r mo s'"
  using assms by (auto simp: socket_nodata_def dequeue_spec_def Let_def)

lemma broken_ok:
  assumes "data_inv (s_in s)" "payer A ext (iq_user (s_in s)) None" "accounts A us ext (socket_charges s + C)" "flags_ok s"
    and env: "can_shutdown env" and bad: "next_frame st = BROKEN \<or> fds"
  shows "\<exists>r mo s' us'. socket_broken env s us = Some (r, mo, s', us') \<and> in_inv A ext C s' us' \<and> s_queue s' = s_queue s \<and>
    dequeue_spec st fds r mo s'"
proof -
  have "Queue.buffer_ok (s_in s)" using assms(1) by (simp add: data_inv_def)
  from socket_close_ok [OF assms(3) env assms(4) this] obtain s' us' where
    c: "socket_close env s us = Some (s', us')" "accounts A us' ext (socket_charges s' + C)" "flags_ok s'" "iq_empty (s_in s')"
      "data_inv (s_in s')" "stream (s_in s') = []" "s_message s' = None" "s_hup_in s'" "s_shutdown s'" "s_queue s' = s_queue s"
      "iq_user (s_in s') = iq_user (s_in s)" by blast
  have "fds_inv (s_in s')" "target_usable (s_in s')"
    using c(4) by (auto simp: iq_empty_def fds_inv_def target_usable_def usable_def split: option.splits)
  with c assms(2) have "in_inv A ext C s' us'" by (simp add: in_inv_def iq_empty_def)
  with c bad show ?thesis by (auto simp: socket_broken_def dequeue_spec_def in_stream_def)
qed

lemma next_frame_message:
  assumes "message_new_incoming mem memory h = Inr m" "length h = 16"
  shows "length st < m_n_data m - 16 \<Longrightarrow> next_frame (h @ st) = NEED_MORE"
    and "length bytes = m_n_data m - 16 \<Longrightarrow> next_frame (h @ bytes @ st) = FRAME (h @ bytes)"
proof -
  from incoming_message [OF assms] obtain m' where
    m': "16 \<le> m_n_data m" "message_new_incoming True (\<lambda>_. CHR 0x00) h = Inr m'" "m_n_data m' = m_n_data m" by blast
  show "next_frame (h @ st) = NEED_MORE" if "length st < m_n_data m - 16"
    using that assms(2) m' by (simp add: next_frame_def)
  show "next_frame (h @ bytes @ st) = FRAME (h @ bytes)" if "length bytes = m_n_data m - 16"
    using that assms(2) m' by (simp add: next_frame_def)
qed

lemma socket_charges_in: "socket_charges s = iq_charges (s_in s) + (out_charges (s_queue s) + out_charges (s_pending s))"
  by (simp add: socket_charges_def ac_simps)

lemma dequeue_rest_ok:
  assumes inv: "in_inv A ext C s us" and m: "s_message s = Some m" and env: "can_shutdown env"
  shows "\<exists>r mo s' us'. socket_dequeue_rest env s us = Some (r, mo, s', us') \<and> in_inv A ext C s' us' \<and> s_queue s' = s_queue s \<and>
    dequeue_spec (in_stream s) (iq_fds (s_in s) \<noteq> None) r mo s'"
proof -
  from inv m obtain mem memory h d where
    h: "message_new_incoming mem memory h = Inr m" "length h = 16" "pending_data (s_in s) = Some d" "length d = m_n_data m - 16"
    by (auto simp: in_inv_def message_pending_def)
  have st: "in_stream s = h @ stream (s_in s)" using m incoming_message(1) [OF h(1,2)] by (simp add: in_stream_def)
  have i: "data_inv (s_in s)" "fds_inv (s_in s)" "target_usable (s_in s)" "payer A ext (iq_user (s_in s)) None" "flags_ok s"
    "accounts A us ext (iq_charges (s_in s) + (out_charges (s_queue s) + out_charges (s_pending s) + C))"
    using inv by (simp_all add: in_inv_def socket_charges_in ac_simps)
  from pop_data_accounts [OF i(1,2,6) h(3), of True] obtain r res iq us' where
    p: "iqueue_pop_data True (s_in s) us = Some (r, res, iq, us')" "data_inv iq" "fds_inv iq"
      "accounts A us' ext (iq_charges iq + (out_charges (s_queue s) + out_charges (s_pending s) + C))"
      "case res of
       Some (bs, fds) \<Rightarrow> r = IQUEUE_OK \<and> length bs = length d \<and> stream (s_in s) = bs @ stream iq \<and> pending_data iq = None
     | None \<Rightarrow> stream iq = stream (s_in s) \<and> (\<exists>d'. pending_data iq = Some d' \<and> length d' = length d) \<and>
         (r = IQUEUE_E_PENDING \<and> length (stream (s_in s)) < length d \<or> r = IQUEUE_E_VIOLATION \<and> iq_fds (s_in s) \<noteq> None)"
      "iq_user iq = iq_user (s_in s)" "target_usable iq"
    using i(3) by blast
  let ?s = "s\<lparr>s_in := iq\<rparr>"
  have acc: "accounts A us' ext (socket_charges ?s + C)" using p(4) by (simp add: socket_charges_in ac_simps)
  have fl: "flags_ok ?s" using i(5) by (simp add: flags_ok_def)
  show ?thesis
  proof (cases res)
    case (Some x)
    then obtain bs fds where x: "res = Some (bs, fds)" by (cases x) auto
    with p(5) have bs: "length bs = m_n_data m - 16" "stream (s_in s) = bs @ stream iq" "pending_data iq = None" using h(4) by auto
    let ?m = "m\<lparr>m_data := h @ bs, m_fds := fds\<rparr>"
    have "socket_dequeue_rest env s us = Some (SOCKET_OK, Some ?m, ?s\<lparr>s_message := None\<rparr>, us')"
      using m x p(1) incoming_message(1) [OF h(1,2)] by (simp add: socket_dequeue_rest_def)
    moreover have "in_inv A ext C (?s\<lparr>s_message := None\<rparr>) us'"
      using p(2,3,6,7) acc fl bs(3) i(4) by (simp add: in_inv_def socket_charges_def flags_ok_def)
    moreover have "dequeue_spec (in_stream s) (iq_fds (s_in s) \<noteq> None) SOCKET_OK (Some ?m) (?s\<lparr>s_message := None\<rparr>)"
      using next_frame_message(2) [OF h(1,2) bs(1), of "stream iq"] st bs(2) by (simp add: dequeue_spec_def in_stream_def)
    ultimately show ?thesis by auto
  next
    case None
    with p(5) obtain d' where d': "stream iq = stream (s_in s)" "pending_data iq = Some d'" "length d' = m_n_data m - 16"
      "r = IQUEUE_E_PENDING \<and> length (stream (s_in s)) < m_n_data m - 16 \<or> r = IQUEUE_E_VIOLATION \<and> iq_fds (s_in s) \<noteq> None"
      using h(4) by auto
    have inv': "in_inv A ext C ?s us'"
      using p(2,3,6,7) acc fl m d'(2,3) h(1,2) i(4) by (auto simp: in_inv_def message_pending_def)
    show ?thesis
    proof (cases "r = IQUEUE_E_PENDING")
      case True
      with d'(4) have "length (stream (s_in s)) < m_n_data m - 16" by auto
      with next_frame_message(1) [OF h(1,2)] st have "next_frame (in_stream s) = NEED_MORE" by simp
      moreover have "in_stream ?s = in_stream s" using d'(1) by (simp add: in_stream_def)
      ultimately show ?thesis using nodata_ok [OF inv'] True None m p(1) by (simp add: socket_dequeue_rest_def)
    next
      case False
      with d'(4) have v: "r = IQUEUE_E_VIOLATION" "iq_fds (s_in s) \<noteq> None" by auto
      have "payer A ext (iq_user (s_in ?s)) None" "data_inv (s_in ?s)" using i(4) p(2,6) by simp_all
      from broken_ok [OF this(2,1) acc fl env] v None m p(1) show ?thesis by (simp add: socket_dequeue_rest_def)
    qed
  qed
qed

lemma dequeue_spec_mono: "dequeue_spec st f r mo s' \<Longrightarrow> (f \<Longrightarrow> f') \<Longrightarrow> dequeue_spec st f' r mo s'"
  by (auto simp: dequeue_spec_def split: option.splits)

lemma dequeue_spec_other: "r \<noteq> SOCKET_OK \<Longrightarrow> r \<noteq> SOCKET_E_EOF \<Longrightarrow> dequeue_spec st f r None s'"
  by (simp add: dequeue_spec_def)

text \<open>After the header: a message object, its target, and the rest.\<close>

lemma dequeue_message_ok:
  assumes inv: "in_inv A ext C s us" and m: "s_message s = None" "pending_data (s_in s) = None"
    and h: "message_new_incoming mem memory h = Inr msg" "length h = 16" and env: "can_shutdown env"
  shows "\<exists>r mo s' us'. do {
      (r, iq, us) \<leftarrow> iqueue_set_target al log (s_in s) us (drop 16 (m_data msg));
      let s = s\<lparr>s_in := iq\<rparr>;
      if r \<noteq> IQUEUE_OK then Some (if r = IQUEUE_E_QUOTA then SOCKET_E_QUOTA else SOCKET_FAILED, None, s, us)
      else socket_dequeue_rest env (s\<lparr>s_message := Some msg\<rparr>) us } = Some (r, mo, s', us') \<and>
    in_inv A ext C s' us' \<and> s_queue s' = s_queue s \<and>
    dequeue_spec (h @ stream (s_in s)) (iq_fds (s_in s) \<noteq> None) r mo s'"
proof -
  have i: "data_inv (s_in s)" "fds_inv (s_in s)" "target_usable (s_in s)" "payer A ext (iq_user (s_in s)) None" "flags_ok s"
    "accounts A us ext (iq_charges (s_in s) + (out_charges (s_queue s) + out_charges (s_pending s) + C))"
    using inv by (simp_all add: in_inv_def socket_charges_in ac_simps)
  from set_target_ok [OF i(1,2,6) m(2) i(3,4), of al log "drop 16 (m_data msg)"] obtain r iq us' where
    t: "iqueue_set_target al log (s_in s) us (drop 16 (m_data msg)) = Some (r, iq, us')" "data_inv iq" "fds_inv iq"
      "accounts A us' ext (iq_charges iq + (out_charges (s_queue s) + out_charges (s_pending s) + C))" "target_usable iq"
      "iq_user iq = iq_user (s_in s)" "stream iq = stream (s_in s)" "iq_fds iq = iq_fds (s_in s)"
      "pending_data iq = (if r = IQUEUE_OK then Some (drop 16 (m_data msg)) else None)" by blast
  show ?thesis
  proof (cases "r = IQUEUE_OK")
    case False
    then have "in_inv A ext C (s\<lparr>s_in := iq\<rparr>) us'"
      using t i(4,5) m(1) by (simp add: in_inv_def socket_charges_in ac_simps flags_ok_def)
    with False t(1) show ?thesis by (auto simp: dequeue_spec_other)
  next
    case True
    let ?s = "s\<lparr>s_in := iq, s_message := Some msg\<rparr>"
    have "in_inv A ext C ?s us'"
      using t i(4,5) True h incoming_message(2,3) [OF h]
      by (auto simp: in_inv_def message_pending_def socket_charges_in ac_simps flags_ok_def)
    from dequeue_rest_ok [OF this _ env, of msg] have
      "\<exists>r mo s' us''. socket_dequeue_rest env ?s us' = Some (r, mo, s', us'') \<and> in_inv A ext C s' us'' \<and> s_queue s' = s_queue s \<and>
        dequeue_spec (h @ stream (s_in s)) (iq_fds (s_in s) \<noteq> None) r mo s'"
      using t(7,8) incoming_message(1) [OF h] by (simp add: in_stream_def)
    with True t(1) show ?thesis by simp
  qed
qed

lemma dequeue_header_ok:
  assumes inv: "in_inv A ext C s us" and m: "s_message s = None" "pending_data (s_in s) \<noteq> None" and env: "can_shutdown env"
  shows "\<exists>r mo s' us'. socket_dequeue_header env s us = Some (r, mo, s', us') \<and> in_inv A ext C s' us' \<and> s_queue s' = s_queue s \<and>
    dequeue_spec (in_stream s) (iq_fds (s_in s) \<noteq> None) r mo s'"
proof -
  from inv m obtain d where d: "pending_data (s_in s) = Some d" "length d = 16" by (auto simp: in_inv_def)
  have st: "in_stream s = stream (s_in s)" using m(1) by (simp add: in_stream_def)
  have i: "data_inv (s_in s)" "fds_inv (s_in s)" "target_usable (s_in s)" "payer A ext (iq_user (s_in s)) None" "flags_ok s"
    "accounts A us ext (iq_charges (s_in s) + (out_charges (s_queue s) + out_charges (s_pending s) + C))"
    using inv by (simp_all add: in_inv_def socket_charges_in ac_simps)
  from pop_data_accounts [OF i(1,2,6) d(1), of False] obtain r res iq us' where
    p: "iqueue_pop_data False (s_in s) us = Some (r, res, iq, us')" "data_inv iq" "fds_inv iq"
      "accounts A us' ext (iq_charges iq + (out_charges (s_queue s) + out_charges (s_pending s) + C))"
      "case res of
       Some (bs, fds) \<Rightarrow> r = IQUEUE_OK \<and> length bs = length d \<and> stream (s_in s) = bs @ stream iq \<and> pending_data iq = None
     | None \<Rightarrow> stream iq = stream (s_in s) \<and> (\<exists>d'. pending_data iq = Some d' \<and> length d' = length d) \<and>
         (r = IQUEUE_E_PENDING \<and> length (stream (s_in s)) < length d \<or> r = IQUEUE_E_VIOLATION \<and> iq_fds (s_in s) \<noteq> None)"
      "iq_user iq = iq_user (s_in s)" "target_usable iq" "iq_fds (s_in s) = None \<longrightarrow> iq_fds iq = None"
    using i(3) by (elim exE conjE) (rule that, (assumption | simp)+)
  let ?s = "s\<lparr>s_in := iq\<rparr>"
  have acc: "accounts A us' ext (socket_charges ?s + C)" using p(4) by (simp add: socket_charges_in ac_simps)
  have fl: "flags_ok ?s" using i(5) by (simp add: flags_ok_def)
  have pay: "payer A ext (iq_user (s_in ?s)) None" "data_inv (s_in ?s)" using i(4) p(2,6) by simp_all
  have inv': "in_inv A ext C ?s us'" using p(2,3,5-7) acc fl m(1) d(2) pay(1) by (auto simp: in_inv_def split: option.splits)
  note broken = broken_ok [OF pay(2,1) acc fl env]
  show ?thesis
  proof (cases res)
    case None
    show ?thesis
    proof (cases "r = IQUEUE_E_PENDING")
      case True
      with None p(5) d(2) st have "next_frame (in_stream s) = NEED_MORE" "in_stream ?s = in_stream s"
        using m(1) by (auto simp: next_frame_def in_stream_def)
      with nodata_ok [OF inv'] True None p(1) show ?thesis by (simp add: socket_dequeue_header_def)
    next
      case False
      with None p(5) have "r = IQUEUE_E_VIOLATION" "iq_fds (s_in s) \<noteq> None" by auto
      with broken None p(1) show ?thesis by (simp add: socket_dequeue_header_def)
    qed
  next
    case (Some x)
    then obtain h fds where x: "res = Some (h, fds)" by (cases x) auto
    with p(5) d(2) have h: "length h = 16" "stream (s_in s) = h @ stream iq" "pending_data iq = None" by auto
    show ?thesis
    proof (cases "message_new_incoming (alloc env) (message_memory env) h")
      case (Inl e)
      show ?thesis
      proof (cases "e = MESSAGE_E_CORRUPT_HEADER \<or> e = MESSAGE_E_TOO_LARGE")
        case True
        from incoming_broken [OF Inl True] have "next_frame (in_stream s) = BROKEN"
          using h(1,2) st by (auto simp: next_frame_def)
        with broken True Inl x p(1) show ?thesis by (simp add: socket_dequeue_header_def)
      next
        case False
        with inv' Inl x p(1) show ?thesis by (auto simp: socket_dequeue_header_def dequeue_spec_other)
      qed
    next
      case (Inr msg)
      from dequeue_message_ok [OF inv' _ _ Inr h(1) env, of "alloc_usage1 env" "log_works env"] m(1) h(3) st h(2) p(1,8) x Inr
      show ?thesis by (auto simp: socket_dequeue_header_def intro: dequeue_spec_mono)
    qed
  qed
qed

section \<open>Properties of the input\<close>

lemma socket_dequeue_ok:
  assumes "in_inv A ext C s us" "can_shutdown env" "length header_memory = 16"
  shows "\<exists>r mo s' us'. socket_dequeue env header_memory s us = Some (r, mo, s', us') \<and> in_inv A ext C s' us' \<and>
    s_queue s' = s_queue s \<and> dequeue_spec (in_stream s) (iq_fds (s_in s) \<noteq> None) r mo s'"
proof (cases "pending_data (s_in s) = None")
  case False
  with dequeue_header_ok [OF assms(1) _ False assms(2)] dequeue_rest_ok [OF assms(1) _ assms(2)] show ?thesis
    by (cases "s_message s") (auto simp: socket_dequeue_def)
next
  case True
  have m: "s_message s = None" using assms(1) True by (auto simp: in_inv_def message_pending_def split: option.splits)
  have i: "data_inv (s_in s)" "fds_inv (s_in s)" "target_usable (s_in s)" "payer A ext (iq_user (s_in s)) None" "flags_ok s"
    "accounts A us ext (iq_charges (s_in s) + (out_charges (s_queue s) + out_charges (s_pending s) + C))"
    using assms(1) by (simp_all add: in_inv_def socket_charges_in ac_simps)
  from set_target_ok [OF i(1,2,6) True i(3,4), of "alloc_usage0 env" "log_works env" header_memory] obtain r iq us' where
    t: "iqueue_set_target (alloc_usage0 env) (log_works env) (s_in s) us header_memory = Some (r, iq, us')" "data_inv iq" "fds_inv iq"
      "accounts A us' ext (iq_charges iq + (out_charges (s_queue s) + out_charges (s_pending s) + C))" "target_usable iq"
      "iq_user iq = iq_user (s_in s)" "stream iq = stream (s_in s)" "iq_fds iq = iq_fds (s_in s)"
      "pending_data iq = (if r = IQUEUE_OK then Some header_memory else None)" by blast
  let ?s = "s\<lparr>s_in := iq\<rparr>"
  have inv: "in_inv A ext C ?s us'"
    using t i(4,5) m assms(3) by (simp add: in_inv_def socket_charges_in ac_simps flags_ok_def)
  show ?thesis
  proof (cases "r = IQUEUE_OK")
    case False
    with True t(1) inv show ?thesis by (auto simp: socket_dequeue_def dequeue_spec_other)
  next
    case ok: True
    have "in_stream ?s = in_stream s" using t(7) by (simp add: in_stream_def m)
    with dequeue_header_ok [OF inv _ _ assms(2)] ok True t(1,8,9) m show ?thesis by (simp add: socket_dequeue_def)
  qed
qed

text \<open>
  C35: the received stream is cut into messages as it announces them. \<open>socket_dequeue\<close> fails no
  assertion and keeps the accounts and the invariant, and it refines the specification: a
  message that it returns consists of exactly the first bytes of the stream, as many as they
  announce, and the rest of the stream stays; it returns none and success only if the stream
  is incomplete and open; it reports the end only if the stream is incomplete and closed, or if
  it closes the socket because the stream is broken or a second set of descriptors waits.
\<close>
theorem socket_dequeue_refines_frames:
  assumes "in_inv A ext C s us" "can_shutdown env" "length header_memory = 16"
  shows "\<exists>r mo s' us'. socket_dequeue env header_memory s us = Some (r, mo, s', us') \<and> in_inv A ext C s' us' \<and>
    s_queue s' = s_queue s \<and> dequeue_spec (in_stream s) (iq_fds (s_in s) \<noteq> None) r mo s'"
  by (rule socket_dequeue_ok [OF assms])

definition some_header :: string where
  "some_header = ''l'' @ [CHR 0x01, CHR 0x00, CHR 0x01] @ replicate 12 (CHR 0x00)"

theorem socket_dequeue_refines_frames_witness:
  "next_frame (some_header @ ''x'') = FRAME some_header \<and>
   (\<exists>r mo s' us'. socket_dequeue some_env (replicate 16 (CHR 0x00)) (some_socket (some_header @ ''x'') []) (one_user 4 [100, 10, 10, 10] 1) =
      Some (r, mo, s', us') \<and> dequeue_spec (some_header @ ''x'') False r mo s')"
proof
  let ?s = "some_socket (some_header @ ''x'') []"
  have zero: "load32 False (replicate n (CHR 0x00)) = 0" for n
  proof -
    have "horner_sum of_char 256 (replicate k (CHR 0x00)) = (0::nat)" for k by (induction k) simp_all
    then show ?thesis by (simp add: load32_def)
  qed
  have "drop 12 some_header = replicate 4 (CHR 0x00)" "drop 4 some_header = replicate 12 (CHR 0x00)" by (simp_all add: some_header_def)
  with incoming_sizes [of some_header False 0 0 "\<lambda>_. CHR 0x00"] zero have
    "\<exists>m. message_new_incoming True (\<lambda>_. CHR 0x00) some_header = Inr m \<and> m_n_data m = 16"
    by (auto simp: some_header_def endian_byte_def c_align_to_def MESSAGE_SIZE_MAX_def)
  then show "next_frame (some_header @ ''x'') = FRAME some_header" by (auto simp: next_frame_def some_header_def)
  have q: "data_inv (some_queue (some_header @ ''x''))" "fds_inv (some_queue (some_header @ ''x''))"
    "unread (some_queue (some_header @ ''x'')) = some_header @ ''x''"
    by (rule some_queue_ok; simp add: some_header_def)+
  have "in_inv {1} ((\<lambda>_. 0)(1 := 1)) {#} ?s (one_user 4 [100, 10, 10, 10] 1)"
    using q one_user_accounts
    by (simp add: in_inv_def some_socket_def data_inv_def fds_inv_def Queue.buffer_ok_def data_size_def pending_size_def
        target_usable_def usable_def payer_def socket_charges_def flags_ok_def)
      (simp add: iq_charges_def some_queue_def iqueue_null_def)
  moreover have "can_shutdown some_env" by (simp add: can_shutdown_def some_env_def)
  moreover have "in_stream ?s = some_header @ ''x''" "iq_fds (s_in ?s) = None"
    using q(3) by (simp_all add: in_stream_def some_socket_def stream_def unread_def) (simp_all add: some_queue_def iqueue_null_def)
  ultimately show "\<exists>r mo s' us'. socket_dequeue some_env (replicate 16 (CHR 0x00)) ?s (one_user 4 [100, 10, 10, 10] 1) =
      Some (r, mo, s', us') \<and> dequeue_spec (some_header @ ''x'') False r mo s'"
    using socket_dequeue_refines_frames [of "{1}" "(\<lambda>_. 0)(1 := 1)" "{#}" ?s "one_user 4 [100, 10, 10, 10] 1" some_env
        "replicate 16 (CHR 0x00)"] by auto
qed

end
