(* ===== verification/Sasl.thy ===== *)
theory Sasl
  imports Address
begin

text \<open>
  The SASL authentication of a connection (\<open>src/dbus/sasl.h\<close>, \<open>src/dbus/sasl.c\<close>):
  both ends are state machines that consume one line at a time and may produce one
  line. Lines are given without \<open>\r\n\<close>; a client is also dispatched without a line
  (\<open>NULL\<close>), hence its optional input. The properties: a server reaches \<open>DONE\<close> only by
  a \<open>BEGIN\<close> after it accepted the UID of the peer, UNIX FD passing is enabled only by
  an explicit negotiation after that, and the canned exchange of the client completes
  against the server.
\<close>

datatype sasl_error = SASL_E_FAILURE | SASL_E_PROTOCOL_VIOLATION | SASL_ENOTRECOVERABLE

text \<open>Splitting at the first space; the argument loses its leading spaces.\<close>

definition sasl_split :: "string \<Rightarrow> string \<times> string" where
  "sasl_split input =
     (takeWhile (\<lambda>c. c \<noteq> CHR '' '') input,
      dropWhile (\<lambda>c. c = CHR '' '') (dropWhile (\<lambda>c. c \<noteq> CHR '' '') input))"

text \<open>The test \<open>n_cmd == strlen(X) && !strncmp(cmd, X, n_cmd)\<close>.\<close>

definition sasl_is :: "string \<Rightarrow> string \<Rightarrow> bool" where
  "sasl_is cmd x \<longleftrightarrow> length cmd = length x \<and> take (length cmd) x = cmd"

lemma sasl_is_iff: "sasl_is cmd x \<longleftrightarrow> cmd = x"
  by (auto simp: sasl_is_def)

section \<open>Client\<close>

datatype sasl_client_state =
  SASL_CLIENT_STATE_INIT | SASL_CLIENT_STATE_DONE | SASL_CLIENT_STATE_AUTH
| SASL_CLIENT_STATE_DATA | SASL_CLIENT_STATE_UNIX_FD

record sasl_client =
  client_state :: sasl_client_state

definition sasl_client_init :: sasl_client where
  "sasl_client_init = \<lparr>client_state = SASL_CLIENT_STATE_INIT\<rparr>"

definition CRLF :: string where
  "CRLF = [CHR 0x0D, CHR 0x0A]"

definition sasl_client_request :: string where
  "sasl_client_request =
     CHR 0x00 # ''AUTH EXTERNAL'' @ CRLF @ ''DATA'' @ CRLF @ ''NEGOTIATE_UNIX_FD'' @ CRLF @ ''BEGIN''"

definition sasl_client_dispatch ::
  "sasl_client \<Rightarrow> string option \<Rightarrow> sasl_error + (sasl_client \<times> string option)" where
  "sasl_client_dispatch sasl input =
     (let (cmd, arg) = (case input of None \<Rightarrow> ([], []) | Some s \<Rightarrow> sasl_split s) in
      case client_state sasl of
        SASL_CLIENT_STATE_INIT \<Rightarrow>
          if input \<noteq> None then Inl SASL_E_PROTOCOL_VIOLATION
          else Inr (sasl\<lparr>client_state := SASL_CLIENT_STATE_AUTH\<rparr>, Some sasl_client_request)
      | SASL_CLIENT_STATE_AUTH \<Rightarrow>
          if input = None then Inr (sasl, None)
          else if \<not> sasl_is cmd ''DATA'' then Inl SASL_E_FAILURE
          else if arg \<noteq> [] then Inl SASL_E_PROTOCOL_VIOLATION
          else Inr (sasl\<lparr>client_state := SASL_CLIENT_STATE_DATA\<rparr>, None)
      | SASL_CLIENT_STATE_DATA \<Rightarrow>
          if input = None then Inr (sasl, None)
          else if \<not> sasl_is cmd ''OK'' then Inl SASL_E_FAILURE
          else if length arg \<noteq> 32 then Inl SASL_E_PROTOCOL_VIOLATION
          else Inr (sasl\<lparr>client_state := SASL_CLIENT_STATE_UNIX_FD\<rparr>, None)
      | SASL_CLIENT_STATE_UNIX_FD \<Rightarrow>
          if input = None then Inr (sasl, None)
          else if \<not> sasl_is cmd ''AGREE_UNIX_FD'' then Inl SASL_E_FAILURE
          else if arg \<noteq> [] then Inl SASL_E_PROTOCOL_VIOLATION
          else Inr (sasl\<lparr>client_state := SASL_CLIENT_STATE_DONE\<rparr>, None)
      | SASL_CLIENT_STATE_DONE \<Rightarrow> Inl SASL_ENOTRECOVERABLE)"

section \<open>Server\<close>

datatype sasl_server_state =
  SASL_SERVER_STATE_INIT | SASL_SERVER_STATE_DONE | SASL_SERVER_STATE_AUTH
| SASL_SERVER_STATE_CHALLENGE | SASL_SERVER_STATE_AUTHENTICATED | SASL_SERVER_STATE_NEGOTIATED_FDS

record sasl_server =
  server_state :: sasl_server_state
  fds_allowed :: bool
  server_uid :: uid
  ok_response :: string

definition sasl_server_init :: "uid \<Rightarrow> string \<Rightarrow> sasl_server" where
  "sasl_server_init uid guid =
     \<lparr>server_state = SASL_SERVER_STATE_INIT, fds_allowed = False, server_uid = uid,
      ok_response = ''OK '' @ string_to_hex (take 16 guid)\<rparr>"

definition REJECTED :: string where
  "REJECTED = ''REJECTED EXTERNAL''"

text \<open>\<open>snprintf\<close> of a 32-bit UID always fits \<open>uidbuf\<close>; \<open>failed\<close> is the comparison of the argument.\<close>

definition sasl_server_handle_data :: "sasl_server \<Rightarrow> string \<Rightarrow> sasl_server \<times> string" where
  "sasl_server_handle_data sasl input =
     (let failed = (input \<noteq> [] \<and> input \<noteq> string_to_hex (decimal (unat (server_uid sasl)))) in
      if failed then (sasl\<lparr>server_state := SASL_SERVER_STATE_AUTH\<rparr>, REJECTED)
      else (sasl\<lparr>server_state := SASL_SERVER_STATE_AUTHENTICATED\<rparr>, ok_response sasl))"

definition sasl_server_handle_auth :: "sasl_server \<Rightarrow> string \<Rightarrow> sasl_server \<times> string" where
  "sasl_server_handle_auth sasl input =
     (let (protocol, arg) = sasl_split input in
      if sasl_is protocol ''EXTERNAL'' then
        (if arg \<noteq> [] then sasl_server_handle_data sasl arg
         else (sasl\<lparr>server_state := SASL_SERVER_STATE_CHALLENGE\<rparr>, ''DATA''))
      else (sasl\<lparr>server_state := SASL_SERVER_STATE_AUTH\<rparr>, REJECTED))"

text \<open>The branch of the states \<open>INIT\<close> (after its check of the zero byte) and \<open>AUTH\<close>.\<close>

definition sasl_server_dispatch_auth ::
  "sasl_server \<Rightarrow> string \<Rightarrow> string \<Rightarrow> sasl_error + (sasl_server \<times> string option)" where
  "sasl_server_dispatch_auth sasl cmd arg =
     (if sasl_is cmd ''AUTH'' then Inr (apsnd Some (sasl_server_handle_auth sasl arg))
      else if sasl_is cmd ''ERROR'' then
        Inr (sasl\<lparr>server_state := SASL_SERVER_STATE_AUTH\<rparr>, Some REJECTED)
      else if sasl_is cmd ''BEGIN'' \<and> arg = [] then Inl SASL_E_PROTOCOL_VIOLATION
      else Inr (sasl, Some ''ERROR''))"

definition sasl_server_dispatch ::
  "sasl_server \<Rightarrow> string \<Rightarrow> sasl_error + (sasl_server \<times> string option)" where
  "sasl_server_dispatch sasl input =
     (let (cmd, arg) = sasl_split input in
      case server_state sasl of
        SASL_SERVER_STATE_INIT \<Rightarrow>
          if cmd = [] \<or> hd cmd \<noteq> CHR 0x00 then Inl SASL_E_PROTOCOL_VIOLATION
          else sasl_server_dispatch_auth sasl (tl cmd) arg
      | SASL_SERVER_STATE_AUTH \<Rightarrow> sasl_server_dispatch_auth sasl cmd arg
      | SASL_SERVER_STATE_CHALLENGE \<Rightarrow>
          if sasl_is cmd ''DATA'' then Inr (apsnd Some (sasl_server_handle_data sasl arg))
          else if sasl_is cmd ''ERROR'' \<or> (sasl_is cmd ''CANCEL'' \<and> arg = []) then
            Inr (sasl\<lparr>server_state := SASL_SERVER_STATE_AUTH\<rparr>, Some REJECTED)
          else if sasl_is cmd ''BEGIN'' \<and> arg = [] then Inl SASL_E_PROTOCOL_VIOLATION
          else Inr (sasl, Some ''ERROR'')
      | SASL_SERVER_STATE_DONE \<Rightarrow> Inl SASL_ENOTRECOVERABLE
      | _ \<Rightarrow>
          if sasl_is cmd ''NEGOTIATE_UNIX_FD'' \<and> arg = [] then
            Inr (sasl\<lparr>fds_allowed := True, server_state := SASL_SERVER_STATE_NEGOTIATED_FDS\<rparr>,
                 Some ''AGREE_UNIX_FD'')
          else if sasl_is cmd ''BEGIN'' \<and> arg = [] then
            Inr (sasl\<lparr>server_state := SASL_SERVER_STATE_DONE\<rparr>, None)
          else if sasl_is cmd ''ERROR'' \<or> (sasl_is cmd ''CANCEL'' \<and> arg = []) then
            Inr (sasl\<lparr>fds_allowed := False, server_state := SASL_SERVER_STATE_AUTH\<rparr>, Some REJECTED)
          else Inr (sasl, Some ''ERROR''))"

text \<open>A conversation: the lines of the client in order; the replies of the server are collected.\<close>

fun sasl_server_run :: "sasl_server \<Rightarrow> string list \<Rightarrow> sasl_error + (sasl_server \<times> string list)" where
  "sasl_server_run sasl [] = Inr (sasl, [])"
| "sasl_server_run sasl (line # lines) =
     (case sasl_server_dispatch sasl line of
        Inl e \<Rightarrow> Inl e
      | Inr (sasl', out) \<Rightarrow>
          (case sasl_server_run sasl' lines of
             Inl e \<Rightarrow> Inl e
           | Inr (sasl'', outs) \<Rightarrow>
               Inr (sasl'', case out of None \<Rightarrow> outs | Some s \<Rightarrow> s # outs)))"

fun sasl_client_run :: "sasl_client \<Rightarrow> string option list \<Rightarrow> sasl_error + (sasl_client \<times> string list)" where
  "sasl_client_run sasl [] = Inr (sasl, [])"
| "sasl_client_run sasl (line # lines) =
     (case sasl_client_dispatch sasl line of
        Inl e \<Rightarrow> Inl e
      | Inr (sasl', out) \<Rightarrow>
          (case sasl_client_run sasl' lines of
             Inl e \<Rightarrow> Inl e
           | Inr (sasl'', outs) \<Rightarrow>
               Inr (sasl'', case out of None \<Rightarrow> outs | Some s \<Rightarrow> s # outs)))"

section \<open>Properties of one step\<close>

definition authenticated :: "sasl_server \<Rightarrow> bool" where
  "authenticated s \<longleftrightarrow>
     server_state s = SASL_SERVER_STATE_AUTHENTICATED \<or> server_state s = SASL_SERVER_STATE_NEGOTIATED_FDS"

text \<open>The credential a line carries is acceptable: none, or the decimal UID in hexadecimal.\<close>

definition credential_ok :: "sasl_server \<Rightarrow> string \<Rightarrow> bool" where
  "credential_ok s arg \<longleftrightarrow> arg = [] \<or> arg = string_to_hex (decimal (unat (server_uid s)))"

text \<open>The transitions of the server, as a relation that the dispatcher implements.\<close>

inductive sasl_step :: "sasl_server \<Rightarrow> sasl_server \<Rightarrow> string option \<Rightarrow> bool" where
  ignored: "sasl_step s s (Some ''ERROR'')"
| rejected: "\<not> authenticated s \<Longrightarrow> sasl_step s (s\<lparr>server_state := SASL_SERVER_STATE_AUTH\<rparr>) (Some REJECTED)"
| cancelled: "authenticated s \<Longrightarrow>
    sasl_step s (s\<lparr>fds_allowed := False, server_state := SASL_SERVER_STATE_AUTH\<rparr>) (Some REJECTED)"
| challenge: "\<not> authenticated s \<Longrightarrow>
    sasl_step s (s\<lparr>server_state := SASL_SERVER_STATE_CHALLENGE\<rparr>) (Some ''DATA'')"
| accepted: "\<lbrakk>\<not> authenticated s; credential_ok s arg\<rbrakk> \<Longrightarrow>
    sasl_step s (s\<lparr>server_state := SASL_SERVER_STATE_AUTHENTICATED\<rparr>) (Some (ok_response s))"
| negotiate: "authenticated s \<Longrightarrow>
    sasl_step s (s\<lparr>fds_allowed := True, server_state := SASL_SERVER_STATE_NEGOTIATED_FDS\<rparr>)
      (Some ''AGREE_UNIX_FD'')"
| begun: "authenticated s \<Longrightarrow> sasl_step s (s\<lparr>server_state := SASL_SERVER_STATE_DONE\<rparr>) None"

inductive_cases sasl_stepE: "sasl_step s s' out"

lemma handle_data_step:
  "\<not> authenticated s \<Longrightarrow> sasl_server_handle_data s arg = (s', out) \<Longrightarrow> sasl_step s s' (Some out)"
  by (auto simp: sasl_server_handle_data_def Let_def credential_ok_def
      intro: rejected accepted [of s arg] split: if_splits)

lemma handle_auth_step:
  "\<not> authenticated s \<Longrightarrow> sasl_server_handle_auth s arg = (s', out) \<Longrightarrow> sasl_step s s' (Some out)"
  by (auto simp: sasl_server_handle_auth_def intro: rejected challenge handle_data_step
      split: if_splits prod.splits)

lemma dispatch_auth_step:
  "\<not> authenticated s \<Longrightarrow> sasl_server_dispatch_auth s cmd arg = Inr (s', out) \<Longrightarrow> sasl_step s s' out"
  by (auto simp: sasl_server_dispatch_auth_def apsnd_Some_eq intro: rejected ignored handle_auth_step
      split: if_splits)

lemma server_dispatch_step:
  assumes "sasl_server_dispatch s line = Inr (s', out)"
  shows "sasl_step s s' out"
proof -
  obtain cmd arg where split: "sasl_split line = (cmd, arg)" by fastforce
  show ?thesis
  proof (cases "server_state s")
    case SASL_SERVER_STATE_CHALLENGE
    then have "\<not> authenticated s" by (simp add: authenticated_def)
    with assms split SASL_SERVER_STATE_CHALLENGE show ?thesis
      by (auto simp: sasl_server_dispatch_def apsnd_Some_eq intro: rejected ignored handle_data_step
          split: if_splits)
  next
    case SASL_SERVER_STATE_AUTHENTICATED
    then have "authenticated s" by (simp add: authenticated_def)
    with assms split SASL_SERVER_STATE_AUTHENTICATED show ?thesis
      by (auto simp: sasl_server_dispatch_def intro: negotiate begun cancelled ignored split: if_splits)
  next
    case SASL_SERVER_STATE_NEGOTIATED_FDS
    then have "authenticated s" by (simp add: authenticated_def)
    with assms split SASL_SERVER_STATE_NEGOTIATED_FDS show ?thesis
      by (auto simp: sasl_server_dispatch_def intro: negotiate begun cancelled ignored split: if_splits)
  qed (use assms split in \<open>auto simp: sasl_server_dispatch_def authenticated_def
      intro: dispatch_auth_step split: if_splits\<close>)
qed

text \<open>Flag discipline: FDs are allowed only in the states after their negotiation.\<close>

definition sasl_inv :: "sasl_server \<Rightarrow> bool" where
  "sasl_inv s \<longleftrightarrow> (fds_allowed s \<longrightarrow> server_state s = SASL_SERVER_STATE_NEGOTIATED_FDS \<or>
     server_state s = SASL_SERVER_STATE_DONE)"

lemma sasl_inv_step: "sasl_step s s' out \<Longrightarrow> sasl_inv s \<Longrightarrow> server_state s \<noteq> SASL_SERVER_STATE_DONE \<Longrightarrow> sasl_inv s'"
  by (auto simp: sasl_inv_def authenticated_def elim: sasl_stepE)

lemma sasl_step_frame: "sasl_step s s' out \<Longrightarrow> server_uid s' = server_uid s \<and> ok_response s' = ok_response s"
  by (auto elim: sasl_stepE)

text \<open>
  The credential that a line presents in a state: the argument of \<open>AUTH EXTERNAL\<close>
  before a challenge, the argument of \<open>DATA\<close> after one.
\<close>

definition presented_credential :: "sasl_server \<Rightarrow> string \<Rightarrow> string option" where
  "presented_credential s line =
     (let (cmd, arg) = sasl_split line; (protocol, cred) = sasl_split arg;
          cmd' = (if server_state s = SASL_SERVER_STATE_INIT then tl cmd else cmd) in
      if server_state s = SASL_SERVER_STATE_CHALLENGE
      then (if cmd = ''DATA'' then Some arg else None)
      else if cmd' = ''AUTH'' \<and> protocol = ''EXTERNAL'' then Some cred else None)"

lemma handle_data_authenticates:
  "\<lbrakk>sasl_server_handle_data s arg = (s', out); authenticated s'\<rbrakk> \<Longrightarrow> credential_ok s arg"
  by (auto simp: sasl_server_handle_data_def Let_def credential_ok_def authenticated_def split: if_splits)

lemma dispatch_auth_authenticates:
  assumes "sasl_server_dispatch_auth s cmd arg = Inr (s', out)" "\<not> authenticated s" "authenticated s'"
  shows "cmd = ''AUTH'' \<and> fst (sasl_split arg) = ''EXTERNAL'' \<and> credential_ok s (snd (sasl_split arg))"
proof -
  from assms have "sasl_is cmd ''AUTH''" and h: "sasl_server_handle_auth s arg = (s', the out)"
    by (auto simp: sasl_server_dispatch_auth_def apsnd_Some_eq authenticated_def split: if_splits)
  moreover from h assms(3) have "sasl_is (fst (sasl_split arg)) ''EXTERNAL''"
    "credential_ok s (snd (sasl_split arg))"
    by (auto simp: sasl_server_handle_auth_def authenticated_def split: if_splits prod.splits
        dest: handle_data_authenticates [unfolded authenticated_def])
  ultimately show ?thesis by (simp add: sasl_is_iff)
qed

lemma dispatch_authenticates:
  assumes "sasl_server_dispatch s line = Inr (s', out)" "\<not> authenticated s" "authenticated s'"
  shows "\<exists>cred. presented_credential s line = Some cred \<and> credential_ok s cred"
proof -
  obtain cmd arg where sp: "sasl_split line = (cmd, arg)" by fastforce
  obtain protocol cred where sp': "sasl_split arg = (protocol, cred)" by fastforce
  show ?thesis
  proof (cases "server_state s")
    case SASL_SERVER_STATE_CHALLENGE
    with assms sp have "sasl_is cmd ''DATA''" "sasl_server_handle_data s arg = (s', the out)"
      by (auto simp: sasl_server_dispatch_def apsnd_Some_eq authenticated_def split: if_splits)
    with sp sp' SASL_SERVER_STATE_CHALLENGE assms(3) show ?thesis
      by (auto simp: presented_credential_def sasl_is_iff dest: handle_data_authenticates)
  next
    case SASL_SERVER_STATE_INIT
    with assms sp have "sasl_server_dispatch_auth s (tl cmd) arg = Inr (s', out)"
      by (auto simp: sasl_server_dispatch_def split: if_splits)
    from dispatch_auth_authenticates [OF this assms(2,3)] sp sp' SASL_SERVER_STATE_INIT
    show ?thesis by (simp add: presented_credential_def)
  next
    case SASL_SERVER_STATE_AUTH
    with assms sp have "sasl_server_dispatch_auth s cmd arg = Inr (s', out)"
      by (auto simp: sasl_server_dispatch_def)
    from dispatch_auth_authenticates [OF this assms(2,3)] sp sp' SASL_SERVER_STATE_AUTH
    show ?thesis by (simp add: presented_credential_def)
  qed (use assms in \<open>auto simp: authenticated_def sasl_server_dispatch_def\<close>)
qed

lemma dispatch_done:
  assumes "sasl_server_dispatch s line = Inr (s', out)" "server_state s' = SASL_SERVER_STATE_DONE"
  shows "authenticated s \<and> sasl_split line = (''BEGIN'', [])"
proof -
  obtain cmd arg where sp: "sasl_split line = (cmd, arg)" by fastforce
  have ns: "server_state s \<noteq> SASL_SERVER_STATE_DONE"
    using assms(1) by (auto simp: sasl_server_dispatch_def)
  from server_dispatch_step [OF assms(1)] assms(2) ns have "authenticated s"
    by (auto elim: sasl_stepE)
  moreover from this assms sp have "sasl_is cmd ''BEGIN'' \<and> arg = []"
    by (auto simp: authenticated_def sasl_server_dispatch_def split: if_splits)
  ultimately show ?thesis using sp by (simp add: sasl_is_iff)
qed

lemma dispatch_allows_fds:
  assumes "sasl_server_dispatch s line = Inr (s', out)" "fds_allowed s'" "\<not> fds_allowed s"
  shows "sasl_split line = (''NEGOTIATE_UNIX_FD'', [])"
proof -
  obtain cmd arg where sp: "sasl_split line = (cmd, arg)" by fastforce
  from server_dispatch_step [OF assms(1)] assms(2,3) have "authenticated s"
    by (auto elim: sasl_stepE)
  with assms sp have "sasl_is cmd ''NEGOTIATE_UNIX_FD'' \<and> arg = []"
    by (auto simp: authenticated_def sasl_server_dispatch_def split: if_splits)
  with sp show ?thesis by (simp add: sasl_is_iff)
qed

section \<open>Conversations\<close>

lemma sasl_server_run_snoc:
  "sasl_server_run s (lines @ [line]) =
     (case sasl_server_run s lines of
        Inl e \<Rightarrow> Inl e
      | Inr (s', outs) \<Rightarrow>
          (case sasl_server_dispatch s' line of
             Inl e \<Rightarrow> Inl e
           | Inr (s'', out) \<Rightarrow> Inr (s'', outs @ (case out of None \<Rightarrow> [] | Some x \<Rightarrow> [x]))))"
  by (induction lines arbitrary: s) (auto split: sum.splits prod.splits option.splits)

lemma sasl_server_run_snocD:
  assumes "sasl_server_run s (lines @ [line]) = Inr (s'', outs)"
  obtains s' outs' out where "sasl_server_run s lines = Inr (s', outs')"
    "sasl_server_dispatch s' line = Inr (s'', out)"
  using assms by (auto simp: sasl_server_run_snoc split: sum.splits prod.splits)

lemma sasl_server_run_inv:
  "sasl_server_run (sasl_server_init uid guid) lines = Inr (s, outs) \<Longrightarrow>
     sasl_inv s \<and> server_uid s = uid"
proof (induction lines arbitrary: s outs rule: rev_induct)
  case Nil
  then show ?case by (auto simp: sasl_server_init_def sasl_inv_def)
next
  case (snoc line lines)
  then obtain s' outs' out where run: "sasl_server_run (sasl_server_init uid guid) lines = Inr (s', outs')"
    and d: "sasl_server_dispatch s' line = Inr (s, out)"
    by (elim sasl_server_run_snocD)
  from d have "server_state s' \<noteq> SASL_SERVER_STATE_DONE" by (auto simp: sasl_server_dispatch_def)
  with snoc.IH [OF run] server_dispatch_step [OF d] show ?case
    by (auto dest: sasl_inv_step sasl_step_frame)
qed

lemma sasl_server_run_credential:
  assumes "sasl_server_run (sasl_server_init uid guid) lines = Inr (s, outs)"
    "authenticated s \<or> server_state s = SASL_SERVER_STATE_DONE"
  shows "\<exists>before line rest s' outs' cred. lines = before @ line # rest \<and>
    sasl_server_run (sasl_server_init uid guid) before = Inr (s', outs') \<and>
    presented_credential s' line = Some cred \<and> (cred = [] \<or> cred = string_to_hex (decimal (unat uid)))"
  using assms
proof (induction lines arbitrary: s outs rule: rev_induct)
  case Nil
  then show ?case by (auto simp: sasl_server_init_def authenticated_def)
next
  case (snoc line lines)
  then obtain s' outs' out where run: "sasl_server_run (sasl_server_init uid guid) lines = Inr (s', outs')"
    and d: "sasl_server_dispatch s' line = Inr (s, out)"
    by (elim sasl_server_run_snocD)
  show ?case
  proof (cases "authenticated s'")
    case True
    with snoc.IH [OF run] show ?thesis by (metis append_Cons append_assoc)
  next
    case False
    with snoc.prems d have "authenticated s" by (auto dest: dispatch_done)
    from dispatch_authenticates [OF d False this] sasl_server_run_inv [OF run] run
    show ?thesis by (auto simp: credential_ok_def intro!: exI [of _ lines])
  qed
qed

lemma sasl_server_run_fds:
  assumes "sasl_server_run (sasl_server_init uid guid) lines = Inr (s, outs)" "fds_allowed s"
  shows "\<exists>line \<in> set lines. sasl_split line = (''NEGOTIATE_UNIX_FD'', [])"
  using assms
proof (induction lines arbitrary: s outs rule: rev_induct)
  case Nil
  then show ?case by (auto simp: sasl_server_init_def)
next
  case (snoc line lines)
  then obtain s' outs' out where run: "sasl_server_run (sasl_server_init uid guid) lines = Inr (s', outs')"
    and d: "sasl_server_dispatch s' line = Inr (s, out)"
    by (elim sasl_server_run_snocD)
  with snoc show ?case by (cases "fds_allowed s'") (auto dest: dispatch_allows_fds)
qed

text \<open>
  C2: safety of the authentication. If a conversation with the server, from its
  initial state and over any lines, ends in the state \<open>DONE\<close>, then its last line was
  \<open>BEGIN\<close>, some earlier line presented a credential that is empty (the kernel's peer
  credentials are trusted) or the hexadecimal form of the peer's UID, and UNIX FD
  passing is allowed only if the client negotiated it.
\<close>
theorem sasl_server_done_authenticated:
  assumes "sasl_server_run (sasl_server_init uid guid) lines = Inr (s, outs)"
    "server_state s = SASL_SERVER_STATE_DONE"
  shows "lines \<noteq> [] \<and> sasl_split (last lines) = (''BEGIN'', []) \<and>
    (\<exists>before line rest s' outs' cred. lines = before @ line # rest \<and>
       sasl_server_run (sasl_server_init uid guid) before = Inr (s', outs') \<and>
       presented_credential s' line = Some cred \<and>
       (cred = [] \<or> cred = string_to_hex (decimal (unat uid)))) \<and>
    (fds_allowed s \<longrightarrow> (\<exists>line \<in> set lines. sasl_split line = (''NEGOTIATE_UNIX_FD'', [])))"
proof -
  have "lines \<noteq> [] \<and> sasl_split (last lines) = (''BEGIN'', [])"
  proof (cases lines rule: rev_cases)
    case Nil
    with assms show ?thesis by (auto simp: sasl_server_init_def)
  next
    case (snoc ys line)
    with assms show ?thesis by (auto elim!: sasl_server_run_snocD dest: dispatch_done)
  qed
  with assms show ?thesis
    using sasl_server_run_credential [OF assms(1)] sasl_server_run_fds [OF assms(1)] by blast
qed

text \<open>The handshake of the stock client, and a server that sees its four lines.\<close>

definition sasl_client_lines :: "string list" where
  "sasl_client_lines = [CHR 0x00 # ''AUTH EXTERNAL'', ''DATA'', ''NEGOTIATE_UNIX_FD'', ''BEGIN'']"

lemma sasl_client_request_lines:
  "sasl_client_request = concat (map (\<lambda>l. l @ CRLF) (butlast sasl_client_lines)) @ last sasl_client_lines"
  by (simp add: sasl_client_request_def sasl_client_lines_def CRLF_def)

lemma hex_no_space: "c \<in> set (string_to_hex s) \<Longrightarrow> c \<noteq> CHR '' ''"
proof (induction s)
  case (Cons x xs)
  have ns: "hex_table ! n \<noteq> CHR '' ''" if "n < 16" for n
  proof -
    have "hex_table ! n \<in> set hex_table" using that by (intro nth_mem) (simp add: hex_table_def)
    then show ?thesis by (auto simp: hex_table_def)
  qed
  have "byte_val x div 16 < 16" "byte_val x mod 16 < 16"
    using byte_val_less [of x] by (simp_all add: less_mult_imp_div_less)
  with ns have "hex_table ! (byte_val x div 16) \<noteq> CHR '' ''" "hex_table ! (byte_val x mod 16) \<noteq> CHR '' ''"
    by blast+
  moreover have "c = hex_table ! (byte_val x div 16) \<or> c = hex_table ! (byte_val x mod 16)
      \<or> c \<in> set (string_to_hex xs)"
    using Cons.prems by simp
  ultimately show ?case using Cons.IH by metis
qed simp

lemma sasl_split_ok: "sasl_split (''OK '' @ string_to_hex g) = (''OK'', string_to_hex g)"
proof (cases "string_to_hex g")
  case (Cons c cs)
  then have "c \<noteq> CHR '' ''" using hex_no_space [of c g] by simp
  then show ?thesis using Cons by (simp add: sasl_split_def)
qed (simp add: sasl_split_def)

lemma sasl_handshake_server:
  "sasl_server_run (sasl_server_init uid guid) sasl_client_lines =
     Inr (\<lparr>server_state = SASL_SERVER_STATE_DONE, fds_allowed = True, server_uid = uid,
           ok_response = ''OK '' @ string_to_hex (take 16 guid)\<rparr>,
          [''DATA'', ''OK '' @ string_to_hex (take 16 guid), ''AGREE_UNIX_FD''])"
  by (simp add: sasl_client_lines_def sasl_server_init_def sasl_server_dispatch_def sasl_split_def
      sasl_server_dispatch_auth_def sasl_server_handle_auth_def sasl_server_handle_data_def sasl_is_iff)

text \<open>
  C14: the pipelined handshake completes. The request of the client is the four lines
  of \<open>sasl_client_lines\<close>; a server with a 16-byte GUID answers them with \<open>DATA\<close>, \<open>OK\<close>
  and \<open>AGREE_UNIX_FD\<close> and is done with FD passing allowed, and the client that reads
  these replies is done, too.
\<close>
theorem sasl_handshake_completes:
  assumes "length guid = 16"
  shows "\<exists>server replies.
    sasl_server_run (sasl_server_init uid guid) sasl_client_lines = Inr (server, replies) \<and>
    server_state server = SASL_SERVER_STATE_DONE \<and> fds_allowed server \<and>
    sasl_client_run sasl_client_init (None # map Some replies) =
      Inr (\<lparr>client_state = SASL_CLIENT_STATE_DONE\<rparr>, [sasl_client_request]) \<and>
    sasl_client_request =
      concat (map (\<lambda>l. l @ CRLF) (butlast sasl_client_lines)) @ last sasl_client_lines"
proof -
  have client: "sasl_client_run sasl_client_init
      (None # map Some [''DATA'', ''OK '' @ string_to_hex (take 16 guid), ''AGREE_UNIX_FD'']) =
    Inr (\<lparr>client_state = SASL_CLIENT_STATE_DONE\<rparr>, [sasl_client_request])"
    using assms sasl_split_ok [of "take 16 guid"]
    by (simp add: sasl_client_init_def sasl_client_dispatch_def sasl_is_iff sasl_split_def)
  show ?thesis
    by (intro exI conjI, rule sasl_handshake_server, simp, simp, rule client,
        rule sasl_client_request_lines)
qed

theorem sasl_handshake_completes_witness:
  "length ''0123456789abcdef'' = 16 \<and>
   (\<exists>server replies.
    sasl_server_run (sasl_server_init 1 ''0123456789abcdef'') sasl_client_lines = Inr (server, replies) \<and>
    server_state server = SASL_SERVER_STATE_DONE \<and> fds_allowed server)"
  using sasl_handshake_completes [of "''0123456789abcdef''" 1] by auto

theorem sasl_server_done_authenticated_witness:
  "server_state \<lparr>server_state = SASL_SERVER_STATE_DONE, fds_allowed = True, server_uid = 1,
       ok_response = ''OK '' @ string_to_hex ''0123456789abcdef''\<rparr> = SASL_SERVER_STATE_DONE \<and>
   sasl_split (last sasl_client_lines) = (''BEGIN'', [])"
  using sasl_server_done_authenticated [OF sasl_handshake_server [of 1 "''0123456789abcdef''"]]
  by simp

text \<open>
  The zero byte is demanded again after an unknown command. Only the very first
  byte of a connection is a zero byte, but the server stays in its initial state when
  the first command is unknown: it answers \<open>ERROR\<close>, and the next, correct \<open>AUTH\<close> line
  is then a protocol violation.
\<close>
theorem sasl_server_init_retry_violation:
  "sasl_server_dispatch (sasl_server_init uid guid) (CHR 0x00 # ''HELLO'') =
     Inr (sasl_server_init uid guid, Some ''ERROR'') \<and>
   sasl_server_run (sasl_server_init uid guid) [CHR 0x00 # ''HELLO'', ''AUTH EXTERNAL''] =
     Inl SASL_E_PROTOCOL_VIOLATION"
  by (simp add: sasl_server_init_def sasl_server_dispatch_def sasl_split_def
      sasl_server_dispatch_auth_def sasl_is_iff)

end
