(* ===== verification/Clist.thy ===== *)
theory Clist
  imports Prelude
begin

text \<open>
  Circular doubly-linked lists (\<open>subprojects/libclist-3/src/c-list.h\<close>). A \<open>CList\<close> is embedded
  in the objects it links, and a head is a node like any other, so the operations work on a
  store of nodes: \<open>nxt\<close> and \<open>prv\<close> are the two fields of the node at an address, and aliasing
  is explicit. \<open>is_list\<close> says that a head and a sequence of distinct nodes form a ring; the
  lemmas show what each operation does to the sequence, and that disjoint rings do not
  interfere. An iteration over a corrupted ring may run forever, so the loops are partial.
\<close>

section \<open>Operations\<close>

record 'a clist =
  nxt :: "'a \<Rightarrow> 'a"
  prv :: "'a \<Rightarrow> 'a"

definition c_list_init :: "'a \<Rightarrow> 'a clist \<Rightarrow> 'a clist" where
  "c_list_init what st = st\<lparr>nxt := (nxt st)(what := what), prv := (prv st)(what := what)\<rparr>"

definition c_list_is_linked :: "'a clist \<Rightarrow> 'a \<Rightarrow> bool" where
  "c_list_is_linked st what \<longleftrightarrow> nxt st what \<noteq> what"

definition c_list_is_empty :: "'a clist \<Rightarrow> 'a \<Rightarrow> bool" where
  "c_list_is_empty st list \<longleftrightarrow> \<not> c_list_is_linked st list"

text \<open>The four stores of \<open>c_list_link_before\<close> and \<open>c_list_link_after\<close>, in their order.\<close>

definition link_between :: "'a \<Rightarrow> 'a \<Rightarrow> 'a \<Rightarrow> 'a clist \<Rightarrow> 'a clist" where
  "link_between p n what st =
     (let st = st\<lparr>prv := (prv st)(n := what)\<rparr>;
          st = st\<lparr>nxt := (nxt st)(what := n)\<rparr>;
          st = st\<lparr>prv := (prv st)(what := p)\<rparr>
      in st\<lparr>nxt := (nxt st)(p := what)\<rparr>)"

definition c_list_link_before :: "'a \<Rightarrow> 'a \<Rightarrow> 'a clist \<Rightarrow> 'a clist" where
  "c_list_link_before pos what st = link_between (prv st pos) pos what st"

definition c_list_link_after :: "'a \<Rightarrow> 'a \<Rightarrow> 'a clist \<Rightarrow> 'a clist" where
  "c_list_link_after pos what st = link_between pos (nxt st pos) what st"

definition c_list_unlink_stale :: "'a \<Rightarrow> 'a clist \<Rightarrow> 'a clist" where
  "c_list_unlink_stale what st =
     (let p = prv st what; n = nxt st what
      in st\<lparr>prv := (prv st)(n := p), nxt := (nxt st)(p := n)\<rparr>)"

definition c_list_unlink :: "'a \<Rightarrow> 'a clist \<Rightarrow> 'a clist" where
  "c_list_unlink what st =
     (if c_list_is_linked st what then c_list_init what (c_list_unlink_stale what st) else st)"

definition c_list_swap :: "'a \<Rightarrow> 'a \<Rightarrow> 'a clist \<Rightarrow> 'a clist" where
  "c_list_swap list1 list2 st =
     (let n = nxt st list1; p = prv st list1;
          st = st\<lparr>prv := (prv st)(n := list2)\<rparr>;
          st = st\<lparr>nxt := (nxt st)(p := list2)\<rparr>;
          n = nxt st list2; p = prv st list2;
          st = st\<lparr>prv := (prv st)(n := list1)\<rparr>;
          st = st\<lparr>nxt := (nxt st)(p := list1)\<rparr>
      in st\<lparr>nxt := (nxt st)(list1 := nxt st list2, list2 := nxt st list1),
            prv := (prv st)(list1 := prv st list2, list2 := prv st list1)\<rparr>)"

definition c_list_splice :: "'a \<Rightarrow> 'a \<Rightarrow> 'a clist \<Rightarrow> 'a clist" where
  "c_list_splice target source st =
     (if c_list_is_empty st source then st
      else
        let st = st\<lparr>prv := (prv st)(nxt st source := prv st target)\<rparr>;
            st = st\<lparr>nxt := (nxt st)(prv st target := nxt st source)\<rparr>;
            st = st\<lparr>nxt := (nxt st)(prv st source := target)\<rparr>;
            st = st\<lparr>prv := (prv st)(target := prv st source)\<rparr>
        in c_list_init source st)"

definition c_list_first :: "'a clist \<Rightarrow> 'a \<Rightarrow> 'a option" where
  "c_list_first st list = (if c_list_is_empty st list then None else Some (nxt st list))"

definition c_list_last :: "'a clist \<Rightarrow> 'a \<Rightarrow> 'a option" where
  "c_list_last st list = (if c_list_is_empty st list then None else Some (prv st list))"

text \<open>The loops, from the node \<open>iter\<close>.\<close>

partial_function (option) length_from :: "'a clist \<Rightarrow> 'a \<Rightarrow> 'a \<Rightarrow> nat \<Rightarrow> nat option" where
  "length_from st list iter n = (if iter = list then Some n else length_from st list (nxt st iter) (n + 1))"

definition c_list_length :: "'a clist \<Rightarrow> 'a \<Rightarrow> nat option" where
  "c_list_length st list = length_from st list (nxt st list) 0"

partial_function (option) contains_from :: "'a clist \<Rightarrow> 'a \<Rightarrow> 'a \<Rightarrow> 'a \<Rightarrow> bool option" where
  "contains_from st list what iter =
     (if iter = list then Some (what = list)
      else if what = iter then Some True else contains_from st list what (nxt st iter))"

definition c_list_contains :: "'a clist \<Rightarrow> 'a \<Rightarrow> 'a \<Rightarrow> bool option" where
  "c_list_contains st list what = contains_from st list what (nxt st list)"

text \<open>
  \<open>c_list_for_each_safe_unlink\<close> initialises each node, the head at the end included; the
  successor is read before.
\<close>

partial_function (option) flush_from :: "'a \<Rightarrow> 'a \<Rightarrow> 'a \<Rightarrow> 'a clist \<Rightarrow> 'a clist option" where
  "flush_from list iter safe st =
     (let st = c_list_init iter st
      in if iter = list then Some st else flush_from list safe (nxt st safe) st)"

definition c_list_flush :: "'a \<Rightarrow> 'a clist \<Rightarrow> 'a clist option" where
  "c_list_flush list st = flush_from list (nxt st list) (nxt st (nxt st list)) st"

section \<open>Rings\<close>

primrec chain :: "'a clist \<Rightarrow> 'a \<Rightarrow> 'a list \<Rightarrow> 'a \<Rightarrow> bool" where
  "chain st a [] b \<longleftrightarrow> nxt st a = b \<and> prv st b = a"
| "chain st a (x # xs) b \<longleftrightarrow> nxt st a = x \<and> prv st x = a \<and> chain st x xs b"

definition is_list :: "'a clist \<Rightarrow> 'a \<Rightarrow> 'a list \<Rightarrow> bool" where
  "is_list st h xs \<longleftrightarrow> distinct (h # xs) \<and> chain st h xs h"

lemma chain_append [simp]: "chain st a (xs @ y # ys) b \<longleftrightarrow> chain st a xs y \<and> chain st y ys b"
  by (induction xs arbitrary: a) auto

lemma chain_cong:
  assumes "\<And>x. x \<in> insert a (set xs) \<Longrightarrow> nxt st' x = nxt st x" "\<And>x. x \<in> insert b (set xs) \<Longrightarrow> prv st' x = prv st x"
  shows "chain st' a xs b \<longleftrightarrow> chain st a xs b"
  using assms by (induction xs arbitrary: a) auto

lemma is_list_cong:
  assumes "\<And>x. x \<in> insert h (set xs) \<Longrightarrow> nxt st' x = nxt st x \<and> prv st' x = prv st x"
  shows "is_list st' h xs \<longleftrightarrow> is_list st h xs"
  using chain_cong [of h xs st' st h] assms by (auto simp: is_list_def)

lemma is_list_Nil: "is_list st h [] \<longleftrightarrow> nxt st h = h \<and> prv st h = h"
  by (simp add: is_list_def)

text \<open>Stores outside of a chain do not change it; the ends are exempt on one side each.\<close>

lemma chain_upd [simp]:
  "c \<noteq> a \<Longrightarrow> c \<notin> set xs \<Longrightarrow> chain \<lparr>nxt = f(c := v), prv = g\<rparr> a xs b \<longleftrightarrow> chain \<lparr>nxt = f, prv = g\<rparr> a xs b"
  "c \<noteq> b \<Longrightarrow> c \<notin> set xs \<Longrightarrow> chain \<lparr>nxt = f, prv = g(c := v)\<rparr> a xs b \<longleftrightarrow> chain \<lparr>nxt = f, prv = g\<rparr> a xs b"
  by (rule chain_cong; auto)+

text \<open>The nodes next to the head.\<close>

lemma chain_first: "chain st a xs b \<Longrightarrow> nxt st a = hd (xs @ [b])"
  by (cases xs) auto

lemma chain_last: "chain st a xs b \<Longrightarrow> prv st b = last (a # xs)"
  by (induction xs arbitrary: a) auto

section \<open>What the operations do\<close>

lemmas clist_defs = is_list_def c_list_init_def c_list_link_before_def c_list_link_after_def link_between_def
  c_list_unlink_def c_list_unlink_stale_def c_list_is_linked_def c_list_is_empty_def c_list_swap_def c_list_splice_def Let_def

lemma is_list_empty: "is_list st h xs \<Longrightarrow> c_list_is_empty st h \<longleftrightarrow> xs = []"
  by (cases xs) (auto simp: clist_defs)

lemma link_tail_list:
  assumes "is_list st h xs" "w \<notin> insert h (set xs)"
  shows "is_list (c_list_link_before h w st) h (xs @ [w])"
  using assms by (cases st; cases xs rule: rev_cases) (auto simp: clist_defs)

lemma link_front_list:
  assumes "is_list st h xs" "w \<notin> insert h (set xs)"
  shows "is_list (c_list_link_after h w st) h (w # xs)"
  using assms by (cases st; cases xs) (auto simp: clist_defs)

lemma unlink_list:
  assumes "is_list st h (xs @ w # ys)"
  shows "is_list (c_list_unlink w st) h (xs @ ys)" "is_list (c_list_unlink w st) w []"
  using assms by (cases st; cases xs rule: rev_cases; cases ys; auto simp: clist_defs)+

lemma chain_target:
  assumes "chain st a xs b" "\<forall>x \<in> set (butlast (a # xs)). nxt st' x = nxt st x" "\<forall>x \<in> set xs. prv st' x = prv st x"
    and "nxt st' (last (a # xs)) = c" "prv st' c = last (a # xs)"
  shows "chain st' a xs c"
  using assms by (induction xs arbitrary: a) (auto split: if_splits)

lemma distinct_butlast_last: "distinct xs \<Longrightarrow> x \<in> set (butlast xs) \<Longrightarrow> x \<noteq> last xs"
  by (induction xs) (auto split: if_splits)

text \<open>A list moves to another head if only its two ends are redirected.\<close>

lemma chain_move:
  assumes "is_list st h xs" "xs \<noteq> []" "k \<notin> set xs"
    and "nxt st' k = hd xs" "prv st' (hd xs) = k" "nxt st' (last xs) = k" "prv st' k = last xs"
    and "\<And>x. x \<in> set xs \<Longrightarrow> x \<noteq> last xs \<Longrightarrow> nxt st' x = nxt st x" "\<And>x. x \<in> set xs \<Longrightarrow> x \<noteq> hd xs \<Longrightarrow> prv st' x = prv st x"
  shows "is_list st' k xs"
proof -
  obtain y ys where xs: "xs = y # ys" using assms(2) by (cases xs) auto
  have "distinct xs" using assms(1) by (simp add: is_list_def)
  then have "x \<in> set xs \<and> x \<noteq> last xs" if "x \<in> set (butlast xs)" for x
    using in_set_butlastD [OF that] distinct_butlast_last [OF _ that] by simp
  then have inner: "\<forall>x \<in> set (butlast (y # ys)). nxt st' x = nxt st x" using assms(8) xs by blast
  have "\<forall>x \<in> set ys. prv st' x = prv st x" using assms(1,9) xs by (auto simp: is_list_def)
  with inner have "chain st' y ys k"
    by (rule chain_target [of st y ys h, rotated]) (use assms(1,6,7) xs in \<open>simp_all add: is_list_def\<close>)
  then show ?thesis using assms xs by (auto simp: is_list_def)
qed

lemma ring_ends:
  assumes "is_list st h xs"
  shows "nxt st h = (if xs = [] then h else hd xs)" "prv st h = (if xs = [] then h else last xs)"
    and "xs \<noteq> [] \<Longrightarrow> hd xs \<in> set xs" "xs \<noteq> [] \<Longrightarrow> last xs \<in> set xs" "h \<notin> set xs"
  using assms chain_first [of st h xs h] chain_last [of st h xs h] by (auto simp: is_list_def)

lemma swap_eq:
  assumes "h \<noteq> k"
  shows "\<lbrakk>{nxt st h, prv st h, nxt st k, prv st k} \<inter> {h, k} = {}; nxt st h \<noteq> nxt st k; prv st h \<noteq> prv st k\<rbrakk> \<Longrightarrow>
      c_list_swap h k st = st\<lparr>nxt := (nxt st)(prv st h := k, prv st k := h, h := nxt st k, k := nxt st h),
        prv := (prv st)(nxt st h := k, nxt st k := h, h := prv st k, k := prv st h)\<rparr>"
    and "\<lbrakk>{nxt st h, prv st h} \<inter> {h, k} = {}; nxt st k = k; prv st k = k\<rbrakk> \<Longrightarrow>
      c_list_swap h k st = st\<lparr>nxt := (nxt st)(prv st h := k, h := h, k := nxt st h),
        prv := (prv st)(nxt st h := k, h := h, k := prv st h)\<rparr>"
    and "\<lbrakk>{nxt st k, prv st k} \<inter> {h, k} = {}; nxt st h = h; prv st h = h\<rbrakk> \<Longrightarrow>
      c_list_swap h k st = st\<lparr>nxt := (nxt st)(prv st k := h, h := nxt st k, k := k),
        prv := (prv st)(nxt st k := h, h := prv st k, k := k)\<rparr>"
    and "\<lbrakk>nxt st h = h; prv st h = h; nxt st k = k; prv st k = k\<rbrakk> \<Longrightarrow> c_list_swap h k st = st"
  using assms by (cases st; force simp: c_list_swap_def Let_def fun_eq_iff)+

lemma swap_lists:
  assumes "is_list st h xs" "is_list st k ys" "insert h (set xs) \<inter> insert k (set ys) = {}"
  shows "is_list (c_list_swap h k st) h ys \<and> is_list (c_list_swap h k st) k xs"
proof -
  have hk: "h \<noteq> k" using assms(3) by auto
  note ex = ring_ends [OF assms(1)] and ey = ring_ends [OF assms(2)]
  have x: "hd xs \<in> set xs" "last xs \<in> set xs" "hd xs \<notin> insert h (insert k (set ys))" "last xs \<notin> insert h (insert k (set ys))"
    if "xs \<noteq> []" using ex(3) [OF that] ex(4) [OF that] ex(5) assms(3) by auto
  have y: "hd ys \<in> set ys" "last ys \<in> set ys" "hd ys \<notin> insert h (insert k (set xs))" "last ys \<notin> insert h (insert k (set xs))"
    if "ys \<noteq> []" using ey(3) [OF that] ey(4) [OF that] ey(5) assms(3) by auto
  have d: "h \<notin> set ys" "k \<notin> set xs" "set xs \<inter> set ys = {}" using assms(3) by auto
  show ?thesis
  proof (cases "xs = []"; cases "ys = []")
    assume "xs = []" "ys = []"
    with ex ey assms hk swap_eq(4) [OF hk, of st] show ?thesis by simp
  next
    assume c: "xs = []" "ys \<noteq> []"
    then have s: "c_list_swap h k st = st\<lparr>nxt := (nxt st)(last ys := h, h := hd ys, k := k), prv := (prv st)(hd ys := h, h := last ys, k := k)\<rparr>"
      using swap_eq(3) [OF hk, of st] ex(1,2) ey(1,2) y by auto
    have "is_list (c_list_swap h k st) h ys"
      by (rule chain_move [OF assms(2) c(2) d(1)]) (use y [OF c(2)] hk ey(5) d in \<open>auto simp: s\<close>)
    then show ?thesis using c(1) s hk by (simp add: is_list_Nil)
  next
    assume c: "xs \<noteq> []" "ys = []"
    then have s: "c_list_swap h k st = st\<lparr>nxt := (nxt st)(last xs := k, h := h, k := hd xs), prv := (prv st)(hd xs := k, h := h, k := last xs)\<rparr>"
      using swap_eq(2) [OF hk, of st] ex(1,2) ey(1,2) x by auto
    have "is_list (c_list_swap h k st) k xs"
      by (rule chain_move [OF assms(1) c(1) d(2)]) (use x [OF c(1)] hk ex(5) d in \<open>auto simp: s\<close>)
    then show ?thesis using c(2) s hk by (simp add: is_list_Nil)
  next
    assume c: "xs \<noteq> []" "ys \<noteq> []"
    have "hd xs \<noteq> hd ys" "last xs \<noteq> last ys" using x(3,4) [OF c(1)] y(1,2) [OF c(2)] by auto
    with c have s: "c_list_swap h k st = st\<lparr>nxt := (nxt st)(last xs := k, last ys := h, h := hd ys, k := hd xs),
        prv := (prv st)(hd xs := k, hd ys := h, h := last ys, k := last xs)\<rparr>"
      using swap_eq(1) [OF hk, of st] ex(1,2) ey(1,2) x y by auto
    have "is_list (c_list_swap h k st) h ys"
      by (rule chain_move [OF assms(2) c(2) d(1)]) (use x [OF c(1)] y [OF c(2)] hk ey(5) d in \<open>auto simp: s\<close>)
    moreover have "is_list (c_list_swap h k st) k xs"
      by (rule chain_move [OF assms(1) c(1) d(2)]) (use x [OF c(1)] y [OF c(2)] hk ex(5) d in \<open>auto simp: s\<close>)
    ultimately show ?thesis by simp
  qed
qed

text \<open>Splicing appends the second list to the first.\<close>

lemma splice_lists:
  assumes "is_list st h xs" "is_list st k ys" "insert h (set xs) \<inter> insert k (set ys) = {}"
  shows "is_list (c_list_splice h k st) h (xs @ ys) \<and> is_list (c_list_splice h k st) k []"
proof (cases ys)
  case (Cons y zs)
  show ?thesis
  proof (cases zs rule: rev_cases)
    case Nil
    with assms Cons show ?thesis by (cases st; cases xs rule: rev_cases) (auto simp: clist_defs)
  next
    case (snoc us u)
    with assms Cons show ?thesis by (cases st; cases xs rule: rev_cases) (auto simp: clist_defs)
  qed
qed (use assms in \<open>simp add: clist_defs\<close>)

section \<open>Loops\<close>

lemma length_from_chain:
  "chain st a xs h \<Longrightarrow> h \<notin> set xs \<Longrightarrow> length_from st h (nxt st a) n = Some (n + length xs)"
proof (induction xs arbitrary: a n)
  case (Cons x xs)
  then have "length_from st h x n = length_from st h (nxt st x) (n + 1)" by (subst length_from.simps) auto
  with Cons show ?case by auto
qed (simp add: length_from.simps)

lemma contains_from_chain:
  "chain st a xs h \<Longrightarrow> h \<notin> set xs \<Longrightarrow> contains_from st h w (nxt st a) = Some (w \<in> insert h (set xs))"
proof (induction xs arbitrary: a)
  case (Cons x xs)
  then have "contains_from st h w x = (if w = x then Some True else contains_from st h w (nxt st x))"
    by (subst contains_from.simps) auto
  with Cons show ?case by auto
qed (simp add: contains_from.simps)

lemma c_list_init_sel [simp]:
  "nxt (c_list_init w st) = (nxt st)(w := w)" "prv (c_list_init w st) = (prv st)(w := w)"
  by (simp_all add: c_list_init_def)

primrec path :: "'a clist \<Rightarrow> 'a \<Rightarrow> 'a list \<Rightarrow> 'a \<Rightarrow> bool" where
  "path st iter [] h \<longleftrightarrow> iter = h"
| "path st iter (x # xs) h \<longleftrightarrow> iter = x \<and> path st (nxt st x) xs h"

lemma path_init [simp]: "w \<notin> set xs \<Longrightarrow> path (c_list_init w st) iter xs h \<longleftrightarrow> path st iter xs h"
  by (induction xs arbitrary: iter) auto

lemma chain_path: "chain st a xs h \<Longrightarrow> path st (nxt st a) xs h"
  by (induction xs arbitrary: a) auto

definition flushed :: "'a set \<Rightarrow> 'a clist \<Rightarrow> 'a clist \<Rightarrow> bool" where
  "flushed A st st' \<longleftrightarrow> (\<forall>x. if x \<in> A then nxt st' x = x \<and> prv st' x = x else nxt st' x = nxt st x \<and> prv st' x = prv st x)"

lemma flush_from_path:
  "path st iter xs h \<Longrightarrow> distinct (h # xs) \<Longrightarrow>
   \<exists>st'. flush_from h iter (nxt st iter) st = Some st' \<and> flushed (insert h (set xs)) st st'"
proof (induction xs arbitrary: st iter)
  case Nil
  then show ?case by (simp add: flush_from.simps Let_def flushed_def)
next
  case (Cons x xs)
  let ?st = "c_list_init x st"
  have "path ?st (nxt st x) xs h" "distinct (h # xs)" using Cons.prems by simp_all
  from Cons.IH [OF this] obtain st' where
    st': "flush_from h (nxt st x) (nxt ?st (nxt st x)) ?st = Some st'" "flushed (insert h (set xs)) ?st st'" by blast
  have "flush_from h iter (nxt st iter) st = Some st'" using Cons.prems st'(1) by (subst flush_from.simps) (auto simp: Let_def)
  moreover have "flushed (insert h (set (x # xs))) st st'" using st'(2) by (auto simp: flushed_def split: if_splits)
  ultimately show ?case by blast
qed

lemma flush_list:
  assumes "is_list st h xs"
  shows "\<exists>st'. c_list_flush h st = Some st' \<and> flushed (insert h (set xs)) st st'"
  using assms flush_from_path [OF chain_path [of st h xs h]] by (simp add: is_list_def c_list_flush_def)

section \<open>Frames\<close>

text \<open>An operation on one ring keeps every other one.\<close>

lemma link_tail_frame:
  assumes "is_list st h xs" "is_list st k ys" "insert k (set ys) \<inter> insert w (insert h (set xs)) = {}"
  shows "is_list (c_list_link_before h w st) k ys"
proof -
  have "prv st h \<in> insert h (set xs)" using ring_ends(2,4) [OF assms(1)] by (cases "xs = []") auto
  with assms(3) show ?thesis
    by (subst is_list_cong [of _ _ _ st]) (use assms(2) in \<open>auto simp: c_list_link_before_def link_between_def\<close>)
qed

lemma link_front_frame:
  assumes "is_list st h xs" "is_list st k ys" "insert k (set ys) \<inter> insert w (insert h (set xs)) = {}"
  shows "is_list (c_list_link_after h w st) k ys"
proof -
  have "nxt st h \<in> insert h (set xs)" using ring_ends(1,3) [OF assms(1)] by (cases "xs = []") auto
  with assms(3) show ?thesis
    by (subst is_list_cong [of _ _ _ st]) (use assms(2) in \<open>auto simp: c_list_link_after_def link_between_def\<close>)
qed

lemma swap_outside:
  "x \<notin> {h, k, nxt st h, prv st h, nxt st k, prv st k} \<Longrightarrow>
   nxt (c_list_swap h k st) x = nxt st x \<and> prv (c_list_swap h k st) x = prv st x"
  by (auto simp: c_list_swap_def Let_def)

lemma splice_outside:
  "x \<notin> {h, k, prv st h, nxt st k, prv st k} \<Longrightarrow>
   nxt (c_list_splice h k st) x = nxt st x \<and> prv (c_list_splice h k st) x = prv st x"
  by (auto simp: c_list_splice_def c_list_init_def Let_def)

text \<open>The neighbours of a head are nodes of its ring.\<close>

lemma head_neighbours: "is_list st h xs \<Longrightarrow> {h, nxt st h, prv st h} \<subseteq> insert h (set xs)"
  using ring_ends [of st h xs] by (cases "xs = []") auto

lemma swap_splice_frame:
  assumes "is_list st h xs" "is_list st k ys" "is_list st l zs"
    and "insert l (set zs) \<inter> (insert h (set xs) \<union> insert k (set ys)) = {}"
  shows "is_list (c_list_swap h k st) l zs" "is_list (c_list_splice h k st) l zs"
proof -
  have out: "x \<notin> {h, k, nxt st h, prv st h, nxt st k, prv st k}" if "x \<in> insert l (set zs)" for x
    using that assms(4) head_neighbours [OF assms(1)] head_neighbours [OF assms(2)] by blast
  have "is_list (c_list_swap h k st) l zs \<longleftrightarrow> is_list st l zs" by (rule is_list_cong, rule swap_outside, erule out)
  moreover have "is_list (c_list_splice h k st) l zs \<longleftrightarrow> is_list st l zs"
    by (rule is_list_cong, rule splice_outside) (use out in blast)
  ultimately show "is_list (c_list_swap h k st) l zs" "is_list (c_list_splice h k st) l zs" using assms(3) by simp_all
qed

lemma unlink_frame:
  assumes "is_list st h (xs @ w # zs)" "is_list st k ys" "insert k (set ys) \<inter> insert h (set (xs @ w # zs)) = {}"
  shows "is_list (c_list_unlink w st) k ys"
proof -
  have "prv st w = last (h # xs)" "nxt st w = hd (zs @ [h])"
    using assms(1) chain_last [of st h xs w] chain_first [of st w zs h] by (simp_all add: is_list_def)
  moreover have "last (h # xs) \<in> insert h (set (xs @ w # zs))" "hd (zs @ [h]) \<in> insert h (set (xs @ w # zs))"
    by auto (cases zs; simp)
  ultimately have w: "w \<in> insert h (set (xs @ w # zs))" "prv st w \<in> insert h (set (xs @ w # zs))"
      "nxt st w \<in> insert h (set (xs @ w # zs))" by simp_all
  have d: "x \<noteq> w \<and> x \<noteq> prv st w \<and> x \<noteq> nxt st w" if "x \<in> insert k (set ys)" for x
  proof -
    have "x \<notin> insert h (set (xs @ w # zs))" using assms(3) that by (rule disjoint_iff [THEN iffD1, rule_format])
    with w show ?thesis by metis
  qed
  have "nxt (c_list_unlink w st) x = nxt st x \<and> prv (c_list_unlink w st) x = prv st x" if "x \<in> insert k (set ys)" for x
    using d [OF that] by (simp add: c_list_unlink_def c_list_unlink_stale_def Let_def)
  then have "is_list (c_list_unlink w st) k ys \<longleftrightarrow> is_list st k ys" by (rule is_list_cong)
  with assms(2) show ?thesis by simp
qed

text \<open>A node outside of all rings refers to itself.\<close>

lemma unlinked_iff: "is_list st w [] \<Longrightarrow> \<not> c_list_is_linked st w"
  by (simp add: is_list_Nil c_list_is_linked_def)

lemma linked_node: "is_list st h xs \<Longrightarrow> w \<in> set xs \<Longrightarrow> c_list_is_linked st w"
proof -
  assume l: "is_list st h xs" and "w \<in> set xs"
  then obtain us vs where xs: "xs = us @ w # vs" by (meson split_list)
  with l have "nxt st w = hd (vs @ [h])" "w \<noteq> h" "w \<notin> set vs"
    using chain_first [of st w vs h] by (auto simp: is_list_def)
  then show ?thesis by (cases vs) (auto simp: c_list_is_linked_def)
qed

section \<open>The contract\<close>

lemma first_last_list:
  assumes "is_list st h xs"
  shows "c_list_first st h = (if xs = [] then None else Some (hd xs))" "c_list_last st h = (if xs = [] then None else Some (last xs))"
  using ring_ends(1,2) [OF assms] is_list_empty [OF assms] by (simp_all add: c_list_first_def c_list_last_def)

lemma unlink_remove1:
  assumes "is_list st h xs" "v \<in> set xs"
  shows "is_list (c_list_unlink v st) h (remove1 v xs)" "is_list (c_list_unlink v st) v []"
proof -
  obtain us vs where xs: "xs = us @ v # vs" using assms(2) by (meson split_list)
  then have "remove1 v xs = us @ vs" using assms(1) by (auto simp: is_list_def remove1_append)
  with unlink_list [of st h us v vs] assms(1) xs show "is_list (c_list_unlink v st) h (remove1 v xs)"
    "is_list (c_list_unlink v st) v []" by simp_all
qed

lemma unlink_other:
  assumes "is_list st h xs" "v \<in> set xs" "is_list st k ys" "insert h (set xs) \<inter> insert k (set ys) = {}"
  shows "is_list (c_list_unlink v st) k ys"
proof -
  obtain us vs where xs: "xs = us @ v # vs" using assms(2) by (meson split_list)
  with unlink_frame [of st h us v vs k ys] assms show ?thesis by (simp add: Int_commute)
qed

text \<open>
  C38: A list refines a sequence. Let two heads carry the sequences \<open>xs\<close> and \<open>ys\<close>, possibly empty,
  and let \<open>w\<close> be a node outside of both. Then the first and the last node, the length and the
  membership test are those of the sequence (the loops terminate, and an empty list has no first
  and no last node); linking adds \<open>w\<close> at the end or the front; unlinking a member removes exactly
  this node and leaves it pointing to itself; swapping exchanges the sequences; splicing appends
  the second to the first and empties the second; flushing makes every node of the list point
  to itself and changes no other node. Linking and unlinking keep every other list, with the
  second one as an example of them, and swapping and splicing keep every third list \<open>zs\<close>.
\<close>
theorem c_list_refines_sequence:
  assumes "is_list st h xs" "is_list st k ys" "insert h (set xs) \<inter> insert k (set ys) = {}"
    and "w \<notin> insert h (set xs) \<union> insert k (set ys)"
    and "is_list st l zs" "insert l (set zs) \<inter> (insert h (set xs) \<union> insert k (set ys)) = {}"
  shows "(c_list_first st h = (if xs = [] then None else Some (hd xs)) \<and> c_list_last st h = (if xs = [] then None else Some (last xs)) \<and>
      c_list_length st h = Some (length xs) \<and> c_list_contains st h v = Some (v \<in> insert h (set xs))) \<and>
    (is_list (c_list_link_before h w st) h (xs @ [w]) \<and> is_list (c_list_link_before h w st) k ys) \<and>
    (is_list (c_list_link_after h w st) h (w # xs) \<and> is_list (c_list_link_after h w st) k ys) \<and>
    (v \<in> set xs \<longrightarrow> is_list (c_list_unlink v st) h (remove1 v xs) \<and> is_list (c_list_unlink v st) v [] \<and> is_list (c_list_unlink v st) k ys) \<and>
    (is_list (c_list_swap h k st) h ys \<and> is_list (c_list_swap h k st) k xs \<and> is_list (c_list_swap h k st) l zs) \<and>
    (is_list (c_list_splice h k st) h (xs @ ys) \<and> is_list (c_list_splice h k st) k [] \<and> is_list (c_list_splice h k st) l zs) \<and>
    (\<exists>st'. c_list_flush h st = Some st' \<and> flushed (insert h (set xs)) st st')"
proof (intro conjI impI)
  have w: "w \<notin> insert h (set xs)" "insert k (set ys) \<inter> insert w (insert h (set xs)) = {}" using assms(3,4) by auto
  have xs: "h \<notin> set xs" "chain st h xs h" using assms(1) by (auto simp: is_list_def)
  show "c_list_first st h = (if xs = [] then None else Some (hd xs))" "c_list_last st h = (if xs = [] then None else Some (last xs))"
    using first_last_list [OF assms(1)] by simp_all
  show "c_list_length st h = Some (length xs)" "c_list_contains st h v = Some (v \<in> insert h (set xs))"
    using length_from_chain [OF xs(2,1), of 0] contains_from_chain [OF xs(2,1)]
    by (simp_all add: c_list_length_def c_list_contains_def)
  show "is_list (c_list_link_before h w st) h (xs @ [w])" by (rule link_tail_list [OF assms(1) w(1)])
  show "is_list (c_list_link_before h w st) k ys" by (rule link_tail_frame [OF assms(1,2) w(2)])
  show "is_list (c_list_link_after h w st) h (w # xs)" by (rule link_front_list [OF assms(1) w(1)])
  show "is_list (c_list_link_after h w st) k ys" by (rule link_front_frame [OF assms(1,2) w(2)])
  assume v: "v \<in> set xs"
  show "is_list (c_list_unlink v st) h (remove1 v xs)" "is_list (c_list_unlink v st) v []" "is_list (c_list_unlink v st) k ys"
    using unlink_remove1 [OF assms(1) v] unlink_other [OF assms(1) v assms(2,3)] by simp_all
qed (use swap_lists [OF assms(1-3)] splice_lists [OF assms(1-3)] swap_splice_frame [OF assms(1,2,5,6)] flush_list [OF assms(1)] in simp_all)

definition some_lists :: "nat clist" where
  "some_lists = \<lparr>nxt = (\<lambda>n. n)(0 := 1, 1 := 2, 2 := 0, 3 := 4, 4 := 3), prv = (\<lambda>n. n)(0 := 2, 1 := 0, 2 := 1, 3 := 4, 4 := 3)\<rparr>"

theorem c_list_refines_sequence_witness:
  "is_list some_lists 0 [1, 2] \<and> is_list some_lists 3 [4] \<and> is_list (c_list_splice 0 3 some_lists) 0 [1, 2, 4] \<and>
   is_list (c_list_unlink 1 some_lists) 0 [2] \<and> c_list_length some_lists 0 = Some 2 \<and>
   c_list_first some_lists 6 = None \<and> is_list (c_list_link_before 6 5 some_lists) 6 [5] \<and>
   is_list (c_list_swap 6 3 some_lists) 6 [4] \<and> is_list (c_list_swap 6 3 some_lists) 0 [1, 2]"
proof -
  have l: "is_list some_lists 0 [1, 2]" "is_list some_lists 3 [4]" "is_list some_lists 6 []" by (simp_all add: is_list_def some_lists_def)
  have "is_list (c_list_splice 0 3 some_lists) 0 [1, 2, 4]" "is_list (c_list_unlink 1 some_lists) 0 [2]" "c_list_length some_lists 0 = Some 2"
    using c_list_refines_sequence [OF l(1,2) _ _ l(3), of 5 1] by simp_all
  moreover have "c_list_first some_lists 6 = None" "is_list (c_list_link_before 6 5 some_lists) 6 [5]"
    "is_list (c_list_swap 6 3 some_lists) 6 [4]" "is_list (c_list_swap 6 3 some_lists) 0 [1, 2]"
    using c_list_refines_sequence [OF l(3,2) _ _ l(1), of 5 1] by simp_all
  ultimately show ?thesis using l by simp
qed

end
