(* ===== verification/Dispatch.thy ===== *)
theory Dispatch
  imports Clist
begin

text \<open>
  The event dispatcher (\<open>src/util/dispatch.h\<close>, \<open>src/util/dispatch.c\<close>): every file has the
  events the kernel signalled and the events the program selected, and files with an event in
  both wait in the ready list of the context until their callback has run.

  There is one context. A file is identified by the address of its \<open>DispatchFile\<close>; \<open>d_files\<close>
  holds the allocated ones, so a missing entry is freed memory. The list nodes are the
  \<open>ready_link\<close> of a file, the ready list of the context and the local list of a dispatch round.
  The code has two builds: \<open>zephyr_port\<close> selects the one on \<open>poll\<close>, which keeps two arrays of
  all files; the other one is on \<open>epoll\<close>. An array is \<open>None\<close> if the pointer to it dangles. The
  answers of the kernel and of the allocator are arguments. \<open>None\<close> as the result of an
  operation is a failed assertion, an access to freed memory, or an endless loop.
\<close>

unbundle bit_operations_syntax

section \<open>State\<close>

type_synonym file_id = nat

datatype link = READY | TODO | FILE file_id

record dispatch_file =
  df_context :: bool
  df_fn :: bool
  df_fd :: int
  df_user_mask :: u32
  df_kernel_mask :: u32
  df_events :: u32

record pollfd =
  pfd_fd :: int
  pfd_events :: u32
  pfd_revents :: u32

record dispatch =
  d_files :: "file_id \<rightharpoonup> dispatch_file"
  d_links :: "link clist"
  d_n_files :: nat
  d_fds :: "pollfd list option"
  d_fd_files :: "file_id list option"
  d_n_fds_allocated :: nat

record dispatch_env =
  zephyr_port :: bool
  epoll_ctl_ok :: bool
  realloc_fds_ok :: bool
  realloc_files_ok :: bool

definition EPOLLET :: u32 where "EPOLLET = push_bit 31 1"

text \<open>\<open>dispatch_file_events\<close>\<close>

definition dispatch_file_events :: "dispatch_file \<Rightarrow> u32" where
  "dispatch_file_events file = df_events file AND df_user_mask file"

abbreviation upd_links :: "(link clist \<Rightarrow> link clist) \<Rightarrow> dispatch \<Rightarrow> dispatch" where
  "upd_links f d \<equiv> d\<lparr>d_links := f (d_links d)\<rparr>"

abbreviation upd_file :: "file_id \<Rightarrow> dispatch_file \<Rightarrow> dispatch \<Rightarrow> dispatch" where
  "upd_file f file d \<equiv> d\<lparr>d_files := (d_files d)(f \<mapsto> file)\<rparr>"

section \<open>Files\<close>

text \<open>
  Room for one more entry in the arrays of the port: \<open>None\<close> in the result is the report of
  exhausted memory. An array that was moved by a successful \<open>realloc\<close> is freed again if the
  other one could not grow, and the context keeps the old pointer.
\<close>

definition poll_arrays_grow :: "dispatch_env \<Rightarrow> dispatch \<Rightarrow> (bool \<times> dispatch) option" where
  "poll_arrays_grow env d = do {
     fds \<leftarrow> d_fds d; files \<leftarrow> d_fd_files d;
     if length fds < d_n_fds_allocated d then Some (True, d)
     else if realloc_fds_ok env \<and> realloc_files_ok env then
       Some (True, d\<lparr>d_n_fds_allocated := (if d_n_fds_allocated d \<noteq> 0 then d_n_fds_allocated d * 2 else 8)\<rparr>)
     else Some (False, d\<lparr>d_fds := (if realloc_fds_ok env then None else Some fds),
                         d_fd_files := (if realloc_files_ok env then None else Some files)\<rparr>) }"

definition dispatch_file_init ::
  "dispatch_env \<Rightarrow> file_id \<Rightarrow> int \<Rightarrow> u32 \<Rightarrow> u32 \<Rightarrow> dispatch \<Rightarrow> (bool \<times> dispatch) option" where
  "dispatch_file_init env f fd bits events d = do {
     (ok, d) \<leftarrow>
       (if zephyr_port env then do {
          (ok, d) \<leftarrow> poll_arrays_grow env d;
          if \<not> ok then Some (False, d)
          else do {
            fds \<leftarrow> d_fds d; files \<leftarrow> d_fd_files d;
            Some (True, d\<lparr>d_fds := Some (fds @ [\<lparr>pfd_fd = fd, pfd_events = bits, pfd_revents = events\<rparr>]),
                          d_fd_files := Some (files @ [f])\<rparr>) } }
        else do {
          _ \<leftarrow> c_assert (bits AND EPOLLET = 0);
          _ \<leftarrow> c_assert (events AND NOT bits = 0);
          Some (epoll_ctl_ok env, d) });
     if \<not> ok then Some (False, d)
     else
       let d = upd_file f \<lparr>df_context = True, df_fn = True, df_fd = fd, df_user_mask = events,
                           df_kernel_mask = bits, df_events = events\<rparr> d
       in Some (True, upd_links (c_list_init (FILE f)) (d\<lparr>d_n_files := d_n_files d + 1\<rparr>)) }"

text \<open>The first position of a file in the array of files.\<close>

primrec file_index :: "file_id \<Rightarrow> file_id list \<Rightarrow> nat option" where
  "file_index f [] = None"
| "file_index f (g # gs) = (if g = f then Some 0 else map_option Suc (file_index f gs))"

definition dispatch_file_deinit :: "dispatch_env \<Rightarrow> file_id \<Rightarrow> dispatch \<Rightarrow> dispatch option" where
  "dispatch_file_deinit env f d = do {
     file \<leftarrow> d_files d f;
     if \<not> df_context file then Some d
     else do {
       d \<leftarrow>
         (if zephyr_port env then do {
            files \<leftarrow> d_fd_files d;
            case file_index f files of
              None \<Rightarrow> Some d
            | Some i \<Rightarrow> do {
                fds \<leftarrow> d_fds d;
                Some (upd_links (c_list_unlink (FILE f))
                  (d\<lparr>d_fds := Some (butlast (fds[i := last fds])), d_fd_files := Some (butlast (files[i := last files])),
                     d_n_files := d_n_files d - 1\<rparr>)) } }
          else do {
            _ \<leftarrow> c_assert (epoll_ctl_ok env);
            Some (upd_links (c_list_unlink (FILE f)) (d\<lparr>d_n_files := d_n_files d - 1\<rparr>)) });
       Some (upd_file f (file\<lparr>df_fd := -1, df_fn := False, df_context := False\<rparr>) d) } }"

text \<open>The callers free the memory of a file with the object that embeds it.\<close>

definition free_file :: "file_id \<Rightarrow> dispatch \<Rightarrow> dispatch" where
  "free_file f d = d\<lparr>d_files := (d_files d)(f := None)\<rparr>"

definition dispatch_file_select :: "file_id \<Rightarrow> u32 \<Rightarrow> dispatch \<Rightarrow> dispatch option" where
  "dispatch_file_select f bits d = do {
     file \<leftarrow> d_files d f;
     _ \<leftarrow> c_assert (bits AND NOT (df_kernel_mask file) = 0);
     let file = file\<lparr>df_user_mask := df_user_mask file OR bits\<rparr>;
     let d = upd_file f file d;
     if df_user_mask file AND df_events file \<noteq> 0 \<and> \<not> c_list_is_linked (d_links d) (FILE f) then do {
       _ \<leftarrow> c_assert (df_context file);
       Some (upd_links (c_list_link_before READY (FILE f)) d) }
     else Some d }"

definition dispatch_file_deselect :: "file_id \<Rightarrow> u32 \<Rightarrow> dispatch \<Rightarrow> dispatch option" where
  "dispatch_file_deselect f bits d = do {
     file \<leftarrow> d_files d f;
     _ \<leftarrow> c_assert (bits AND NOT (df_kernel_mask file) = 0);
     let file = file\<lparr>df_user_mask := df_user_mask file AND NOT bits\<rparr>;
     let d = upd_file f file d;
     Some (if df_events file AND df_user_mask file = 0 then upd_links (c_list_unlink (FILE f)) d else d) }"

definition dispatch_file_clear :: "file_id \<Rightarrow> u32 \<Rightarrow> dispatch \<Rightarrow> dispatch option" where
  "dispatch_file_clear f bits d = do {
     file \<leftarrow> d_files d f;
     _ \<leftarrow> c_assert (bits AND NOT (df_kernel_mask file) = 0);
     let file = file\<lparr>df_events := df_events file AND NOT bits\<rparr>;
     let d = upd_file f file d;
     Some (if df_events file AND df_user_mask file = 0 then upd_links (c_list_unlink (FILE f)) d else d) }"

section \<open>Contexts\<close>

definition DISPATCH_CONTEXT_NULL :: dispatch where
  "DISPATCH_CONTEXT_NULL = \<lparr>d_files = Map.empty, d_links = \<lparr>nxt = (\<lambda>l. l), prv = (\<lambda>l. l)\<rparr>, d_n_files = 0,
     d_fds = Some [], d_fd_files = Some [], d_n_fds_allocated = 0\<rparr>"

text \<open>\<open>ok\<close> tells whether the allocations and system calls of the build succeed.\<close>

definition dispatch_context_init :: "dispatch_env \<Rightarrow> bool \<Rightarrow> bool \<times> dispatch" where
  "dispatch_context_init env ok =
     (if \<not> ok then (False, DISPATCH_CONTEXT_NULL)
      else (True, if zephyr_port env then DISPATCH_CONTEXT_NULL\<lparr>d_n_fds_allocated := 8\<rparr> else DISPATCH_CONTEXT_NULL))"

definition dispatch_context_deinit :: "dispatch \<Rightarrow> dispatch option" where
  "dispatch_context_deinit d = do {
     _ \<leftarrow> c_assert (d_n_files d = 0);
     _ \<leftarrow> c_assert (c_list_is_empty (d_links d) READY);
     Some (d\<lparr>d_fds := Some [], d_fd_files := Some [], d_n_fds_allocated := 0\<rparr>) }"

subsection \<open>Polling\<close>

text \<open>
  The answers of the kernel: an error, an interrupted call, or the events, for \<open>epoll\<close> with the
  files they belong to and for \<open>poll\<close> in the order of the array.
\<close>

datatype 'e poll_answer = POLL_FAILED | POLL_INTERRUPTED | POLL_EVENTS 'e

text \<open>The ready list takes a file with a selected event, unless the file is in a list.\<close>

definition mark_ready :: "file_id \<Rightarrow> dispatch_file \<Rightarrow> dispatch \<Rightarrow> dispatch" where
  "mark_ready f file d =
     (if df_events file AND df_user_mask file \<noteq> 0 \<and> \<not> c_list_is_linked (d_links d) (FILE f)
      then upd_links (c_list_link_before READY (FILE f)) d else d)"

text \<open>The reports of \<open>epoll_wait\<close> are handled from the last to the first.\<close>

definition epoll_report :: "file_id \<times> u32 \<Rightarrow> dispatch \<Rightarrow> dispatch option" where
  "epoll_report e d = do {
     file \<leftarrow> d_files d (fst e);
     _ \<leftarrow> c_assert (df_context file);
     let file = file\<lparr>df_events := df_events file OR (snd e AND df_kernel_mask file)\<rparr>;
     Some (mark_ready (fst e) file (upd_file (fst e) file d)) }"

primrec epoll_reports :: "(file_id \<times> u32) list \<Rightarrow> dispatch \<Rightarrow> dispatch option" where
  "epoll_reports [] d = Some d"
| "epoll_reports (e # es) d = do { d \<leftarrow> epoll_report e d; epoll_reports es d }"

definition dispatch_context_poll_epoll ::
  "bool \<Rightarrow> (file_id \<times> u32) list poll_answer \<Rightarrow> dispatch \<Rightarrow> (bool \<times> dispatch) option" where
  "dispatch_context_poll_epoll buffer_ok answer d =
     (if \<not> buffer_ok then Some (False, d)
      else case answer of
        POLL_FAILED \<Rightarrow> Some (False, d)
      | POLL_INTERRUPTED \<Rightarrow> Some (True, d)
      | POLL_EVENTS es \<Rightarrow> map_option (Pair True) (epoll_reports (rev es) d))"

text \<open>
  The build on \<open>poll\<close>: the array is copied before the call, with the selected events of each
  file, and a descriptor that is not valid is an error.
\<close>

primrec poll_request :: "file_id list \<Rightarrow> dispatch \<Rightarrow> u32 list option" where
  "poll_request [] d = Some []"
| "poll_request (f # fs) d = do {
     file \<leftarrow> d_files d f;
     ms \<leftarrow> poll_request fs d;
     Some (df_user_mask file # ms) }"

definition poll_report :: "int \<Rightarrow> file_id \<Rightarrow> u32 \<Rightarrow> dispatch \<Rightarrow> dispatch option" where
  "poll_report fd f revents d = do {
     file \<leftarrow> d_files d f;
     if df_fd file < 0 \<or> fd \<noteq> df_fd file \<or> \<not> df_context file then Some d
     else if revents \<noteq> 0 then
       let file = file\<lparr>df_events := revents AND df_kernel_mask file AND df_user_mask file\<rparr>;
           d = upd_file f file d
       in Some (if df_events file \<noteq> 0 \<and> \<not> c_list_is_linked (d_links d) (FILE f)
                then upd_links (c_list_link_before READY (FILE f)) d else d)
     else
       let d = upd_file f (file\<lparr>df_events := 0\<rparr>) d
       in Some (if c_list_is_linked (d_links d) (FILE f) then upd_links (c_list_unlink (FILE f)) d else d) }"

fun poll_reports :: "pollfd list \<Rightarrow> file_id list \<Rightarrow> u32 list \<Rightarrow> dispatch \<Rightarrow> dispatch option" where
  "poll_reports (p # ps) (f # fs) (e # es) d = do { d \<leftarrow> poll_report (pfd_fd p) f e d; poll_reports ps fs es d }"
| "poll_reports _ _ _ d = Some d"

definition dispatch_context_poll_zephyr ::
  "bool \<Rightarrow> (u32 list \<Rightarrow> u32 list poll_answer) \<Rightarrow> dispatch \<Rightarrow> (bool \<times> dispatch) option" where
  "dispatch_context_poll_zephyr buffer_ok poll d = do {
     fds \<leftarrow> d_fds d; files \<leftarrow> d_fd_files d;
     if \<not> buffer_ok then Some (False, d)
     else do {
       request \<leftarrow> poll_request files d;
       if list_ex (\<lambda>p. pfd_fd p < 0) fds then Some (False, d)
       else case poll request of
         POLL_FAILED \<Rightarrow> Some (False, d)
       | POLL_INTERRUPTED \<Rightarrow> Some (True, d)
       | POLL_EVENTS es \<Rightarrow> map_option (Pair True) (poll_reports fds files es d) } }"

subsection \<open>A dispatch round\<close>

text \<open>
  \<open>fn\<close> is the callback of a file. It changes the dispatcher and the rest of the program (\<open>'w\<close>),
  and may fail itself. The round returns the code of the callback that broke it off.
\<close>

type_synonym 'w callback = "file_id \<Rightarrow> 'w \<Rightarrow> dispatch \<Rightarrow> (int \<times> 'w \<times> dispatch) option"

primrec file_of :: "link \<Rightarrow> file_id option" where
  "file_of READY = None"
| "file_of TODO = None"
| "file_of (FILE f) = Some f"

partial_function (option) dispatch_loop :: "'w callback \<Rightarrow> 'w \<Rightarrow> dispatch \<Rightarrow> (int \<times> 'w \<times> dispatch) option" where
  "dispatch_loop fn w d =
     (if c_list_is_empty (d_links d) TODO then Some (0, w, d)
      else do {
        f \<leftarrow> file_of (nxt (d_links d) TODO);
        file \<leftarrow> d_files d f;
        let d = upd_links (c_list_unlink (FILE f)) d;
        if df_fd file < 0 \<or> \<not> df_fn file \<or> \<not> df_context file then dispatch_loop fn w d
        else do {
          (r, w, d) \<leftarrow> fn f w d;
          if r \<noteq> 0 then
            let d = upd_links (c_list_splice READY TODO) d
            in if c_list_is_empty (d_links d) TODO then Some (r, w, d) else None
          else do {
            file \<leftarrow> d_files d f;
            dispatch_loop fn w
              (if df_events file AND df_user_mask file \<noteq> 0 then upd_links (c_list_link_before READY (FILE f)) d else d) } } })"

definition dispatch_context_dispatch ::
  "'w callback \<Rightarrow> (dispatch \<Rightarrow> (bool \<times> dispatch) option) \<Rightarrow> 'w \<Rightarrow> dispatch \<Rightarrow> (int \<times> 'w \<times> dispatch) option" where
  "dispatch_context_dispatch fn poll w d = do {
     (ok, d) \<leftarrow> poll d;
     if \<not> ok then Some (-1, w, d)
     else dispatch_loop fn w (upd_links (c_list_swap TODO READY \<circ> c_list_init TODO) d) }"

section \<open>The lists of a context\<close>

text \<open>\<open>xs\<close> is the ready list, \<open>ys\<close> the list of the running round, and all other files are in no list.\<close>

definition links_ok :: "dispatch \<Rightarrow> file_id list \<Rightarrow> file_id list \<Rightarrow> bool" where
  "links_ok d xs ys \<longleftrightarrow> is_list (d_links d) READY (map FILE xs) \<and> is_list (d_links d) TODO (map FILE ys) \<and>
     set xs \<inter> set ys = {} \<and> (\<forall>f. f \<notin> set xs \<union> set ys \<longrightarrow> is_list (d_links d) (FILE f) [])"

lemma links_ok_disjoint:
  "set xs \<inter> set ys = {} \<Longrightarrow> insert READY (set (map FILE xs)) \<inter> insert TODO (set (map FILE ys)) = {}"
  by auto

lemma links_ok_linked: "links_ok d xs ys \<Longrightarrow> c_list_is_linked (d_links d) (FILE f) \<longleftrightarrow> f \<in> set xs \<union> set ys"
  using linked_node [of "d_links d" READY "map FILE xs" "FILE f"] linked_node [of "d_links d" TODO "map FILE ys" "FILE f"]
    unlinked_iff [of "d_links d" "FILE f"] by (auto simp: links_ok_def)

lemma links_ok_distinct: "links_ok d xs ys \<Longrightarrow> distinct xs \<and> distinct ys"
  by (simp add: links_ok_def is_list_def distinct_map)

lemma links_ok_ready:
  assumes "links_ok d xs ys" "f \<notin> set xs \<union> set ys"
  shows "links_ok (upd_links (c_list_link_before READY (FILE f)) d) (xs @ [f]) ys"
proof -
  have l: "is_list (d_links d) READY (map FILE xs)" "is_list (d_links d) TODO (map FILE ys)" "set xs \<inter> set ys = {}"
    using assms(1) by (auto simp: links_ok_def)
  have 1: "is_list (c_list_link_before READY (FILE f) (d_links d)) READY (map FILE (xs @ [f]))"
    using link_tail_list [OF l(1), of "FILE f"] assms(2) by auto
  have 2: "is_list (c_list_link_before READY (FILE f) (d_links d)) TODO (map FILE ys)"
    by (rule link_tail_frame [OF l(1,2)]) (use l(3) assms(2) in auto)
  have 3: "is_list (c_list_link_before READY (FILE f) (d_links d)) (FILE g) []" if "g \<notin> set (xs @ [f]) \<union> set ys" for g
    by (rule link_tail_frame [OF l(1)]) (use that assms(1) in \<open>auto simp: links_ok_def\<close>)
  show ?thesis using 1 2 3 l(3) assms(2) by (simp add: links_ok_def)
qed

lemma links_ok_unlink:
  assumes "links_ok d xs ys"
  shows "links_ok (upd_links (c_list_unlink (FILE f)) d) (remove1 f xs) (remove1 f ys)"
proof (cases "f \<in> set xs \<union> set ys")
  case False
  then have "c_list_unlink (FILE f) (d_links d) = d_links d"
    using links_ok_linked [OF assms] by (simp add: c_list_unlink_def)
  with False assms show ?thesis by (simp add: remove1_idem)
next
  case True
  have l: "is_list (d_links d) READY (map FILE xs)" "is_list (d_links d) TODO (map FILE ys)" "set xs \<inter> set ys = {}"
    "distinct xs" "distinct ys" using assms links_ok_distinct [OF assms] by (auto simp: links_ok_def)
  have other: "is_list (d_links d) (FILE g) []" if "g \<notin> set xs \<union> set ys" for g using that assms by (simp add: links_ok_def)
  have map_remove: "remove1 (FILE f) (map FILE zs) = map FILE (remove1 f zs)" for zs by (induction zs) auto
  let ?st = "c_list_unlink (FILE f) (d_links d)"
  show ?thesis
  proof (cases "f \<in> set xs")
    case in_xs: True
    then have "f \<notin> set ys" using l(3) by auto
    with in_xs have m: "FILE f \<in> set (map FILE xs)" "remove1 f ys = ys" by (simp_all add: remove1_idem)
    have "is_list ?st READY (map FILE (remove1 f xs))" "is_list ?st (FILE f) []"
      using unlink_remove1 [OF l(1) m(1)] by (simp_all add: map_remove)
    moreover have "is_list ?st TODO (map FILE ys)"
      by (rule unlink_other [OF l(1) m(1) l(2)]) (use l(3) in auto)
    moreover have "is_list ?st (FILE g) []" if "g \<notin> set xs \<union> set ys" for g
      by (rule unlink_other [OF l(1) m(1) other [OF that]]) (use that in auto)
    ultimately show ?thesis using l(3-5) m(2) by (auto simp: links_ok_def)
  next
    case False
    then have m: "FILE f \<in> set (map FILE ys)" "remove1 f xs = xs" using True by (auto simp: remove1_idem)
    have "is_list ?st TODO (map FILE (remove1 f ys))" "is_list ?st (FILE f) []"
      using unlink_remove1 [OF l(2) m(1)] by (simp_all add: map_remove)
    moreover have "is_list ?st READY (map FILE xs)"
      by (rule unlink_other [OF l(2) m(1) l(1)]) (use l(3) in auto)
    moreover have "is_list ?st (FILE g) []" if "g \<notin> set xs \<union> set ys" for g
      by (rule unlink_other [OF l(2) m(1) other [OF that]]) (use that in auto)
    ultimately show ?thesis using l(3-5) m(2) by (auto simp: links_ok_def)
  qed
qed

lemma links_ok_files [simp]: "links_ok (d\<lparr>d_files := m\<rparr>) xs ys \<longleftrightarrow> links_ok d xs ys"
  by (simp add: links_ok_def)

lemma links_ok_take:
  assumes "links_ok d xs (f # ys)"
  shows "c_list_is_empty (d_links d) TODO = False" "nxt (d_links d) TODO = FILE f"
    "links_ok (upd_links (c_list_unlink (FILE f)) d) xs ys"
  using assms is_list_empty [of "d_links d" TODO "map FILE (f # ys)"] links_ok_unlink [OF assms, of f] links_ok_distinct [OF assms]
  by (auto simp: links_ok_def is_list_def remove1_idem)

section \<open>Ready files\<close>

definition pending :: "dispatch \<Rightarrow> file_id \<Rightarrow> bool" where
  "pending d f \<longleftrightarrow> (case d_files d f of None \<Rightarrow> False | Some file \<Rightarrow> dispatch_file_events file \<noteq> 0)"

text \<open>Of the files in \<open>F\<close>, exactly those with a selected event are in a list.\<close>

definition ready_exact :: "file_id set \<Rightarrow> dispatch \<Rightarrow> file_id list \<Rightarrow> file_id list \<Rightarrow> bool" where
  "ready_exact F d xs ys \<longleftrightarrow> links_ok d xs ys \<and> (\<forall>f \<in> F. f \<in> set xs \<union> set ys \<longleftrightarrow> pending d f)"

definition registered :: "dispatch \<Rightarrow> file_id \<Rightarrow> u32 \<Rightarrow> bool" where
  "registered d f bits \<longleftrightarrow> (\<exists>file. d_files d f = Some file \<and> df_context file \<and> bits AND NOT (df_kernel_mask file) = 0)"

text \<open>The other files keep their place, and no file changes its list.\<close>

definition others_keep :: "file_id \<Rightarrow> file_id list \<Rightarrow> file_id list \<Rightarrow> bool" where
  "others_keep f xs xs' \<longleftrightarrow> filter (\<lambda>g. g \<noteq> f) xs' = filter (\<lambda>g. g \<noteq> f) xs"

lemma others_keep_simps [simp]: "others_keep f xs xs" "others_keep f xs (xs @ [f])" "others_keep f xs (remove1 f xs)"
  by (simp_all add: others_keep_def) (induction xs; simp)

lemma others_keep_set: "others_keep f xs xs' \<Longrightarrow> g \<noteq> f \<Longrightarrow> g \<in> set xs' \<longleftrightarrow> g \<in> set xs"
  unfolding others_keep_def by (drule arg_cong [of _ _ set]) auto

lemma select_ok:
  assumes "links_ok d xs ys" "registered d f bits" "d_files d f = Some file" "f \<in> set xs \<union> set ys \<Longrightarrow> pending d f"
  shows "\<exists>d' xs'. dispatch_file_select f bits d = Some d' \<and> links_ok d' xs' ys \<and> others_keep f xs xs' \<and>
    d_files d' = (d_files d)(f \<mapsto> file\<lparr>df_user_mask := df_user_mask file OR bits\<rparr>) \<and>
    (f \<in> set xs' \<union> set ys \<longleftrightarrow> pending d' f)"
proof -
  let ?file = "file\<lparr>df_user_mask := df_user_mask file OR bits\<rparr>"
  let ?d = "upd_file f ?file d"
  have r: "df_context file" "bits AND NOT (df_kernel_mask file) = 0" using assms(2,3) by (auto simp: registered_def)
  have l: "links_ok ?d xs ys" using assms(1) by simp
  have mono: "df_events file AND (df_user_mask file OR bits) \<noteq> 0" if "df_events file AND df_user_mask file \<noteq> 0"
    using that by (metis bit.conj_disj_distrib or_eq_0_iff)
  show ?thesis
  proof (cases "dispatch_file_events ?file \<noteq> 0 \<and> f \<notin> set xs \<union> set ys")
    case True
    with links_ok_ready [OF l, of f] links_ok_linked [OF l, of f] assms(3) r show ?thesis
      by (intro exI [of _ "upd_links (c_list_link_before READY (FILE f)) ?d"] exI [of _ "xs @ [f]"])
        (auto simp: dispatch_file_select_def dispatch_file_events_def pending_def and.commute)
  next
    case False
    with l links_ok_linked [OF l, of f] assms(3,4) r mono show ?thesis
      by (intro exI [of _ ?d] exI [of _ xs])
        (auto simp: dispatch_file_select_def dispatch_file_events_def pending_def and.commute)
  qed
qed

text \<open>Both ways of losing an event end with the same test.\<close>

lemma drop_idle:
  assumes "links_ok d xs ys" "f \<in> set xs \<union> set ys \<longleftrightarrow> pending d f" "d_files d f = Some file"
    and "dispatch_file_events file' \<noteq> 0 \<Longrightarrow> dispatch_file_events file \<noteq> 0"
  defines "d1 \<equiv> upd_file f file' d"
  defines "d' \<equiv> (if df_events file' AND df_user_mask file' = 0 then upd_links (c_list_unlink (FILE f)) d1 else d1)"
  shows "\<exists>xs' ys'. links_ok d' xs' ys' \<and> others_keep f xs xs' \<and> others_keep f ys ys' \<and> d_files d' = (d_files d)(f \<mapsto> file') \<and>
    (f \<in> set xs' \<union> set ys' \<longleftrightarrow> pending d' f)"
proof (cases "dispatch_file_events file' = 0")
  case True
  have "links_ok d1 xs ys" using assms(1) by (simp add: d1_def)
  with True links_ok_unlink [of d1 xs ys f] links_ok_distinct [OF assms(1)] show ?thesis
    by (intro exI [of _ "remove1 f xs"] exI [of _ "remove1 f ys"])
      (auto simp: d'_def d1_def dispatch_file_events_def pending_def)
next
  case False
  with assms show ?thesis
    by (intro exI [of _ xs] exI [of _ ys]) (auto simp: d'_def d1_def dispatch_file_events_def pending_def)
qed

lemma and_clear: "(a AND NOT b) AND c \<noteq> 0 \<Longrightarrow> a AND c \<noteq> (0::u32)" "a AND (c AND NOT b) \<noteq> 0 \<Longrightarrow> a AND c \<noteq> (0::u32)"
proof -
  have "(a AND NOT b) AND c = (a AND c) AND NOT b" "a AND (c AND NOT b) = (a AND c) AND NOT b" by (simp_all add: ac_simps)
  then show "(a AND NOT b) AND c \<noteq> 0 \<Longrightarrow> a AND c \<noteq> 0" "a AND (c AND NOT b) \<noteq> 0 \<Longrightarrow> a AND c \<noteq> 0" by auto
qed

lemma deselect_ok:
  assumes "links_ok d xs ys" "f \<in> set xs \<union> set ys \<longleftrightarrow> pending d f" "registered d f bits" "d_files d f = Some file"
  shows "\<exists>d' xs' ys'. dispatch_file_deselect f bits d = Some d' \<and> links_ok d' xs' ys' \<and> others_keep f xs xs' \<and> others_keep f ys ys' \<and>
    d_files d' = (d_files d)(f \<mapsto> file\<lparr>df_user_mask := df_user_mask file AND NOT bits\<rparr>) \<and>
    (f \<in> set xs' \<union> set ys' \<longleftrightarrow> pending d' f)"
proof -
  let ?file = "file\<lparr>df_user_mask := df_user_mask file AND NOT bits\<rparr>"
  have "dispatch_file_deselect f bits d = Some (if df_events ?file AND df_user_mask ?file = 0
      then upd_links (c_list_unlink (FILE f)) (upd_file f ?file d) else upd_file f ?file d)"
    using assms(3,4) by (auto simp: dispatch_file_deselect_def registered_def Let_def)
  moreover have "dispatch_file_events ?file \<noteq> 0 \<Longrightarrow> dispatch_file_events file \<noteq> 0"
    using and_clear(2) by (simp add: dispatch_file_events_def)
  ultimately show ?thesis using drop_idle [OF assms(1,2,4), of ?file] by blast
qed

lemma clear_ok:
  assumes "links_ok d xs ys" "f \<in> set xs \<union> set ys \<longleftrightarrow> pending d f" "registered d f bits" "d_files d f = Some file"
  shows "\<exists>d' xs' ys'. dispatch_file_clear f bits d = Some d' \<and> links_ok d' xs' ys' \<and> others_keep f xs xs' \<and> others_keep f ys ys' \<and>
    d_files d' = (d_files d)(f \<mapsto> file\<lparr>df_events := df_events file AND NOT bits\<rparr>) \<and>
    (f \<in> set xs' \<union> set ys' \<longleftrightarrow> pending d' f)"
proof -
  let ?file = "file\<lparr>df_events := df_events file AND NOT bits\<rparr>"
  have "dispatch_file_clear f bits d = Some (if df_events ?file AND df_user_mask ?file = 0
      then upd_links (c_list_unlink (FILE f)) (upd_file f ?file d) else upd_file f ?file d)"
    using assms(3,4) by (auto simp: dispatch_file_clear_def registered_def Let_def)
  moreover have "dispatch_file_events ?file \<noteq> 0 \<Longrightarrow> dispatch_file_events file \<noteq> 0"
    using and_clear(1) by (simp add: dispatch_file_events_def)
  ultimately show ?thesis using drop_idle [OF assms(1,2,4), of ?file] by blast
qed

lemma ready_exact_step:
  assumes "ready_exact F d xs ys" "d_files d' = (d_files d)(f \<mapsto> file)" "links_ok d' xs' ys'" "others_keep f xs xs'"
    "others_keep f ys ys'" "f \<in> set xs' \<union> set ys' \<longleftrightarrow> pending d' f"
  shows "ready_exact F d' xs' ys'"
proof -
  have "g \<in> set xs' \<union> set ys' \<longleftrightarrow> pending d' g" if "g \<in> F" for g
  proof (cases "g = f")
    case False
    then have "g \<in> set xs' \<union> set ys' \<longleftrightarrow> g \<in> set xs \<union> set ys" using assms(4,5) by (simp add: others_keep_set)
    with False that assms(1,2) show ?thesis by (simp add: ready_exact_def pending_def)
  qed (use assms(6) in simp)
  with assms(3) show ?thesis by (simp add: ready_exact_def)
qed

text \<open>
  C39: The ready list is exact. As long as of all files exactly those with an event that is both
  signalled and selected are in the ready list or in the list of the running round, selecting,
  deselecting and clearing events of a registered file never fails, changes just its mask,
  keeps the order of all other files, and keeps the lists exact: the file is queued as soon as
  a selected event is signalled, once, and leaves the lists as soon as none is left.
\<close>
theorem dispatch_file_ready_exact:
  assumes "ready_exact F d xs ys" "registered d f bits" "d_files d f = Some file" "f \<in> F"
  shows "(\<exists>d' xs'. dispatch_file_select f bits d = Some d' \<and> ready_exact F d' xs' ys \<and> others_keep f xs xs' \<and>
      d_files d' = (d_files d)(f \<mapsto> file\<lparr>df_user_mask := df_user_mask file OR bits\<rparr>)) \<and>
    (\<exists>d' xs' ys'. dispatch_file_deselect f bits d = Some d' \<and> ready_exact F d' xs' ys' \<and> others_keep f xs xs' \<and> others_keep f ys ys' \<and>
      d_files d' = (d_files d)(f \<mapsto> file\<lparr>df_user_mask := df_user_mask file AND NOT bits\<rparr>)) \<and>
    (\<exists>d' xs' ys'. dispatch_file_clear f bits d = Some d' \<and> ready_exact F d' xs' ys' \<and> others_keep f xs xs' \<and> others_keep f ys ys' \<and>
      d_files d' = (d_files d)(f \<mapsto> file\<lparr>df_events := df_events file AND NOT bits\<rparr>))"
proof -
  have l: "links_ok d xs ys" "f \<in> set xs \<union> set ys \<longleftrightarrow> pending d f" using assms(1,4) by (auto simp: ready_exact_def)
  from l(2) have imp: "f \<in> set xs \<union> set ys \<Longrightarrow> pending d f" by simp
  from select_ok [OF l(1) assms(2,3) imp] obtain d' xs' where "dispatch_file_select f bits d = Some d'" "links_ok d' xs' ys"
    "others_keep f xs xs'" "d_files d' = (d_files d)(f \<mapsto> file\<lparr>df_user_mask := df_user_mask file OR bits\<rparr>)"
    "f \<in> set xs' \<union> set ys \<longleftrightarrow> pending d' f" by blast
  moreover from this have "ready_exact F d' xs' ys" using ready_exact_step [OF assms(1)] by simp
  ultimately have "\<exists>d' xs'. dispatch_file_select f bits d = Some d' \<and> ready_exact F d' xs' ys \<and> others_keep f xs xs' \<and>
      d_files d' = (d_files d)(f \<mapsto> file\<lparr>df_user_mask := df_user_mask file OR bits\<rparr>)" by blast
  moreover have "\<exists>d' xs' ys'. dispatch_file_deselect f bits d = Some d' \<and> ready_exact F d' xs' ys' \<and> others_keep f xs xs' \<and>
      others_keep f ys ys' \<and> d_files d' = (d_files d)(f \<mapsto> file\<lparr>df_user_mask := df_user_mask file AND NOT bits\<rparr>)"
    using deselect_ok [OF l assms(2,3)] ready_exact_step [OF assms(1)] by blast
  moreover have "\<exists>d' xs' ys'. dispatch_file_clear f bits d = Some d' \<and> ready_exact F d' xs' ys' \<and> others_keep f xs xs' \<and>
      others_keep f ys ys' \<and> d_files d' = (d_files d)(f \<mapsto> file\<lparr>df_events := df_events file AND NOT bits\<rparr>)"
    using clear_ok [OF l assms(2,3)] ready_exact_step [OF assms(1)] by blast
  ultimately show ?thesis by blast
qed

section \<open>Polling\<close>

text \<open>A file in the array of the context, with its descriptor.\<close>

definition polled :: "dispatch \<Rightarrow> pollfd \<Rightarrow> file_id \<Rightarrow> bool" where
  "polled d p f \<longleftrightarrow> (\<exists>file. d_files d f = Some file \<and> df_context file \<and> df_fd file = pfd_fd p \<and> pfd_fd p \<ge> 0)"

definition level_events :: "u32 \<Rightarrow> dispatch_file \<Rightarrow> dispatch_file" where
  "level_events e file = file\<lparr>df_events := e AND df_kernel_mask file AND df_user_mask file\<rparr>"

lemma poll_report_ok:
  assumes "links_ok d xs []" "polled d p f" "d_files d f = Some file"
  shows "\<exists>d' xs'. poll_report (pfd_fd p) f e d = Some d' \<and> links_ok d' xs' [] \<and> others_keep f xs xs' \<and>
    d_files d' = (d_files d)(f \<mapsto> level_events e file) \<and>
    (f \<in> set xs' \<longleftrightarrow> e \<noteq> 0 \<and> (df_events (level_events e file) \<noteq> 0 \<or> f \<in> set xs)) \<and>
    d_fds d' = d_fds d \<and> d_fd_files d' = d_fd_files d"
proof -
  have r: "df_context file" "df_fd file = pfd_fd p" "pfd_fd p \<ge> 0" using assms(2,3) by (auto simp: polled_def)
  let ?d = "upd_file f (level_events e file) d"
  have l: "links_ok ?d xs []" "c_list_is_linked (d_links d) (FILE f) \<longleftrightarrow> f \<in> set xs"
    using assms(1) links_ok_linked [OF assms(1), of f] by simp_all
  have dist: "distinct xs" using links_ok_distinct [OF assms(1)] by simp
  consider "e = 0" | "e \<noteq> 0" "df_events (level_events e file) \<noteq> 0" "f \<notin> set xs"
    | "e \<noteq> 0" "df_events (level_events e file) = 0 \<or> f \<in> set xs" by blast
  then show ?thesis
  proof cases
    case 1
    then have "file\<lparr>df_events := 0\<rparr> = level_events e file" by (simp add: level_events_def)
    with 1 assms(3) r l links_ok_unlink [OF l(1), of f] dist show ?thesis
      by (intro exI [of _ "upd_links (c_list_unlink (FILE f)) ?d"] exI [of _ "remove1 f xs"])
        (auto simp: poll_report_def Let_def c_list_unlink_def)
  next
    case 2
    with assms(3) r l links_ok_ready [OF l(1), of f] show ?thesis
      by (intro exI [of _ "upd_links (c_list_link_before READY (FILE f)) ?d"] exI [of _ "xs @ [f]"])
        (auto simp: poll_report_def Let_def level_events_def)
  next
    case 3
    with assms(3) r l show ?thesis
      by (intro exI [of _ ?d] exI [of _ xs]) (auto simp: poll_report_def Let_def level_events_def)
  qed
qed

lemma poll_reports_ok:
  "\<lbrakk>links_ok d xs []; list_all2 (polled d) ps fs; length es = length fs; distinct fs\<rbrakk> \<Longrightarrow>
   \<exists>d' xs'. poll_reports ps fs es d = Some d' \<and> links_ok d' xs' [] \<and>
     (\<forall>g. g \<notin> set fs \<longrightarrow> d_files d' g = d_files d g \<and> (g \<in> set xs' \<longleftrightarrow> g \<in> set xs)) \<and>
     (\<forall>i < length fs. \<forall>file. d_files d (fs ! i) = Some file \<longrightarrow> d_files d' (fs ! i) = Some (level_events (es ! i) file) \<and>
        (fs ! i \<in> set xs' \<longleftrightarrow> es ! i \<noteq> 0 \<and> (df_events (level_events (es ! i) file) \<noteq> 0 \<or> fs ! i \<in> set xs)))"
proof (induction ps arbitrary: fs es d xs)
  case Nil
  then show ?case by auto
next
  case (Cons p ps)
  then obtain f fs' e es' where v: "fs = f # fs'" "es = e # es'" by (metis Suc_length_conv length_Cons list.rel_cases list.distinct(1))
  then have "polled d p f" using Cons.prems(2) by simp
  then obtain fi where fl: "d_files d f = Some fi" by (auto simp: polled_def)
  from poll_report_ok [OF Cons.prems(1) \<open>polled d p f\<close> fl, of e] obtain d1 xs1 where
    d1: "poll_report (pfd_fd p) f e d = Some d1" "links_ok d1 xs1 []" "others_keep f xs xs1"
      "d_files d1 = (d_files d)(f \<mapsto> level_events e fi)"
      "f \<in> set xs1 \<longleftrightarrow> e \<noteq> 0 \<and> (df_events (level_events e fi) \<noteq> 0 \<or> f \<in> set xs)" by blast
  have nf: "f \<notin> set fs'" "distinct fs'" using Cons.prems(4) v by simp_all
  have "list_all2 (polled d) ps fs'" using Cons.prems(2) v by simp
  then have "list_all2 (polled d1) ps fs'"
    by (rule list.rel_mono_strong) (use nf(1) d1(4) in \<open>auto simp: polled_def\<close>)
  from Cons.IH [OF d1(2) this _ nf(2), of es'] v Cons.prems(3) obtain d' xs' where
    d': "poll_reports ps fs' es' d1 = Some d'" "links_ok d' xs' []"
      "\<forall>g. g \<notin> set fs' \<longrightarrow> d_files d' g = d_files d1 g \<and> (g \<in> set xs' \<longleftrightarrow> g \<in> set xs1)"
      "\<forall>i < length fs'. \<forall>file. d_files d1 (fs' ! i) = Some file \<longrightarrow> d_files d' (fs' ! i) = Some (level_events (es' ! i) file) \<and>
        (fs' ! i \<in> set xs' \<longleftrightarrow> es' ! i \<noteq> 0 \<and> (df_events (level_events (es' ! i) file) \<noteq> 0 \<or> fs' ! i \<in> set xs1))" by auto
  have same: "d_files d1 g = d_files d g \<and> (g \<in> set xs1 \<longleftrightarrow> g \<in> set xs)" if "g \<noteq> f" for g
    using that d1(3,4) by (simp add: others_keep_set)
  have ne: "fs' ! i \<noteq> f" if "i < length fs'" for i using that nf(1) nth_mem by blast
  have "poll_reports (p # ps) fs es d = Some d'" using v d1(1) d'(1) by simp
  moreover have "\<forall>g. g \<notin> set fs \<longrightarrow> d_files d' g = d_files d g \<and> (g \<in> set xs' \<longleftrightarrow> g \<in> set xs)"
    using d'(3) same v by simp
  moreover have "d_files d' (fs ! i) = Some (level_events (es ! i) g) \<and>
      (fs ! i \<in> set xs' \<longleftrightarrow> es ! i \<noteq> 0 \<and> (df_events (level_events (es ! i) g) \<noteq> 0 \<or> fs ! i \<in> set xs))"
    if "i < length fs" "d_files d (fs ! i) = Some g" for i g
  proof (cases i)
    case 0
    then show ?thesis using that d'(3) nf(1) d1(4,5) fl v by simp
  next
    case (Suc j)
    then show ?thesis using that d'(4) same ne [of j] v by simp
  qed
  ultimately show ?case using d'(2) by blast
qed

lemma poll_request_ok: "list_all2 (polled d) ps fs \<Longrightarrow> poll_request fs d = Some (map (\<lambda>f. df_user_mask (the (d_files d f))) fs)"
  by (induction ps fs rule: list_all2_induct) (auto simp: polled_def)

text \<open>
  Polling mirrors the level of the kernel. If the arrays list the registered files with their
  descriptors, the kernel is asked for exactly the selected events, and after its answer every
  file caches exactly what was reported for it within its masks: an event of an earlier round
  that was not reported again is gone. A file with a cached event is in the ready list; a file
  for which nothing was reported is not; and no file is in the list twice.
\<close>
theorem dispatch_poll_levels:
  assumes "links_ok d xs []" "d_fds d = Some ps" "d_fd_files d = Some fs" "list_all2 (polled d) ps fs" "distinct fs"
    and "poll (map (\<lambda>f. df_user_mask (the (d_files d f))) fs) = POLL_EVENTS es" "length es = length fs"
  shows "\<exists>d' xs'. dispatch_context_poll_zephyr True poll d = Some (True, d') \<and> links_ok d' xs' [] \<and> distinct xs' \<and>
    (\<forall>i < length fs. \<exists>file. d_files d (fs ! i) = Some file \<and> d_files d' (fs ! i) = Some (level_events (es ! i) file) \<and>
       (dispatch_file_events (level_events (es ! i) file) \<noteq> 0 \<longrightarrow> fs ! i \<in> set xs') \<and> (es ! i = 0 \<longrightarrow> fs ! i \<notin> set xs'))"
proof -
  have fd: "\<not> list_ex (\<lambda>p. pfd_fd p < 0) ps"
    using assms(4) by (auto simp: list_ex_iff list_all2_conv_all_nth polled_def in_set_conv_nth not_less)
  from poll_reports_ok [OF assms(1,4,7,5)] obtain d' xs' where
    d': "poll_reports ps fs es d = Some d'" "links_ok d' xs' []"
      "\<forall>i < length fs. \<forall>file. d_files d (fs ! i) = Some file \<longrightarrow> d_files d' (fs ! i) = Some (level_events (es ! i) file) \<and>
        (fs ! i \<in> set xs' \<longleftrightarrow> es ! i \<noteq> 0 \<and> (df_events (level_events (es ! i) file) \<noteq> 0 \<or> fs ! i \<in> set xs))" by blast
  have "\<exists>file. d_files d (fs ! i) = Some file \<and> d_files d' (fs ! i) = Some (level_events (es ! i) file) \<and>
       (dispatch_file_events (level_events (es ! i) file) \<noteq> 0 \<longrightarrow> fs ! i \<in> set xs') \<and> (es ! i = 0 \<longrightarrow> fs ! i \<notin> set xs')"
    if i: "i < length fs" for i
  proof -
    obtain fi where fi: "d_files d (fs ! i) = Some fi" using assms(4) i by (auto simp: list_all2_conv_all_nth polled_def)
    with d'(3) i have "d_files d' (fs ! i) = Some (level_events (es ! i) fi)"
      "fs ! i \<in> set xs' \<longleftrightarrow> es ! i \<noteq> 0 \<and> (df_events (level_events (es ! i) fi) \<noteq> 0 \<or> fs ! i \<in> set xs)" by blast+
    with fi show ?thesis by (auto simp: dispatch_file_events_def level_events_def)
  qed
  moreover have "dispatch_context_poll_zephyr True poll d = Some (True, d')"
    using assms(2,3,6) fd d'(1) poll_request_ok [OF assms(4)] by (simp add: dispatch_context_poll_zephyr_def)
  ultimately show ?thesis using d'(2) links_ok_distinct [OF d'(2)] by blast
qed

section \<open>Rounds\<close>

definition valid_file :: "dispatch \<Rightarrow> file_id \<Rightarrow> bool" where
  "valid_file d f \<longleftrightarrow> (\<exists>file. d_files d f = Some file \<and> df_fd file \<ge> 0 \<and> df_fn file \<and> df_context file)"

text \<open>
  What a round relies on: a callback returns, leaves the files that still wait for their turn
  alone, keeps its own file allocated, and does not put it into the ready list.
\<close>

definition keeps_round :: "'w callback \<Rightarrow> bool" where
  "keeps_round fn \<longleftrightarrow> (\<forall>f w d xs ys. links_ok d xs ys \<and> f \<notin> set xs \<union> set ys \<and> valid_file d f \<and> (\<forall>g \<in> set ys. valid_file d g) \<longrightarrow>
     (\<exists>r w' d' xs'. fn f w d = Some (r, w', d') \<and> links_ok d' xs' ys \<and> f \<notin> set xs' \<and> d_files d' f \<noteq> None \<and>
        (\<forall>g \<in> set ys. valid_file d' g)))"

text \<open>The callback with a record of its calls.\<close>

definition logged :: "'w callback \<Rightarrow> ('w \<times> file_id list) callback" where
  "logged fn f w d = do { (r, w', d') \<leftarrow> fn f (fst w) d; Some (r, (w', snd w @ [f]), d') }"

lemma links_ok_splice:
  assumes "links_ok d xs ys"
  shows "links_ok (upd_links (c_list_splice READY TODO) d) (xs @ ys) []"
    "c_list_is_empty (c_list_splice READY TODO (d_links d)) TODO"
proof -
  have l: "is_list (d_links d) READY (map FILE xs)" "is_list (d_links d) TODO (map FILE ys)" "set xs \<inter> set ys = {}"
    using assms by (simp_all add: links_ok_def)
  note s = splice_lists [OF l(1,2) links_ok_disjoint [OF l(3)]]
  have "is_list (c_list_splice READY TODO (d_links d)) (FILE f) []" if f: "f \<notin> set xs \<union> set ys" for f
  proof -
    have "nxt (d_links d) (FILE f) = FILE f" "prv (d_links d) (FILE f) = FILE f"
      using assms f by (simp_all add: links_ok_def is_list_Nil)
    moreover have "{prv (d_links d) READY, nxt (d_links d) TODO, prv (d_links d) TODO} \<inter> {FILE f} = {}"
      using ring_ends(1,2) [OF l(1)] ring_ends(1,2) [OF l(2)] f last_in_set [of "map FILE xs"] last_in_set [of "map FILE ys"]
        hd_in_set [of "map FILE ys"] by (auto split: if_splits)
    ultimately show ?thesis by (auto simp: is_list_Nil c_list_splice_def c_list_init_def Let_def)
  qed
  with s show "links_ok (upd_links (c_list_splice READY TODO) d) (xs @ ys) []" by (simp add: links_ok_def)
  from s show "c_list_is_empty (c_list_splice READY TODO (d_links d)) TODO"
    by (simp add: is_list_Nil c_list_is_empty_def c_list_is_linked_def)
qed

lemma dispatch_loop_round:
  assumes "keeps_round fn"
  shows "links_ok d xs ys \<Longrightarrow> \<forall>g \<in> set ys. valid_file d g \<Longrightarrow>
    \<exists>r w' d' xs' hs us. dispatch_loop fn w d = Some (r, w', d') \<and> dispatch_loop (logged fn) (w, l) d = Some (r, (w', l @ hs), d') \<and>
      links_ok d' xs' [] \<and> ys = hs @ us \<and> (r = 0 \<longrightarrow> us = []) \<and> 
      (r \<noteq> 0 \<longrightarrow> set us \<subseteq> set xs' \<and> hs \<noteq> [] \<and> (\<exists>v e e'. fn (last hs) v e = Some (r, w', e')))"
proof (induction ys arbitrary: w l d xs)
  case Nil
  then have "c_list_is_empty (d_links d) TODO" by (simp add: links_ok_def is_list_Nil c_list_is_empty_def c_list_is_linked_def)
  with Nil show ?case by (subst (1 2) dispatch_loop.simps) auto
next
  case (Cons f ys)
  let ?d = "upd_links (c_list_unlink (FILE f)) d"
  note t = links_ok_take [OF Cons.prems(1)]
  have f: "f \<notin> set xs \<union> set ys" "valid_file ?d f" "\<forall>g \<in> set ys. valid_file ?d g"
    using Cons.prems links_ok_distinct [OF Cons.prems(1)] by (auto simp: links_ok_def valid_file_def)
  then obtain fi where fi: "d_files d f = Some fi" "df_fd fi \<ge> 0" "df_fn fi" "df_context fi" by (auto simp: valid_file_def)
  from assms [unfolded keeps_round_def, rule_format, OF conjI [OF t(3) conjI [OF f(1) conjI [OF f(2,3)]]], of w] obtain r w' d1 xs1 where
    c: "fn f w ?d = Some (r, w', d1)" "links_ok d1 xs1 ys" "f \<notin> set xs1" "d_files d1 f \<noteq> None" "\<forall>g \<in> set ys. valid_file d1 g"
    by blast
  have lc: "logged fn f (w, l) ?d = Some (r, (w', l @ [f]), d1)" using c(1) by (simp add: logged_def)
  show ?case
  proof (cases "r = 0")
    case False
    have "dispatch_loop fn w d = Some (r, w', upd_links (c_list_splice READY TODO) d1)"
      by (subst dispatch_loop.simps) (use t fi c False links_ok_splice [OF c(2)] in simp)
    moreover have "dispatch_loop (logged fn) (w, l) d = Some (r, (w', l @ [f]), upd_links (c_list_splice READY TODO) d1)"
      by (subst dispatch_loop.simps) (use t fi lc False links_ok_splice [OF c(2)] in simp)
    ultimately show ?thesis using False links_ok_splice(1) [OF c(2)]
      by (intro exI [of _ r] exI [of _ w'] exI [of _ "upd_links (c_list_splice READY TODO) d1"] exI [of _ "xs1 @ ys"]
          exI [of _ "[f]"] exI [of _ ys]) (use c(1) in auto)
  next
    case True
    obtain fj where fj: "d_files d1 f = Some fj" using c(4) by blast
    define d2 where "d2 = (if df_events fj AND df_user_mask fj \<noteq> 0 then upd_links (c_list_link_before READY (FILE f)) d1 else d1)"
    have s: "dispatch_loop fn w d = dispatch_loop fn w' d2" "dispatch_loop (logged fn) (w, l) d = dispatch_loop (logged fn) (w', l @ [f]) d2"
      by (subst dispatch_loop.simps, use t fi c(1) lc True fj in \<open>simp add: d2_def\<close>)+
    have "\<exists>xs2. links_ok d2 xs2 ys"
      using links_ok_ready [OF c(2), of f] c(2,3) f(1) by (auto simp: d2_def)
    moreover have "\<forall>g \<in> set ys. valid_file d2 g" using c(5) by (simp add: d2_def valid_file_def)
    ultimately obtain r' w'' d' xs' hs us where i: "dispatch_loop fn w' d2 = Some (r', w'', d')"
      "dispatch_loop (logged fn) (w', l @ [f]) d2 = Some (r', (w'', (l @ [f]) @ hs), d')"
      "links_ok d' xs' []" "ys = hs @ us" "r' = 0 \<longrightarrow> us = []"
      "r' \<noteq> 0 \<longrightarrow> set us \<subseteq> set xs' \<and> hs \<noteq> [] \<and> (\<exists>v e e'. fn (last hs) v e = Some (r', w'', e'))"
      using Cons.IH [of d2 _ w' "l @ [f]"] by blast
    then show ?thesis
      by (intro exI [of _ r'] exI [of _ w''] exI [of _ d'] exI [of _ xs'] exI [of _ "f # hs"] exI [of _ us]) (auto simp: s)
  qed
qed

lemma links_ok_swap:
  assumes "links_ok d xs []"
  shows "links_ok (upd_links (c_list_swap TODO READY \<circ> c_list_init TODO) d) [] xs"
proof -
  have l: "is_list (d_links d) READY (map FILE xs)" "is_list (d_links d) TODO []" using assms by (simp_all add: links_ok_def)
  then have init: "c_list_init TODO (d_links d) = d_links d" by (cases "d_links d") (simp add: is_list_Nil c_list_init_def fun_upd_idem)
  have s: "is_list (c_list_swap TODO READY (d_links d)) TODO (map FILE xs) \<and> is_list (c_list_swap TODO READY (d_links d)) READY []"
    by (rule swap_lists [OF l(2,1)]) auto
  have "is_list (c_list_swap TODO READY (d_links d)) (FILE f) []" if f: "f \<notin> set xs" for f
  proof -
    have o: "nxt (d_links d) (FILE f) = FILE f" "prv (d_links d) (FILE f) = FILE f"
      using assms f by (simp_all add: links_ok_def is_list_Nil)
    have "nxt (d_links d) READY \<noteq> FILE f" "prv (d_links d) READY \<noteq> FILE f" "nxt (d_links d) TODO = TODO" "prv (d_links d) TODO = TODO"
      using ring_ends(1,2) [OF l(1)] f last_in_set [of "map FILE xs"] hd_in_set [of "map FILE xs"] l(2)
      by (auto simp: is_list_Nil split: if_splits)
    with o show ?thesis by (auto simp: is_list_Nil c_list_swap_def Let_def)
  qed
  with s show ?thesis by (simp add: links_ok_def init)
qed


section \<open>The arrays of the port\<close>

lemma mset_swap_remove:
  assumes "i < length xs"
  shows "mset (butlast (xs[i := last xs])) = mset xs - {#xs ! i#}"
proof (cases "i = length xs - 1")
  case True
  have ne: "xs \<noteq> []" using assms by auto
  then have "xs ! i = last xs" using True by (simp add: last_conv_nth)
  moreover from this have "xs[i := last xs] = xs" by (metis list_update_id)
  moreover have "mset xs = add_mset (last xs) (mset (butlast xs))"
    using ne by (metis append_butlast_last_id mset.simps(1,2) mset_append union_mset_add_mset_right add.right_neutral)
  ultimately show ?thesis by simp
next
  case False
  with assms have i: "i < length (butlast xs)" by simp
  have xs: "xs = butlast xs @ [last xs]" using assms by (metis append_butlast_last_id list.size(3) not_less_zero)
  have "butlast (xs[i := last xs]) = (butlast xs)[i := last xs]" using i assms by (simp add: butlast_list_update)
  then have "mset (butlast (xs[i := last xs])) = add_mset (last xs) (mset (butlast xs) - {#butlast xs ! i#})"
    using i by (simp add: mset_update)
  also have "\<dots> = add_mset (last xs) (mset (butlast xs)) - {#butlast xs ! i#}" using i by simp
  also have "add_mset (last xs) (mset (butlast xs)) = mset xs" by (subst (3) xs) simp
  finally show ?thesis using i by (simp add: nth_butlast)
qed

lemma file_index_Some: "file_index f gs = Some i \<Longrightarrow> i < length gs \<and> gs ! i = f"
  by (induction gs arbitrary: i) (auto split: if_splits)

lemma file_index_None: "file_index f gs = None \<longleftrightarrow> f \<notin> set gs"
  by (induction gs) auto

text \<open>A file that is unregistered leaves the arrays, its list and the count; the other entries stay paired.\<close>

lemma deinit_arrays:
  assumes "d_fds d = Some ps" "d_fd_files d = Some fs" "length ps = length fs" "f \<in> set fs" "zephyr_port env"
    and "d_files d f = Some file" "df_context file" "links_ok d xs ys"
  shows "\<exists>i d' ps' fs'. dispatch_file_deinit env f d = Some d' \<and> i < length fs \<and> fs ! i = f \<and> d_fds d' = Some ps' \<and> d_fd_files d' = Some fs' \<and>
    length ps' = length fs' \<and> mset (zip ps' fs') = mset (zip ps fs) - {#(ps ! i, f)#} \<and> d_n_files d' = d_n_files d - 1 \<and>
    links_ok d' (remove1 f xs) (remove1 f ys)"
proof -
  obtain i where i: "file_index f fs = Some i" using assms(4) file_index_None [of f fs] by (cases "file_index f fs") auto
  note n = file_index_Some [OF i]
  have ne: "ps \<noteq> []" "fs \<noteq> []" using n assms(3) by auto
  have "zip (butlast (ps[i := last ps])) (butlast (fs[i := last fs])) = butlast ((zip ps fs)[i := last (zip ps fs)])"
    using assms(3) ne by (simp add: butlast_conv_take take_zip update_zip last_zip)
  then have "mset (zip (butlast (ps[i := last ps])) (butlast (fs[i := last fs]))) = mset (zip ps fs) - {#(ps ! i, f)#}"
    using mset_swap_remove [of i "zip ps fs"] n assms(3) by simp
  with i n assms links_ok_unlink [OF assms(8), of f] show ?thesis
    by (auto simp: dispatch_file_deinit_def links_ok_def)
qed

text \<open>If just one of the arrays can grow, the context keeps a pointer to freed memory, and the next poll uses it.\<close>

theorem dispatch_file_init_dangles:
  assumes "zephyr_port env" "d_fds d = Some ps" "d_fd_files d = Some fs" "d_n_fds_allocated d \<le> length ps"
    and "realloc_fds_ok env \<noteq> realloc_files_ok env"
  shows "\<exists>d'. dispatch_file_init env f fd bits events d = Some (False, d') \<and> dispatch_context_poll_zephyr ok poll d' = None"
  using assms by (auto simp: dispatch_file_init_def poll_arrays_grow_def dispatch_context_poll_zephyr_def)

section \<open>Callbacks that break a round\<close>

text \<open>
  After a callback the round looks at its file again. \<open>peer_dispatch\<close> may have freed the peer that
  embeds the file (\<open>src/bus/peer.c\<close>: "@peer might be deallocated here"), so this is an access to
  freed memory.
\<close>

theorem dispatch_round_uses_freed_file:
  assumes "links_ok d xs (f # ys)" "valid_file d f"
    and "fn f w (upd_links (c_list_unlink (FILE f)) d) = Some (0, w', d')" "d_files d' f = None"
  shows "dispatch_loop fn w d = None"
  using links_ok_take(1,2) [OF assms(1)] assms(2-4) by (subst dispatch_loop.simps) (auto simp: valid_file_def)

text \<open>
  A callback that selects an event which is signalled already queues its own file, and the
  round links it again. If another file was queued in between, it drops out of the ready list,
  while its link still counts as linked, so it is not queued again: its events are lost.
\<close>

definition two_files :: dispatch where
  "two_files = DISPATCH_CONTEXT_NULL\<lparr>d_files := [0 \<mapsto> \<lparr>df_context = True, df_fn = True, df_fd = 3, df_user_mask = 1, df_kernel_mask = 0x15, df_events = 5\<rparr>,
     1 \<mapsto> \<lparr>df_context = True, df_fn = True, df_fd = 4, df_user_mask = 0, df_kernel_mask = 0x15, df_events = 4\<rparr>],
     d_links := c_list_link_before TODO (FILE 0) \<lparr>nxt = (\<lambda>l. l), prv = (\<lambda>l. l)\<rparr>, d_n_files := 2\<rparr>"

text \<open>The input was read and cleared; then a reply is queued for the file itself, and a signal for another one.\<close>

definition reply_callback :: "unit callback" where
  "reply_callback f w d = do {
     d \<leftarrow> dispatch_file_clear f 1 d;
     d \<leftarrow> dispatch_file_select f 4 d;
     d \<leftarrow> dispatch_file_select 1 4 d;
     Some (0, w, d) }"

lemma relink_loses_file:
  "\<exists>d'. dispatch_loop reply_callback () two_files = Some (0, (), d') \<and> pending d' 1 \<and> c_list_is_linked (d_links d') (FILE 1) \<and>
     c_list_contains (d_links d') READY (FILE 1) = Some False \<and>
     map_option (\<lambda>d. c_list_contains (d_links d) READY (FILE 1)) (dispatch_file_select 1 4 d') = Some (Some False)"
proof -
  note defs = two_files_def DISPATCH_CONTEXT_NULL_def reply_callback_def dispatch_file_clear_def dispatch_file_select_def
      c_list_is_empty_def c_list_is_linked_def c_list_link_before_def link_between_def c_list_unlink_def c_list_unlink_stale_def c_list_init_def
  let ?d = "upd_links (c_list_unlink (FILE 0)) two_files"
  obtain d1 where c: "reply_callback 0 () ?d = Some (0, (), d1)" by (simp add: defs)
  have d1: "d_files d1 0 = Some \<lparr>df_context = True, df_fn = True, df_fd = 3, df_user_mask = 5, df_kernel_mask = 0x15, df_events = 4\<rparr>"
    "d_files d1 1 = Some \<lparr>df_context = True, df_fn = True, df_fd = 4, df_user_mask = 4, df_kernel_mask = 0x15, df_events = 4\<rparr>"
    "nxt (d_links d1) = (\<lambda>l. l)(READY := FILE 0, FILE 0 := FILE 1, FILE 1 := READY)"
    "prv (d_links d1) = (\<lambda>l. l)(READY := FILE 1, FILE 0 := READY, FILE 1 := FILE 0)"
    using c by (simp_all add: defs fun_eq_iff) auto
  have t: "\<not> c_list_is_empty (d_links two_files) TODO" "nxt (d_links two_files) TODO = FILE 0"
    "d_files two_files 0 = Some \<lparr>df_context = True, df_fn = True, df_fd = 3, df_user_mask = 1, df_kernel_mask = 0x15, df_events = 5\<rparr>"
    by (simp_all add: defs)
  let ?e = "upd_links (c_list_link_before READY (FILE 0)) d1"
  have n: "nxt (d_links ?e) = (\<lambda>l. l)(READY := FILE 0, FILE 0 := READY, FILE 1 := FILE 0)" "d_files ?e 1 = d_files d1 1"
    by (auto simp: c_list_link_before_def link_between_def d1 fun_eq_iff)
  have "dispatch_loop reply_callback () two_files = dispatch_loop reply_callback () ?e"
    by (subst dispatch_loop.simps) (simp add: c d1 t)
  also have "\<dots> = Some (0, (), ?e)" by (subst dispatch_loop.simps) (use n in \<open>simp add: c_list_is_empty_def c_list_is_linked_def\<close>)
  finally have r: "dispatch_loop reply_callback () two_files = Some (0, (), ?e)" .
  have lost: "c_list_contains st READY (FILE 1) = Some False" if st: "nxt st = nxt (d_links ?e)" for st
  proof -
    have m: "nxt st READY = FILE 0" "nxt st (FILE 0) = READY" unfolding st n(1) by simp_all
    show ?thesis unfolding c_list_contains_def m by (subst contains_from.simps, simp add: m, subst contains_from.simps, simp)
  qed
  have "pending ?e 1" "c_list_is_linked (d_links ?e) (FILE 1)"
    using n d1(2) by (simp_all add: pending_def dispatch_file_events_def c_list_is_linked_def)
  moreover have "\<exists>d2. dispatch_file_select 1 4 ?e = Some d2 \<and> d_links d2 = d_links ?e"
    using n d1(2) by (simp add: dispatch_file_select_def c_list_is_linked_def)
  ultimately show ?thesis using r lost by auto
qed

section \<open>Concrete instances\<close>

definition some_dispatch :: dispatch where
  "some_dispatch = two_files\<lparr>d_links := c_list_link_before READY (FILE 0) \<lparr>nxt = (\<lambda>l. l), prv = (\<lambda>l. l)\<rparr>,
     d_fds := Some [\<lparr>pfd_fd = 3, pfd_events = 0x15, pfd_revents = 5\<rparr>, \<lparr>pfd_fd = 4, pfd_events = 0x15, pfd_revents = 5\<rparr>],
     d_fd_files := Some [0, 1], d_n_fds_allocated := 8\<rparr>"

lemma some_dispatch_links: "links_ok some_dispatch [0] []"
proof -
  have "links_ok DISPATCH_CONTEXT_NULL [] []" by (simp add: links_ok_def is_list_Nil DISPATCH_CONTEXT_NULL_def)
  from links_ok_ready [OF this, of 0] show ?thesis by (simp add: links_ok_def some_dispatch_def DISPATCH_CONTEXT_NULL_def)
qed

lemma some_dispatch_files:
  "d_files some_dispatch 0 = Some \<lparr>df_context = True, df_fn = True, df_fd = 3, df_user_mask = 1, df_kernel_mask = 0x15, df_events = 5\<rparr>"
  "d_files some_dispatch 1 = Some \<lparr>df_context = True, df_fn = True, df_fd = 4, df_user_mask = 0, df_kernel_mask = 0x15, df_events = 4\<rparr>"
  by (simp_all add: some_dispatch_def two_files_def)

theorem dispatch_file_ready_exact_witness:
  "ready_exact {0, 1} some_dispatch [0] [] \<and>
   (\<exists>d' xs'. dispatch_file_select 1 4 some_dispatch = Some d' \<and> ready_exact {0, 1} d' xs' [] \<and> pending d' 1)"
proof -
  have e: "ready_exact {0, 1} some_dispatch [0] []"
    using some_dispatch_links some_dispatch_files by (auto simp: ready_exact_def pending_def dispatch_file_events_def)
  have r: "registered some_dispatch 1 4" using some_dispatch_files by (simp add: registered_def)
  from dispatch_file_ready_exact [OF e r some_dispatch_files(2)] obtain d' xs' where
    "dispatch_file_select 1 4 some_dispatch = Some d'" "ready_exact {0, 1} d' xs' []"
    "d_files d' = (d_files some_dispatch)(1 \<mapsto> \<lparr>df_context = True, df_fn = True, df_fd = 4, df_user_mask = 4, df_kernel_mask = 0x15, df_events = 4\<rparr>)"
    by auto
  with e show ?thesis by (auto simp: pending_def dispatch_file_events_def)
qed

theorem dispatch_poll_levels_witness:
  "\<exists>d' xs'. dispatch_context_poll_zephyr True (\<lambda>ms. if ms = [1, 0] then POLL_EVENTS [1, 0] else POLL_FAILED) some_dispatch = Some (True, d') \<and>
     links_ok d' xs' [] \<and> 0 \<in> set xs' \<and> 1 \<notin> set xs'"
proof -
  let ?ps = "[\<lparr>pfd_fd = 3, pfd_events = 0x15, pfd_revents = 5\<rparr>, \<lparr>pfd_fd = 4, pfd_events = 0x15, pfd_revents = 5\<rparr>] :: pollfd list"
  let ?poll = "\<lambda>ms. if ms = [1, 0 :: u32] then POLL_EVENTS [1, 0 :: u32] else POLL_FAILED"
  have a: "d_fds some_dispatch = Some ?ps" "d_fd_files some_dispatch = Some [0, 1]" by (simp_all add: some_dispatch_def)
  have p: "list_all2 (polled some_dispatch) ?ps [0, 1]" using some_dispatch_files by (simp add: polled_def)
  have k: "?poll (map (\<lambda>f. df_user_mask (the (d_files some_dispatch f))) [0, 1]) = POLL_EVENTS [1, 0]"
    using some_dispatch_files by simp
  from dispatch_poll_levels [where poll = ?poll, OF some_dispatch_links a p _ k] obtain d' xs' where
    d': "dispatch_context_poll_zephyr True ?poll some_dispatch = Some (True, d')" "links_ok d' xs' []"
    "\<forall>i < 2. \<exists>file. d_files some_dispatch ([0, 1] ! i) = Some file \<and> d_files d' ([0, 1] ! i) = Some (level_events ([1, 0] ! i) file) \<and>
       (dispatch_file_events (level_events ([1, 0] ! i) file) \<noteq> 0 \<longrightarrow> [0, 1] ! i \<in> set xs') \<and> ([1, 0] ! i = (0 :: u32) \<longrightarrow> [0, 1] ! i \<notin> set xs')"
    by (auto simp: numeral_2_eq_2)
  then have "0 \<in> set xs'" "1 \<notin> set xs'"
    using some_dispatch_files d'(3) [rule_format, of 0] d'(3) [rule_format, of 1]
    by (simp_all add: level_events_def dispatch_file_events_def)
  with d' show ?thesis by blast
qed

definition clear_callback :: "unit callback" where
  "clear_callback f w d = do {
     file \<leftarrow> d_files d f;
     d \<leftarrow> dispatch_file_clear f (df_kernel_mask file) d;
     Some (0, w, d) }"

lemma clear_callback_keeps_round: "keeps_round clear_callback"
  unfolding keeps_round_def
proof (intro allI impI)
  fix f and w :: unit and d xs ys
  assume a: "links_ok d xs ys \<and> f \<notin> set xs \<union> set ys \<and> valid_file d f \<and> (\<forall>g \<in> set ys. valid_file d g)"
  then obtain fi where fi: "d_files d f = Some fi" by (auto simp: valid_file_def)
  let ?fi = "fi\<lparr>df_events := df_events fi AND NOT (df_kernel_mask fi)\<rparr>"
  let ?d = "upd_file f ?fi d"
  let ?e = "if df_events ?fi AND df_user_mask ?fi = 0 then upd_links (c_list_unlink (FILE f)) ?d else ?d"
  have "clear_callback f w d = Some (0, w, ?e)" using fi by (simp add: clear_callback_def dispatch_file_clear_def Let_def)
  moreover have "links_ok ?e xs ys" using a links_ok_unlink [of ?d xs ys f] by (simp add: remove1_idem)
  moreover have "\<forall>g \<in> set ys. valid_file ?e g" "d_files ?e f \<noteq> None" using a by (auto simp: valid_file_def)
  ultimately show "\<exists>r w' d' xs'. clear_callback f w d = Some (r, w', d') \<and> links_ok d' xs' ys \<and> f \<notin> set xs' \<and>
      d_files d' f \<noteq> None \<and> (\<forall>g \<in> set ys. valid_file d' g)" using a by blast
qed


end
