(* ===== verification/Connection.thy ===== *)
theory Connection
  imports Framing Sasl Dispatch
begin

text \<open>
  Connections (\<open>src/dbus/connection.h\<close>, \<open>src/dbus/connection.c\<close>): a socket together with the
  SASL exchange at its beginning and its registration with the event dispatcher. Before the
  exchange is complete, the input is a sequence of lines that are fed to the state machine of
  this end and answered on the socket; afterwards it is a sequence of messages.

  The socket, the accounts and the dispatcher are separate states; the connection refers to
  its \<open>DispatchFile\<close>. The loop over the lines of the exchange makes several allocations and
  system calls, so it gets a sequence of environments. \<open>None\<close> is a failed assertion, an access
  to freed memory, or an endless loop.
\<close>

unbundle bit_operations_syntax

section \<open>State\<close>

datatype connection_ret = CONNECTION_OK | CONNECTION_E_SASL_FAILURE | CONNECTION_E_SASL_VIOLATION | CONNECTION_E_EOF
  | CONNECTION_E_QUOTA | CONNECTION_E_UNEXPECTED_FDS | CONNECTION_FAILED

record connection =
  c_socket :: socket
  c_socket_file :: file_id
  c_sasl_server :: sasl_server
  c_sasl_client :: sasl_client
  c_server :: bool
  c_authenticated :: bool

definition SASL_SERVER_NULL :: sasl_server where
  "SASL_SERVER_NULL = \<lparr>server_state = SASL_SERVER_STATE_INIT, fds_allowed = False, server_uid = 0, ok_response = []\<rparr>"

definition SASL_CLIENT_NULL :: sasl_client where
  "SASL_CLIENT_NULL = \<lparr>client_state = SASL_CLIENT_STATE_INIT\<rparr>"

definition DISPATCH_FILE_NULL :: dispatch_file where
  "DISPATCH_FILE_NULL = \<lparr>df_context = False, df_fn = False, df_fd = -1, df_user_mask = 0, df_kernel_mask = 0, df_events = 0\<rparr>"

definition sasl_server_is_done :: "sasl_server \<Rightarrow> bool" where
  "sasl_server_is_done s \<longleftrightarrow> server_state s = SASL_SERVER_STATE_DONE"

definition sasl_client_is_done :: "sasl_client \<Rightarrow> bool" where
  "sasl_client_is_done s \<longleftrightarrow> client_state s = SASL_CLIENT_STATE_DONE"

definition socket_is_running :: "socket \<Rightarrow> bool" where
  "socket_is_running s \<longleftrightarrow> \<not> s_reset s"

definition connection_is_running :: "connection \<Rightarrow> bool" where
  "connection_is_running c \<longleftrightarrow> socket_is_running (c_socket c)"

text \<open>The bits of the events.\<close>

primrec event_bits :: "epoll_event \<Rightarrow> u32" where
  "event_bits EPOLLIN = 1"
| "event_bits EPOLLOUT = 4"
| "event_bits EPOLLHUP = 16"

definition EPOLL_ALL :: u32 where
  "EPOLL_ALL = event_bits EPOLLHUP OR event_bits EPOLLIN OR event_bits EPOLLOUT"

section \<open>Life cycle\<close>

definition connection_deinit ::
  "dispatch_env \<Rightarrow> connection \<Rightarrow> dispatch \<Rightarrow> user_registry \<Rightarrow> (connection \<times> dispatch \<times> user_registry) option" where
  "connection_deinit denv c d us = do {
     d \<leftarrow> dispatch_file_deinit denv (c_socket_file c) d;
     (s, us) \<leftarrow> socket_deinit (c_socket c) us;
     Some (c\<lparr>c_socket := s\<rparr>, d, us) }"

text \<open>\<open>buffer\<close> is the memory of the input buffer, \<open>f\<close> the address of the file in the object.\<close>

definition connection_init ::
  "dispatch_env \<Rightarrow> file_id \<Rightarrow> int \<Rightarrow> uid option \<Rightarrow> string \<Rightarrow> dispatch \<Rightarrow> user_registry \<Rightarrow>
   (bool \<times> connection \<times> dispatch \<times> user_registry) option" where
  "connection_init denv f fd user buffer d us = do {
     let d = upd_links (c_list_init (FILE f)) (upd_file f DISPATCH_FILE_NULL d);
     (s, us) \<leftarrow> socket_init user buffer us;
     let c = \<lparr>c_socket = s, c_socket_file = f, c_sasl_server = SASL_SERVER_NULL, c_sasl_client = SASL_CLIENT_NULL,
              c_server = False, c_authenticated = False\<rparr>;
     (ok, d) \<leftarrow> dispatch_file_init denv f fd EPOLL_ALL (event_bits EPOLLIN OR event_bits EPOLLOUT) d;
     if \<not> ok then do { (c, d, us) \<leftarrow> connection_deinit denv c d us; Some (False, c, d, us) }
     else Some (True, c, d, us) }"

definition connection_init_server ::
  "dispatch_env \<Rightarrow> file_id \<Rightarrow> int \<Rightarrow> uid \<Rightarrow> string \<Rightarrow> string \<Rightarrow> dispatch \<Rightarrow> user_registry \<Rightarrow>
   (bool \<times> connection \<times> dispatch \<times> user_registry) option" where
  "connection_init_server denv f fd user guid buffer d us = do {
     (ok, c, d, us) \<leftarrow> connection_init denv f fd (Some user) buffer d us;
     Some (ok, if ok then c\<lparr>c_server := True, c_sasl_server := sasl_server_init user guid\<rparr> else c, d, us) }"

definition connection_init_client ::
  "dispatch_env \<Rightarrow> file_id \<Rightarrow> int \<Rightarrow> uid option \<Rightarrow> string \<Rightarrow> dispatch \<Rightarrow> user_registry \<Rightarrow>
   (bool \<times> connection \<times> dispatch \<times> user_registry) option" where
  "connection_init_client denv f fd user buffer d us = do {
     (ok, c, d, us) \<leftarrow> connection_init denv f fd user buffer d us;
     Some (ok, if ok then c\<lparr>c_server := False, c_sasl_client := sasl_client_init\<rparr> else c, d, us) }"

definition connection_get_stats :: "connection \<Rightarrow> u32 \<times> u32 \<times> u32 \<times> u32" where
  "connection_get_stats c = socket_get_stats (c_socket c)"

definition connection_shutdown ::
  "socket_env \<Rightarrow> connection \<Rightarrow> dispatch \<Rightarrow> user_registry \<Rightarrow> (connection \<times> dispatch \<times> user_registry) option" where
  "connection_shutdown env c d us = do {
     (s, us) \<leftarrow> socket_shutdown env (c_socket c) us;
     d \<leftarrow> (if \<not> socket_is_running s then dispatch_file_select (c_socket_file c) (event_bits EPOLLHUP) d else Some d);
     Some (c\<lparr>c_socket := s\<rparr>, d, us) }"

definition connection_close ::
  "socket_env \<Rightarrow> connection \<Rightarrow> user_registry \<Rightarrow> (connection \<times> user_registry) option" where
  "connection_close env c us = do {
     (s, us) \<leftarrow> socket_close env (c_socket c) us;
     Some (c\<lparr>c_socket := s\<rparr>, us) }"

section \<open>Authentication\<close>

text \<open>One line for the state machine of this end: the new state, and the answer.\<close>

definition sasl_feed :: "connection \<Rightarrow> string option \<Rightarrow> sasl_error + (connection \<times> string option)" where
  "sasl_feed c input =
     (if c_server c then
        (case sasl_server_dispatch (c_sasl_server c) (case input of None \<Rightarrow> [] | Some l \<Rightarrow> l) of
           Inl e \<Rightarrow> Inl e
         | Inr (s, out) \<Rightarrow> Inr (c\<lparr>c_sasl_server := s, c_authenticated := sasl_server_is_done s\<rparr>, out))
      else
        (case sasl_client_dispatch (c_sasl_client c) input of
           Inl e \<Rightarrow> Inl e
         | Inr (s, out) \<Rightarrow> Inr (c\<lparr>c_sasl_client := s, c_authenticated := sasl_client_is_done s\<rparr>, out)))"

definition sasl_ret :: "connection \<Rightarrow> sasl_error \<Rightarrow> connection_ret" where
  "sasl_ret c e =
     (if e = SASL_E_PROTOCOL_VIOLATION then CONNECTION_E_SASL_VIOLATION
      else if e = SASL_E_FAILURE \<and> \<not> c_server c then CONNECTION_E_SASL_FAILURE
      else CONNECTION_FAILED)"

definition connection_feed_sasl ::
  "socket_env \<Rightarrow> connection \<Rightarrow> dispatch \<Rightarrow> user_registry \<Rightarrow> string option \<Rightarrow>
   (connection_ret \<times> connection \<times> dispatch \<times> user_registry) option" where
  "connection_feed_sasl env c d us input = do {
     _ \<leftarrow> c_assert (\<not> c_server c \<or> input \<noteq> None);
     _ \<leftarrow> c_assert (\<not> c_authenticated c);
     case sasl_feed c input of
       Inl e \<Rightarrow> Some (sasl_ret c e, c, d, us)
     | Inr (c, out) \<Rightarrow>
         (case out of
            None \<Rightarrow> Some (CONNECTION_OK, c, d, us)
          | Some line \<Rightarrow> do {
              (r, s, us) \<leftarrow> socket_queue_line env (c_socket c) us None line;
              let c = c\<lparr>c_socket := s\<rparr>;
              if r = SOCKET_OK then do {
                d \<leftarrow> dispatch_file_select (c_socket_file c) (event_bits EPOLLOUT) d;
                Some (CONNECTION_OK, c, d, us) }
              else if r = SOCKET_E_QUOTA then do {
                (c, d, us) \<leftarrow> connection_shutdown env c d us;
                Some (CONNECTION_OK, c, d, us) }
              else Some (if r = SOCKET_E_SHUTDOWN then CONNECTION_OK else CONNECTION_FAILED, c, d, us) }) }"

definition connection_open ::
  "socket_env \<Rightarrow> connection \<Rightarrow> dispatch \<Rightarrow> user_registry \<Rightarrow> (connection_ret \<times> connection \<times> dispatch \<times> user_registry) option" where
  "connection_open env c d us = do {
     _ \<leftarrow> c_assert (socket_is_running (c_socket c));
     (r, c, d, us) \<leftarrow> (if \<not> c_server c then connection_feed_sasl env c d us None else Some (CONNECTION_OK, c, d, us));
     if r \<noteq> CONNECTION_OK then Some (CONNECTION_FAILED, c, d, us)
     else do {
       d \<leftarrow> dispatch_file_select (c_socket_file c) (event_bits EPOLLHUP OR event_bits EPOLLIN) d;
       Some (CONNECTION_OK, c, d, us) } }"

section \<open>Events\<close>

text \<open>One event of the loop: \<open>True\<close> if the loop goes on.\<close>

definition connection_event ::
  "socket_env \<Rightarrow> recv_answer \<Rightarrow> int option \<Rightarrow> sendmmsg \<Rightarrow> epoll_event \<Rightarrow> connection \<Rightarrow> dispatch \<Rightarrow> user_registry \<Rightarrow>
   (bool \<times> connection \<times> dispatch \<times> user_registry) option" where
  "connection_event env recv outq send event c d us = do {
     (r, s, us) \<leftarrow> socket_dispatch env recv outq send event (c_socket c) us;
     let c = c\<lparr>c_socket := s\<rparr>;
     if r = SOCKET_OK \<or> (r = SOCKET_E_PREEMPTED \<and> zephyr env) then do {
       d \<leftarrow> dispatch_file_clear (c_socket_file c) (event_bits event) d;
       Some (True, c, d, us) }
     else if r = SOCKET_E_LOST_INTEREST then do {
       d \<leftarrow> dispatch_file_deselect (c_socket_file c) (event_bits event) d;
       Some (True, c, d, us) }
     else Some (r = SOCKET_E_PREEMPTED, c, d, us) }"

text \<open>\<open>interest\<close> holds the events in the order they are handled; each has its own environment and answers.\<close>

primrec connection_events ::
  "(epoll_event \<Rightarrow> socket_env \<times> recv_answer \<times> int option \<times> sendmmsg) \<Rightarrow> u32 \<Rightarrow> epoll_event list \<Rightarrow>
   connection \<Rightarrow> dispatch \<Rightarrow> user_registry \<Rightarrow> (connection_ret \<times> connection \<times> dispatch \<times> user_registry) option" where
  "connection_events answers events [] c d us = Some (CONNECTION_OK, c, d, us)"
| "connection_events answers events (e # es) c d us =
     (if events AND event_bits e \<noteq> 0 then do {
        (go_on, c, d, us) \<leftarrow> (case answers e of (env, recv, outq, send) \<Rightarrow> connection_event env recv outq send e c d us);
        if go_on then connection_events answers events es c d us else Some (CONNECTION_FAILED, c, d, us) }
      else connection_events answers events es c d us)"

definition connection_dispatch ::
  "(epoll_event \<Rightarrow> socket_env \<times> recv_answer \<times> int option \<times> sendmmsg) \<Rightarrow> u32 \<Rightarrow>
   connection \<Rightarrow> dispatch \<Rightarrow> user_registry \<Rightarrow> (connection_ret \<times> connection \<times> dispatch \<times> user_registry) option" where
  "connection_dispatch answers events = connection_events answers events [EPOLLIN, EPOLLHUP, EPOLLOUT]"

section \<open>Messages\<close>

text \<open>
  The loop over the lines of the exchange: \<open>Inl\<close> is an early return of the function, \<open>Inr\<close> the
  state in which the exchange is complete.
\<close>

partial_function (option) connection_dequeue_lines ::
  "(nat \<Rightarrow> socket_env) \<Rightarrow> nat \<Rightarrow> connection \<Rightarrow> dispatch \<Rightarrow> user_registry \<Rightarrow>
   ((connection_ret option) \<times> connection \<times> dispatch \<times> user_registry) option" where
  "connection_dequeue_lines envs i c d us = do {
     (r, line, s, us) \<leftarrow> socket_dequeue_line (envs i) (c_socket c) us;
     let c = c\<lparr>c_socket := s\<rparr>;
     if r \<noteq> SOCKET_OK then Some (Some (if r = SOCKET_E_EOF then CONNECTION_E_EOF else CONNECTION_FAILED), c, d, us)
     else if line = None then Some (Some CONNECTION_OK, c, d, us)
     else do {
       (r, c, d, us) \<leftarrow> connection_feed_sasl (envs i) c d us line;
       if r \<noteq> CONNECTION_OK then Some (Some r, c, d, us)
       else if c_authenticated c then Some (None, c, d, us)
       else connection_dequeue_lines envs (i + 1) c d us } }"

definition connection_dequeue_message ::
  "socket_env \<Rightarrow> string \<Rightarrow> connection \<Rightarrow> dispatch \<Rightarrow> user_registry \<Rightarrow>
   (connection_ret \<times> message option \<times> connection \<times> dispatch \<times> user_registry) option" where
  "connection_dequeue_message env header_memory c d us = do {
     (r, mo, s, us) \<leftarrow> socket_dequeue env header_memory (c_socket c) us;
     let c = c\<lparr>c_socket := s\<rparr>;
     if r \<noteq> SOCKET_OK then
       Some (if r = SOCKET_E_EOF then CONNECTION_E_EOF else if r = SOCKET_E_QUOTA then CONNECTION_E_QUOTA else CONNECTION_FAILED,
             None, c, d, us)
     else case mo of
       None \<Rightarrow> Some (CONNECTION_OK, None, c, d, us)
     | Some m \<Rightarrow>
         if fdlist_count (m_fds m) > 0 \<and> c_server c \<and> \<not> fds_allowed (c_sasl_server c)
         then Some (CONNECTION_E_UNEXPECTED_FDS, None, c, d, us)
         else Some (CONNECTION_OK, Some m, c, d, us) }"

definition connection_dequeue ::
  "(nat \<Rightarrow> socket_env) \<Rightarrow> socket_env \<Rightarrow> string \<Rightarrow> connection \<Rightarrow> dispatch \<Rightarrow> user_registry \<Rightarrow>
   (connection_ret \<times> message option \<times> connection \<times> dispatch \<times> user_registry) option" where
  "connection_dequeue envs env header_memory c d us =
     (if c_authenticated c then connection_dequeue_message env header_memory c d us
      else do {
        (r, c, d, us) \<leftarrow> connection_dequeue_lines envs 0 c d us;
        case r of
          Some r \<Rightarrow> Some (r, None, c, d, us)
        | None \<Rightarrow> connection_dequeue_message env header_memory c d us })"

definition connection_queue ::
  "socket_env \<Rightarrow> connection \<Rightarrow> uid option \<Rightarrow> message \<Rightarrow> dispatch \<Rightarrow> user_registry \<Rightarrow>
   (connection_ret \<times> connection \<times> dispatch \<times> user_registry) option" where
  "connection_queue env c user m d us =
     (if fdlist_count (m_fds m) > 0 \<and> c_server c \<and> \<not> fds_allowed (c_sasl_server c)
      then Some (CONNECTION_E_UNEXPECTED_FDS, c, d, us)
      else do {
        (r, s, us) \<leftarrow> socket_queue env (c_socket c) us user m;
        let c = c\<lparr>c_socket := s\<rparr>;
        if r = SOCKET_E_QUOTA then Some (CONNECTION_E_QUOTA, c, d, us)
        else if r = SOCKET_E_SHUTDOWN then Some (CONNECTION_OK, c, d, us)
        else if r \<noteq> SOCKET_OK then Some (CONNECTION_FAILED, c, d, us)
        else do {
          d \<leftarrow> dispatch_file_select (c_socket_file c) (event_bits EPOLLOUT) d;
          Some (CONNECTION_OK, c, d, us) } })"

section \<open>Queueing lines\<close>

definition line_buffers :: "socket \<Rightarrow> bool" where
  "line_buffers s \<longleftrightarrow> list_all (\<lambda>b. sb_message b = None \<and> length (sb_vecs b) = 1) (s_queue s)"

text \<open>What an operation on the output keeps of the input.\<close>

definition same_input :: "socket \<Rightarrow> socket \<Rightarrow> bool" where
  "same_input s s' \<longleftrightarrow> s_in s' = s_in s \<and> s_message s' = s_message s \<and> s_user s' = s_user s \<and> s_hup_in s' = s_hup_in s"

lemma same_input_refl [simp]: "same_input s s"
  by (simp add: same_input_def)

lemma input_kept_same: "input_kept s s' \<Longrightarrow> same_input s s'"
  by (simp add: input_kept_def same_input_def)

lemma buffer_new_line_ok:
  assumes "accounts A us ext C" "payer A ext (s_user s) user"
  shows "\<exists>r bo us'. socket_buffer_new_line env s us user n = Some (r, bo, us') \<and>
    (case bo of
       None \<Rightarrow> r \<noteq> SOCKET_OK \<and> r \<noteq> SOCKET_E_SHUTDOWN \<and> accounts A us' ext C
     | Some b \<Rightarrow> r = SOCKET_OK \<and> accounts A us' ext (buffer_charges b + C) \<and> sb_message b = None \<and> sb_vecs b = [[]])"
proof (cases "alloc env")
  case True
  let ?b = "socket_buffer_new_internal [[]] (max n SOCKET_LINE_PREALLOC)"
  let ?n = "of_nat (sizeof_SocketBuffer env + sb_n_total ?b) :: u32"
  have c: "sb_charge0 ?b = user_charge_init" "sb_charge1 ?b = user_charge_init" by (simp_all add: socket_buffer_new_internal_def)
  have "accounts A us ext (add_mset user_charge_init C)" using assms(1) by simp
  from accounts_charge [OF this assms(2) usable_init, of USER_SLOT_BYTES "alloc_usage0 env" "log_works env" ?n] obtain r ch us1 where
    1: "user_charge (alloc_usage0 env) (log_works env) us (s_user s) user_charge_init user USER_SLOT_BYTES ?n = Some (r, ch, us1)"
      "accounts A us1 ext (add_mset ch C)" by (auto simp: USER_SLOT_BYTES_def)
  let ?b1 = "?b\<lparr>sb_charge0 := ch\<rparr>"
  have 2: "accounts A us1 ext (buffer_charges ?b1 + C)"
    using 1(2) c accounts_init [of A us1 ext "add_mset ch C"] by (simp add: buffer_charges_def add_mset_commute)
  from socket_buffer_free_ok [OF this] obtain us2 where 3: "socket_buffer_free us1 ?b1 = Some us2" "accounts A us2 ext C" by blast
  show ?thesis
  proof (cases "r = USER_OK")
    case ok: True
    with True 1(1) 2 c show ?thesis by (auto simp: socket_buffer_new_line_def Let_def socket_buffer_new_internal_def)
  next
    case False
    with True 1(1) 3 c show ?thesis by (auto simp: socket_buffer_new_line_def Let_def socket_quota_def)
  qed
qed (use assms in \<open>simp add: socket_buffer_new_line_def\<close>)

text \<open>Appending to the last buffer of the queue does not change its charges.\<close>

lemma append_line_charges:
  assumes "s_queue s \<noteq> []" "b = last (s_queue s)"
  shows "out_charges (butlast (s_queue s) @ [b\<lparr>sb_vecs := v\<rparr>]) = out_charges (s_queue s)"
proof -
  have "out_charges (s_queue s) = out_charges (butlast (s_queue s) @ [b])" using assms by simp
  then show ?thesis by (simp add: buffer_charges_def)
qed

lemma queue_line_ok:
  assumes "accounts A us ext (socket_charges s + C)" "flags_ok s" "payer A ext (s_user s) user" "line_buffers s"
  shows "\<exists>r s' us'. socket_queue_line env s us user line = Some (r, s', us') \<and> accounts A us' ext (socket_charges s' + C) \<and>
    flags_ok s' \<and> same_input s s' \<and> line_buffers s'"
proof (cases "s_hup_out s \<or> s_shutdown s")
  case True
  with assms show ?thesis by (simp add: socket_queue_line_def)
next
  case False
  let ?app = "\<lambda>s. s\<lparr>s_queue := butlast (s_queue s) @ [(last (s_queue s))\<lparr>sb_vecs := (sb_vecs (last (s_queue s)))[0 := sb_vecs (last (s_queue s)) ! 0 @ line @ crlf]\<rparr>]\<rparr>"
  have app: "accounts A us ext (socket_charges (?app s) + C) \<and> flags_ok (?app s) \<and> same_input s (?app s) \<and> line_buffers (?app s)"
    if h: "accounts A us ext (socket_charges s + C)" "flags_ok s" "line_buffers s" "s_queue s \<noteq> []" "\<not> (s_hup_out s \<or> s_shutdown s)" for s us
  proof -
    obtain q b where q: "s_queue s = q @ [b]" using h(4) by (cases "s_queue s" rule: rev_cases) auto
    moreover have "socket_charges (?app s) = socket_charges s"
      using append_line_charges [OF h(4) refl] by (simp add: socket_charges_def)
    ultimately show ?thesis using h by (auto simp: line_buffers_def flags_ok_def same_input_def)
  qed
  have "\<exists>fits. (if s_queue s = [] then Some False
      else map_option (\<lambda>n. length line + 2 \<le> n) (socket_buffer_get_line_space (last (s_queue s)))) = Some fits \<and> (fits \<longrightarrow> s_queue s \<noteq> [])"
    using assms(4) by (cases "s_queue s" rule: rev_cases) (auto simp: line_buffers_def socket_buffer_get_line_space_def)
  then obtain fits where f: "(if s_queue s = [] then Some False
      else map_option (\<lambda>n. length line + 2 \<le> n) (socket_buffer_get_line_space (last (s_queue s)))) = Some fits" "fits \<longrightarrow> s_queue s \<noteq> []"
    by blast
  show ?thesis
  proof (cases fits)
    case True
    then have "socket_queue_line env s us user line = Some (SOCKET_OK, ?app s, us)"
      using False unfolding socket_queue_line_def f(1) by (simp add: Let_def)
    with app [OF assms(1,2,4) _ False] f(2) True show ?thesis by blast
  next
    case nofit: False
    from buffer_new_line_ok [OF assms(1,3), of env "length line + 2"] obtain r bo us1 where
      n: "socket_buffer_new_line env s us user (length line + 2) = Some (r, bo, us1)"
      "case bo of None \<Rightarrow> r \<noteq> SOCKET_OK \<and> r \<noteq> SOCKET_E_SHUTDOWN \<and> accounts A us1 ext (socket_charges s + C)
        | Some b \<Rightarrow> r = SOCKET_OK \<and> accounts A us1 ext (buffer_charges b + (socket_charges s + C)) \<and> sb_message b = None \<and> sb_vecs b = [[]]"
      by blast
    show ?thesis
    proof (cases bo)
      case None
      with n nofit False assms show ?thesis unfolding socket_queue_line_def f(1) by auto
    next
      case (Some b)
      let ?s = "s\<lparr>s_queue := s_queue s @ [b]\<rparr>"
      have "socket_queue_line env s us user line = Some (SOCKET_OK, ?app ?s, us1)"
        using False nofit n Some unfolding socket_queue_line_def f(1) by (simp add: Let_def)
      moreover have "accounts A us1 ext (socket_charges ?s + C)" "flags_ok ?s" "line_buffers ?s"
        using n(2) Some assms(2,4) False by (auto simp: socket_charges_def ac_simps flags_ok_def line_buffers_def)
      ultimately show ?thesis using app [of us1 ?s] False by (simp add: same_input_def)
    qed
  qed
qed

section \<open>Invariants\<close>

text \<open>The dispatcher is intact, and the file of the connection takes all events.\<close>

definition disp_ok :: "dispatch \<Rightarrow> file_id \<Rightarrow> bool" where
  "disp_ok d f \<longleftrightarrow> registered d f EPOLL_ALL \<and> (\<exists>xs ys. links_ok d xs ys \<and> (\<forall>g \<in> set xs \<union> set ys. pending d g))"

lemma registered_bits:
  assumes "registered d f EPOLL_ALL" "bits AND EPOLL_ALL = bits"
  shows "registered d f bits"
proof -
  from assms(1) obtain fi where fi: "d_files d f = Some fi" "df_context fi" "EPOLL_ALL AND NOT (df_kernel_mask fi) = 0"
    by (auto simp: registered_def)
  have "bits AND NOT (df_kernel_mask fi) = bits AND (EPOLL_ALL AND NOT (df_kernel_mask fi))"
    using assms(2) by (metis and.assoc)
  with fi show ?thesis by (simp add: registered_def)
qed

lemma select_disp_ok:
  assumes "disp_ok d f" "bits AND EPOLL_ALL = bits"
  shows "\<exists>d'. dispatch_file_select f bits d = Some d' \<and> disp_ok d' f"
proof -
  from assms(1) obtain xs ys where l: "links_ok d xs ys" "\<forall>g \<in> set xs \<union> set ys. pending d g" by (auto simp: disp_ok_def)
  have r: "registered d f bits" using assms by (simp add: disp_ok_def registered_bits)
  then obtain fi where fi: "d_files d f = Some fi" by (auto simp: registered_def)
  from select_ok [OF l(1) r fi] l(2) obtain d' xs' where
    d': "dispatch_file_select f bits d = Some d'" "links_ok d' xs' ys" "others_keep f xs xs'"
      "d_files d' = (d_files d)(f \<mapsto> fi\<lparr>df_user_mask := df_user_mask fi OR bits\<rparr>)" "f \<in> set xs' \<union> set ys \<longleftrightarrow> pending d' f" by blast
  have "pending d' g" if g: "g \<in> set xs' \<union> set ys" for g
  proof (cases "g = f")
    case False
    with g d'(3) l(2) have "pending d g" by (auto simp: others_keep_set)
    with False d'(4) show ?thesis by (simp add: pending_def)
  qed (use g d'(5) in simp)
  moreover have "registered d' f EPOLL_ALL" using assms(1) fi d'(4) by (auto simp: disp_ok_def registered_def)
  ultimately show ?thesis using d'(1,2) unfolding disp_ok_def by blast
qed

text \<open>The socket during the exchange of lines.\<close>

definition lines_inv :: "uid set \<Rightarrow> (uid \<Rightarrow> nat) \<Rightarrow> user_charge multiset \<Rightarrow> socket \<Rightarrow> user_registry \<Rightarrow> bool" where
  "lines_inv A ext C s us \<longleftrightarrow> line_inv (s_in s) \<and> fds_inv (s_in s) \<and> target_usable (s_in s) \<and> payer A ext (iq_user (s_in s)) None \<and>
     payer A ext (s_user s) None \<and> s_message s = None \<and> accounts A us ext (socket_charges s + C) \<and> flags_ok s \<and> line_buffers s"

lemma in_stream_lines: "lines_inv A ext C s us \<Longrightarrow> in_stream s = unread (s_in s)"
  by (simp add: lines_inv_def in_stream_def stream_def line_inv_def)

lemma lines_inv_data:
  assumes "lines_inv A ext C s us" "data_cursor (s_in s) = data_start (s_in s)"
  shows "in_inv A ext C s us"
  using assms by (simp add: lines_inv_def in_inv_def line_inv_def data_inv_def)

lemma lines_inv_output:
  assumes "lines_inv A ext C s us" "same_input s s'" "accounts A us' ext (socket_charges s' + C)" "flags_ok s'" "line_buffers s'"
  shows "lines_inv A ext C s' us'"
  using assms by (simp add: lines_inv_def same_input_def)

lemma dequeue_line_ok:
  assumes "lines_inv A ext C s us" "can_shutdown env"
  shows "\<exists>r lo s' us'. socket_dequeue_line env s us = Some (r, lo, s', us') \<and> lines_inv A ext C s' us' \<and> s_queue s' = s_queue s \<and>
    (case lo of
       Some l \<Rightarrow> r = SOCKET_OK \<and> in_stream s = l @ crlf @ in_stream s' \<and> \<not> has_crlf (l @ [CHR 0x0D]) \<and>
         data_cursor (s_in s') = data_start (s_in s')
     | None \<Rightarrow> r = SOCKET_OK \<and> \<not> s_hup_in s' \<and> in_stream s' = in_stream s \<and> \<not> has_crlf (in_stream s) \<or> r = SOCKET_E_EOF \<and> s_hup_in s')"
proof -
  have inv: "line_inv (s_in s)" "pending_data (s_in s) = None" using assms(1) by (simp_all add: lines_inv_def line_inv_def)
  from iqueue_scan_line_ok [OF inv(1)] obtain r lo iq where
    q: "iqueue_scan_line (s_in s) = (r, lo, iq)" "line_inv iq"
      "iq = (s_in s)\<lparr>data_cursor := data_cursor iq, data_start := data_start iq, iq_data := iq_data iq\<rparr>"
      "case lo of
        None \<Rightarrow> r = IQUEUE_E_PENDING \<and> unread iq = unread (s_in s) \<and> \<not> has_crlf (unread (s_in s)) \<or>
          r = IQUEUE_E_VIOLATION \<and> fdlist_count (iq_fds (s_in s)) > 0
      | Some l \<Rightarrow> r = IQUEUE_OK \<and> unread (s_in s) = l @ [CHR 0x0D, CHR 0x0A] @ unread iq \<and> \<not> has_crlf (l @ [CHR 0x0D]) \<and>
          data_cursor iq = data_start iq" by blast
  let ?s = "s\<lparr>s_in := iq\<rparr>"
  have f: "iq_fds iq = iq_fds (s_in s)" "pending_fds iq = pending_fds (s_in s)" "iq_charges iq = iq_charges (s_in s)"
    "pending_charge_fds iq = pending_charge_fds (s_in s)" "pending_charge_data iq = pending_charge_data (s_in s)" "iq_user iq = iq_user (s_in s)"
    by (subst q(3), simp add: iq_charges_def)+
  have inv': "lines_inv A ext C ?s us"
    using assms(1) q(2) f by (simp add: lines_inv_def fds_inv_def target_usable_def socket_charges_def flags_ok_def line_buffers_def)
  note st = in_stream_lines [OF assms(1)] in_stream_lines [OF inv']
  have pop: "iqueue_pop_line (s_in s) = Some (r, lo, iq)" using inv(2) q(1) by (simp add: iqueue_pop_line_def)
  consider l where "lo = Some l" | "lo = None" "r = IQUEUE_E_PENDING" | "lo = None" "r = IQUEUE_E_VIOLATION"
    using q(4) by (cases lo) auto
  then show ?thesis
  proof cases
    case (1 l)
    with pop q(4) inv' st show ?thesis by (auto simp: socket_dequeue_line_def crlf_def)
  next
    case 2
    have "lines_inv A ext C (socket_might_reset ?s) us" using inv' by (simp add: lines_inv_def line_buffers_def)
    with 2 pop q(4) st show ?thesis by (auto simp: socket_dequeue_line_def)
  next
    case 3
    have "accounts A us ext (socket_charges ?s + C)" "flags_ok ?s" "Queue.buffer_ok (s_in ?s)"
      using inv' by (simp_all add: lines_inv_def line_inv_def)
    from socket_close_ok [OF this(1) assms(2) this(2,3)] obtain s' us' where
      c: "socket_close env ?s us = Some (s', us')" "accounts A us' ext (socket_charges s' + C)" "flags_ok s'" "iq_empty (s_in s')"
        "line_inv (s_in s')" "s_message s' = None" "s_hup_in s'" "s_queue s' = s_queue ?s" "s_user s' = s_user ?s"
        "iq_user (s_in s') = iq_user (s_in ?s)" by blast
    have "fds_inv (s_in s')" "target_usable (s_in s')"
      using c(4) by (auto simp: iq_empty_def fds_inv_def target_usable_def usable_def split: option.splits)
    with c inv' have "lines_inv A ext C s' us'" by (simp add: lines_inv_def line_buffers_def)
    with 3 pop c(1,7,8) show ?thesis by (auto simp: socket_dequeue_line_def)
  qed
qed

section \<open>The exchange\<close>

lemma sasl_feed_keeps:
  "sasl_feed c input = Inr (c', out) \<Longrightarrow> c_socket c' = c_socket c \<and> c_socket_file c' = c_socket_file c \<and> c_server c' = c_server c"
  by (auto simp: sasl_feed_def split: if_splits sum.splits prod.splits)

lemma event_bits_all: "event_bits e AND EPOLL_ALL = event_bits e"
  by (cases e) (simp_all add: EPOLL_ALL_def)

lemma connection_shutdown_ok:
  assumes "lines_inv A ext C (c_socket c) us" "disp_ok d (c_socket_file c)" "can_shutdown env"
  shows "\<exists>s d' us'. connection_shutdown env c d us = Some (c\<lparr>c_socket := s\<rparr>, d', us') \<and> lines_inv A ext C s us' \<and>
    same_input (c_socket c) s \<and> disp_ok d' (c_socket_file c)"
proof -
  from assms(1) have "accounts A us ext (socket_charges (c_socket c) + C)" "flags_ok (c_socket c)" "line_buffers (c_socket c)"
    by (simp_all add: lines_inv_def)
  with shutdown_ok [of A us ext "c_socket c" C env] assms(3) obtain s us' where
    s: "socket_shutdown env (c_socket c) us = Some (s, us')" "accounts A us' ext (socket_charges s + C)" "flags_ok s"
      "input_kept (c_socket c) s" "s_queue s = s_queue (c_socket c)" "line_buffers s" by (auto simp: line_buffers_def)
  then have "lines_inv A ext C s us'" using lines_inv_output [OF assms(1) input_kept_same] by blast
  with s input_kept_same [OF s(4)] select_disp_ok [OF assms(2) event_bits_all [of EPOLLHUP]] assms(2) show ?thesis
    by (cases "socket_is_running s") (auto simp: connection_shutdown_def)
qed

lemma feed_ok:
  assumes "lines_inv A ext C (c_socket c) us" "disp_ok d (c_socket_file c)" "can_shutdown env" "\<not> c_authenticated c"
  shows "\<exists>r c' d' us'. connection_feed_sasl env c d us (Some l) = Some (r, c', d', us') \<and> lines_inv A ext C (c_socket c') us' \<and>
    same_input (c_socket c) (c_socket c') \<and> disp_ok d' (c_socket_file c') \<and> c_server c' = c_server c \<and>
    (case sasl_feed c (Some l) of
       Inl e \<Rightarrow> r = sasl_ret c e \<and> c' = c
     | Inr (c1, out) \<Rightarrow> (r = CONNECTION_OK \<or> r = CONNECTION_FAILED) \<and> (\<exists>s. c' = c1\<lparr>c_socket := s\<rparr>))"
proof (cases "sasl_feed c (Some l)")
  case (Inl e)
  with assms show ?thesis by (auto simp: connection_feed_sasl_def)
next
  case (Inr p)
  obtain c1 out where p: "p = (c1, out)" by fastforce
  with Inr sasl_feed_keeps have k: "c_socket c1 = c_socket c" "c_socket_file c1 = c_socket_file c" "c_server c1 = c_server c" by blast+
  show ?thesis
  proof (cases out)
    case None
    have "\<exists>s. c1 = c1\<lparr>c_socket := s\<rparr>" by (rule exI [of _ "c_socket c1"]) simp
    with None Inr p k assms show ?thesis by (simp add: connection_feed_sasl_def)
  next
    case (Some line)
    from assms(1) have "accounts A us ext (socket_charges (c_socket c) + C)" "flags_ok (c_socket c)" "payer A ext (s_user (c_socket c)) None"
      "line_buffers (c_socket c)" by (simp_all add: lines_inv_def)
    from queue_line_ok [OF this, of env line] obtain r s us1 where
      q: "socket_queue_line env (c_socket c) us None line = Some (r, s, us1)" "accounts A us1 ext (socket_charges s + C)" "flags_ok s"
        "same_input (c_socket c) s" "line_buffers s" by blast
    have inv: "lines_inv A ext C s us1" by (rule lines_inv_output [OF assms(1) q(4,2,3,5)])
    let ?c = "c1\<lparr>c_socket := s\<rparr>"
    have eq: "connection_feed_sasl env c d us (Some l) =
      (if r = SOCKET_OK then do { d \<leftarrow> dispatch_file_select (c_socket_file ?c) (event_bits EPOLLOUT) d; Some (CONNECTION_OK, ?c, d, us1) }
       else if r = SOCKET_E_QUOTA then do { (c, d, us) \<leftarrow> connection_shutdown env ?c d us1; Some (CONNECTION_OK, c, d, us) }
       else Some (if r = SOCKET_E_SHUTDOWN then CONNECTION_OK else CONNECTION_FAILED, ?c, d, us1))"
      using assms(4) Inr p Some q(1) k by (simp add: connection_feed_sasl_def Let_def)
    consider "r = SOCKET_OK" | "r = SOCKET_E_QUOTA" | "r \<noteq> SOCKET_OK" "r \<noteq> SOCKET_E_QUOTA" by blast
    then show ?thesis
    proof cases
      case 1
      from select_disp_ok [OF assms(2) event_bits_all [of EPOLLOUT]] obtain d' where
        "dispatch_file_select (c_socket_file c) (event_bits EPOLLOUT) d = Some d'" "disp_ok d' (c_socket_file c)" by blast
      with 1 inv q(4) k Inr p show ?thesis unfolding eq by auto
    next
      case 2
      from connection_shutdown_ok [of A ext C ?c us1 d env] inv assms(2,3) k obtain s' d' us' where
        "connection_shutdown env ?c d us1 = Some (?c\<lparr>c_socket := s'\<rparr>, d', us')" "lines_inv A ext C s' us'" "same_input s s'"
        "disp_ok d' (c_socket_file c)" by auto
      with 2 q(4) k Inr p show ?thesis unfolding eq by (auto simp: same_input_def)
    next
      case 3
      with inv q(4) k Inr p assms(2) show ?thesis unfolding eq by auto
    qed
  qed
qed

text \<open>A connection is authenticated once its state machine is done.\<close>

definition consistent :: "connection \<Rightarrow> bool" where
  "consistent c \<longleftrightarrow> c_authenticated c = (if c_server c then sasl_server_is_done (c_sasl_server c) else sasl_client_is_done (c_sasl_client c))"

lemma consistent_socket [simp]: "consistent (c\<lparr>c_socket := s\<rparr>) \<longleftrightarrow> consistent c"
  by (simp add: consistent_def)

definition conn_inv :: "uid set \<Rightarrow> (uid \<Rightarrow> nat) \<Rightarrow> user_charge multiset \<Rightarrow> connection \<Rightarrow> dispatch \<Rightarrow> user_registry \<Rightarrow> bool" where
  "conn_inv A ext C c d us \<longleftrightarrow> disp_ok d (c_socket_file c) \<and>
     (if c_authenticated c then in_inv A ext C (c_socket c) us else lines_inv A ext C (c_socket c) us) \<and>
     consistent c"

text \<open>The lines of a conversation, and what they make of this end.\<close>

definition lines_bytes :: "string list \<Rightarrow> string" where
  "lines_bytes lines = concat (map (\<lambda>l. l @ crlf) lines)"

fun feed_all :: "connection \<Rightarrow> string list \<Rightarrow> sasl_error + connection" where
  "feed_all c [] = Inr c"
| "feed_all c (l # ls) = (case sasl_feed c (Some l) of Inl e \<Rightarrow> Inl e | Inr (c', _) \<Rightarrow> feed_all c' ls)"

lemma sasl_feed_socket:
  "sasl_feed (c\<lparr>c_socket := s\<rparr>) input = (case sasl_feed c input of Inl e \<Rightarrow> Inl e | Inr (c', out) \<Rightarrow> Inr (c'\<lparr>c_socket := s\<rparr>, out))"
  by (auto simp: sasl_feed_def split: sum.splits)

lemma feed_all_socket:
  "feed_all (c\<lparr>c_socket := s\<rparr>) ls = (case feed_all c ls of Inl e \<Rightarrow> Inl e | Inr c' \<Rightarrow> Inr (c'\<lparr>c_socket := s\<rparr>))"
  by (induction ls arbitrary: c) (auto simp: sasl_feed_socket split: sum.splits prod.splits)

lemma feed_all_server:
  "feed_all c ls = Inr c' \<Longrightarrow> c_server c \<Longrightarrow> \<exists>outs. sasl_server_run (c_sasl_server c) ls = Inr (c_sasl_server c', outs)"
proof (induction ls arbitrary: c)
  case (Cons l ls)
  then obtain c1 out where f: "sasl_feed c (Some l) = Inr (c1, out)" "feed_all c1 ls = Inr c'" by (auto split: sum.splits)
  with Cons.IH [OF f(2)] Cons.prems(2) sasl_feed_keeps [OF f(1)] show ?case by (auto simp: sasl_feed_def split: sum.splits option.splits)
qed simp

lemma sasl_feed_consistent: "sasl_feed c input = Inr (c', out) \<Longrightarrow> consistent c'"
  by (auto simp: sasl_feed_def consistent_def split: if_splits sum.splits prod.splits)

text \<open>What the loop over the lines promises, with the lines that were taken from the stream.\<close>

definition lines_spec :: "connection \<Rightarrow> string list \<Rightarrow> connection_ret option \<Rightarrow> connection \<Rightarrow> bool" where
  "lines_spec c lines ro c' \<longleftrightarrow>
     (ro = None \<longrightarrow> in_stream (c_socket c) = lines_bytes lines @ in_stream (c_socket c') \<and>
        (\<exists>c1 s. feed_all c lines = Inr c1 \<and> c' = c1\<lparr>c_socket := s\<rparr> \<and> c_authenticated c1)) \<and>
     (ro = Some CONNECTION_OK \<longrightarrow> in_stream (c_socket c) = lines_bytes lines @ in_stream (c_socket c') \<and> \<not> has_crlf (in_stream (c_socket c')) \<and>
        (\<exists>c1 s. feed_all c lines = Inr c1 \<and> c' = c1\<lparr>c_socket := s\<rparr> \<and> \<not> c_authenticated c1)) \<and>
     (ro = Some CONNECTION_E_SASL_VIOLATION \<longrightarrow> feed_all c lines = Inl SASL_E_PROTOCOL_VIOLATION \<and>
        (\<exists>rest. in_stream (c_socket c) = lines_bytes lines @ rest))"

lemma lines_spec_Cons:
  assumes "lines_spec c1 ls ro c'" "sasl_feed c (Some l) = Inr (c2, out)" "c1 = c2\<lparr>c_socket := s\<rparr>"
    "in_stream (c_socket c) = l @ crlf @ in_stream (c_socket c1)"
  shows "lines_spec c (l # ls) ro c'"
proof -
  have b: "lines_bytes (l # ls) @ r = l @ crlf @ lines_bytes ls @ r" for r by (simp add: lines_bytes_def)
  have f: "feed_all c1 ls = (case feed_all c2 ls of Inl e \<Rightarrow> Inl e | Inr c' \<Rightarrow> Inr (c'\<lparr>c_socket := s\<rparr>))"
    unfolding assms(3) by (rule feed_all_socket)
  show ?thesis
    using assms(1,2,4) f unfolding lines_spec_def b by (auto split: sum.splits)
qed

lemma dequeue_lines_ok:
  assumes "\<And>i. can_shutdown (envs i)"
  shows "conn_inv A ext C c d us \<Longrightarrow> \<not> c_authenticated c \<Longrightarrow>
    \<exists>ro c' d' us' lines. connection_dequeue_lines envs i c d us = Some (ro, c', d', us') \<and> conn_inv A ext C c' d' us' \<and>
      c_server c' = c_server c \<and> (ro = None \<longrightarrow> c_authenticated c') \<and> lines_spec c lines ro c'"
proof (induction "length (in_stream (c_socket c))" arbitrary: i c d us rule: less_induct)
  case less
  have inv: "lines_inv A ext C (c_socket c) us" "disp_ok d (c_socket_file c)" "consistent c" "\<not> c_authenticated c"
    using less.prems by (simp_all add: conn_inv_def)
  from dequeue_line_ok [OF inv(1) assms [of i]] obtain r lo s us1 where
    q: "socket_dequeue_line (envs i) (c_socket c) us = Some (r, lo, s, us1)" "lines_inv A ext C s us1"
      "case lo of
       Some l \<Rightarrow> r = SOCKET_OK \<and> in_stream (c_socket c) = l @ crlf @ in_stream s \<and> \<not> has_crlf (l @ [CHR 0x0D]) \<and>
         data_cursor (s_in s) = data_start (s_in s)
     | None \<Rightarrow> r = SOCKET_OK \<and> \<not> s_hup_in s \<and> in_stream s = in_stream (c_socket c) \<and> \<not> has_crlf (in_stream (c_socket c)) \<or>
         r = SOCKET_E_EOF \<and> s_hup_in s" by blast
  let ?c = "c\<lparr>c_socket := s\<rparr>"
  have ic: "conn_inv A ext C ?c d us1" using inv q(2) by (simp add: conn_inv_def)
  show ?case
  proof (cases lo)
    case None
    have "lines_spec c [] (Some CONNECTION_OK) ?c" if "r = SOCKET_OK"
      using that q(3) None inv(4) by (auto simp: lines_spec_def lines_bytes_def)
    moreover have "lines_spec c [] (Some CONNECTION_E_EOF) ?c" by (simp add: lines_spec_def)
    moreover have "connection_dequeue_lines envs i c d us = Some (Some (if r = SOCKET_OK then CONNECTION_OK else CONNECTION_E_EOF), ?c, d, us1)"
      using q None by (subst connection_dequeue_lines.simps) auto
    ultimately show ?thesis using ic
      by (intro exI [of _ "Some (if r = SOCKET_OK then CONNECTION_OK else CONNECTION_E_EOF)"] exI [of _ ?c] exI [of _ d] exI [of _ us1]
          exI [of _ "[]"]) simp
  next
    case (Some l)
    then have l: "r = SOCKET_OK" "in_stream (c_socket c) = l @ crlf @ in_stream s" "data_cursor (s_in s) = data_start (s_in s)"
      using q(3) by auto
    from feed_ok [of A ext C ?c us1 d "envs i" l] q(2) inv(2,4) assms [of i] obtain r' c' d' us' where
      f: "connection_feed_sasl (envs i) ?c d us1 (Some l) = Some (r', c', d', us')" "lines_inv A ext C (c_socket c') us'"
        "same_input s (c_socket c')" "disp_ok d' (c_socket_file c')" "c_server c' = c_server c"
        "case sasl_feed ?c (Some l) of
           Inl e \<Rightarrow> r' = sasl_ret ?c e \<and> c' = ?c
         | Inr (c1, out) \<Rightarrow> (r' = CONNECTION_OK \<or> r' = CONNECTION_FAILED) \<and> (\<exists>s. c' = c1\<lparr>c_socket := s\<rparr>)" by auto
    have st: "in_stream (c_socket c') = in_stream s" using f(3) by (simp add: same_input_def in_stream_def)
    have cur: "in_inv A ext C (c_socket c') us'"
      by (rule lines_inv_data [OF f(2)]) (use f(3) l(3) in \<open>simp add: same_input_def\<close>)
    have step: "connection_dequeue_lines envs i c d us =
      (if r' \<noteq> CONNECTION_OK then Some (Some r', c', d', us') else if c_authenticated c' then Some (None, c', d', us')
       else connection_dequeue_lines envs (i + 1) c' d' us')"
      using q(1) l(1) Some f(1) by (subst connection_dequeue_lines.simps) simp
    show ?thesis
    proof (cases "sasl_feed c (Some l)")
      case (Inl e)
      then have c': "r' = sasl_ret ?c e" "c' = ?c" using f(6) by (auto simp: sasl_feed_socket)
      then have ne: "r' \<noteq> CONNECTION_OK" by (simp add: sasl_ret_def)
      have "lines_spec c [l] (Some r') c'"
        using c' Inl ne l(2) by (auto simp: lines_spec_def sasl_ret_def lines_bytes_def split: if_splits)
      moreover have "conn_inv A ext C c' d' us'" using f(2,4) c' inv(3,4) by (simp add: conn_inv_def)
      ultimately show ?thesis using step ne f(5) by auto
    next
      case (Inr p)
      obtain c1 out where p: "p = (c1, out)" by fastforce
      with Inr f(6) obtain s' where c': "c' = c1\<lparr>c_socket := s'\<rparr>" "r' = CONNECTION_OK \<or> r' = CONNECTION_FAILED"
        by (auto simp: sasl_feed_socket)
      have "consistent c1" using sasl_feed_consistent Inr p by blast
      then have ic': "conn_inv A ext C c' d' us'" using f(2,4) cur c' by (simp add: conn_inv_def)
      have stl: "in_stream (c_socket c) = l @ crlf @ in_stream (c_socket c')" using l(2) st by simp
      note spec = lines_spec_Cons [OF _ Inr [unfolded p] c'(1) stl]
      consider "r' \<noteq> CONNECTION_OK" | "r' = CONNECTION_OK" "c_authenticated c'" | "r' = CONNECTION_OK" "\<not> c_authenticated c'" by blast
      then show ?thesis
      proof cases
        case 1
        then have "lines_spec c' [] (Some r') c'" using c'(2) by (simp add: lines_spec_def)
        from spec [OF this] 1 step ic' f(5) show ?thesis by auto
      next
        case 2
        have "\<exists>s. c' = c'\<lparr>c_socket := s\<rparr>" by (rule exI [of _ "c_socket c'"]) simp
        with 2 have "lines_spec c' [] None c'" by (simp add: lines_spec_def lines_bytes_def)
        from spec [OF this] 2 step ic' f(5) show ?thesis by auto
      next
        case 3
        have "length (in_stream (c_socket c')) < length (in_stream (c_socket c))" unfolding stl by (simp add: crlf_def)
        from less.hyps [OF this ic' 3(2), of "i + 1"] obtain ro c'' d'' us'' ls where
          "connection_dequeue_lines envs (i + 1) c' d' us' = Some (ro, c'', d'', us'')" "conn_inv A ext C c'' d'' us''"
          "c_server c'' = c_server c'" "ro = None \<longrightarrow> c_authenticated c''" "lines_spec c' ls ro c''" by blast
        with spec 3 step f(5) show ?thesis by (metis (no_types, lifting))
      qed
    qed
  qed
qed

section \<open>Messages\<close>

lemma connection_dequeue_message_ok:
  assumes "conn_inv A ext C c d us" "c_authenticated c" "can_shutdown env" "length header_memory = 16"
  shows "\<exists>r mo s us'. connection_dequeue_message env header_memory c d us = Some (r, mo, c\<lparr>c_socket := s\<rparr>, d, us') \<and>
    conn_inv A ext C (c\<lparr>c_socket := s\<rparr>) d us' \<and>
    (case mo of
       Some m \<Rightarrow> r = CONNECTION_OK \<and> next_frame (in_stream (c_socket c)) = FRAME (m_data m) \<and>
         in_stream (c_socket c) = m_data m @ in_stream s \<and> (fdlist_count (m_fds m) > 0 \<and> c_server c \<longrightarrow> fds_allowed (c_sasl_server c))
     | None \<Rightarrow> r = CONNECTION_OK \<longrightarrow> in_stream s = in_stream (c_socket c) \<and> next_frame (in_stream (c_socket c)) = NEED_MORE)"
proof -
  have "in_inv A ext C (c_socket c) us" using assms(1,2) by (simp add: conn_inv_def)
  from socket_dequeue_ok [OF this assms(3,4)] obtain r mo s us' where
    q: "socket_dequeue env header_memory (c_socket c) us = Some (r, mo, s, us')" "in_inv A ext C s us'"
      "dequeue_spec (in_stream (c_socket c)) (iq_fds (s_in (c_socket c)) \<noteq> None) r mo s" by blast
  have inv: "conn_inv A ext C (c\<lparr>c_socket := s\<rparr>) d us'" using assms(1,2) q(2) by (simp add: conn_inv_def)
  show ?thesis
  proof (cases mo)
    case None
    with q inv show ?thesis
      by (cases "r = SOCKET_OK") (auto simp: connection_dequeue_message_def dequeue_spec_def Let_def)
  next
    case (Some m)
    then have "r = SOCKET_OK" "next_frame (in_stream (c_socket c)) = FRAME (m_data m)" "in_stream (c_socket c) = m_data m @ in_stream s"
      using q(3) by (auto simp: dequeue_spec_def)
    with Some q(1) inv show ?thesis
      by (cases "fdlist_count (m_fds m) > 0 \<and> c_server c \<and> \<not> fds_allowed (c_sasl_server c)")
        (auto simp: connection_dequeue_message_def Let_def)
  qed
qed

text \<open>What \<open>connection_dequeue\<close> promises: the lines it takes from the stream, and the message behind them.\<close>

definition connection_spec :: "connection \<Rightarrow> string list \<Rightarrow> connection_ret \<Rightarrow> message option \<Rightarrow> connection \<Rightarrow> bool" where
  "connection_spec c lines r mo c' \<longleftrightarrow> (c_authenticated c \<longrightarrow> lines = []) \<and>
     (case mo of
        Some m \<Rightarrow> r = CONNECTION_OK \<and> c_authenticated c' \<and>
          (\<exists>rest. in_stream (c_socket c) = lines_bytes lines @ rest \<and> next_frame rest = FRAME (m_data m) \<and>
             rest = m_data m @ in_stream (c_socket c')) \<and>
          (fdlist_count (m_fds m) > 0 \<and> c_server c \<longrightarrow> fds_allowed (c_sasl_server c'))
      | None \<Rightarrow> r = CONNECTION_OK \<longrightarrow> in_stream (c_socket c) = lines_bytes lines @ in_stream (c_socket c') \<and>
          (if c_authenticated c' then next_frame (in_stream (c_socket c')) = NEED_MORE else \<not> has_crlf (in_stream (c_socket c')))) \<and>
     (r = CONNECTION_OK \<longrightarrow> (\<exists>c1 s. feed_all c lines = Inr c1 \<and> c' = c1\<lparr>c_socket := s\<rparr>)) \<and>
     (r = CONNECTION_E_SASL_VIOLATION \<longrightarrow> feed_all c lines = Inl SASL_E_PROTOCOL_VIOLATION)"

lemma connection_dequeue_ok:
  assumes "conn_inv A ext C c d us" "\<And>i. can_shutdown (envs i)" "can_shutdown env" "length header_memory = 16"
  shows "\<exists>r mo c' d' us' lines. connection_dequeue envs env header_memory c d us = Some (r, mo, c', d', us') \<and>
    conn_inv A ext C c' d' us' \<and> c_server c' = c_server c \<and> connection_spec c lines r mo c'"
proof (cases "c_authenticated c")
  case True
  from connection_dequeue_message_ok [OF assms(1) True assms(3,4)] obtain r mo s us' where
    q: "connection_dequeue_message env header_memory c d us = Some (r, mo, c\<lparr>c_socket := s\<rparr>, d, us')"
      "conn_inv A ext C (c\<lparr>c_socket := s\<rparr>) d us'"
      "case mo of
       Some m \<Rightarrow> r = CONNECTION_OK \<and> next_frame (in_stream (c_socket c)) = FRAME (m_data m) \<and>
         in_stream (c_socket c) = m_data m @ in_stream s \<and> (fdlist_count (m_fds m) > 0 \<and> c_server c \<longrightarrow> fds_allowed (c_sasl_server c))
     | None \<Rightarrow> r = CONNECTION_OK \<longrightarrow> in_stream s = in_stream (c_socket c) \<and> next_frame (in_stream (c_socket c)) = NEED_MORE" by blast
  have "r \<noteq> CONNECTION_E_SASL_VIOLATION"
    using q(1) by (auto simp: connection_dequeue_message_def Let_def split: bind_splits if_splits option.splits)
  with q(3) True have "connection_spec c [] r mo (c\<lparr>c_socket := s\<rparr>)"
    by (auto simp: connection_spec_def lines_bytes_def split: option.splits)
  moreover have "connection_dequeue envs env header_memory c d us = Some (r, mo, c\<lparr>c_socket := s\<rparr>, d, us')"
    using True q(1) by (simp add: connection_dequeue_def)
  ultimately show ?thesis using q(2) by fastforce
next
  case False
  from dequeue_lines_ok [of envs, OF assms(2,1) False, of 0] obtain ro c1 d1 us1 lines where
    l: "connection_dequeue_lines envs 0 c d us = Some (ro, c1, d1, us1)" "conn_inv A ext C c1 d1 us1" "c_server c1 = c_server c"
      "ro = None \<longrightarrow> c_authenticated c1" "lines_spec c lines ro c1" by blast
  show ?thesis
  proof (cases ro)
    case (Some r)
    then have "connection_spec c lines r None c1" using l(5) False by (auto simp: connection_spec_def lines_spec_def)
    moreover have "connection_dequeue envs env header_memory c d us = Some (r, None, c1, d1, us1)"
      using False l(1) Some by (simp add: connection_dequeue_def)
    ultimately show ?thesis using l(2,3) by blast
  next
    case None
    then have a: "c_authenticated c1" using l(4) by simp
    from connection_dequeue_message_ok [OF l(2) a assms(3,4)] obtain r mo s us' where
      q: "connection_dequeue_message env header_memory c1 d1 us1 = Some (r, mo, c1\<lparr>c_socket := s\<rparr>, d1, us')"
        "conn_inv A ext C (c1\<lparr>c_socket := s\<rparr>) d1 us'"
        "case mo of
         Some m \<Rightarrow> r = CONNECTION_OK \<and> next_frame (in_stream (c_socket c1)) = FRAME (m_data m) \<and>
           in_stream (c_socket c1) = m_data m @ in_stream s \<and> (fdlist_count (m_fds m) > 0 \<and> c_server c1 \<longrightarrow> fds_allowed (c_sasl_server c1))
       | None \<Rightarrow> r = CONNECTION_OK \<longrightarrow> in_stream s = in_stream (c_socket c1) \<and> next_frame (in_stream (c_socket c1)) = NEED_MORE" by blast
    have "r \<noteq> CONNECTION_E_SASL_VIOLATION"
      using q(1) by (auto simp: connection_dequeue_message_def Let_def split: bind_splits if_splits option.splits)
    moreover from l(5) None obtain c2 s2 where
      n: "in_stream (c_socket c) = lines_bytes lines @ in_stream (c_socket c1)" "feed_all c lines = Inr c2" "c1 = c2\<lparr>c_socket := s2\<rparr>"
      by (auto simp: lines_spec_def)
    moreover from n(3) have "c1\<lparr>c_socket := s\<rparr> = c2\<lparr>c_socket := s\<rparr>" by simp
    ultimately have "connection_spec c lines r mo (c1\<lparr>c_socket := s\<rparr>)"
      using q(3) False a l(3) unfolding connection_spec_def by (auto split: option.splits)
    moreover have "connection_dequeue envs env header_memory c d us = Some (r, mo, c1\<lparr>c_socket := s\<rparr>, d1, us')"
      using False l(1) None q(1) by (simp add: connection_dequeue_def)
    ultimately show ?thesis using q(2) l(3) by fastforce
  qed
qed

section \<open>A new connection\<close>

lemma accounts_user_ref:
  assumes "accounts A us ext C" "users us u \<noteq> None"
  shows "\<exists>us'. user_ref us u = Some us' \<and> accounts A us' (ext(u := ext u + 1)) C \<and> users us' u \<noteq> None"
proof -
  from assms(2) obtain usr where usr: "users us u = Some usr" by blast
  from user_ref_inv [OF accounts_user_inv [OF assms(1)] usr] obtain us' where
    r: "user_ref us u = Some us'" "user_inv us' (ext(u := ext u + 1)) C" by blast
  then have us': "us' = upd_user u (\<lambda>usr. usr\<lparr>user_refs := user_refs usr + 1\<rparr>) us"
    by (auto simp: user_ref_def split: bind_splits if_splits)
  then have "actors_in A us'" "n_slots us' = n_slots us" "users us' u \<noteq> None"
    using assms usr by (simp_all add: accounts_def actors_in_same)
  with r assms(1) show ?thesis by (simp add: accounts_def)
qed

lemma links_ok_init:
  assumes "links_ok d xs ys" "f \<notin> set xs \<union> set ys"
  shows "links_ok (upd_links (c_list_init (FILE f)) d) xs ys"
proof -
  have "nxt (d_links d) (FILE f) = FILE f" "prv (d_links d) (FILE f) = FILE f"
    using assms by (simp_all add: links_ok_def is_list_Nil)
  then have "c_list_init (FILE f) (d_links d) = d_links d" by (simp add: c_list_init_def fun_upd_idem)
  with assms(1) show ?thesis by simp
qed

text \<open>
  A connection for a known user that could be registered starts with an empty stream and the
  state machine in its first state.
\<close>

lemma connection_init_server_ok:
  assumes "accounts A us ext C" "users us u \<noteq> None" "u \<in> A" "length buffer = IQUEUE_RECV_MAX"
    and "links_ok d xs ys" "\<forall>g \<in> set xs \<union> set ys. pending d g" "f \<notin> set xs \<union> set ys"
    and "connection_init_server denv f fd u guid buffer d us = Some (True, c, d', us')"
  shows "conn_inv A (ext(u := ext u + 2)) C c d' us' \<and> c_server c \<and> c_sasl_server c = sasl_server_init u guid \<and> in_stream (c_socket c) = []"
proof -
  from accounts_user_ref [OF assms(1,2)] obtain us1 where
    1: "user_ref us u = Some us1" "accounts A us1 (ext(u := ext u + 1)) C" "users us1 u \<noteq> None" by blast
  from accounts_user_ref [OF 1(2,3)] obtain us2 where
    2: "user_ref us1 u = Some us2" "accounts A us2 (ext(u := ext u + 2)) C" by (auto simp: numeral_2_eq_2)
  let ?s = "\<lparr>s_user = Some u, s_shutdown = False, s_reset = False, s_hup_in = False, s_hup_out = False,
            s_in = iqueue_null (Some u) buffer, s_message = None, s_queue = [], s_pending = []\<rparr>"
  have s: "socket_init (Some u) buffer us = Some (?s, us2)" using 1(1) 2(1) by (simp add: socket_init_def iqueue_init_def)
  let ?d = "upd_links (c_list_init (FILE f)) (upd_file f DISPATCH_FILE_NULL d)"
  let ?file = "\<lparr>df_context = True, df_fn = True, df_fd = fd, df_user_mask = event_bits EPOLLIN OR event_bits EPOLLOUT,
      df_kernel_mask = EPOLL_ALL, df_events = event_bits EPOLLIN OR event_bits EPOLLOUT\<rparr>"
  have c0: "dispatch_file_init denv f fd EPOLL_ALL (event_bits EPOLLIN OR event_bits EPOLLOUT) ?d = Some (True, d')" "us' = us2"
      "c = \<lparr>c_socket = ?s, c_socket_file = f, c_sasl_server = sasl_server_init u guid, c_sasl_client = SASL_CLIENT_NULL,
              c_server = True, c_authenticated = False\<rparr>"
    using assms(8) s
    by (auto simp: connection_init_server_def connection_init_def Let_def simp del: event_bits.simps split: bind_splits if_splits prod.splits)
  from c0(1) have d': "d_files d' = (d_files d)(f \<mapsto> ?file)" "d_links d' = c_list_init (FILE f) (c_list_init (FILE f) (d_links d))"
    by (auto simp: dispatch_file_init_def poll_arrays_grow_def Let_def split: bind_splits if_splits)
  have "links_ok (upd_links (c_list_init (FILE f)) (upd_links (c_list_init (FILE f)) d)) xs ys"
    by (intro links_ok_init assms(5,7))
  then have "links_ok d' xs ys" using d'(2) by (simp add: links_ok_def)
  moreover have "\<forall>g \<in> set xs \<union> set ys. pending d' g" using assms(6,7) d'(1) by (auto simp: pending_def)
  moreover have "registered d' f EPOLL_ALL" using d'(1) by (simp add: registered_def)
  ultimately have "disp_ok d' f" by (auto simp: disp_ok_def)
  moreover have "lines_inv A (ext(u := ext u + 2)) C ?s us2"
    using 2(2) assms(3,4) by (simp add: lines_inv_def line_inv_def Queue.buffer_ok_def data_size_def iqueue_null_def fds_inv_def
        target_usable_def payer_def charge_actor_def socket_charges_def iq_charges_def flags_ok_def line_buffers_def)
      (simp add: user_charge_init_def)
  moreover have "in_stream ?s = []" by (simp add: in_stream_def stream_def unread_def iqueue_null_def)
  moreover have "consistent c" using c0(3) by (simp add: consistent_def sasl_server_is_done_def sasl_server_init_def)
  ultimately show ?thesis using c0 by (simp add: conn_inv_def)
qed

section \<open>The contract of \<open>connection_dequeue\<close>\<close>

text \<open>
  C37: A connection turns its byte stream into messages. While the kernel allows to shut down the
  socket, \<open>connection_dequeue\<close> never fails an assertion and terminates, and it keeps the
  invariant. It takes a sequence of lines from the front of the stream and feeds them, in
  order, to the state machine of this end; an authenticated connection takes none. A message
  that it returns is the next frame behind these lines, is only returned in the authenticated
  state, and carries descriptors on a server only if they were negotiated. If it succeeds
  without a message, nothing but the lines was taken, and the rest holds no complete frame, or
  no complete line if the exchange is not finished. A reported violation is one of the state
  machine on these lines.
\<close>
theorem connection_dequeue_refines:
  assumes "conn_inv A ext C c d us" "\<forall>i. can_shutdown (envs i)" "can_shutdown env" "length header_memory = 16"
  shows "\<exists>r mo c' d' us' lines. connection_dequeue envs env header_memory c d us = Some (r, mo, c', d', us') \<and>
    conn_inv A ext C c' d' us' \<and> c_server c' = c_server c \<and> connection_spec c lines r mo c'"
  by (rule connection_dequeue_ok [OF assms(1) _ assms(3,4)]) (use assms(2) in simp)

definition some_connection :: "string \<Rightarrow> connection" where
  "some_connection input = \<lparr>c_socket = some_socket input [], c_socket_file = 0, c_sasl_server = sasl_server_init 1 (replicate 16 (CHR 0x00)),
     c_sasl_client = SASL_CLIENT_NULL, c_server = True, c_authenticated = False\<rparr>"

lemma some_connection_inv:
  assumes "length input \<le> 2048"
  shows "conn_inv {1} ((\<lambda>_. 0)(1 := 1)) {#} (some_connection input) some_dispatch (one_user 4 [100, 10, 10, 10] 1)"
    "in_stream (c_socket (some_connection input)) = input"
proof -
  have q: "line_inv (some_queue input)" "fds_inv (some_queue input)" "unread (some_queue input) = input"
    using some_queue_ok [OF assms] by simp_all
  have "lines_inv {1} ((\<lambda>_. 0)(1 := 1)) {#} (some_socket input []) (one_user 4 [100, 10, 10, 10] 1)"
    using q one_user_accounts
    by (simp add: lines_inv_def some_socket_def line_inv_def fds_inv_def Queue.buffer_ok_def data_size_def target_usable_def usable_def
        payer_def socket_charges_def flags_ok_def line_buffers_def) (simp add: iq_charges_def some_queue_def iqueue_null_def)
  moreover have "registered some_dispatch 0 EPOLL_ALL" "\<forall>g \<in> set [0] \<union> set []. pending some_dispatch g"
    using some_dispatch_files by (simp_all add: registered_def EPOLL_ALL_def pending_def dispatch_file_events_def)
  then have "disp_ok some_dispatch 0" using some_dispatch_links unfolding disp_ok_def by blast
  ultimately show "conn_inv {1} ((\<lambda>_. 0)(1 := 1)) {#} (some_connection input) some_dispatch (one_user 4 [100, 10, 10, 10] 1)"
    by (simp add: conn_inv_def some_connection_def consistent_def sasl_server_is_done_def sasl_server_init_def)
  show "in_stream (c_socket (some_connection input)) = input"
    using q(3) by (simp add: some_connection_def in_stream_def some_socket_def stream_def unread_def)
      (simp add: some_queue_def iqueue_null_def)
qed

theorem connection_dequeue_refines_witness:
  "\<exists>r mo c' d' us' lines. connection_dequeue (\<lambda>_. some_env) some_env (replicate 16 (CHR 0x00)) (some_connection ''AUTH'') some_dispatch
     (one_user 4 [100, 10, 10, 10] 1) = Some (r, mo, c', d', us') \<and> connection_spec (some_connection ''AUTH'') lines r mo c'"
proof -
  have "can_shutdown some_env" by (simp add: can_shutdown_def some_env_def)
  with connection_dequeue_refines [OF some_connection_inv(1) [of "''AUTH''"], of "\<lambda>_. some_env" some_env "replicate 16 (CHR 0x00)"]
  show ?thesis by fastforce
qed

end
