(* ===== verification/Reply.thy ===== *)
theory Reply
  imports User
begin

text \<open>
  Reply tracking (\<open>src/bus/reply.h\<close>, \<open>src/bus/reply.c\<close>): when a method call is
  forwarded, the callee's registry remembers the caller and the serial, so that exactly
  one reply is routed back; the slot is charged on the callee on behalf of the caller.

  A slot is in the tree of one registry, ordered by \<open>(id, serial)\<close>, and in the list of
  one owner. \<open>reply_world\<close> holds the trees and the lists of all peers; a slot is
  identified by its registry and its key. The accounting registry is a separate state.
\<close>

type_synonym peer_id = u64
type_synonym reply_key = "u64 \<times> u32"

datatype reply_ret = REPLY_OK | REPLY_E_EXISTS | REPLY_E_QUOTA | REPLY_ENOMEM | REPLY_ERR user_ret

record reply_slot =
  rs_owner :: peer_id
  rs_charge :: user_charge
  rs_id :: u64
  rs_serial :: u32

record reply_world =
  reply_tree :: "peer_id \<Rightarrow> reply_slot list"
  reply_list :: "peer_id \<Rightarrow> (peer_id \<times> reply_key) list"

section \<open>Operations\<close>

definition reply_slot_compare :: "reply_key \<Rightarrow> reply_slot \<Rightarrow> int" where
  "reply_slot_compare key slot =
     (if fst key < rs_id slot then - 1
      else if fst key > rs_id slot then 1
      else if snd key < rs_serial slot then - 1
      else if snd key > rs_serial slot then 1
      else 0)"

definition slot_key :: "reply_slot \<Rightarrow> reply_key" where
  "slot_key slot = (rs_id slot, rs_serial slot)"

definition reply_registry_init :: "peer_id \<Rightarrow> reply_world \<Rightarrow> reply_world" where
  "reply_registry_init reg w = w\<lparr>reply_tree := (reply_tree w)(reg := [])\<rparr>"

definition reply_registry_deinit :: "peer_id \<Rightarrow> reply_world \<Rightarrow> unit option" where
  "reply_registry_deinit reg w = c_assert (reply_tree w reg = [])"

definition reply_owner_init :: "peer_id \<Rightarrow> reply_world \<Rightarrow> reply_world" where
  "reply_owner_init owner w = w\<lparr>reply_list := (reply_list w)(owner := [])\<rparr>"

definition reply_owner_deinit :: "peer_id \<Rightarrow> reply_world \<Rightarrow> unit option" where
  "reply_owner_deinit owner w = c_assert (reply_list w owner = [])"

definition reply_slot_get_by_id :: "reply_world \<Rightarrow> peer_id \<Rightarrow> u64 \<Rightarrow> u32 \<Rightarrow> reply_slot option" where
  "reply_slot_get_by_id w reg i serial = rb_find reply_slot_compare (i, serial) (reply_tree w reg)"

text \<open>
  \<open>mem\<close> and \<open>mem'\<close> are the allocations of the slot and of a usage. On the error return of
  \<open>user_charge\<close> the source drops its only pointer to the slot: nothing frees the slot or
  releases its charge, so the accounting state is returned as the failed charge left it.
\<close>

definition reply_slot_new ::
  "bool \<Rightarrow> bool \<Rightarrow> bool \<Rightarrow> reply_world \<Rightarrow> user_registry \<Rightarrow> peer_id \<Rightarrow> peer_id \<Rightarrow> uid option \<Rightarrow> uid option \<Rightarrow>
   u64 \<Rightarrow> u32 \<Rightarrow> (reply_ret \<times> reply_world \<times> user_registry) option" where
  "reply_slot_new mem mem' log_ok w us reg owner user actor i serial =
     (case rb_find reply_slot_compare (i, serial) (reply_tree w reg) of
        Some _ \<Rightarrow> Some (REPLY_E_EXISTS, w, us)
      | None \<Rightarrow>
        if \<not> mem then Some (REPLY_ENOMEM, w, us)
        else do {
          (r, ch, us) \<leftarrow> user_charge mem' log_ok us user user_charge_init actor USER_SLOT_OBJECTS 1;
          if r \<noteq> USER_OK
          then Some (if r = USER_E_QUOTA then REPLY_E_QUOTA else REPLY_ERR r, w, us)
          else
            let slot = \<lparr>rs_owner = owner, rs_charge = ch, rs_id = i, rs_serial = serial\<rparr> in
            Some (REPLY_OK,
              w\<lparr>reply_tree := (reply_tree w)(reg :=
                    rb_add reply_slot_compare (i, serial) slot (reply_tree w reg)),
                 reply_list := (reply_list w)(owner := reply_list w owner @ [(reg, i, serial)])\<rparr>,
              us) })"

definition reply_slot_free ::
  "reply_world \<Rightarrow> user_registry \<Rightarrow> peer_id \<Rightarrow> reply_slot \<Rightarrow> (reply_world \<times> user_registry) option" where
  "reply_slot_free w us reg slot = do {
     (ch, us) \<leftarrow> user_charge_deinit us (rs_charge slot);
     Some (w\<lparr>reply_list := (reply_list w)(rs_owner slot :=
                 filter (\<lambda>x. x \<noteq> (reg, slot_key slot)) (reply_list w (rs_owner slot))),
             reply_tree := (reply_tree w)(reg :=
                 rb_unlink reply_slot_compare (slot_key slot) (reply_tree w reg))\<rparr>,
           us) }"

text \<open>The accounted objects of an owner; a key of its list that is in no tree cannot occur.\<close>

definition reply_owner_get_stats :: "reply_world \<Rightarrow> peer_id \<Rightarrow> u32" where
  "reply_owner_get_stats w owner =
     foldl (\<lambda>n (reg, key). case rb_find reply_slot_compare key (reply_tree w reg) of
        None \<Rightarrow> n | Some slot \<Rightarrow> n + ch_charge (rs_charge slot)) 0 (reply_list w owner)"

section \<open>The index and the invariant\<close>

interpretation reply_index: compare_order reply_slot_compare slot_key "\<lambda>_. True"
  by unfold_locales (auto simp: reply_slot_compare_def slot_key_def prod_eq_iff split: if_splits)

text \<open>
  Trees are ordered (hence hold a key at most once), lists have no duplicates, and a key
  is in the list of an owner exactly if the slot in that tree has this owner.
\<close>

definition reply_inv :: "reply_world \<Rightarrow> bool" where
  "reply_inv w \<longleftrightarrow>
     (\<forall>reg. reply_index.ordered (reply_tree w reg)) \<and>
     (\<forall>owner. distinct (reply_list w owner)) \<and>
     (\<forall>owner reg key. (reg, key) \<in> set (reply_list w owner) \<longleftrightarrow>
        (\<exists>slot \<in> set (reply_tree w reg). slot_key slot = key \<and> rs_owner slot = owner))"

definition tree_charges :: "reply_slot list \<Rightarrow> user_charge multiset" where
  "tree_charges t = image_mset rs_charge (mset t)"

lemma reply_inv_init: "reply_inv \<lparr>reply_tree = (\<lambda>_. []), reply_list = (\<lambda>_. [])\<rparr>"
  by (simp add: reply_inv_def reply_index.ordered_Nil)

lemma reply_slot_get_by_id_iff:
  assumes "reply_inv w"
  shows "reply_slot_get_by_id w reg i serial = Some slot \<longleftrightarrow>
    slot \<in> set (reply_tree w reg) \<and> slot_key slot = (i, serial)"
  using assms by (simp add: reply_slot_get_by_id_def reply_index.ordered_find reply_inv_def)

lemma reply_add_inv:
  assumes inv: "reply_inv w" and new: "rb_find reply_slot_compare (slot_key slot) (reply_tree w reg) = None"
  shows "reply_inv (w\<lparr>reply_tree := (reply_tree w)(reg :=
      rb_add reply_slot_compare (slot_key slot) slot (reply_tree w reg)),
    reply_list := (reply_list w)(rs_owner slot := reply_list w (rs_owner slot) @ [(reg, slot_key slot)])\<rparr>)"
proof -
  have fresh: "slot_key slot \<notin> slot_key ` set (reply_tree w reg)"
    using inv new by (simp add: reply_inv_def reply_index.ordered_find_None)
  have "(reg, slot_key slot) \<in> set (reply_list w (rs_owner slot)) \<longleftrightarrow>
      (\<exists>s \<in> set (reply_tree w reg). slot_key s = slot_key slot \<and> rs_owner s = rs_owner slot)"
    using inv unfolding reply_inv_def by blast
  then have "(reg, slot_key slot) \<notin> set (reply_list w (rs_owner slot))"
    using fresh by (metis imageI)
  with inv new show ?thesis
    by (auto simp: reply_inv_def reply_index.ordered_add)
qed

lemma tree_unlink_set:
  "reply_index.ordered t \<Longrightarrow>
     set (rb_unlink reply_slot_compare key t) = {s \<in> set t. slot_key s \<noteq> key}"
  by (auto simp: rb_unlink_def reply_index.cmp_eq)

lemma slot_unique:
  assumes ord: "reply_index.ordered t" and "slot \<in> set t" "s \<in> set t" "slot_key s = slot_key slot"
  shows "s = slot"
proof -
  have "rb_find reply_slot_compare (slot_key slot) t = Some s"
    "rb_find reply_slot_compare (slot_key slot) t = Some slot"
    using assms by (simp_all add: reply_index.ordered_find [OF ord])
  then show ?thesis by simp
qed

lemma reply_unlink_inv:
  assumes inv: "reply_inv w" and slot: "slot \<in> set (reply_tree w reg)"
  shows "reply_inv (w\<lparr>reply_list := (reply_list w)(rs_owner slot :=
        filter (\<lambda>x. x \<noteq> (reg, slot_key slot)) (reply_list w (rs_owner slot))),
      reply_tree := (reply_tree w)(reg := rb_unlink reply_slot_compare (slot_key slot) (reply_tree w reg))\<rparr>)"
proof -
  have ord: "reply_index.ordered (reply_tree w reg)" using inv by (simp add: reply_inv_def)
  note uniq = slot_unique [OF ord slot]
  show ?thesis
    using inv uniq by (auto simp: reply_inv_def reply_index.ordered_unlink tree_unlink_set)
qed

lemma tree_charges_add: "tree_charges (rb_add cmp k s t) = add_mset (rs_charge s) (tree_charges t)"
  by (simp add: tree_charges_def mset_rb_add)

lemma tree_charges_unlink:
  assumes ord: "reply_index.ordered t" and slot: "slot \<in> set t"
  shows "tree_charges t = add_mset (rs_charge slot) (tree_charges (rb_unlink reply_slot_compare (slot_key slot) t))"
proof -
  have "rb_unlink reply_slot_compare (slot_key slot) t = filter (\<lambda>e. slot_key e \<noteq> slot_key slot) t"
    by (auto simp: rb_unlink_def reply_index.cmp_eq intro: filter_cong)
  then show ?thesis
    using arg_cong [OF mset_drop_key [OF reply_index.ordered_keys_distinct [OF ord] slot], of "image_mset rs_charge"]
    by (simp add: tree_charges_def)
qed

section \<open>Properties of reply tracking\<close>

lemma reply_charge:
  assumes "user_inv us ext C" "chargeable us user user_charge_init actor slot"
  obtains r ch us' where "user_charge mem log_ok us user user_charge_init actor slot n = Some (r, ch, us')"
    "user_inv us' ext (add_mset ch C)"
  using user_account.charge_inv [OF assms(1), of "(mem, log_ok, user, actor, slot, n)"] assms(2) by auto

text \<open>
  Registering a call. If the trees and owner lists are consistent and all charges are
  accounted for, \<open>reply_slot_new\<close> returns without failing an assertion and keeps trees and
  lists consistent. It reports \<open>REPLY_E_EXISTS\<close> exactly if the serial of this caller is
  already tracked. On success exactly this key is added to the registry, the slot is in
  the owner's list, and all charges, the new one included, are accounted for; on every
  error the trees and lists are unchanged.
\<close>
theorem reply_slot_new_tracks:
  assumes "reply_inv w" "user_inv us ext (tree_charges (reply_tree w reg) + C)"
    "chargeable us user user_charge_init actor USER_SLOT_OBJECTS"
  shows "\<exists>r w' us'. reply_slot_new mem mem' log_ok w us reg owner user actor i serial = Some (r, w', us') \<and>
    reply_inv w' \<and>
    (r = REPLY_E_EXISTS \<longleftrightarrow> reply_slot_get_by_id w reg i serial \<noteq> None) \<and>
    (r \<noteq> REPLY_OK \<longrightarrow> w' = w) \<and>
    (r = REPLY_OK \<longrightarrow>
       user_inv us' ext (tree_charges (reply_tree w' reg) + C) \<and>
       (reg, i, serial) \<in> set (reply_list w' owner) \<and>
       (\<exists>slot. reply_slot_get_by_id w' reg i serial = Some slot \<and> rs_owner slot = owner \<and>
         (\<forall>j s. (j, s) \<noteq> (i, serial) \<longrightarrow>
            reply_slot_get_by_id w' reg j s = reply_slot_get_by_id w reg j s)))"
proof (cases "rb_find reply_slot_compare (i, serial) (reply_tree w reg)")
  case (Some slot)
  with assms(1) show ?thesis by (simp add: reply_slot_new_def reply_slot_get_by_id_def)
next
  case None
  from reply_charge [OF assms(2,3), of mem' log_ok 1] obtain r ch us' where
    ch: "user_charge mem' log_ok us user user_charge_init actor USER_SLOT_OBJECTS 1 = Some (r, ch, us')"
    and inv': "user_inv us' ext (add_mset ch (tree_charges (reply_tree w reg) + C))"
    by blast
  let ?slot = "\<lparr>rs_owner = owner, rs_charge = ch, rs_id = i, rs_serial = serial\<rparr>"
  have key: "slot_key ?slot = (i, serial)" by (simp add: slot_key_def)
  have ord: "reply_index.ordered (reply_tree w reg)" using assms(1) by (simp add: reply_inv_def)
  have new: "rb_find reply_slot_compare (slot_key ?slot) (reply_tree w reg) = None" using None key by simp
  have find: "rb_find reply_slot_compare k (rb_add reply_slot_compare (i, serial) ?slot (reply_tree w reg)) =
      (if k = (i, serial) then Some ?slot else rb_find reply_slot_compare k (reply_tree w reg))" for k
    using reply_index.find_add [OF ord TrueI new TrueI, of k] key by simp
  have charges: "tree_charges (rb_add reply_slot_compare (i, serial) ?slot (reply_tree w reg)) + C =
      add_mset ch (tree_charges (reply_tree w reg) + C)"
    by (simp add: tree_charges_add)
  show ?thesis
    using None ch inv' assms(1) find reply_add_inv [OF assms(1) new] key charges
    by (simp add: reply_slot_new_def reply_slot_get_by_id_def)
qed

text \<open>
  A reply is routed once. Freeing the slot that a lookup found never fails an
  assertion, keeps trees and lists consistent, releases exactly the charge of this slot,
  and afterwards the same key is not found any more while every other key of the registry
  is found as before.
\<close>
theorem reply_slot_free_once:
  assumes "reply_inv w" "user_inv us ext (tree_charges (reply_tree w reg) + C)"
    "reply_slot_get_by_id w reg i serial = Some slot"
  shows "\<exists>w' us'. reply_slot_free w us reg slot = Some (w', us') \<and> reply_inv w' \<and>
    user_inv us' ext (tree_charges (reply_tree w' reg) + C) \<and>
    (\<forall>j s. reply_slot_get_by_id w' reg j s =
       (if (j, s) = (i, serial) then None else reply_slot_get_by_id w reg j s))"
proof -
  have slot: "slot \<in> set (reply_tree w reg)" "slot_key slot = (i, serial)"
    using assms(1,3) by (simp_all add: reply_slot_get_by_id_iff)
  have ord: "reply_index.ordered (reply_tree w reg)" using assms(1) by (simp add: reply_inv_def)
  have "user_inv us ext (add_mset (rs_charge slot)
      (tree_charges (rb_unlink reply_slot_compare (slot_key slot) (reply_tree w reg)) + C))"
    using assms(2) tree_charges_unlink [OF ord slot(1)] by simp
  from user_account.release_inv [OF this] obtain ch us' where
    "user_charge_deinit us (rs_charge slot) = Some (ch, us')"
    "user_inv us' ext (tree_charges (rb_unlink reply_slot_compare (slot_key slot) (reply_tree w reg)) + C)"
    by blast
  with reply_unlink_inv [OF assms(1) slot(1)] slot(2) show ?thesis
    by (simp add: reply_slot_free_def reply_slot_get_by_id_def reply_index.find_unlink [OF ord])
qed

lemma user_inv_pins_unique:
  assumes "user_inv us ext (add_mset ch C)" "ch_usage ch = Some (u, a)"
  shows "\<not> user_inv us ext' C"
proof
  assume inv: "user_inv us ext' C"
  from user_inv_charge [OF assms(1)] assms(2) obtain usr usage where
    u: "users us u = Some usr" "usages usr a = Some usage" by (auto simp: charge_ok_def)
  from user_inv_usage_ok [OF assms(1) u] user_inv_usage_ok [OF inv u] assms(2)
  show False by (simp add: usage_ok_def)
qed

text \<open>
  A refused call leaks. If the caller is over its quota, \<open>reply_slot_new\<close> reports
  \<open>REPLY_E_QUOTA\<close> and registers nothing, but the allocated slot and its embedded charge
  are never released: the accounts do not agree any more with the charges that are still
  reachable, whatever references to users exist outside, and a charge pinning the user
  and actor is left over that no slot carries.
\<close>
theorem reply_slot_new_quota_leak:
  assumes "user_inv us ext (tree_charges (reply_tree w reg) + C)"
    "chargeable us (Some u) user_charge_init actor USER_SLOT_OBJECTS"
    "reply_slot_new mem mem' log_ok w us reg owner (Some u) actor i serial = Some (REPLY_E_QUOTA, w', us')"
  shows "w' = w \<and> (\<forall>ext'. \<not> user_inv us' ext' (tree_charges (reply_tree w' reg) + C)) \<and>
    (\<exists>ch. ch_usage ch = Some (u, charge_actor u actor) \<and> ch_charge ch = 0 \<and>
       user_inv us' ext (add_mset ch (tree_charges (reply_tree w' reg) + C)))"
proof -
  from assms(3) obtain ch where
    ch: "user_charge mem' log_ok us (Some u) user_charge_init actor USER_SLOT_OBJECTS 1 = Some (USER_E_QUOTA, ch, us')"
    and w: "w' = w"
    by (auto simp: reply_slot_new_def Let_def split: option.splits if_splits bind_splits)
  from assms(2) obtain usr where usr: "users us u = Some usr" "card (dom (usages usr)) < 2 ^ 32 - 2"
    "USER_SLOT_OBJECTS < n_slots us" by (auto simp: chargeable_def few_actors_def)
  have unused: "ch_usage user_charge_init = None" "ch_charge user_charge_init = 0"
    by (simp_all add: user_charge_init_def)
  from user_charge_fresh_inv [OF assms(1) usr unused, of 1 actor _ mem' log_ok] ch have
    inv: "user_inv us' ext (add_mset ch (tree_charges (reply_tree w reg) + C))"
      "ch_usage ch = Some (u, charge_actor u actor)" "ch_charge ch = 0"
    by auto
  with w user_inv_pins_unique [OF inv(1,2)] show ?thesis by blast
qed

text \<open>Witnesses: one caller with UID 1 and a budget of one object, or of none.\<close>

definition no_replies :: reply_world where
  "no_replies = \<lparr>reply_tree = (\<lambda>_. []), reply_list = (\<lambda>_. [])\<rparr>"

lemma no_replies_inv: "reply_inv no_replies"
  unfolding no_replies_def by (rule reply_inv_init)

lemma no_replies_user_inv:
  "user_inv (one_user 4 [9, 9, 9, n] 1) ((\<lambda>_. 0)(1 := 1)) (tree_charges (reply_tree no_replies reg) + {#})"
  using one_user_inv [of 4 "[9, 9, 9, n]" 1] by (simp add: no_replies_def tree_charges_def)

lemma no_replies_chargeable:
  "chargeable (one_user 4 [9, 9, 9, n] 1) (Some 1) user_charge_init actor USER_SLOT_OBJECTS"
  by (rule one_user_chargeable) (simp_all add: USER_SLOT_OBJECTS_def user_charge_init_def)

theorem reply_slot_new_tracks_witness:
  "\<exists>r w' us'. reply_slot_new True True True no_replies (one_user 4 [9, 9, 9, 1] 1) 7 8 (Some 1) None 3 4 =
     Some (r, w', us') \<and> reply_inv w' \<and> r \<noteq> REPLY_E_EXISTS"
proof -
  have "reply_slot_get_by_id no_replies 7 3 4 = None"
    by (simp add: reply_slot_get_by_id_def no_replies_def rb_find_def)
  with reply_slot_new_tracks [OF no_replies_inv no_replies_user_inv no_replies_chargeable,
      of True True True 1 7 8 None 3 4]
  show ?thesis by blast
qed

definition one_reply :: reply_world where
  "one_reply = \<lparr>reply_tree = (\<lambda>_. [])(7 := [\<lparr>rs_owner = 8, rs_charge = user_charge_init, rs_id = 3, rs_serial = 4\<rparr>]),
     reply_list = (\<lambda>_. [])(8 := [(7, 3, 4)])\<rparr>"

theorem reply_slot_free_once_witness:
  "\<exists>w' us'. reply_slot_free one_reply (one_user 4 [9, 9, 9, 1] 1) 7
       \<lparr>rs_owner = 8, rs_charge = user_charge_init, rs_id = 3, rs_serial = 4\<rparr> = Some (w', us') \<and>
     reply_inv w' \<and> reply_slot_get_by_id w' 7 3 4 = None"
proof -
  have inv: "reply_inv one_reply"
    by (auto simp: reply_inv_def one_reply_def reply_index.ordered_def slot_key_def)
  have u: "user_inv (one_user 4 [9, 9, 9, 1] 1) ((\<lambda>_. 0)(1 := 1)) (tree_charges (reply_tree one_reply 7) + {#})"
    using one_user_inv [of 4 "[9, 9, 9, 1]" 1]
    by (simp add: one_reply_def tree_charges_def user_account.unused)
  have "reply_slot_get_by_id one_reply 7 3 4 =
      Some \<lparr>rs_owner = 8, rs_charge = user_charge_init, rs_id = 3, rs_serial = 4\<rparr>"
    by (simp add: reply_slot_get_by_id_def one_reply_def rb_find_def reply_slot_compare_def)
  from reply_slot_free_once [OF inv u this] show ?thesis by auto
qed

theorem reply_slot_new_quota_leak_witness:
  "\<exists>us'. reply_slot_new True True True no_replies (one_user 4 [9, 9, 9, 0] 1) 7 8 (Some 1) None 3 4 =
     Some (REPLY_E_QUOTA, no_replies, us') \<and> \<not> user_inv us' ((\<lambda>_. 0)(1 := 1)) {#}"
proof -
  obtain us' where
    new: "reply_slot_new True True True no_replies (one_user 4 [9, 9, 9, 0] 1) 7 8 (Some 1) None 3 4 =
      Some (REPLY_E_QUOTA, no_replies, us')"
    by (simp add: reply_slot_new_def no_replies_def rb_find_def user_charge_def one_user_def charge_actor_def
        user_registry_init_def user_new_def user_ref_usage_def user_ref_def user_charge_init_def
        user_charge_apply_def user_usage_link_def user_usage_new_def upd_user_def USER_SLOT_OBJECTS_def
        user_charge_commit_log_def nth_Cons')
  from reply_slot_new_quota_leak [OF no_replies_user_inv no_replies_chargeable new]
  have "\<not> user_inv us' ((\<lambda>_. 0)(1 := 1)) {#}" by (simp add: no_replies_def tree_charges_def)
  with new show ?thesis by blast
qed

end
