(* ===== verification/MatchKeys.thy ===== *)
theory MatchKeys
  imports Address User
begin

text \<open>
  Match rules, first part (\<open>src/bus/match.h\<close>, \<open>src/bus/match.c\<close>): parsing a rule string
  into match keys, comparing keys, and matching the metadata of a message against them;
  with \<open>c_dvar_is_path\<close> of \<open>subprojects/libcdvar-1\<close>.

  The strings of a rule are stored one after the other in a buffer with the size of the
  rule string. The model keeps the strings themselves and counts the bytes written; that
  the buffer is always large enough is a theorem. \<open>None\<close> is a failed assertion.
\<close>

section \<open>Object paths\<close>

fun path_scan :: "bool \<Rightarrow> string \<Rightarrow> bool option" where
  "path_scan slash [] = Some slash"
| "path_scan slash (c # s) =
     (if c = CHR ''/'' then (if slash then None else path_scan True s)
      else if is_alpha c \<or> is_digit c \<or> c = CHR ''_'' then path_scan False s
      else None)"

definition c_dvar_is_path :: "string \<Rightarrow> bool" where
  "c_dvar_is_path str =
     (case str of
        [] \<Rightarrow> False
      | c # s \<Rightarrow> c = CHR ''/'' \<and>
          (case path_scan True s of None \<Rightarrow> False | Some slash \<Rightarrow> \<not> slash \<or> length str = 1))"

section \<open>Keys\<close>

datatype match_error = MATCH_E_EOF | MATCH_E_INVALID | MATCH_E_QUOTA | MATCH_ENOMEM | MATCH_ERR user_ret

definition MATCH_RULE_LENGTH_MAX :: nat where "MATCH_RULE_LENGTH_MAX = 1024"

record match_filter =
  f_type :: u8
  f_sender :: u64
  f_interface :: "string option"
  f_member :: "string option"
  f_path :: "string option"
  f_args :: "string option list"
  f_n_args :: nat
  f_argpaths :: "string option list"
  f_n_argpaths :: nat

record match_keys =
  k_filter :: match_filter
  k_destination :: "string option"
  k_sender :: "string option"
  k_path_namespace :: "string option"
  k_arg0namespace :: "string option"

definition MATCH_FILTER_INIT :: match_filter where
  "MATCH_FILTER_INIT = \<lparr>f_type = DBUS_MESSAGE_TYPE_INVALID, f_sender = ADDRESS_ID_INVALID, f_interface = None,
     f_member = None, f_path = None, f_args = replicate 64 None, f_n_args = 0,
     f_argpaths = replicate 64 None, f_n_argpaths = 0\<rparr>"

definition MATCH_KEYS_NULL :: match_keys where
  "MATCH_KEYS_NULL = \<lparr>k_filter = MATCH_FILTER_INIT, k_destination = None, k_sender = None,
     k_path_namespace = None, k_arg0namespace = None\<rparr>"

definition upd_filter :: "(match_filter \<Rightarrow> match_filter) \<Rightarrow> match_keys \<Rightarrow> match_keys" where
  "upd_filter f keys = keys\<lparr>k_filter := f (k_filter keys)\<rparr>"

section \<open>Parsing\<close>

text \<open>The key is the \<open>n_key\<close> bytes the source compares.\<close>

definition match_key_equal :: "string \<Rightarrow> string \<Rightarrow> bool" where
  "match_key_equal key1 key2 \<longleftrightarrow> length key1 = length key2 \<and> key1 = take (length key1) key2"

definition match_type_value :: "string \<Rightarrow> u8 option" where
  "match_type_value v =
     (if strcmp v ''signal'' = 0 then Some DBUS_MESSAGE_TYPE_SIGNAL
      else if strcmp v ''method_call'' = 0 then Some DBUS_MESSAGE_TYPE_METHOD_CALL
      else if strcmp v ''method_return'' = 0 then Some DBUS_MESSAGE_TYPE_METHOD_RETURN
      else if strcmp v ''error'' = 0 then Some DBUS_MESSAGE_TYPE_ERROR
      else None)"

text \<open>The index of an \<open>arg\<close> key: at most two digits.\<close>

fun arg_index :: "nat \<Rightarrow> nat \<Rightarrow> string \<Rightarrow> nat \<times> string" where
  "arg_index 0 i key = (i, key)"
| "arg_index (Suc j) i [] = (i, [])"
| "arg_index (Suc j) i (c # key) =
     (if is_digit c then arg_index j (i * 10 + (byte_val c - byte_val CHR ''0'')) key else (i, c # key))"

definition match_keys_assign_arg :: "match_keys \<Rightarrow> string \<Rightarrow> string \<Rightarrow> match_error + match_keys" where
  "match_keys_assign_arg keys key v =
     (let (i, rest) = arg_index 2 0 key; f = k_filter keys in
      if i = 0 \<and> k_arg0namespace keys \<noteq> None then Inl MATCH_E_INVALID
      else if i > 63 then Inl MATCH_E_INVALID
      else if f_args f ! i \<noteq> None \<or> f_argpaths f ! i \<noteq> None then Inl MATCH_E_INVALID
      else if match_key_equal '''' rest
      then Inr (upd_filter (\<lambda>f. f\<lparr>f_args := (f_args f)[i := Some v], f_n_args := max (i + 1) (f_n_args f)\<rparr>) keys)
      else if match_key_equal ''path'' rest
      then Inr (upd_filter (\<lambda>f. f\<lparr>f_argpaths := (f_argpaths f)[i := Some v],
                  f_n_argpaths := max (i + 1) (f_n_argpaths f)\<rparr>) keys)
      else Inl MATCH_E_INVALID)"

text \<open>The numeric id of a sender that is a unique name.\<close>

definition sender_id_of :: "string option \<Rightarrow> u64" where
  "sender_id_of s = (case s of None \<Rightarrow> ADDRESS_ID_INVALID
     | Some v \<Rightarrow> (case address_from_string v of ADDRESS_TYPE_ID i \<Rightarrow> i | _ \<Rightarrow> ADDRESS_ID_INVALID))"

definition match_keys_assign :: "match_keys \<Rightarrow> string \<Rightarrow> string \<Rightarrow> bool \<Rightarrow> match_error + match_keys" where
  "match_keys_assign keys key v allow_eavesdrop =
     (let f = k_filter keys in
      if match_key_equal ''type'' key then
        (if f_type f \<noteq> DBUS_MESSAGE_TYPE_INVALID then Inl MATCH_E_INVALID
         else case match_type_value v of
           None \<Rightarrow> Inl MATCH_E_INVALID
         | Some t \<Rightarrow> Inr (upd_filter (\<lambda>f. f\<lparr>f_type := t\<rparr>) keys))
      else if match_key_equal ''sender'' key then
        (if k_sender keys \<noteq> None \<or> \<not> dbus_validate_name v then Inl MATCH_E_INVALID
         else
           let keys = keys\<lparr>k_sender := Some v\<rparr> in
           case address_from_string v of
             ADDRESS_TYPE_ID i \<Rightarrow> Inr (upd_filter (\<lambda>f. f\<lparr>f_sender := i\<rparr>) keys)
           | _ \<Rightarrow> Inr keys)
      else if match_key_equal ''destination'' key then
        (if k_destination keys \<noteq> None \<or> \<not> dbus_validate_name v then Inl MATCH_E_INVALID
         else Inr (keys\<lparr>k_destination := Some v\<rparr>))
      else if match_key_equal ''interface'' key then
        (if f_interface f \<noteq> None \<or> \<not> dbus_validate_interface v then Inl MATCH_E_INVALID
         else Inr (upd_filter (\<lambda>f. f\<lparr>f_interface := Some v\<rparr>) keys))
      else if match_key_equal ''member'' key then
        (if f_member f \<noteq> None \<or> \<not> dbus_validate_member v then Inl MATCH_E_INVALID
         else Inr (upd_filter (\<lambda>f. f\<lparr>f_member := Some v\<rparr>) keys))
      else if match_key_equal ''path'' key then
        (if f_path f \<noteq> None \<or> k_path_namespace keys \<noteq> None \<or> \<not> c_dvar_is_path v then Inl MATCH_E_INVALID
         else Inr (upd_filter (\<lambda>f. f\<lparr>f_path := Some v\<rparr>) keys))
      else if match_key_equal ''path_namespace'' key then
        (if k_path_namespace keys \<noteq> None \<or> f_path f \<noteq> None \<or> \<not> c_dvar_is_path v then Inl MATCH_E_INVALID
         else Inr (keys\<lparr>k_path_namespace := Some v\<rparr>))
      else if match_key_equal ''eavesdrop'' key then
        (if \<not> allow_eavesdrop \<or> (strcmp v ''true'' \<noteq> 0 \<and> strcmp v ''false'' \<noteq> 0) then Inl MATCH_E_INVALID
         else Inr keys)
      else if match_key_equal ''arg0namespace'' key then
        (if k_arg0namespace keys \<noteq> None \<or> f_args f ! 0 \<noteq> None \<or> f_argpaths f ! 0 \<noteq> None \<or>
            \<not> dbus_validate_namespace v then Inl MATCH_E_INVALID
         else Inr (keys\<lparr>k_arg0namespace := Some v\<rparr>))
      else if length key \<ge> 3 \<and> match_key_equal ''arg'' (take 3 key) then
        match_keys_assign_arg keys (drop 3 key) v
      else Inl MATCH_E_INVALID)"

text \<open>
  Copying a value: the copied bytes, what follows in the rule, and whether a quoted
  section was left open. The end of the rule is left for the next call.
\<close>

definition starts_quote :: "string \<Rightarrow> bool" where
  "starts_quote m \<longleftrightarrow> m \<noteq> [] \<and> hd m = CHR 0x27"

fun match_copy_loop :: "bool \<Rightarrow> string \<Rightarrow> string \<times> string \<times> bool" where
  "match_copy_loop quoted [] = ([], [], quoted)"
| "match_copy_loop quoted (c # m) =
     (if c = CHR 0x27 then match_copy_loop (\<not> quoted) m
      else if c = CHR '','' \<and> \<not> quoted then ([], m, quoted)
      else if c = CHR 0x5C \<and> \<not> quoted \<and> starts_quote m then apfst (Cons CHR 0x27) (match_copy_loop quoted (tl m))
      else apfst (Cons c) (match_copy_loop quoted m))"

text \<open>\<open>Inl\<close> carries the bytes that were written before the error, \<open>Inr\<close> the value and the rest of the rule.\<close>

definition match_copy_value :: "string \<Rightarrow> string + (string \<times> string)" where
  "match_copy_value m = (case match_copy_loop False m of (v, rest, quoted) \<Rightarrow>
     if quoted then Inl v else Inr (v, rest))"

definition is_key_space :: "char \<Rightarrow> bool" where
  "is_key_space c \<longleftrightarrow> c = CHR '' '' \<or> c = CHR 0x09 \<or> c = CHR 0x0A \<or> c = CHR 0x0D"

definition is_key_stop :: "char \<Rightarrow> bool" where
  "is_key_stop c \<longleftrightarrow> is_key_space c \<or> c = CHR ''=''"

definition match_parse_key :: "string \<Rightarrow> match_error + (string \<times> string)" where
  "match_parse_key match =
     (let match = dropWhile is_key_stop match in
      if match = [] then Inl MATCH_E_EOF
      else
        let key = takeWhile (\<lambda>c. \<not> is_key_stop c) match;
            match = dropWhile (\<lambda>c. \<not> is_key_stop c) match in
        if match = [] then Inl MATCH_E_INVALID
        else case dropWhile is_key_space match of
            c # rest \<Rightarrow> if c \<noteq> CHR ''='' then Inl MATCH_E_INVALID else Inr (key, rest)
          | [] \<Rightarrow> Inl MATCH_E_INVALID)"

lemma match_parse_key_Inr:
  assumes "match_parse_key s = Inr (key, rest)"
  shows "dropWhile is_key_stop s \<noteq> []" "key = takeWhile (\<lambda>c. \<not> is_key_stop c) (dropWhile is_key_stop s)"
    "dropWhile is_key_space (dropWhile (\<lambda>c. \<not> is_key_stop c) (dropWhile is_key_stop s)) = CHR ''='' # rest"
  using assms unfolding match_parse_key_def Let_def by (simp_all split: if_splits list.splits)

lemma match_parse_key_consumes:
  assumes "match_parse_key s = Inr (key, rest)"
  shows "length key + length rest + 1 \<le> length s" "key \<noteq> []"
proof -
  define t where "t = dropWhile is_key_stop s"
  define u where "u = dropWhile (\<lambda>c. \<not> is_key_stop c) t"
  note k = match_parse_key_Inr [OF assms, folded t_def, folded u_def]
  have t: "length t \<le> length s" by (simp add: t_def length_dropWhile_le)
  have "length key + length u = length t"
    unfolding k(2) u_def by (metis length_append takeWhile_dropWhile_id)
  moreover have "length rest < length u"
    using k(3) length_dropWhile_le [of is_key_space u] by simp
  ultimately show "length key + length rest + 1 \<le> length s" using t by linarith
  have "\<not> is_key_stop (hd t)" using k(1) hd_dropWhile [of is_key_stop s] unfolding t_def by blast
  then show "key \<noteq> []" using k(1,2) by (cases t) auto
qed

lemma apfst_Cons_eq: "apfst (Cons x) p = (v, r) \<longleftrightarrow> (\<exists>v'. v = x # v' \<and> p = (v', r))"
  by (cases p) auto

lemma match_copy_loop_length:
  "match_copy_loop quoted m = (v, rest, q) \<Longrightarrow> length v + length rest \<le> length m"
proof (induction m arbitrary: quoted v rest q rule: length_induct)
  case (1 m)
  note IH = "1.IH" [rule_format]
  show ?case
  proof (cases m)
    case Nil
    with 1 show ?thesis by simp
  next
    case (Cons c n)
    have n: "length v' + length r \<le> length n" if "match_copy_loop b n = (v', r, q')" for b v' r q'
      using IH [of n b v' r q'] that Cons by simp
    have t: "length v' + length r + 1 \<le> length n" if "match_copy_loop b (tl n) = (v', r, q')" "starts_quote n" for b v' r q'
      using IH [of "tl n" b v' r q'] that Cons by (cases n) (simp_all add: starts_quote_def)
    from "1.prems" Cons show ?thesis
      by (auto simp: apfst_Cons_eq split: if_splits dest!: n t)
  qed
qed

lemma match_copy_value_length: "match_copy_value m = Inr (v, rest) \<Longrightarrow> length v + length rest \<le> length m"
  "match_copy_value m = Inl v \<Longrightarrow> length v \<le> length m"
  using match_copy_loop_length [of False m] by (auto simp: match_copy_value_def split: prod.splits if_splits)

text \<open>
  The loop of \<open>match_keys_parse\<close>; \<open>n\<close> is how many bytes of the buffer are in use. It ends
  with an error, which is \<open>MATCH_E_EOF\<close> at the regular end.
\<close>

function match_parse_loop :: "match_keys \<Rightarrow> string \<Rightarrow> bool \<Rightarrow> nat \<Rightarrow> match_error \<times> match_keys \<times> nat" where
  "match_parse_loop keys s allow_eavesdrop n =
     (case match_parse_key s of
        Inl e \<Rightarrow> (e, keys, n)
      | Inr (key, s1) \<Rightarrow>
          (case match_copy_value s1 of
             Inl v \<Rightarrow> (MATCH_E_INVALID, keys, n + length v + 1)
           | Inr (v, s2) \<Rightarrow>
               (case match_keys_assign keys key v allow_eavesdrop of
                  Inl e \<Rightarrow> (e, keys, n + length v + 1)
                | Inr keys \<Rightarrow> match_parse_loop keys s2 allow_eavesdrop (n + length v + 1))))"
  by auto
termination
  by (relation "measure (\<lambda>(_, s, _, _). length s)")
    (auto dest!: match_parse_key_consumes(1) match_copy_value_length(1))

declare match_parse_loop.simps [simp del]

text \<open>The result, the keys and the number of bytes used; \<open>n_buffer\<close> is the size of the buffer.\<close>

definition match_keys_parse ::
  "match_keys \<Rightarrow> nat \<Rightarrow> string \<Rightarrow> bool \<Rightarrow> ((match_error + unit) \<times> match_keys \<times> nat) option" where
  "match_keys_parse keys n_buffer s allow_eavesdrop =
     (case match_parse_loop keys s allow_eavesdrop 0 of (r, keys, n) \<Rightarrow> do {
        _ \<leftarrow> c_assert (n \<le> n_buffer);
        Some (if r = MATCH_E_EOF then Inr () else Inl r, keys, n) })"

definition match_keys_init :: "string \<Rightarrow> nat \<Rightarrow> bool \<Rightarrow> ((match_error + (match_keys \<times> nat))) option" where
  "match_keys_init s n_string allow_eavesdrop = do {
     _ \<leftarrow> c_assert (n_string > 0);
     _ \<leftarrow> c_assert (n_string - 1 \<le> MATCH_RULE_LENGTH_MAX);
     (r, keys, n) \<leftarrow> match_keys_parse MATCH_KEYS_NULL n_string s allow_eavesdrop;
     Some (case r of Inl e \<Rightarrow> Inl e | Inr _ \<Rightarrow> Inr (keys, n)) }"

definition match_keys_new :: "bool \<Rightarrow> string \<Rightarrow> (match_error + (match_keys \<times> nat)) option" where
  "match_keys_new mem s =
     (let n_string = length s + 1 in
      if n_string - 1 > MATCH_RULE_LENGTH_MAX then Some (Inl MATCH_E_INVALID)
      else if \<not> mem then Some (Inl MATCH_ENOMEM)
      else match_keys_init s n_string False)"

text \<open>A copy of keys into a buffer of the size the original used.\<close>

definition opt_size :: "string option \<Rightarrow> nat" where
  "opt_size s = (case s of None \<Rightarrow> 0 | Some v \<Rightarrow> length v + 1)"

definition clone_args :: "nat \<Rightarrow> string option list \<Rightarrow> string option list" where
  "clone_args n args = map (\<lambda>i. if i < n then args ! i else None) [0..<64]"

definition match_keys_clone :: "match_keys \<Rightarrow> nat \<Rightarrow> (match_keys \<times> nat) option" where
  "match_keys_clone old n_buffer =
     (let f = k_filter old;
          keys = \<lparr>k_filter = MATCH_FILTER_INIT
                    \<lparr>f_type := f_type f, f_sender := f_sender f, f_interface := f_interface f,
                     f_member := f_member f, f_path := f_path f,
                     f_args := clone_args (f_n_args f) (f_args f), f_n_args := f_n_args f,
                     f_argpaths := clone_args (f_n_argpaths f) (f_argpaths f), f_n_argpaths := f_n_argpaths f\<rparr>,
                  k_destination = k_destination old, k_sender = k_sender old,
                  k_path_namespace = k_path_namespace old, k_arg0namespace = k_arg0namespace old\<rparr>;
          n = opt_size (f_interface f) + opt_size (f_member f) + opt_size (f_path f) +
              sum_list (map opt_size (take (f_n_args f) (f_args f))) +
              sum_list (map opt_size (take (f_n_argpaths f) (f_argpaths f))) +
              opt_size (k_destination old) + opt_size (k_sender old) +
              opt_size (k_path_namespace old) + opt_size (k_arg0namespace old) in
      do { _ \<leftarrow> c_assert (n \<le> n_buffer); Some (keys, n) })"

section \<open>What parsing guarantees\<close>

definition args_ok :: "string option list \<Rightarrow> nat \<Rightarrow> bool" where
  "args_ok args n \<longleftrightarrow> length args = 64 \<and> n \<le> 64 \<and> (\<forall>i<64. n \<le> i \<longrightarrow> args ! i = None) \<and>
     (n \<noteq> 0 \<longrightarrow> args ! (n - 1) \<noteq> None)"

definition keys_ok :: "match_keys \<Rightarrow> bool" where
  "keys_ok k \<longleftrightarrow>
     args_ok (f_args (k_filter k)) (f_n_args (k_filter k)) \<and>
     args_ok (f_argpaths (k_filter k)) (f_n_argpaths (k_filter k)) \<and>
     f_sender (k_filter k) = sender_id_of (k_sender k) \<and>
     f_path (k_filter k) \<noteq> Some [] \<and> f_interface (k_filter k) \<noteq> Some [] \<and> f_member (k_filter k) \<noteq> Some []"

definition keys_size :: "match_keys \<Rightarrow> nat" where
  "keys_size k =
     opt_size (f_interface (k_filter k)) + opt_size (f_member (k_filter k)) + opt_size (f_path (k_filter k)) +
     sum_list (map opt_size (f_args (k_filter k))) + sum_list (map opt_size (f_argpaths (k_filter k))) +
     opt_size (k_destination k) + opt_size (k_sender k) + opt_size (k_path_namespace k) + opt_size (k_arg0namespace k)"

lemma upd_filter_sel [simp]:
  "k_filter (upd_filter f k) = f (k_filter k)" "k_destination (upd_filter f k) = k_destination k"
  "k_sender (upd_filter f k) = k_sender k" "k_path_namespace (upd_filter f k) = k_path_namespace k"
  "k_arg0namespace (upd_filter f k) = k_arg0namespace k"
  by (simp_all add: upd_filter_def)

lemma args_ok_update: "\<lbrakk>args_ok args n; i < 64\<rbrakk> \<Longrightarrow> args_ok (args[i := Some v]) (max (Suc i) n)"
  by (auto simp: args_ok_def nth_list_update max_def)

lemma args_ok_length: "args_ok args n \<Longrightarrow> length args = 64"
  by (simp add: args_ok_def)

lemma args_ok_init: "args_ok (replicate 64 None) 0"
  by (simp add: args_ok_def)

lemma opt_size_update:
  assumes "i < length args" "args ! i = None"
  shows "sum_list (map opt_size (args[i := Some v])) = sum_list (map opt_size args) + length v + 1"
  using assms by (simp add: map_update sum_list_update opt_size_def)

lemma arg_index_length: "length (snd (arg_index j i key)) \<le> length key"
  by (induction j i key rule: arg_index.induct) auto

lemma match_keys_null_ok: "keys_ok MATCH_KEYS_NULL" "keys_size MATCH_KEYS_NULL = 0"
  by (simp_all add: keys_ok_def keys_size_def MATCH_KEYS_NULL_def MATCH_FILTER_INIT_def args_ok_init sender_id_of_def
      opt_size_def sum_list_replicate)

lemma validated_nonempty:
  "dbus_validate_interface v \<Longrightarrow> v \<noteq> []" "dbus_validate_member v \<Longrightarrow> v \<noteq> []" "c_dvar_is_path v \<Longrightarrow> v \<noteq> []"
  by (auto simp: dbus_validate_interface_def dbus_validate_member_def c_dvar_is_path_def)

text \<open>What one assignment can do to the keys.\<close>

inductive assigned :: "string \<Rightarrow> match_keys \<Rightarrow> match_keys \<Rightarrow> bool" for v keys where
  "assigned v keys keys"
| "assigned v keys (upd_filter (\<lambda>f. f\<lparr>f_type := t\<rparr>) keys)"
| "\<lbrakk>k_sender keys = None; sender_id_of (Some v) = i\<rbrakk> \<Longrightarrow>
     assigned v keys (upd_filter (\<lambda>f. f\<lparr>f_sender := i\<rparr>) (keys\<lparr>k_sender := Some v\<rparr>))"
| "\<lbrakk>k_sender keys = None; sender_id_of (Some v) = ADDRESS_ID_INVALID\<rbrakk> \<Longrightarrow> assigned v keys (keys\<lparr>k_sender := Some v\<rparr>)"
| "k_destination keys = None \<Longrightarrow> assigned v keys (keys\<lparr>k_destination := Some v\<rparr>)"
| "\<lbrakk>f_interface (k_filter keys) = None; v \<noteq> []\<rbrakk> \<Longrightarrow>
     assigned v keys (upd_filter (\<lambda>f. f\<lparr>f_interface := Some v\<rparr>) keys)"
| "\<lbrakk>f_member (k_filter keys) = None; v \<noteq> []\<rbrakk> \<Longrightarrow>
     assigned v keys (upd_filter (\<lambda>f. f\<lparr>f_member := Some v\<rparr>) keys)"
| "\<lbrakk>f_path (k_filter keys) = None; v \<noteq> []\<rbrakk> \<Longrightarrow>
     assigned v keys (upd_filter (\<lambda>f. f\<lparr>f_path := Some v\<rparr>) keys)"
| "k_path_namespace keys = None \<Longrightarrow> assigned v keys (keys\<lparr>k_path_namespace := Some v\<rparr>)"
| "k_arg0namespace keys = None \<Longrightarrow> assigned v keys (keys\<lparr>k_arg0namespace := Some v\<rparr>)"
| "\<lbrakk>i < 64; f_args (k_filter keys) ! i = None\<rbrakk> \<Longrightarrow>
     assigned v keys (upd_filter (\<lambda>f. f\<lparr>f_args := (f_args f)[i := Some v], f_n_args := max (i + 1) (f_n_args f)\<rparr>) keys)"
| "\<lbrakk>i < 64; f_argpaths (k_filter keys) ! i = None\<rbrakk> \<Longrightarrow>
     assigned v keys (upd_filter (\<lambda>f. f\<lparr>f_argpaths := (f_argpaths f)[i := Some v],
       f_n_argpaths := max (i + 1) (f_n_argpaths f)\<rparr>) keys)"

lemma assign_arg_assigned:
  assumes "match_keys_assign_arg keys key v = Inr keys'"
  shows "assigned v keys keys'"
proof -
  obtain i rest where ir: "arg_index 2 0 key = (i, rest)" by fastforce
  have i: "i < 64" and free: "f_args (k_filter keys) ! i = None" "f_argpaths (k_filter keys) ! i = None"
    using assms ir by (auto simp: match_keys_assign_arg_def Let_def split: if_splits)
  show ?thesis
  proof (cases "match_key_equal [] rest")
    case True
    then have "keys' = upd_filter (\<lambda>f. f\<lparr>f_args := (f_args f)[i := Some v], f_n_args := max (i + 1) (f_n_args f)\<rparr>) keys"
      using assms ir by (simp add: match_keys_assign_arg_def Let_def split: if_splits)
    then show ?thesis using i free assigned.intros(11) by blast
  next
    case False
    then have "keys' = upd_filter (\<lambda>f. f\<lparr>f_argpaths := (f_argpaths f)[i := Some v],
        f_n_argpaths := max (i + 1) (f_n_argpaths f)\<rparr>) keys"
      using assms ir by (simp add: match_keys_assign_arg_def Let_def split: if_splits)
    then show ?thesis using i free assigned.intros(12) by blast
  qed
qed

lemma assign_assigned:
  assumes "match_keys_assign keys key v a = Inr keys'"
  shows "assigned v keys keys'"
proof -
  from assms show ?thesis
    unfolding match_keys_assign_def Let_def
    by (simp split: if_splits option.splits address.splits)
      (auto intro: assigned.intros assign_arg_assigned simp: sender_id_of_def dest: validated_nonempty)
qed

lemma assigned_ok:
  assumes "assigned v keys keys'" "keys_ok keys"
  shows "keys_ok keys' \<and> keys_size keys' \<le> keys_size keys + length v + 1"
  using assms
proof (cases rule: assigned.cases)
  case (11 i)
  then show ?thesis
    using assms(2) opt_size_update [of i "f_args (k_filter keys)" v]
    by (auto simp: keys_ok_def keys_size_def args_ok_update args_ok_length)
next
  case (12 i)
  then show ?thesis
    using assms(2) opt_size_update [of i "f_argpaths (k_filter keys)" v]
    by (auto simp: keys_ok_def keys_size_def args_ok_update args_ok_length)
qed (use assms(2) in \<open>auto simp: keys_ok_def keys_size_def opt_size_def sender_id_of_def\<close>)

lemma match_parse_loop_ok:
  assumes "match_parse_loop keys s a n = (r, keys', n')" "keys_ok keys" "keys_size keys \<le> n"
  shows "keys_ok keys' \<and> keys_size keys' \<le> n' \<and> n' \<le> n + length s"
  using assms
proof (induction keys s a n rule: match_parse_loop.induct)
  case (1 keys s a n)
  show ?case
  proof (cases "match_parse_key s")
    case (Inl e)
    with "1.prems" show ?thesis by (simp add: match_parse_loop.simps [of keys])
  next
    case (Inr p)
    obtain key s1 where p: "p = (key, s1)" by fastforce
    have l1: "length s1 + 2 \<le> length s"
      using match_parse_key_consumes [of s key s1] Inr p by (cases key) auto
    show ?thesis
    proof (cases "match_copy_value s1")
      case (Inl v)
      with "1.prems" \<open>match_parse_key s = Inr p\<close> p l1 match_copy_value_length(2) [OF Inl] show ?thesis
        by (auto simp: match_parse_loop.simps [of keys])
    next
      case (Inr p2)
      obtain v s2 where p2: "p2 = (v, s2)" by fastforce
      have l2: "length v + length s2 \<le> length s1" using match_copy_value_length(1) Inr p2 by blast
      show ?thesis
      proof (cases "match_keys_assign keys key v a")
        case (Inl e)
        with "1.prems" \<open>match_parse_key s = Inr p\<close> p Inr p2 l1 l2 show ?thesis
          by (auto simp: match_parse_loop.simps [of keys])
      next
        case asg: (Inr keys1)
        have k1: "keys_ok keys1" "keys_size keys1 \<le> n + length v + 1"
          using assigned_ok [OF assign_assigned [OF asg] "1.prems"(2)] "1.prems"(3) by auto
        have "match_parse_loop keys1 s2 a (n + length v + 1) = (r, keys', n')"
          using "1.prems"(1) \<open>match_parse_key s = Inr p\<close> p Inr p2 asg by (simp add: match_parse_loop.simps [of keys])
        from "1.IH" [OF \<open>match_parse_key s = Inr p\<close> p [symmetric] Inr p2 [symmetric] asg this k1] l1 l2 show ?thesis by auto
      qed
    qed
  qed
qed

lemma match_keys_init_total:
  assumes "length s \<le> MATCH_RULE_LENGTH_MAX"
  obtains e where "match_keys_init s (length s + 1) a = Some (Inl e)"
  | keys n where "match_keys_init s (length s + 1) a = Some (Inr (keys, n))" "keys_ok keys"
      "keys_size keys \<le> n" "n \<le> length s"
proof -
  obtain r keys n where l: "match_parse_loop MATCH_KEYS_NULL s a 0 = (r, keys, n)" using prod_cases3 by blast
  have ok: "keys_ok keys" "keys_size keys \<le> n" "n \<le> length s"
    using match_parse_loop_ok [OF l] match_keys_null_ok by auto
  have "match_keys_init s (length s + 1) a =
      Some (if r = MATCH_E_EOF then Inr (keys, n) else Inl r)"
    using l ok(3) assms by (simp add: match_keys_init_def match_keys_parse_def)
  with ok that show ?thesis by (cases "r = MATCH_E_EOF") auto
qed

lemma clone_args_id: "args_ok args n \<Longrightarrow> clone_args n args = args"
  by (rule nth_equalityI) (auto simp: clone_args_def args_ok_def)

lemma sum_take_args:
  assumes "args_ok args n"
  shows "sum_list (map opt_size (take n args)) = sum_list (map opt_size args)"
proof -
  have "\<forall>x \<in> set (drop n args). x = None"
    using assms by (auto simp: args_ok_def in_set_conv_nth)
  then have "sum_list (map opt_size (drop n args)) = 0"
    by (auto simp: opt_size_def sum_list_eq_0_iff)
  moreover have "sum_list (map opt_size args) = sum_list (map opt_size (take n args)) + sum_list (map opt_size (drop n args))"
    by (metis append_take_drop_id map_append sum_list_append)
  ultimately show ?thesis by simp
qed

lemma match_keys_clone_ok:
  assumes "keys_ok keys" "keys_size keys \<le> n"
  shows "match_keys_clone keys n = Some (keys, keys_size keys)"
  using assms
  by (simp add: match_keys_clone_def Let_def keys_ok_def clone_args_id sum_take_args keys_size_def MATCH_FILTER_INIT_def)

section \<open>Matching\<close>

record message_metadata =
  md_type :: u8
  md_flags :: u8
  md_version :: u8
  md_serial :: u32
  md_sender_id :: u64
  md_path :: "string option"
  md_interface :: "string option"
  md_member :: "string option"
  md_args :: "(char \<times> string option) list"
  md_n_args :: nat

text \<open>Pointers into a rule and into a message are different, unless both are \<open>NULL\<close>.\<close>

definition match_string_prefix :: "string option \<Rightarrow> string option \<Rightarrow> char \<Rightarrow> bool \<Rightarrow> bool" where
  "match_string_prefix str prefix delimiter delimiter_included =
     (case (str, prefix) of
        (None, None) \<Rightarrow> True
      | (Some str, Some prefix) \<Rightarrow>
          (case string_prefix str prefix of
             None \<Rightarrow> False
           | Some tail \<Rightarrow>
               if delimiter_included
               then \<not> (prefix = [] \<or> (tail \<noteq> [] \<and> last prefix \<noteq> delimiter))
               else \<not> (tail \<noteq> [] \<and> hd tail \<noteq> delimiter))
      | _ \<Rightarrow> False)"

definition match_arg :: "match_keys \<Rightarrow> message_metadata \<Rightarrow> nat \<Rightarrow> bool" where
  "match_arg keys md i =
     (let arg = f_args (k_filter keys) ! i; argpath = f_argpaths (k_filter keys) ! i;
          (element, v) = md_args md ! i in
      (arg \<noteq> None \<longrightarrow> element = CHR ''s'' \<and> string_equal arg v) \<and>
      (argpath \<noteq> None \<longrightarrow> match_string_prefix v argpath CHR ''/'' True \<or> match_string_prefix argpath v CHR ''/'' True))"

definition match_keys_match_metadata :: "match_keys \<Rightarrow> message_metadata \<Rightarrow> bool" where
  "match_keys_match_metadata keys md =
     (let f = k_filter keys in
      if f_n_args f > md_n_args md then False
      else if f_n_argpaths f > md_n_args md then False
      else if k_path_namespace keys \<noteq> None \<and>
              \<not> match_string_prefix (md_path md) (k_path_namespace keys) CHR ''/'' False then False
      else if k_arg0namespace keys \<noteq> None \<and>
              \<not> (fst (md_args md ! 0) = CHR ''s'' \<and>
                 match_string_prefix (snd (md_args md ! 0)) (k_arg0namespace keys) CHR ''.'' False) then False
      else if \<not> list_all (match_arg keys md) [0..<max (f_n_args f) (f_n_argpaths f)] then False
      else if f_type f \<noteq> DBUS_MESSAGE_TYPE_INVALID \<and> f_type f \<noteq> md_type md then False
      else if f_sender f \<noteq> ADDRESS_ID_INVALID \<and> f_sender f \<noteq> md_sender_id md then False
      else if f_interface f \<noteq> None \<and> \<not> string_equal (f_interface f) (md_interface md) then False
      else if f_member f \<noteq> None \<and> \<not> string_equal (f_member f) (md_member md) then False
      else if f_path f \<noteq> None \<and> \<not> string_equal (f_path f) (md_path md) then False
      else True)"

text \<open>
  What the string comparisons of the code decide: whether a string is the given one or goes on
  with a delimiter behind it, and for \<open>argNpath\<close> whether one of two paths is a parent with a
  trailing delimiter.
\<close>

definition in_namespace :: "char \<Rightarrow> string \<Rightarrow> string option \<Rightarrow> bool" where
  "in_namespace d ns s \<longleftrightarrow> s = Some ns \<or> (\<exists>t. s = Some (ns @ d # t))"

definition path_parent :: "string \<Rightarrow> string \<Rightarrow> bool" where
  "path_parent a b \<longleftrightarrow> a \<noteq> [] \<and> (b = a \<or> (last a = CHR ''/'' \<and> (\<exists>t. b = a @ t)))"

lemma string_prefix_None: "string_prefix x p = None \<longleftrightarrow> (\<forall>t. x \<noteq> p @ t)"
  using string_prefix_Some [of x p] by (cases "string_prefix x p") auto

lemma match_string_prefix_namespace:
  "match_string_prefix s (Some ns) d False \<longleftrightarrow> in_namespace d ns s"
proof (cases s)
  case (Some x)
  show ?thesis
  proof (cases "string_prefix x ns")
    case None
    then have "x \<noteq> ns @ t" for t by (simp add: string_prefix_None)
    from this [of "[]"] this have "x \<noteq> ns" "x \<noteq> ns @ d # t" for t by simp_all
    with None Some show ?thesis by (simp add: match_string_prefix_def in_namespace_def)
  next
    case t: (Some t)
    then have x: "x = ns @ t" by (simp add: string_prefix_Some)
    show ?thesis
      unfolding match_string_prefix_def in_namespace_def using t Some x by (cases t) simp_all
  qed
qed (simp add: match_string_prefix_def in_namespace_def)

lemma match_string_prefix_path:
  "match_string_prefix s (Some p) CHR ''/'' True \<longleftrightarrow> (\<exists>x. s = Some x \<and> path_parent p x)"
proof (cases s)
  case (Some x)
  show ?thesis
  proof (cases "string_prefix x p")
    case None
    then have ne: "x \<noteq> p @ t" for t by (simp add: string_prefix_None)
    from this [of "[]"] have "x \<noteq> p" by simp
    with None Some ne show ?thesis by (simp add: match_string_prefix_def path_parent_def)
  next
    case t: (Some t)
    then have x: "x = p @ t" by (simp add: string_prefix_Some)
    show ?thesis
      unfolding match_string_prefix_def path_parent_def using t Some x by (cases "t = []") simp_all
  qed
qed (simp add: match_string_prefix_def)

definition matches_code :: "match_keys \<Rightarrow> message_metadata \<Rightarrow> bool" where
  "matches_code keys md \<longleftrightarrow>
     (f_type (k_filter keys) \<noteq> DBUS_MESSAGE_TYPE_INVALID \<longrightarrow> md_type md = f_type (k_filter keys)) \<and>
     (sender_id_of (k_sender keys) \<noteq> ADDRESS_ID_INVALID \<longrightarrow> md_sender_id md = sender_id_of (k_sender keys)) \<and>
     (\<forall>v. f_interface (k_filter keys) = Some v \<longrightarrow> md_interface md = Some v) \<and>
     (\<forall>v. f_member (k_filter keys) = Some v \<longrightarrow> md_member md = Some v) \<and>
     (\<forall>v. f_path (k_filter keys) = Some v \<longrightarrow> md_path md = Some v) \<and>
     (\<forall>ns. k_path_namespace keys = Some ns \<longrightarrow> in_namespace CHR ''/'' ns (md_path md)) \<and>
     (\<forall>ns. k_arg0namespace keys = Some ns \<longrightarrow>
        fst (md_args md ! 0) = CHR ''s'' \<and> in_namespace CHR ''.'' ns (snd (md_args md ! 0))) \<and>
     (\<forall>i<64. \<forall>v. f_args (k_filter keys) ! i = Some v \<longrightarrow> i < md_n_args md \<and> md_args md ! i = (CHR ''s'', Some v)) \<and>
     (\<forall>i<64. \<forall>v. f_argpaths (k_filter keys) ! i = Some v \<longrightarrow>
        i < md_n_args md \<and> (\<exists>x. snd (md_args md ! i) = Some x \<and> (path_parent v x \<or> path_parent x v)))"

lemma args_ok_bound:
  assumes "args_ok args n"
  shows "n \<le> k \<longleftrightarrow> (\<forall>i<64. args ! i \<noteq> None \<longrightarrow> i < k)"
proof
  assume "n \<le> k"
  with assms show "\<forall>i<64. args ! i \<noteq> None \<longrightarrow> i < k"
    unfolding args_ok_def by (meson le_trans not_le)
next
  assume k: "\<forall>i<64. args ! i \<noteq> None \<longrightarrow> i < k"
  show "n \<le> k"
  proof (cases n)
    case (Suc m)
    then have "m < 64" "args ! m \<noteq> None" using assms by (auto simp: args_ok_def)
    with k Suc show ?thesis by auto
  qed simp
qed

lemma match_arg_iff:
  "match_arg keys md i \<longleftrightarrow>
     (\<forall>v. f_args (k_filter keys) ! i = Some v \<longrightarrow> md_args md ! i = (CHR ''s'', Some v)) \<and>
     (\<forall>v. f_argpaths (k_filter keys) ! i = Some v \<longrightarrow>
        (\<exists>x. snd (md_args md ! i) = Some x \<and> (path_parent v x \<or> path_parent x v)))"
proof -
  obtain e v where ev: "md_args md ! i = (e, v)" by fastforce
  have sym: "match_string_prefix (Some p) v CHR ''/'' True \<longleftrightarrow> (\<exists>x. v = Some x \<and> path_parent x p)" for p
  proof (cases v)
    case (Some x)
    then show ?thesis using match_string_prefix_path [of "Some p" x] by simp
  qed (simp add: match_string_prefix_def)
  show ?thesis
    using ev match_string_prefix_path [of v]
    by (cases "f_args (k_filter keys) ! i"; cases "f_argpaths (k_filter keys) ! i") (auto simp: match_arg_def sym)
qed

lemma match_args_iff:
  assumes "keys_ok keys"
  shows "f_n_args (k_filter keys) \<le> md_n_args md \<and> f_n_argpaths (k_filter keys) \<le> md_n_args md \<and>
      list_all (match_arg keys md) [0..<max (f_n_args (k_filter keys)) (f_n_argpaths (k_filter keys))] \<longleftrightarrow>
    (\<forall>i<64. \<forall>v. f_args (k_filter keys) ! i = Some v \<longrightarrow> i < md_n_args md \<and> md_args md ! i = (CHR ''s'', Some v)) \<and>
    (\<forall>i<64. \<forall>v. f_argpaths (k_filter keys) ! i = Some v \<longrightarrow>
       i < md_n_args md \<and> (\<exists>x. snd (md_args md ! i) = Some x \<and> (path_parent v x \<or> path_parent x v)))"
    (is "?L \<longleftrightarrow> ?R")
proof -
  let ?n = "f_n_args (k_filter keys)" and ?p = "f_n_argpaths (k_filter keys)"
  have a: "args_ok (f_args (k_filter keys)) ?n" "args_ok (f_argpaths (k_filter keys)) ?p"
    using assms by (simp_all add: keys_ok_def)
  have none: "i < 64 \<Longrightarrow> ?n \<le> i \<Longrightarrow> f_args (k_filter keys) ! i = None"
    "i < 64 \<Longrightarrow> ?p \<le> i \<Longrightarrow> f_argpaths (k_filter keys) ! i = None" for i
    using a by (simp_all add: args_ok_def)
  have le: "max ?n ?p \<le> 64" using a by (simp add: args_ok_def)
  have "match_arg keys md i" if "i < 64" "\<not> i < max ?n ?p" for i
    using that none [of i] by (simp add: match_arg_iff)
  then have "(\<forall>i. i < max ?n ?p \<longrightarrow> match_arg keys md i) \<longleftrightarrow> (\<forall>i<64. match_arg keys md i)"
    using le by (metis less_le_trans)
  then have all: "list_all (match_arg keys md) [0..<max ?n ?p] \<longleftrightarrow> (\<forall>i<64. match_arg keys md i)"
    by (simp add: list_all_iff Ball_def)
  show ?thesis
    unfolding all args_ok_bound [OF a(1), of "md_n_args md"] args_ok_bound [OF a(2), of "md_n_args md"] match_arg_iff
    by auto
qed

lemma opt_all:
  "(\<forall>v. x = Some v \<longrightarrow> y = Some v) \<longleftrightarrow> \<not> (x \<noteq> None \<and> \<not> string_equal x y)"
  "(\<forall>ns. z = Some ns \<longrightarrow> Q \<and> match_string_prefix s (Some ns) d b) \<longleftrightarrow> \<not> (z \<noteq> None \<and> \<not> (Q \<and> match_string_prefix s z d b))"
  "(\<forall>ns. z = Some ns \<longrightarrow> match_string_prefix s (Some ns) d b) \<longleftrightarrow> \<not> (z \<noteq> None \<and> \<not> match_string_prefix s z d b)"
  by (cases x; auto) (cases z; auto)+

lemma match_metadata_iff:
  assumes "keys_ok keys"
  shows "match_keys_match_metadata keys md \<longleftrightarrow> matches_code keys md"
proof -
  have s: "f_sender (k_filter keys) = sender_id_of (k_sender keys)" using assms by (simp add: keys_ok_def)
  let ?f = "k_filter keys"
  have "match_keys_match_metadata keys md \<longleftrightarrow>
      (f_n_args ?f \<le> md_n_args md \<and> f_n_argpaths ?f \<le> md_n_args md \<and>
       list_all (match_arg keys md) [0..<max (f_n_args ?f) (f_n_argpaths ?f)]) \<and>
      (\<forall>ns. k_path_namespace keys = Some ns \<longrightarrow> match_string_prefix (md_path md) (Some ns) CHR ''/'' False) \<and>
      (\<forall>ns. k_arg0namespace keys = Some ns \<longrightarrow> fst (md_args md ! 0) = CHR ''s'' \<and>
         match_string_prefix (snd (md_args md ! 0)) (Some ns) CHR ''.'' False) \<and>
      (f_type ?f \<noteq> DBUS_MESSAGE_TYPE_INVALID \<longrightarrow> md_type md = f_type ?f) \<and>
      (f_sender ?f \<noteq> ADDRESS_ID_INVALID \<longrightarrow> md_sender_id md = f_sender ?f) \<and>
      (\<forall>v. f_interface ?f = Some v \<longrightarrow> md_interface md = Some v) \<and>
      (\<forall>v. f_member ?f = Some v \<longrightarrow> md_member md = Some v) \<and>
      (\<forall>v. f_path ?f = Some v \<longrightarrow> md_path md = Some v)"
    unfolding match_keys_match_metadata_def Let_def opt_all not_less [symmetric] by auto
  then show ?thesis
    unfolding matches_code_def match_args_iff [OF assms] match_string_prefix_namespace s by blast
qed

section \<open>Comparing keys\<close>

text \<open>The first comparison that is not zero decides.\<close>

fun first_nonzero :: "int list \<Rightarrow> int" where
  "first_nonzero [] = 0"
| "first_nonzero (r # rs) = (if r \<noteq> 0 then r else first_nonzero rs)"

definition match_keys_compare :: "match_keys \<Rightarrow> match_keys \<Rightarrow> int" where
  "match_keys_compare key1 key2 =
     (let f1 = k_filter key1; f2 = k_filter key2 in
      first_nonzero
        ([string_compare (k_sender key1) (k_sender key2),
          string_compare (k_destination key1) (k_destination key2),
          string_compare (f_interface f1) (f_interface f2),
          string_compare (f_member f1) (f_member f2),
          string_compare (f_path f1) (f_path f2),
          string_compare (k_path_namespace key1) (k_path_namespace key2),
          string_compare (k_arg0namespace key1) (k_arg0namespace key2),
          three_way (f_type f1) (f_type f2),
          three_way (f_n_args f1) (f_n_args f2),
          three_way (f_n_argpaths f1) (f_n_argpaths f2)] @
         concat (map (\<lambda>i. [string_compare (f_args f1 ! i) (f_args f2 ! i),
                            string_compare (f_argpaths f1 ! i) (f_argpaths f2 ! i)])
           [0..<max (f_n_args f1) (f_n_argpaths f1)])))"

text \<open>Comparisons that are the sign of a total preorder are closed under this composition.\<close>

definition total_cmp :: "('a \<Rightarrow> 'a \<Rightarrow> int) \<Rightarrow> bool" where
  "total_cmp c \<longleftrightarrow> (\<forall>x y. c x y < 0 \<longleftrightarrow> 0 < c y x) \<and>
     (\<forall>x y z. c x y \<le> 0 \<and> c y z \<le> 0 \<longrightarrow> c x z \<le> 0 \<and> (c x y < 0 \<or> c y z < 0 \<longrightarrow> c x z < 0))"

lemma total_cmp_zero_sym:
  assumes "total_cmp c"
  shows "c x y = 0 \<longleftrightarrow> c y x = 0"
proof -
  have "c x y < 0 \<longleftrightarrow> 0 < c y x" "c y x < 0 \<longleftrightarrow> 0 < c x y" using assms unfolding total_cmp_def by simp_all
  then show ?thesis by linarith
qed

lemma total_cmp_string: "total_cmp (\<lambda>x y. string_compare (f x) (f y))"
  unfolding total_cmp_def
proof (intro conjI allI impI; (elim conjE)?)
  show "string_compare (f x) (f y) < 0 \<longleftrightarrow> 0 < string_compare (f y) (f x)" for x y
    by (rule string_compare_anti)
  fix x y z
  assume le: "string_compare (f x) (f y) \<le> 0" "string_compare (f y) (f z) \<le> 0"
  then show "string_compare (f x) (f z) \<le> 0"
    using string_compare_trans [of "f x" "f y" "f z"] by (cases "f x = f y"; cases "f y = f z") (auto simp: less_le)
  assume "string_compare (f x) (f y) < 0 \<or> string_compare (f y) (f z) < 0"
  with le show "string_compare (f x) (f z) < 0"
    using string_compare_trans [of "f x" "f y" "f z"] by (cases "f x = f y"; cases "f y = f z") (auto simp: less_le)
qed

lemma total_cmp_three_way: "total_cmp (\<lambda>x y. three_way (f x) (f y))"
  by (auto simp: total_cmp_def three_way_def split: if_splits)

lemma first_nonzero_sign:
  assumes "\<forall>c \<in> set cs. total_cmp c"
  shows "total_cmp (\<lambda>x y. first_nonzero (map (\<lambda>c. c x y) cs))"
  using assms
proof (induction cs)
  case (Cons c cs)
  let ?r = "\<lambda>x y. first_nonzero (map (\<lambda>c. c x y) cs)"
  have c: "total_cmp c" and r: "total_cmp ?r" using Cons by auto
  have anti: "c x y < 0 \<longleftrightarrow> 0 < c y x" "?r x y < 0 \<longleftrightarrow> 0 < ?r y x" for x y
    using c r unfolding total_cmp_def by blast+
  have zero: "c x y = 0 \<longleftrightarrow> c y x = 0" for x y using total_cmp_zero_sym [OF c] .
  have tr: "\<lbrakk>c x y \<le> 0; c y z \<le> 0\<rbrakk> \<Longrightarrow> c x z \<le> 0 \<and> (c x y < 0 \<or> c y z < 0 \<longrightarrow> c x z < 0)"
    "\<lbrakk>?r x y \<le> 0; ?r y z \<le> 0\<rbrakk> \<Longrightarrow> ?r x z \<le> 0 \<and> (?r x y < 0 \<or> ?r y z < 0 \<longrightarrow> ?r x z < 0)" for x y z
    using c r unfolding total_cmp_def by blast+
  have z0: "c x z = 0" if "c x y = 0" "c y z = 0" for x y z
  proof -
    have "c x z \<le> 0" using tr(1) [of x y z] that by simp
    moreover have "c z x \<le> 0" using tr(1) [of z y x] zero [of x y] zero [of y z] that by simp
    ultimately show ?thesis using anti(1) [of x z] anti(1) [of z x] by linarith
  qed
  show ?case
    unfolding total_cmp_def
  proof (intro conjI allI impI; (elim conjE)?)
    show "first_nonzero (map (\<lambda>c. c x y) (c # cs)) < 0 \<longleftrightarrow> 0 < first_nonzero (map (\<lambda>c. c y x) (c # cs))" for x y
      using anti zero [of x y] by auto
    fix x y z
    assume le: "first_nonzero (map (\<lambda>c. c x y) (c # cs)) \<le> 0" "first_nonzero (map (\<lambda>c. c y z) (c # cs)) \<le> 0"
    then have le': "c x y \<le> 0" "c y z \<le> 0" by (auto split: if_splits)
    note t = tr(1) [OF le']
    show "first_nonzero (map (\<lambda>c. c x z) (c # cs)) \<le> 0"
      using le t tr(2) [of x y z] z0 [of x y z] le' by (cases "c x y = 0"; cases "c y z = 0") auto
    assume "first_nonzero (map (\<lambda>c. c x y) (c # cs)) < 0 \<or> first_nonzero (map (\<lambda>c. c y z) (c # cs)) < 0"
    then show "first_nonzero (map (\<lambda>c. c x z) (c # cs)) < 0"
      using le t tr(2) [of x y z] z0 [of x y z] le' by (cases "c x y = 0"; cases "c y z = 0") auto
  qed
qed (simp add: total_cmp_def)

lemma first_nonzero_zero: "first_nonzero rs = 0 \<longleftrightarrow> (\<forall>r \<in> set rs. r = 0)"
  by (induction rs) auto

lemma first_nonzero_append:
  "first_nonzero (xs @ ys) = (if first_nonzero xs \<noteq> 0 then first_nonzero xs else first_nonzero ys)"
  by (induction xs) auto

definition head_cmps :: "(match_keys \<Rightarrow> match_keys \<Rightarrow> int) list" where
  "head_cmps =
     [\<lambda>a b. string_compare (k_sender a) (k_sender b), \<lambda>a b. string_compare (k_destination a) (k_destination b),
      \<lambda>a b. string_compare (f_interface (k_filter a)) (f_interface (k_filter b)),
      \<lambda>a b. string_compare (f_member (k_filter a)) (f_member (k_filter b)),
      \<lambda>a b. string_compare (f_path (k_filter a)) (f_path (k_filter b)),
      \<lambda>a b. string_compare (k_path_namespace a) (k_path_namespace b),
      \<lambda>a b. string_compare (k_arg0namespace a) (k_arg0namespace b),
      \<lambda>a b. three_way (f_type (k_filter a)) (f_type (k_filter b)),
      \<lambda>a b. three_way (f_n_args (k_filter a)) (f_n_args (k_filter b)),
      \<lambda>a b. three_way (f_n_argpaths (k_filter a)) (f_n_argpaths (k_filter b))]"

definition arg_cmps :: "nat \<Rightarrow> (match_keys \<Rightarrow> match_keys \<Rightarrow> int) list" where
  "arg_cmps n = concat (map (\<lambda>i.
     [\<lambda>a b. string_compare (f_args (k_filter a) ! i) (f_args (k_filter b) ! i),
      \<lambda>a b. string_compare (f_argpaths (k_filter a) ! i) (f_argpaths (k_filter b) ! i)]) [0..<n])"

lemma total_head: "\<forall>c \<in> set head_cmps. total_cmp c"
  by (simp add: head_cmps_def total_cmp_string total_cmp_three_way)

lemma total_args: "\<forall>c \<in> set (arg_cmps n). total_cmp c"
  by (auto simp: arg_cmps_def total_cmp_string)

lemma match_keys_compare_eq:
  "match_keys_compare a b =
     first_nonzero (map (\<lambda>c. c a b)
       (head_cmps @ arg_cmps (max (f_n_args (k_filter a)) (f_n_argpaths (k_filter a)))))"
  by (simp add: match_keys_compare_def Let_def head_cmps_def arg_cmps_def map_concat o_def)

text \<open>On parsed keys all 64 arguments can be compared instead of only those in use.\<close>

lemma head_zero_iff:
  "first_nonzero (map (\<lambda>c. c a b) head_cmps) = 0 \<longleftrightarrow>
     k_sender a = k_sender b \<and> k_destination a = k_destination b \<and>
     f_interface (k_filter a) = f_interface (k_filter b) \<and> f_member (k_filter a) = f_member (k_filter b) \<and>
     f_path (k_filter a) = f_path (k_filter b) \<and> k_path_namespace a = k_path_namespace b \<and>
     k_arg0namespace a = k_arg0namespace b \<and> f_type (k_filter a) = f_type (k_filter b) \<and>
     f_n_args (k_filter a) = f_n_args (k_filter b) \<and> f_n_argpaths (k_filter a) = f_n_argpaths (k_filter b)"
  by (simp add: head_cmps_def first_nonzero_zero)

lemma arg_cmps_split: "n \<le> m \<Longrightarrow> arg_cmps m = arg_cmps n @ concat (map (\<lambda>i.
     [\<lambda>a b. string_compare (f_args (k_filter a) ! i) (f_args (k_filter b) ! i),
      \<lambda>a b. string_compare (f_argpaths (k_filter a) ! i) (f_argpaths (k_filter b) ! i)]) [n..<m])"
  using upt_add_eq_append [of 0 n "m - n"] unfolding arg_cmps_def by simp

lemma arg_cmps_64:
  assumes "keys_ok a" "keys_ok b" "f_n_args (k_filter a) = f_n_args (k_filter b)"
    "f_n_argpaths (k_filter a) = f_n_argpaths (k_filter b)"
    "n = max (f_n_args (k_filter a)) (f_n_argpaths (k_filter a))"
  shows "first_nonzero (map (\<lambda>c. c a b) (arg_cmps n)) = first_nonzero (map (\<lambda>c. c a b) (arg_cmps 64))"
proof -
  have n: "n \<le> 64" using assms by (simp add: keys_ok_def args_ok_def)
  let ?T = "concat (map (\<lambda>i. [\<lambda>a b. string_compare (f_args (k_filter a) ! i) (f_args (k_filter b) ! i),
      \<lambda>a b. string_compare (f_argpaths (k_filter a) ! i) (f_argpaths (k_filter b) ! i)]) [n..<64])"
  have "c a b = 0" if "c \<in> set ?T" for c
    using that assms by (auto simp: keys_ok_def args_ok_def)
  then have "first_nonzero (map (\<lambda>c. c a b) ?T) = 0" by (auto simp: first_nonzero_zero)
  with arg_cmps_split [OF n] show ?thesis by (simp add: first_nonzero_append)
qed

lemma match_keys_compare_64:
  assumes "keys_ok a" "keys_ok b"
  shows "match_keys_compare a b = first_nonzero (map (\<lambda>c. c a b) (head_cmps @ arg_cmps 64))"
  using arg_cmps_64 [OF assms, of "max (f_n_args (k_filter a)) (f_n_argpaths (k_filter a))"]
  by (auto simp: match_keys_compare_eq first_nonzero_append head_zero_iff)

lemma keys_total: "total_cmp (\<lambda>a b. first_nonzero (map (\<lambda>c. c a b) (head_cmps @ arg_cmps 64)))"
  by (rule first_nonzero_sign) (use total_head total_args in auto)

lemma match_keys_compare_zero:
  assumes ok: "keys_ok a" "keys_ok b"
  shows "match_keys_compare a b = 0 \<longleftrightarrow> a = b"
proof
  assume "match_keys_compare a b = 0"
  then have h: "first_nonzero (map (\<lambda>c. c a b) head_cmps) = 0"
    and t: "first_nonzero (map (\<lambda>c. c a b) (arg_cmps 64)) = 0"
    using match_keys_compare_64 [OF ok] by (auto simp: first_nonzero_append split: if_splits)
  from t have "\<forall>i<64. f_args (k_filter a) ! i = f_args (k_filter b) ! i \<and>
      f_argpaths (k_filter a) ! i = f_argpaths (k_filter b) ! i"
    by (auto simp: first_nonzero_zero arg_cmps_def)
  then have "f_args (k_filter a) = f_args (k_filter b)" "f_argpaths (k_filter a) = f_argpaths (k_filter b)"
    using ok by (auto simp: keys_ok_def args_ok_def intro!: nth_equalityI)
  with h ok show "a = b" unfolding head_zero_iff by (simp add: keys_ok_def)
next
  assume "a = b"
  then show "match_keys_compare a b = 0" by (auto simp: match_keys_compare_eq first_nonzero_zero head_cmps_def arg_cmps_def)
qed

lemma match_keys_compare_anti:
  "\<lbrakk>keys_ok a; keys_ok b\<rbrakk> \<Longrightarrow> match_keys_compare a b < 0 \<longleftrightarrow> 0 < match_keys_compare b a"
  using keys_total by (simp add: match_keys_compare_64 total_cmp_def)

lemma match_keys_compare_trans:
  assumes "keys_ok a" "keys_ok b" "keys_ok c" "match_keys_compare a b < 0" "match_keys_compare b c < 0"
  shows "match_keys_compare a c < 0"
proof -
  have "\<lbrakk>f a b \<le> 0; f b c \<le> 0; f a b < 0\<rbrakk> \<Longrightarrow> f a c < 0" if "total_cmp f" for f :: "match_keys \<Rightarrow> match_keys \<Rightarrow> int"
    using that unfolding total_cmp_def by blast
  from this [OF keys_total] assms show ?thesis by (simp add: match_keys_compare_64)
qed

section \<open>Properties of match keys\<close>

text \<open>
  C20: parsing stays inside its buffer. For every rule string that passes the length check,
  \<open>match_keys_init\<close> returns without failing an assertion, and the bytes it writes, on
  success and on every error path, are at most the length of the rule string, for which
  the buffer has room. Parsed keys are well-formed, and cloning them into a buffer of the
  size they use never fails its assertion and yields equal keys.
\<close>
theorem match_keys_init_in_bounds:
  assumes "length s \<le> MATCH_RULE_LENGTH_MAX"
  shows "snd (snd (match_parse_loop MATCH_KEYS_NULL s a 0)) \<le> length s \<and>
    (\<exists>r. match_keys_init s (length s + 1) a = Some r \<and>
      (\<forall>keys n. r = Inr (keys, n) \<longrightarrow>
         keys_ok keys \<and> n \<le> length s \<and> (\<exists>m. m \<le> n \<and> match_keys_clone keys n = Some (keys, m))))"
proof (intro conjI)
  obtain r keys n where l: "match_parse_loop MATCH_KEYS_NULL s a 0 = (r, keys, n)" using prod_cases3 by blast
  then show "snd (snd (match_parse_loop MATCH_KEYS_NULL s a 0)) \<le> length s"
    using match_parse_loop_ok [OF l] match_keys_null_ok by simp
  show "\<exists>r. match_keys_init s (length s + 1) a = Some r \<and>
      (\<forall>keys n. r = Inr (keys, n) \<longrightarrow>
         keys_ok keys \<and> n \<le> length s \<and> (\<exists>m. m \<le> n \<and> match_keys_clone keys n = Some (keys, m)))"
    using match_keys_clone_ok by (cases rule: match_keys_init_total [OF assms, of a]) auto
qed

text \<open>
  The specification of D-Bus: a namespace of object paths contains the path itself and every path
  below it, where the paths below the root are all others; a namespace of names contains the
  name and every name that extends it by further elements.
\<close>

definition path_below :: "string \<Rightarrow> string \<Rightarrow> bool" where
  "path_below ns p \<longleftrightarrow> p = ns \<or> (\<exists>t. p = (if ns = ''/'' then ''/'' else ns @ ''/'') @ t)"

definition name_below :: "string \<Rightarrow> string \<Rightarrow> bool" where
  "name_below ns n \<longleftrightarrow> n = ns \<or> (\<exists>t. n = ns @ ''.'' @ t)"

definition matches_spec :: "match_keys \<Rightarrow> message_metadata \<Rightarrow> bool" where
  "matches_spec keys md \<longleftrightarrow>
     (f_type (k_filter keys) \<noteq> DBUS_MESSAGE_TYPE_INVALID \<longrightarrow> md_type md = f_type (k_filter keys)) \<and>
     (sender_id_of (k_sender keys) \<noteq> ADDRESS_ID_INVALID \<longrightarrow> md_sender_id md = sender_id_of (k_sender keys)) \<and>
     (\<forall>v. f_interface (k_filter keys) = Some v \<longrightarrow> md_interface md = Some v) \<and>
     (\<forall>v. f_member (k_filter keys) = Some v \<longrightarrow> md_member md = Some v) \<and>
     (\<forall>v. f_path (k_filter keys) = Some v \<longrightarrow> md_path md = Some v) \<and>
     (\<forall>ns. k_path_namespace keys = Some ns \<longrightarrow> (\<exists>p. md_path md = Some p \<and> path_below ns p)) \<and>
     (\<forall>ns. k_arg0namespace keys = Some ns \<longrightarrow>
        fst (md_args md ! 0) = CHR ''s'' \<and> (\<exists>n. snd (md_args md ! 0) = Some n \<and> name_below ns n)) \<and>
     (\<forall>i<64. \<forall>v. f_args (k_filter keys) ! i = Some v \<longrightarrow> i < md_n_args md \<and> md_args md ! i = (CHR ''s'', Some v)) \<and>
     (\<forall>i<64. \<forall>v. f_argpaths (k_filter keys) ! i = Some v \<longrightarrow>
        i < md_n_args md \<and> (\<exists>x. snd (md_args md ! i) = Some x \<and> (path_parent v x \<or> path_parent x v)))"

lemma in_namespace_below:
  "in_namespace CHR ''.'' ns n \<longleftrightarrow> (\<exists>m. n = Some m \<and> name_below ns m)"
  "ns \<noteq> ''/'' \<Longrightarrow> in_namespace CHR ''/'' ns p \<longleftrightarrow> (\<exists>q. p = Some q \<and> path_below ns q)"
  "in_namespace CHR ''/'' ''/'' p \<longleftrightarrow> (\<exists>q. p = Some q \<and> path_below ''/'' q) \<and> (p = Some ''/'' \<or> (\<exists>t. p = Some (''//'' @ t)))"
  by (auto simp: in_namespace_def name_below_def path_below_def)

lemma matches_code_spec:
  "k_path_namespace keys \<noteq> Some ''/'' \<Longrightarrow> matches_code keys md \<longleftrightarrow> matches_spec keys md"
  "k_path_namespace keys = Some ''/'' \<Longrightarrow>
     matches_code keys md \<longleftrightarrow> matches_spec keys md \<and> (md_path md = Some ''/'' \<or> (\<exists>t. md_path md = Some (''//'' @ t)))"
proof -
  assume k: "k_path_namespace keys \<noteq> Some ''/''"
  have "in_namespace CHR ''/'' ns (md_path md) \<longleftrightarrow> (\<exists>p. md_path md = Some p \<and> path_below ns p)"
    if "k_path_namespace keys = Some ns" for ns
    by (rule in_namespace_below(2)) (use k that in simp)
  then have "(\<forall>ns. k_path_namespace keys = Some ns \<longrightarrow> in_namespace CHR ''/'' ns (md_path md)) \<longleftrightarrow>
      (\<forall>ns. k_path_namespace keys = Some ns \<longrightarrow> (\<exists>p. md_path md = Some p \<and> path_below ns p))"
    by (intro iff_allI imp_cong refl)
  then show "matches_code keys md \<longleftrightarrow> matches_spec keys md"
    unfolding matches_code_def matches_spec_def in_namespace_below(1) by blast
next
  assume root: "k_path_namespace keys = Some ''/''"
  then have one: "(\<forall>ns. k_path_namespace keys = Some ns \<longrightarrow> P ns) \<longleftrightarrow> P ''/''" for P by auto
  have "(\<forall>ns. k_path_namespace keys = Some ns \<longrightarrow> in_namespace CHR ''/'' ns (md_path md)) \<longleftrightarrow>
      (\<forall>ns. k_path_namespace keys = Some ns \<longrightarrow> (\<exists>p. md_path md = Some p \<and> path_below ns p)) \<and>
        (md_path md = Some ''/'' \<or> (\<exists>t. md_path md = Some (''//'' @ t)))"
    unfolding one by (rule in_namespace_below(3))
  then show "matches_code keys md \<longleftrightarrow> matches_spec keys md \<and> (md_path md = Some ''/'' \<or> (\<exists>t. md_path md = Some (''//'' @ t)))"
    unfolding matches_code_def matches_spec_def in_namespace_below(1) by blast
qed


text \<open>
  C23: the order of rules. On well-formed keys \<open>match_keys_compare\<close> is the sign of a strict
  total order: it is zero exactly for equal keys, swapping the arguments inverts the sign,
  and it is transitive. So the trees ordered by it hold every set of keys at most once and
  find it.
\<close>
theorem match_keys_compare_total_order:
  assumes "keys_ok a" "keys_ok b" "keys_ok c"
  shows "(match_keys_compare a b = 0 \<longleftrightarrow> a = b) \<and>
    (match_keys_compare a b < 0 \<longleftrightarrow> 0 < match_keys_compare b a) \<and>
    (match_keys_compare a b < 0 \<longrightarrow> match_keys_compare b c < 0 \<longrightarrow> match_keys_compare a c < 0)"
  using assms match_keys_compare_zero match_keys_compare_anti match_keys_compare_trans by metis

lemma path_namespace_root_keys:
  "match_keys_new True ''path_namespace=/'' = Some (Inr (MATCH_KEYS_NULL\<lparr>k_path_namespace := Some ''/''\<rparr>, 2))"
  by code_simp

lemma path_namespace_root_ok: "keys_ok (MATCH_KEYS_NULL\<lparr>k_path_namespace := Some ''/''\<rparr>)"
  using match_keys_null_ok(1) by (simp add: keys_ok_def)

text \<open>
  The root namespace. The rule \<open>path_namespace=/\<close> is accepted, but it matches no
  message with a valid object path other than the root path itself, although every object
  path lies below the root.
\<close>
theorem path_namespace_root_matches_root_only:
  "\<exists>keys n. match_keys_new True ''path_namespace=/'' = Some (Inr (keys, n)) \<and>
     (\<forall>md p. md_path md = Some p \<and> c_dvar_is_path p \<and> p \<noteq> ''/'' \<longrightarrow> \<not> match_keys_match_metadata keys md)"
proof (intro exI conjI allI impI)
  show "match_keys_new True ''path_namespace=/'' = Some (Inr (MATCH_KEYS_NULL\<lparr>k_path_namespace := Some ''/''\<rparr>, 2))"
    by (rule path_namespace_root_keys)
  fix md :: message_metadata and p
  assume p: "md_path md = Some p \<and> c_dvar_is_path p \<and> p \<noteq> ''/''"
  then have "p \<noteq> CHR ''/'' # CHR ''/'' # t" for t by (auto simp: c_dvar_is_path_def)
  with p have "\<not> in_namespace CHR ''/'' ''/'' (md_path md)" by (simp add: in_namespace_def)
  then show "\<not> match_keys_match_metadata (MATCH_KEYS_NULL\<lparr>k_path_namespace := Some ''/''\<rparr>) md"
    unfolding match_metadata_iff [OF path_namespace_root_ok] matches_code_def by simp
qed

definition sample_metadata :: message_metadata where
  "sample_metadata = \<lparr>md_type = 4, md_flags = 0, md_version = 1, md_serial = 1, md_sender_id = 7,
     md_path = Some ''/com'', md_interface = None, md_member = None,
     md_args = replicate 64 (CHR 0x00, None), md_n_args = 0\<rparr>"

theorem match_keys_init_in_bounds_witness:
  "length ''path_namespace=/'' \<le> MATCH_RULE_LENGTH_MAX \<and>
   snd (snd (match_parse_loop MATCH_KEYS_NULL ''path_namespace=/'' False 0)) \<le> 16"
  using match_keys_init_in_bounds [of "''path_namespace=/''" False] by (simp add: MATCH_RULE_LENGTH_MAX_def)

definition below_com :: match_keys where
  "below_com = MATCH_KEYS_NULL\<lparr>k_path_namespace := Some ''/c''\<rparr>"


theorem match_keys_compare_total_order_witness:
  "keys_ok MATCH_KEYS_NULL \<and> match_keys_compare MATCH_KEYS_NULL MATCH_KEYS_NULL = 0"
  using match_keys_compare_total_order [OF match_keys_null_ok(1) match_keys_null_ok(1) match_keys_null_ok(1)]
    match_keys_null_ok(1) by blast

theorem path_namespace_root_matches_root_only_witness:
  "\<exists>keys n. match_keys_new True ''path_namespace=/'' = Some (Inr (keys, n)) \<and>
     \<not> match_keys_match_metadata keys sample_metadata"
proof -
  have "c_dvar_is_path ''/com''" by code_simp
  then have "md_path sample_metadata = Some ''/com'' \<and> c_dvar_is_path ''/com'' \<and> ''/com'' \<noteq> ''/''"
    by (simp add: sample_metadata_def)
  with path_namespace_root_matches_root_only show ?thesis by blast
qed

end
