(* ===== verification/MatchIndex.thy ===== *)
theory MatchIndex
  imports MatchKeys
begin

text \<open>
  Match rules, second part (\<open>src/bus/match.c\<close>): the index that finds the subscribers of a
  message. A registry has a tree of paths; every path has a tree of interfaces, every
  interface a tree of members, every member a tree of match keys, and every entry of the
  last tree the list of the rules with these keys. A rule that leaves a key open is stored
  under the empty string on that level.

  The three upper levels have the same shape, so one record and one set of operations
  models \<open>MatchRegistryByPath\<close>, \<open>MatchRegistryByInterface\<close> and \<open>MatchRegistryByMember\<close>.
  Trees are in-order lists. A rule is identified by its owner and its keys, since an owner
  has at most one rule with given keys; a rule list holds the owners. The locale
  \<open>index_child\<close> is what one level promises to the level above.
\<close>

section \<open>Nodes\<close>

record by_keys =
  bk_refs :: nat
  bk_rules :: "owner_id list"
  bk_keys :: match_keys

record 'c node =
  node_refs :: nat
  node_children :: "'c list"
  node_key :: string

type_synonym by_member = "by_keys node"
type_synonym by_interface = "by_member node"
type_synonym by_path = "by_interface node"

text \<open>The outcomes of the allocations on the four levels.\<close>

record link_env =
  mem_path :: bool
  mem_interface :: bool
  mem_member :: bool
  mem_keys :: bool

definition key_str :: "string option \<Rightarrow> string" where
  "key_str k = (case k of None \<Rightarrow> [] | Some s \<Rightarrow> s)"

definition node_compare :: "string \<Rightarrow> 'c node \<Rightarrow> int" where
  "node_compare k nd = strcmp k (node_key nd)"

definition match_registry_by_keys_compare :: "match_keys \<Rightarrow> by_keys \<Rightarrow> int" where
  "match_registry_by_keys_compare keys bk = match_keys_compare keys (bk_keys bk)"

definition node_new :: "string option \<Rightarrow> 'c node" where
  "node_new k = \<lparr>node_refs = 1, node_children = [], node_key = key_str k\<rparr>"

definition node_ref :: "'c node \<Rightarrow> 'c node option" where
  "node_ref nd = do { _ \<leftarrow> c_assert (node_refs nd > 0); Some (nd\<lparr>node_refs := node_refs nd + 1\<rparr>) }"

text \<open>\<open>Some None\<close> is a node that was freed.\<close>

definition node_unref :: "'c node \<Rightarrow> 'c node option option" where
  "node_unref nd =
     (if node_refs nd - 1 > 0 then Some (Some (nd\<lparr>node_refs := node_refs nd - 1\<rparr>))
      else do { _ \<leftarrow> c_assert (node_children nd = []); Some None })"

definition match_registry_by_keys_new :: "match_keys \<Rightarrow> nat \<Rightarrow> by_keys option" where
  "match_registry_by_keys_new keys n_buffer = do {
     (keys, _) \<leftarrow> match_keys_clone keys n_buffer;
     Some \<lparr>bk_refs = 1, bk_rules = [], bk_keys = keys\<rparr> }"

definition match_registry_by_keys_ref :: "by_keys \<Rightarrow> by_keys option" where
  "match_registry_by_keys_ref bk = do { _ \<leftarrow> c_assert (bk_refs bk > 0); Some (bk\<lparr>bk_refs := bk_refs bk + 1\<rparr>) }"

definition match_registry_by_keys_unref :: "by_keys \<Rightarrow> by_keys option option" where
  "match_registry_by_keys_unref bk =
     (if bk_refs bk - 1 > 0 then Some (Some (bk\<lparr>bk_refs := bk_refs bk - 1\<rparr>))
      else do { _ \<leftarrow> c_assert (bk_rules bk = []); Some None })"

section \<open>Linking a rule\<close>

text \<open>
  One level of linking: find the child or create it, link the rule below it while holding
  a reference to the child, and drop that reference again, which frees a new child if the
  level below failed. The first component of a result is the success.
\<close>

definition child_put :: "('k \<Rightarrow> 'c \<Rightarrow> int) \<Rightarrow> 'k \<Rightarrow> 'c option \<Rightarrow> 'c list \<Rightarrow> 'c list" where
  "child_put cmp k x t = (case x of None \<Rightarrow> rb_unlink cmp k t | Some c \<Rightarrow> rb_modify cmp k (\<lambda>_. c) t)"

definition child_link ::
  "('k \<Rightarrow> 'c \<Rightarrow> int) \<Rightarrow> 'k \<Rightarrow> ('c \<Rightarrow> 'c option) \<Rightarrow> ('c \<Rightarrow> 'c option option) \<Rightarrow> bool \<Rightarrow> 'c option \<Rightarrow>
   ('c \<Rightarrow> (bool \<times> 'c) option) \<Rightarrow> 'c list \<Rightarrow> (bool \<times> 'c list) option" where
  "child_link cmp k ref unref mem new add t =
     (case rb_find cmp k t of
        Some c \<Rightarrow> do {
          c \<leftarrow> ref c;
          (ok, c) \<leftarrow> add c;
          x \<leftarrow> unref c;
          Some (ok, child_put cmp k x t) }
      | None \<Rightarrow>
          if \<not> mem then Some (False, t)
          else do {
            c \<leftarrow> new;
            (ok, c) \<leftarrow> add c;
            x \<leftarrow> unref c;
            Some (ok, case x of None \<Rightarrow> t | Some c \<Rightarrow> rb_add cmp k c t) })"

text \<open>A child holds a reference to its parent as long as it is linked.\<close>

definition set_children :: "'c list \<Rightarrow> 'c node \<Rightarrow> 'c node" where
  "set_children t nd = nd\<lparr>node_children := t, node_refs := node_refs nd + length t - length (node_children nd)\<rparr>"

definition match_rule_link_by_keys :: "owner_id \<Rightarrow> by_keys \<Rightarrow> by_keys option" where
  "match_rule_link_by_keys ow bk = match_registry_by_keys_ref (bk\<lparr>bk_rules := bk_rules bk @ [ow]\<rparr>)"

definition match_rule_link_by_member ::
  "link_env \<Rightarrow> owner_id \<Rightarrow> match_keys \<Rightarrow> nat \<Rightarrow> by_member \<Rightarrow> (bool \<times> by_member) option" where
  "match_rule_link_by_member env ow keys n nd = do {
     (ok, t) \<leftarrow> child_link match_registry_by_keys_compare keys match_registry_by_keys_ref match_registry_by_keys_unref
       (mem_keys env) (match_registry_by_keys_new keys n)
       (\<lambda>bk. map_option (Pair True) (match_rule_link_by_keys ow bk)) (node_children nd);
     Some (ok, set_children t nd) }"

definition match_rule_link_by_interface ::
  "link_env \<Rightarrow> owner_id \<Rightarrow> match_keys \<Rightarrow> nat \<Rightarrow> by_interface \<Rightarrow> (bool \<times> by_interface) option" where
  "match_rule_link_by_interface env ow keys n nd = do {
     (ok, t) \<leftarrow> child_link node_compare (key_str (f_member (k_filter keys))) node_ref node_unref
       (mem_member env) (Some (node_new (f_member (k_filter keys))))
       (match_rule_link_by_member env ow keys n) (node_children nd);
     Some (ok, set_children t nd) }"

definition match_rule_link_by_path ::
  "link_env \<Rightarrow> owner_id \<Rightarrow> match_keys \<Rightarrow> nat \<Rightarrow> by_path \<Rightarrow> (bool \<times> by_path) option" where
  "match_rule_link_by_path env ow keys n nd = do {
     (ok, t) \<leftarrow> child_link node_compare (key_str (f_interface (k_filter keys))) node_ref node_unref
       (mem_interface env) (Some (node_new (f_interface (k_filter keys))))
       (match_rule_link_by_interface env ow keys n) (node_children nd);
     Some (ok, set_children t nd) }"

text \<open>The part of \<open>match_rule_link\<close> that works on the chosen tree.\<close>

definition index_link ::
  "link_env \<Rightarrow> owner_id \<Rightarrow> match_keys \<Rightarrow> nat \<Rightarrow> by_path list \<Rightarrow> (bool \<times> by_path list) option" where
  "index_link env ow keys n tree =
     child_link node_compare (key_str (f_path (k_filter keys))) node_ref node_unref
       (mem_path env) (Some (node_new (f_path (k_filter keys)))) (match_rule_link_by_path env ow keys n) tree"

section \<open>Unlinking a rule\<close>

text \<open>Dropping a reference to a child; a child that is freed drops its reference to the parent.\<close>

definition child_drop ::
  "('k \<Rightarrow> 'c \<Rightarrow> int) \<Rightarrow> 'k \<Rightarrow> ('c \<Rightarrow> 'c option option) \<Rightarrow> 'c list \<Rightarrow> 'c list option" where
  "child_drop cmp k rel t = do {
     c \<leftarrow> rb_find cmp k t;
     x \<leftarrow> rel c;
     Some (child_put cmp k x t) }"

definition node_drop :: "'c list \<Rightarrow> 'c node \<Rightarrow> 'c node option option" where
  "node_drop t nd =
     (if length t < length (node_children nd) then node_unref (nd\<lparr>node_children := t\<rparr>)
      else Some (Some (nd\<lparr>node_children := t\<rparr>)))"

definition by_keys_drop :: "owner_id \<Rightarrow> by_keys \<Rightarrow> by_keys option option" where
  "by_keys_drop ow bk = match_registry_by_keys_unref (bk\<lparr>bk_rules := removeAll ow (bk_rules bk)\<rparr>)"

definition by_member_drop :: "owner_id \<Rightarrow> match_keys \<Rightarrow> by_member \<Rightarrow> by_member option option" where
  "by_member_drop ow keys nd = do {
     t \<leftarrow> child_drop match_registry_by_keys_compare keys (by_keys_drop ow) (node_children nd);
     node_drop t nd }"

definition by_interface_drop :: "owner_id \<Rightarrow> match_keys \<Rightarrow> by_interface \<Rightarrow> by_interface option option" where
  "by_interface_drop ow keys nd = do {
     t \<leftarrow> child_drop node_compare (key_str (f_member (k_filter keys))) (by_member_drop ow keys) (node_children nd);
     node_drop t nd }"

definition by_path_drop :: "owner_id \<Rightarrow> match_keys \<Rightarrow> by_path \<Rightarrow> by_path option option" where
  "by_path_drop ow keys nd = do {
     t \<leftarrow> child_drop node_compare (key_str (f_interface (k_filter keys))) (by_interface_drop ow keys) (node_children nd);
     node_drop t nd }"

definition index_unlink :: "owner_id \<Rightarrow> match_keys \<Rightarrow> by_path list \<Rightarrow> by_path list option" where
  "index_unlink ow keys tree = child_drop node_compare (key_str (f_path (k_filter keys))) (by_path_drop ow keys) tree"

section \<open>Lookup\<close>

text \<open>
  The destinations are a list of owners without duplicates, since an owner is linked once.
  The entries of a tree are visited in order; the source visits them in post-order, so the
  order of the destinations is not that of the source.
\<close>

fun match_registry_by_keys_get_destinations :: "owner_id list \<Rightarrow> owner_id list \<Rightarrow> owner_id list" where
  "match_registry_by_keys_get_destinations [] ds = ds"
| "match_registry_by_keys_get_destinations (ow # rules) ds =
     match_registry_by_keys_get_destinations rules (if ow \<in> set ds then ds else ds @ [ow])"

fun by_keys_list_destinations :: "message_metadata \<Rightarrow> by_keys list \<Rightarrow> owner_id list \<Rightarrow> owner_id list" where
  "by_keys_list_destinations md [] ds = ds"
| "by_keys_list_destinations md (bk # bks) ds =
     by_keys_list_destinations md bks
       (if match_keys_match_metadata (bk_keys bk) md
        then match_registry_by_keys_get_destinations (bk_rules bk) ds else ds)"

definition match_registry_by_member_get_destinations ::
  "message_metadata \<Rightarrow> by_member \<Rightarrow> owner_id list \<Rightarrow> owner_id list" where
  "match_registry_by_member_get_destinations md nd ds = by_keys_list_destinations md (node_children nd) ds"

text \<open>An upper level: the children for any value, then those for the value of the message.\<close>

definition child_destinations ::
  "string option \<Rightarrow> ('c node \<Rightarrow> owner_id list \<Rightarrow> owner_id list) \<Rightarrow> 'c node list \<Rightarrow> owner_id list \<Rightarrow> owner_id list" where
  "child_destinations v lookup t ds =
     (let ds = (case rb_find node_compare (key_str None) t of None \<Rightarrow> ds | Some nd \<Rightarrow> lookup nd ds) in
      case v of
        None \<Rightarrow> ds
      | Some s \<Rightarrow> (case rb_find node_compare s t of None \<Rightarrow> ds | Some nd \<Rightarrow> lookup nd ds))"

definition match_registry_by_interface_get_destinations ::
  "message_metadata \<Rightarrow> by_interface \<Rightarrow> owner_id list \<Rightarrow> owner_id list" where
  "match_registry_by_interface_get_destinations md nd ds =
     child_destinations (md_member md) (match_registry_by_member_get_destinations md) (node_children nd) ds"

definition match_registry_by_path_get_destinations ::
  "message_metadata \<Rightarrow> by_path \<Rightarrow> owner_id list \<Rightarrow> owner_id list" where
  "match_registry_by_path_get_destinations md nd ds =
     child_destinations (md_interface md) (match_registry_by_interface_get_destinations md) (node_children nd) ds"

definition match_registry_get_destinations :: "by_path list \<Rightarrow> owner_id list \<Rightarrow> message_metadata \<Rightarrow> owner_id list" where
  "match_registry_get_destinations tree ds md =
     child_destinations (md_path md) (match_registry_by_path_get_destinations md) tree ds"

section \<open>Flushing\<close>

text \<open>
  Flushing a level: every child is referenced, flushed and released; the list of the
  children that are left has to be empty. Unlinking a rule releases its list entry and
  its reference to the keys.
\<close>

fun flush_list :: "('c \<Rightarrow> 'c option option) \<Rightarrow> 'c list \<Rightarrow> 'c list option" where
  "flush_list f [] = Some []"
| "flush_list f (c # cs) = do {
     x \<leftarrow> f c;
     rest \<leftarrow> flush_list f cs;
     Some (case x of None \<Rightarrow> rest | Some c \<Rightarrow> c # rest) }"

fun flush_rules :: "owner_id list \<Rightarrow> by_keys \<Rightarrow> by_keys option" where
  "flush_rules [] bk = Some bk"
| "flush_rules (ow # rules) bk = do {
     x \<leftarrow> by_keys_drop ow bk;
     bk \<leftarrow> x;
     flush_rules rules bk }"

definition match_registry_by_keys_flush :: "by_keys \<Rightarrow> by_keys option" where
  "match_registry_by_keys_flush bk = do {
     bk \<leftarrow> flush_rules (bk_rules bk) bk;
     _ \<leftarrow> c_assert (bk_rules bk = []);
     Some bk }"

definition by_keys_release :: "by_keys \<Rightarrow> by_keys option option" where
  "by_keys_release bk = do {
     bk \<leftarrow> match_registry_by_keys_ref bk;
     bk \<leftarrow> match_registry_by_keys_flush bk;
     match_registry_by_keys_unref bk }"

definition node_flush :: "('c \<Rightarrow> 'c option option) \<Rightarrow> 'c node \<Rightarrow> 'c node option" where
  "node_flush release nd = do {
     t \<leftarrow> flush_list release (node_children nd);
     _ \<leftarrow> c_assert (t = []);
     Some (set_children t nd) }"

definition node_release :: "('c \<Rightarrow> 'c option option) \<Rightarrow> 'c node \<Rightarrow> 'c node option option" where
  "node_release release nd = do {
     nd \<leftarrow> node_ref nd;
     nd \<leftarrow> node_flush release nd;
     node_unref nd }"

definition index_flush :: "by_path list \<Rightarrow> by_path list option" where
  "index_flush tree = do {
     t \<leftarrow> flush_list (node_release (node_release (node_release by_keys_release))) tree;
     _ \<leftarrow> c_assert (t = []);
     Some t }"

section \<open>The contract of a level\<close>

context compare_order
begin

lemma unique: "\<lbrakk>ordered t; c \<in> set t; d \<in> set t; key_of c = key_of d\<rbrakk> \<Longrightarrow> c = d"
  using ordered_find [of t "key_of d" c] ordered_find [of t "key_of d" d] by (auto simp: ordered_def)

lemma less_key_cong:
  "\<lbrakk>ok (key_of d); ok (key_of e); key_of d = key_of d'; key_of e = key_of e'\<rbrakk> \<Longrightarrow>
     cmp (key_of d) e < 0 \<longleftrightarrow> cmp (key_of d') e' < 0"
  using cmp_anti [of d e] cmp_anti [of d e'] by simp

lemma ordered_ok: "\<lbrakk>ordered t; c \<in> set t\<rbrakk> \<Longrightarrow> ok (key_of c)"
  by (simp add: ordered_def)

lemma find_entry:
  assumes "ordered t" "ok k" "rb_find cmp k t = Some c" "d \<in> set t"
  shows "cmp k d = 0 \<longleftrightarrow> d = c"
proof -
  have c: "c \<in> set t" "key_of c = k" using assms by (simp_all add: ordered_find)
  have eq: "cmp k d = 0 \<longleftrightarrow> k = key_of d" using assms(2) ordered_ok [OF assms(1,4)] by (rule cmp_eq)
  show ?thesis
  proof
    assume "cmp k d = 0"
    then have "key_of d = key_of c" using eq c(2) by simp
    then show "d = c" by (rule unique [OF assms(1,4) c(1)])
  next
    assume "d = c"
    then show "cmp k d = 0" using eq c(2) by simp
  qed
qed

lemma ordered_map:
  assumes "ordered t" "\<And>c. c \<in> set t \<Longrightarrow> key_of (f c) = key_of c"
  shows "ordered (map f t)"
proof -
  have "sorted_wrt (\<lambda>d e. cmp (key_of d) e < 0) t" using assms(1) by (simp add: ordered_def)
  then have "sorted_wrt (\<lambda>d e. cmp (key_of (f d)) (f e) < 0) t"
  proof (rule sorted_wrt_mono_rel [rotated])
    fix d e
    assume "d \<in> set t" "e \<in> set t" "cmp (key_of d) e < 0"
    then show "cmp (key_of (f d)) (f e) < 0"
      using less_key_cong [OF ordered_ok [OF assms(1)] ordered_ok [OF assms(1)]] assms(2) by metis
  qed
  with assms show ?thesis by (auto simp: ordered_def sorted_wrt_map)
qed

lemma modify_ok:
  assumes "ordered t" "ok k" "rb_find cmp k t = Some c" "key_of c' = key_of c"
  shows "ordered (rb_modify cmp k (\<lambda>_. c') t)" "set (rb_modify cmp k (\<lambda>_. c') t) = insert c' (set t - {c})"
    "length (rb_modify cmp k (\<lambda>_. c') t) = length t"
proof -
  have c: "c \<in> set t" "key_of c = k" using assms by (simp_all add: ordered_find)
  note z = find_entry [OF assms(1-3)]
  have "rb_modify cmp k (\<lambda>_. c') t = map (\<lambda>d. if d = c then c' else d) t"
    unfolding rb_modify_def using z by (intro map_cong) auto
  with c assms(1,4) show "ordered (rb_modify cmp k (\<lambda>_. c') t)"
    "set (rb_modify cmp k (\<lambda>_. c') t) = insert c' (set t - {c})"
    by (auto intro!: ordered_map)
qed (simp add: rb_modify_def)

lemma unlink_ok:
  assumes "ordered t" "ok k" "rb_find cmp k t = Some c"
  shows "set (rb_unlink cmp k t) = set t - {c}" "length (rb_unlink cmp k t) + 1 = length t"
proof -
  have c: "c \<in> set t" "key_of c = k" using assms by (simp_all add: ordered_find)
  note z = find_entry [OF assms(1-3)]
  have f: "rb_unlink cmp k t = filter (\<lambda>d. d \<noteq> c) t"
    unfolding rb_unlink_def using z by (intro filter_cong) auto
  then show "set (rb_unlink cmp k t) = set t - {c}" by auto
  have "distinct t" using ordered_keys_distinct [OF assms(1)] by (simp add: distinct_map)
  then have "distinct (filter (\<lambda>d. d = c) t)" by simp
  from distinct_card [OF this] have "length (filter (\<lambda>d. d = c) t) = card (set (filter (\<lambda>d. d = c) t))" by simp
  also have "set (filter (\<lambda>d. d = c) t) = {c}" using c(1) by auto
  finally have "length (filter (\<lambda>d. d = c) t) = 1" by simp
  with f show "length (rb_unlink cmp k t) + 1 = length t"
    using sum_length_filter_compl [of "\<lambda>d. d = c" t] by simp
qed

end

definition env_ok :: "link_env \<Rightarrow> bool" where
  "env_ok env \<longleftrightarrow> mem_path env \<and> mem_interface env \<and> mem_member env \<and> mem_keys env"

text \<open>
  What a level promises to the level above: a child stands for a non-empty set of rules,
  all with the child's key; linking through a reference adds exactly the rule or changes
  nothing, a new child that got no rule is freed again, dropping a rule removes exactly
  it and frees the child with its last rule, and releasing the child frees it.
\<close>

locale index_child = compare_order cmp key_of ok
  for cmp :: "'k \<Rightarrow> 'c \<Rightarrow> int" and key_of :: "'c \<Rightarrow> 'k" and ok :: "'k \<Rightarrow> bool" +
  fixes kf :: "match_keys \<Rightarrow> 'k"
    and child_ok :: "'c \<Rightarrow> bool"
    and content :: "'c \<Rightarrow> (owner_id \<times> match_keys) set"
    and ref :: "'c \<Rightarrow> 'c option"
    and unref :: "'c \<Rightarrow> 'c option option"
    and fresh :: "match_keys \<Rightarrow> nat \<Rightarrow> 'c option"
    and link :: "link_env \<Rightarrow> owner_id \<Rightarrow> match_keys \<Rightarrow> nat \<Rightarrow> 'c \<Rightarrow> (bool \<times> 'c) option"
    and rel :: "owner_id \<Rightarrow> match_keys \<Rightarrow> 'c \<Rightarrow> 'c option option"
    and release :: "'c \<Rightarrow> 'c option option"
  assumes key_ok: "keys_ok keys \<Longrightarrow> ok (kf keys)"
    and child_key: "\<lbrakk>child_ok c; (ow, keys) \<in> content c\<rbrakk> \<Longrightarrow> keys_ok keys \<and> kf keys = key_of c"
    and child_nonempty: "child_ok c \<Longrightarrow> content c \<noteq> {}"
    and link_old: "\<lbrakk>child_ok c; keys_ok keys; keys_size keys \<le> n; kf keys = key_of c; (ow, keys) \<notin> content c\<rbrakk> \<Longrightarrow>
      \<exists>c0 good c1 c2. ref c = Some c0 \<and> link env ow keys n c0 = Some (good, c1) \<and> unref c1 = Some (Some c2) \<and>
        child_ok c2 \<and> key_of c2 = key_of c \<and> content c2 = (if good then insert (ow, keys) (content c) else content c) \<and>
        (\<not> good \<longrightarrow> c2 = c) \<and> (env_ok env \<longrightarrow> good)"
    and link_new: "\<lbrakk>keys_ok keys; keys_size keys \<le> n\<rbrakk> \<Longrightarrow>
      \<exists>c0 good c1 x. fresh keys n = Some c0 \<and> link env ow keys n c0 = Some (good, c1) \<and> unref c1 = Some x \<and>
        (if good then \<exists>c2. x = Some c2 \<and> child_ok c2 \<and> key_of c2 = kf keys \<and> content c2 = {(ow, keys)} else x = None) \<and>
        (env_ok env \<longrightarrow> good)"
    and rel_ok: "\<lbrakk>child_ok c; (ow, keys) \<in> content c\<rbrakk> \<Longrightarrow>
      \<exists>x. rel ow keys c = Some x \<and>
        (case x of None \<Rightarrow> content c = {(ow, keys)}
         | Some c' \<Rightarrow> child_ok c' \<and> key_of c' = key_of c \<and> content c' = content c - {(ow, keys)})"
    and release_ok: "child_ok c \<Longrightarrow> release c = Some None"
begin

definition list_ok :: "'c list \<Rightarrow> bool" where
  "list_ok t \<longleftrightarrow> ordered t \<and> (\<forall>c \<in> set t. child_ok c)"

definition contents :: "'c list \<Rightarrow> (owner_id \<times> match_keys) set" where
  "contents t = (\<Union>c \<in> set t. content c)"

lemma list_ok_Nil: "list_ok []" "contents [] = {}"
  by (simp_all add: list_ok_def contents_def ordered_Nil)

lemma contents_empty: "list_ok t \<Longrightarrow> contents t = {} \<longleftrightarrow> t = []"
  using child_nonempty by (cases t) (auto simp: list_ok_def contents_def)

lemma contents_keys: "\<lbrakk>list_ok t; (ow, keys) \<in> contents t\<rbrakk> \<Longrightarrow> keys_ok keys"
  using child_key by (auto simp: list_ok_def contents_def)

lemma contents_find:
  assumes "list_ok t" "keys_ok keys"
  shows "(ow, keys) \<in> contents t \<longleftrightarrow>
    (case rb_find cmp (kf keys) t of None \<Rightarrow> False | Some c \<Rightarrow> (ow, keys) \<in> content c)"
proof (cases "rb_find cmp (kf keys) t")
  case None
  have k: "ok (kf keys)" using assms(2) by (rule key_ok)
  with None assms have "kf keys \<notin> key_of ` set t" by (simp add: ordered_find_None list_ok_def)
  with assms None show ?thesis using child_key by (fastforce simp: contents_def list_ok_def)
next
  case (Some c)
  have k: "ok (kf keys)" using assms(2) by (rule key_ok)
  with Some assms have c: "c \<in> set t" "key_of c = kf keys" by (simp_all add: ordered_find list_ok_def)
  have "d = c" if "d \<in> set t" "(ow, keys) \<in> content d" for d
    using unique [of t d c] child_key [of d ow keys] that c assms(1) by (auto simp: list_ok_def)
  with c Some show ?thesis by (auto simp: contents_def)
qed

lemma child_link_ok:
  assumes t: "list_ok t" and keys: "keys_ok keys" "keys_size keys \<le> n" and new: "(ow, keys) \<notin> contents t"
  shows "\<exists>good t'. child_link cmp (kf keys) ref unref mem (fresh keys n) (link env ow keys n) t = Some (good, t') \<and>
    list_ok t' \<and> contents t' = (if good then insert (ow, keys) (contents t) else contents t) \<and>
    (\<not> good \<longrightarrow> t' = t) \<and> length t \<le> length t' \<and> (mem \<and> env_ok env \<longrightarrow> good)"
proof -
  have ord: "ordered t" and k: "ok (kf keys)" using t key_ok keys by (simp_all add: list_ok_def)
  show ?thesis
  proof (cases "rb_find cmp (kf keys) t")
    case (Some c)
    then have c: "c \<in> set t" "key_of c = kf keys" "child_ok c" using t k by (auto simp: ordered_find list_ok_def)
    with new have "(ow, keys) \<notin> content c" by (auto simp: contents_def)
    from link_old [OF c(3) keys c(2) [symmetric] this, of env] obtain c0 good c1 c2 where
      l: "ref c = Some c0" "link env ow keys n c0 = Some (good, c1)" "unref c1 = Some (Some c2)"
        "child_ok c2" "key_of c2 = key_of c"
        "content c2 = (if good then insert (ow, keys) (content c) else content c)" "\<not> good \<longrightarrow> c2 = c"
        "env_ok env \<longrightarrow> good"
      by blast
    note mod = modify_ok [OF ord k Some l(5)]
    have "list_ok (rb_modify cmp (kf keys) (\<lambda>_. c2) t)" using mod t l(4) by (auto simp: list_ok_def)
    moreover have "contents (rb_modify cmp (kf keys) (\<lambda>_. c2) t) = (if good then insert (ow, keys) (contents t) else contents t)"
      using mod(2) l(6) c(1) by (auto simp: contents_def)
    moreover have "rb_modify cmp (kf keys) (\<lambda>_. c2) t = t" if "\<not> good"
    proof -
      have "d = c" if "d \<in> set t" "cmp (kf keys) d = 0" for d
        using find_entry [OF ord k Some that(1)] that(2) by blast
      with l(7) that show ?thesis by (auto simp: rb_modify_def intro!: map_idI)
    qed
    ultimately show ?thesis using Some l mod(3) by (simp add: child_link_def child_put_def)
  next
    case None
    show ?thesis
    proof (cases mem)
      case False
      with None t show ?thesis by (intro exI [of _ False] exI [of _ t]) (simp add: child_link_def)
    next
      case True
      from link_new [OF keys, of env ow] obtain c0 good c1 x where
        l: "fresh keys n = Some c0" "link env ow keys n c0 = Some (good, c1)" "unref c1 = Some x"
          "if good then \<exists>c2. x = Some c2 \<and> child_ok c2 \<and> key_of c2 = kf keys \<and> content c2 = {(ow, keys)} else x = None"
          "env_ok env \<longrightarrow> good"
        by blast
      show ?thesis
      proof (cases good)
        case False
        with None True l t show ?thesis by (auto simp: child_link_def)
      next
        case g: True
        then obtain c2 where c2: "x = Some c2" "child_ok c2" "key_of c2 = kf keys" "content c2 = {(ow, keys)}"
          using l(4) by auto
        have "ordered (rb_add cmp (kf keys) c2 t)" using ordered_add [OF ord, of c2] None k c2(3) by simp
        with c2 t have "list_ok (rb_add cmp (kf keys) c2 t)" "contents (rb_add cmp (kf keys) c2 t) = insert (ow, keys) (contents t)"
          by (auto simp: list_ok_def contents_def)
        with None True l c2(1) g show ?thesis
          by (intro exI [of _ True] exI [of _ "rb_add cmp (kf keys) c2 t"]) (simp add: child_link_def)
      qed
    qed
  qed
qed

lemma child_drop_ok:
  assumes t: "list_ok t" and mem: "(ow, keys) \<in> contents t"
  shows "\<exists>t'. child_drop cmp (kf keys) (rel ow keys) t = Some t' \<and> list_ok t' \<and>
    contents t' = contents t - {(ow, keys)} \<and> (length t' = length t \<or> length t' + 1 = length t)"
proof -
  have keys: "keys_ok keys" using t mem by (rule contents_keys)
  have ord: "ordered t" and k: "ok (kf keys)" using t key_ok keys by (simp_all add: list_ok_def)
  obtain c where f: "rb_find cmp (kf keys) t = Some c" and in_c: "(ow, keys) \<in> content c"
    using contents_find [OF t keys] mem by (auto split: option.splits)
  then have c: "c \<in> set t" "key_of c = kf keys" "child_ok c" using t k by (auto simp: ordered_find list_ok_def)
  have others: "(ow, keys) \<notin> content d" if "d \<in> set t" "d \<noteq> c" for d
    using child_key [of d ow keys] unique [OF ord that(1) c(1)] that t c(2) by (auto simp: list_ok_def)
  from rel_ok [OF c(3) in_c] obtain x where
    x: "rel ow keys c = Some x" "case x of None \<Rightarrow> content c = {(ow, keys)}
      | Some c' \<Rightarrow> child_ok c' \<and> key_of c' = key_of c \<and> content c' = content c - {(ow, keys)}"
    by blast
  show ?thesis
  proof (cases x)
    case None
    note u = unlink_ok [OF ord k f]
    have "list_ok (rb_unlink cmp (kf keys) t)" using u(1) t ordered_unlink by (auto simp: list_ok_def)
    moreover have "contents (rb_unlink cmp (kf keys) t) = contents t - {(ow, keys)}"
      using u(1) x(2) None others c(1) by (auto simp: contents_def)
    ultimately show ?thesis using f x(1) None u(2) by (simp add: child_drop_def child_put_def)
  next
    case (Some c')
    then have c': "child_ok c'" "key_of c' = key_of c" "content c' = content c - {(ow, keys)}" using x(2) by simp_all
    note m = modify_ok [OF ord k f c'(2)]
    have "list_ok (rb_modify cmp (kf keys) (\<lambda>_. c') t)" using m t c'(1) by (auto simp: list_ok_def)
    moreover have "contents (rb_modify cmp (kf keys) (\<lambda>_. c') t) = contents t - {(ow, keys)}"
      using m(2) c'(3) others c(1) by (auto simp: contents_def)
    ultimately show ?thesis using f x(1) Some m(3) by (simp add: child_drop_def child_put_def)
  qed
qed

lemma flush_ok: "list_ok t \<Longrightarrow> flush_list release t = Some []"
proof -
  have "\<forall>c \<in> set t. child_ok c \<Longrightarrow> flush_list release t = Some []" by (induction t) (auto simp: release_ok)
  then show "list_ok t \<Longrightarrow> flush_list release t = Some []" by (simp add: list_ok_def)
qed

end

text \<open>A node over such children fulfils the same contract for the level above it.\<close>

context index_child
begin

definition node_ok :: "(match_keys \<Rightarrow> string) \<Rightarrow> 'c node \<Rightarrow> bool" where
  "node_ok pk nd \<longleftrightarrow> node_refs nd = length (node_children nd) \<and> node_children nd \<noteq> [] \<and>
     list_ok (node_children nd) \<and> (\<forall>(ow, keys) \<in> contents (node_children nd). pk keys = node_key nd)"

definition node_content :: "'c node \<Rightarrow> (owner_id \<times> match_keys) set" where
  "node_content nd = contents (node_children nd)"

lemma node_child_key: "\<lbrakk>node_ok pk nd; (ow, keys) \<in> node_content nd\<rbrakk> \<Longrightarrow> keys_ok keys \<and> pk keys = node_key nd"
  using contents_keys by (auto simp: node_ok_def node_content_def)

lemma node_nonempty: "node_ok pk nd \<Longrightarrow> node_content nd \<noteq> {}"
  using contents_empty by (auto simp: node_ok_def node_content_def)

lemma node_link_old:
  assumes nd: "node_ok pk nd" and keys: "keys_ok keys" "keys_size keys \<le> n" "pk keys = node_key nd"
    and new: "(ow, keys) \<notin> node_content nd" and mem: "env_ok env \<Longrightarrow> mem"
  shows "\<exists>c0 good c1 c2. node_ref nd = Some c0 \<and>
    (do { (good, t) \<leftarrow> child_link cmp (kf keys) ref unref mem (fresh keys n) (link env ow keys n) (node_children c0);
          Some (good, set_children t c0) }) = Some (good, c1) \<and>
    node_unref c1 = Some (Some c2) \<and> node_ok pk c2 \<and> node_key c2 = node_key nd \<and>
    node_content c2 = (if good then insert (ow, keys) (node_content nd) else node_content nd) \<and>
    (\<not> good \<longrightarrow> c2 = nd) \<and> (env_ok env \<longrightarrow> good)"
proof -
  have t: "list_ok (node_children nd)" and refs: "node_refs nd = length (node_children nd)" "node_children nd \<noteq> []"
    using nd by (simp_all add: node_ok_def)
  from child_link_ok [OF t keys(1,2) new [unfolded node_content_def], of mem env] obtain good t' where
    l: "child_link cmp (kf keys) ref unref mem (fresh keys n) (link env ow keys n) (node_children nd) = Some (good, t')"
      "list_ok t'" "contents t' = (if good then insert (ow, keys) (contents (node_children nd)) else contents (node_children nd))"
      "\<not> good \<longrightarrow> t' = node_children nd" "length (node_children nd) \<le> length t'" "mem \<and> env_ok env \<longrightarrow> good"
    by blast
  let ?c0 = "nd\<lparr>node_refs := node_refs nd + 1\<rparr>" and ?c2 = "nd\<lparr>node_children := t', node_refs := length t'\<rparr>"
  have "node_ref nd = Some ?c0" using refs by (simp add: node_ref_def)
  moreover have "t' \<noteq> []" using l(5) refs(2) by auto
  then have "node_unref (set_children t' ?c0) = Some (Some ?c2)"
    using refs(1) by (cases t') (simp_all add: node_unref_def set_children_def)
  moreover have "node_ok pk ?c2"
    using nd keys(3) l(2,3) \<open>t' \<noteq> []\<close> by (auto simp: node_ok_def split: if_splits)
  moreover have "?c2 = nd" if "\<not> good" using that l(4) refs(1) by simp
  ultimately show ?thesis using l mem by (auto simp: node_content_def)
qed

lemma node_link_new:
  assumes keys: "keys_ok keys" "keys_size keys \<le> n" and pk: "pk keys = key_str v" and mem: "env_ok env \<Longrightarrow> mem"
  shows "\<exists>good c1 x.
    (do { (good, t) \<leftarrow> child_link cmp (kf keys) ref unref mem (fresh keys n) (link env ow keys n) (node_children (node_new v));
          Some (good, set_children t (node_new v)) }) = Some (good, c1) \<and> node_unref c1 = Some x \<and>
    (if good then \<exists>c2. x = Some c2 \<and> node_ok pk c2 \<and> node_key c2 = pk keys \<and> node_content c2 = {(ow, keys)} else x = None) \<and>
    (env_ok env \<longrightarrow> good)"
proof -
  have "(ow, keys) \<notin> contents []" by (simp add: list_ok_Nil)
  from child_link_ok [OF list_ok_Nil(1) keys this, of mem env, unfolded list_ok_Nil(2)] obtain good t' where
    l: "child_link cmp (kf keys) ref unref mem (fresh keys n) (link env ow keys n) [] = Some (good, t')"
      "list_ok t'" "contents t' = (if good then {(ow, keys)} else {})" "mem \<and> env_ok env \<longrightarrow> good"
    by blast
  have ne: "t' = [] \<longleftrightarrow> \<not> good" using contents_empty [OF l(2)] l(3) by auto
  let ?c2 = "\<lparr>node_refs = length t', node_children = t', node_key = key_str v\<rparr>"
  have "node_unref (set_children t' (node_new v)) = Some (if good then Some ?c2 else None)"
    using ne by (cases t') (auto simp: node_unref_def set_children_def node_new_def)
  moreover have "node_ok pk ?c2" "node_content ?c2 = {(ow, keys)}" if good
    using that l(2,3) ne pk by (auto simp: node_ok_def node_content_def)
  ultimately show ?thesis using l mem pk by (auto simp: node_new_def)
qed

lemma node_rel_ok:
  assumes nd: "node_ok pk nd" and mem: "(ow, keys) \<in> node_content nd"
  shows "\<exists>x. (do { t \<leftarrow> child_drop cmp (kf keys) (rel ow keys) (node_children nd); node_drop t nd }) = Some x \<and>
    (case x of None \<Rightarrow> node_content nd = {(ow, keys)}
     | Some c' \<Rightarrow> node_ok pk c' \<and> node_key c' = node_key nd \<and> node_content c' = node_content nd - {(ow, keys)})"
proof -
  have t: "list_ok (node_children nd)" and refs: "node_refs nd = length (node_children nd)" "node_children nd \<noteq> []"
    using nd by (simp_all add: node_ok_def)
  from child_drop_ok [OF t mem [unfolded node_content_def]] obtain t' where
    d: "child_drop cmp (kf keys) (rel ow keys) (node_children nd) = Some t'" "list_ok t'"
      "contents t' = contents (node_children nd) - {(ow, keys)}"
      "length t' = length (node_children nd) \<or> length t' + 1 = length (node_children nd)"
    by blast
  show ?thesis
  proof (cases "t' = []")
    case True
    then have "length (node_children nd) = 1" "contents (node_children nd) = {(ow, keys)}"
      using d(3,4) refs(2) mem contents_empty [OF d(2)] by (auto simp: node_content_def)
    with True d(1) refs(1) show ?thesis by (simp add: node_drop_def node_unref_def node_content_def)
  next
    case False
    have "node_drop t' nd = Some (Some (nd\<lparr>node_children := t', node_refs := length t'\<rparr>))"
      using False d(4) refs(1) by (cases t') (auto simp: node_drop_def node_unref_def)
    moreover have "node_ok pk (nd\<lparr>node_children := t', node_refs := length t'\<rparr>)"
      using nd False d(2,3) by (auto simp: node_ok_def)
    ultimately show ?thesis using d(1,3) by (simp add: node_content_def)
  qed
qed

lemma node_release_ok: "node_ok pk nd \<Longrightarrow> node_release release nd = Some None"
  using flush_ok [of "node_children nd"]
  by (simp add: node_ok_def node_release_def node_flush_def node_ref_def node_unref_def set_children_def)

end

section \<open>The four levels\<close>

definition by_keys_ok :: "by_keys \<Rightarrow> bool" where
  "by_keys_ok bk \<longleftrightarrow> keys_ok (bk_keys bk) \<and> bk_refs bk = length (bk_rules bk) \<and> bk_rules bk \<noteq> [] \<and> distinct (bk_rules bk)"

definition by_keys_content :: "by_keys \<Rightarrow> (owner_id \<times> match_keys) set" where
  "by_keys_content bk = {(ow, bk_keys bk) |ow. ow \<in> set (bk_rules bk)}"

lemma flush_rules_ok:
  "\<lbrakk>distinct rules; bk_rules bk = rules; bk_refs bk = Suc (length rules)\<rbrakk> \<Longrightarrow>
     flush_rules rules bk = Some (bk\<lparr>bk_rules := [], bk_refs := 1\<rparr>)"
proof (induction rules arbitrary: bk)
  case (Cons ow rules)
  have "by_keys_drop ow bk = Some (Some (bk\<lparr>bk_rules := rules, bk_refs := Suc (length rules)\<rparr>))"
    using Cons.prems by (simp add: by_keys_drop_def match_registry_by_keys_unref_def removeAll_id)
  with Cons.IH [of "bk\<lparr>bk_rules := rules, bk_refs := Suc (length rules)\<rparr>"] Cons.prems show ?case by simp
qed simp

interpretation by_keys_level: index_child
  match_registry_by_keys_compare bk_keys keys_ok "\<lambda>keys. keys" by_keys_ok by_keys_content
  match_registry_by_keys_ref match_registry_by_keys_unref match_registry_by_keys_new
  "\<lambda>env ow keys n bk. map_option (Pair True) (match_rule_link_by_keys ow bk)" "\<lambda>ow keys. by_keys_drop ow" by_keys_release
proof (unfold_locales, goal_cases)
  case (1 k e)
  then show ?case by (simp add: match_registry_by_keys_compare_def match_keys_compare_zero)
next
  case (2 d e)
  then show ?case by (simp add: match_registry_by_keys_compare_def match_keys_compare_anti)
next
  case (3 k d e)
  then show ?case unfolding match_registry_by_keys_compare_def by (rule match_keys_compare_trans)
next
  case (7 c keys n ow env)
  then show ?case
    by (auto simp: by_keys_ok_def by_keys_content_def match_registry_by_keys_ref_def match_registry_by_keys_unref_def
        match_rule_link_by_keys_def)
next
  case (8 keys n env ow)
  then show ?case
    by (auto simp: match_registry_by_keys_new_def match_keys_clone_ok by_keys_ok_def by_keys_content_def
        match_registry_by_keys_ref_def match_registry_by_keys_unref_def match_rule_link_by_keys_def)
next
  case (9 c ow keys)
  then have ow: "ow \<in> set (bk_rules c)" "keys = bk_keys c" by (auto simp: by_keys_content_def)
  have d: "distinct (bk_rules c)" "bk_refs c = length (bk_rules c)" using 9 by (simp_all add: by_keys_ok_def)
  then have len: "length (removeAll ow (bk_rules c)) + 1 = length (bk_rules c)"
    using ow(1) length_pos_if_in_set [OF ow(1)] by (simp add: distinct_remove1_removeAll [symmetric] length_remove1)
  show ?case
  proof (cases "removeAll ow (bk_rules c) = []")
    case True
    then have "bk_rules c = [ow]" using len ow(1) by (cases "bk_rules c") auto
    with True d(2) ow(2) show ?thesis
      by (simp add: by_keys_drop_def match_registry_by_keys_unref_def by_keys_content_def)
  next
    case False
    then have "0 < length (removeAll ow (bk_rules c))" by (simp only: length_greater_0_conv not_False_eq_True)
    then have two: "Suc 0 < bk_refs c" and r: "bk_refs c - Suc 0 = length (removeAll ow (bk_rules c))"
      using len d(2) by linarith+
    have "by_keys_drop ow c =
        Some (Some (c\<lparr>bk_rules := removeAll ow (bk_rules c), bk_refs := length (removeAll ow (bk_rules c))\<rparr>))"
      using two r False by (simp add: by_keys_drop_def match_registry_by_keys_unref_def)
    with False 9 d(1) ow(2) show ?thesis
      by (auto simp: by_keys_ok_def by_keys_content_def distinct_removeAll)
  qed
next
  case (10 c)
  then show ?case
    using flush_rules_ok [of "bk_rules c" "c\<lparr>bk_refs := bk_refs c + 1\<rparr>"]
    by (simp add: by_keys_release_def match_registry_by_keys_ref_def match_registry_by_keys_flush_def
        match_registry_by_keys_unref_def by_keys_ok_def)
qed (auto simp: by_keys_ok_def by_keys_content_def)

lemma node_order: "compare_order node_compare node_key (\<lambda>_. True)"
  by unfold_locales (auto simp: node_compare_def)

abbreviation member_of :: "match_keys \<Rightarrow> string" where
  "member_of keys \<equiv> key_str (f_member (k_filter keys))"

abbreviation interface_of :: "match_keys \<Rightarrow> string" where
  "interface_of keys \<equiv> key_str (f_interface (k_filter keys))"

abbreviation path_of :: "match_keys \<Rightarrow> string" where
  "path_of keys \<equiv> key_str (f_path (k_filter keys))"

interpretation by_member_level: index_child
  node_compare node_key "\<lambda>_. True" member_of "by_keys_level.node_ok member_of" by_keys_level.node_content
  node_ref node_unref "\<lambda>keys n. Some (node_new (f_member (k_filter keys)))"
  match_rule_link_by_member by_member_drop "node_release by_keys_release"
proof (intro index_child.intro node_order index_child_axioms.intro, goal_cases)
  case (2 c ow keys)
  then show ?case by (rule by_keys_level.node_child_key)
next
  case (3 c)
  then show ?case by (rule by_keys_level.node_nonempty)
next
  case (4 c keys n ow env)
  then show ?case
    using by_keys_level.node_link_old [of member_of c keys n ow env "mem_keys env"]
    by (auto simp: match_rule_link_by_member_def env_ok_def)
next
  case (5 keys n env ow)
  then show ?case
    using by_keys_level.node_link_new [of keys n member_of "f_member (k_filter keys)" env "mem_keys env" ow]
    by (auto simp: match_rule_link_by_member_def env_ok_def)
next
  case (6 c ow keys)
  then show ?case unfolding by_member_drop_def by (rule by_keys_level.node_rel_ok)
next
  case (7 c)
  then show ?case by (rule by_keys_level.node_release_ok)
qed simp

interpretation by_interface_level: index_child
  node_compare node_key "\<lambda>_. True" interface_of "by_member_level.node_ok interface_of" by_member_level.node_content
  node_ref node_unref "\<lambda>keys n. Some (node_new (f_interface (k_filter keys)))"
  match_rule_link_by_interface by_interface_drop "node_release (node_release by_keys_release)"
proof (intro index_child.intro node_order index_child_axioms.intro, goal_cases)
  case (2 c ow keys)
  then show ?case by (rule by_member_level.node_child_key)
next
  case (3 c)
  then show ?case by (rule by_member_level.node_nonempty)
next
  case (4 c keys n ow env)
  then show ?case
    using by_member_level.node_link_old [of interface_of c keys n ow env "mem_member env"]
    by (auto simp: match_rule_link_by_interface_def env_ok_def)
next
  case (5 keys n env ow)
  then show ?case
    using by_member_level.node_link_new [of keys n interface_of "f_interface (k_filter keys)" env "mem_member env" ow]
    by (auto simp: match_rule_link_by_interface_def env_ok_def)
next
  case (6 c ow keys)
  then show ?case unfolding by_interface_drop_def by (rule by_member_level.node_rel_ok)
next
  case (7 c)
  then show ?case by (rule by_member_level.node_release_ok)
qed simp

interpretation by_path_level: index_child
  node_compare node_key "\<lambda>_. True" path_of "by_interface_level.node_ok path_of" by_interface_level.node_content
  node_ref node_unref "\<lambda>keys n. Some (node_new (f_path (k_filter keys)))"
  match_rule_link_by_path by_path_drop "node_release (node_release (node_release by_keys_release))"
proof (intro index_child.intro node_order index_child_axioms.intro, goal_cases)
  case (2 c ow keys)
  then show ?case by (rule by_interface_level.node_child_key)
next
  case (3 c)
  then show ?case by (rule by_interface_level.node_nonempty)
next
  case (4 c keys n ow env)
  then show ?case
    using by_interface_level.node_link_old [of path_of c keys n ow env "mem_interface env"]
    by (auto simp: match_rule_link_by_path_def env_ok_def)
next
  case (5 keys n env ow)
  then show ?case
    using by_interface_level.node_link_new [of keys n path_of "f_path (k_filter keys)" env "mem_interface env" ow]
    by (auto simp: match_rule_link_by_path_def env_ok_def)
next
  case (6 c ow keys)
  then show ?case unfolding by_path_drop_def by (rule by_interface_level.node_rel_ok)
next
  case (7 c)
  then show ?case by (rule by_interface_level.node_release_ok)
qed simp

section \<open>Lookup is exact\<close>

lemma by_keys_destinations:
  "set (match_registry_by_keys_get_destinations rules ds) = set ds \<union> set rules"
  "distinct ds \<Longrightarrow> distinct (match_registry_by_keys_get_destinations rules ds)"
  by (induction rules ds rule: match_registry_by_keys_get_destinations.induct) auto

lemma by_keys_list_destinations_ok:
  "set (by_keys_list_destinations md t ds) =
     set ds \<union> {ow. \<exists>keys. (ow, keys) \<in> by_keys_level.contents t \<and> match_keys_match_metadata keys md}"
  "distinct ds \<Longrightarrow> distinct (by_keys_list_destinations md t ds)"
  by (induction md t ds rule: by_keys_list_destinations.induct)
    (auto simp: by_keys_level.contents_def by_keys_content_def by_keys_destinations)

interpretation node_index: compare_order node_compare node_key "\<lambda>_. True"
  by (rule node_order)

lemma child_destinations_ok:
  assumes ord: "node_index.ordered t"
    and lookup: "\<And>nd ds. nd \<in> set t \<Longrightarrow> set (lookup nd ds) = set ds \<union> {ow. \<exists>keys. (ow, keys) \<in> cont nd \<and> M keys}"
    and keyed: "\<And>nd ow keys. \<lbrakk>nd \<in> set t; (ow, keys) \<in> cont nd\<rbrakk> \<Longrightarrow> key_str (fld keys) = node_key nd"
    and M: "\<And>keys v'. \<lbrakk>M keys; fld keys = Some v'\<rbrakk> \<Longrightarrow> v = Some v'"
  shows "set (child_destinations v lookup t ds) =
    set ds \<union> {ow. \<exists>nd \<in> set t. \<exists>keys. (ow, keys) \<in> cont nd \<and> M keys}"
proof -
  let ?D = "\<lambda>k. {ow. \<exists>nd \<in> set t. node_key nd = k \<and> (\<exists>keys. (ow, keys) \<in> cont nd \<and> M keys)}"
  have one: "set (case rb_find node_compare k t of None \<Rightarrow> ds | Some nd \<Rightarrow> lookup nd ds) = set ds \<union> ?D k" for k ds
  proof (cases "rb_find node_compare k t")
    case None
    then have "k \<notin> node_key ` set t" using node_index.ordered_find_None [OF ord TrueI, of k] by simp
    with None show ?thesis by auto
  next
    case (Some nd)
    then have nd: "nd \<in> set t" "node_key nd = k" using node_index.ordered_find [OF ord TrueI, of k] by auto
    then have "?D k = {ow. \<exists>keys. (ow, keys) \<in> cont nd \<and> M keys}"
      using node_index.unique [OF ord] by blast
    with Some nd lookup show ?thesis by simp
  qed
  have cover: "nd \<in> set t \<Longrightarrow> (ow, keys) \<in> cont nd \<Longrightarrow> M keys \<Longrightarrow> node_key nd = [] \<or> v = Some (node_key nd)" for nd ow keys
    using keyed [of nd ow keys] M [of keys] by (cases "fld keys") (auto simp: key_str_def)
  have "set (child_destinations v lookup t ds) =
      set ds \<union> ?D [] \<union> (case v of None \<Rightarrow> {} | Some s \<Rightarrow> ?D s)"
    using one [of "[]"] one by (cases v) (simp_all add: child_destinations_def key_str_def Let_def)
  also have "\<dots> = set ds \<union> {ow. \<exists>nd \<in> set t. \<exists>keys. (ow, keys) \<in> cont nd \<and> M keys}"
    using cover by (cases v) (auto; fastforce)+
  finally show ?thesis .
qed

lemma child_destinations_distinct:
  assumes "\<And>nd ds. distinct ds \<Longrightarrow> distinct (lookup nd ds)" "distinct ds"
  shows "distinct (child_destinations v lookup t ds)"
  using assms by (auto simp: child_destinations_def Let_def split: option.splits)

text \<open>
  The contract of a lookup on one level; it carries over to the list of children that
  the level above searches.
\<close>

locale index_lookup = index_child node_compare node_key "\<lambda>_. True" "\<lambda>keys. key_str (fld keys)"
    child_ok content ref unref fresh link rel release
  for fld :: "match_keys \<Rightarrow> string option" and child_ok :: "'c node \<Rightarrow> bool" and content ref unref fresh link rel release +
  fixes lookup :: "message_metadata \<Rightarrow> 'c node \<Rightarrow> owner_id list \<Rightarrow> owner_id list"
    and sel :: "message_metadata \<Rightarrow> string option"
  assumes lookup_ok: "child_ok nd \<Longrightarrow> set (lookup md nd ds) =
      set ds \<union> {ow. \<exists>keys. (ow, keys) \<in> content nd \<and> match_keys_match_metadata keys md}"
    and lookup_distinct: "distinct ds \<Longrightarrow> distinct (lookup md nd ds)"
    and sel: "\<lbrakk>keys_ok keys; match_keys_match_metadata keys md; fld keys = Some v\<rbrakk> \<Longrightarrow> sel md = Some v"
begin

lemma list_lookup:
  assumes t: "list_ok t"
  shows "set (child_destinations (sel md) (lookup md) t ds) =
    set ds \<union> {ow. \<exists>keys. (ow, keys) \<in> contents t \<and> match_keys_match_metadata keys md}"
proof -
  let ?M = "\<lambda>keys. keys_ok keys \<and> match_keys_match_metadata keys md"
  have c: "child_ok c" if "c \<in> set t" for c using t that by (simp add: list_ok_def)
  have ok: "keys_ok keys" if "c \<in> set t" "(ow, keys) \<in> content c" for c ow keys
    using child_key [OF c [OF that(1)] that(2)] by blast
  have "set (child_destinations (sel md) (lookup md) t ds) =
      set ds \<union> {ow. \<exists>c \<in> set t. \<exists>keys. (ow, keys) \<in> content c \<and> ?M keys}"
  proof (rule child_destinations_ok [where fld = fld])
    show "ordered t" using t by (simp add: list_ok_def)
    show "set (lookup md nd ds) = set ds \<union> {ow. \<exists>keys. (ow, keys) \<in> content nd \<and> ?M keys}"
      if "nd \<in> set t" for nd ds using lookup_ok [OF c [OF that]] ok [OF that] by blast
    show "key_str (fld keys) = node_key nd" if "nd \<in> set t" "(ow, keys) \<in> content nd" for nd ow keys
      using child_key [OF c [OF that(1)] that(2)] by simp
  qed (use sel in blast)
  also have "\<dots> = set ds \<union> {ow. \<exists>keys. (ow, keys) \<in> contents t \<and> match_keys_match_metadata keys md}"
    using ok by (fastforce simp: contents_def)
  finally show ?thesis .
qed

lemma list_lookup_distinct: "distinct ds \<Longrightarrow> distinct (child_destinations (sel md) (lookup md) t ds)"
  by (rule child_destinations_distinct) (auto simp: lookup_distinct)

end

lemma match_fields:
  assumes "keys_ok keys" "match_keys_match_metadata keys md"
  shows "f_path (k_filter keys) = Some v \<Longrightarrow> md_path md = Some v"
    "f_interface (k_filter keys) = Some v \<Longrightarrow> md_interface md = Some v"
    "f_member (k_filter keys) = Some v \<Longrightarrow> md_member md = Some v"
  using assms by (simp_all add: match_metadata_iff matches_code_def)

interpretation member_lookup: index_lookup "\<lambda>keys. f_member (k_filter keys)"
  "by_keys_level.node_ok member_of" by_keys_level.node_content
  node_ref node_unref "\<lambda>keys n. Some (node_new (f_member (k_filter keys)))"
  match_rule_link_by_member by_member_drop "node_release by_keys_release"
  match_registry_by_member_get_destinations md_member
proof (intro index_lookup.intro by_member_level.index_child_axioms index_lookup_axioms.intro, goal_cases)
  case (3 keys md v)
  then show ?case by (rule match_fields(3))
qed (simp_all add: match_registry_by_member_get_destinations_def by_keys_list_destinations_ok by_keys_level.node_content_def)

interpretation interface_lookup: index_lookup "\<lambda>keys. f_interface (k_filter keys)"
  "by_member_level.node_ok interface_of" by_member_level.node_content
  node_ref node_unref "\<lambda>keys n. Some (node_new (f_interface (k_filter keys)))"
  match_rule_link_by_interface by_interface_drop "node_release (node_release by_keys_release)"
  match_registry_by_interface_get_destinations md_interface
proof (intro index_lookup.intro by_interface_level.index_child_axioms index_lookup_axioms.intro, goal_cases)
  case (1 nd md ds)
  then show ?case
    unfolding match_registry_by_interface_get_destinations_def by_member_level.node_content_def
    by (intro member_lookup.list_lookup) (simp add: by_member_level.node_ok_def)
next
  case (2 ds md nd)
  then show ?case
    unfolding match_registry_by_interface_get_destinations_def by (rule member_lookup.list_lookup_distinct)
next
  case (3 keys md v)
  then show ?case by (rule match_fields(2))
qed

interpretation path_lookup: index_lookup "\<lambda>keys. f_path (k_filter keys)"
  "by_interface_level.node_ok path_of" by_interface_level.node_content
  node_ref node_unref "\<lambda>keys n. Some (node_new (f_path (k_filter keys)))"
  match_rule_link_by_path by_path_drop "node_release (node_release (node_release by_keys_release))"
  match_registry_by_path_get_destinations md_path
proof (intro index_lookup.intro by_path_level.index_child_axioms index_lookup_axioms.intro, goal_cases)
  case (1 nd md ds)
  then show ?case
    unfolding match_registry_by_path_get_destinations_def by_interface_level.node_content_def
    by (intro interface_lookup.list_lookup) (simp add: by_interface_level.node_ok_def)
next
  case (2 ds md nd)
  then show ?case
    unfolding match_registry_by_path_get_destinations_def by (rule interface_lookup.list_lookup_distinct)
next
  case (3 keys md v)
  then show ?case by (rule match_fields(1))
qed

section \<open>Properties of the index\<close>

text \<open>The rules an index stands for.\<close>

definition index_ok :: "by_path list \<Rightarrow> bool" where
  "index_ok tree \<longleftrightarrow> by_path_level.list_ok tree"

definition index_rules :: "by_path list \<Rightarrow> (owner_id \<times> match_keys) set" where
  "index_rules tree = by_path_level.contents tree"

lemma index_empty: "index_ok []" "index_rules [] = {}"
  by (simp_all add: index_ok_def index_rules_def by_path_level.list_ok_Nil)

lemma index_link_ok:
  assumes "index_ok tree" "keys_ok keys" "keys_size keys \<le> n" "(ow, keys) \<notin> index_rules tree"
  shows "\<exists>good tree'. index_link env ow keys n tree = Some (good, tree') \<and> index_ok tree' \<and>
    index_rules tree' = (if good then insert (ow, keys) (index_rules tree) else index_rules tree) \<and>
    (\<not> good \<longrightarrow> tree' = tree) \<and> (env_ok env \<longrightarrow> good)"
proof -
  have "env_ok env \<Longrightarrow> mem_path env" by (simp add: env_ok_def)
  with by_path_level.child_link_ok [of tree keys n ow "mem_path env" env] assms show ?thesis
    unfolding index_ok_def index_rules_def index_link_def by blast
qed

lemma index_unlink_ok:
  assumes "index_ok tree" "(ow, keys) \<in> index_rules tree"
  shows "\<exists>tree'. index_unlink ow keys tree = Some tree' \<and> index_ok tree' \<and> index_rules tree' = index_rules tree - {(ow, keys)}"
  using by_path_level.child_drop_ok [of tree ow keys] assms
  by (auto simp: index_ok_def index_rules_def index_unlink_def)

lemma index_rules_empty: "index_ok tree \<Longrightarrow> index_rules tree = {} \<longleftrightarrow> tree = []"
  unfolding index_ok_def index_rules_def by (rule by_path_level.contents_empty)

text \<open>
  C19: subscribers are found exactly. For every well-formed index, the destinations of a
  message are the ones that were already collected and the owners of exactly those linked
  rules that match the message, each owner once: looking only at the empty and at the
  message's own path, interface and member misses no rule and adds none.
\<close>
theorem match_registry_get_destinations_exact:
  assumes "index_ok tree" "distinct ds"
  shows "set (match_registry_get_destinations tree ds md) =
      set ds \<union> {ow. \<exists>keys. (ow, keys) \<in> index_rules tree \<and> match_keys_match_metadata keys md} \<and>
    distinct (match_registry_get_destinations tree ds md)"
  using assms path_lookup.list_lookup [of tree md ds] path_lookup.list_lookup_distinct [of ds md tree]
  by (simp add: index_ok_def index_rules_def match_registry_get_destinations_def)

text \<open>
  Linking a rule. Linking a rule with well-formed keys that is not linked yet never
  fails an assertion, whichever of the four allocations fail, and keeps the index
  well-formed. If it succeeds, the index has exactly this rule more; if it fails, the
  index is exactly what it was, with all nodes that were created on the way freed again
  and all reference counts restored; it succeeds if memory is available.
\<close>
theorem match_rule_link_atomic:
  assumes "index_ok tree" "keys_ok keys" "keys_size keys \<le> n" "(ow, keys) \<notin> index_rules tree"
  shows "\<exists>good tree'. index_link env ow keys n tree = Some (good, tree') \<and> index_ok tree' \<and>
    (good \<longrightarrow> index_rules tree' = insert (ow, keys) (index_rules tree)) \<and>
    (\<not> good \<longrightarrow> tree' = tree) \<and> (env_ok env \<longrightarrow> good)"
  using index_link_ok [OF assms] by fastforce

text \<open>
  C21: unlinking a rule. Unlinking a linked rule never fails an assertion, removes exactly
  this rule, and leaves no empty node behind: after the last rule is unlinked the index is
  empty. Flushing an index unlinks everything without failing an assertion.
\<close>
theorem match_rule_unlink_cascade:
  assumes "index_ok tree" "(ow, keys) \<in> index_rules tree"
  shows "(\<exists>tree'. index_unlink ow keys tree = Some tree' \<and> index_ok tree' \<and>
      index_rules tree' = index_rules tree - {(ow, keys)} \<and>
      (index_rules tree = {(ow, keys)} \<longrightarrow> tree' = [])) \<and>
    index_flush tree = Some []"
proof -
  from index_unlink_ok [OF assms] obtain t' where
    "index_unlink ow keys tree = Some t'" "index_ok t'" "index_rules t' = index_rules tree - {(ow, keys)}" by blast
  moreover have "index_flush tree = Some []"
    using by_path_level.flush_ok [of tree] assms(1) by (simp add: index_ok_def index_flush_def)
  ultimately show ?thesis using index_rules_empty by auto
qed

definition full_memory :: link_env where
  "full_memory = \<lparr>mem_path = True, mem_interface = True, mem_member = True, mem_keys = True\<rparr>"

lemma wildcard_fresh:
  "keys_ok MATCH_KEYS_NULL" "keys_size MATCH_KEYS_NULL \<le> 0" "(7, MATCH_KEYS_NULL) \<notin> index_rules []"
  by (simp_all add: match_keys_null_ok index_empty)

lemma wildcard_index: "\<exists>tree. index_ok tree \<and> index_rules tree = {(7, MATCH_KEYS_NULL)}"
  using index_link_ok [OF index_empty(1) wildcard_fresh, of full_memory]
  by (auto simp: index_empty env_ok_def full_memory_def)

theorem match_registry_get_destinations_exact_witness:
  "\<exists>tree. index_ok tree \<and>
     set (match_registry_get_destinations tree [] sample_metadata) =
       {ow. \<exists>keys. (ow, keys) \<in> {(7, MATCH_KEYS_NULL)} \<and> match_keys_match_metadata keys sample_metadata}"
proof -
  obtain tree where t: "index_ok tree" "index_rules tree = {(7, MATCH_KEYS_NULL)}" using wildcard_index by blast
  have "distinct ([] :: owner_id list)" by simp
  from match_registry_get_destinations_exact [OF t(1) this, of sample_metadata] t show ?thesis by auto
qed

theorem match_rule_link_atomic_witness:
  "\<exists>tree'. index_link full_memory 7 MATCH_KEYS_NULL 0 [] = Some (True, tree') \<and> index_rules tree' = {(7, MATCH_KEYS_NULL)}"
  using match_rule_link_atomic [OF index_empty(1) wildcard_fresh, of full_memory]
  by (auto simp: index_empty env_ok_def full_memory_def)

theorem match_rule_unlink_cascade_witness:
  "\<exists>tree. index_rules tree = {(7, MATCH_KEYS_NULL)} \<and> index_unlink 7 MATCH_KEYS_NULL tree = Some [] \<and> index_flush tree = Some []"
proof -
  obtain tree where t: "index_ok tree" "index_rules tree = {(7, MATCH_KEYS_NULL)}" using wildcard_index by blast
  then have "(7, MATCH_KEYS_NULL) \<in> index_rules tree" by simp
  from match_rule_unlink_cascade [OF t(1) this] t(2) show ?thesis by auto
qed

end
