(* ===== verification/Match.thy ===== *)
theory Match
  imports MatchIndex
begin

text \<open>
  Match rules, third part (\<open>src/bus/match.h\<close>, \<open>src/bus/match.c\<close>): the rule objects with
  their user references and charges, the owners that hold them, and the registries they
  are linked into.

  A rule is in the tree of its owner and is identified by the owner and its keys; at most
  one registry refers to it. \<open>match_world\<close> holds all owners, all registries (of
  the bus, of the names and of the peers) and the counters of the bus.
  \<open>counters\<close> arguments are either NULL or the counters of the bus, hence a boolean.
  \<open>rule_size\<close> is \<open>sizeof(MatchRule)\<close>. The list through which an owner is linked into a
  set of destinations is local to a lookup and part of \<open>MatchIndex\<close>.
\<close>

section \<open>Objects\<close>

text \<open>
  Where a registry is embedded: the bus has one for rules without a sender and one for rules
  on its own signals, every peer and every name has one for the messages it sends and one for
  the changes of its owner.
\<close>

datatype reg_id = WILDCARD_MATCHES | DRIVER_MATCHES
  | PEER_SENDER_MATCHES owner_id | PEER_NAME_OWNER_CHANGED_MATCHES owner_id
  | NAME_SENDER_MATCHES string | NAME_NAME_OWNER_CHANGED_MATCHES string

record match_rule =
  n_user_refs :: nat
  rule_registry :: "(reg_id \<times> bool) option"
  rule_counted :: bool
  rule_charge0 :: user_charge
  rule_charge1 :: user_charge
  rule_keys :: match_keys
  rule_n_buffer :: nat

record match_owner =
  n_owner_subscriptions :: u64
  rule_tree :: "match_rule list"

record match_registry =
  subscription_tree :: "by_path list"
  monitor_tree :: "by_path list"

record match_counters =
  n_subscriptions :: u64
  n_subscriptions_peak :: u64
  n_owner_subscriptions_peak :: u64

record match_world =
  match_owners :: "owner_id \<Rightarrow> match_owner"
  match_registries :: "reg_id \<Rightarrow> match_registry"
  match_counts :: match_counters

record match_env =
  mem_rule :: bool
  mem_usage0 :: bool
  mem_usage1 :: bool
  rule_log :: bool
  rule_size :: nat

definition upd_owner_rules :: "owner_id \<Rightarrow> (match_rule list \<Rightarrow> match_rule list) \<Rightarrow> match_world \<Rightarrow> match_world" where
  "upd_owner_rules ow f w = w\<lparr>match_owners := (match_owners w)(ow :=
     (match_owners w ow)\<lparr>rule_tree := f (rule_tree (match_owners w ow))\<rparr>)\<rparr>"

definition upd_owner_count :: "owner_id \<Rightarrow> (u64 \<Rightarrow> u64) \<Rightarrow> match_world \<Rightarrow> match_world" where
  "upd_owner_count ow f w = w\<lparr>match_owners := (match_owners w)(ow :=
     (match_owners w ow)\<lparr>n_owner_subscriptions := f (n_owner_subscriptions (match_owners w ow))\<rparr>)\<rparr>"

definition reg_tree :: "match_world \<Rightarrow> reg_id \<Rightarrow> bool \<Rightarrow> by_path list" where
  "reg_tree w reg monitor =
     (if monitor then monitor_tree (match_registries w reg) else subscription_tree (match_registries w reg))"

definition set_reg_tree :: "reg_id \<Rightarrow> bool \<Rightarrow> by_path list \<Rightarrow> match_world \<Rightarrow> match_world" where
  "set_reg_tree reg monitor t w = w\<lparr>match_registries := (match_registries w)(reg :=
     (if monitor then (match_registries w reg)\<lparr>monitor_tree := t\<rparr>
      else (match_registries w reg)\<lparr>subscription_tree := t\<rparr>))\<rparr>"

section \<open>Rules\<close>

definition match_rule_compare :: "match_keys \<Rightarrow> match_rule \<Rightarrow> int" where
  "match_rule_compare keys r = match_keys_compare keys (rule_keys r)"

definition put_rule :: "owner_id \<Rightarrow> match_rule \<Rightarrow> match_world \<Rightarrow> match_world" where
  "put_rule ow r = upd_owner_rules ow (rb_modify match_rule_compare (rule_keys r) (\<lambda>_. r))"

text \<open>The part of \<open>match_rule_free\<close> that concerns the accounting.\<close>

definition match_rule_discharge :: "user_registry \<Rightarrow> user_charge \<Rightarrow> user_charge \<Rightarrow> user_registry option" where
  "match_rule_discharge us c0 c1 = do {
     (_, us) \<leftarrow> user_charge_deinit us c1;
     (_, us) \<leftarrow> user_charge_deinit us c0;
     Some us }"

definition match_rule_new ::
  "match_env \<Rightarrow> user_registry \<Rightarrow> uid option \<Rightarrow> string \<Rightarrow> bool \<Rightarrow> ((match_error + match_rule) \<times> user_registry) option" where
  "match_rule_new env us user s allow_eavesdrop =
     (let n_string = length s + 1 in
      if n_string - 1 > MATCH_RULE_LENGTH_MAX then Some (Inl MATCH_E_INVALID, us)
      else if \<not> mem_rule env then Some (Inl MATCH_ENOMEM, us)
      else do {
        (r, c0, us) \<leftarrow> user_charge (mem_usage0 env) (rule_log env) us user user_charge_init None
           USER_SLOT_BYTES (of_nat (rule_size env + n_string));
        (r, c1, us) \<leftarrow> (if r \<noteq> USER_OK then Some (r, user_charge_init, us)
           else user_charge (mem_usage1 env) (rule_log env) us user user_charge_init None USER_SLOT_MATCHES 1);
        if r \<noteq> USER_OK
        then do {
          us \<leftarrow> match_rule_discharge us c0 c1;
          Some (Inl (if r = USER_E_QUOTA then MATCH_E_QUOTA else MATCH_ERR r), us) }
        else do {
          k \<leftarrow> match_keys_init s n_string allow_eavesdrop;
          case k of
            Inl e \<Rightarrow> do { us \<leftarrow> match_rule_discharge us c0 c1; Some (Inl e, us) }
          | Inr (keys, n) \<Rightarrow>
              Some (Inr \<lparr>n_user_refs = 0, rule_registry = None, rule_counted = False,
                rule_charge0 = c0, rule_charge1 = c1, rule_keys = keys, rule_n_buffer = n\<rparr>, us) } })"

definition match_rule_unlink :: "match_world \<Rightarrow> owner_id \<Rightarrow> match_rule \<Rightarrow> (match_world \<times> match_rule) option" where
  "match_rule_unlink w ow r =
     (case rule_registry r of
        None \<Rightarrow> Some (w, r)
      | Some (reg, monitor) \<Rightarrow> do {
          let w = (if rule_counted r
                   then upd_owner_count ow (\<lambda>n. n - 1)
                          (w\<lparr>match_counts := (match_counts w)\<lparr>n_subscriptions := n_subscriptions (match_counts w) - 1\<rparr>\<rparr>)
                   else w);
          t \<leftarrow> index_unlink ow (rule_keys r) (reg_tree w reg monitor);
          Some (set_reg_tree reg monitor t w, r\<lparr>rule_counted := False, rule_registry := None\<rparr>) })"

definition match_rule_free :: "match_world \<Rightarrow> user_registry \<Rightarrow> owner_id \<Rightarrow> match_rule \<Rightarrow> (match_world \<times> user_registry) option" where
  "match_rule_free w us ow r = do {
     _ \<leftarrow> c_assert (n_user_refs r = 0);
     us \<leftarrow> match_rule_discharge us (rule_charge0 r) (rule_charge1 r);
     let w = upd_owner_rules ow (rb_unlink match_rule_compare (rule_keys r)) w;
     (w, _) \<leftarrow> match_rule_unlink w ow r;
     Some (w, us) }"

text \<open>A reference to a rule that is in the tree of its owner.\<close>

definition match_rule_user_ref :: "match_world \<Rightarrow> owner_id \<Rightarrow> match_rule \<Rightarrow> match_world option" where
  "match_rule_user_ref w ow r = do {
     _ \<leftarrow> c_assert (n_user_refs r > 0);
     Some (put_rule ow (r\<lparr>n_user_refs := n_user_refs r + 1\<rparr>) w) }"

definition match_rule_user_unref :: "match_world \<Rightarrow> user_registry \<Rightarrow> owner_id \<Rightarrow> match_rule \<Rightarrow> (match_world \<times> user_registry) option" where
  "match_rule_user_unref w us ow r = do {
     _ \<leftarrow> c_assert (n_user_refs r > 0);
     let r = r\<lparr>n_user_refs := n_user_refs r - 1\<rparr>;
     if n_user_refs r = 0 then match_rule_free w us ow r else Some (put_rule ow r w, us) }"

text \<open>The same on a rule that was just created and is in no tree and no registry.\<close>

definition match_rule_drop_new :: "user_registry \<Rightarrow> match_rule \<Rightarrow> user_registry option" where
  "match_rule_drop_new us r = do {
     _ \<leftarrow> c_assert (n_user_refs r > 0);
     _ \<leftarrow> c_assert (n_user_refs r - 1 = 0);
     match_rule_discharge us (rule_charge0 r) (rule_charge1 r) }"

definition match_rule_link ::
  "link_env \<Rightarrow> match_world \<Rightarrow> owner_id \<Rightarrow> match_rule \<Rightarrow> bool \<Rightarrow> reg_id \<Rightarrow> bool \<Rightarrow> (bool \<times> match_world) option" where
  "match_rule_link env w ow r counters reg monitor =
     (case rule_registry r of
        Some (reg', _) \<Rightarrow> do {
          _ \<leftarrow> c_assert (reg = reg');
          _ \<leftarrow> c_assert (counters = rule_counted r);
          Some (True, w) }
      | None \<Rightarrow> do {
          (good, t) \<leftarrow> index_link env ow (rule_keys r) (rule_n_buffer r) (reg_tree w reg monitor);
          let w = set_reg_tree reg monitor t w;
          if \<not> good then Some (False, w)
          else do {
            let w = put_rule ow (r\<lparr>rule_registry := Some (reg, monitor), rule_counted := counters\<rparr>) w;
            if \<not> counters then Some (True, w)
            else do {
              let w = upd_owner_count ow (\<lambda>n. n + 1) w;
              let n = n_subscriptions (match_counts w) + 1;
              Some (True, w\<lparr>match_counts := \<lparr>n_subscriptions = n,
                n_subscriptions_peak = util_peak_update (n_subscriptions_peak (match_counts w)) n,
                n_owner_subscriptions_peak = util_peak_update (n_owner_subscriptions_peak (match_counts w))
                  (n_owner_subscriptions (match_owners w ow))\<rparr>\<rparr>) } } })"

section \<open>Owners\<close>

definition match_owner_init :: match_owner where
  "match_owner_init = \<lparr>n_owner_subscriptions = 0, rule_tree = []\<rparr>"

definition match_owner_deinit :: "match_owner \<Rightarrow> unit option" where
  "match_owner_deinit x = c_assert (rule_tree x = [])"

definition match_owner_get_stats :: "match_owner \<Rightarrow> u32 \<times> u32" where
  "match_owner_get_stats x =
     foldl (\<lambda>(n_bytes, n_matches) r. (n_bytes + ch_charge (rule_charge0 r), n_matches + ch_charge (rule_charge1 r)))
       (0, 0) (rule_tree x)"

text \<open>\<open>c_rbtree_move\<close> requires the destination to be empty.\<close>

definition match_owner_move :: "match_owner \<Rightarrow> match_owner \<Rightarrow> (match_owner \<times> match_owner) option" where
  "match_owner_move to from = do {
     _ \<leftarrow> c_assert (rule_tree to = []);
     Some (to\<lparr>rule_tree := rule_tree from\<rparr>, from\<lparr>rule_tree := []\<rparr>) }"

definition match_owner_ref_rule ::
  "match_env \<Rightarrow> match_world \<Rightarrow> user_registry \<Rightarrow> owner_id \<Rightarrow> uid option \<Rightarrow> string \<Rightarrow> bool \<Rightarrow>
   ((match_error + match_keys) \<times> match_world \<times> user_registry) option" where
  "match_owner_ref_rule env w us ow user s allow_eavesdrop = do {
     (x, us) \<leftarrow> match_rule_new env us user s allow_eavesdrop;
     case x of
       Inl e \<Rightarrow> Some (Inl e, w, us)
     | Inr r \<Rightarrow> do {
         let r = r\<lparr>n_user_refs := n_user_refs r + 1\<rparr>;
         case rb_find match_rule_compare (rule_keys r) (rule_tree (match_owners w ow)) of
           Some old \<Rightarrow> do {
             us \<leftarrow> match_rule_drop_new us r;
             w \<leftarrow> match_rule_user_ref w ow old;
             Some (Inr (rule_keys old), w, us) }
         | None \<Rightarrow>
             Some (Inr (rule_keys r),
               upd_owner_rules ow (rb_add match_rule_compare (rule_keys r) r) w, us) } }"

definition match_owner_find_rule ::
  "bool \<Rightarrow> match_owner \<Rightarrow> string \<Rightarrow> (match_error + match_rule option) option" where
  "match_owner_find_rule mem x s = do {
     k \<leftarrow> match_keys_new mem s;
     Some (case k of
       Inl e \<Rightarrow> Inl e
     | Inr (keys, _) \<Rightarrow> Inr (rb_find match_rule_compare keys (rule_tree x))) }"

section \<open>Registries\<close>

definition match_registry_init :: match_registry where
  "match_registry_init = \<lparr>subscription_tree = [], monitor_tree = []\<rparr>"

definition match_registry_deinit :: "match_registry \<Rightarrow> unit option" where
  "match_registry_deinit x = do {
     _ \<leftarrow> c_assert (subscription_tree x = []);
     c_assert (monitor_tree x = []) }"

definition match_registry_get_subscribers :: "match_registry \<Rightarrow> owner_id list \<Rightarrow> message_metadata \<Rightarrow> owner_id list" where
  "match_registry_get_subscribers x ds md = match_registry_get_destinations (subscription_tree x) ds md"

definition match_registry_get_monitors :: "match_registry \<Rightarrow> owner_id list \<Rightarrow> message_metadata \<Rightarrow> owner_id list" where
  "match_registry_get_monitors x ds md = match_registry_get_destinations (monitor_tree x) ds md"

text \<open>
  Flushing a registry. The release of the nodes level by level, with the references that
  keep a node alive while its children are visited, is \<open>index_flush\<close>; on the side of the
  rules every rule in one of the lists is unlinked. Both leave the tree empty, which is
  asserted.
\<close>

definition index_rule_list :: "by_path list \<Rightarrow> (owner_id \<times> match_keys) list" where
  "index_rule_list t = [(ow, bk_keys bk). p \<leftarrow> t, i \<leftarrow> node_children p, m \<leftarrow> node_children i,
     bk \<leftarrow> node_children m, ow \<leftarrow> bk_rules bk]"

fun match_rules_unlink :: "match_world \<Rightarrow> (owner_id \<times> match_keys) list \<Rightarrow> match_world option" where
  "match_rules_unlink w [] = Some w"
| "match_rules_unlink w ((ow, keys) # rs) = do {
     r \<leftarrow> rb_find match_rule_compare keys (rule_tree (match_owners w ow));
     (w, r) \<leftarrow> match_rule_unlink w ow r;
     match_rules_unlink (put_rule ow r w) rs }"

definition match_registry_flush_tree :: "match_world \<Rightarrow> reg_id \<Rightarrow> bool \<Rightarrow> match_world option" where
  "match_registry_flush_tree w reg monitor = do {
     t \<leftarrow> index_flush (reg_tree w reg monitor);
     _ \<leftarrow> c_assert (t = []);
     w \<leftarrow> match_rules_unlink w (index_rule_list (reg_tree w reg monitor));
     _ \<leftarrow> c_assert (reg_tree w reg monitor = []);
     Some w }"

definition match_registry_flush :: "match_world \<Rightarrow> reg_id \<Rightarrow> match_world option" where
  "match_registry_flush w reg = do {
     w \<leftarrow> match_registry_flush_tree w reg False;
     match_registry_flush_tree w reg True }"

section \<open>The invariant\<close>

interpretation rule_index: compare_order match_rule_compare rule_keys keys_ok
proof unfold_locales
  fix k d e
  show "\<lbrakk>keys_ok k; keys_ok (rule_keys e)\<rbrakk> \<Longrightarrow> match_rule_compare k e = 0 \<longleftrightarrow> k = rule_keys e"
    by (simp add: match_rule_compare_def match_keys_compare_zero)
  show "\<lbrakk>keys_ok (rule_keys d); keys_ok (rule_keys e)\<rbrakk> \<Longrightarrow>
      match_rule_compare (rule_keys d) e < 0 \<longleftrightarrow> 0 < match_rule_compare (rule_keys e) d"
    by (simp add: match_rule_compare_def match_keys_compare_anti)
  show "\<lbrakk>keys_ok k; keys_ok (rule_keys d); keys_ok (rule_keys e); match_rule_compare k d < 0;
      match_rule_compare (rule_keys d) e < 0\<rbrakk> \<Longrightarrow> match_rule_compare k e < 0"
    unfolding match_rule_compare_def by (rule match_keys_compare_trans)
qed

definition rule_ok :: "match_rule \<Rightarrow> bool" where
  "rule_ok r \<longleftrightarrow> n_user_refs r > 0 \<and> keys_size (rule_keys r) \<le> rule_n_buffer r \<and>
     (rule_counted r \<longrightarrow> rule_registry r \<noteq> None)"

definition owner_rules :: "match_world \<Rightarrow> owner_id \<Rightarrow> match_rule set" where
  "owner_rules w ow = set (rule_tree (match_owners w ow))"

definition linked_rules :: "match_world \<Rightarrow> reg_id \<Rightarrow> bool \<Rightarrow> (owner_id \<times> match_keys) set" where
  "linked_rules w reg monitor = {(ow, rule_keys r) | ow r. r \<in> owner_rules w ow \<and> rule_registry r = Some (reg, monitor)}"

definition n_counted :: "match_rule set \<Rightarrow> u64" where
  "n_counted rs = of_nat (card {r \<in> rs. rule_counted r})"

text \<open>
  Trees are ordered and their rules sound; every registry indexes exactly the rules that
  say they are linked into it; the counters count the counted rules.
\<close>

definition match_inv :: "match_world \<Rightarrow> bool" where
  "match_inv w \<longleftrightarrow>
     (\<forall>ow. rule_index.ordered (rule_tree (match_owners w ow)) \<and> (\<forall>r \<in> owner_rules w ow. rule_ok r) \<and>
        n_owner_subscriptions (match_owners w ow) = n_counted (owner_rules w ow)) \<and>
     (\<forall>reg monitor. index_ok (reg_tree w reg monitor) \<and>
        index_rules (reg_tree w reg monitor) = linked_rules w reg monitor) \<and>
     n_subscriptions (match_counts w) = (\<Sum>ow \<in> UNIV. n_counted (owner_rules w ow))"

definition rule_charges :: "match_rule list \<Rightarrow> user_charge multiset" where
  "rule_charges t = mset (map rule_charge0 t) + mset (map rule_charge1 t)"

definition all_charges :: "match_world \<Rightarrow> user_charge multiset" where
  "all_charges w = (\<Sum>ow \<in> UNIV. rule_charges (rule_tree (match_owners w ow)))"

lemma world_sel [simp]:
  "match_owners (upd_owner_rules ow f w) o' =
     (if o' = ow then (match_owners w ow)\<lparr>rule_tree := f (rule_tree (match_owners w ow))\<rparr> else match_owners w o')"
  "match_registries (upd_owner_rules ow f w) = match_registries w"
  "match_counts (upd_owner_rules ow f w) = match_counts w"
  "match_owners (upd_owner_count ow g w) o' =
     (if o' = ow then (match_owners w ow)\<lparr>n_owner_subscriptions := g (n_owner_subscriptions (match_owners w ow))\<rparr>
      else match_owners w o')"
  "match_registries (upd_owner_count ow g w) = match_registries w"
  "match_counts (upd_owner_count ow g w) = match_counts w"
  "match_owners (set_reg_tree reg m t w) = match_owners w"
  "match_counts (set_reg_tree reg m t w) = match_counts w"
  by (simp_all add: upd_owner_rules_def upd_owner_count_def set_reg_tree_def)

lemma reg_tree_sel [simp]:
  "reg_tree (set_reg_tree reg m t w) reg' m' = (if reg' = reg \<and> m' = m then t else reg_tree w reg' m')"
  "reg_tree (upd_owner_rules ow f w) = reg_tree w"
  "reg_tree (upd_owner_count ow g w) = reg_tree w"
  "reg_tree (w\<lparr>match_counts := c\<rparr>) = reg_tree w"
  by (auto simp: reg_tree_def set_reg_tree_def fun_eq_iff)

lemma owner_rules_sel [simp]:
  "owner_rules (set_reg_tree reg m t w) = owner_rules w"
  "owner_rules (upd_owner_count ow g w) = owner_rules w"
  "owner_rules (w\<lparr>match_counts := c\<rparr>) = owner_rules w"
  by (auto simp: owner_rules_def fun_eq_iff)

lemma linked_rules_cong: "owner_rules w' = owner_rules w \<Longrightarrow> linked_rules w' = linked_rules w"
  by (simp add: linked_rules_def fun_eq_iff)

lemma match_invD:
  assumes "match_inv w"
  shows "rule_index.ordered (rule_tree (match_owners w ow))"
    and "r \<in> owner_rules w ow \<Longrightarrow> rule_ok r"
    and "r \<in> owner_rules w ow \<Longrightarrow> keys_ok (rule_keys r)"
    and "n_owner_subscriptions (match_owners w ow) = n_counted (owner_rules w ow)"
    and "index_ok (reg_tree w reg monitor)"
    and "index_rules (reg_tree w reg monitor) = linked_rules w reg monitor"
    and "n_subscriptions (match_counts w) = (\<Sum>ow \<in> UNIV. n_counted (owner_rules w ow))"
  using assms unfolding match_inv_def by (auto simp: owner_rules_def rule_index.ordered_def)

lemma find_rule_iff:
  assumes "match_inv w" "keys_ok keys"
  shows "rb_find match_rule_compare keys (rule_tree (match_owners w ow)) = Some r \<longleftrightarrow>
    r \<in> owner_rules w ow \<and> rule_keys r = keys"
  using rule_index.ordered_find [OF match_invD(1) [OF assms(1)] assms(2)] by (simp add: owner_rules_def)

lemma rule_unique:
  "\<lbrakk>match_inv w; r \<in> owner_rules w ow; s \<in> owner_rules w ow; rule_keys r = rule_keys s\<rbrakk> \<Longrightarrow> r = s"
  using rule_index.unique [OF match_invD(1)] by (auto simp: owner_rules_def)

lemma finite_owner_rules [simp]: "finite (owner_rules w ow)"
  by (simp add: owner_rules_def)

text \<open>How the number of counted rules changes with one rule.\<close>

definition bit :: "bool \<Rightarrow> u64" where "bit b = of_bool b"

lemma n_counted_insert: "\<lbrakk>finite rs; r \<notin> rs\<rbrakk> \<Longrightarrow> n_counted (insert r rs) = n_counted rs + bit (rule_counted r)"
proof -
  assume rs: "finite rs" "r \<notin> rs"
  have "{s \<in> insert r rs. rule_counted s} = (if rule_counted r then insert r {s \<in> rs. rule_counted s} else {s \<in> rs. rule_counted s})"
    by auto
  with rs show ?thesis by (simp add: n_counted_def bit_def)
qed

lemma n_counted_remove: "\<lbrakk>finite rs; r \<in> rs\<rbrakk> \<Longrightarrow> n_counted (rs - {r}) = n_counted rs - bit (rule_counted r)"
  using n_counted_insert [of "rs - {r}" r] by (simp add: insert_absorb)

lemma sum_one_owner:
  fixes f g :: "owner_id \<Rightarrow> u64"
  assumes "\<And>o'. o' \<noteq> ow \<Longrightarrow> g o' = f o'"
  shows "(\<Sum>o' \<in> UNIV. g o') = (\<Sum>o' \<in> UNIV. f o') - f ow + g ow"
  using sum.remove [of UNIV ow g] sum.remove [of UNIV ow f] assms
    sum.cong [of "UNIV - {ow}" "UNIV - {ow}" g f] by simp

text \<open>
  The one lemma behind all operations: the rules of one owner become \<open>rs\<close>, the trees and
  the counters are adapted to it.
\<close>

lemma match_inv_change:
  assumes inv: "match_inv w"
    and others: "\<And>o'. o' \<noteq> ow \<Longrightarrow> match_owners w' o' = match_owners w o'"
    and ord: "rule_index.ordered (rule_tree (match_owners w' ow))"
    and ok: "\<And>r. r \<in> owner_rules w' ow \<Longrightarrow> rule_ok r"
    and cnt: "n_owner_subscriptions (match_owners w' ow) = n_counted (owner_rules w' ow)"
    and total: "n_subscriptions (match_counts w') = n_subscriptions (match_counts w) -
      n_counted (owner_rules w ow) + n_counted (owner_rules w' ow)"
    and idx: "\<And>reg monitor. index_ok (reg_tree w' reg monitor)"
      "\<And>reg monitor. index_rules (reg_tree w' reg monitor) = linked_rules w' reg monitor"
  shows "match_inv w'"
proof -
  have rs: "o' \<noteq> ow \<Longrightarrow> owner_rules w' o' = owner_rules w o'" for o'
    using others by (simp add: owner_rules_def)
  have "(\<Sum>o' \<in> UNIV. n_counted (owner_rules w' o')) =
      (\<Sum>o' \<in> UNIV. n_counted (owner_rules w o')) - n_counted (owner_rules w ow) + n_counted (owner_rules w' ow)"
    by (rule sum_one_owner) (simp add: rs)
  with total match_invD(7) [OF inv] have "n_subscriptions (match_counts w') = (\<Sum>o' \<in> UNIV. n_counted (owner_rules w' o'))"
    by simp
  moreover have "rule_index.ordered (rule_tree (match_owners w' o')) \<and> (\<forall>r \<in> owner_rules w' o'. rule_ok r) \<and>
      n_owner_subscriptions (match_owners w' o') = n_counted (owner_rules w' o')" for o'
  proof (cases "o' = ow")
    case True
    with ord ok cnt show ?thesis by blast
  next
    case False
    with others rs match_invD(1,2,4) [OF inv] show ?thesis by metis
  qed
  ultimately show ?thesis using idx unfolding match_inv_def by blast
qed

lemma put_rule_rules:
  assumes inv: "match_inv w" and r: "r \<in> owner_rules w ow" "rule_keys r' = rule_keys r"
  shows "rule_index.ordered (rule_tree (match_owners (put_rule ow r' w) ow))"
    and "owner_rules (put_rule ow r' w) ow = insert r' (owner_rules w ow - {r})"
    and "o' \<noteq> ow \<Longrightarrow> match_owners (put_rule ow r' w) o' = match_owners w o'"
proof -
  let ?t = "rule_tree (match_owners w ow)"
  have k: "keys_ok (rule_keys r)" using match_invD(3) [OF inv r(1)] .
  have f: "rb_find match_rule_compare (rule_keys r) ?t = Some r" using find_rule_iff [OF inv k] r(1) by simp
  note m = rule_index.modify_ok [OF match_invD(1) [OF inv, of ow] k f r(2)]
  from m show "rule_index.ordered (rule_tree (match_owners (put_rule ow r' w) ow))"
    "owner_rules (put_rule ow r' w) ow = insert r' (owner_rules w ow - {r})"
    using r(2) by (simp_all add: put_rule_def owner_rules_def)
  show "o' \<noteq> ow \<Longrightarrow> match_owners (put_rule ow r' w) o' = match_owners w o'"
    by (simp add: put_rule_def)
qed

section \<open>Operations on one rule\<close>

lemma linked_rules_change:
  assumes "\<And>o'. o' \<noteq> ow \<Longrightarrow> owner_rules w' o' = owner_rules w o'"
  shows "linked_rules w' reg monitor =
    {(o', k) \<in> linked_rules w reg monitor. o' \<noteq> ow} \<union>
    {(ow, rule_keys r) | r. r \<in> owner_rules w' ow \<and> rule_registry r = Some (reg, monitor)}"
  using assms unfolding linked_rules_def by (auto; metis)

lemma match_inv_put:
  assumes inv: "match_inv w" and r: "r \<in> owner_rules w ow" "rule_keys r' = rule_keys r"
    and same: "rule_registry r' = rule_registry r" "rule_counted r' = rule_counted r" "rule_ok r'"
  shows "match_inv (put_rule ow r' w)"
proof (rule match_inv_change [OF inv])
  note p = put_rule_rules [OF inv r]
  have cnt: "n_counted (insert r' (owner_rules w ow - {r})) = n_counted (owner_rules w ow)"
  proof -
    have "r' \<notin> owner_rules w ow - {r}" using rule_unique [OF inv _ r(1)] r(2) by blast
    then show ?thesis using same(2) r(1) by (simp add: n_counted_insert n_counted_remove)
  qed
  show "o' \<noteq> ow \<Longrightarrow> match_owners (put_rule ow r' w) o' = match_owners w o'" for o' by (rule p(3))
  show "rule_index.ordered (rule_tree (match_owners (put_rule ow r' w) ow))" by (rule p(1))
  show "s \<in> owner_rules (put_rule ow r' w) ow \<Longrightarrow> rule_ok s" for s
    using p(2) same(3) match_invD(2) [OF inv] by auto
  show "n_owner_subscriptions (match_owners (put_rule ow r' w) ow) = n_counted (owner_rules (put_rule ow r' w) ow)"
    using match_invD(4) [OF inv, of ow] cnt p(2) by (simp add: put_rule_def)
  show "n_subscriptions (match_counts (put_rule ow r' w)) = n_subscriptions (match_counts w) -
      n_counted (owner_rules w ow) + n_counted (owner_rules (put_rule ow r' w) ow)"
    using cnt p(2) by (simp add: put_rule_def)
  show "index_ok (reg_tree (put_rule ow r' w) reg m)" for reg m
    using match_invD(5) [OF inv] by (simp add: put_rule_def)
  have "linked_rules (put_rule ow r' w) reg m = linked_rules w reg m" for reg m
  proof -
    have "{(ow, rule_keys s) | s. s \<in> insert r' (owner_rules w ow - {r}) \<and> rule_registry s = Some (reg, m)} =
        {(ow, rule_keys s) | s. s \<in> owner_rules w ow \<and> rule_registry s = Some (reg, m)}"
      using r same(1) by auto metis+
    with linked_rules_change [of ow "put_rule ow r' w" w reg m] linked_rules_change [of ow w w reg m] p(2,3)
    show ?thesis by (simp add: owner_rules_def)
  qed
  then show "index_rules (reg_tree (put_rule ow r' w) reg m) = linked_rules (put_rule ow r' w) reg m" for reg m
    using match_invD(6) [OF inv] by (simp add: put_rule_def)
qed

lemma match_rule_user_ref_ok:
  assumes "match_inv w" "r \<in> owner_rules w ow"
  shows "match_rule_user_ref w ow r = Some (put_rule ow (r\<lparr>n_user_refs := n_user_refs r + 1\<rparr>) w)"
    and "match_inv (put_rule ow (r\<lparr>n_user_refs := n_user_refs r + 1\<rparr>) w)"
proof -
  have ok: "rule_ok r" using match_invD(2) [OF assms] .
  then show "match_rule_user_ref w ow r = Some (put_rule ow (r\<lparr>n_user_refs := n_user_refs r + 1\<rparr>) w)"
    by (simp add: match_rule_user_ref_def rule_ok_def)
  show "match_inv (put_rule ow (r\<lparr>n_user_refs := n_user_refs r + 1\<rparr>) w)"
    using ok by (intro match_inv_put [OF assms]) (simp_all add: rule_ok_def)
qed

lemma match_inv_add:
  assumes inv: "match_inv w" and k: "keys_ok (rule_keys r)" and r: "rule_ok r" "rule_registry r = None"
    and new: "rb_find match_rule_compare (rule_keys r) (rule_tree (match_owners w ow)) = None"
  shows "match_inv (upd_owner_rules ow (rb_add match_rule_compare (rule_keys r) r) w)"
    and "owner_rules (upd_owner_rules ow (rb_add match_rule_compare (rule_keys r) r) w) ow = insert r (owner_rules w ow)"
proof -
  let ?w = "upd_owner_rules ow (rb_add match_rule_compare (rule_keys r) r) w"
  show rs: "owner_rules ?w ow = insert r (owner_rules w ow)" by (simp add: owner_rules_def)
  have fresh: "r \<notin> owner_rules w ow"
    using new rule_index.ordered_find_None [OF match_invD(1) [OF inv] k] by (auto simp: owner_rules_def)
  have uncounted: "\<not> rule_counted r" using r by (simp add: rule_ok_def)
  have cnt: "n_counted (insert r (owner_rules w ow)) = n_counted (owner_rules w ow)"
    using fresh uncounted by (simp add: n_counted_insert bit_def)
  show "match_inv ?w"
  proof (rule match_inv_change [OF inv])
    show "o' \<noteq> ow \<Longrightarrow> match_owners ?w o' = match_owners w o'" for o' by simp
    show "rule_index.ordered (rule_tree (match_owners ?w ow))"
      using rule_index.ordered_add [OF match_invD(1) [OF inv] k new] by simp
    show "s \<in> owner_rules ?w ow \<Longrightarrow> rule_ok s" for s using rs r(1) match_invD(2) [OF inv] by auto
    show "n_owner_subscriptions (match_owners ?w ow) = n_counted (owner_rules ?w ow)"
      using match_invD(4) [OF inv, of ow] cnt rs by simp
    show "n_subscriptions (match_counts ?w) = n_subscriptions (match_counts w) -
        n_counted (owner_rules w ow) + n_counted (owner_rules ?w ow)" using cnt rs by simp
    show "index_ok (reg_tree ?w reg m)" for reg m using match_invD(5) [OF inv] by simp
    have "linked_rules ?w reg m = linked_rules w reg m" for reg m
      using linked_rules_change [of ow ?w w reg m] linked_rules_change [of ow w w reg m] rs r(2)
      by (auto simp: owner_rules_def)
    then show "index_rules (reg_tree ?w reg m) = linked_rules ?w reg m" for reg m
      using match_invD(6) [OF inv] by simp
  qed
qed

lemma rule_linked_iff:
  assumes "match_inv w" "r \<in> owner_rules w ow"
  shows "(ow, rule_keys r) \<in> linked_rules w reg m \<longleftrightarrow> rule_registry r = Some (reg, m)"
proof
  assume "(ow, rule_keys r) \<in> linked_rules w reg m"
  then obtain s where s: "s \<in> owner_rules w ow" "rule_keys s = rule_keys r" "rule_registry s = Some (reg, m)"
    by (auto simp: linked_rules_def)
  with rule_unique [OF assms(1) s(1) assms(2)] show "rule_registry r = Some (reg, m)" by simp
qed (use assms(2) in \<open>auto simp: linked_rules_def\<close>)

text \<open>The index side of an update of one rule: its keys are dropped from where it was linked, and added where it is.\<close>

lemma linked_after:
  assumes inv: "match_inv w" and r: "r \<in> owner_rules w ow"
    and others: "\<And>o'. o' \<noteq> ow \<Longrightarrow> owner_rules w' o' = owner_rules w o'"
    and rs: "owner_rules w' ow = owner_rules w ow - {r} \<union> X" "\<And>x. x \<in> X \<Longrightarrow> rule_keys x = rule_keys r"
  shows "linked_rules w' reg m = linked_rules w reg m - {(ow, rule_keys r)} \<union>
    (if \<exists>x \<in> X. rule_registry x = Some (reg, m) then {(ow, rule_keys r)} else {})"
proof -
  let ?P = "\<lambda>s. rule_registry s = Some (reg, m)"
  have "{(ow, rule_keys s) | s. s \<in> X \<and> ?P s} = (if \<exists>x \<in> X. ?P x then {(ow, rule_keys r)} else {})"
  proof (cases "\<exists>x \<in> X. ?P x")
    case True
    then obtain x where x: "x \<in> X" "?P x" by blast
    then have "(ow, rule_keys r) \<in> {(ow, rule_keys s) | s. s \<in> X \<and> ?P s}" using rs(2) [OF x(1)] by (metis (mono_tags, lifting) mem_Collect_eq)
    moreover have "{(ow, rule_keys s) | s. s \<in> X \<and> ?P s} \<subseteq> {(ow, rule_keys r)}" using rs(2) by blast
    ultimately show ?thesis using True by auto
  next
    case False
    then show ?thesis by auto
  qed
  moreover have "{(ow, rule_keys s) | s. s \<in> owner_rules w' ow \<and> ?P s} =
      {(ow, rule_keys s) | s. s \<in> owner_rules w ow - {r} \<and> ?P s} \<union> {(ow, rule_keys s) | s. s \<in> X \<and> ?P s}"
    unfolding rs(1) by blast
  moreover have "{(ow, rule_keys s) | s. s \<in> owner_rules w ow - {r} \<and> ?P s} =
      {(ow, rule_keys s) | s. s \<in> owner_rules w ow \<and> ?P s} - {(ow, rule_keys r)}"
  proof -
    have "rule_keys s \<noteq> rule_keys r" if "s \<in> owner_rules w ow" "s \<noteq> r" for s
      using rule_unique [OF inv that(1) r] that(2) by blast
    then have "owner_rules w ow - {r} = {s \<in> owner_rules w ow. rule_keys s \<noteq> rule_keys r}" by auto
    then show ?thesis by auto
  qed
  ultimately have new: "{(ow, rule_keys s) | s. s \<in> owner_rules w' ow \<and> ?P s} =
      {(ow, rule_keys s) | s. s \<in> owner_rules w ow \<and> ?P s} - {(ow, rule_keys r)} \<union>
      (if \<exists>x \<in> X. ?P x then {(ow, rule_keys r)} else {})" by simp
  have abs: "\<lbrakk>L = N \<union> B; L' = N \<union> B'; B' = B - {x} \<union> Y; x \<notin> N\<rbrakk> \<Longrightarrow> L' = L - {x} \<union> Y"
    for L L' N B B' Y :: "(owner_id \<times> match_keys) set" and x by blast
  show ?thesis
    by (rule abs [OF linked_rules_change [of ow w w reg m, OF refl] linked_rules_change [of ow w' w reg m, OF others] new]) simp_all
qed

lemma put_rule_charges:
  assumes inv: "match_inv w" and r: "r \<in> owner_rules w ow"
    and same: "rule_keys r' = rule_keys r" "rule_charge0 r' = rule_charge0 r" "rule_charge1 r' = rule_charge1 r"
  shows "all_charges (put_rule ow r' w) = all_charges w"
proof -
  have "match_rule_compare (rule_keys r) s = 0 \<longleftrightarrow> s = r" if "s \<in> owner_rules w ow" for s
  proof -
    have "match_rule_compare (rule_keys r) s = 0 \<longleftrightarrow> rule_keys r = rule_keys s"
      by (rule rule_index.cmp_eq [OF match_invD(3) [OF inv r] match_invD(3) [OF inv that]])
    then show ?thesis using rule_unique [OF inv that r] by metis
  qed
  then have "map rule_charge0 (rb_modify match_rule_compare (rule_keys r) (\<lambda>_. r') (rule_tree (match_owners w ow))) =
      map rule_charge0 (rule_tree (match_owners w ow))"
    "map rule_charge1 (rb_modify match_rule_compare (rule_keys r) (\<lambda>_. r') (rule_tree (match_owners w ow))) =
      map rule_charge1 (rule_tree (match_owners w ow))"
    using same(2,3) by (auto simp: rb_modify_def owner_rules_def)
  then have "rule_charges (rule_tree (match_owners (put_rule ow r' w) o')) = rule_charges (rule_tree (match_owners w o'))" for o'
    unfolding rule_charges_def put_rule_def same(1) by (simp only: world_sel) (simp del: mset_map)
  then show ?thesis by (simp only: all_charges_def)
qed

lemma match_rule_link_ok:
  assumes inv: "match_inv w" and r: "r \<in> owner_rules w ow"
    and free: "\<And>reg' m. rule_registry r = Some (reg', m) \<Longrightarrow> reg' = reg \<and> rule_counted r = counters"
  shows "\<exists>good w'. match_rule_link env w ow r counters reg monitor = Some (good, w') \<and> match_inv w' \<and>
    (env_ok env \<longrightarrow> good) \<and>
    (good \<longrightarrow> (\<exists>m. (ow, rule_keys r) \<in> linked_rules w' reg m)) \<and>
    all_charges w' = all_charges w"
proof (cases "rule_registry r")
  case (Some x)
  obtain reg' m where x: "x = (reg', m)" by (cases x)
  with Some free have "reg' = reg" "rule_counted r = counters" by blast+
  moreover have "(ow, rule_keys r) \<in> linked_rules w reg m"
    using Some x \<open>reg' = reg\<close> rule_linked_iff [OF inv r] by simp
  ultimately show ?thesis using Some x inv by (auto simp: match_rule_link_def)
next
  case None
  have ok: "rule_ok r" "keys_ok (rule_keys r)" using match_invD(2,3) [OF inv r] .
  have "(ow, rule_keys r) \<notin> index_rules (reg_tree w reg monitor)"
    using rule_linked_iff [OF inv r] None match_invD(6) [OF inv] by simp
  from index_link_ok [OF match_invD(5) [OF inv] ok(2) _ this, of "rule_n_buffer r" env] ok(1) obtain good t where
    link: "index_link env ow (rule_keys r) (rule_n_buffer r) (reg_tree w reg monitor) = Some (good, t)" "index_ok t"
      "index_rules t = (if good then insert (ow, rule_keys r) (index_rules (reg_tree w reg monitor))
        else index_rules (reg_tree w reg monitor))" "\<not> good \<Longrightarrow> t = reg_tree w reg monitor" "env_ok env \<longrightarrow> good"
    by (auto simp: rule_ok_def)
  show ?thesis
  proof (cases good)
    case False
    have "set_reg_tree reg monitor (reg_tree w reg monitor) w = w"
      by (auto simp: set_reg_tree_def reg_tree_def)
    with False link None inv show ?thesis by (auto simp: match_rule_link_def)
  next
    case True
    let ?r = "r\<lparr>rule_registry := Some (reg, monitor), rule_counted := counters\<rparr>"
    let ?w1 = "put_rule ow ?r (set_reg_tree reg monitor t w)"
    obtain w' where w': "match_rule_link env w ow r counters reg monitor = Some (True, w')"
      and own: "match_owners w' = match_owners (upd_owner_count ow (\<lambda>n. n + bit counters) ?w1)"
      and tr: "reg_tree w' = reg_tree (set_reg_tree reg monitor t w)"
      and n: "n_subscriptions (match_counts w') = n_subscriptions (match_counts w) + bit counters"
    proof (cases counters)
      case True
      show ?thesis
        by (rule that, simp add: match_rule_link_def None link(1) \<open>good\<close> Let_def True)
          (simp_all add: True bit_def put_rule_def fun_eq_iff)
    next
      case False
      show ?thesis
        by (rule that, simp add: match_rule_link_def None link(1) \<open>good\<close> Let_def False)
          (simp_all add: False bit_def put_rule_def fun_eq_iff)
    qed
    have p: "rule_tree (match_owners w' o') = rule_tree (match_owners (put_rule ow ?r w) o')" for o'
      using own by (simp add: put_rule_def)
    then have rs: "owner_rules w' o' = owner_rules (put_rule ow ?r w) o'" for o' by (simp add: owner_rules_def)
    have "rule_keys ?r = rule_keys r" by simp
    note q = put_rule_rules [OF inv r this]
    have fresh: "?r \<notin> owner_rules w ow - {r}" using rule_unique [OF inv _ r] by auto
    have old: "\<not> rule_counted r" using ok(1) None by (simp add: rule_ok_def)
    have cnt: "n_counted (owner_rules w' ow) = n_counted (owner_rules w ow) + bit counters"
      using fresh old r by (simp add: rs q(2) n_counted_insert n_counted_remove bit_def)
    have lk: "linked_rules w' reg' m' = linked_rules w reg' m' - {(ow, rule_keys r)} \<union>
        (if (reg', m') = (reg, monitor) then {(ow, rule_keys r)} else {})" for reg' m'
    proof -
      have "owner_rules w' o' = owner_rules w o'" if "o' \<noteq> ow" for o'
        using q(3) [OF that] by (simp only: rs) (simp add: owner_rules_def)
      moreover have "owner_rules w' ow = owner_rules w ow - {r} \<union> {?r}" unfolding rs q(2) by blast
      ultimately have "linked_rules w' reg' m' = linked_rules w reg' m' - {(ow, rule_keys r)} \<union>
          (if \<exists>x \<in> {?r}. rule_registry x = Some (reg', m') then {(ow, rule_keys r)} else {})"
        by (rule linked_after [OF inv r]) auto
      then show ?thesis by (simp add: eq_commute)
    qed
    have "match_inv w'"
    proof (rule match_inv_change [OF inv])
      show "o' \<noteq> ow \<Longrightarrow> match_owners w' o' = match_owners w o'" for o' using own by (simp add: put_rule_def)
      show "rule_index.ordered (rule_tree (match_owners w' ow))" using q(1) p by simp
      show "s \<in> owner_rules w' ow \<Longrightarrow> rule_ok s" for s
        using rs q(2) ok(1) match_invD(2) [OF inv] by (auto simp: rule_ok_def)
      show "n_owner_subscriptions (match_owners w' ow) = n_counted (owner_rules w' ow)"
        using own cnt match_invD(4) [OF inv, of ow] by (simp add: put_rule_def)
      show "n_subscriptions (match_counts w') = n_subscriptions (match_counts w) -
          n_counted (owner_rules w ow) + n_counted (owner_rules w' ow)" using n cnt by simp
      show "index_ok (reg_tree w' reg' m)" for reg' m using tr link(2) match_invD(5) [OF inv] by simp
      have "(ow, rule_keys r) \<notin> linked_rules w reg' m'" for reg' m' using None rule_linked_iff [OF inv r] by simp
      then show "index_rules (reg_tree w' reg' m) = linked_rules w' reg' m" for reg' m
        using tr link(3) True match_invD(6) [OF inv] lk [of reg' m] by auto
    qed
    moreover have "(ow, rule_keys r) \<in> linked_rules w' reg monitor" using lk by simp
    moreover have "all_charges w' = all_charges w"
      using put_rule_charges [OF inv r, of ?r] p by (simp add: all_charges_def)
    ultimately show ?thesis using w' by blast
  qed
qed

text \<open>Unlinking touches the tree the rule is in and the counters.\<close>

lemma match_rule_unlink_ok:
  assumes inv: "match_inv w" and r: "r \<in> owner_rules w ow" and w0: "reg_tree w0 = reg_tree w"
  obtains w1 where "match_rule_unlink w0 ow r = Some (w1, r\<lparr>rule_counted := False, rule_registry := None\<rparr>)"
    "match_owners w1 = match_owners (upd_owner_count ow (\<lambda>n. n - bit (rule_counted r)) w0)"
    "n_subscriptions (match_counts w1) = n_subscriptions (match_counts w0) - bit (rule_counted r)"
    "\<And>reg m. index_ok (reg_tree w1 reg m)"
    "\<And>reg m. index_rules (reg_tree w1 reg m) = linked_rules w reg m - {(ow, rule_keys r)}"
proof (cases "rule_registry r")
  case None
  then have "\<not> rule_counted r" using match_invD(2) [OF inv r] by (auto simp: rule_ok_def)
  with None have "match_rule_unlink w0 ow r = Some (w0, r\<lparr>rule_counted := False, rule_registry := None\<rparr>)"
    by (cases r) (simp add: match_rule_unlink_def)
  moreover have "(ow, rule_keys r) \<notin> linked_rules w reg m" for reg m
    using None rule_linked_iff [OF inv r] by simp
  ultimately show ?thesis
    using that [of w0] \<open>\<not> rule_counted r\<close> match_invD(5,6) [OF inv] w0 by (auto simp: bit_def fun_eq_iff)
next
  case (Some x)
  obtain reg m where x: "x = (reg, m)" by (cases x)
  have "(ow, rule_keys r) \<in> index_rules (reg_tree w reg m)"
    using Some x rule_linked_iff [OF inv r] match_invD(6) [OF inv] by simp
  from index_unlink_ok [OF match_invD(5) [OF inv] this] obtain t where
    t: "index_unlink ow (rule_keys r) (reg_tree w reg m) = Some t" "index_ok t"
      "index_rules t = index_rules (reg_tree w reg m) - {(ow, rule_keys r)}" by blast
  let ?w = "if rule_counted r
     then upd_owner_count ow (\<lambda>n. n - 1)
            (w0\<lparr>match_counts := (match_counts w0)\<lparr>n_subscriptions := n_subscriptions (match_counts w0) - 1\<rparr>\<rparr>)
     else w0"
  have tr: "reg_tree ?w = reg_tree w" using w0 by simp
  have own: "match_owners ?w = match_owners (upd_owner_count ow (\<lambda>n. n - bit (rule_counted r)) w0)"
    by (auto simp: bit_def fun_eq_iff)
  have n: "n_subscriptions (match_counts ?w) = n_subscriptions (match_counts w0) - bit (rule_counted r)"
    by (simp add: bit_def)
  have other: "(ow, rule_keys r) \<notin> linked_rules w reg' m'" if "(reg', m') \<noteq> (reg, m)" for reg' m'
    using that Some x rule_linked_iff [OF inv r] by simp
  have "match_rule_unlink w0 ow r = Some (set_reg_tree reg m t ?w, r\<lparr>rule_counted := False, rule_registry := None\<rparr>)"
    using Some x t(1) tr by (simp add: match_rule_unlink_def Let_def)
  then show ?thesis
  proof (rule that)
    show "match_owners (set_reg_tree reg m t ?w) = match_owners (upd_owner_count ow (\<lambda>n. n - bit (rule_counted r)) w0)"
      using own by (simp only: world_sel)
    show "n_subscriptions (match_counts (set_reg_tree reg m t ?w)) = n_subscriptions (match_counts w0) - bit (rule_counted r)"
      using n by (simp only: world_sel)
    show "index_ok (reg_tree (set_reg_tree reg m t ?w) reg' m')" for reg' m'
      using t(2) match_invD(5) [OF inv] tr by (simp only: reg_tree_sel split: if_split) simp
    show "index_rules (reg_tree (set_reg_tree reg m t ?w) reg' m') = linked_rules w reg' m' - {(ow, rule_keys r)}" for reg' m'
    proof (cases "(reg', m') = (reg, m)")
      case True
      then have "reg_tree (set_reg_tree reg m t ?w) reg' m' = t" by simp
      then show ?thesis using t(3) match_invD(6) [OF inv, of reg m] True by simp
    next
      case False
      then have "reg_tree (set_reg_tree reg m t ?w) reg' m' = reg_tree w reg' m'" using w0 by auto
      then show ?thesis using match_invD(6) [OF inv, of reg' m'] other [OF False] by simp
    qed
  qed
qed

lemma match_rule_unlink_put:
  assumes inv: "match_inv w" and r: "r \<in> owner_rules w ow"
  obtains w1 where "match_rule_unlink w ow r = Some (w1, r\<lparr>rule_counted := False, rule_registry := None\<rparr>)"
    "match_inv (put_rule ow (r\<lparr>rule_counted := False, rule_registry := None\<rparr>) w1)"
    "\<And>reg m. linked_rules (put_rule ow (r\<lparr>rule_counted := False, rule_registry := None\<rparr>) w1) reg m =
       linked_rules w reg m - {(ow, rule_keys r)}"
    "all_charges (put_rule ow (r\<lparr>rule_counted := False, rule_registry := None\<rparr>) w1) = all_charges w"
    "\<And>o'. rule_keys ` owner_rules (put_rule ow (r\<lparr>rule_counted := False, rule_registry := None\<rparr>) w1) o' =
       rule_keys ` owner_rules w o'"
proof -
  let ?r = "r\<lparr>rule_counted := False, rule_registry := None\<rparr>"
  from match_rule_unlink_ok [OF inv r refl] obtain w1 where
    u: "match_rule_unlink w ow r = Some (w1, ?r)"
    and own: "match_owners w1 = match_owners (upd_owner_count ow (\<lambda>n. n - bit (rule_counted r)) w)"
    and n: "n_subscriptions (match_counts w1) = n_subscriptions (match_counts w) - bit (rule_counted r)"
    and idx: "\<And>reg m. index_ok (reg_tree w1 reg m)"
      "\<And>reg m. index_rules (reg_tree w1 reg m) = linked_rules w reg m - {(ow, rule_keys r)}" by blast
  let ?w = "put_rule ow ?r w1"
  have p: "rule_tree (match_owners ?w o') = rule_tree (match_owners (put_rule ow ?r w) o')" for o'
    by (simp add: put_rule_def own)
  then have rs: "owner_rules ?w o' = owner_rules (put_rule ow ?r w) o'" for o' by (simp add: owner_rules_def)
  have keys: "rule_keys ?r = rule_keys r" by simp
  note q = put_rule_rules [OF inv r keys]
  have rs_ow: "owner_rules ?w ow = insert ?r (owner_rules w ow - {r})" by (simp only: rs q(2))
  have rs_other: "owner_rules ?w o' = owner_rules w o'" if "o' \<noteq> ow" for o'
    using q(3) [OF that] by (simp only: rs) (simp add: owner_rules_def)
  have fresh: "?r \<notin> owner_rules w ow - {r}" using rule_unique [OF inv _ r] by auto
  have cnt: "n_counted (owner_rules ?w ow) = n_counted (owner_rules w ow) - bit (rule_counted r)"
    unfolding rs_ow using fresh r by (simp add: n_counted_insert n_counted_remove bit_def)
  have lk: "linked_rules ?w reg m = linked_rules w reg m - {(ow, rule_keys r)}" for reg m
  proof -
    have "owner_rules ?w ow = owner_rules w ow - {r} \<union> {?r}" unfolding rs_ow by blast
    from linked_after [OF inv r rs_other this, of reg m] show ?thesis by simp
  qed
  have tree: "reg_tree ?w = reg_tree w1" by (simp add: put_rule_def)
  have "match_inv ?w"
  proof (rule match_inv_change [OF inv])
    show "o' \<noteq> ow \<Longrightarrow> match_owners ?w o' = match_owners w o'" for o' by (simp add: put_rule_def own)
    show "rule_index.ordered (rule_tree (match_owners ?w ow))" using q(1) p by simp
    show "s \<in> owner_rules ?w ow \<Longrightarrow> rule_ok s" for s
      unfolding rs_ow using match_invD(2) [OF inv] r by (auto simp: rule_ok_def)
    show "n_owner_subscriptions (match_owners ?w ow) = n_counted (owner_rules ?w ow)"
      unfolding cnt using match_invD(4) [OF inv, of ow] by (simp add: put_rule_def own)
    show "n_subscriptions (match_counts ?w) = n_subscriptions (match_counts w) -
        n_counted (owner_rules w ow) + n_counted (owner_rules ?w ow)"
      unfolding cnt using n by (simp add: put_rule_def)
    show "index_ok (reg_tree ?w reg m)" for reg m using idx(1) tree by simp
    show "index_rules (reg_tree ?w reg m) = linked_rules ?w reg m" for reg m using idx(2) tree lk by simp
  qed
  moreover have "all_charges ?w = all_charges w"
    using put_rule_charges [OF inv r, of ?r] p by (simp add: all_charges_def)
  moreover have "rule_keys ` owner_rules ?w o' = rule_keys ` owner_rules w o'" for o'
  proof (cases "o' = ow")
    case True
    have "rule_keys ` insert ?r (owner_rules w ow - {r}) = rule_keys ` insert r (owner_rules w ow - {r})"
      by (simp only: image_insert keys)
    also have "insert r (owner_rules w ow - {r}) = owner_rules w ow" using r by blast
    finally show ?thesis unfolding True rs_ow .
  qed (simp add: rs_other)
  ultimately show ?thesis using that [OF u] lk by blast
qed

lemma rule_charges_unlink:
  assumes inv: "match_inv w" and r: "r \<in> owner_rules w ow"
  shows "rule_charges (rule_tree (match_owners w ow)) = {#rule_charge0 r, rule_charge1 r#} +
    rule_charges (rb_unlink match_rule_compare (rule_keys r) (rule_tree (match_owners w ow)))"
proof -
  let ?t = "rule_tree (match_owners w ow)"
  have mem: "s \<in> set ?t \<Longrightarrow> s \<in> owner_rules w ow" for s by (simp add: owner_rules_def)
  have "rb_unlink match_rule_compare (rule_keys r) ?t = filter (\<lambda>s. rule_keys s \<noteq> rule_keys r) ?t"
    unfolding rb_unlink_def
    using rule_index.cmp_eq [OF match_invD(3) [OF inv r] match_invD(3) [OF inv mem]] by (intro filter_cong) auto
  moreover have "mset ?t = add_mset r (mset (filter (\<lambda>s. rule_keys s \<noteq> rule_keys r) ?t))"
    using r by (intro mset_drop_key rule_index.ordered_keys_distinct match_invD(1) [OF inv]) (simp add: owner_rules_def)
  then have "image_mset f (mset ?t) = add_mset (f r) (image_mset f (mset (filter (\<lambda>s. rule_keys s \<noteq> rule_keys r) ?t)))"
    for f :: "match_rule \<Rightarrow> user_charge" by (simp only: image_mset_add_mset)
  ultimately show ?thesis by (simp only: rule_charges_def mset_map) simp
qed

lemma all_charges_change:
  assumes "\<And>o'. o' \<noteq> ow \<Longrightarrow> match_owners w' o' = match_owners w o'"
    and "rule_charges (rule_tree (match_owners w ow)) = D + rule_charges (rule_tree (match_owners w' ow))"
  shows "all_charges w = D + all_charges w'"
proof -
  have "all_charges v = rule_charges (rule_tree (match_owners v ow)) +
      (\<Sum>o' \<in> UNIV - {ow}. rule_charges (rule_tree (match_owners v o')))" for v
    unfolding all_charges_def by (rule sum.remove) simp_all
  moreover have "(\<Sum>o' \<in> UNIV - {ow}. rule_charges (rule_tree (match_owners w' o'))) =
      (\<Sum>o' \<in> UNIV - {ow}. rule_charges (rule_tree (match_owners w o')))"
    using assms(1) by (intro sum.cong) auto
  ultimately show ?thesis using assms(2) by (simp add: ac_simps)
qed

lemma match_rule_discharge_ok:
  assumes "user_inv us ext ({#c0, c1#} + C)"
  shows "\<exists>us'. match_rule_discharge us c0 c1 = Some us' \<and> user_inv us' ext C"
proof -
  have "user_inv us ext (add_mset c1 (add_mset c0 C))" using assms by (simp add: add_mset_commute)
  from user_account.release_inv [OF this] obtain ch us1 where
    1: "user_charge_deinit us c1 = Some (ch, us1)" "user_inv us1 ext (add_mset c0 C)" by blast
  from user_account.release_inv [OF 1(2)] obtain ch' us2 where
    "user_charge_deinit us1 c0 = Some (ch', us2)" "user_inv us2 ext C" by blast
  with 1 show ?thesis by (simp add: match_rule_discharge_def)
qed

lemma match_rule_free_ok:
  assumes inv: "match_inv w" and r: "r \<in> owner_rules w ow" and us: "user_inv us ext (all_charges w + C)"
  shows "\<exists>w' us'. match_rule_free w us ow (r\<lparr>n_user_refs := 0\<rparr>) = Some (w', us') \<and> match_inv w' \<and>
    user_inv us' ext (all_charges w' + C) \<and> owner_rules w' ow = owner_rules w ow - {r} \<and>
    (\<forall>reg m. linked_rules w' reg m = linked_rules w reg m - {(ow, rule_keys r)})"
proof -
  let ?r = "r\<lparr>n_user_refs := 0\<rparr>"
  let ?w0 = "upd_owner_rules ow (rb_unlink match_rule_compare (rule_keys r)) w"
  have un: "match_rule_unlink ?w0 ow ?r = map_option (apsnd (\<lambda>r. r\<lparr>n_user_refs := 0\<rparr>)) (match_rule_unlink ?w0 ow r)"
    by (auto simp: match_rule_unlink_def Let_def split: option.split bind_split)
  have tree0: "reg_tree ?w0 = reg_tree w" by simp
  from match_rule_unlink_ok [OF inv r tree0] obtain w1 where
    u: "match_rule_unlink ?w0 ow r = Some (w1, r\<lparr>rule_counted := False, rule_registry := None\<rparr>)"
    and own: "match_owners w1 = match_owners (upd_owner_count ow (\<lambda>n. n - bit (rule_counted r)) ?w0)"
    and n: "n_subscriptions (match_counts w1) = n_subscriptions (match_counts ?w0) - bit (rule_counted r)"
    and idx: "\<And>reg m. index_ok (reg_tree w1 reg m)"
      "\<And>reg m. index_rules (reg_tree w1 reg m) = linked_rules w reg m - {(ow, rule_keys r)}" by blast
  have k: "keys_ok (rule_keys r)" using match_invD(3) [OF inv r] .
  have f: "rb_find match_rule_compare (rule_keys r) (rule_tree (match_owners w ow)) = Some r"
    using find_rule_iff [OF inv k] r by simp
  have tr: "rule_tree (match_owners w1 ow) = rb_unlink match_rule_compare (rule_keys r) (rule_tree (match_owners w ow))"
    by (simp add: own)
  have other: "match_owners w1 o' = match_owners w o'" if "o' \<noteq> ow" for o' using that by (simp add: own)
  have rs: "owner_rules w1 ow = owner_rules w ow - {r}"
    using rule_index.unlink_ok(1) [OF match_invD(1) [OF inv] k f] by (simp add: owner_rules_def tr)
  have cnt: "n_counted (owner_rules w1 ow) = n_counted (owner_rules w ow) - bit (rule_counted r)"
    unfolding rs using r by (simp add: n_counted_remove)
  have lk: "linked_rules w1 reg m = linked_rules w reg m - {(ow, rule_keys r)}" for reg m
    using linked_after [OF inv r, of w1 "{}" reg m] other rs by (simp add: owner_rules_def)
  have "match_inv w1"
  proof (rule match_inv_change [OF inv])
    show "rule_index.ordered (rule_tree (match_owners w1 ow))"
      unfolding tr by (rule rule_index.ordered_unlink [OF match_invD(1) [OF inv]])
    show "s \<in> owner_rules w1 ow \<Longrightarrow> rule_ok s" for s using rs match_invD(2) [OF inv] by auto
    show "n_owner_subscriptions (match_owners w1 ow) = n_counted (owner_rules w1 ow)"
      unfolding cnt using match_invD(4) [OF inv, of ow] by (simp add: own)
    show "n_subscriptions (match_counts w1) = n_subscriptions (match_counts w) -
        n_counted (owner_rules w ow) + n_counted (owner_rules w1 ow)" unfolding cnt using n by simp
    show "index_rules (reg_tree w1 reg m) = linked_rules w1 reg m" for reg m using idx(2) lk by simp
  qed (rule other idx, assumption?)+
  moreover have "all_charges w = {#rule_charge0 r, rule_charge1 r#} + all_charges w1"
    by (rule all_charges_change [OF other], assumption) (unfold tr, rule rule_charges_unlink [OF inv r])
  with us have "user_inv us ext ({#rule_charge0 r, rule_charge1 r#} + (all_charges w1 + C))" by (simp add: ac_simps)
  from match_rule_discharge_ok [OF this] obtain us' where
    "match_rule_discharge us (rule_charge0 r) (rule_charge1 r) = Some us'" "user_inv us' ext (all_charges w1 + C)" by blast
  moreover have "match_rule_unlink ?w0 ow ?r = Some (w1, r\<lparr>n_user_refs := 0, rule_counted := False, rule_registry := None\<rparr>)"
    using u by (simp add: un)
  ultimately show ?thesis using rs lk by (simp add: match_rule_free_def)
qed

lemma match_rule_user_unref_ok:
  assumes inv: "match_inv w" and r: "r \<in> owner_rules w ow" and us: "user_inv us ext (all_charges w + C)"
  shows "\<exists>w' us'. match_rule_user_unref w us ow r = Some (w', us') \<and> match_inv w' \<and> user_inv us' ext (all_charges w' + C) \<and>
    owner_rules w' ow = (if n_user_refs r = 1 then owner_rules w ow - {r}
      else insert (r\<lparr>n_user_refs := n_user_refs r - 1\<rparr>) (owner_rules w ow - {r}))"
proof -
  have ok: "rule_ok r" using match_invD(2) [OF inv r] .
  then have pos: "n_user_refs r > 0" by (simp add: rule_ok_def)
  show ?thesis
  proof (cases "n_user_refs r = 1")
    case True
    with match_rule_free_ok [OF inv r us] show ?thesis by (simp add: match_rule_user_unref_def) blast
  next
    case False
    let ?r = "r\<lparr>n_user_refs := n_user_refs r - 1\<rparr>"
    have "match_inv (put_rule ow ?r w)" using ok False pos by (intro match_inv_put [OF inv r]) (auto simp: rule_ok_def)
    moreover have "all_charges (put_rule ow ?r w) = all_charges w" by (rule put_rule_charges [OF inv r]) simp_all
    moreover have "owner_rules (put_rule ow ?r w) ow = insert ?r (owner_rules w ow - {r})"
      by (rule put_rule_rules(2) [OF inv r]) simp
    ultimately show ?thesis using False pos us by (simp add: match_rule_user_unref_def)
  qed
qed

section \<open>Creating rules\<close>

text \<open>A rule takes two charges, so there has to be room for two more actors of the user.\<close>

definition can_match :: "user_registry \<Rightarrow> uid option \<Rightarrow> bool" where
  "can_match us user \<longleftrightarrow> USER_SLOT_BYTES < n_slots us \<and> USER_SLOT_MATCHES < n_slots us \<and>
     (case user of None \<Rightarrow> True
      | Some u \<Rightarrow> (case users us u of None \<Rightarrow> False | Some usr \<Rightarrow> card (dom (usages usr)) < 2 ^ 32 - 3))"

lemma user_charge_actors:
  assumes "user_charge mem log_ok us (Some u) user_charge_init None slot n = Some (r, ch, us')" "users us u = Some usr"
  shows "\<exists>usr'. users us' u = Some usr' \<and> card (dom (usages usr')) \<le> Suc (card (dom (usages usr)))"
proof (cases "n = 0")
  case True
  with assms show ?thesis by (auto simp: user_charge_def)
next
  case False
  with assms obtain r1 us1 where ref: "user_ref_usage mem us u u = Some (r1, us1)"
    by (auto simp: user_charge_def charge_actor_def user_charge_init_def split: bind_splits)
  from ref assms(2) obtain usr1 where usr1: "users us1 u = Some usr1"
    by (auto simp: user_ref_usage_def user_ref_def user_usage_ref_def upd_user_def upd_usage_def
        split: option.splits if_splits bind_splits)
  have card: "card (dom (usages usr1)) \<le> Suc (card (dom (usages usr)))"
    by (rule user_ref_usage_actors [OF ref assms(2) usr1])
  have app: "\<exists>usr'. users us'' u = Some usr' \<and> card (dom (usages usr')) = card (dom (usages usr1))"
    if "user_charge_apply log_ok us1 u c u slot n = Some (r, ch, us'')" for c us''
    using that usr1
    by (auto simp: user_charge_apply_def user_charge_commit_log_def Let_def upd_user_def upd_usage_def
        dom_upd_usage split: option.splits if_splits bind_splits)
  show ?thesis
    using assms False ref card usr1
    by (auto simp: user_charge_def charge_actor_def user_charge_init_def split: if_splits dest!: app)
qed

lemma match_rule_new_ok:
  assumes us: "user_inv us ext C" and can: "can_match us user"
  shows "\<exists>x us'. match_rule_new env us user s a = Some (x, us') \<and>
    (case x of
       Inl e \<Rightarrow> user_inv us' ext C
     | Inr r \<Rightarrow> user_inv us' ext ({#rule_charge0 r, rule_charge1 r#} + C) \<and> n_user_refs r = 0 \<and>
         rule_registry r = None \<and> \<not> rule_counted r \<and> keys_ok (rule_keys r) \<and>
         keys_size (rule_keys r) \<le> rule_n_buffer r)"
proof (cases "length s > MATCH_RULE_LENGTH_MAX \<or> \<not> mem_rule env")
  case True
  with us show ?thesis by (auto simp: match_rule_new_def)
next
  case False
  have can0: "chargeable us user user_charge_init None USER_SLOT_BYTES"
    using can by (auto simp: chargeable_def can_match_def few_actors_def user_charge_init_def split: option.splits)
  from user_charge_inv [OF user_account.unused [THEN iffD2, OF us] can0, of "mem_usage0 env" "rule_log env"
      "of_nat (rule_size env + (length s + 1))"] obtain r0 c0 us0 where
    c0: "user_charge (mem_usage0 env) (rule_log env) us user user_charge_init None USER_SLOT_BYTES
        (of_nat (rule_size env + (length s + 1))) = Some (r0, c0, us0)"
      "user_inv us0 ext (add_mset c0 C)" "n_slots us0 = n_slots us" by blast
  have can1: "chargeable us0 user user_charge_init None USER_SLOT_MATCHES"
  proof (cases user)
    case None
    with can c0(3) show ?thesis by (simp add: chargeable_def can_match_def)
  next
    case (Some u)
    with can obtain usr where "users us u = Some usr" "card (dom (usages usr)) < 2 ^ 32 - 3"
      by (auto simp: can_match_def split: option.splits)
    with user_charge_actors [OF c0(1) [unfolded Some]] obtain usr' where
      "users us0 u = Some usr'" "card (dom (usages usr')) < 2 ^ 32 - 2" by fastforce
    with can c0(3) Some show ?thesis by (simp add: chargeable_def can_match_def few_actors_def user_charge_init_def)
  qed
  obtain r1 c1 us1 where
    c1: "(if r0 \<noteq> USER_OK then Some (r0, user_charge_init, us0)
      else user_charge (mem_usage1 env) (rule_log env) us0 user user_charge_init None USER_SLOT_MATCHES 1) = Some (r1, c1, us1)"
      and inv1: "user_inv us1 ext ({#c0, c1#} + C)"
  proof (cases "r0 = USER_OK")
    case True
    from user_charge_inv [OF user_account.unused [THEN iffD2, OF c0(2)] can1, of "mem_usage1 env" "rule_log env" 1]
    obtain r c us' where "user_charge (mem_usage1 env) (rule_log env) us0 user user_charge_init None USER_SLOT_MATCHES 1 = Some (r, c, us')"
      "user_inv us' ext (add_mset c (add_mset c0 C))" by blast
    with True that show ?thesis by (auto simp: add_mset_commute)
  next
    case False
    with that [of r0 user_charge_init us0] c0(2) show ?thesis by (simp add: user_account.unused add_mset_commute)
  qed
  from match_rule_discharge_ok [OF inv1] obtain us2 where
    us2: "match_rule_discharge us1 c0 c1 = Some us2" "user_inv us2 ext C" by blast
  have new: "match_rule_new env us user s a =
      (if r1 \<noteq> USER_OK then Some (Inl (if r1 = USER_E_QUOTA then MATCH_E_QUOTA else MATCH_ERR r1), us2)
       else do {
         k \<leftarrow> match_keys_init s (length s + 1) a;
         case k of Inl e \<Rightarrow> Some (Inl e, us2)
         | Inr (keys, n) \<Rightarrow> Some (Inr \<lparr>n_user_refs = 0, rule_registry = None, rule_counted = False,
             rule_charge0 = c0, rule_charge1 = c1, rule_keys = keys, rule_n_buffer = n\<rparr>, us1) })"
    using False c0(1) c1 us2(1)
    by (simp add: match_rule_new_def Let_def cong: option.case_cong sum.case_cong)
  from False have len: "length s \<le> MATCH_RULE_LENGTH_MAX" by simp
  show ?thesis
  proof (cases "r1 = USER_OK")
    case True
    show ?thesis
    proof (cases rule: match_keys_init_total [OF len, of a])
      case (1 e)
      with True us2(2) show ?thesis by (simp add: new)
    next
      case (2 keys n)
      with True inv1 show ?thesis by (simp add: new)
    qed
  next
    case False
    with us2(2) show ?thesis by (simp add: new)
  qed
qed

lemma match_owner_ref_rule_ok:
  assumes inv: "match_inv w" and us: "user_inv us ext (all_charges w + C)" and can: "can_match us user"
  shows "\<exists>x w' us'. match_owner_ref_rule env w us ow user s a = Some (x, w', us') \<and> match_inv w' \<and>
    user_inv us' ext (all_charges w' + C) \<and>
    (case x of
       Inl e \<Rightarrow> w' = w
     | Inr keys \<Rightarrow> (\<exists>r. r \<in> owner_rules w' ow \<and> rule_keys r = keys \<and>
         (case rb_find match_rule_compare keys (rule_tree (match_owners w ow)) of
            None \<Rightarrow> n_user_refs r = 1 \<and> rule_registry r = None \<and> owner_rules w' ow = insert r (owner_rules w ow)
          | Some old \<Rightarrow> r = old\<lparr>n_user_refs := n_user_refs old + 1\<rparr> \<and>
              owner_rules w' ow = insert r (owner_rules w ow - {old}))))"
proof -
  from match_rule_new_ok [OF us can, of env s a] obtain x us1 where
    new: "match_rule_new env us user s a = Some (x, us1)" and
    x: "case x of
       Inl e \<Rightarrow> user_inv us1 ext (all_charges w + C)
     | Inr r \<Rightarrow> user_inv us1 ext ({#rule_charge0 r, rule_charge1 r#} + (all_charges w + C)) \<and> n_user_refs r = 0 \<and>
         rule_registry r = None \<and> \<not> rule_counted r \<and> keys_ok (rule_keys r) \<and>
         keys_size (rule_keys r) \<le> rule_n_buffer r" by blast
  show ?thesis
  proof (cases x)
    case (Inl e)
    with new x inv show ?thesis by (simp add: match_owner_ref_rule_def)
  next
    case (Inr r)
    let ?r = "r\<lparr>n_user_refs := Suc 0\<rparr>"
    have r: "user_inv us1 ext ({#rule_charge0 r, rule_charge1 r#} + (all_charges w + C))" "n_user_refs r = 0"
      "rule_registry r = None" "\<not> rule_counted r" "keys_ok (rule_keys r)" "keys_size (rule_keys r) \<le> rule_n_buffer r"
      using x Inr by simp_all
    show ?thesis
    proof (cases "rb_find match_rule_compare (rule_keys r) (rule_tree (match_owners w ow))")
      case None
      let ?w = "upd_owner_rules ow (rb_add match_rule_compare (rule_keys r) ?r) w"
      have "match_owner_ref_rule env w us ow user s a = Some (Inr (rule_keys r), ?w, us1)"
        using new Inr None r(2) by (simp add: match_owner_ref_rule_def)
      moreover have "match_inv ?w" "owner_rules ?w ow = insert ?r (owner_rules w ow)"
        using match_inv_add [OF inv, of ?r ow] None r by (simp_all add: rule_ok_def)
      moreover have "user_inv us1 ext (all_charges ?w + C)"
      proof -
        have "all_charges ?w = {#rule_charge0 r, rule_charge1 r#} + all_charges w"
          by (rule all_charges_change [of ow]) (simp_all add: rule_charges_def mset_rb_add)
        then show ?thesis using r(1) by (simp only: add.assoc)
      qed
      moreover have "rule_keys ?r = rule_keys r" "n_user_refs ?r = 1" "rule_registry ?r = None" using r(3) by simp_all
      ultimately show ?thesis using None by (auto intro!: exI [of _ ?r])
    next
      case (Some old)
      then have old: "old \<in> owner_rules w ow" "rule_keys old = rule_keys r"
        using find_rule_iff [OF inv r(5)] by blast+
      let ?old = "old\<lparr>n_user_refs := n_user_refs old + 1\<rparr>"
      from match_rule_discharge_ok [OF r(1)] obtain us2 where
        us2: "match_rule_discharge us1 (rule_charge0 r) (rule_charge1 r) = Some us2" "user_inv us2 ext (all_charges w + C)"
        by blast
      have "match_owner_ref_rule env w us ow user s a = Some (Inr (rule_keys old), put_rule ow ?old w, us2)"
        using new Inr Some r(2) us2(1) match_rule_user_ref_ok(1) [OF inv old(1)]
        by (simp add: match_owner_ref_rule_def match_rule_drop_new_def)
      moreover have "all_charges (put_rule ow ?old w) = all_charges w"
        by (rule put_rule_charges [OF inv old(1)]) simp_all
      moreover have "owner_rules (put_rule ow ?old w) ow = insert ?old (owner_rules w ow - {old})"
        by (rule put_rule_rules(2) [OF inv old(1)]) simp
      ultimately show ?thesis
        using match_rule_user_ref_ok(2) [OF inv old(1)] us2(2) Some old(2) by auto
    qed
  qed
qed

section \<open>Flushing a registry\<close>

lemma index_rule_list_set: "set (index_rule_list t) = index_rules t"
  by (force simp: index_rule_list_def index_rules_def by_path_level.contents_def by_interface_level.node_content_def
      by_interface_level.contents_def by_member_level.node_content_def by_member_level.contents_def
      by_keys_level.node_content_def by_keys_level.contents_def by_keys_content_def)

lemma match_rules_unlink_ok:
  assumes "match_inv w" "\<And>ow keys. (ow, keys) \<in> set rs \<Longrightarrow> keys \<in> rule_keys ` owner_rules w ow"
  shows "\<exists>w'. match_rules_unlink w rs = Some w' \<and> match_inv w' \<and> all_charges w' = all_charges w \<and>
    (\<forall>reg m. linked_rules w' reg m = linked_rules w reg m - set rs) \<and>
    (\<forall>ow. rule_keys ` owner_rules w' ow = rule_keys ` owner_rules w ow)"
  using assms
proof (induction rs arbitrary: w)
  case Nil
  then show ?case by simp
next
  case (Cons x rs)
  obtain ow keys where x: "x = (ow, keys)" by (cases x)
  with Cons.prems(2) obtain r where r: "r \<in> owner_rules w ow" "rule_keys r = keys" by fastforce
  have f: "rb_find match_rule_compare keys (rule_tree (match_owners w ow)) = Some r"
    using find_rule_iff [OF Cons.prems(1)] match_invD(3) [OF Cons.prems(1) r(1)] r by blast
  let ?r = "r\<lparr>rule_counted := False, rule_registry := None\<rparr>"
  from match_rule_unlink_put [OF Cons.prems(1) r(1)] obtain w1 where
    u: "match_rule_unlink w ow r = Some (w1, ?r)" and
    w1: "match_inv (put_rule ow ?r w1)"
      "\<And>reg m. linked_rules (put_rule ow ?r w1) reg m = linked_rules w reg m - {(ow, rule_keys r)}"
      "all_charges (put_rule ow ?r w1) = all_charges w"
      "\<And>o'. rule_keys ` owner_rules (put_rule ow ?r w1) o' = rule_keys ` owner_rules w o'" by blast
  have "keys' \<in> rule_keys ` owner_rules (put_rule ow ?r w1) ow'" if "(ow', keys') \<in> set rs" for ow' keys'
    using Cons.prems(2) [of ow' keys'] that w1(4) by simp
  from Cons.IH [OF w1(1) this] obtain w' where
    w': "match_rules_unlink (put_rule ow ?r w1) rs = Some w'" "match_inv w'" "all_charges w' = all_charges w"
      "\<And>reg m. linked_rules w' reg m = linked_rules w reg m - {(ow, rule_keys r)} - set rs"
      "\<And>o'. rule_keys ` owner_rules w' o' = rule_keys ` owner_rules w o'"
    using w1(2-4) by auto
  have "linked_rules w' reg m = linked_rules w reg m - set (x # rs)" for reg m
    unfolding w'(4) x r(2) by auto
  with w' x f u show ?case by simp
qed

lemma match_registry_flush_tree_ok:
  assumes inv: "match_inv w"
  shows "\<exists>w'. match_registry_flush_tree w reg m = Some w' \<and> match_inv w' \<and> all_charges w' = all_charges w \<and>
    (\<forall>reg' m'. linked_rules w' reg' m' = (if reg' = reg \<and> m' = m then {} else linked_rules w reg' m'))"
proof -
  let ?rs = "index_rule_list (reg_tree w reg m)"
  have rs: "set ?rs = linked_rules w reg m"
    using index_rule_list_set match_invD(6) [OF inv] by simp
  then have "keys \<in> rule_keys ` owner_rules w ow" if "(ow, keys) \<in> set ?rs" for ow keys
    using that by (auto simp: linked_rules_def)
  then obtain w' where
    w': "match_rules_unlink w ?rs = Some w'" "match_inv w'" "all_charges w' = all_charges w"
      "\<And>reg' m'. linked_rules w' reg' m' = linked_rules w reg' m' - linked_rules w reg m"
    using match_rules_unlink_ok [OF inv, of ?rs] rs by auto
  have "linked_rules w' reg m = {}" by (simp add: w'(4))
  then have "reg_tree w' reg m = []"
    using match_invD(5,6) [OF w'(2), of reg m] index_rules_empty by blast
  moreover have "index_flush (reg_tree w reg m) = Some []"
    using by_path_level.flush_ok match_invD(5) [OF inv, of reg m] by (simp add: index_ok_def index_flush_def)
  moreover have "linked_rules w' reg' m' = linked_rules w reg' m'" if "\<not> (reg' = reg \<and> m' = m)" for reg' m'
  proof -
    have "(ow, k) \<notin> linked_rules w reg m" if "(ow, k) \<in> linked_rules w reg' m'" for ow k
    proof -
      from that obtain r where r: "r \<in> owner_rules w ow" "rule_keys r = k" "rule_registry r = Some (reg', m')"
        by (auto simp: linked_rules_def)
      with rule_linked_iff [OF inv r(1), of reg m] \<open>\<not> (reg' = reg \<and> m' = m)\<close> show ?thesis by auto
    qed
    then show ?thesis unfolding w'(4) by auto
  qed
  ultimately show ?thesis using w' by (simp add: match_registry_flush_tree_def)
qed

lemma match_registry_flush_ok:
  assumes "match_inv w"
  shows "\<exists>w'. match_registry_flush w reg = Some w' \<and> match_inv w' \<and> all_charges w' = all_charges w \<and>
    (\<forall>reg' m'. linked_rules w' reg' m' = (if reg' = reg then {} else linked_rules w reg' m'))"
proof -
  from match_registry_flush_tree_ok [OF assms, of reg False] obtain w1 where
    1: "match_registry_flush_tree w reg False = Some w1" "match_inv w1" "all_charges w1 = all_charges w"
      "\<And>reg' m'. linked_rules w1 reg' m' = (if reg' = reg \<and> m' = False then {} else linked_rules w reg' m')" by blast
  from match_registry_flush_tree_ok [OF 1(2), of reg True] obtain w2 where
    2: "match_registry_flush_tree w1 reg True = Some w2" "match_inv w2" "all_charges w2 = all_charges w1"
      "\<And>reg' m'. linked_rules w2 reg' m' = (if reg' = reg \<and> m' = True then {} else linked_rules w1 reg' m')" by blast
  have "linked_rules w2 reg' m' = (if reg' = reg then {} else linked_rules w reg' m')" for reg' m'
    by (cases m') (simp_all add: 1(4) 2(4))
  with 1 2 show ?thesis by (simp add: match_registry_flush_def)
qed

section \<open>Reachable worlds\<close>

text \<open>
  The steps the callers take: adding a reference to a rule, linking a rule (into the one
  registry it belongs to, as the callers compute it from the rule), dropping a reference,
  flushing a registry. Any allocation may fail.
\<close>

definition match_start :: match_world where
  "match_start = \<lparr>match_owners = (\<lambda>_. match_owner_init), match_registries = (\<lambda>_. match_registry_init),
     match_counts = \<lparr>n_subscriptions = 0, n_subscriptions_peak = 0, n_owner_subscriptions_peak = 0\<rparr>\<rparr>"

inductive match_reach :: "user_registry \<Rightarrow> match_world \<Rightarrow> user_registry \<Rightarrow> bool" for us0 where
  start: "match_reach us0 match_start us0"
| ref_rule: "\<lbrakk>match_reach us0 w us; can_match us user;
     match_owner_ref_rule env w us ow user s a = Some (x, w', us')\<rbrakk> \<Longrightarrow> match_reach us0 w' us'"
| link: "\<lbrakk>match_reach us0 w us; r \<in> owner_rules w ow;
     \<And>reg' m. rule_registry r = Some (reg', m) \<Longrightarrow> reg' = reg \<and> rule_counted r = counters;
     match_rule_link lenv w ow r counters reg monitor = Some (good, w')\<rbrakk> \<Longrightarrow> match_reach us0 w' us"
| unref: "\<lbrakk>match_reach us0 w us; r \<in> owner_rules w ow;
     match_rule_user_unref w us ow r = Some (w', us')\<rbrakk> \<Longrightarrow> match_reach us0 w' us'"
| flush: "\<lbrakk>match_reach us0 w us; match_registry_flush w reg = Some w'\<rbrakk> \<Longrightarrow> match_reach us0 w' us"

lemma match_start_inv: "match_inv match_start" "all_charges match_start = {#}"
proof -
  show "match_inv match_start"
    by (simp add: match_inv_def match_start_def match_owner_init_def match_registry_init_def owner_rules_def
        rule_index.ordered_Nil n_counted_def reg_tree_def index_empty linked_rules_def)
  show "all_charges match_start = {#}"
    by (simp add: all_charges_def match_start_def match_owner_init_def rule_charges_def)
qed

lemma match_reach_inv:
  assumes "match_reach us0 w us" "user_inv us0 ext C"
  shows "match_inv w \<and> user_inv us ext (all_charges w + C)"
  using assms
proof (induction rule: match_reach.induct)
  case start
  then show ?case by (simp add: match_start_inv)
next
  case (ref_rule w us user env ow s a x w' us')
  then show ?case using match_owner_ref_rule_ok [of w us ext C user env ow s a] by auto
next
  case (link w us r ow reg counters lenv monitor good w')
  then show ?case using match_rule_link_ok [of w r ow reg counters lenv monitor] by auto
next
  case (unref w us r ow w' us')
  then show ?case using match_rule_user_unref_ok [of w r ow us ext C] by auto
next
  case (flush w us reg w')
  then show ?case using match_registry_flush_ok [of w reg] by auto
qed

section \<open>Properties of match rules\<close>

text \<open>
  C29: subscribing. In a consistent world, adding a rule for an owner never aborts, whatever
  the rule string is and whichever allocations or charges fail. On failure nothing has
  changed and no charge is left behind. On success the owner holds exactly one rule with
  the keys: a new one with one reference, or the one it had with one reference more.
\<close>
theorem match_owner_ref_rule_once:
  assumes "match_inv w" "user_inv us ext (all_charges w + C)" "can_match us user"
  shows "\<exists>x w' us'. match_owner_ref_rule env w us ow user s a = Some (x, w', us') \<and> match_inv w' \<and>
    user_inv us' ext (all_charges w' + C) \<and>
    (case x of
       Inl e \<Rightarrow> w' = w
     | Inr keys \<Rightarrow> (\<exists>r. r \<in> owner_rules w' ow \<and> rule_keys r = keys \<and>
         (case rb_find match_rule_compare keys (rule_tree (match_owners w ow)) of
            None \<Rightarrow> n_user_refs r = 1 \<and> rule_registry r = None \<and> owner_rules w' ow = insert r (owner_rules w ow)
          | Some old \<Rightarrow> r = old\<lparr>n_user_refs := n_user_refs old + 1\<rparr> \<and>
              owner_rules w' ow = insert r (owner_rules w ow - {old}))))"
  by (rule match_owner_ref_rule_ok [OF assms])

lemma can_match_one_user: "can_match (one_user 4 [9999, 9, 9, 9] 1) (Some 1)"
  by (simp add: can_match_def one_user_def user_registry_init_def user_new_def USER_SLOT_BYTES_def USER_SLOT_MATCHES_def)

lemma one_user_start: "user_inv (one_user 4 [9999, 9, 9, 9] 1) ((\<lambda>_. 0)(1 := 1)) (all_charges match_start + {#})"
  using one_user_inv [of 4 "[9999, 9, 9, 9]" 1] by (simp add: match_start_inv)

definition plenty :: match_env where
  "plenty = \<lparr>mem_rule = True, mem_usage0 = True, mem_usage1 = True, rule_log = True, rule_size = 1500\<rparr>"

theorem match_owner_ref_rule_once_witness:
  "\<exists>x w' us'. match_owner_ref_rule plenty match_start (one_user 4 [9999, 9, 9, 9] 1) 7 (Some 1) ''type=signal'' False =
     Some (x, w', us') \<and> match_inv w'"
  using match_owner_ref_rule_once [OF match_start_inv(1) one_user_start can_match_one_user,
      of plenty 7 "''type=signal''" False] by blast

text \<open>
  C30: in every world the operations can reach, the index of every registry holds exactly the
  rules that are linked into it, every owner has at most one rule per keys, the counters of
  the bus and of the owners are exact, every charge of a rule is accounted for, and a lookup
  yields exactly the owners of the linked rules that match.
\<close>
theorem match_world_consistent:
  assumes "match_reach us0 w us" "user_inv us0 ext C"
  shows "n_subscriptions (match_counts w) = (\<Sum>ow \<in> UNIV. n_owner_subscriptions (match_owners w ow)) \<and>
    (\<forall>ow. n_owner_subscriptions (match_owners w ow) = n_counted (owner_rules w ow) \<and>
       distinct (map rule_keys (rule_tree (match_owners w ow)))) \<and>
    (\<forall>reg md. set (match_registry_get_subscribers (match_registries w reg) [] md) =
       {ow. \<exists>r \<in> owner_rules w ow. rule_registry r = Some (reg, False) \<and> match_keys_match_metadata (rule_keys r) md}) \<and>
    (\<forall>reg md. set (match_registry_get_monitors (match_registries w reg) [] md) =
       {ow. \<exists>r \<in> owner_rules w ow. rule_registry r = Some (reg, True) \<and> match_keys_match_metadata (rule_keys r) md}) \<and>
    user_inv us ext (all_charges w + C)"
proof -
  from match_reach_inv [OF assms] have inv: "match_inv w" and us: "user_inv us ext (all_charges w + C)" by blast+
  have dest: "set (match_registry_get_destinations (reg_tree w reg m) [] md) =
      {ow. \<exists>r \<in> owner_rules w ow. rule_registry r = Some (reg, m) \<and> match_keys_match_metadata (rule_keys r) md}" for reg m md
    using path_lookup.list_lookup [of "reg_tree w reg m" md "[]"] match_invD(5,6) [OF inv, of reg m]
    by (auto simp: index_ok_def index_rules_def match_registry_get_destinations_def linked_rules_def)
  have "distinct (map rule_keys (rule_tree (match_owners w ow)))" for ow
    by (rule rule_index.ordered_keys_distinct [OF match_invD(1) [OF inv]])
  moreover have "set (match_registry_get_subscribers (match_registries w reg) [] md) =
      {ow. \<exists>r \<in> owner_rules w ow. rule_registry r = Some (reg, False) \<and> match_keys_match_metadata (rule_keys r) md}" for reg md
    using dest [of reg False md] by (simp add: match_registry_get_subscribers_def reg_tree_def)
  moreover have "set (match_registry_get_monitors (match_registries w reg) [] md) =
      {ow. \<exists>r \<in> owner_rules w ow. rule_registry r = Some (reg, True) \<and> match_keys_match_metadata (rule_keys r) md}" for reg md
    using dest [of reg True md] by (simp add: match_registry_get_monitors_def reg_tree_def)
  ultimately show ?thesis using us match_invD(4,7) [OF inv] by simp
qed

theorem match_world_consistent_witness:
  "n_subscriptions (match_counts match_start) = (\<Sum>ow \<in> UNIV. n_owner_subscriptions (match_owners match_start ow)) \<and>
   user_inv (one_user 4 [9999, 9, 9, 9] 1) ((\<lambda>_. 0)(1 := 1)) (all_charges match_start + {#})"
  using match_world_consistent [OF match_reach.start, of "one_user 4 [9999, 9, 9, 9] 1" "(\<lambda>_. 0)(1 := 1)" "{#}"]
    one_user_inv [of 4 "[9999, 9, 9, 9]" 1] by simp

text \<open>
  Dropping a reference to a rule and flushing a registry. In a consistent world neither
  aborts. Dropping the last reference removes the rule from its owner, from the index of its
  registry and from the counters and releases its charges; dropping another one only counts
  down. After flushing a registry no rule is linked into it any more, all other registries
  are as before, and every rule stays with its owner's charges.
\<close>
theorem match_rule_release_complete:
  assumes "match_inv w" "r \<in> owner_rules w ow" "user_inv us ext (all_charges w + C)"
  shows "(\<exists>w' us'. match_rule_user_unref w us ow r = Some (w', us') \<and> match_inv w' \<and>
      user_inv us' ext (all_charges w' + C) \<and>
      owner_rules w' ow = (if n_user_refs r = 1 then owner_rules w ow - {r}
        else insert (r\<lparr>n_user_refs := n_user_refs r - 1\<rparr>) (owner_rules w ow - {r}))) \<and>
    (\<exists>w'. match_registry_flush w reg = Some w' \<and> match_inv w' \<and> all_charges w' = all_charges w \<and>
      (\<forall>reg' m'. linked_rules w' reg' m' = (if reg' = reg then {} else linked_rules w reg' m')))"
  using match_rule_user_unref_ok [OF assms] match_registry_flush_ok [OF assms(1)] by blast

definition one_rule :: match_rule where
  "one_rule = \<lparr>n_user_refs = 1, rule_registry = None, rule_counted = False, rule_charge0 = user_charge_init,
     rule_charge1 = user_charge_init, rule_keys = MATCH_KEYS_NULL, rule_n_buffer = 0\<rparr>"

theorem match_rule_release_complete_witness:
  "\<exists>w w' us'. owner_rules w 7 = {one_rule} \<and>
     match_rule_user_unref w (one_user 4 [9999, 9, 9, 9] 1) 7 one_rule = Some (w', us') \<and> owner_rules w' 7 = {}"
proof -
  let ?w = "upd_owner_rules 7 (rb_add match_rule_compare (rule_keys one_rule) one_rule) match_start"
  have start: "owner_rules match_start 7 = {}" "rule_tree (match_owners match_start 7) = []"
    by (simp_all add: owner_rules_def match_start_def match_owner_init_def)
  have "keys_ok (rule_keys one_rule)" "rule_ok one_rule" "rule_registry one_rule = None"
    by (simp_all add: one_rule_def match_keys_null_ok rule_ok_def)
  note add = match_inv_add [OF match_start_inv(1) this, of 7]
  have w: "match_inv ?w" "owner_rules ?w 7 = {one_rule}"
    using add start by (simp_all add: rb_find_def)
  have "all_charges ?w = {#rule_charge0 one_rule, rule_charge1 one_rule#} + all_charges match_start"
    by (rule all_charges_change [of 7]) (simp_all add: rule_charges_def start)
  then have us: "user_inv (one_user 4 [9999, 9, 9, 9] 1) ((\<lambda>_. 0)(1 := 1)) (all_charges ?w + {#})"
    using one_user_start by (simp add: one_rule_def user_account.unused)
  have r: "one_rule \<in> owner_rules ?w 7" unfolding w(2) by simp
  have n: "(if n_user_refs one_rule = 1 then {one_rule} - {one_rule}
      else insert (one_rule\<lparr>n_user_refs := n_user_refs one_rule - 1\<rparr>) ({one_rule} - {one_rule})) = {}"
    by (simp add: one_rule_def)
  from match_rule_release_complete [OF w(1) r us, THEN conjunct1, unfolded w(2) n] obtain w' us' where
    "match_rule_user_unref ?w (one_user 4 [9999, 9, 9, 9] 1) 7 one_rule = Some (w', us')" "owner_rules w' 7 = {}"
    by blast
  with w(2) show ?thesis by blast
qed

end
