(* ===== verification/Name.thy ===== *)
theory Name
  imports User Protocol
begin

text \<open>
  Well-known names (\<open>src/bus/name.h\<close>, \<open>src/bus/name.c\<close>): the queue of owners of every
  name, the names every peer owns or waits for, the notification of a change of the
  primary owner, and the statistics counters.

  A \<open>Name\<close> is identified by its string, since the registry holds at most one object per
  string, a \<open>NameOwner\<close> by the id of the peer that embeds it, and a \<open>NameOwnership\<close> by
  its owner and its name. \<open>name_world\<close> is the registry together with all owners. The
  ownership tree of an owner, an index by the address of the name, is an association
  list in the order of insertion; its order is not used. The names' match registries and
  activation belong to other components; what matters here is that they are asserted to
  be gone when a name is freed, and that each activation and each match rule holds a
  reference to the name. \<open>None\<close> is a failed assertion or a dangling reference.
\<close>

section \<open>Objects\<close>

datatype name_ret = NAME_OK | NAME_E_NOT_FOUND | NAME_E_NOT_OWNER | NAME_E_QUOTA
  | NAME_E_ALREADY_OWNER | NAME_E_IN_QUEUE | NAME_E_EXISTS | NAME_ENOMEM | NAME_ERR user_ret

record name_change =
  change_name :: "string option"
  old_owner :: "owner_id option"
  new_owner :: "owner_id option"

record ownership =
  own_flags :: u64
  own_charge :: user_charge

record name_entry =
  name_refs :: nat
  name_activation :: bool
  n_matches :: nat
  ownership_list :: "owner_id list"

record name_owner =
  n_owner_primaries :: u64
  ownership_tree :: "(string \<times> ownership) list"

record name_world =
  n_primaries :: u64
  n_primaries_peak :: u64
  n_owner_primaries_peak :: u64
  names :: "string \<rightharpoonup> name_entry"
  owners :: "owner_id \<Rightarrow> name_owner"

text \<open>The outcomes of the allocations of one call, and of the log.\<close>

record name_env =
  mem_name :: bool
  mem_ownership :: bool
  mem_usage :: bool
  log_works :: bool


definition has_flag :: "u64 \<Rightarrow> u64 \<Rightarrow> bool" where
  "has_flag flags f \<longleftrightarrow> and flags f \<noteq> 0"

section \<open>Access paths\<close>

definition upd_name :: "string \<Rightarrow> (name_entry \<Rightarrow> name_entry) \<Rightarrow> name_world \<Rightarrow> name_world" where
  "upd_name n f w = w\<lparr>names := (names w)(n := map_option f (names w n))\<rparr>"

definition upd_owner :: "owner_id \<Rightarrow> (name_owner \<Rightarrow> name_owner) \<Rightarrow> name_world \<Rightarrow> name_world" where
  "upd_owner ow f w = w\<lparr>owners := (owners w)(ow := f (owners w ow))\<rparr>"

definition owned :: "name_world \<Rightarrow> owner_id \<Rightarrow> string \<Rightarrow> ownership option" where
  "owned w ow n = map_of (ownership_tree (owners w ow)) n"

definition queue :: "name_world \<Rightarrow> string \<Rightarrow> owner_id list" where
  "queue w n = (case names w n of None \<Rightarrow> [] | Some e \<Rightarrow> ownership_list e)"

definition tree_modify :: "string \<Rightarrow> (ownership \<Rightarrow> ownership) \<Rightarrow> (string \<times> ownership) list \<Rightarrow> (string \<times> ownership) list" where
  "tree_modify n f t = map (\<lambda>(m, x). (m, if m = n then f x else x)) t"

definition tree_remove :: "string \<Rightarrow> (string \<times> ownership) list \<Rightarrow> (string \<times> ownership) list" where
  "tree_remove n t = filter (\<lambda>(m, x). m \<noteq> n) t"

definition set_queue :: "string \<Rightarrow> owner_id list \<Rightarrow> name_world \<Rightarrow> name_world" where
  "set_queue n q = upd_name n (\<lambda>e. e\<lparr>ownership_list := q\<rparr>)"

definition owner_inc :: "owner_id \<Rightarrow> name_world \<Rightarrow> name_world" where
  "owner_inc ow = upd_owner ow (\<lambda>x. x\<lparr>n_owner_primaries := n_owner_primaries x + 1\<rparr>)"

definition owner_dec :: "owner_id \<Rightarrow> name_world \<Rightarrow> name_world" where
  "owner_dec ow = upd_owner ow (\<lambda>x. x\<lparr>n_owner_primaries := n_owner_primaries x - 1\<rparr>)"

definition owner_peak :: "owner_id \<Rightarrow> name_world \<Rightarrow> name_world" where
  "owner_peak ow w = w\<lparr>n_owner_primaries_peak :=
     util_peak_update (n_owner_primaries_peak w) (n_owner_primaries (owners w ow))\<rparr>"

section \<open>Operations\<close>

definition c_list_first :: "'a list \<Rightarrow> 'a option" where
  "c_list_first xs = (case xs of [] \<Rightarrow> None | x # _ \<Rightarrow> Some x)"

definition name_primary :: "name_world \<Rightarrow> string \<Rightarrow> owner_id option" where
  "name_primary w n = c_list_first (queue w n)"

definition name_ref :: "name_world \<Rightarrow> string \<Rightarrow> name_world option" where
  "name_ref w n = do {
     e \<leftarrow> names w n;
     _ \<leftarrow> c_assert (name_refs e > 0);
     Some (upd_name n (\<lambda>e. e\<lparr>name_refs := name_refs e + 1\<rparr>) w) }"

definition name_free :: "name_world \<Rightarrow> string \<Rightarrow> name_world option" where
  "name_free w n = do {
     e \<leftarrow> names w n;
     _ \<leftarrow> c_assert (ownership_list e = []);
     _ \<leftarrow> c_assert (\<not> name_activation e);
     _ \<leftarrow> c_assert (n_matches e = 0);
     Some (w\<lparr>names := (names w)(n := None)\<rparr>) }"

definition name_unref :: "name_world \<Rightarrow> string \<Rightarrow> name_world option" where
  "name_unref w n = do {
     e \<leftarrow> names w n;
     _ \<leftarrow> c_assert (name_refs e > 0);
     let w = upd_name n (\<lambda>e. e\<lparr>name_refs := name_refs e - 1\<rparr>) w;
     if name_refs e = 1 then name_free w n else Some w }"

definition name_change_init :: name_change where
  "name_change_init = \<lparr>change_name = None, old_owner = None, new_owner = None\<rparr>"

definition name_change_deinit :: "name_world \<Rightarrow> name_change \<Rightarrow> (name_world \<times> name_change) option" where
  "name_change_deinit w c =
     (case change_name c of
        None \<Rightarrow> Some (w, name_change_init)
      | Some n \<Rightarrow> map_option (\<lambda>w. (w, name_change_init)) (name_unref w n))"

definition name_new :: name_entry where
  "name_new = \<lparr>name_refs = 1, name_activation = False, n_matches = 0, ownership_list = []\<rparr>"

definition name_owner_init :: name_owner where
  "name_owner_init = \<lparr>n_owner_primaries = 0, ownership_tree = []\<rparr>"

definition name_owner_deinit :: "name_owner \<Rightarrow> unit option" where
  "name_owner_deinit x = c_assert (ownership_tree x = [])"

definition name_owner_get_stats :: "name_owner \<Rightarrow> u32" where
  "name_owner_get_stats x = foldl (\<lambda>n (_, own). n + ch_charge (own_charge own)) 0 (ownership_tree x)"

definition name_registry_init :: name_world where
  "name_registry_init = \<lparr>n_primaries = 0, n_primaries_peak = 0, n_owner_primaries_peak = 0,
     names = Map.empty, owners = (\<lambda>_. name_owner_init)\<rparr>"

definition name_registry_deinit :: "name_world \<Rightarrow> unit option" where
  "name_registry_deinit w = c_assert (names w = Map.empty)"

definition name_registry_find_name :: "name_world \<Rightarrow> string \<Rightarrow> name_entry option" where
  "name_registry_find_name w n = names w n"

definition name_registry_ref_name :: "name_env \<Rightarrow> name_world \<Rightarrow> string \<Rightarrow> (name_ret \<times> name_world) option" where
  "name_registry_ref_name env w n =
     (case names w n of
        Some _ \<Rightarrow> map_option (Pair NAME_OK) (name_ref w n)
      | None \<Rightarrow>
          if \<not> mem_name env then Some (NAME_ENOMEM, w)
          else Some (NAME_OK, w\<lparr>names := (names w)(n \<mapsto> name_new)\<rparr>))"

text \<open>Freeing an ownership that is in the owner's tree, and one that was not linked yet.\<close>

definition name_ownership_drop ::
  "name_world \<Rightarrow> user_registry \<Rightarrow> ownership \<Rightarrow> string \<Rightarrow> (name_world \<times> user_registry) option" where
  "name_ownership_drop w us own n = do {
     (_, us) \<leftarrow> user_charge_deinit us (own_charge own);
     w \<leftarrow> name_unref w n;
     Some (w, us) }"

definition name_ownership_free ::
  "name_world \<Rightarrow> user_registry \<Rightarrow> owner_id \<Rightarrow> string \<Rightarrow> (name_world \<times> user_registry) option" where
  "name_ownership_free w us ow n = do {
     own \<leftarrow> owned w ow n;
     _ \<leftarrow> c_assert (ow \<notin> set (queue w n));
     name_ownership_drop
       (upd_owner ow (\<lambda>x. x\<lparr>ownership_tree := tree_remove n (ownership_tree x)\<rparr>) w) us own n }"

definition name_ownership_new ::
  "name_env \<Rightarrow> name_world \<Rightarrow> user_registry \<Rightarrow> uid option \<Rightarrow> string \<Rightarrow>
   (name_ret \<times> ownership option \<times> name_world \<times> user_registry) option" where
  "name_ownership_new env w us user n =
     (if \<not> mem_ownership env then Some (NAME_ENOMEM, None, w, us)
      else do {
        w \<leftarrow> name_ref w n;
        (r, ch, us) \<leftarrow> user_charge (mem_usage env) (log_works env) us user user_charge_init None USER_SLOT_OBJECTS 1;
        let own = \<lparr>own_flags = 0, own_charge = ch\<rparr>;
        if r \<noteq> USER_OK
        then do {
          (w, us) \<leftarrow> name_ownership_drop w us own n;
          Some (if r = USER_E_QUOTA then NAME_E_QUOTA else NAME_ERR r, None, w, us) }
        else Some (NAME_OK, Some own, w, us) })"

definition name_ownership_link :: "owner_id \<Rightarrow> string \<Rightarrow> ownership \<Rightarrow> name_world \<Rightarrow> name_world" where
  "name_ownership_link ow n own =
     upd_owner ow (\<lambda>x. x\<lparr>ownership_tree := ownership_tree x @ [(n, own)]\<rparr>)"

definition name_ownership_is_primary :: "name_world \<Rightarrow> owner_id \<Rightarrow> string \<Rightarrow> bool" where
  "name_ownership_is_primary w ow n \<longleftrightarrow> name_primary w n = Some ow"

definition name_change_unset :: "name_change \<Rightarrow> bool" where
  "name_change_unset c \<longleftrightarrow> change_name c = None \<and> old_owner c = None \<and> new_owner c = None"

text \<open>The part of \<open>name_ownership_release\<close> before the ownership is freed.\<close>

definition name_ownership_dequeue ::
  "name_world \<Rightarrow> owner_id \<Rightarrow> string \<Rightarrow> name_change \<Rightarrow> (name_world \<times> name_change) option" where
  "name_ownership_dequeue w ow n change = do {
     _ \<leftarrow> c_assert (name_change_unset change);
     _ \<leftarrow> names w n;
     let primary = name_primary w n;
     let w = set_queue n (removeAll ow (queue w n)) w;
     if primary = Some ow
     then do {
       let w = owner_dec ow w;
       let w = w\<lparr>n_primaries := n_primaries w - 1\<rparr>;
       let primary = name_primary w n;
       w \<leftarrow> name_ref w n;
       let change = \<lparr>change_name = Some n, old_owner = Some ow, new_owner = primary\<rparr>;
       Some (case primary of
         None \<Rightarrow> (w, change)
       | Some p \<Rightarrow> (owner_peak p (owner_inc p (w\<lparr>n_primaries := n_primaries w + 1\<rparr>)), change)) }
     else Some (w, change) }"

definition name_ownership_release ::
  "name_world \<Rightarrow> user_registry \<Rightarrow> owner_id \<Rightarrow> string \<Rightarrow> name_change \<Rightarrow>
   (name_world \<times> user_registry \<times> name_change) option" where
  "name_ownership_release w us ow n change = do {
     (w, change) \<leftarrow> name_ownership_dequeue w ow n change;
     (w, us) \<leftarrow> name_ownership_free w us ow n;
     Some (w, us, change) }"

definition name_ownership_update ::
  "name_world \<Rightarrow> user_registry \<Rightarrow> owner_id \<Rightarrow> string \<Rightarrow> u32 \<Rightarrow> name_change \<Rightarrow>
   (name_ret \<times> name_world \<times> user_registry \<times> name_change) option" where
  "name_ownership_update w us ow n flags change = do {
     _ \<leftarrow> c_assert (name_change_unset change);
     _ \<leftarrow> names w n;
     let q = queue w n;
     let flags = (ucast flags :: u64);
     let w = upd_owner ow (\<lambda>x. x\<lparr>ownership_tree :=
               tree_modify n (\<lambda>y. y\<lparr>own_flags := flags\<rparr>) (ownership_tree x)\<rparr>) w;
     case name_primary w n of
       None \<Rightarrow> do {
         w \<leftarrow> name_ref w n;
         _ \<leftarrow> c_assert (ow \<notin> set q);
         let w = set_queue n (ow # q) w;
         let w = owner_inc ow (w\<lparr>n_primaries := n_primaries w + 1\<rparr>);
         let w = w\<lparr>n_primaries_peak := util_peak_update (n_primaries_peak w) (n_primaries w)\<rparr>;
         Some (NAME_OK, owner_peak ow w, us, \<lparr>change_name = Some n, old_owner = None, new_owner = Some ow\<rparr>) }
     | Some p \<Rightarrow>
         if p = ow then Some (NAME_E_ALREADY_OWNER, w, us, change)
         else do {
           primary \<leftarrow> owned w p n;
           if has_flag flags DBUS_NAME_FLAG_REPLACE_EXISTING \<and>
              has_flag (own_flags primary) DBUS_NAME_FLAG_ALLOW_REPLACEMENT
           then do {
             w \<leftarrow> name_ref w n;
             let w = set_queue n (ow # removeAll ow q) w;
             let w = owner_peak ow (owner_inc ow (owner_dec p w));
             (w, us) \<leftarrow>
               (if has_flag (own_flags primary) DBUS_NAME_FLAG_DO_NOT_QUEUE
                then name_ownership_free (set_queue n (removeAll p (queue w n)) w) us p n
                else Some (w, us));
             Some (NAME_OK, w, us, \<lparr>change_name = Some n, old_owner = Some p, new_owner = Some ow\<rparr>) }
           else if \<not> has_flag flags DBUS_NAME_FLAG_DO_NOT_QUEUE
           then Some (NAME_E_IN_QUEUE, if ow \<in> set q then w else set_queue n (q @ [ow]) w, us, change)
           else Some (NAME_E_EXISTS, set_queue n (removeAll ow q) w, us, change) } }"

definition name_registry_request_name ::
  "name_env \<Rightarrow> name_world \<Rightarrow> user_registry \<Rightarrow> owner_id \<Rightarrow> uid option \<Rightarrow> string \<Rightarrow> u32 \<Rightarrow> name_change \<Rightarrow>
   (name_ret \<times> name_world \<times> user_registry \<times> name_change) option" where
  "name_registry_request_name env w us ow user n flags change = do {
     (r, w) \<leftarrow> name_registry_ref_name env w n;
     if r \<noteq> NAME_OK then Some (r, w, us, change)
     else do {
       (r, w, us) \<leftarrow>
         (case owned w ow n of
            Some _ \<Rightarrow> Some (NAME_OK, w, us)
          | None \<Rightarrow> do {
              (r, own, w, us) \<leftarrow> name_ownership_new env w us user n;
              Some (r, case own of None \<Rightarrow> w | Some x \<Rightarrow> name_ownership_link ow n x w, us) });
       if r \<noteq> NAME_OK
       then do { w \<leftarrow> name_unref w n; Some (r, w, us, change) }
       else do {
         (r, w, us, change) \<leftarrow> name_ownership_update w us ow n flags change;
         (w, us) \<leftarrow> (if ow \<in> set (queue w n) then Some (w, us) else name_ownership_free w us ow n);
         w \<leftarrow> name_unref w n;
         Some (r, w, us, change) } } }"

definition name_registry_release_name ::
  "name_world \<Rightarrow> user_registry \<Rightarrow> owner_id \<Rightarrow> string \<Rightarrow> name_change \<Rightarrow>
   (name_ret \<times> name_world \<times> user_registry \<times> name_change) option" where
  "name_registry_release_name w us ow n change =
     (case name_registry_find_name w n of
        None \<Rightarrow> Some (NAME_E_NOT_FOUND, w, us, change)
      | Some _ \<Rightarrow>
          if name_primary w n = None then Some (NAME_E_NOT_FOUND, w, us, change)
          else case owned w ow n of
            None \<Rightarrow> Some (NAME_E_NOT_OWNER, w, us, change)
          | Some _ \<Rightarrow> do {
              (w, us, change) \<leftarrow> name_ownership_release w us ow n change;
              Some (NAME_OK, w, us, change) })"

text \<open>A snapshot pins every name in the tree of an owner, queued names included.\<close>

fun name_ref_all :: "name_world \<Rightarrow> string list \<Rightarrow> name_world option" where
  "name_ref_all w [] = Some w"
| "name_ref_all w (n # ns) = do { w \<leftarrow> name_ref w n; name_ref_all w ns }"

definition name_snapshot_new ::
  "bool \<Rightarrow> name_world \<Rightarrow> owner_id \<Rightarrow> (string list option \<times> name_world) option" where
  "name_snapshot_new mem w ow =
     (if \<not> mem then Some (None, w)
      else do {
        let ns = map fst (ownership_tree (owners w ow));
        w \<leftarrow> name_ref_all w ns;
        Some (Some ns, w) })"

fun name_snapshot_free :: "name_world \<Rightarrow> string list \<Rightarrow> name_world option" where
  "name_snapshot_free w [] = Some w"
| "name_snapshot_free w (n # ns) = do { w \<leftarrow> name_unref w n; name_snapshot_free w ns }"

section \<open>Frame facts\<close>

lemma c_list_first_simps [simp]:
  "c_list_first [] = None" "c_list_first (x # xs) = Some x"
  "c_list_first xs = None \<longleftrightarrow> xs = []"
  by (auto simp: c_list_first_def split: list.splits)

lemma c_list_first_mem: "c_list_first xs = Some x \<Longrightarrow> x \<in> set xs"
  by (cases xs) auto

lemma upd_name_sel [simp]:
  "names (upd_name n f w) = (names w)(n := map_option f (names w n))"
  "owners (upd_name n f w) = owners w" "n_primaries (upd_name n f w) = n_primaries w"
  "n_primaries_peak (upd_name n f w) = n_primaries_peak w"
  "n_owner_primaries_peak (upd_name n f w) = n_owner_primaries_peak w"
  "owned (upd_name n f w) = owned w"
  by (simp_all add: upd_name_def owned_def fun_eq_iff)

lemma upd_owner_sel [simp]:
  "names (upd_owner ow f w) = names w" "n_primaries (upd_owner ow f w) = n_primaries w"
  "n_primaries_peak (upd_owner ow f w) = n_primaries_peak w"
  "n_owner_primaries_peak (upd_owner ow f w) = n_owner_primaries_peak w"
  "owners (upd_owner ow f w) = (owners w)(ow := f (owners w ow))"
  "queue (upd_owner ow f w) = queue w"
  by (simp_all add: upd_owner_def queue_def fun_eq_iff)

lemma counter_sel [simp]:
  "names (w\<lparr>n_primaries := k\<rparr>) = names w" "queue (w\<lparr>n_primaries := k\<rparr>) = queue w"
  "owned (w\<lparr>n_primaries := k\<rparr>) = owned w"
  "queue (w\<lparr>n_primaries_peak := k\<rparr>) = queue w" "owned (w\<lparr>n_primaries_peak := k\<rparr>) = owned w"
  "queue (w\<lparr>n_owner_primaries_peak := k\<rparr>) = queue w" "owned (w\<lparr>n_owner_primaries_peak := k\<rparr>) = owned w"
  by (simp_all add: queue_def owned_def fun_eq_iff)

lemma owner_inc_dec_sel [simp]:
  "names (owner_inc ow w) = names w" "names (owner_dec ow w) = names w" "names (owner_peak ow w) = names w"
  "queue (owner_inc ow w) = queue w" "queue (owner_dec ow w) = queue w" "queue (owner_peak ow w) = queue w"
  "owned (owner_inc ow w) = owned w" "owned (owner_dec ow w) = owned w" "owned (owner_peak ow w) = owned w"
  "n_primaries (owner_inc ow w) = n_primaries w" "n_primaries (owner_dec ow w) = n_primaries w"
  "n_primaries (owner_peak ow w) = n_primaries w" "owners (owner_peak ow w) = owners w"
  "n_primaries_peak (owner_inc ow w) = n_primaries_peak w" "n_primaries_peak (owner_dec ow w) = n_primaries_peak w"
  "n_primaries_peak (owner_peak ow w) = n_primaries_peak w"
  "ownership_tree (owners (owner_inc ow w) ow') = ownership_tree (owners w ow')"
  "ownership_tree (owners (owner_dec ow w) ow') = ownership_tree (owners w ow')"
  "n_owner_primaries (owners (owner_inc ow w) ow') = n_owner_primaries (owners w ow') + (if ow' = ow then 1 else 0)"
  "n_owner_primaries (owners (owner_dec ow w) ow') = n_owner_primaries (owners w ow') - (if ow' = ow then 1 else 0)"
  by (simp_all add: owner_inc_def owner_dec_def owner_peak_def owned_def fun_eq_iff)

lemma set_queue_sel [simp]:
  "names (set_queue n q w) = (names w)(n := map_option (\<lambda>e. e\<lparr>ownership_list := q\<rparr>) (names w n))"
  "owners (set_queue n q w) = owners w" "owned (set_queue n q w) = owned w"
  "n_primaries (set_queue n q w) = n_primaries w" "n_primaries_peak (set_queue n q w) = n_primaries_peak w"
  "n_owner_primaries_peak (set_queue n q w) = n_owner_primaries_peak w"
  "queue (set_queue n q w) m = (if m = n \<and> names w n \<noteq> None then q else queue w m)"
  by (auto simp: set_queue_def queue_def split: option.splits)

lemma map_of_tree_modify: "map_of (tree_modify n f t) m = (if m = n then map_option f (map_of t m) else map_of t m)"
  by (induction t) (auto simp: tree_modify_def)

lemma map_of_tree_remove: "map_of (tree_remove n t) m = (if m = n then None else map_of t m)"
  by (induction t) (auto simp: tree_remove_def)

lemma fst_tree_modify [simp]: "map fst (tree_modify n f t) = map fst t"
  by (induction t) (auto simp: tree_modify_def)

lemma distinct_tree_remove: "distinct (map fst t) \<Longrightarrow> distinct (map fst (tree_remove n t))"
  unfolding tree_remove_def by (rule distinct_map_filter)

section \<open>The invariant\<close>

text \<open>
  \<open>name_inv ext pend w\<close>: for every name the queue holds exactly the owners whose tree has
  the name, each once, apart from the owners \<open>pend\<close> whose ownership is not queued (this
  happens only inside a request), and the reference count is exact, where \<open>ext\<close> counts
  the references from outside (callers, notifications, snapshots).
\<close>

definition entry_ok :: "nat \<Rightarrow> owner_id set \<Rightarrow> owner_id set \<Rightarrow> name_entry \<Rightarrow> bool" where
  "entry_ok k own pend e \<longleftrightarrow>
     distinct (ownership_list e) \<and> own = set (ownership_list e) \<union> pend \<and> set (ownership_list e) \<inter> pend = {} \<and>
     name_refs e = k + of_bool (name_activation e) + n_matches e + length (ownership_list e) + card pend \<and>
     name_refs e \<noteq> 0"

definition name_owners :: "name_world \<Rightarrow> string \<Rightarrow> owner_id set" where
  "name_owners w n = {ow. owned w ow n \<noteq> None}"

definition name_ok :: "nat \<Rightarrow> owner_id set \<Rightarrow> name_world \<Rightarrow> string \<Rightarrow> bool" where
  "name_ok k pend w n \<longleftrightarrow>
     (case names w n of
        None \<Rightarrow> k = 0 \<and> name_owners w n = {} \<and> pend = {}
      | Some e \<Rightarrow> entry_ok k (name_owners w n) pend e)"

definition name_inv :: "(string \<Rightarrow> nat) \<Rightarrow> (string \<Rightarrow> owner_id set) \<Rightarrow> name_world \<Rightarrow> bool" where
  "name_inv ext pend w \<longleftrightarrow>
     finite (dom (names w)) \<and> (\<forall>ow. distinct (map fst (ownership_tree (owners w ow)))) \<and>
     (\<forall>n. name_ok (ext n) (pend n) w n)"

text \<open>The statistics: how many names have an owner, and how many a given owner has.\<close>

definition counters_ok :: "name_world \<Rightarrow> bool" where
  "counters_ok w \<longleftrightarrow>
     n_primaries w = of_nat (card {n. name_primary w n \<noteq> None}) \<and>
     (\<forall>ow. n_owner_primaries (owners w ow) = of_nat (card {n. name_primary w n = Some ow}))"

text \<open>The live charges of all ownerships.\<close>

definition own_charges :: "(string \<times> ownership) list \<Rightarrow> user_charge multiset" where
  "own_charges t = image_mset (own_charge \<circ> snd) (mset t)"

definition name_charges :: "name_world \<Rightarrow> user_charge multiset" where
  "name_charges w = (\<Sum>ow \<in> UNIV. own_charges (ownership_tree (owners w ow)))"

lemma name_inv_update:
  assumes "name_inv ext pend w" "finite (dom (names w'))"
    "\<And>ow. distinct (map fst (ownership_tree (owners w' ow)))"
    "\<And>m. m \<noteq> n \<Longrightarrow> names w' m = names w m" "\<And>ow m. m \<noteq> n \<Longrightarrow> owned w' ow m = owned w ow m"
    "\<And>m. m \<noteq> n \<Longrightarrow> ext' m = ext m" "\<And>m. m \<noteq> n \<Longrightarrow> pend' m = pend m"
    "name_ok (ext' n) (pend' n) w' n"
  shows "name_inv ext' pend' w'"
  unfolding name_inv_def
proof (intro conjI allI)
  fix m
  show "name_ok (ext' m) (pend' m) w' m"
  proof (cases "m = n")
    case False
    then have "name_owners w' m = name_owners w m" using assms(5) by (simp add: name_owners_def)
    with False assms have "name_ok (ext' m) (pend' m) w' m = name_ok (ext m) (pend m) w m"
      by (simp add: name_ok_def cong: option.case_cong)
    with assms(1) show ?thesis by (simp add: name_inv_def)
  qed (use assms in simp)
qed (use assms in auto)

lemma name_inv_ok: "name_inv ext pend w \<Longrightarrow> name_ok (ext n) (pend n) w n"
  by (simp add: name_inv_def)

lemma name_inv_entry: "name_inv ext pend w \<Longrightarrow> names w n = Some e \<Longrightarrow> entry_ok (ext n) (name_owners w n) (pend n) e"
  using name_inv_ok [of ext pend w n] by (simp add: name_ok_def)

lemma name_inv_cong:
  assumes "name_inv ext pend w" "names w' = names w"
    "\<And>ow. map fst (ownership_tree (owners w' ow)) = map fst (ownership_tree (owners w ow))"
  shows "name_inv ext pend w'"
proof -
  have "name_owners w' = name_owners w"
    using assms(3) by (simp add: name_owners_def owned_def map_of_eq_None_iff fun_eq_iff flip: set_map)
  with assms have "name_ok k q w' n = name_ok k q w n" for k q n
    by (simp add: name_ok_def cong: option.case_cong)
  with assms show ?thesis by (simp add: name_inv_def)
qed

lemma finite_primaries: "name_inv ext pend w \<Longrightarrow> finite {n. Q (name_primary w n) \<and> queue w n \<noteq> []}"
  by (rule finite_subset [of _ "dom (names w)"]) (auto simp: name_inv_def queue_def split: option.splits)

lemma counters_move:
  assumes ok: "counters_ok w" and fin: "finite {m. name_primary w m \<noteq> None}"
    and same: "\<And>m. m \<noteq> n \<Longrightarrow> name_primary w' m = name_primary w m"
    and np: "n_primaries w' = n_primaries w - of_bool (name_primary w n \<noteq> None) + of_bool (name_primary w' n \<noteq> None)"
    and no: "\<And>ow. n_owner_primaries (owners w' ow) = n_owner_primaries (owners w ow)
      - of_bool (name_primary w n = Some ow) + of_bool (name_primary w' n = Some ow)"
  shows "counters_ok w'"
proof -
  have count: "(of_nat (card {m. Q (name_primary w' m)}) :: u64) =
      of_nat (card {m. Q (name_primary w m)}) - of_bool (Q (name_primary w n)) + of_bool (Q (name_primary w' n))"
    if Q: "\<not> Q None" for Q
  proof -
    let ?A = "{m. m \<noteq> n \<and> Q (name_primary w m)}"
    have fin: "finite ?A" by (rule finite_subset [OF _ fin]) (use Q in \<open>auto intro: ccontr\<close>)
    have "{m. Q (name_primary w m)} = (if Q (name_primary w n) then insert n ?A else ?A)"
      by auto
    moreover have "{m. Q (name_primary w' m)} = (if Q (name_primary w' n) then insert n ?A else ?A)"
      (is "?L = ?R")
    proof (rule set_eqI)
      show "m \<in> ?L \<longleftrightarrow> m \<in> ?R" for m using same [of m] by (cases "m = n") auto
    qed
    ultimately show ?thesis using fin by simp
  qed
  show ?thesis
    using ok np no count [of "\<lambda>p. p \<noteq> None"] count [of "\<lambda>p. p = Some _"]
    by (auto simp: counters_ok_def)
qed

lemma counters_cong:
  "\<lbrakk>counters_ok w; queue w' = queue w; n_primaries w' = n_primaries w;
    \<And>ow. n_owner_primaries (owners w' ow) = n_owner_primaries (owners w ow)\<rbrakk> \<Longrightarrow> counters_ok w'"
  by (simp add: counters_ok_def name_primary_def)

lemma name_charges_upd:
  "name_charges (upd_owner ow f w) + own_charges (ownership_tree (owners w ow)) =
     name_charges w + own_charges (ownership_tree (f (owners w ow)))"
proof -
  have "(\<Sum>x \<in> UNIV - {ow}. own_charges (ownership_tree (owners (upd_owner ow f w) x))) =
      (\<Sum>x \<in> UNIV - {ow}. own_charges (ownership_tree (owners w x)))"
    by (rule sum.cong) auto
  then show ?thesis
    unfolding name_charges_def by (simp add: sum.remove [of UNIV ow] ac_simps)
qed

lemma name_charges_cong:
  "(\<And>ow. own_charges (ownership_tree (owners w' ow)) = own_charges (ownership_tree (owners w ow))) \<Longrightarrow>
   name_charges w' = name_charges w"
  by (simp add: name_charges_def)

lemma own_charges_modify [simp]:
  "own_charges (tree_modify n (\<lambda>y. y\<lparr>own_flags := flags\<rparr>) t) = own_charges t"
  by (induction t) (auto simp: own_charges_def tree_modify_def)

lemma own_charges_remove:
  assumes "distinct (map fst t)" "map_of t n = Some own"
  shows "own_charges t = add_mset (own_charge own) (own_charges (tree_remove n t))"
  using assms
proof (induction t)
  case (Cons x t)
  obtain m y where x: "x = (m, y)" by fastforce
  show ?case
  proof (cases "m = n")
    case True
    with Cons.prems x have "n \<notin> fst ` set t" "y = own" by auto
    then have "tree_remove n t = t" by (auto simp: tree_remove_def filter_id_conv image_iff)
    with True x \<open>y = own\<close> show ?thesis by (simp add: own_charges_def tree_remove_def)
  next
    case False
    with Cons x show ?thesis by (simp add: own_charges_def tree_remove_def)
  qed
qed simp

section \<open>References\<close>

text \<open>Taking and dropping references changes nothing but the counts and the set of names.\<close>

definition same_state :: "name_world \<Rightarrow> name_world \<Rightarrow> bool" where
  "same_state w w' \<longleftrightarrow> queue w' = queue w \<and> owners w' = owners w \<and> n_primaries w' = n_primaries w \<and>
     n_primaries_peak w' = n_primaries_peak w \<and> n_owner_primaries_peak w' = n_owner_primaries_peak w"

lemma same_stateD:
  assumes "same_state w w'"
  shows "queue w' = queue w" "owned w' = owned w" "owners w' = owners w" "name_primary w' = name_primary w"
    "name_charges w' = name_charges w" "counters_ok w' = counters_ok w" "name_owners w' = name_owners w"
    "n_primaries w' = n_primaries w" "n_primaries_peak w' = n_primaries_peak w"
    "n_owner_primaries_peak w' = n_owner_primaries_peak w"
  using assms
  by (simp_all add: same_state_def owned_def name_primary_def name_charges_def counters_ok_def name_owners_def fun_eq_iff)

lemma same_state_trans: "same_state a b \<Longrightarrow> same_state b c \<Longrightarrow> same_state a c"
  by (simp add: same_state_def)

lemma same_state_refs: "same_state w (upd_name n (\<lambda>e. e\<lparr>name_refs := f e\<rparr>) w)"
  by (auto simp: same_state_def queue_def fun_eq_iff split: option.splits)

lemma entry_ok_pos: "entry_ok k own pend e \<Longrightarrow> name_refs e > 0"
  unfolding entry_ok_def by (elim conjE) (rule neq0_conv [THEN iffD1])

lemma name_ref_inv:
  assumes inv: "name_inv ext pend w" and e: "names w n = Some e"
  shows "\<exists>w'. name_ref w n = Some w' \<and> name_inv (ext(n := ext n + 1)) pend w' \<and> same_state w w' \<and>
    names w' n \<noteq> None"
proof -
  let ?w = "upd_name n (\<lambda>e. e\<lparr>name_refs := name_refs e + 1\<rparr>) w"
  have ok: "entry_ok (ext n) (name_owners w n) (pend n) e" using inv e by (rule name_inv_entry)
  note same = same_state_refs [of w n "\<lambda>e. name_refs e + 1"]
  have "name_inv (ext(n := ext n + 1)) pend ?w"
    by (rule name_inv_update [OF inv, where n = n])
      (use inv e ok same_stateD(7) [OF same] in \<open>auto simp: name_inv_def name_ok_def entry_ok_def\<close>)
  moreover have "name_refs e > 0" using ok by (rule entry_ok_pos)
  ultimately show ?thesis using e same by (simp add: name_ref_def)
qed

lemma name_unref_inv:
  assumes inv: "name_inv ext pend w" and ext: "ext n \<noteq> 0"
  shows "\<exists>w'. name_unref w n = Some w' \<and> name_inv (ext(n := ext n - 1)) pend w' \<and> same_state w w' \<and>
    (names w' n = None \<longrightarrow> queue w n = [])"
proof -
  obtain e where e: "names w n = Some e" and ok: "entry_ok (ext n) (name_owners w n) (pend n) e"
    using name_inv_ok [OF inv, of n] ext by (auto simp: name_ok_def split: option.splits)
  let ?w = "upd_name n (\<lambda>e. e\<lparr>name_refs := name_refs e - 1\<rparr>) w"
  show ?thesis
  proof (cases "name_refs e = 1")
    case False
    note same = same_state_refs [of w n "\<lambda>e. name_refs e - 1"]
    have "name_inv (ext(n := ext n - 1)) pend ?w"
      by (rule name_inv_update [OF inv, where n = n])
        (use inv e ok ext False same_stateD(7) [OF same] in \<open>auto simp: name_inv_def name_ok_def entry_ok_def\<close>)
    with False e entry_ok_pos [OF ok] same show ?thesis by (simp add: name_unref_def)
  next
    case True
    with ok have "ext n + of_bool (name_activation e) + n_matches e + length (ownership_list e) + card (pend n) = 1"
      unfolding entry_ok_def by presburger
    with ext have "length (ownership_list e) = 0" "of_bool (name_activation e) = (0 :: nat)" "n_matches e = 0"
      "card (pend n) = 0" "ext n = 1"
      by presburger+
    then have z: "ownership_list e = []" "\<not> name_activation e" "n_matches e = 0" "pend n = {}" "ext n = 1"
      by simp_all
    then have no: "name_owners w n = {}" using ok by (simp add: entry_ok_def)
    let ?v = "?w\<lparr>names := (names ?w)(n := None)\<rparr>"
    have v: "name_unref w n = Some ?v"
      using True e z by (simp add: name_unref_def name_free_def)
    have own: "owned ?v = owned w" "name_owners ?v = name_owners w"
      by (simp_all add: owned_def name_owners_def fun_eq_iff)
    have "name_inv (ext(n := ext n - 1)) pend ?v"
      by (rule name_inv_update [OF inv, where n = n])
        (use inv own z no in \<open>simp_all add: name_inv_def name_ok_def\<close>)
    moreover have "same_state w ?v"
      using e z by (auto simp: same_state_def queue_def fun_eq_iff)
    moreover have "queue w n = []" using e z by (simp add: queue_def)
    ultimately show ?thesis using v by simp
  qed
qed

lemma name_registry_ref_name_inv:
  assumes inv: "name_inv ext (\<lambda>_. {}) w"
  shows "\<exists>r w'. name_registry_ref_name env w n = Some (r, w') \<and>
    (if r = NAME_OK then name_inv (ext(n := ext n + 1)) (\<lambda>_. {}) w' \<and> same_state w w' \<and> names w' n \<noteq> None
     else r = NAME_ENOMEM \<and> w' = w)"
proof (cases "names w n")
  case (Some e)
  from name_ref_inv [OF inv this] Some show ?thesis by (auto simp: name_registry_ref_name_def)
next
  case None
  let ?w = "w\<lparr>names := (names w)(n \<mapsto> name_new)\<rparr>"
  have own: "owned ?w = owned w" "name_owners ?w = name_owners w"
    by (simp_all add: owned_def name_owners_def fun_eq_iff)
  have "name_inv (ext(n := ext n + 1)) (\<lambda>_. {}) ?w"
    by (rule name_inv_update [OF inv, where n = n])
      (use inv name_inv_ok [OF inv, of n] None own in
        \<open>simp_all add: name_inv_def name_ok_def entry_ok_def name_new_def\<close>)
  moreover have "same_state w ?w"
    using None by (auto simp: same_state_def queue_def name_new_def fun_eq_iff)
  ultimately show ?thesis using None by (simp add: name_registry_ref_name_def)
qed

section \<open>Ownerships\<close>

lemma owned_unlink:
  "owned (upd_owner ow (\<lambda>x. x\<lparr>ownership_tree := tree_remove n (ownership_tree x)\<rparr>) w) ow' m =
     (if ow' = ow \<and> m = n then None else owned w ow' m)"
  by (simp add: owned_def map_of_tree_remove)

lemma owned_link:
  "owned w ow n = None \<Longrightarrow> owned (name_ownership_link ow n own w) ow' m =
     (if ow' = ow \<and> m = n then Some own else owned w ow' m)"
  by (auto simp: owned_def name_ownership_link_def map_add_def split: option.splits)

lemma name_ownership_free_inv:
  assumes inv: "name_inv ext pend w" and pend: "pend n = {ow}" and own: "owned w ow n = Some own"
    and acc: "user_inv us eu (name_charges w + C)"
  shows "\<exists>w' us'. name_ownership_free w us ow n = Some (w', us') \<and> name_inv ext (pend(n := {})) w' \<and>
    user_inv us' eu (name_charges w' + C) \<and> queue w' = queue w \<and> n_primaries w' = n_primaries w \<and>
    (\<forall>x m. owned w' x m = (if x = ow \<and> m = n then None else owned w x m)) \<and>
    (\<forall>x. n_owner_primaries (owners w' x) = n_owner_primaries (owners w x)) \<and>
    n_primaries_peak w' = n_primaries_peak w \<and> n_owner_primaries_peak w' = n_owner_primaries_peak w"
proof -
  let ?w = "upd_owner ow (\<lambda>x. x\<lparr>ownership_tree := tree_remove n (ownership_tree x)\<rparr>) w"
  obtain e where e: "names w n = Some e" and ok: "entry_ok (ext n) (name_owners w n) {ow} e"
    using name_inv_ok [OF inv, of n] pend by (auto simp: name_ok_def split: option.splits)
  then have notin: "ow \<notin> set (queue w n)" by (auto simp: entry_ok_def queue_def)
  have d: "distinct (map fst (ownership_tree (owners w x)))" for x using inv by (simp add: name_inv_def)
  have no: "name_owners ?w n = name_owners w n - {ow}"
    by (auto simp: name_owners_def owned_unlink)
  have inv1: "name_inv (ext(n := ext n + 1)) (pend(n := {})) ?w"
  proof (rule name_inv_update [OF inv, where n = n])
    show "distinct (map fst (ownership_tree (owners ?w x)))" for x
      using d [of x] d [of ow] by (simp add: distinct_tree_remove)
    show "name_ok ((ext(n := ext n + 1)) n) ((pend(n := {})) n) ?w n"
      using e ok notin no by (auto simp: name_ok_def entry_ok_def queue_def)
  qed (use inv in \<open>auto simp: name_inv_def owned_unlink\<close>)
  have "own_charges (ownership_tree (owners w ow)) =
      add_mset (own_charge own) (own_charges (tree_remove n (ownership_tree (owners w ow))))"
    using d own by (intro own_charges_remove) (auto simp: owned_def)
  with name_charges_upd [of ow "\<lambda>x. x\<lparr>ownership_tree := tree_remove n (ownership_tree x)\<rparr>" w]
  have "name_charges w = add_mset (own_charge own) (name_charges ?w)" by simp
  with acc have "user_inv us eu (add_mset (own_charge own) (name_charges ?w + C))" by simp
  from user_account.release_inv [OF this] obtain ch us' where
    us: "user_charge_deinit us (own_charge own) = Some (ch, us')" "user_inv us' eu (name_charges ?w + C)" by blast
  from name_unref_inv [OF inv1, of n] obtain w' where
    w': "name_unref ?w n = Some w'" "name_inv ext (pend(n := {})) w'" "same_state ?w w'" by auto
  show ?thesis
    using own notin us w' same_stateD [OF w'(3)]
    by (auto simp: name_ownership_free_def name_ownership_drop_def owned_unlink)
qed

lemma name_ownership_new_inv:
  assumes inv: "name_inv ext (\<lambda>_. {}) w" and e: "names w n \<noteq> None" and own: "owned w ow n = None"
    and acc: "user_inv us eu (name_charges w + C)"
    and ch: "chargeable us user user_charge_init None USER_SLOT_OBJECTS"
  shows "\<exists>r x w' us'. name_ownership_new env w us user n = Some (r, x, w', us') \<and> same_state w w' \<and>
    (if r = NAME_OK then \<exists>own. x = Some own \<and> names w' n \<noteq> None \<and> name_inv (ext(n := ext n + 1)) (\<lambda>_. {}) w' \<and>
         user_inv us' eu (add_mset (own_charge own) (name_charges w) + C)
     else x = None \<and> name_inv ext (\<lambda>_. {}) w' \<and> user_inv us' eu (name_charges w + C) \<and>
       r \<notin> {NAME_E_NOT_FOUND, NAME_E_NOT_OWNER, NAME_E_ALREADY_OWNER, NAME_E_IN_QUEUE, NAME_E_EXISTS})"
proof (cases "mem_ownership env")
  case False
  with inv acc show ?thesis by (simp add: name_ownership_new_def same_state_def)
next
  case True
  from name_ref_inv [OF inv] e obtain w1 where
    w1: "name_ref w n = Some w1" "name_inv (ext(n := ext n + 1)) (\<lambda>_. {}) w1" "same_state w w1" "names w1 n \<noteq> None"
    by blast
  from user_account.charge_inv [OF acc, of "(mem_usage env, log_works env, user, None, USER_SLOT_OBJECTS, 1)"] ch
  obtain r c us1 where
    c: "user_charge (mem_usage env) (log_works env) us user user_charge_init None USER_SLOT_OBJECTS 1 = Some (r, c, us1)"
      "user_inv us1 eu (add_mset c (name_charges w + C))" by auto
  show ?thesis
  proof (cases "r = USER_OK")
    case ok: True
    with True w1 c show ?thesis by (simp add: name_ownership_new_def)
  next
    case False
    from user_account.release_inv [OF c(2)] obtain c' us2 where
      rel: "user_charge_deinit us1 c = Some (c', us2)" "user_inv us2 eu (name_charges w + C)" by blast
    from name_unref_inv [OF w1(2), of n] obtain w2 where
      w2: "name_unref w1 n = Some w2" "name_inv ext (\<lambda>_. {}) w2" "same_state w1 w2" by auto
    from False True w1 c rel w2 same_state_trans [OF w1(3) w2(3)] show ?thesis
      by (simp add: name_ownership_new_def name_ownership_drop_def)
  qed
qed

lemma name_ownership_link_inv:
  assumes inv: "name_inv ext (\<lambda>_. {}) w" and e: "names w n \<noteq> None" and own: "owned w ow n = None"
    and ext: "ext n \<noteq> 0"
  shows "name_inv (ext(n := ext n - 1)) ((\<lambda>_. {})(n := {ow})) (name_ownership_link ow n own w) \<and>
    name_charges (name_ownership_link ow n own w) = add_mset (own_charge own) (name_charges w)"
proof -
  let ?w = "name_ownership_link ow n own w"
  have d: "distinct (map fst (ownership_tree (owners w x)))" for x using inv by (simp add: name_inv_def)
  have new: "n \<notin> fst ` set (ownership_tree (owners w ow))"
    using own by (simp add: owned_def map_of_eq_None_iff)
  have tree: "ownership_tree (owners ?w x) = ownership_tree (owners w x) @ (if x = ow then [(n, own)] else [])" for x
    by (simp add: name_ownership_link_def)
  have names: "names ?w = names w" by (simp add: name_ownership_link_def)
  have no: "name_owners ?w n = insert ow (name_owners w n)" "ow \<notin> name_owners w n"
    using own by (auto simp: name_owners_def owned_link [OF own])
  have "name_inv (ext(n := ext n - 1)) ((\<lambda>_. {})(n := {ow})) ?w"
  proof (rule name_inv_update [OF inv, where n = n])
    show "distinct (map fst (ownership_tree (owners ?w x)))" for x using d [of x] new by (simp add: tree)
    show "name_ok ((ext(n := ext n - 1)) n) (((\<lambda>_. {})(n := {ow})) n) ?w n"
      using name_inv_ok [OF inv, of n] e ext no by (auto simp: name_ok_def entry_ok_def names)
  qed (use inv in \<open>auto simp: name_inv_def owned_link [OF own] names\<close>)
  moreover have "name_charges ?w = add_mset (own_charge own) (name_charges w)"
    using name_charges_upd [of ow "\<lambda>x. x\<lparr>ownership_tree := ownership_tree x @ [(n, own)]\<rparr>" w]
    by (simp add: name_ownership_link_def own_charges_def)
  ultimately show ?thesis by blast
qed

section \<open>The queue of a name\<close>

text \<open>
  The abstract specification: a name is a queue of owners with the flags of their last
  request, the primary owner first; \<open>queue_request\<close> is \<open>RequestName\<close> on it.
\<close>

type_synonym claims = "(owner_id \<times> u64) list"

definition flags_of :: "name_world \<Rightarrow> string \<Rightarrow> owner_id \<Rightarrow> u64" where
  "flags_of w n ow = (case owned w ow n of None \<Rightarrow> 0 | Some x \<Rightarrow> own_flags x)"

definition name_claims :: "name_world \<Rightarrow> string \<Rightarrow> claims" where
  "name_claims w n = map (\<lambda>ow. (ow, flags_of w n ow)) (queue w n)"

definition queue_request :: "claims \<Rightarrow> owner_id \<Rightarrow> u64 \<Rightarrow> name_ret \<times> claims" where
  "queue_request q ow flags =
     (case q of
        [] \<Rightarrow> (NAME_OK, [(ow, flags)])
      | (p, pf) # rest \<Rightarrow>
          if p = ow then (NAME_E_ALREADY_OWNER, (ow, flags) # rest)
          else if has_flag flags DBUS_NAME_FLAG_REPLACE_EXISTING \<and> has_flag pf DBUS_NAME_FLAG_ALLOW_REPLACEMENT
          then (NAME_OK, (ow, flags) # (if has_flag pf DBUS_NAME_FLAG_DO_NOT_QUEUE then [] else [(p, pf)])
                  @ filter (\<lambda>c. fst c \<noteq> ow) rest)
          else if \<not> has_flag flags DBUS_NAME_FLAG_DO_NOT_QUEUE
          then (NAME_E_IN_QUEUE,
                if ow \<in> fst ` set q then map (\<lambda>(x, f). (x, if x = ow then flags else f)) q
                else q @ [(ow, flags)])
          else (NAME_E_EXISTS, filter (\<lambda>c. fst c \<noteq> ow) q))"

definition change_of :: "string \<Rightarrow> owner_id option \<Rightarrow> owner_id option \<Rightarrow> name_change" where
  "change_of n old new =
     (if old = new then name_change_init else \<lparr>change_name = Some n, old_owner = old, new_owner = new\<rparr>)"

lemma name_change_unset_iff: "name_change_unset c \<longleftrightarrow> c = name_change_init"
  by (auto simp: name_change_unset_def name_change_init_def)

lemma set_queue_inv:
  assumes inv: "name_inv ext pend w" and e: "names w n \<noteq> None" and d: "distinct q"
    and own: "set q \<union> P = name_owners w n" "set q \<inter> P = {}"
  shows "name_inv ext (pend(n := P)) (set_queue n q w)"
proof (rule name_inv_update [OF inv, where n = n])
  obtain x where x: "names w n = Some x" using e by blast
  have ok: "entry_ok (ext n) (name_owners w n) (pend n) x" using inv x by (rule name_inv_entry)
  have "length (ownership_list x) + card (pend n) = card (name_owners w n)"
    using ok by (simp add: entry_ok_def card_Un_disjoint distinct_card)
  moreover have "length q + card P = card (name_owners w n)"
    using own d by (simp add: card_Un_disjoint distinct_card flip: own(1))
  ultimately have len: "length (ownership_list x) + card (pend n) = length q + card P" by simp
  have no: "name_owners (set_queue n q w) = name_owners w" by (simp add: name_owners_def fun_eq_iff)
  have refs: "name_refs x = ext n + of_bool (name_activation x) + n_matches x + length q + card P"
    using ok len unfolding entry_ok_def by linarith
  have "entry_ok (ext n) (name_owners w n) P (x\<lparr>ownership_list := q\<rparr>)"
    unfolding entry_ok_def using refs entry_ok_pos [OF ok] own d by auto
  with x no show "name_ok (ext n) ((pend(n := P)) n) (set_queue n q w) n" by (simp add: name_ok_def)
qed (use inv in \<open>auto simp: name_inv_def\<close>)

lemma name_inv_queue:
  assumes "name_inv ext pend w"
  shows "distinct (queue w n)" "name_owners w n = set (queue w n) \<union> pend n" "set (queue w n) \<inter> pend n = {}"
  using name_inv_ok [OF assms, of n]
  by (auto simp: name_ok_def queue_def entry_ok_def split: option.splits)

lemma name_inv_fin: "name_inv ext pend w \<Longrightarrow> finite {m. name_primary w m \<noteq> None}"
  by (rule finite_subset [of _ "dom (names w)"])
    (auto simp: name_inv_def name_primary_def queue_def split: option.splits)

text \<open>Recording the flags of a request.\<close>

definition set_flags :: "owner_id \<Rightarrow> string \<Rightarrow> u64 \<Rightarrow> name_world \<Rightarrow> name_world" where
  "set_flags ow n f = upd_owner ow (\<lambda>x. x\<lparr>ownership_tree := tree_modify n (\<lambda>y. y\<lparr>own_flags := f\<rparr>) (ownership_tree x)\<rparr>)"

lemma set_flags_sel [simp]:
  "names (set_flags ow n f w) = names w" "queue (set_flags ow n f w) = queue w"
  "n_primaries (set_flags ow n f w) = n_primaries w"
  "n_primaries_peak (set_flags ow n f w) = n_primaries_peak w"
  "n_owner_primaries_peak (set_flags ow n f w) = n_owner_primaries_peak w"
  "n_owner_primaries (owners (set_flags ow n f w) x) = n_owner_primaries (owners w x)"
  "map fst (ownership_tree (owners (set_flags ow n f w) x)) = map fst (ownership_tree (owners w x))"
  "name_charges (set_flags ow n f w) = name_charges w"
  by (auto simp: set_flags_def name_charges_def intro!: sum.cong)

lemma owned_set_flags:
  "owned (set_flags ow n f w) x m =
     (if x = ow \<and> m = n then map_option (\<lambda>y. y\<lparr>own_flags := f\<rparr>) (owned w x m) else owned w x m)"
  by (auto simp: set_flags_def owned_def map_of_tree_modify)

lemma set_flags_inv:
  "name_inv ext pend w \<Longrightarrow> name_inv ext pend (set_flags ow n f w)"
  "counters_ok w \<Longrightarrow> counters_ok (set_flags ow n f w)"
  by (rule name_inv_cong; simp) (rule counters_cong; simp)

lemma flags_of_set_flags:
  assumes "owned w ow n \<noteq> None"
  shows "flags_of (set_flags ow n f w) m x = (if x = ow \<and> m = n then f else flags_of w m x)"
  using assms by (auto simp: flags_of_def owned_set_flags)

lemma claims_filter: "filter (\<lambda>c. fst c \<noteq> ow) (map (\<lambda>x. (x, g x)) q) = map (\<lambda>x. (x, g x)) (removeAll ow q)"
  by (induction q) auto

lemma claims_map_simps:
  "fst ` set (map (\<lambda>x. (x, g x)) q) = set q"
  "map (\<lambda>x. (x, if x = ow then f else g x)) (removeAll ow q) = map (\<lambda>x. (x, g x)) (removeAll ow q)"
  "ow \<notin> set q \<Longrightarrow> map (\<lambda>x. (x, if x = ow then f else g x)) q = map (\<lambda>x. (x, g x)) q"
  by (auto simp: image_iff)

text \<open>
  What replacing the queue of one name does, given that the counters follow the primary
  owner. Every branch of a request and of a release is an instance.
\<close>

lemma requeue:
  assumes inv: "name_inv ext pend w" and cnt: "counters_ok w" and e: "names w n \<noteq> None" and d: "distinct q"
    and own: "set q \<union> P = name_owners w n" "set q \<inter> P = {}"
    and nm: "names w' = names (set_queue n q w)"
    and tree: "\<And>x. ownership_tree (owners w' x) = ownership_tree (owners w x)"
    and np: "n_primaries w' = n_primaries w - of_bool (queue w n \<noteq> []) + of_bool (q \<noteq> [])"
    and no: "\<And>x. n_owner_primaries (owners w' x) = n_owner_primaries (owners w x)
      - of_bool (name_primary w n = Some x) + of_bool (c_list_first q = Some x)"
  shows "name_inv ext (pend(n := P)) w'" "counters_ok w'" "name_charges w' = name_charges w"
    "queue w' = (queue w)(n := q)" "owned w' = owned w"
proof -
  show "name_inv ext (pend(n := P)) w'"
    by (rule name_inv_cong [OF set_queue_inv [OF inv e d own]]) (use nm tree in simp_all)
  show "name_charges w' = name_charges w" using tree by (intro name_charges_cong) simp
  show "owned w' = owned w" using tree by (simp add: owned_def fun_eq_iff)
  have "queue w' = queue (set_queue n q w)" using nm by (simp only: queue_def fun_eq_iff) simp
  then show q: "queue w' = (queue w)(n := q)" using e by (auto simp: fun_eq_iff)
  show "counters_ok w'"
    by (rule counters_move [OF cnt name_inv_fin [OF inv], of n])
      (use np no q in \<open>auto simp: name_primary_def\<close>)
qed

lemma name_claims_eq: "queue w n = q \<Longrightarrow> name_claims w n = map (\<lambda>x. (x, flags_of w n x)) q"
  by (simp add: name_claims_def)

lemma flags_of_cong: "owned w' = owned w \<Longrightarrow> flags_of w' = flags_of w"
  by (simp add: flags_of_def fun_eq_iff)

section \<open>Requests\<close>

text \<open>
  What the update of an ownership achieves, from a state \<open>w\<close> in which the owner's tree
  has the name and the owner may or may not be queued.
\<close>

definition request_post ::
  "(string \<Rightarrow> nat) \<Rightarrow> (string \<Rightarrow> owner_id set) \<Rightarrow> (uid \<Rightarrow> nat) \<Rightarrow> user_charge multiset \<Rightarrow> string \<Rightarrow> owner_id \<Rightarrow> u64 \<Rightarrow>
   name_world \<Rightarrow> name_ret \<Rightarrow> name_world \<Rightarrow> user_registry \<Rightarrow> name_change \<Rightarrow> bool" where
  "request_post ext pend eu C n ow f w r w' us' ch \<longleftrightarrow>
     name_inv (ext(n := ext n + of_bool (change_name ch \<noteq> None))) (pend(n := {ow} - set (queue w' n))) w' \<and>
     counters_ok w' \<and> user_inv us' eu (name_charges w' + C) \<and>
     (r, name_claims w' n) = queue_request (name_claims w n) ow f \<and>
     (\<forall>m. m \<noteq> n \<longrightarrow> queue w' m = queue w m \<and> (\<forall>x. owned w' x m = owned w x m)) \<and>
     ch = change_of n (name_primary w n) (name_primary w' n) \<and> owned w' ow n \<noteq> None"

lemma request_post_intro:
  assumes own: "owned w ow n \<noteq> None"
    and inv: "name_inv (ext(n := ext n + of_bool (change_name ch \<noteq> None))) (pend(n := {ow} - set q)) w'"
    and cnt: "counters_ok w'" and acc: "user_inv us' eu (name_charges w' + C)"
    and q: "queue w' = (queue w)(n := q)"
    and owned': "\<And>x m. x \<in> set q \<or> m \<noteq> n \<or> x = ow \<Longrightarrow> owned w' x m = owned (set_flags ow n f w) x m"
    and spec: "queue_request (name_claims w n) ow f = (r, map (\<lambda>x. (x, if x = ow then f else flags_of w n x)) q)"
    and ch: "ch = change_of n (name_primary w n) (c_list_first q)"
  shows "request_post ext pend eu C n ow f w r w' us' ch"
proof -
  have "flags_of w' n x = (if x = ow then f else flags_of w n x)" if "x \<in> set q" for x
    using owned' [of x n] that own by (auto simp: flags_of_def owned_set_flags)
  then have "name_claims w' n = map (\<lambda>x. (x, if x = ow then f else flags_of w n x)) q"
    using q by (simp add: name_claims_def)
  moreover have "owned w' ow n \<noteq> None" using owned' [of ow n] own by (simp add: owned_set_flags)
  moreover have "owned w' x m = owned w x m" if "m \<noteq> n" for x m
    using owned' [of x m] that by (simp add: owned_set_flags)
  ultimately show ?thesis
    using inv cnt acc q spec ch by (simp add: request_post_def name_primary_def)
qed

lemma name_owners_set_flags [simp]: "name_owners (set_flags ow n f w) = name_owners w"
  by (auto simp: name_owners_def owned_set_flags fun_eq_iff)

lemma request_acquire:
  assumes inv: "name_inv ext pend w" and cnt: "counters_ok w" and acc: "user_inv us eu (name_charges w + C)"
    and e: "names w n \<noteq> None" and own: "owned w ow n \<noteq> None" and pend: "pend n \<subseteq> {ow}"
    and q: "queue w n = []" and ch: "name_change_unset ch"
  shows "\<exists>r w' us' ch'. name_ownership_update w us ow n flags ch = Some (r, w', us', ch') \<and>
    request_post ext pend eu C n ow (ucast flags) w r w' us' ch'"
proof -
  let ?f = "ucast flags :: u64"
  let ?w1 = "set_flags ow n ?f w"
  have P: "name_owners w n = {ow}"
    using name_inv_queue(2) [OF inv, of n] q pend own by (auto simp: name_owners_def)
  obtain x where "names ?w1 n = Some x" using e by auto
  from name_ref_inv [OF set_flags_inv(1) [OF inv] this] obtain w2 where
    w2: "name_ref ?w1 n = Some w2" "name_inv (ext(n := ext n + 1)) pend w2" "same_state ?w1 w2" "names w2 n \<noteq> None"
    by blast
  note same = same_stateD [OF w2(3)]
  have cnt2: "counters_ok w2" using set_flags_inv(2) [OF cnt] same by simp
  let ?w3 = "owner_inc ow ((set_queue n [ow] w2)\<lparr>n_primaries := n_primaries w2 + 1\<rparr>)"
  let ?w' = "owner_peak ow (?w3\<lparr>n_primaries_peak := util_peak_update (n_primaries_peak ?w3) (n_primaries ?w3)\<rparr>)"
  have upd: "name_ownership_update w us ow n flags ch =
      Some (NAME_OK, ?w', us, \<lparr>change_name = Some n, old_owner = None, new_owner = Some ow\<rparr>)"
    using ch e q w2(1) by (auto simp: name_ownership_update_def Let_def name_primary_def set_flags_def)
  have r: "name_inv (ext(n := ext n + 1)) (pend(n := {})) ?w'" "counters_ok ?w'" "name_charges ?w' = name_charges w2"
    "queue ?w' = (queue w2)(n := [ow])" "owned ?w' = owned w2"
    by (rule requeue [OF w2(2) cnt2 w2(4), of "[ow]" "{}"]; use P same q in \<open>simp add: name_primary_def\<close>)+
  have "request_post ext pend eu C n ow ?f w NAME_OK ?w' us
      \<lparr>change_name = Some n, old_owner = None, new_owner = Some ow\<rparr>"
    by (rule request_post_intro [OF own, where q = "[ow]"])
      (use r acc same q in \<open>simp_all add: name_claims_def queue_request_def change_of_def name_primary_def\<close>)
  with upd show ?thesis by blast
qed

lemma set_queue_same: "queue w n = q \<Longrightarrow> set_queue n q w = w"
  by (auto simp: set_queue_def upd_name_def queue_def fun_upd_idem split: option.splits)

lemma request_queued:
  assumes inv: "name_inv ext pend w" and cnt: "counters_ok w" and acc: "user_inv us eu (name_charges w + C)"
    and e: "names w n \<noteq> None" and own: "owned w ow n \<noteq> None" and pend: "pend n \<subseteq> {ow}"
    and q: "queue w n = p # rest" and ch: "name_change_unset ch"
    and keep: "p = ow \<or> \<not> (has_flag (ucast flags) DBUS_NAME_FLAG_REPLACE_EXISTING \<and>
      has_flag (flags_of w n p) DBUS_NAME_FLAG_ALLOW_REPLACEMENT)"
  shows "\<exists>r w' us' ch'. name_ownership_update w us ow n flags ch = Some (r, w', us', ch') \<and>
    request_post ext pend eu C n ow (ucast flags) w r w' us' ch'"
proof -
  let ?f = "ucast flags :: u64"
  let ?w1 = "set_flags ow n ?f w"
  note Q = name_inv_queue [OF inv, of n]
  have inv1: "name_inv ext pend ?w1" and cnt1: "counters_ok ?w1"
    using inv cnt by (simp_all add: set_flags_inv)
  have "p \<in> name_owners w n" using Q q by simp
  then obtain x where x: "owned w p n = Some x" by (auto simp: name_owners_def)
  have "ow \<in> name_owners w n" using own by (simp add: name_owners_def)
  then have no: "name_owners w n = insert ow (set (queue w n))" using Q(2) pend by auto
  have ch0: "ch = name_change_init" using ch by (simp add: name_change_unset_iff)
  define q' where "q' = (if p = ow \<or> ow \<in> set (queue w n) \<and> \<not> has_flag ?f DBUS_NAME_FLAG_DO_NOT_QUEUE then queue w n
    else if \<not> has_flag ?f DBUS_NAME_FLAG_DO_NOT_QUEUE then queue w n @ [ow] else removeAll ow (queue w n))"
  define r where "r = (if p = ow then NAME_E_ALREADY_OWNER
    else if \<not> has_flag ?f DBUS_NAME_FLAG_DO_NOT_QUEUE then NAME_E_IN_QUEUE else NAME_E_EXISTS)"
  have first: "c_list_first q' = Some p" using q by (auto simp: q'_def)
  have upd: "name_ownership_update w us ow n flags ch = Some (r, set_queue n q' ?w1, us, ch)"
  proof (cases "p = ow")
    case True
    with ch e q show ?thesis
      by (auto simp: name_ownership_update_def Let_def name_primary_def q'_def r_def set_queue_same
          simp flip: set_flags_def)
  next
    case False
    then have "owned ?w1 p n = Some x" "flags_of w n p = own_flags x"
      using x by (simp_all add: owned_set_flags flags_of_def)
    with False ch e q keep show ?thesis
      by (auto simp: name_ownership_update_def Let_def name_primary_def q'_def r_def set_queue_same
          simp flip: set_flags_def)
  qed
  have q': "distinct q'" "set q' \<union> ({ow} - set q') = name_owners w n"
    using Q(1) no q by (auto simp: q'_def distinct_removeAll split: if_splits)
  have R: "name_inv ext (pend(n := {ow} - set q')) (set_queue n q' ?w1)" "counters_ok (set_queue n q' ?w1)"
    "name_charges (set_queue n q' ?w1) = name_charges ?w1" "queue (set_queue n q' ?w1) = (queue ?w1)(n := q')"
    "owned (set_queue n q' ?w1) = owned ?w1"
    by (rule requeue [OF inv1 cnt1, of n q' "{ow} - set q'"]; use e q' q first in \<open>auto simp: name_primary_def\<close>)+
  have "request_post ext pend eu C n ow ?f w r (set_queue n q' ?w1) us ch"
  proof (rule request_post_intro [OF own, where q = q'])
    show "queue_request (name_claims w n) ow ?f = (r, map (\<lambda>x. (x, if x = ow then ?f else flags_of w n x)) q')"
      using keep q Q(1)
      by (auto simp: name_claims_def queue_request_def q'_def r_def claims_filter claims_map_simps image_image)
  qed (use R acc ch0 q first in \<open>simp_all add: change_of_def name_primary_def name_change_init_def\<close>)
  with upd show ?thesis by blast
qed

lemma request_replace:
  assumes inv: "name_inv ext pend w" and cnt: "counters_ok w" and acc: "user_inv us eu (name_charges w + C)"
    and e: "names w n \<noteq> None" and own: "owned w ow n \<noteq> None" and pend: "pend n \<subseteq> {ow}"
    and q: "queue w n = p # rest" and ch: "name_change_unset ch" and p: "p \<noteq> ow"
    and repl: "has_flag (ucast flags) DBUS_NAME_FLAG_REPLACE_EXISTING"
      "has_flag (flags_of w n p) DBUS_NAME_FLAG_ALLOW_REPLACEMENT"
  shows "\<exists>r w' us' ch'. name_ownership_update w us ow n flags ch = Some (r, w', us', ch') \<and>
    request_post ext pend eu C n ow (ucast flags) w r w' us' ch'"
proof -
  let ?f = "ucast flags :: u64" and ?ch = "\<lparr>change_name = Some n, old_owner = Some p, new_owner = Some ow\<rparr>"
  let ?w1 = "set_flags ow n ?f w"
  note Q = name_inv_queue [OF inv, of n]
  have "p \<in> name_owners w n" using Q q by simp
  then obtain x where x: "owned w p n = Some x" by (auto simp: name_owners_def)
  then have x1: "owned ?w1 p n = Some x" "flags_of w n p = own_flags x"
    using p by (simp_all add: owned_set_flags flags_of_def)
  have "ow \<in> name_owners w n" using own by (simp add: name_owners_def)
  then have no: "name_owners w n = insert ow (set (p # rest))" using Q(2) pend q by auto
  obtain y where "names ?w1 n = Some y" using e by auto
  from name_ref_inv [OF set_flags_inv(1) [OF inv] this] obtain w2 where
    w2: "name_ref ?w1 n = Some w2" "name_inv (ext(n := ext n + 1)) pend w2" "same_state ?w1 w2" "names w2 n \<noteq> None"
    by blast
  note same = same_stateD [OF w2(3)]
  have cnt2: "counters_ok w2" using set_flags_inv(2) [OF cnt] same by simp
  define q1 where "q1 = ow # removeAll ow (p # rest)"
  have q1: "distinct q1" "set q1 = name_owners w n" "removeAll p q1 = ow # removeAll ow rest"
    using Q(1) q no p by (auto simp: q1_def distinct_removeAll removeAll_id)
  define w3 where "w3 = owner_peak ow (owner_inc ow (owner_dec p (set_queue n q1 w2)))"
  have R: "name_inv (ext(n := ext n + 1)) (pend(n := {})) w3" "counters_ok w3" "name_charges w3 = name_charges w2"
    "queue w3 = (queue w2)(n := q1)" "owned w3 = owned w2"
    by (rule requeue [OF w2(2) cnt2 w2(4), of q1 "{}"];
        use q1 same q p in \<open>simp add: w3_def name_primary_def\<close>; simp add: q1_def)+
  show ?thesis
  proof (cases "has_flag (own_flags x) DBUS_NAME_FLAG_DO_NOT_QUEUE")
    case False
    have "name_ownership_update w us ow n flags ch = Some (NAME_OK, w3, us, ?ch)"
      using ch e q p x1 repl w2(1) False
      by (auto simp: name_ownership_update_def Let_def name_primary_def w3_def q1_def simp flip: set_flags_def)
    moreover have "request_post ext pend eu C n ow ?f w NAME_OK w3 us ?ch"
    proof (rule request_post_intro [OF own, where q = q1])
      show "queue_request (name_claims w n) ow ?f = (NAME_OK, map (\<lambda>x. (x, if x = ow then ?f else flags_of w n x)) q1)"
        using q p repl x1(2) False by (simp add: name_claims_def queue_request_def claims_filter claims_map_simps q1_def)
    qed (use R acc same q p in \<open>simp_all add: change_of_def name_primary_def q1_def\<close>)
    ultimately show ?thesis by blast
  next
    case True
    let ?w4 = "set_queue n (removeAll p q1) w3"
    have no3: "name_owners w3 = name_owners w" using R(5) same by (simp add: name_owners_def fun_eq_iff)
    have q4: "distinct (removeAll p q1)" "set (removeAll p q1) \<union> {p} = name_owners w3 n"
      "set (removeAll p q1) \<inter> {p} = {}"
      using q1(1,2) no no3 by (auto simp: distinct_removeAll)
    have first4: "name_primary w3 n = Some ow" "c_list_first (removeAll p q1) = Some ow"
      "removeAll p q1 \<noteq> []" "queue w3 n \<noteq> []"
      using q1(3) R(4) by (auto simp: name_primary_def q1_def)
    have e3: "names w3 n \<noteq> None" using w2(4) by (simp add: w3_def)
    have R4: "name_inv (ext(n := ext n + 1)) (pend(n := {p})) ?w4" "counters_ok ?w4"
      "name_charges ?w4 = name_charges w3" "queue ?w4 = (queue w3)(n := removeAll p q1)" "owned ?w4 = owned w3"
      by (rule requeue [OF R(1,2) e3 q4, unfolded fun_upd_upd];
          use first4 in simp)+
    have own4: "owned ?w4 p n = Some x" using R4(5) R(5) same x1 by simp
    have acc4: "user_inv us eu (name_charges ?w4 + C)" using acc R4(3) R(3) same by simp
    have p4: "(pend(n := {p})) n = {p}" by simp
    from name_ownership_free_inv [OF R4(1) p4 own4 acc4, unfolded fun_upd_upd] obtain w5 us5 where
      w5: "name_ownership_free ?w4 us p n = Some (w5, us5)" "name_inv (ext(n := ext n + 1)) (pend(n := {})) w5"
      "user_inv us5 eu (name_charges w5 + C)" "queue w5 = queue ?w4" "n_primaries w5 = n_primaries ?w4"
      "\<forall>x m. owned w5 x m = (if x = p \<and> m = n then None else owned ?w4 x m)"
      "\<forall>x. n_owner_primaries (owners w5 x) = n_owner_primaries (owners ?w4 x)"
      by blast
    have cnt5: "counters_ok w5" by (rule counters_cong [OF R4(2)]) (use w5 in simp_all)
    have "queue w3 n = q1" using R(4) by simp
    then have "name_ownership_update w us ow n flags ch = Some (NAME_OK, w5, us5, ?ch)"
      using ch e q p x1 repl w2(1) w5(1) True
      by (auto simp: name_ownership_update_def Let_def name_primary_def w3_def q1_def simp flip: set_flags_def)
    moreover have "request_post ext pend eu C n ow ?f w NAME_OK w5 us5 ?ch"
    proof (rule request_post_intro [OF own, where q = "removeAll p q1"])
      show "queue_request (name_claims w n) ow ?f =
          (NAME_OK, map (\<lambda>x. (x, if x = ow then ?f else flags_of w n x)) (removeAll p q1))"
        using q p repl x1(2) True q1(3)
        by (simp add: name_claims_def queue_request_def claims_filter claims_map_simps)
      show "owned w5 y m = owned ?w1 y m" if "y \<in> set (removeAll p q1) \<or> m \<noteq> n \<or> y = ow" for y m
        using that w5(6) R(5) same(2) p by auto
    qed (use w5 cnt5 R R4 same q p q1(3) in \<open>simp_all add: change_of_def name_primary_def\<close>)
    ultimately show ?thesis by blast
  qed
qed

lemma name_ownership_update_inv:
  assumes "name_inv ext pend w" "counters_ok w" "user_inv us eu (name_charges w + C)"
    "names w n \<noteq> None" "owned w ow n \<noteq> None" "pend n \<subseteq> {ow}" "name_change_unset ch"
  shows "\<exists>r w' us' ch'. name_ownership_update w us ow n flags ch = Some (r, w', us', ch') \<and>
    request_post ext pend eu C n ow (ucast flags) w r w' us' ch'"
proof (cases "queue w n")
  case Nil
  with assms show ?thesis by (intro request_acquire) auto
next
  case (Cons p rest)
  show ?thesis
  proof (cases "p \<noteq> ow \<and> has_flag (ucast flags) DBUS_NAME_FLAG_REPLACE_EXISTING \<and>
      has_flag (flags_of w n p) DBUS_NAME_FLAG_ALLOW_REPLACEMENT")
    case True
    with assms Cons show ?thesis by (intro request_replace) auto
  next
    case False
    then have "p = ow \<or> \<not> (has_flag (ucast flags) DBUS_NAME_FLAG_REPLACE_EXISTING \<and>
      has_flag (flags_of w n p) DBUS_NAME_FLAG_ALLOW_REPLACEMENT)" by blast
    with assms Cons show ?thesis by (intro request_queued) auto
  qed
qed

lemma name_claims_cong:
  "\<lbrakk>queue w' n = queue w n; \<And>x. x \<in> set (queue w n) \<Longrightarrow> owned w' x n = owned w x n\<rbrakk> \<Longrightarrow>
   name_claims w' n = name_claims w n"
  by (auto simp: name_claims_def flags_of_def)

lemma same_state_claims: "same_state w w' \<Longrightarrow> name_claims w' n = name_claims w n"
  by (intro name_claims_cong) (simp_all add: same_stateD)

text \<open>The failures that leave the queue alone: no memory, or no quota.\<close>

definition request_failed :: "name_ret \<Rightarrow> bool" where
  "request_failed r \<longleftrightarrow> r = NAME_ENOMEM \<or> r = NAME_E_QUOTA \<or> r \<in> range NAME_ERR"

definition request_result ::
  "(string \<Rightarrow> nat) \<Rightarrow> (uid \<Rightarrow> nat) \<Rightarrow> user_charge multiset \<Rightarrow> string \<Rightarrow> owner_id \<Rightarrow> u64 \<Rightarrow>
   name_world \<Rightarrow> name_ret \<Rightarrow> name_world \<Rightarrow> user_registry \<Rightarrow> name_change \<Rightarrow> bool" where
  "request_result ext eu C n ow f w r w' us' ch \<longleftrightarrow>
     name_inv (ext(n := ext n + of_bool (change_name ch \<noteq> None))) (\<lambda>_. {}) w' \<and>
     counters_ok w' \<and> user_inv us' eu (name_charges w' + C) \<and>
     (\<forall>m. m \<noteq> n \<longrightarrow> name_claims w' m = name_claims w m) \<and>
     ch = change_of n (name_primary w n) (name_primary w' n) \<and>
     (if request_failed r then name_claims w' n = name_claims w n
      else (r, name_claims w' n) = queue_request (name_claims w n) ow f)"

text \<open>The end of a request: an ownership that is not queued is freed, then the name is released.\<close>

lemma request_finish:
  assumes inv: "name_inv ext pend w" and pend: "pend = (\<lambda>_. {})(n := {ow} - set (queue w n))"
    and cnt: "counters_ok w" and acc: "user_inv us eu (name_charges w + C)"
    and own: "owned w ow n \<noteq> None" and ext: "ext n \<noteq> 0"
  shows "\<exists>w1 us' w'. (if ow \<in> set (queue w n) then Some (w, us) else name_ownership_free w us ow n) = Some (w1, us') \<and>
    name_unref w1 n = Some w' \<and> name_inv (ext(n := ext n - 1)) (\<lambda>_. {}) w' \<and> counters_ok w' \<and>
    user_inv us' eu (name_charges w' + C) \<and> queue w' = queue w \<and> (\<forall>m. name_claims w' m = name_claims w m)"
proof (cases "ow \<in> set (queue w n)")
  case True
  then have "pend = (\<lambda>_. {})" using pend by (simp add: fun_eq_iff)
  with name_unref_inv [of ext "\<lambda>_. {}" w n] inv ext obtain w' where
    "name_unref w n = Some w'" "name_inv (ext(n := ext n - 1)) (\<lambda>_. {}) w'" "same_state w w'" by blast
  with True cnt acc show ?thesis using same_stateD [of w w'] same_state_claims [of w w'] by simp
next
  case False
  then have pn: "pend n = {ow}" and p0: "pend(n := {}) = (\<lambda>_. {})" using pend by (auto simp: fun_eq_iff)
  obtain x where x: "owned w ow n = Some x" using own by blast
  from name_ownership_free_inv [OF inv pn x acc, unfolded p0] obtain w1 us1 where
    w1: "name_ownership_free w us ow n = Some (w1, us1)" "name_inv ext (\<lambda>_. {}) w1"
      "user_inv us1 eu (name_charges w1 + C)" "queue w1 = queue w" "n_primaries w1 = n_primaries w"
      "\<forall>x m. owned w1 x m = (if x = ow \<and> m = n then None else owned w x m)"
      "\<forall>x. n_owner_primaries (owners w1 x) = n_owner_primaries (owners w x)"
    by blast
  have cnt1: "counters_ok w1" by (rule counters_cong [OF cnt]) (use w1 in simp_all)
  have claims: "name_claims w1 m = name_claims w m" for m
    by (rule name_claims_cong) (use w1 False in auto)
  from name_unref_inv [OF w1(2) ext] obtain w' where
    w': "name_unref w1 n = Some w'" "name_inv (ext(n := ext n - 1)) (\<lambda>_. {}) w'" "same_state w1 w'" by blast
  with False w1 cnt1 claims show ?thesis using same_stateD [OF w'(3)] same_state_claims [OF w'(3)] by simp
qed

lemma queue_request_not_failed: "\<not> request_failed (fst (queue_request q ow f))"
  by (auto simp: queue_request_def request_failed_def split: list.splits)

lemma request_tail:
  assumes inv: "name_inv (ext(n := ext n + 1)) pend w1" and pend: "\<And>m. m \<noteq> n \<Longrightarrow> pend m = {}" "pend n \<subseteq> {ow}"
    and cnt: "counters_ok w1" and acc: "user_inv us eu (name_charges w1 + C)"
    and e: "names w1 n \<noteq> None" and own: "owned w1 ow n \<noteq> None"
    and w: "\<And>m. name_claims w1 m = name_claims w m" "queue w1 = queue w"
  shows "\<exists>r w' us' ch. (do {
       (r, w, us, change) \<leftarrow> name_ownership_update w1 us ow n flags name_change_init;
       (w, us) \<leftarrow> (if ow \<in> set (queue w n) then Some (w, us) else name_ownership_free w us ow n);
       w \<leftarrow> name_unref w n;
       Some (r, w, us, change) }) = Some (r, w', us', ch) \<and>
    request_result ext eu C n ow (ucast flags) w r w' us' ch"
proof -
  have unset: "name_change_unset name_change_init" by (simp add: name_change_unset_iff)
  from name_ownership_update_inv [OF inv cnt acc e own pend(2) unset, of flags] obtain r w2 us2 ch where
    upd: "name_ownership_update w1 us ow n flags name_change_init = Some (r, w2, us2, ch)"
    and post: "request_post (ext(n := ext n + 1)) pend eu C n ow (ucast flags) w1 r w2 us2 ch" by blast
  let ?ext = "ext(n := ext n + 1 + of_bool (change_name ch \<noteq> None))"
  have pd: "pend(n := {ow} - set (queue w2 n)) = (\<lambda>_. {})(n := {ow} - set (queue w2 n))"
    using pend(1) by (auto simp: fun_eq_iff)
  have P: "name_inv ?ext ((\<lambda>_. {})(n := {ow} - set (queue w2 n))) w2" "counters_ok w2"
    "user_inv us2 eu (name_charges w2 + C)" "owned w2 ow n \<noteq> None"
    "(r, name_claims w2 n) = queue_request (name_claims w1 n) ow (ucast flags)"
    "ch = change_of n (name_primary w1 n) (name_primary w2 n)"
    "\<forall>m. m \<noteq> n \<longrightarrow> queue w2 m = queue w1 m \<and> (\<forall>x. owned w2 x m = owned w1 x m)"
    using post unfolding request_post_def pd fun_upd_upd fun_upd_same by blast+
  have "?ext n \<noteq> 0" by simp
  from request_finish [OF P(1) refl P(2,3,4) this] obtain w3 us' w' where
    fin: "(if ow \<in> set (queue w2 n) then Some (w2, us2) else name_ownership_free w2 us2 ow n) = Some (w3, us')"
      "name_unref w3 n = Some w'" "name_inv (?ext(n := ?ext n - 1)) (\<lambda>_. {}) w'" "counters_ok w'"
      "user_inv us' eu (name_charges w' + C)" "queue w' = queue w2" "\<forall>m. name_claims w' m = name_claims w2 m"
    by blast
  have "name_claims w2 m = name_claims w m" if "m \<noteq> n" for m
    using name_claims_cong [of w2 m w1] P(7) w(1) that by simp
  moreover have "\<not> request_failed r"
    using queue_request_not_failed [of "name_claims w1 n" ow "ucast flags"] P(5) [symmetric] by simp
  moreover have "name_primary w1 = name_primary w" using w(2) by (simp add: name_primary_def fun_eq_iff)
  moreover have "name_primary w' = name_primary w2" using fin(6) by (simp add: name_primary_def fun_eq_iff)
  ultimately have "request_result ext eu C n ow (ucast flags) w r w' us' ch"
    using fin P(5,6) w by (simp add: request_result_def)
  with upd fin(1,2) show ?thesis by auto
qed

lemma request_result_failed:
  assumes "name_inv ext (\<lambda>_. {}) w'" "same_state w w'" "counters_ok w" "user_inv us' eu (name_charges w + C)"
    "request_failed r"
  shows "request_result ext eu C n ow f w r w' us' name_change_init"
  using assms(1,3,4,5) same_stateD [OF assms(2)] same_state_claims [OF assms(2)]
  by (simp add: request_result_def change_of_def name_change_init_def)

lemma name_registry_request_name_inv:
  assumes inv: "name_inv ext (\<lambda>_. {}) w" and cnt: "counters_ok w" and acc: "user_inv us eu (name_charges w + C)"
    and ch: "chargeable us user user_charge_init None USER_SLOT_OBJECTS"
  shows "\<exists>r w' us' ch. name_registry_request_name env w us ow user n flags name_change_init = Some (r, w', us', ch) \<and>
    request_result ext eu C n ow (ucast flags) w r w' us' ch"
proof -
  from name_registry_ref_name_inv [OF inv, of env n] obtain r1 w1 where
    r1: "name_registry_ref_name env w n = Some (r1, w1)"
    "if r1 = NAME_OK then name_inv (ext(n := ext n + 1)) (\<lambda>_. {}) w1 \<and> same_state w w1 \<and> names w1 n \<noteq> None
     else r1 = NAME_ENOMEM \<and> w1 = w" by blast
  show ?thesis
  proof (cases "r1 = NAME_OK")
    case False
    with r1 inv cnt acc request_result_failed [of ext w w us eu C NAME_ENOMEM n ow "ucast flags"] show ?thesis
      by (simp add: name_registry_request_name_def same_state_def request_failed_def)
  next
    case True
    then have w1: "name_inv (ext(n := ext n + 1)) (\<lambda>_. {}) w1" "same_state w w1" "names w1 n \<noteq> None"
      using r1 by simp_all
    note same = same_stateD [OF w1(2)]
    show ?thesis
    proof (cases "owned w1 ow n")
      case (Some x)
      from request_tail [OF w1(1), of ow us eu C w flags] w1 Some cnt acc same same_state_claims [OF w1(2)]
      show ?thesis using r1 True by (simp add: name_registry_request_name_def)
    next
      case None
      have "user_inv us eu (name_charges w1 + C)" using acc same by simp
      from name_ownership_new_inv [OF w1(1,3) None this ch, of env, unfolded fun_upd_upd fun_upd_same] obtain r2 x w2 us2 where
        new: "name_ownership_new env w1 us user n = Some (r2, x, w2, us2)" "same_state w1 w2"
        "if r2 = NAME_OK then \<exists>own. x = Some own \<and> names w2 n \<noteq> None \<and> name_inv (ext(n := ext n + 1 + 1)) (\<lambda>_. {}) w2 \<and>
           user_inv us2 eu (add_mset (own_charge own) (name_charges w1) + C)
         else x = None \<and> name_inv (ext(n := ext n + 1)) (\<lambda>_. {}) w2 \<and> user_inv us2 eu (name_charges w1 + C) \<and>
           r2 \<notin> {NAME_E_NOT_FOUND, NAME_E_NOT_OWNER, NAME_E_ALREADY_OWNER, NAME_E_IN_QUEUE, NAME_E_EXISTS}"
        by blast
      have same2: "same_state w w2" using w1(2) new(2) by (rule same_state_trans)
      show ?thesis
      proof (cases "r2 = NAME_OK")
        case False
        with new have f: "x = None" "name_inv (ext(n := ext n + 1)) (\<lambda>_. {}) w2" "user_inv us2 eu (name_charges w + C)"
          "request_failed r2"
          using same by (cases r2; auto simp: request_failed_def)+
        from name_unref_inv [OF f(2), of n] obtain w3 where
          w3: "name_unref w2 n = Some w3" "name_inv ext (\<lambda>_. {}) w3" "same_state w2 w3" by auto
        have "request_result ext eu C n ow (ucast flags) w r2 w3 us2 name_change_init"
          using w3 f cnt same_state_trans [OF same2 w3(3)] by (intro request_result_failed)
        with r1 True None new(1) False f(1) w3(1) show ?thesis
          by (simp add: name_registry_request_name_def)
      next
        case ok: True
        then obtain own where own: "x = Some own" "names w2 n \<noteq> None" "name_inv (ext(n := ext n + 1 + 1)) (\<lambda>_. {}) w2"
          "user_inv us2 eu (add_mset (own_charge own) (name_charges w1) + C)" using new(3) by auto
        let ?w3 = "name_ownership_link ow n own w2"
        have none: "owned w2 ow n = None" using None same_stateD [OF new(2)] by simp
        have "(ext(n := ext n + 1 + 1)) n \<noteq> 0" by simp
        note link = name_ownership_link_inv [OF own(3,2) none this, of own, unfolded fun_upd_upd fun_upd_same add_diff_cancel_right']
        have q3: "queue ?w3 = queue w" "names ?w3 n \<noteq> None" "n_primaries ?w3 = n_primaries w"
          "n_owner_primaries (owners ?w3 y) = n_owner_primaries (owners w y)" for y
          using same_stateD [OF same2] own(2) by (simp_all add: name_ownership_link_def)
        have cnt3: "counters_ok ?w3" by (rule counters_cong [OF cnt]) (use q3 in simp_all)
        have acc3: "user_inv us2 eu (name_charges ?w3 + C)"
          using own(4) link same_stateD [OF new(2)] by simp
        have "ow \<notin> name_owners w n" using None same(2) by (simp add: name_owners_def)
        then have "ow \<notin> set (queue w n)" using name_inv_queue(2) [OF inv, of n] by blast
        then have "name_claims ?w3 m = name_claims w m" for m
          by (intro name_claims_cong) (use q3 same_stateD [OF same2] in \<open>auto simp: owned_link [OF none]\<close>)
        from request_tail [OF conjunct1 [OF link] _ _ cnt3 acc3 q3(2) _ this q3(1), of ow flags]
        show ?thesis
          using r1 True None new(1) ok own(1) by (simp add: name_registry_request_name_def owned_link [OF none])
      qed
    qed
  qed
qed

section \<open>Releases\<close>

definition queue_release :: "claims \<Rightarrow> owner_id \<Rightarrow> name_ret \<times> claims" where
  "queue_release q ow =
     (if q = [] then (NAME_E_NOT_FOUND, q)
      else if ow \<notin> fst ` set q then (NAME_E_NOT_OWNER, q)
      else (NAME_OK, filter (\<lambda>c. fst c \<noteq> ow) q))"

definition release_result ::
  "(string \<Rightarrow> nat) \<Rightarrow> (uid \<Rightarrow> nat) \<Rightarrow> user_charge multiset \<Rightarrow> string \<Rightarrow> owner_id \<Rightarrow>
   name_world \<Rightarrow> name_ret \<Rightarrow> name_world \<Rightarrow> user_registry \<Rightarrow> name_change \<Rightarrow> bool" where
  "release_result ext eu C n ow w r w' us' ch \<longleftrightarrow>
     name_inv (ext(n := ext n + of_bool (change_name ch \<noteq> None))) (\<lambda>_. {}) w' \<and>
     counters_ok w' \<and> user_inv us' eu (name_charges w' + C) \<and>
     (\<forall>m. m \<noteq> n \<longrightarrow> name_claims w' m = name_claims w m) \<and>
     ch = change_of n (name_primary w n) (name_primary w' n) \<and>
     (r, name_claims w' n) = queue_release (name_claims w n) ow"

lemma owned_iff_queued:
  "name_inv ext (\<lambda>_. {}) w \<Longrightarrow> owned w ow n \<noteq> None \<longleftrightarrow> ow \<in> set (queue w n)"
  using name_inv_queue(2) [of ext "\<lambda>_. {}" w n] by (auto simp: name_owners_def)

text \<open>Dequeueing the owner, with the counters and the notification, before the ownership is freed.\<close>

lemma release_dequeue:
  assumes inv: "name_inv ext (\<lambda>_. {}) w" and cnt: "counters_ok w" and e: "names w n \<noteq> None"
    and own: "ow \<in> set (queue w n)"
  shows "\<exists>w' ch. name_ownership_dequeue w ow n name_change_init = Some (w', ch) \<and>
    name_inv (ext(n := ext n + of_bool (change_name ch \<noteq> None))) ((\<lambda>_. {})(n := {ow})) w' \<and> counters_ok w' \<and>
    name_charges w' = name_charges w \<and> queue w' = (queue w)(n := removeAll ow (queue w n)) \<and> owned w' = owned w \<and>
    ch = change_of n (name_primary w n) (c_list_first (removeAll ow (queue w n)))"
proof -
  let ?q = "removeAll ow (queue w n)"
  note Q = name_inv_queue [OF inv, of n]
  have q: "distinct ?q" "set ?q \<union> {ow} = name_owners w n" "set ?q \<inter> {ow} = {}"
    using Q own by (auto simp: distinct_removeAll)
  note inv1 = set_queue_inv [OF inv e q]
  have first: "c_list_first ?q = Some x \<Longrightarrow> x \<noteq> ow" for x
    using q(3) c_list_first_mem by fastforce
  have unset: "name_change_unset name_change_init" by (simp add: name_change_unset_iff)
  obtain h rest where h: "queue w n = h # rest" using own by (cases "queue w n") auto
  show ?thesis
  proof (cases "name_primary w n = Some ow")
    case False
    then have "c_list_first ?q = name_primary w n" using h by (auto simp: name_primary_def)
    with False show ?thesis
      using requeue [OF inv cnt e q, of "set_queue n ?q w"] h
      using e unset by (auto simp: name_ownership_dequeue_def name_primary_def change_of_def name_change_init_def)
  next
    case True
    define w1 where "w1 = (owner_dec ow (set_queue n ?q w))\<lparr>n_primaries := n_primaries w - 1\<rparr>"
    have inv1': "name_inv ext ((\<lambda>_. {})(n := {ow})) w1"
      by (rule name_inv_cong [OF inv1]) (simp_all add: w1_def)
    obtain x where x: "names w1 n = Some x" using e by (auto simp: w1_def)
    from name_ref_inv [OF inv1' x] obtain w2 where
      w2: "name_ref w1 n = Some w2" "name_inv (ext(n := ext n + 1)) ((\<lambda>_. {})(n := {ow})) w2" "same_state w1 w2"
      by blast
    note same = same_stateD [OF w2(3)]
    define w3 where "w3 = (case c_list_first ?q of None \<Rightarrow> w2
      | Some p \<Rightarrow> owner_peak p (owner_inc p (w2\<lparr>n_primaries := n_primaries w2 + 1\<rparr>)))"
    have w3: "names w3 = names w2" "ownership_tree (owners w3 y) = ownership_tree (owners w y)"
      "queue w3 = (queue w)(n := ?q)"
      "n_primaries w3 = n_primaries w - 1 + of_bool (?q \<noteq> [])"
      "n_owner_primaries (owners w3 y) = n_owner_primaries (owners w y) - of_bool (y = ow) + of_bool (c_list_first ?q = Some y)"
      for y
      using same e by (auto simp: w3_def w1_def fun_eq_iff split: option.splits)
    have "name_inv (ext(n := ext n + 1)) ((\<lambda>_. {})(n := {ow})) w3"
      by (rule name_inv_cong [OF w2(2) w3(1)]) (use w3 same in \<open>simp add: w1_def\<close>)
    moreover have "counters_ok w3"
      by (rule counters_move [OF cnt name_inv_fin [OF inv], of n])
        (use w3 h True in \<open>auto simp: name_primary_def\<close>)
    moreover have "name_charges w3 = name_charges w" using w3 by (intro name_charges_cong) simp
    moreover have "owned w3 = owned w" using w3 by (simp add: owned_def fun_eq_iff)
    moreover have "name_primary w1 n = c_list_first ?q" using e by (simp add: w1_def name_primary_def)
    ultimately show ?thesis
      using True w2(1) w3(3) first e unset
      by (auto simp: name_ownership_dequeue_def w1_def w3_def change_of_def Let_def split: option.splits)
  qed
qed

lemma name_registry_release_name_inv:
  assumes inv: "name_inv ext (\<lambda>_. {}) w" and cnt: "counters_ok w" and acc: "user_inv us eu (name_charges w + C)"
  shows "\<exists>r w' us' ch. name_registry_release_name w us ow n name_change_init = Some (r, w', us', ch) \<and>
    release_result ext eu C n ow w r w' us' ch"
proof (cases "ow \<in> set (queue w n)")
  case False
  then have "owned w ow n = None" using owned_iff_queued [OF inv] by blast
  moreover have "ow \<notin> fst ` set (name_claims w n)" using False by (auto simp: name_claims_def)
  ultimately show ?thesis
    using inv cnt acc
    by (auto simp: name_registry_release_name_def name_registry_find_name_def release_result_def queue_release_def
        change_of_def name_change_init_def name_claims_def name_primary_def queue_def split: option.splits)
next
  case True
  then have e: "names w n \<noteq> None" by (cases "names w n") (auto simp: queue_def)
  obtain x where x: "owned w ow n = Some x" using True owned_iff_queued [OF inv] by blast
  from release_dequeue [OF inv cnt e True] obtain w1 ch where
    deq: "name_ownership_dequeue w ow n name_change_init = Some (w1, ch)"
    and w1: "name_inv (ext(n := ext n + of_bool (change_name ch \<noteq> None))) ((\<lambda>_. {})(n := {ow})) w1" "counters_ok w1"
      "name_charges w1 = name_charges w" "queue w1 = (queue w)(n := removeAll ow (queue w n))" "owned w1 = owned w"
      "ch = change_of n (name_primary w n) (c_list_first (removeAll ow (queue w n)))"
    by blast
  have own1: "owned w1 ow n = Some x" using x w1(5) by simp
  have acc1: "user_inv us eu (name_charges w1 + C)" using acc w1(3) by simp
  have z: "((\<lambda>_. {})(n := {ow}))(n := {}) = (\<lambda>_. {})" by (simp add: fun_eq_iff)
  from name_ownership_free_inv [OF w1(1) fun_upd_same own1 acc1, unfolded z] obtain w2 us2 where
    w2: "name_ownership_free w1 us ow n = Some (w2, us2)"
      "name_inv (ext(n := ext n + of_bool (change_name ch \<noteq> None))) (\<lambda>_. {}) w2"
      "user_inv us2 eu (name_charges w2 + C)" "queue w2 = queue w1" "n_primaries w2 = n_primaries w1"
      "\<forall>x m. owned w2 x m = (if x = ow \<and> m = n then None else owned w1 x m)"
      "\<forall>x. n_owner_primaries (owners w2 x) = n_owner_primaries (owners w1 x)"
    by blast
  have "counters_ok w2" by (rule counters_cong [OF w1(2)]) (use w2 in simp_all)
  moreover have "name_claims w2 m = name_claims w m" if "m \<noteq> n" for m
    by (rule name_claims_cong) (use w2 w1 that in auto)
  moreover have "name_claims w2 n = filter (\<lambda>c. fst c \<noteq> ow) (name_claims w n)"
    using w2(4,6) w1(4,5) by (auto simp: name_claims_def claims_filter flags_of_def)
  moreover have "ow \<in> fst ` set (name_claims w n)" using True by (auto simp: name_claims_def image_image)
  moreover have "name_primary w2 n = c_list_first (removeAll ow (queue w n))"
    using w2(4) w1(4) by (simp add: name_primary_def)
  ultimately have "release_result ext eu C n ow w NAME_OK w2 us2 ch"
    using w2 w1(6) unfolding release_result_def queue_release_def by (auto simp: name_claims_def)
  moreover have "name_registry_release_name w us ow n name_change_init = Some (NAME_OK, w2, us2, ch)"
    using e x True deq w2(1)
    by (auto simp: name_registry_release_name_def name_registry_find_name_def name_ownership_release_def name_primary_def)
  ultimately show ?thesis by blast
qed

section \<open>Runs of the registry\<close>

text \<open>
  The states the registry reaches: any owners requesting and releasing any names, and
  notifications being dropped once they are delivered. \<open>ext\<close> counts the notifications
  that are still pending.
\<close>

inductive name_reach :: "(uid \<Rightarrow> nat) \<Rightarrow> (string \<Rightarrow> nat) \<Rightarrow> name_world \<Rightarrow> user_registry \<Rightarrow> bool" for eu where
  start: "user_inv us eu {#} \<Longrightarrow> name_reach eu (\<lambda>_. 0) name_registry_init us"
| request: "\<lbrakk>name_reach eu ext w us; chargeable us user user_charge_init None USER_SLOT_OBJECTS;
     name_registry_request_name env w us ow user n flags name_change_init = Some (r, w', us', ch)\<rbrakk>
   \<Longrightarrow> name_reach eu (ext(n := ext n + of_bool (change_name ch \<noteq> None))) w' us'"
| release: "\<lbrakk>name_reach eu ext w us;
     name_registry_release_name w us ow n name_change_init = Some (r, w', us', ch)\<rbrakk>
   \<Longrightarrow> name_reach eu (ext(n := ext n + of_bool (change_name ch \<noteq> None))) w' us'"
| notify: "\<lbrakk>name_reach eu ext w us; change_name ch = Some n; ext n \<noteq> 0;
     name_change_deinit w ch = Some (w', ch')\<rbrakk> \<Longrightarrow> name_reach eu (ext(n := ext n - 1)) w' us"

lemma name_registry_init_inv: "name_inv (\<lambda>_. 0) (\<lambda>_. {}) name_registry_init" "counters_ok name_registry_init"
  "name_charges name_registry_init = {#}"
  by (simp_all add: name_registry_init_def name_inv_def name_ok_def name_owners_def owned_def name_owner_init_def
      counters_ok_def name_primary_def queue_def name_charges_def own_charges_def)

lemma name_change_deinit_inv:
  assumes "name_inv ext pend w" "change_name ch = Some n" "ext n \<noteq> 0"
  shows "\<exists>w'. name_change_deinit w ch = Some (w', name_change_init) \<and> name_inv (ext(n := ext n - 1)) pend w' \<and>
    same_state w w'"
  using name_unref_inv [OF assms(1,3)] assms(2) by (auto simp: name_change_deinit_def)

lemma name_reach_inv:
  "name_reach eu ext w us \<Longrightarrow> name_inv ext (\<lambda>_. {}) w \<and> counters_ok w \<and> user_inv us eu (name_charges w)"
proof (induction rule: name_reach.induct)
  case (start us)
  then show ?case by (simp add: name_registry_init_inv)
next
  case (request ext w us user env ow n flags r w' us' ch)
  then have "name_inv ext (\<lambda>_. {}) w" "counters_ok w" "user_inv us eu (name_charges w + {#})" by simp_all
  from name_registry_request_name_inv [OF this request.hyps(2), of env ow n flags] request.hyps(3)
  have "request_result ext eu {#} n ow (ucast flags) w r w' us' ch" by simp
  then show ?case unfolding request_result_def add.right_neutral by blast
next
  case (release ext w us ow n r w' us' ch)
  then have "name_inv ext (\<lambda>_. {}) w" "counters_ok w" "user_inv us eu (name_charges w + {#})" by simp_all
  from name_registry_release_name_inv [OF this, of ow n] release.hyps(2)
  have "release_result ext eu {#} n ow w r w' us' ch" by simp
  then show ?case unfolding release_result_def add.right_neutral by blast
next
  case (notify ext w us ch n w' ch')
  then have inv: "name_inv ext (\<lambda>_. {}) w" by blast
  from name_change_deinit_inv [OF inv notify.hyps(2,3)] notify.hyps(4)
  have "name_inv (ext(n := ext n - 1)) (\<lambda>_. {}) w'" "same_state w w'" by auto
  with notify.IH show ?case using same_stateD [of w w'] by metis
qed

section \<open>Properties of the name registry\<close>

text \<open>
  C1: \<open>RequestName\<close> refines the queue. From every consistent registry and accounts, and
  whatever allocations fail, \<open>name_registry_request_name\<close> returns without failing an
  assertion. If it does not report a resource failure, its return code and the new queue
  of the name, with the flags every owner last asked for, are those of the abstract
  \<open>queue_request\<close>; on a resource failure the queue is unchanged. No other name is
  touched, and the notification names the old and the new primary owner exactly if the
  primary owner changed.
\<close>
theorem name_request_refines_queue:
  assumes "name_inv ext (\<lambda>_. {}) w" "counters_ok w" "user_inv us eu (name_charges w + C)"
    "chargeable us user user_charge_init None USER_SLOT_OBJECTS"
  shows "\<exists>r w' us' ch. name_registry_request_name env w us ow user n flags name_change_init = Some (r, w', us', ch) \<and>
    (if request_failed r then name_claims w' n = name_claims w n
     else (r, name_claims w' n) = queue_request (name_claims w n) ow (ucast flags)) \<and>
    (\<forall>m. m \<noteq> n \<longrightarrow> name_claims w' m = name_claims w m) \<and>
    ch = change_of n (name_primary w n) (name_primary w' n)"
  using name_registry_request_name_inv [OF assms] unfolding request_result_def by blast

text \<open>
  C5: \<open>ReleaseName\<close> refines the queue. From every consistent registry and accounts,
  \<open>name_registry_release_name\<close> returns without failing an assertion, with the return code
  and the new queue of the abstract \<open>queue_release\<close>: a released primary is succeeded by
  the next owner in the queue. No other name is touched, and the notification names the
  old and the new primary owner exactly if the primary owner changed.
\<close>
theorem name_release_refines_queue:
  assumes "name_inv ext (\<lambda>_. {}) w" "counters_ok w" "user_inv us eu (name_charges w + C)"
  shows "\<exists>r w' us' ch. name_registry_release_name w us ow n name_change_init = Some (r, w', us', ch) \<and>
    (r, name_claims w' n) = queue_release (name_claims w n) ow \<and>
    (\<forall>m. m \<noteq> n \<longrightarrow> name_claims w' m = name_claims w m) \<and>
    ch = change_of n (name_primary w n) (name_primary w' n)"
  using name_registry_release_name_inv [OF assms] unfolding release_result_def by blast

text \<open>
  C6: consistency of every reachable registry. After any sequence of requests, releases
  and delivered notifications, no owner is queued twice for a name, an owner is queued for
  exactly the names in its tree, the statistics count exactly the names with an owner and
  the names every peer is the primary owner of, and all resources charged for ownerships
  are accounted for.
\<close>
theorem name_registry_consistent:
  assumes "name_reach eu ext w us"
  shows "distinct (queue w n) \<and>
    (ow \<in> set (queue w n) \<longleftrightarrow> owned w ow n \<noteq> None) \<and>
    n_primaries w = of_nat (card {n. name_primary w n \<noteq> None}) \<and>
    n_owner_primaries (owners w ow) = of_nat (card {n. name_primary w n = Some ow}) \<and>
    user_inv us eu (name_charges w)"
proof -
  from name_reach_inv [OF assms] have inv: "name_inv ext (\<lambda>_. {}) w" and "counters_ok w" "user_inv us eu (name_charges w)"
    by blast+
  then show ?thesis
    using name_inv_queue(1) [OF inv] owned_iff_queued [OF inv] by (auto simp: counters_ok_def)
qed

definition one_owner :: user_registry where
  "one_owner = one_user 4 [9, 9, 9, 9] 1"

lemma one_owner_ok:
  "user_inv one_owner ((\<lambda>_. 0)(1 := 1)) (name_charges name_registry_init + {#})"
  "chargeable one_owner (Some 1) user_charge_init None USER_SLOT_OBJECTS"
  using one_user_inv [of 4 "[9, 9, 9, 9]" 1] one_user_chargeable [of USER_SLOT_OBJECTS 4 user_charge_init "[9, 9, 9, 9]" 1 None]
  by (simp_all add: one_owner_def name_registry_init_inv user_charge_init_def USER_SLOT_OBJECTS_def)

theorem name_request_refines_queue_witness:
  "\<exists>r w' us' ch. name_registry_request_name \<lparr>mem_name = True, mem_ownership = True, mem_usage = True, log_works = True\<rparr>
      name_registry_init one_owner 7 (Some 1) ''org.a'' 0 name_change_init = Some (r, w', us', ch) \<and>
    (if request_failed r then name_claims w' ''org.a'' = name_claims name_registry_init ''org.a''
     else (r, name_claims w' ''org.a'') = queue_request (name_claims name_registry_init ''org.a'') 7 0)"
  using name_request_refines_queue [OF name_registry_init_inv(1,2) one_owner_ok,
      of "\<lparr>mem_name = True, mem_ownership = True, mem_usage = True, log_works = True\<rparr>" 7 "''org.a''" 0, unfolded unsigned_0]
  by blast

theorem name_release_refines_queue_witness:
  "\<exists>w' us' ch. name_registry_release_name name_registry_init one_owner 7 ''org.a'' name_change_init =
     Some (NAME_E_NOT_FOUND, w', us', ch)"
  using name_release_refines_queue [OF name_registry_init_inv(1,2) one_owner_ok(1), of 7 "''org.a''"]
  by (auto simp: name_claims_def queue_def name_registry_init_def queue_release_def)

theorem name_registry_consistent_witness:
  "name_reach ((\<lambda>_. 0)(1 := 1)) (\<lambda>_. 0) name_registry_init one_owner \<and>
   distinct (queue name_registry_init ''org.a'') \<and> n_primaries name_registry_init = of_nat (card {n. name_primary name_registry_init n \<noteq> None})"
proof -
  have r: "name_reach ((\<lambda>_. 0)(1 := 1)) (\<lambda>_. 0) name_registry_init one_owner"
    using one_owner_ok(1) by (intro name_reach.start) (simp add: name_registry_init_inv)
  from name_registry_consistent [OF r] r show ?thesis by blast
qed

end
