(* ===== verification/Policy.thy ===== *)
theory Policy
  imports Name
begin

text \<open>
  The policy of the bus (\<open>src/bus/policy.h\<close>, \<open>src/bus/policy.c\<close>): which peer may connect,
  own a name, send and receive a message.

  Rules are collected in batches; a batch is reference-counted and shared between the
  registry and the snapshots taken for the peers, so batches live in an explicit heap
  (\<open>policy_heap\<close>) and are named by a handle. The handle of an entry of a batch is the
  batch and the name of the entry. \<open>mem\<close> decides the outcome of the allocations: the
  \<open>i\<close>-th allocation succeeds iff \<open>mem i\<close>. \<open>None\<close> is a failed assertion or a dangling
  batch.

  The mandatory access control modules (\<open>src/util/apparmor.c\<close>, \<open>src/util/selinux.c\<close>) are
  thin layers over the libraries of the host; they are a parameter (\<open>mac\<close>), and
  \<open>fallback_mac\<close> is the instance the build uses without those libraries. What
  \<open>policy_registry_import\<close> reads from the serialised policy is given as the values that
  the reader delivers (\<open>policy_dump\<close>), with \<open>dump_poison\<close> the state of the reader in the
  end.
\<close>

section \<open>Objects\<close>

datatype policy_ret = POLICY_OK | POLICY_E_INVALID | POLICY_E_ACCESS_DENIED
  | POLICY_E_SELINUX_ACCESS_DENIED | POLICY_E_APPARMOR_ACCESS_DENIED
  | POLICY_ENOMEM | POLICY_FOLDED

record policy_verdict =
  v_verdict :: bool
  v_priority :: u64

definition POLICY_VERDICT_INIT :: policy_verdict where
  "POLICY_VERDICT_INIT = \<lparr>v_verdict = False, v_priority = 0\<rparr>"

record policy_xmit =
  x_verdict :: policy_verdict
  x_type :: u32
  x_broadcast :: u32
  x_path :: "string option"
  x_interface :: "string option"
  x_member :: "string option"
  x_min_fds :: u64
  x_max_fds :: u64

record policy_batch_name =
  bn_name :: string
  own_verdict :: policy_verdict
  own_prefix_verdict :: policy_verdict
  send_unindexed :: "policy_xmit list"
  recv_unindexed :: "policy_xmit list"

record policy_batch =
  pb_refs :: nat
  connect_verdict :: policy_verdict
  name_tree :: "policy_batch_name list"

type_synonym batch_id = nat

record policy_heap =
  next_batch :: batch_id
  n_allocs :: nat
  batches :: "batch_id \<rightharpoonup> policy_batch"

record policy_registry_node =
  uidgid_start :: u32
  uidgid_end :: u32
  node_batch :: batch_id

record ('a, 's) policy_registry =
  reg_apparmor :: 'a
  reg_selinux :: 's
  default_batch :: batch_id
  uid_range_tree :: "policy_registry_node list"
  uid_tree :: "policy_registry_node list"
  gid_tree :: "policy_registry_node list"

record ('a, 's) policy_snapshot =
  snap_apparmor :: 'a
  snap_selinux :: 's
  seclabel :: string
  snap_batches :: "batch_id list"

text \<open>The names a message is about (\<open>NameSet\<close> of \<open>name.h\<close>).\<close>

datatype name_set = NAME_SET_TYPE_EMPTY | NAME_SET_TYPE_OWNER owner_id | NAME_SET_TYPE_SNAPSHOT "string list"

text \<open>The interface of the access control modules.\<close>

datatype mac_ret = MAC_OK | MAC_E_DENIED | MAC_ERROR

record ('a, 's) mac =
  apparmor_registry_new :: "string \<Rightarrow> 'a option"
  selinux_registry_new :: "string \<Rightarrow> 's option"
  selinux_registry_add_name :: "'s \<Rightarrow> string \<Rightarrow> string \<Rightarrow> 's option"
  apparmor_set_bus_type :: "'a \<Rightarrow> string option \<Rightarrow> 'a option"
  apparmor_check_own :: "'a \<Rightarrow> string \<Rightarrow> string \<Rightarrow> mac_ret"
  selinux_check_own :: "'s \<Rightarrow> string \<Rightarrow> string \<Rightarrow> mac_ret"
  apparmor_check_send :: "'a \<Rightarrow> string \<Rightarrow> string \<Rightarrow> name_set option \<Rightarrow> u64 \<Rightarrow>
    string option \<Rightarrow> string option \<Rightarrow> string option \<Rightarrow> mac_ret"
  selinux_check_send :: "'s \<Rightarrow> string \<Rightarrow> string \<Rightarrow> mac_ret"

definition fallback_mac :: "(unit, unit) mac" where
  "fallback_mac = \<lparr>
     apparmor_registry_new = (\<lambda>_. Some ()),
     selinux_registry_new = (\<lambda>_. Some ()),
     selinux_registry_add_name = (\<lambda>_ _ _. Some ()),
     apparmor_set_bus_type = (\<lambda>_ _. Some ()),
     apparmor_check_own = (\<lambda>_ _ _. MAC_OK),
     selinux_check_own = (\<lambda>_ _ _. MAC_OK),
     apparmor_check_send = (\<lambda>_ _ _ _ _ _ _ _. MAC_OK),
     selinux_check_send = (\<lambda>_ _ _. MAC_OK)\<rparr>"

section \<open>Batches\<close>

definition policy_calloc :: "(nat \<Rightarrow> bool) \<Rightarrow> policy_heap \<Rightarrow> bool \<times> policy_heap" where
  "policy_calloc mem h = (mem (n_allocs h), h\<lparr>n_allocs := n_allocs h + 1\<rparr>)"

definition upd_batch :: "batch_id \<Rightarrow> (policy_batch \<Rightarrow> policy_batch) \<Rightarrow> policy_heap \<Rightarrow> policy_heap" where
  "upd_batch b f h = h\<lparr>batches := (batches h)(b := map_option f (batches h b))\<rparr>"

definition nonempty_string :: "string option \<Rightarrow> string option" where
  "nonempty_string s = (case s of Some (c # cs) \<Rightarrow> Some (c # cs) | _ \<Rightarrow> None)"

definition policy_xmit_new ::
  "(nat \<Rightarrow> bool) \<Rightarrow> policy_heap \<Rightarrow> u32 \<Rightarrow> u32 \<Rightarrow> string option \<Rightarrow> string option \<Rightarrow> string option \<Rightarrow>
   u64 \<Rightarrow> u64 \<Rightarrow> policy_xmit option \<times> policy_heap" where
  "policy_xmit_new mem h type broadcast path interface member min_fds max_fds =
     (case policy_calloc mem h of
        (False, h) \<Rightarrow> (None, h)
      | (True, h) \<Rightarrow>
          (Some \<lparr>x_verdict = POLICY_VERDICT_INIT, x_type = type, x_broadcast = broadcast,
                 x_path = nonempty_string path, x_interface = nonempty_string interface,
                 x_member = nonempty_string member, x_min_fds = min_fds, x_max_fds = max_fds\<rparr>, h))"

definition policy_batch_name_compare :: "string \<Rightarrow> policy_batch_name \<Rightarrow> int" where
  "policy_batch_name_compare k e = strcmp k (bn_name e)"

definition policy_batch_name_new :: "string \<Rightarrow> policy_batch_name" where
  "policy_batch_name_new name = \<lparr>bn_name = name, own_verdict = POLICY_VERDICT_INIT,
     own_prefix_verdict = POLICY_VERDICT_INIT, send_unindexed = [], recv_unindexed = []\<rparr>"

definition policy_batch_null :: policy_batch where
  "policy_batch_null = \<lparr>pb_refs = 1, connect_verdict = POLICY_VERDICT_INIT, name_tree = []\<rparr>"

definition policy_batch_new :: "(nat \<Rightarrow> bool) \<Rightarrow> policy_heap \<Rightarrow> batch_id option \<times> policy_heap" where
  "policy_batch_new mem h =
     (case policy_calloc mem h of
        (False, h) \<Rightarrow> (None, h)
      | (True, h) \<Rightarrow>
          (Some (next_batch h),
           h\<lparr>next_batch := next_batch h + 1, batches := (batches h)(next_batch h \<mapsto> policy_batch_null)\<rparr>))"

text \<open>Freeing a batch frees its names and their rules with it.\<close>

definition policy_batch_free :: "batch_id \<Rightarrow> policy_heap \<Rightarrow> policy_heap" where
  "policy_batch_free b h = h\<lparr>batches := (batches h)(b := None)\<rparr>"

definition policy_batch_ref :: "batch_id \<Rightarrow> policy_heap \<Rightarrow> policy_heap option" where
  "policy_batch_ref b h = do {
     bt \<leftarrow> batches h b;
     _ \<leftarrow> c_assert (pb_refs bt > 0);
     Some (upd_batch b (\<lambda>bt. bt\<lparr>pb_refs := pb_refs bt + 1\<rparr>) h) }"

definition policy_batch_unref :: "batch_id \<Rightarrow> policy_heap \<Rightarrow> policy_heap option" where
  "policy_batch_unref b h = do {
     bt \<leftarrow> batches h b;
     _ \<leftarrow> c_assert (pb_refs bt > 0);
     if pb_refs bt = 1 then Some (policy_batch_free b h)
     else Some (upd_batch b (\<lambda>bt. bt\<lparr>pb_refs := pb_refs bt - 1\<rparr>) h) }"

definition policy_batch_find_name :: "policy_batch \<Rightarrow> string \<Rightarrow> policy_batch_name option" where
  "policy_batch_find_name bt name = rb_find policy_batch_name_compare name (name_tree bt)"

definition policy_batch_at_name ::
  "(nat \<Rightarrow> bool) \<Rightarrow> policy_heap \<Rightarrow> batch_id \<Rightarrow> string \<Rightarrow> (policy_ret \<times> policy_heap) option" where
  "policy_batch_at_name mem h b name = do {
     bt \<leftarrow> batches h b;
     case policy_batch_find_name bt name of
       Some _ \<Rightarrow> Some (POLICY_OK, h)
     | None \<Rightarrow>
         (case policy_calloc mem h of
            (False, h) \<Rightarrow> Some (POLICY_ENOMEM, h)
          | (True, h) \<Rightarrow>
              Some (POLICY_OK,
                upd_batch b (\<lambda>bt. bt\<lparr>name_tree :=
                  rb_add policy_batch_name_compare name (policy_batch_name_new name) (name_tree bt)\<rparr>) h)) }"

definition upd_name_entry ::
  "batch_id \<Rightarrow> string \<Rightarrow> (policy_batch_name \<Rightarrow> policy_batch_name) \<Rightarrow> policy_heap \<Rightarrow> policy_heap" where
  "upd_name_entry b name f =
     upd_batch b (\<lambda>bt. bt\<lparr>name_tree := rb_modify policy_batch_name_compare name f (name_tree bt)\<rparr>)"

definition policy_batch_add_own ::
  "(nat \<Rightarrow> bool) \<Rightarrow> policy_heap \<Rightarrow> batch_id \<Rightarrow> string \<Rightarrow> policy_verdict \<Rightarrow> (policy_ret \<times> policy_heap) option" where
  "policy_batch_add_own mem h b name v = do {
     (r, h) \<leftarrow> policy_batch_at_name mem h b name;
     if r \<noteq> POLICY_OK then Some (r, h)
     else Some (POLICY_OK,
       upd_name_entry b name
         (\<lambda>e. if v_priority v \<ge> v_priority (own_verdict e) then e\<lparr>own_verdict := v\<rparr> else e) h) }"

definition policy_batch_add_own_prefix ::
  "(nat \<Rightarrow> bool) \<Rightarrow> policy_heap \<Rightarrow> batch_id \<Rightarrow> string \<Rightarrow> policy_verdict \<Rightarrow> (policy_ret \<times> policy_heap) option" where
  "policy_batch_add_own_prefix mem h b name v = do {
     (r, h) \<leftarrow> policy_batch_at_name mem h b name;
     if r \<noteq> POLICY_OK then Some (r, h)
     else Some (POLICY_OK,
       upd_name_entry b name
         (\<lambda>e. if v_priority v \<ge> v_priority (own_prefix_verdict e) then e\<lparr>own_prefix_verdict := v\<rparr> else e) h) }"

text \<open>One transmission rule as the serialised policy carries it: \<open>(btssssuutt)\<close>.\<close>

record xmit_rule =
  r_verdict :: policy_verdict
  r_name :: "string option"
  r_path :: "string option"
  r_interface :: "string option"
  r_member :: "string option"
  r_type :: u32
  r_broadcast :: u32
  r_min_fds :: u64
  r_max_fds :: u64

definition rule_name :: "xmit_rule \<Rightarrow> string" where
  "rule_name x = (case r_name x of None \<Rightarrow> [] | Some n \<Rightarrow> n)"

definition policy_batch_add_send ::
  "(nat \<Rightarrow> bool) \<Rightarrow> policy_heap \<Rightarrow> batch_id \<Rightarrow> xmit_rule \<Rightarrow> (policy_ret \<times> policy_heap) option" where
  "policy_batch_add_send mem h b x =
     (case policy_xmit_new mem h (r_type x) (r_broadcast x) (r_path x) (r_interface x) (r_member x)
             (r_min_fds x) (r_max_fds x) of
        (None, h) \<Rightarrow> Some (POLICY_ENOMEM, h)
      | (Some xmit, h) \<Rightarrow> do {
          let xmit = xmit\<lparr>x_verdict := r_verdict x\<rparr>;
          (r, h) \<leftarrow> policy_batch_at_name mem h b (rule_name x);
          if r \<noteq> POLICY_OK then Some (r, h)
          else Some (POLICY_OK,
            upd_name_entry b (rule_name x) (\<lambda>e. e\<lparr>send_unindexed := send_unindexed e @ [xmit]\<rparr>) h) })"

definition policy_batch_add_recv ::
  "(nat \<Rightarrow> bool) \<Rightarrow> policy_heap \<Rightarrow> batch_id \<Rightarrow> xmit_rule \<Rightarrow> (policy_ret \<times> policy_heap) option" where
  "policy_batch_add_recv mem h b x =
     (case policy_xmit_new mem h (r_type x) (r_broadcast x) (r_path x) (r_interface x) (r_member x)
             (r_min_fds x) (r_max_fds x) of
        (None, h) \<Rightarrow> Some (POLICY_ENOMEM, h)
      | (Some xmit, h) \<Rightarrow> do {
          let xmit = xmit\<lparr>x_verdict := r_verdict x\<rparr>;
          (r, h) \<leftarrow> policy_batch_at_name mem h b (rule_name x);
          if r \<noteq> POLICY_OK then Some (r, h)
          else Some (POLICY_OK,
            upd_name_entry b (rule_name x) (\<lambda>e. e\<lparr>recv_unindexed := recv_unindexed e @ [xmit]\<rparr>) h) })"

section \<open>The registry\<close>

type_synonym node_index = "u32 \<times> u32"

definition policy_registry_node_compare :: "node_index \<Rightarrow> policy_registry_node \<Rightarrow> int" where
  "policy_registry_node_compare k n =
     (if fst k < uidgid_start n then - 1
      else if fst k > uidgid_start n then 1
      else if snd k < uidgid_end n then - 1
      else if snd k > uidgid_end n then 1
      else 0)"

definition policy_registry_node_new ::
  "(nat \<Rightarrow> bool) \<Rightarrow> policy_heap \<Rightarrow> u32 \<Rightarrow> u32 \<Rightarrow> policy_registry_node option \<times> policy_heap" where
  "policy_registry_node_new mem h s e =
     (case policy_calloc mem h of
        (False, h) \<Rightarrow> (None, h)
      | (True, h) \<Rightarrow>
          (case policy_batch_new mem h of
             (None, h) \<Rightarrow> (None, h)
           | (Some b, h) \<Rightarrow> (Some \<lparr>uidgid_start = s, uidgid_end = e, node_batch = b\<rparr>, h)))"

definition policy_registry_node_free :: "policy_registry_node \<Rightarrow> policy_heap \<Rightarrow> policy_heap option" where
  "policy_registry_node_free n = policy_batch_unref (node_batch n)"

fun policy_nodes_free :: "policy_registry_node list \<Rightarrow> policy_heap \<Rightarrow> policy_heap option" where
  "policy_nodes_free [] h = Some h"
| "policy_nodes_free (n # ns) h = do { h \<leftarrow> policy_registry_node_free n h; policy_nodes_free ns h }"

definition policy_registry_new ::
  "('a, 's) mac \<Rightarrow> (nat \<Rightarrow> bool) \<Rightarrow> policy_heap \<Rightarrow> string \<Rightarrow>
   policy_ret \<times> ('a, 's) policy_registry option \<times> policy_heap" where
  "policy_registry_new M mem h fallback_seclabel =
     (case policy_calloc mem h of
        (False, h) \<Rightarrow> (POLICY_ENOMEM, None, h)
      | (True, h) \<Rightarrow>
          (case apparmor_registry_new M fallback_seclabel of
             None \<Rightarrow> (POLICY_FOLDED, None, h)
           | Some a \<Rightarrow>
               (case selinux_registry_new M fallback_seclabel of
                  None \<Rightarrow> (POLICY_FOLDED, None, h)
                | Some s \<Rightarrow>
                    (case policy_batch_new mem h of
                       (None, h) \<Rightarrow> (POLICY_ENOMEM, None, h)
                     | (Some b, h) \<Rightarrow>
                         (POLICY_OK,
                          Some \<lparr>reg_apparmor = a, reg_selinux = s, default_batch = b,
                                uid_range_tree = [], uid_tree = [], gid_tree = []\<rparr>, h)))))"

definition policy_registry_free :: "('a, 's) policy_registry \<Rightarrow> policy_heap \<Rightarrow> policy_heap option" where
  "policy_registry_free reg h = do {
     h \<leftarrow> policy_nodes_free (gid_tree reg) h;
     h \<leftarrow> policy_nodes_free (uid_tree reg) h;
     h \<leftarrow> policy_nodes_free (uid_range_tree reg) h;
     policy_batch_unref (default_batch reg) h }"

definition policy_registry_find_uid :: "('a, 's) policy_registry \<Rightarrow> u32 \<Rightarrow> policy_registry_node option" where
  "policy_registry_find_uid reg uid = rb_find policy_registry_node_compare (uid, uid) (uid_tree reg)"

definition policy_registry_find_gid :: "('a, 's) policy_registry \<Rightarrow> u32 \<Rightarrow> policy_registry_node option" where
  "policy_registry_find_gid reg gid = rb_find policy_registry_node_compare (gid, gid) (gid_tree reg)"

text \<open>\<open>policy_registry_at_uidgid\<close> works on one of the three trees and returns it.\<close>

definition policy_registry_at_uidgid ::
  "(nat \<Rightarrow> bool) \<Rightarrow> policy_heap \<Rightarrow> policy_registry_node list \<Rightarrow> u32 \<Rightarrow> u32 \<Rightarrow>
   policy_registry_node option \<times> policy_registry_node list \<times> policy_heap" where
  "policy_registry_at_uidgid mem h tree s e =
     (case rb_find policy_registry_node_compare (s, e) tree of
        Some node \<Rightarrow> (Some node, tree, h)
      | None \<Rightarrow>
          (case policy_registry_node_new mem h s e of
             (None, h) \<Rightarrow> (None, tree, h)
           | (Some node, h) \<Rightarrow> (Some node, rb_add policy_registry_node_compare (s, e) node tree, h)))"

definition policy_registry_at_uid ::
  "(nat \<Rightarrow> bool) \<Rightarrow> policy_heap \<Rightarrow> ('a, 's) policy_registry \<Rightarrow> u32 \<Rightarrow>
   policy_registry_node option \<times> ('a, 's) policy_registry \<times> policy_heap" where
  "policy_registry_at_uid mem h reg uid =
     (case policy_registry_at_uidgid mem h (uid_tree reg) uid uid of
        (n, t, h) \<Rightarrow> (n, reg\<lparr>uid_tree := t\<rparr>, h))"

definition policy_registry_at_uid_range ::
  "(nat \<Rightarrow> bool) \<Rightarrow> policy_heap \<Rightarrow> ('a, 's) policy_registry \<Rightarrow> u32 \<Rightarrow> u32 \<Rightarrow>
   policy_registry_node option \<times> ('a, 's) policy_registry \<times> policy_heap" where
  "policy_registry_at_uid_range mem h reg s e =
     (case policy_registry_at_uidgid mem h (uid_range_tree reg) s e of
        (n, t, h) \<Rightarrow> (n, reg\<lparr>uid_range_tree := t\<rparr>, h))"

definition policy_registry_at_gid ::
  "(nat \<Rightarrow> bool) \<Rightarrow> policy_heap \<Rightarrow> ('a, 's) policy_registry \<Rightarrow> u32 \<Rightarrow>
   policy_registry_node option \<times> ('a, 's) policy_registry \<times> policy_heap" where
  "policy_registry_at_gid mem h reg gid =
     (case policy_registry_at_uidgid mem h (gid_tree reg) gid gid of
        (n, t, h) \<Rightarrow> (n, reg\<lparr>gid_tree := t\<rparr>, h))"

section \<open>Import of a serialised policy\<close>

record own_rule =
  o_verdict :: policy_verdict
  o_prefix :: bool
  o_name :: string

record batch_dump =
  d_connect :: policy_verdict
  d_own :: "own_rule list"
  d_send :: "xmit_rule list"
  d_recv :: "xmit_rule list"

record policy_dump =
  dump_uids :: "(u32 \<times> batch_dump) list"
  dump_ranges :: "(bool \<times> u32 \<times> u32 \<times> batch_dump) list"
  dump_selinux :: "(string \<times> string) list"
  dump_apparmor :: bool
  dump_bustype :: string
  dump_poison :: bool

text \<open>A loop that returns at the first element whose step fails.\<close>

fun while_more :: "('s \<Rightarrow> 'e \<Rightarrow> (policy_ret \<times> 's) option) \<Rightarrow> 's \<Rightarrow> 'e list \<Rightarrow> (policy_ret \<times> 's) option" where
  "while_more f s [] = Some (POLICY_OK, s)"
| "while_more f s (x # xs) = do {
     (r, s) \<leftarrow> f s x;
     if r \<noteq> POLICY_OK then Some (r, s) else while_more f s xs }"

definition UTIL_TRISTATE_YES :: u32 where "UTIL_TRISTATE_YES = 1"
definition UTIL_TRISTATE_NO :: u32 where "UTIL_TRISTATE_NO = 2"
definition UTIL_TRISTATE_N :: u32 where "UTIL_TRISTATE_N = 3"

definition import_own ::
  "(nat \<Rightarrow> bool) \<Rightarrow> batch_id \<Rightarrow> policy_heap \<Rightarrow> own_rule \<Rightarrow> (policy_ret \<times> policy_heap) option" where
  "import_own mem b h x =
     (if o_prefix x then policy_batch_add_own_prefix mem h b (o_name x) (o_verdict x)
      else policy_batch_add_own mem h b (o_name x) (o_verdict x))"

definition import_send ::
  "(nat \<Rightarrow> bool) \<Rightarrow> batch_id \<Rightarrow> policy_heap \<Rightarrow> xmit_rule \<Rightarrow> (policy_ret \<times> policy_heap) option" where
  "import_send mem b h x =
     (if r_broadcast x \<ge> UTIL_TRISTATE_N then Some (POLICY_E_INVALID, h) else policy_batch_add_send mem h b x)"

definition import_recv ::
  "(nat \<Rightarrow> bool) \<Rightarrow> batch_id \<Rightarrow> policy_heap \<Rightarrow> xmit_rule \<Rightarrow> (policy_ret \<times> policy_heap) option" where
  "import_recv mem b h x =
     (if r_broadcast x \<ge> UTIL_TRISTATE_N then Some (POLICY_E_INVALID, h) else policy_batch_add_recv mem h b x)"

definition policy_registry_import_batch ::
  "(nat \<Rightarrow> bool) \<Rightarrow> policy_heap \<Rightarrow> batch_id \<Rightarrow> batch_dump \<Rightarrow> (policy_ret \<times> policy_heap) option" where
  "policy_registry_import_batch mem h b d = do {
     bt \<leftarrow> batches h b;
     let h = upd_batch b (\<lambda>bt. bt\<lparr>connect_verdict := d_connect d\<rparr>) h;
     (r, h) \<leftarrow> while_more (import_own mem b) h (d_own d);
     if r \<noteq> POLICY_OK then Some (r, h) else do {
     (r, h) \<leftarrow> while_more (import_send mem b) h (d_send d);
     if r \<noteq> POLICY_OK then Some (r, h) else
     while_more (import_recv mem b) h (d_recv d) } }"

type_synonym ('a, 's) policy_state = "('a, 's) policy_registry \<times> policy_heap"

definition import_uid ::
  "(nat \<Rightarrow> bool) \<Rightarrow> ('a, 's) policy_state \<Rightarrow> u32 \<times> batch_dump \<Rightarrow> (policy_ret \<times> ('a, 's) policy_state) option" where
  "import_uid mem st e =
     (let (reg, h) = st; (uid, d) = e in
      if uid = - 1 then do {
        (r, h) \<leftarrow> policy_registry_import_batch mem h (default_batch reg) d;
        Some (r, reg, h) }
      else
        (case policy_registry_at_uid mem h reg uid of
           (None, reg, h) \<Rightarrow> Some (POLICY_ENOMEM, reg, h)
         | (Some node, reg, h) \<Rightarrow> do {
             (r, h) \<leftarrow> policy_registry_import_batch mem h (node_batch node) d;
             Some (r, reg, h) }))"

definition import_range ::
  "(nat \<Rightarrow> bool) \<Rightarrow> ('a, 's) policy_state \<Rightarrow> bool \<times> u32 \<times> u32 \<times> batch_dump \<Rightarrow>
   (policy_ret \<times> ('a, 's) policy_state) option" where
  "import_range mem st e =
     (let (reg, h) = st; (group, s, t, d) = e in
      if group \<and> s \<noteq> t then Some (POLICY_E_INVALID, reg, h)
      else
        (case (if group then policy_registry_at_gid mem h reg s
               else policy_registry_at_uid_range mem h reg s t) of
           (None, reg, h) \<Rightarrow> Some (POLICY_ENOMEM, reg, h)
         | (Some node, reg, h) \<Rightarrow> do {
             (r, h) \<leftarrow> policy_registry_import_batch mem h (node_batch node) d;
             Some (r, reg, h) }))"

definition import_selinux ::
  "('a, 's) mac \<Rightarrow> ('a, 's) policy_state \<Rightarrow> string \<times> string \<Rightarrow> (policy_ret \<times> ('a, 's) policy_state) option" where
  "import_selinux M st e =
     (let (reg, h) = st in
      case selinux_registry_add_name M (reg_selinux reg) (fst e) (snd e) of
        None \<Rightarrow> Some (POLICY_FOLDED, reg, h)
      | Some s \<Rightarrow> Some (POLICY_OK, reg\<lparr>reg_selinux := s\<rparr>, h))"

definition policy_registry_import ::
  "('a, 's) mac \<Rightarrow> (nat \<Rightarrow> bool) \<Rightarrow> ('a, 's) policy_state \<Rightarrow> policy_dump \<Rightarrow>
   (policy_ret \<times> ('a, 's) policy_state) option" where
  "policy_registry_import M mem st v = do {
     (r, st) \<leftarrow> while_more (import_uid mem) st (dump_uids v);
     if r \<noteq> POLICY_OK then Some (r, st) else do {
     (r, st) \<leftarrow> while_more (import_range mem) st (dump_ranges v);
     if r \<noteq> POLICY_OK then Some (r, st) else do {
     (r, st) \<leftarrow> while_more (import_selinux M) st (dump_selinux v);
     if r \<noteq> POLICY_OK then Some (r, st) else
     (case apparmor_set_bus_type M (reg_apparmor (fst st))
             (if dump_apparmor v then Some (dump_bustype v) else None) of
        None \<Rightarrow> Some (POLICY_FOLDED, st)
      | Some a \<Rightarrow>
          Some (if dump_poison v then POLICY_E_INVALID else POLICY_OK,
                (fst st)\<lparr>reg_apparmor := a\<rparr>, snd st)) } } }"

section \<open>Snapshots\<close>

fun policy_batches_ref :: "batch_id list \<Rightarrow> policy_heap \<Rightarrow> policy_heap option" where
  "policy_batches_ref [] h = Some h"
| "policy_batches_ref (b # bs) h = do { h \<leftarrow> policy_batch_ref b h; policy_batches_ref bs h }"

fun policy_batches_unref :: "batch_id list \<Rightarrow> policy_heap \<Rightarrow> policy_heap option" where
  "policy_batches_unref [] h = Some h"
| "policy_batches_unref (b # bs) h = do { h \<leftarrow> policy_batch_unref b h; policy_batches_unref bs h }"

definition range_matches :: "u32 \<Rightarrow> policy_registry_node \<Rightarrow> bool" where
  "range_matches uid n \<longleftrightarrow> \<not> uidgid_start n > uid \<and> \<not> uidgid_end n < uid"

definition uid_batch :: "('a, 's) policy_registry \<Rightarrow> u32 \<Rightarrow> batch_id" where
  "uid_batch reg uid = (case policy_registry_find_uid reg uid of
     Some n \<Rightarrow> node_batch n | None \<Rightarrow> default_batch reg)"

definition range_batches :: "('a, 's) policy_registry \<Rightarrow> u32 \<Rightarrow> batch_id list" where
  "range_batches reg uid = map node_batch (filter (range_matches uid) (uid_range_tree reg))"

fun gid_batches :: "('a, 's) policy_registry \<Rightarrow> u32 list \<Rightarrow> nat \<Rightarrow> batch_id list" where
  "gid_batches reg gids 0 = []"
| "gid_batches reg gids (Suc n) =
     (case policy_registry_find_gid reg (gids ! n) of
        Some nd \<Rightarrow> node_batch nd # gid_batches reg gids n
      | None \<Rightarrow> gid_batches reg gids n)"

definition policy_snapshot_free :: "('a, 's) policy_snapshot \<Rightarrow> policy_heap \<Rightarrow> policy_heap option" where
  "policy_snapshot_free s = policy_batches_unref (rev (snap_batches s))"

definition policy_snapshot_new ::
  "(nat \<Rightarrow> bool) \<Rightarrow> policy_heap \<Rightarrow> ('a, 's) policy_registry \<Rightarrow> string \<Rightarrow> u32 \<Rightarrow> u32 list \<Rightarrow>
   (policy_ret \<times> ('a, 's) policy_snapshot option \<times> policy_heap) option" where
  "policy_snapshot_new mem h reg label uid gids =
     (let n_batches = 1 + length gids + length (filter (range_matches uid) (uid_range_tree reg)) in
      case policy_calloc mem h of
        (False, h) \<Rightarrow> Some (POLICY_ENOMEM, None, h)
      | (True, h) \<Rightarrow>
          (case policy_calloc mem h of
             (False, h) \<Rightarrow> Some (POLICY_ENOMEM, None, h)
           | (True, h) \<Rightarrow> do {
               let bs = uid_batch reg uid # range_batches reg uid @ gid_batches reg gids (length gids);
               h \<leftarrow> policy_batches_ref bs h;
               _ \<leftarrow> c_assert (length bs \<le> n_batches);
               Some (POLICY_OK,
                 Some \<lparr>snap_apparmor = reg_apparmor reg, snap_selinux = reg_selinux reg,
                       seclabel = label, snap_batches = bs\<rparr>, h) }))"

definition policy_snapshot_dup ::
  "(nat \<Rightarrow> bool) \<Rightarrow> policy_heap \<Rightarrow> ('a, 's) policy_snapshot \<Rightarrow>
   (policy_ret \<times> ('a, 's) policy_snapshot option \<times> policy_heap) option" where
  "policy_snapshot_dup mem h s =
     (case policy_calloc mem h of
        (False, h) \<Rightarrow> Some (POLICY_ENOMEM, None, h)
      | (True, h) \<Rightarrow>
          (case policy_calloc mem h of
             (False, h) \<Rightarrow> Some (POLICY_ENOMEM, None, h)
           | (True, h) \<Rightarrow> do {
               h \<leftarrow> policy_batches_ref (snap_batches s) h;
               Some (POLICY_OK, Some s, h) }))"

section \<open>Decisions\<close>

fun for_batches :: "(policy_batch \<Rightarrow> policy_verdict \<Rightarrow> policy_verdict) \<Rightarrow> policy_heap \<Rightarrow> batch_id list \<Rightarrow>
  policy_verdict \<Rightarrow> policy_verdict option" where
  "for_batches f h [] v = Some v"
| "for_batches f h (b # bs) v = do { bt \<leftarrow> batches h b; for_batches f h bs (f bt v) }"

definition supersede :: "policy_verdict \<Rightarrow> policy_verdict \<Rightarrow> policy_verdict" where
  "supersede v x = (if v_priority v < v_priority x then x else v)"

definition verdict_ret :: "policy_verdict \<Rightarrow> policy_ret" where
  "verdict_ret v = (if v_verdict v then POLICY_OK else POLICY_E_ACCESS_DENIED)"

definition policy_snapshot_check_connect ::
  "policy_heap \<Rightarrow> ('a, 's) policy_snapshot \<Rightarrow> policy_ret option" where
  "policy_snapshot_check_connect h s =
     map_option verdict_ret
       (for_batches (\<lambda>bt v. supersede v (connect_verdict bt)) h (snap_batches s) POLICY_VERDICT_INIT)"

definition strchrnul :: "string \<Rightarrow> nat \<Rightarrow> char \<Rightarrow> nat" where
  "strchrnul s i c = i + length (takeWhile (\<lambda>x. x \<noteq> c) (drop i s))"

definition strncmp :: "string \<Rightarrow> string \<Rightarrow> nat \<Rightarrow> int" where
  "strncmp a b n = strcmp (take n a) (take n b)"

text \<open>
  The comparison of the descent in \<open>policy_snapshot_check_own\<close>: negative for the left
  child, positive for the right child, zero where the loop stops.
\<close>

definition own_compare :: "string \<Rightarrow> nat \<Rightarrow> policy_batch_name \<Rightarrow> int" where
  "own_compare name_str e n =
     (let v = strncmp name_str (bn_name n) e in
      if v < 0 then - 1 else if v > 0 then 1 else if e < length (bn_name n) then - 1 else 0)"

definition own_lookup :: "policy_batch \<Rightarrow> string \<Rightarrow> nat \<Rightarrow> policy_batch_name option" where
  "own_lookup bt name_str e = List.find (\<lambda>n. own_compare name_str e n = 0) (name_tree bt)"

function own_prefixes :: "policy_batch \<Rightarrow> string \<Rightarrow> nat \<Rightarrow> policy_verdict \<Rightarrow> policy_verdict" where
  "own_prefixes bt name_str e v =
     (let v = (case own_lookup bt name_str e of
                 None \<Rightarrow> v
               | Some n \<Rightarrow> supersede (supersede v (own_verdict n)) (own_prefix_verdict n))
      in if e \<ge> length name_str then v
         else own_prefixes bt name_str (strchrnul name_str (e + 1) CHR ''.'') v)"
  by pat_completeness auto
termination
  by (relation "measure (\<lambda>(bt, s, e, v). length s - e)") (auto simp: strchrnul_def)

definition policy_snapshot_check_own ::
  "('a, 's) mac \<Rightarrow> policy_heap \<Rightarrow> ('a, 's) policy_snapshot \<Rightarrow> string \<Rightarrow> policy_ret option" where
  "policy_snapshot_check_own M h s name_str =
     (case apparmor_check_own M (snap_apparmor s) (seclabel s) name_str of
        MAC_E_DENIED \<Rightarrow> Some POLICY_E_APPARMOR_ACCESS_DENIED
      | MAC_ERROR \<Rightarrow> Some POLICY_FOLDED
      | MAC_OK \<Rightarrow>
          (case selinux_check_own M (snap_selinux s) (seclabel s) name_str of
             MAC_E_DENIED \<Rightarrow> Some POLICY_E_SELINUX_ACCESS_DENIED
           | MAC_ERROR \<Rightarrow> Some POLICY_FOLDED
           | MAC_OK \<Rightarrow>
               map_option verdict_ret
                 (for_batches (\<lambda>bt. own_prefixes bt name_str 0) h (snap_batches s) POLICY_VERDICT_INIT)))"

text \<open>What a transmission rule is matched against.\<close>

record policy_query =
  q_interface :: "string option"
  q_member :: "string option"
  q_path :: "string option"
  q_type :: u32
  q_broadcast :: bool
  q_fds :: u64

definition pattern_matches :: "string option \<Rightarrow> string option \<Rightarrow> bool" where
  "pattern_matches pat val = (case pat of None \<Rightarrow> True
     | Some p \<Rightarrow> (case val of None \<Rightarrow> False | Some v \<Rightarrow> strcmp v p = 0))"

definition xmit_matches :: "policy_query \<Rightarrow> policy_xmit \<Rightarrow> bool" where
  "xmit_matches q x \<longleftrightarrow>
     (x_type x \<noteq> 0 \<longrightarrow> q_type q = x_type x) \<and>
     pattern_matches (x_path x) (q_path q) \<and>
     pattern_matches (x_interface x) (q_interface q) \<and>
     pattern_matches (x_member x) (q_member q) \<and>
     (x_broadcast x = UTIL_TRISTATE_YES \<longrightarrow> q_broadcast q) \<and>
     (x_broadcast x = UTIL_TRISTATE_NO \<longrightarrow> \<not> q_broadcast q) \<and>
     \<not> x_min_fds x > q_fds q \<and> \<not> x_max_fds x < q_fds q"

definition policy_snapshot_check_xmit_name ::
  "policy_batch \<Rightarrow> bool \<Rightarrow> string \<Rightarrow> policy_query \<Rightarrow> policy_verdict \<Rightarrow> policy_verdict" where
  "policy_snapshot_check_xmit_name bt is_send name_str q verdict =
     (case policy_batch_find_name bt name_str of
        None \<Rightarrow> verdict
      | Some n \<Rightarrow>
          foldl (\<lambda>v x. if v_priority v \<ge> v_priority (x_verdict x) then v
                       else if \<not> xmit_matches q x then v else x_verdict x)
            verdict (if is_send then send_unindexed n else recv_unindexed n))"

definition DBUS_DRIVER_NAME :: string where
  "DBUS_DRIVER_NAME = ''org.freedesktop.DBus''"

definition nameset_names :: "name_world \<Rightarrow> name_set option \<Rightarrow> string list" where
  "nameset_names w ns = (case ns of
     None \<Rightarrow> [DBUS_DRIVER_NAME]
   | Some (NAME_SET_TYPE_OWNER ow) \<Rightarrow> map fst (ownership_tree (owners w ow))
   | Some (NAME_SET_TYPE_SNAPSHOT ns) \<Rightarrow> ns
   | Some NAME_SET_TYPE_EMPTY \<Rightarrow> [])"

definition policy_snapshot_check_xmit ::
  "name_world \<Rightarrow> bool \<Rightarrow> name_set option \<Rightarrow> policy_query \<Rightarrow> policy_batch \<Rightarrow> policy_verdict \<Rightarrow> policy_verdict" where
  "policy_snapshot_check_xmit w is_send ns q bt verdict =
     (let verdict = policy_snapshot_check_xmit_name bt is_send [] q verdict in
      foldl (\<lambda>v n. policy_snapshot_check_xmit_name bt is_send n q v) verdict (nameset_names w ns))"

definition policy_snapshot_check_send ::
  "('a, 's) mac \<Rightarrow> policy_heap \<Rightarrow> name_world \<Rightarrow> ('a, 's) policy_snapshot \<Rightarrow> string \<Rightarrow> name_set option \<Rightarrow> u64 \<Rightarrow>
   policy_query \<Rightarrow> policy_ret option" where
  "policy_snapshot_check_send M h w s subject_seclabel subject subject_id q =
     (case apparmor_check_send M (snap_apparmor s) (seclabel s) subject_seclabel subject subject_id
             (q_path q) (q_interface q) (q_member q) of
        MAC_E_DENIED \<Rightarrow> Some POLICY_E_APPARMOR_ACCESS_DENIED
      | MAC_ERROR \<Rightarrow> Some POLICY_FOLDED
      | MAC_OK \<Rightarrow>
          (case selinux_check_send M (snap_selinux s) (seclabel s) subject_seclabel of
             MAC_E_DENIED \<Rightarrow> Some POLICY_E_SELINUX_ACCESS_DENIED
           | MAC_ERROR \<Rightarrow> Some POLICY_FOLDED
           | MAC_OK \<Rightarrow>
               map_option verdict_ret
                 (for_batches (policy_snapshot_check_xmit w True subject q) h (snap_batches s)
                    POLICY_VERDICT_INIT)))"

definition policy_snapshot_check_receive ::
  "policy_heap \<Rightarrow> name_world \<Rightarrow> ('a, 's) policy_snapshot \<Rightarrow> name_set option \<Rightarrow> policy_query \<Rightarrow> policy_ret option" where
  "policy_snapshot_check_receive h w s subject q =
     map_option verdict_ret
       (for_batches (policy_snapshot_check_xmit w False subject q) h (snap_batches s) POLICY_VERDICT_INIT)"

declare own_prefixes.simps [simp del]

section \<open>How verdicts combine\<close>

text \<open>
  The decision a sequence of rules asks for: the first rule among those with the highest
  priority; rules of priority zero never decide.
\<close>

definition winner :: "policy_verdict list \<Rightarrow> policy_verdict \<Rightarrow> bool" where
  "winner vs v \<longleftrightarrow> (\<exists>i < length vs. vs ! i = v \<and> 0 < v_priority v \<and>
     (\<forall>j < length vs. v_priority (vs ! j) \<le> v_priority v) \<and>
     (\<forall>j < i. v_priority (vs ! j) < v_priority v))"

definition allows :: "policy_verdict list \<Rightarrow> bool" where
  "allows vs \<longleftrightarrow> (\<exists>v. winner vs v \<and> v_verdict v)"

lemma winner_unique:
  assumes "winner vs u" "winner vs v"
  shows "u = v"
proof -
  from assms obtain i j where
    i: "i < length vs" "vs ! i = u" "\<forall>k < length vs. v_priority (vs ! k) \<le> v_priority u"
      "\<forall>k < i. v_priority (vs ! k) < v_priority u" and
    j: "j < length vs" "vs ! j = v" "\<forall>k < length vs. v_priority (vs ! k) \<le> v_priority v"
      "\<forall>k < j. v_priority (vs ! k) < v_priority v"
    unfolding winner_def by blast
  from i j have "v_priority u = v_priority v" by (metis order_antisym)
  with i j have "\<not> i < j" "\<not> j < i" by (metis less_irrefl)+
  then have "i = j" by simp
  with i j show ?thesis by simp
qed

lemma winner_snoc_new:
  assumes "v_priority (foldl supersede POLICY_VERDICT_INIT vs) < v_priority x"
    and "\<forall>y \<in> set vs. v_priority y \<le> v_priority (foldl supersede POLICY_VERDICT_INIT vs)"
  shows "winner (vs @ [x]) x"
proof -
  have "v_priority (vs ! j) < v_priority x" if "j < length vs" for j
    using assms that by (meson le_less_trans nth_mem)
  moreover have "0 < v_priority x"
    using assms(1) by (metis word_coorder.not_eq_extremum word_not_simps(1))
  ultimately show ?thesis
    unfolding winner_def by (intro exI [of _ "length vs"]) (auto simp: nth_append less_imp_le less_Suc_eq)
qed

lemma winner_snoc_old:
  assumes "winner vs v" "v_priority x \<le> v_priority v"
  shows "winner (vs @ [x]) v"
proof -
  from assms(1) obtain i where i: "i < length vs" "vs ! i = v" "0 < v_priority v"
    "\<forall>j < length vs. v_priority (vs ! j) \<le> v_priority v" "\<forall>j < i. v_priority (vs ! j) < v_priority v"
    unfolding winner_def by blast
  with assms(2) show ?thesis
    unfolding winner_def by (intro exI [of _ i]) (simp add: nth_append less_Suc_eq)
qed

lemma fold_supersede_max:
  "y \<in> set vs \<Longrightarrow> v_priority y \<le> v_priority (foldl supersede POLICY_VERDICT_INIT vs)"
  by (induction vs rule: rev_induct) (auto simp: supersede_def not_less intro: less_imp_le order_trans le_less_trans)

lemma fold_supersede_winner:
  "winner vs (foldl supersede POLICY_VERDICT_INIT vs) \<or>
   foldl supersede POLICY_VERDICT_INIT vs = POLICY_VERDICT_INIT \<and> (\<forall>v \<in> set vs. v_priority v = 0)"
proof (induction vs rule: rev_induct)
  case Nil
  then show ?case by simp
next
  case (snoc x vs)
  let ?v = "foldl supersede POLICY_VERDICT_INIT vs"
  show ?case
  proof (cases "v_priority ?v < v_priority x")
    case True
    then have "winner (vs @ [x]) x" by (rule winner_snoc_new) (blast intro: fold_supersede_max)
    moreover from True have "supersede ?v x = x" by (simp add: supersede_def)
    ultimately show ?thesis by simp
  next
    case False
    then have "supersede ?v x = ?v" by (simp add: supersede_def)
    moreover have "?v = POLICY_VERDICT_INIT \<Longrightarrow> v_priority x = 0"
      using False by (simp add: POLICY_VERDICT_INIT_def word_gt_0)
    moreover have "winner vs ?v \<Longrightarrow> winner (vs @ [x]) ?v"
      using False by (simp add: winner_snoc_old not_less)
    ultimately show ?thesis using snoc.IH by auto
  qed
qed

lemma fold_supersede_allows:
  "v_verdict (foldl supersede POLICY_VERDICT_INIT vs) \<longleftrightarrow> allows vs"
proof (cases "winner vs (foldl supersede POLICY_VERDICT_INIT vs)")
  case True
  then show ?thesis unfolding allows_def using winner_unique by blast
next
  case False
  with fold_supersede_winner have none: "foldl supersede POLICY_VERDICT_INIT vs = POLICY_VERDICT_INIT"
    "\<forall>v \<in> set vs. v_priority v = 0" by blast+
  then have "\<not> winner vs v" for v
    unfolding winner_def by (metis nth_mem word_not_simps(1))
  with none show ?thesis by (simp add: allows_def POLICY_VERDICT_INIT_def)
qed

text \<open>
  Every decision of a snapshot is a loop over its batches. If one round of the loop is the
  supersession by a sequence of rules of the batch, the decision is that of all the rules
  in the order of the batches.
\<close>

definition snapshot_contents :: "policy_heap \<Rightarrow> ('a, 's) policy_snapshot \<Rightarrow> policy_batch list option" where
  "snapshot_contents h s = those (map (batches h) (snap_batches s))"

locale rule_check =
  fixes check :: "policy_batch \<Rightarrow> policy_verdict \<Rightarrow> policy_verdict"
    and rules :: "policy_batch \<Rightarrow> policy_verdict list"
  assumes check_supersede: "check bt v = foldl supersede v (rules bt)"
begin

lemma for_batches_rules:
  "those (map (batches h) bs) = Some bts \<Longrightarrow>
   for_batches check h bs v = Some (foldl supersede v (concat (map rules bts)))"
  by (induction bs arbitrary: bts v) (auto simp: check_supersede split: option.splits)

lemma decision:
  assumes "snapshot_contents h s = Some bts"
  shows "map_option verdict_ret (for_batches check h (snap_batches s) POLICY_VERDICT_INIT) =
    Some (if allows (concat (map rules bts)) then POLICY_OK else POLICY_E_ACCESS_DENIED)"
  using assms for_batches_rules [of h "snap_batches s" bts POLICY_VERDICT_INIT]
  by (simp add: snapshot_contents_def verdict_ret_def fold_supersede_allows)

end

interpretation connect_check: rule_check "\<lambda>bt v. supersede v (connect_verdict bt)" "\<lambda>bt. [connect_verdict bt]"
  by unfold_locales simp

text \<open>The rules on transmission that apply, in the order of the code.\<close>

definition entry_xmit_rules :: "bool \<Rightarrow> policy_query \<Rightarrow> policy_batch_name \<Rightarrow> policy_verdict list" where
  "entry_xmit_rules is_send q n =
     map x_verdict (filter (xmit_matches q) (if is_send then send_unindexed n else recv_unindexed n))"

definition name_xmit_rules :: "bool \<Rightarrow> policy_query \<Rightarrow> policy_batch \<Rightarrow> string \<Rightarrow> policy_verdict list" where
  "name_xmit_rules is_send q bt n =
     (case policy_batch_find_name bt n of None \<Rightarrow> [] | Some e \<Rightarrow> entry_xmit_rules is_send q e)"

definition xmit_rules :: "name_world \<Rightarrow> bool \<Rightarrow> name_set option \<Rightarrow> policy_query \<Rightarrow> policy_batch \<Rightarrow> policy_verdict list" where
  "xmit_rules w is_send ns q bt = concat (map (name_xmit_rules is_send q bt) ([] # nameset_names w ns))"

lemma check_xmit_name_rules:
  "policy_snapshot_check_xmit_name bt is_send n q v = foldl supersede v (name_xmit_rules is_send q bt n)"
proof -
  have "foldl (\<lambda>v x. if v_priority v \<ge> v_priority (x_verdict x) then v
          else if \<not> xmit_matches q x then v else x_verdict x) v xs =
        foldl supersede v (map x_verdict (filter (xmit_matches q) xs))" for xs
    by (induction xs arbitrary: v) (auto simp: supersede_def not_less)
  then show ?thesis
    by (simp add: policy_snapshot_check_xmit_name_def name_xmit_rules_def entry_xmit_rules_def split: option.split)
qed

lemma foldl_concat: "foldl (\<lambda>v n. foldl f v (g n)) v ns = foldl f v (concat (map g ns))"
  by (induction ns arbitrary: v) simp_all

interpretation xmit_check: rule_check "policy_snapshot_check_xmit w is_send ns q" "xmit_rules w is_send ns q"
  for w is_send ns q
  by unfold_locales
    (simp add: policy_snapshot_check_xmit_def xmit_rules_def check_xmit_name_rules foldl_concat)

text \<open>
  The prefixes of a name at which the ownership rules are looked up: the empty one, one
  for every dot after the first byte, and the whole name.
\<close>

definition prefix_ends :: "string \<Rightarrow> nat \<Rightarrow> nat list" where
  "prefix_ends s e = (if e \<ge> length s then [e]
     else e # filter (\<lambda>p. s ! p = CHR ''.'') [e + 1..<length s] @ [length s])"

definition name_prefixes :: "string \<Rightarrow> string list" where
  "name_prefixes s = map (\<lambda>e. take e s) (prefix_ends s 0)"

definition entry_own_rules :: "policy_batch \<Rightarrow> string \<Rightarrow> policy_verdict list" where
  "entry_own_rules bt p = (case policy_batch_find_name bt p of
     None \<Rightarrow> [] | Some n \<Rightarrow> [own_verdict n, own_prefix_verdict n])"

definition own_rules :: "string \<Rightarrow> policy_batch \<Rightarrow> policy_verdict list" where
  "own_rules s bt = concat (map (entry_own_rules bt) (name_prefixes s))"

lemma take_less_take:
  "take n a < take n b \<Longrightarrow> take n a < (b :: string)"
proof (induction n arbitrary: a b)
  case 0
  then show ?case by simp
next
  case (Suc n)
  then show ?case by (cases a; cases b) auto
qed

lemma take_greater_take:
  "take n b < take n a \<Longrightarrow> (b :: string) < take n a"
proof (induction n arbitrary: a b)
  case 0
  then show ?case by simp
next
  case (Suc n)
  then show ?case by (cases a; cases b) auto
qed

lemma take_less_longer: "\<lbrakk>take n b = a; length a < length b\<rbrakk> \<Longrightarrow> a < (b :: string)"
  by (induction n arbitrary: a b) (auto simp: neq_Nil_conv take_Cons' split: if_splits, case_tac b, auto)

lemma own_compare_strcmp:
  assumes "e \<le> length s"
  shows "own_compare s e n = policy_batch_name_compare (take e s) n"
proof -
  consider "take e s < take e (bn_name n)" | "take e (bn_name n) < take e s" | "take e s = take e (bn_name n)"
    by (meson linorder_less_linear)
  then show ?thesis
  proof cases
    case 1
    with take_less_take [OF 1] show ?thesis
      by (simp add: own_compare_def strncmp_def policy_batch_name_compare_def strcmp_def three_way_def)
  next
    case 2
    then have "strncmp s (bn_name n) e = 1" "policy_batch_name_compare (take e s) n = 1"
      using take_greater_take [OF 2] less_not_sym
      by (auto simp: strncmp_def policy_batch_name_compare_def strcmp_def three_way_def)
    then show ?thesis by (simp add: own_compare_def)
  next
    case 3
    show ?thesis
    proof (cases "e < length (bn_name n)")
      case True
      with 3 assms have "take e s < bn_name n" by (intro take_less_longer [of e]) auto
      with 3 True show ?thesis
        by (simp add: own_compare_def strncmp_def policy_batch_name_compare_def strcmp_def three_way_def)
    next
      case False
      with 3 show ?thesis
        by (simp add: own_compare_def strncmp_def policy_batch_name_compare_def strcmp_def three_way_def)
    qed
  qed
qed

lemma own_lookup_find:
  "e \<le> length s \<Longrightarrow> own_lookup bt s e = policy_batch_find_name bt (take e s)"
  by (simp add: own_lookup_def policy_batch_find_name_def rb_find_def own_compare_strcmp)

lemma strchrnul_bounds:
  "i \<le> length s \<Longrightarrow> i \<le> strchrnul s i c \<and> strchrnul s i c \<le> length s"
  using length_takeWhile_le [of "\<lambda>x. x \<noteq> c" "drop i s"] by (simp add: strchrnul_def)

lemma strchrnul_stop:
  assumes "i \<le> length s" "strchrnul s i c < length s"
  shows "s ! strchrnul s i c = c"
  using assms nth_length_takeWhile [of "\<lambda>x. x \<noteq> c" "drop i s"] by (simp add: strchrnul_def)

lemma strchrnul_before:
  assumes "i \<le> p" "p < strchrnul s i c"
  shows "s ! p \<noteq> c"
proof -
  let ?tw = "takeWhile (\<lambda>x. x \<noteq> c) (drop i s)"
  from assms have "p - i < length ?tw" by (auto simp: strchrnul_def)
  then have "?tw ! (p - i) \<in> set ?tw" and "?tw ! (p - i) = drop i s ! (p - i)"
    by (rule nth_mem, rule takeWhile_nth)
  then have "drop i s ! (p - i) \<noteq> c" by (metis set_takeWhileD)
  moreover from \<open>p - i < length ?tw\<close> have "i \<le> length s"
    by (cases "i \<le> length s") auto
  ultimately show ?thesis using assms(1) by simp
qed

lemma filter_upt_strchrnul:
  assumes "i \<le> length s"
  shows "filter (\<lambda>p. s ! p = c) [i..<length s] =
    (if strchrnul s i c = length s then []
     else strchrnul s i c # filter (\<lambda>p. s ! p = c) [strchrnul s i c + 1..<length s])"
proof -
  let ?e = "strchrnul s i c"
  from strchrnul_bounds [OF assms] have b: "i \<le> ?e" "?e \<le> length s" by auto
  then have split: "[i..<length s] = [i..<?e] @ [?e..<length s]"
    by (metis le_iff_add upt_add_eq_append)
  have "filter (\<lambda>p. s ! p = c) [i..<?e] = []"
    by (auto simp: filter_empty_conv dest: strchrnul_before)
  moreover have "[?e..<length s] = ?e # [?e + 1..<length s]" if "?e < length s"
    using that by (simp add: upt_conv_Cons)
  ultimately show ?thesis
    using split b strchrnul_stop [OF assms] by (auto simp del: upt_Suc)
qed

lemma prefix_ends_step:
  assumes "e < length s"
  shows "prefix_ends s e = e # prefix_ends s (strchrnul s (e + 1) CHR ''.'')"
proof -
  from assms have le: "e + 1 \<le> length s" by simp
  from strchrnul_bounds [OF le] have "strchrnul s (e + 1) CHR ''.'' \<le> length s" by blast
  then show ?thesis
    using assms filter_upt_strchrnul [OF le, of "CHR ''.''"] by (auto simp: prefix_ends_def)
qed

lemma own_prefixes_rules:
  "e \<le> length s \<Longrightarrow>
   own_prefixes bt s e v = foldl supersede v (concat (map (\<lambda>e. entry_own_rules bt (take e s)) (prefix_ends s e)))"
proof (induction bt s e v rule: own_prefixes.induct)
  case (1 bt s e v)
  let ?v = "foldl supersede v (entry_own_rules bt (take e s))"
  have v: "(case own_lookup bt s e of None \<Rightarrow> v
      | Some n \<Rightarrow> supersede (supersede v (own_verdict n)) (own_prefix_verdict n)) = ?v"
    using 1(2) by (simp add: own_lookup_find entry_own_rules_def split: option.split)
  show ?case
  proof (cases "e \<ge> length s")
    case True
    then show ?thesis by (subst own_prefixes.simps) (use v in \<open>simp add: prefix_ends_def\<close>)
  next
    case False
    then have le: "e + 1 \<le> length s" by simp
    show ?thesis
      using 1(1) [OF v [symmetric] False] strchrnul_bounds [OF le] False v prefix_ends_step [of e s]
      by (subst own_prefixes.simps) (simp add: Let_def)
  qed
qed

interpretation own_check: rule_check "\<lambda>bt. own_prefixes bt s 0" "own_rules s"
  for s
  by unfold_locales (simp add: own_prefixes_rules own_rules_def name_prefixes_def o_def)

section \<open>What the import writes into a batch\<close>

lemma policy_batch_name_compare_simps [simp]:
  "policy_batch_name_compare k e = 0 \<longleftrightarrow> bn_name e = k"
  "policy_batch_name_compare k e < 0 \<longleftrightarrow> k < bn_name e"
  "0 < policy_batch_name_compare k e \<longleftrightarrow> bn_name e < k"
  by (auto simp: policy_batch_name_compare_def)

interpretation name_index: compare_order policy_batch_name_compare bn_name "\<lambda>_. True"
  by unfold_locales (auto simp: less_trans)

text \<open>
  The abstract content of a batch: the entry of every name, where a name without an entry
  counts as one without rules.
\<close>

definition entry :: "policy_batch \<Rightarrow> string \<Rightarrow> policy_batch_name" where
  "entry bt n = (case policy_batch_find_name bt n of None \<Rightarrow> policy_batch_name_new n | Some e \<Rightarrow> e)"

definition batch_ready :: "batch_id \<Rightarrow> policy_heap \<Rightarrow> bool" where
  "batch_ready b h \<longleftrightarrow> (case batches h b of None \<Rightarrow> False | Some bt \<Rightarrow> name_index.ordered (name_tree bt))"

text \<open>\<open>batch_becomes b h h' c F\<close>: only the content of \<open>b\<close> changes, entry by entry as \<open>F\<close> says.\<close>

definition batch_becomes ::
  "batch_id \<Rightarrow> policy_heap \<Rightarrow> policy_heap \<Rightarrow> (policy_verdict \<Rightarrow> policy_verdict) \<Rightarrow>
   (string \<Rightarrow> policy_batch_name \<Rightarrow> policy_batch_name) \<Rightarrow> bool" where
  "batch_becomes b h h' c F \<longleftrightarrow> next_batch h' = next_batch h \<and> (\<forall>d. d \<noteq> b \<longrightarrow> batches h' d = batches h d) \<and>
     (\<exists>bt bt'. batches h b = Some bt \<and> batches h' b = Some bt' \<and> pb_refs bt' = pb_refs bt \<and>
        name_index.ordered (name_tree bt') \<and> connect_verdict bt' = c (connect_verdict bt) \<and>
        (\<forall>n. entry bt' n = F n (entry bt n)))"

lemma batch_becomes_ready: "batch_becomes b h h' c F \<Longrightarrow> batch_ready b h'"
  by (auto simp: batch_becomes_def batch_ready_def)

lemma batch_becomes_refl:
  assumes "batch_ready b h"
  shows "batch_becomes b h (h\<lparr>n_allocs := k\<rparr>) (\<lambda>v. v) (\<lambda>n e. e)"
  using assms by (auto simp: batch_becomes_def batch_ready_def split: option.splits)

lemma batch_becomes_trans:
  "\<lbrakk>batch_becomes b h h' c F; batch_becomes b h' h'' c' G\<rbrakk> \<Longrightarrow>
   batch_becomes b h h'' (\<lambda>v. c' (c v)) (\<lambda>n e. G n (F n e))"
  by (auto simp: batch_becomes_def)

lemma entry_cong: "name_tree bt' = name_tree bt \<Longrightarrow> entry bt' n = entry bt n"
  by (simp add: entry_def policy_batch_find_name_def)

lemma entry_add:
  assumes "name_index.ordered (name_tree bt)" "policy_batch_find_name bt m = None"
  shows "entry (bt\<lparr>name_tree := rb_add policy_batch_name_compare m (policy_batch_name_new m) (name_tree bt)\<rparr>) n
    = entry bt n"
  using name_index.find_add [of "name_tree bt" "policy_batch_name_new m" n] assms
  by (auto simp: entry_def policy_batch_find_name_def policy_batch_name_new_def)

lemma ordered_modify:
  assumes "name_index.ordered t" "\<And>e. bn_name (f e) = bn_name e"
  shows "name_index.ordered (rb_modify policy_batch_name_compare m f t)"
proof -
  have "map bn_name (rb_modify policy_batch_name_compare m f t) = map bn_name t"
    using assms(2) by (simp add: rb_modify_def)
  moreover have "name_index.ordered t \<longleftrightarrow> sorted_wrt (<) (map bn_name t)" for t
    by (simp add: name_index.ordered_def sorted_wrt_map)
  ultimately show ?thesis using assms(1) by simp
qed

lemma entry_modify:
  assumes "name_index.ordered (name_tree bt)" "\<And>e. bn_name (f e) = bn_name e"
    and "policy_batch_find_name bt m \<noteq> None"
  shows "entry (bt\<lparr>name_tree := rb_modify policy_batch_name_compare m f (name_tree bt)\<rparr>) n
    = (if n = m then f (entry bt n) else entry bt n)"
proof -
  have "rb_find policy_batch_name_compare n (rb_modify policy_batch_name_compare m f t)
      = map_option (\<lambda>e. if n = m then f e else e) (rb_find policy_batch_name_compare n t)" for t
    using assms(2) by (induction t) (auto simp: rb_find_def rb_modify_def)
  then show ?thesis using assms(3)
    by (auto simp: entry_def policy_batch_find_name_def split: option.splits)
qed

lemma policy_batch_at_name_ok:
  assumes "batch_ready b h"
  shows "\<exists>r h'. policy_batch_at_name mem h b m = Some (r, h') \<and> batch_becomes b h h' (\<lambda>v. v) (\<lambda>n e. e) \<and>
    (r = POLICY_OK \<longrightarrow> (\<exists>bt. batches h' b = Some bt \<and> policy_batch_find_name bt m \<noteq> None))"
proof -
  from assms obtain bt where bt: "batches h b = Some bt" and o: "name_index.ordered (name_tree bt)"
    by (auto simp: batch_ready_def split: option.splits)
  show ?thesis
  proof (cases "policy_batch_find_name bt m")
    case (Some e)
    with bt batch_becomes_refl [OF assms, of "n_allocs h"] show ?thesis
      by (auto simp: policy_batch_at_name_def)
  next
    case None
    let ?t = "rb_add policy_batch_name_compare m (policy_batch_name_new m) (name_tree bt)"
    have nm: "bn_name (policy_batch_name_new m) = m" by (simp add: policy_batch_name_new_def)
    have ord: "name_index.ordered ?t"
      using name_index.ordered_add [OF o, of "policy_batch_name_new m"] None nm
      by (simp add: policy_batch_find_name_def)
    have found: "policy_batch_find_name (bt\<lparr>name_tree := ?t\<rparr>) m \<noteq> None"
      using name_index.find_add [OF o, of "policy_batch_name_new m" m] None nm
      by (simp add: policy_batch_find_name_def)
    show ?thesis
    proof (cases "mem (n_allocs h)")
      case True
      let ?h = "upd_batch b (\<lambda>bt. bt\<lparr>name_tree :=
        rb_add policy_batch_name_compare m (policy_batch_name_new m) (name_tree bt)\<rparr>) (h\<lparr>n_allocs := n_allocs h + 1\<rparr>)"
      have "policy_batch_at_name mem h b m = Some (POLICY_OK, ?h)"
        using bt None True by (simp add: policy_batch_at_name_def policy_calloc_def)
      moreover have "batch_becomes b h ?h (\<lambda>v. v) (\<lambda>n e. e)"
        using bt ord entry_add [OF o None] by (simp add: batch_becomes_def upd_batch_def)
      ultimately show ?thesis using bt found by (simp add: upd_batch_def)
    next
      case False
      with bt None batch_becomes_refl [OF assms, of "n_allocs h + 1"] show ?thesis
        by (simp add: policy_batch_at_name_def policy_calloc_def)
    qed
  qed
qed

lemma upd_name_entry_becomes:
  assumes "batch_ready b h" "\<And>e. bn_name (f e) = bn_name e"
    and "batches h b = Some bt" "policy_batch_find_name bt m \<noteq> None"
  shows "batch_becomes b h (upd_name_entry b m f h) (\<lambda>v. v) (\<lambda>n e. if n = m then f e else e)"
proof -
  from assms have o: "name_index.ordered (name_tree bt)" by (simp add: batch_ready_def)
  show ?thesis
    using assms(3) ordered_modify [OF o assms(2)] entry_modify [OF o assms(2) assms(4)]
    by (simp add: batch_becomes_def upd_name_entry_def upd_batch_def)
qed

text \<open>Looking up an entry and changing it: the shape of the four \<open>policy_batch_add_*\<close>.\<close>

lemma at_name_then_update:
  assumes "batch_ready b h" "\<And>e. bn_name (f e) = bn_name e"
  shows "\<exists>r h' G. do { (r, h) \<leftarrow> policy_batch_at_name mem h b m;
      if r \<noteq> POLICY_OK then Some (r, h) else Some (POLICY_OK, upd_name_entry b m f h) } = Some (r, h') \<and>
    batch_becomes b h h' (\<lambda>v. v) G \<and> (r = POLICY_OK \<longrightarrow> G = (\<lambda>n e. if n = m then f e else e))"
proof -
  from policy_batch_at_name_ok [OF assms(1), of mem m] obtain r h' where
    at: "policy_batch_at_name mem h b m = Some (r, h')" "batch_becomes b h h' (\<lambda>v. v) (\<lambda>n e. e)"
    and found: "r = POLICY_OK \<Longrightarrow> \<exists>bt. batches h' b = Some bt \<and> policy_batch_find_name bt m \<noteq> None" by blast
  show ?thesis
  proof (cases "r = POLICY_OK")
    case True
    from found [OF True] obtain bt where bt: "batches h' b = Some bt" "policy_batch_find_name bt m \<noteq> None" by blast
    from upd_name_entry_becomes [OF batch_becomes_ready [OF at(2)] assms(2) bt]
    have "batch_becomes b h (upd_name_entry b m f h') (\<lambda>v. v) (\<lambda>n e. if n = m then f e else e)"
      using batch_becomes_trans [OF at(2)] by fastforce
    with True at(1) show ?thesis by auto
  next
    case False
    with at show ?thesis by auto
  qed
qed

text \<open>
  A loop of the import over one array: each element changes the entries of the batch by
  \<open>F\<close>, unless it fails.
\<close>

locale batch_loop =
  fixes b :: batch_id
    and f :: "policy_heap \<Rightarrow> 'e \<Rightarrow> (policy_ret \<times> policy_heap) option"
    and F :: "'e \<Rightarrow> string \<Rightarrow> policy_batch_name \<Rightarrow> policy_batch_name"
  assumes step: "batch_ready b h \<Longrightarrow>
    \<exists>r h' G. f h x = Some (r, h') \<and> batch_becomes b h h' (\<lambda>v. v) G \<and> (r = POLICY_OK \<longrightarrow> G = F x)"
begin

lemma loop:
  "batch_ready b h \<Longrightarrow>
   \<exists>r h' G. while_more f h xs = Some (r, h') \<and> batch_becomes b h h' (\<lambda>v. v) G \<and>
     (r = POLICY_OK \<longrightarrow> G = (\<lambda>n e. foldl (\<lambda>e x. F x n e) e xs))"
proof (induction xs arbitrary: h)
  case Nil
  then show ?case using batch_becomes_refl [of b h "n_allocs h"] by auto
next
  case (Cons x xs)
  from step [OF Cons.prems, of x] obtain r h' G where
    x: "f h x = Some (r, h')" "batch_becomes b h h' (\<lambda>v. v) G" "r = POLICY_OK \<Longrightarrow> G = F x" by blast
  show ?case
  proof (cases "r = POLICY_OK")
    case False
    with x show ?thesis by auto
  next
    case True
    from Cons.IH [OF batch_becomes_ready [OF x(2)]] obtain r' h'' G' where
      xs: "while_more f h' xs = Some (r', h'')" "batch_becomes b h' h'' (\<lambda>v. v) G'"
        "r' = POLICY_OK \<Longrightarrow> G' = (\<lambda>n e. foldl (\<lambda>e x. F x n e) e xs)" by blast
    from batch_becomes_trans [OF x(2) xs(2)]
    have "batch_becomes b h h'' (\<lambda>v. v) (\<lambda>n e. G' n (G n e))" by simp
    with True x xs show ?thesis by (auto intro!: exI)
  qed
qed

end

definition later_wins :: "policy_verdict \<Rightarrow> policy_verdict \<Rightarrow> policy_verdict" where
  "later_wins v x = (if v_priority x \<ge> v_priority v then x else v)"

definition own_rule_effect :: "own_rule \<Rightarrow> string \<Rightarrow> policy_batch_name \<Rightarrow> policy_batch_name" where
  "own_rule_effect x n e =
     (if n \<noteq> o_name x then e
      else if o_prefix x then e\<lparr>own_prefix_verdict := later_wins (own_prefix_verdict e) (o_verdict x)\<rparr>
      else e\<lparr>own_verdict := later_wins (own_verdict e) (o_verdict x)\<rparr>)"

definition rule_xmit :: "xmit_rule \<Rightarrow> policy_xmit" where
  "rule_xmit x = \<lparr>x_verdict = r_verdict x, x_type = r_type x, x_broadcast = r_broadcast x,
     x_path = nonempty_string (r_path x), x_interface = nonempty_string (r_interface x),
     x_member = nonempty_string (r_member x), x_min_fds = r_min_fds x, x_max_fds = r_max_fds x\<rparr>"

lemma policy_batch_add_own_becomes:
  assumes "batch_ready b h"
  shows "\<exists>r h' G. policy_batch_add_own mem h b m v = Some (r, h') \<and> batch_becomes b h h' (\<lambda>v. v) G \<and>
    (r = POLICY_OK \<longrightarrow> G = (\<lambda>n e. if n = m then e\<lparr>own_verdict := later_wins (own_verdict e) v\<rparr> else e))"
proof -
  have eq: "(\<lambda>e. if v_priority v \<ge> v_priority (own_verdict e) then e\<lparr>own_verdict := v\<rparr> else e)
      = (\<lambda>e. e\<lparr>own_verdict := later_wins (own_verdict e) v\<rparr>)"
    by (rule ext) (simp add: later_wins_def)
  show ?thesis
    unfolding policy_batch_add_own_def eq by (rule at_name_then_update [OF assms]) simp
qed

lemma policy_batch_add_own_prefix_becomes:
  assumes "batch_ready b h"
  shows "\<exists>r h' G. policy_batch_add_own_prefix mem h b m v = Some (r, h') \<and> batch_becomes b h h' (\<lambda>v. v) G \<and>
    (r = POLICY_OK \<longrightarrow>
      G = (\<lambda>n e. if n = m then e\<lparr>own_prefix_verdict := later_wins (own_prefix_verdict e) v\<rparr> else e))"
proof -
  have eq: "(\<lambda>e. if v_priority v \<ge> v_priority (own_prefix_verdict e) then e\<lparr>own_prefix_verdict := v\<rparr> else e)
      = (\<lambda>e. e\<lparr>own_prefix_verdict := later_wins (own_prefix_verdict e) v\<rparr>)"
    by (rule ext) (simp add: later_wins_def)
  show ?thesis
    unfolding policy_batch_add_own_prefix_def eq by (rule at_name_then_update [OF assms]) simp
qed

interpretation own_loop: batch_loop b "import_own mem b" own_rule_effect
  for b mem
proof unfold_locales
  fix h and x :: own_rule
  assume "batch_ready b h"
  moreover have "own_rule_effect x =
      (if o_prefix x
       then (\<lambda>n e. if n = o_name x then e\<lparr>own_prefix_verdict := later_wins (own_prefix_verdict e) (o_verdict x)\<rparr> else e)
       else (\<lambda>n e. if n = o_name x then e\<lparr>own_verdict := later_wins (own_verdict e) (o_verdict x)\<rparr> else e))"
    by (auto simp: own_rule_effect_def fun_eq_iff)
  ultimately show "\<exists>r h' G. import_own mem b h x = Some (r, h') \<and> batch_becomes b h h' (\<lambda>v. v) G \<and>
      (r = POLICY_OK \<longrightarrow> G = own_rule_effect x)"
    using policy_batch_add_own_becomes [of b h mem "o_name x" "o_verdict x"]
      policy_batch_add_own_prefix_becomes [of b h mem "o_name x" "o_verdict x"]
    by (simp add: import_own_def)
qed

text \<open>Allocating the rule first and then appending it to a list of the entry.\<close>

lemma xmit_new_then_append:
  assumes "batch_ready b h" "\<And>x e. bn_name (app x e) = bn_name e"
  shows "\<exists>r h' G.
    (case policy_xmit_new mem h (r_type x) (r_broadcast x) (r_path x) (r_interface x) (r_member x)
             (r_min_fds x) (r_max_fds x) of
        (None, h) \<Rightarrow> Some (POLICY_ENOMEM, h)
      | (Some xmit, h) \<Rightarrow> do {
          let xmit = xmit\<lparr>x_verdict := r_verdict x\<rparr>;
          (r, h) \<leftarrow> policy_batch_at_name mem h b (rule_name x);
          if r \<noteq> POLICY_OK then Some (r, h)
          else Some (POLICY_OK, upd_name_entry b (rule_name x) (app xmit) h) }) = Some (r, h') \<and>
    batch_becomes b h h' (\<lambda>v. v) G \<and>
    (r = POLICY_OK \<longrightarrow> G = (\<lambda>n e. if n = rule_name x then app (rule_xmit x) e else e))"
proof (cases "mem (n_allocs h)")
  case False
  with batch_becomes_refl [OF assms(1)] show ?thesis
    by (auto simp: policy_xmit_new_def policy_calloc_def)
next
  case True
  let ?h = "h\<lparr>n_allocs := n_allocs h + 1\<rparr>"
  have h: "batch_becomes b h ?h (\<lambda>v. v) (\<lambda>n e. e)" by (rule batch_becomes_refl [OF assms(1)])
  from at_name_then_update [OF batch_becomes_ready [OF h] assms(2) [of "rule_xmit x"], of mem "rule_name x"]
  obtain r h' G where
    g: "do { (r, h) \<leftarrow> policy_batch_at_name mem ?h b (rule_name x);
         if r \<noteq> POLICY_OK then Some (r, h)
         else Some (POLICY_OK, upd_name_entry b (rule_name x) (app (rule_xmit x)) h) } = Some (r, h')"
    "batch_becomes b ?h h' (\<lambda>v. v) G"
    "r = POLICY_OK \<Longrightarrow> G = (\<lambda>n e. if n = rule_name x then app (rule_xmit x) e else e)" by blast
  from batch_becomes_trans [OF h g(2)] have "batch_becomes b h h' (\<lambda>v. v) G" by simp
  with g(1,3) True show ?thesis
    by (auto simp: policy_xmit_new_def policy_calloc_def rule_xmit_def [symmetric])
qed

definition send_rule_effect :: "xmit_rule \<Rightarrow> string \<Rightarrow> policy_batch_name \<Rightarrow> policy_batch_name" where
  "send_rule_effect x n e =
     (if n = rule_name x then e\<lparr>send_unindexed := send_unindexed e @ [rule_xmit x]\<rparr> else e)"

definition recv_rule_effect :: "xmit_rule \<Rightarrow> string \<Rightarrow> policy_batch_name \<Rightarrow> policy_batch_name" where
  "recv_rule_effect x n e =
     (if n = rule_name x then e\<lparr>recv_unindexed := recv_unindexed e @ [rule_xmit x]\<rparr> else e)"

lemma import_invalid_becomes:
  "batch_ready b h \<Longrightarrow> \<exists>r h' G. Some (POLICY_E_INVALID, h) = Some (r, h') \<and>
     batch_becomes b h h' (\<lambda>v. v) G \<and> (r = POLICY_OK \<longrightarrow> G = F)"
  using batch_becomes_refl [of b h "n_allocs h"] by auto

interpretation send_loop: batch_loop b "import_send mem b" send_rule_effect
  for b mem
proof unfold_locales
  fix h and x :: xmit_rule
  assume ready: "batch_ready b h"
  show "\<exists>r h' G. import_send mem b h x = Some (r, h') \<and> batch_becomes b h h' (\<lambda>v. v) G \<and>
      (r = POLICY_OK \<longrightarrow> G = send_rule_effect x)"
  proof (cases "r_broadcast x \<ge> UTIL_TRISTATE_N")
    case True
    then show ?thesis using import_invalid_becomes [OF ready] by (simp add: import_send_def)
  next
    case False
    have "\<exists>r h' G. policy_batch_add_send mem h b x = Some (r, h') \<and> batch_becomes b h h' (\<lambda>v. v) G \<and>
        (r = POLICY_OK \<longrightarrow> G = send_rule_effect x)"
      unfolding policy_batch_add_send_def send_rule_effect_def [abs_def]
      by (rule xmit_new_then_append [OF ready]) simp
    with False show ?thesis by (simp add: import_send_def)
  qed
qed

interpretation recv_loop: batch_loop b "import_recv mem b" recv_rule_effect
  for b mem
proof unfold_locales
  fix h and x :: xmit_rule
  assume ready: "batch_ready b h"
  show "\<exists>r h' G. import_recv mem b h x = Some (r, h') \<and> batch_becomes b h h' (\<lambda>v. v) G \<and>
      (r = POLICY_OK \<longrightarrow> G = recv_rule_effect x)"
  proof (cases "r_broadcast x \<ge> UTIL_TRISTATE_N")
    case True
    then show ?thesis using import_invalid_becomes [OF ready] by (simp add: import_recv_def)
  next
    case False
    have "\<exists>r h' G. policy_batch_add_recv mem h b x = Some (r, h') \<and> batch_becomes b h h' (\<lambda>v. v) G \<and>
        (r = POLICY_OK \<longrightarrow> G = recv_rule_effect x)"
      unfolding policy_batch_add_recv_def recv_rule_effect_def [abs_def]
      by (rule xmit_new_then_append [OF ready]) simp
    with False show ?thesis by (simp add: import_recv_def)
  qed
qed

definition import_effect :: "batch_dump \<Rightarrow> string \<Rightarrow> policy_batch_name \<Rightarrow> policy_batch_name" where
  "import_effect d n e = e\<lparr>
     own_verdict := foldl later_wins (own_verdict e)
       (map o_verdict (filter (\<lambda>x. o_name x = n \<and> \<not> o_prefix x) (d_own d))),
     own_prefix_verdict := foldl later_wins (own_prefix_verdict e)
       (map o_verdict (filter (\<lambda>x. o_name x = n \<and> o_prefix x) (d_own d))),
     send_unindexed := send_unindexed e @ map rule_xmit (filter (\<lambda>x. rule_name x = n) (d_send d)),
     recv_unindexed := recv_unindexed e @ map rule_xmit (filter (\<lambda>x. rule_name x = n) (d_recv d))\<rparr>"

lemma own_effects:
  "foldl (\<lambda>e x. own_rule_effect x n e) e xs = e\<lparr>
     own_verdict := foldl later_wins (own_verdict e) (map o_verdict (filter (\<lambda>x. o_name x = n \<and> \<not> o_prefix x) xs)),
     own_prefix_verdict := foldl later_wins (own_prefix_verdict e)
       (map o_verdict (filter (\<lambda>x. o_name x = n \<and> o_prefix x) xs))\<rparr>"
  by (induction xs arbitrary: e) (auto simp: own_rule_effect_def)

lemma send_effects:
  "foldl (\<lambda>e x. send_rule_effect x n e) e xs =
   e\<lparr>send_unindexed := send_unindexed e @ map rule_xmit (filter (\<lambda>x. rule_name x = n) xs)\<rparr>"
  by (induction xs arbitrary: e) (auto simp: send_rule_effect_def)

lemma recv_effects:
  "foldl (\<lambda>e x. recv_rule_effect x n e) e xs =
   e\<lparr>recv_unindexed := recv_unindexed e @ map rule_xmit (filter (\<lambda>x. rule_name x = n) xs)\<rparr>"
  by (induction xs arbitrary: e) (auto simp: recv_rule_effect_def)

lemma import_batch_becomes:
  assumes "batch_ready b h"
  shows "\<exists>r h' c G. policy_registry_import_batch mem h b d = Some (r, h') \<and> batch_becomes b h h' c G \<and>
    c = (\<lambda>_. d_connect d) \<and> (r = POLICY_OK \<longrightarrow> G = import_effect d)"
proof -
  let ?h = "upd_batch b (\<lambda>bt. bt\<lparr>connect_verdict := d_connect d\<rparr>) h"
  from assms obtain bt where bt: "batches h b = Some bt" by (auto simp: batch_ready_def split: option.splits)
  have h: "batch_becomes b h ?h (\<lambda>_. d_connect d) (\<lambda>n e. e)"
    using assms bt by (simp add: batch_becomes_def batch_ready_def upd_batch_def entry_def policy_batch_find_name_def)
  from own_loop.loop [OF batch_becomes_ready [OF h]] obtain r1 h1 G1 where
    1: "while_more (import_own mem b) ?h (d_own d) = Some (r1, h1)" "batch_becomes b ?h h1 (\<lambda>v. v) G1"
      "r1 = POLICY_OK \<Longrightarrow> G1 = (\<lambda>n e. foldl (\<lambda>e x. own_rule_effect x n e) e (d_own d))" by blast
  from send_loop.loop [OF batch_becomes_ready [OF 1(2)]] obtain r2 h2 G2 where
    2: "while_more (import_send mem b) h1 (d_send d) = Some (r2, h2)" "batch_becomes b h1 h2 (\<lambda>v. v) G2"
      "r2 = POLICY_OK \<Longrightarrow> G2 = (\<lambda>n e. foldl (\<lambda>e x. send_rule_effect x n e) e (d_send d))" by blast
  from recv_loop.loop [OF batch_becomes_ready [OF 2(2)]] obtain r3 h3 G3 where
    3: "while_more (import_recv mem b) h2 (d_recv d) = Some (r3, h3)" "batch_becomes b h2 h3 (\<lambda>v. v) G3"
      "r3 = POLICY_OK \<Longrightarrow> G3 = (\<lambda>n e. foldl (\<lambda>e x. recv_rule_effect x n e) e (d_recv d))" by blast
  have b1: "batch_becomes b h h1 (\<lambda>_. d_connect d) G1" using batch_becomes_trans [OF h 1(2)] by simp
  have b2: "batch_becomes b h h2 (\<lambda>_. d_connect d) (\<lambda>n e. G2 n (G1 n e))"
    using batch_becomes_trans [OF b1 2(2)] by simp
  have b3: "batch_becomes b h h3 (\<lambda>_. d_connect d) (\<lambda>n e. G3 n (G2 n (G1 n e)))"
    using batch_becomes_trans [OF b2 3(2)] by simp
  have import: "policy_registry_import_batch mem h b d =
      (if r1 \<noteq> POLICY_OK then Some (r1, h1) else if r2 \<noteq> POLICY_OK then Some (r2, h2) else Some (r3, h3))"
    using bt 1(1) 2(1) 3(1) by (simp add: policy_registry_import_batch_def Let_def)
  have all: "(\<lambda>n e. G3 n (G2 n (G1 n e))) = import_effect d"
    if "r1 = POLICY_OK" "r2 = POLICY_OK" "r3 = POLICY_OK"
    using 1(3) [OF that(1)] 2(3) [OF that(2)] 3(3) [OF that(3)]
    by (simp add: fun_eq_iff own_effects send_effects recv_effects import_effect_def)
  show ?thesis
  proof (cases "r1 = POLICY_OK \<and> r2 = POLICY_OK")
    case True
    then show ?thesis using import b3 all by auto
  next
    case False
    then show ?thesis using import b1 b2 by (cases "r1 = POLICY_OK") auto
  qed
qed

section \<open>References to batches\<close>

text \<open>
  \<open>heap_ok h R\<close>: the live batches are exactly those somebody holds a reference to, and the
  counter of each is the number of its holders in \<open>R\<close>.
\<close>

fun batch_ok :: "batch_id \<Rightarrow> batch_id multiset \<Rightarrow> batch_id \<Rightarrow> policy_batch option \<Rightarrow> bool" where
  "batch_ok n R b None \<longleftrightarrow> b \<notin># R"
| "batch_ok n R b (Some bt) \<longleftrightarrow>
     b \<in># R \<and> pb_refs bt = count R b \<and> b < n \<and> name_index.ordered (name_tree bt)"

definition heap_ok :: "policy_heap \<Rightarrow> batch_id multiset \<Rightarrow> bool" where
  "heap_ok h R \<longleftrightarrow> (\<forall>b. batch_ok (next_batch h) R b (batches h b))"

definition reg_refs :: "('a, 's) policy_registry \<Rightarrow> batch_id multiset" where
  "reg_refs reg = add_mset (default_batch reg) (mset (map node_batch (uid_range_tree reg)) +
     mset (map node_batch (uid_tree reg)) + mset (map node_batch (gid_tree reg)))"

definition node_key :: "policy_registry_node \<Rightarrow> node_index" where
  "node_key n = (uidgid_start n, uidgid_end n)"

interpretation node_index: compare_order policy_registry_node_compare node_key "\<lambda>_. True"
proof unfold_locales
  fix k d e
  show "policy_registry_node_compare k e = 0 \<longleftrightarrow> k = node_key e"
    by (cases k) (auto simp: policy_registry_node_compare_def node_key_def)
  show "policy_registry_node_compare (node_key d) e < 0 \<longleftrightarrow> 0 < policy_registry_node_compare (node_key e) d"
    by (auto simp: policy_registry_node_compare_def node_key_def)
  show "\<lbrakk>policy_registry_node_compare k d < 0; policy_registry_node_compare (node_key d) e < 0\<rbrakk>
      \<Longrightarrow> policy_registry_node_compare k e < 0"
    by (auto simp: policy_registry_node_compare_def node_key_def split: if_splits)
qed

definition registry_ok :: "('a, 's) policy_registry \<Rightarrow> bool" where
  "registry_ok reg \<longleftrightarrow> node_index.ordered (uid_range_tree reg) \<and>
     node_index.ordered (uid_tree reg) \<and> node_index.ordered (gid_tree reg) \<and>
     (\<forall>n \<in> set (uid_tree reg) \<union> set (gid_tree reg). uidgid_start n = uidgid_end n)"

definition policy_ok :: "batch_id multiset \<Rightarrow> ('a, 's) policy_state \<Rightarrow> bool" where
  "policy_ok R st \<longleftrightarrow> heap_ok (snd st) (reg_refs (fst st) + R) \<and> registry_ok (fst st)"

lemma heap_okD:
  assumes "heap_ok h R" "b \<in># R"
  obtains bt where "batches h b = Some bt" "pb_refs bt = count R b" "0 < pb_refs bt"
    "b < next_batch h" "name_index.ordered (name_tree bt)"
  using assms unfolding heap_ok_def by (cases "batches h b") (metis batch_ok.simps(1), metis batch_ok.simps(2) count_greater_zero_iff)

lemma heap_ok_ready: "\<lbrakk>heap_ok h R; b \<in># R\<rbrakk> \<Longrightarrow> batch_ready b h"
  by (erule (1) heap_okD) (simp add: batch_ready_def)

lemma heap_ok_allocs: "heap_ok h R \<Longrightarrow> heap_ok (h\<lparr>n_allocs := k\<rparr>) R"
  by (simp add: heap_ok_def)

lemma heap_ok_becomes:
  assumes "heap_ok h R" "batch_becomes b h h' c F"
  shows "heap_ok h' R"
  unfolding heap_ok_def
proof
  fix d
  from assms(1) have d: "batch_ok (next_batch h) R d (batches h d)"
    by (simp add: heap_ok_def)
  show "batch_ok (next_batch h') R d (batches h' d)"
    using assms(2) d by (cases "d = b") (auto simp: batch_becomes_def)
qed

text \<open>The state of every other batch is judged alone.\<close>

lemma heap_ok_update:
  assumes "heap_ok h R" "next_batch h \<le> n" "batch_ok n R' b x"
    and "\<And>d. d \<noteq> b \<Longrightarrow> count R' d = count R d"
  shows "heap_ok (h\<lparr>n_allocs := k, next_batch := n, batches := (batches h)(b := x)\<rparr>) R'"
  unfolding heap_ok_def
proof
  fix d
  from assms(1) have "batch_ok (next_batch h) R d (batches h d)" by (simp add: heap_ok_def)
  moreover have "d \<noteq> b \<Longrightarrow> d \<in># R' \<longleftrightarrow> d \<in># R" using assms(4) by (metis count_eq_zero_iff)
  ultimately show "batch_ok (next_batch (h\<lparr>n_allocs := k, next_batch := n, batches := (batches h)(b := x)\<rparr>)) R' d
      (batches (h\<lparr>n_allocs := k, next_batch := n, batches := (batches h)(b := x)\<rparr>) d)"
    using assms(2-4) by (cases "d = b"; cases "batches h d") auto
qed

lemma heap_ok_set:
  assumes "heap_ok h R" "batch_ok (next_batch h) R' b x" "\<And>d. d \<noteq> b \<Longrightarrow> count R' d = count R d"
  shows "heap_ok (h\<lparr>batches := (batches h)(b := x)\<rparr>) R'"
  using heap_ok_update [OF assms(1) order_refl assms(2,3), of "n_allocs h"] by simp

lemma heap_ok_next: "\<lbrakk>heap_ok h R; next_batch h \<le> b\<rbrakk> \<Longrightarrow> b \<notin># R"
  by (metis heap_okD not_less)

lemma policy_batch_new_ok:
  assumes "heap_ok h R"
  shows "case policy_batch_new mem h of
    (None, h') \<Rightarrow> heap_ok h' R | (Some b, h') \<Rightarrow> heap_ok h' (add_mset b R)"
proof -
  have "next_batch h \<notin># R" using heap_ok_next [OF assms] by simp
  then have "batch_ok (next_batch h + 1) (add_mset (next_batch h) R) (next_batch h) (Some policy_batch_null)"
    by (simp add: policy_batch_null_def name_index.ordered_Nil not_in_iff)
  from heap_ok_update [OF assms _ this, of "n_allocs h + 1"] heap_ok_allocs [OF assms]
  show ?thesis
    by (simp add: policy_batch_new_def policy_calloc_def ac_simps split: bool.split)
qed

lemma policy_batch_ref_ok:
  assumes "heap_ok h R" "b \<in># R"
  shows "\<exists>h'. policy_batch_ref b h = Some h' \<and> heap_ok h' (add_mset b R)"
proof -
  from assms obtain bt where bt: "batches h b = Some bt" "pb_refs bt = count R b" "0 < pb_refs bt"
    "b < next_batch h" "name_index.ordered (name_tree bt)" by (rule heap_okD)
  then have "heap_ok (upd_batch b (\<lambda>bt. bt\<lparr>pb_refs := pb_refs bt + 1\<rparr>) h) (add_mset b R)"
    unfolding upd_batch_def by (intro heap_ok_set [OF assms(1)]) auto
  with bt show ?thesis by (simp add: policy_batch_ref_def)
qed

lemma policy_batch_unref_ok:
  assumes "heap_ok h (add_mset b R)"
  shows "\<exists>h'. policy_batch_unref b h = Some h' \<and> heap_ok h' R"
proof -
  from assms obtain bt where bt: "batches h b = Some bt" "pb_refs bt = count (add_mset b R) b"
    "b < next_batch h" "name_index.ordered (name_tree bt)" by (rule heap_okD) auto
  show ?thesis
  proof (cases "b \<in># R")
    case False
    then have "pb_refs bt = 1" using bt by (simp add: not_in_iff)
    moreover have "heap_ok (policy_batch_free b h) R"
      unfolding policy_batch_free_def using False by (intro heap_ok_set [OF assms]) auto
    ultimately show ?thesis using bt by (simp add: policy_batch_unref_def)
  next
    case True
    then have "pb_refs bt \<noteq> 1" "pb_refs bt > 0" using bt by auto
    moreover have "heap_ok (upd_batch b (\<lambda>bt. bt\<lparr>pb_refs := pb_refs bt - 1\<rparr>) h) R"
      unfolding upd_batch_def using True bt by (intro heap_ok_set [OF assms]) auto
    ultimately show ?thesis unfolding policy_batch_unref_def by (simp add: bt(1))
  qed
qed

lemma policy_registry_at_uidgid_ok:
  assumes h: "heap_ok h (mset (map node_batch t) + R)" and t: "node_index.ordered t"
  shows "case policy_registry_at_uidgid mem h t s e of (n, t', h') \<Rightarrow>
    heap_ok h' (mset (map node_batch t') + R) \<and> node_index.ordered t' \<and>
    (case n of None \<Rightarrow> t' = t | Some nd \<Rightarrow> nd \<in> set t' \<and> node_key nd = (s, e) \<and> set t' \<subseteq> insert nd (set t))"
proof (cases "rb_find policy_registry_node_compare (s, e) t")
  case (Some nd)
  with t have "nd \<in> set t" "node_key nd = (s, e)" by (simp_all add: node_index.ordered_find)
  with Some assms show ?thesis by (auto simp: policy_registry_at_uidgid_def)
next
  case None
  let ?h = "h\<lparr>n_allocs := n_allocs h + 1\<rparr>"
  obtain b h' where new: "policy_batch_new mem ?h = (b, h')" by (cases "policy_batch_new mem ?h")
  from policy_batch_new_ok [OF heap_ok_allocs [OF h], of mem "n_allocs h + 1"] new
  have ok: "case b of None \<Rightarrow> heap_ok h' (mset (map node_batch t) + R)
    | Some b \<Rightarrow> heap_ok h' (add_mset b (mset (map node_batch t) + R))" by (simp split: option.splits)
  let ?nd = "\<lambda>b. \<lparr>uidgid_start = s, uidgid_end = e, node_batch = b\<rparr>"
  have key: "node_key (?nd b) = (s, e)" for b by (simp add: node_key_def)
  have ord: "node_index.ordered (rb_add policy_registry_node_compare (s, e) (?nd b) t)" for b
    using node_index.ordered_add [OF t, of "?nd b"] None by (simp add: key)
  have refs: "mset (map node_batch (rb_add policy_registry_node_compare (s, e) (?nd b) t)) =
      add_mset b (mset (map node_batch t))" for b
    by (simp add: mset_rb_add mset_map)
  show ?thesis
  proof (cases "mem (n_allocs h)")
    case False
    with None t heap_ok_allocs [OF h] show ?thesis
      by (simp add: policy_registry_at_uidgid_def policy_registry_node_new_def policy_calloc_def)
  next
    case True
    then have "policy_registry_at_uidgid mem h t s e = (case b of None \<Rightarrow> (None, t, h')
      | Some b \<Rightarrow> (Some (?nd b), rb_add policy_registry_node_compare (s, e) (?nd b) t, h'))"
      using None new by (simp add: policy_registry_at_uidgid_def policy_registry_node_new_def policy_calloc_def
        split: option.split)
    with t ok ord key refs show ?thesis by (cases b) (auto simp del: mset_map)
  qed
qed

lemma while_more_invariant:
  assumes "\<And>s x. I s \<Longrightarrow> \<exists>r s'. f s x = Some (r, s') \<and> I s'"
  shows "I s \<Longrightarrow> \<exists>r s'. while_more f s xs = Some (r, s') \<and> I s'"
proof (induction xs arbitrary: s)
  case Nil
  then show ?case by simp
next
  case (Cons x xs)
  from assms [OF Cons.prems, of x] obtain r s' where s': "f s x = Some (r, s')" "I s'" by blast
  with Cons.IH [OF s'(2)] show ?case by (cases "r = POLICY_OK") auto
qed

lemma while_more_OK:
  "while_more f s xs = Some (POLICY_OK, s') \<Longrightarrow> x \<in> set xs \<Longrightarrow> \<exists>t t'. f t x = Some (POLICY_OK, t')"
  by (induction xs arbitrary: s) (auto split: bind_splits if_splits, blast)

lemma import_into:
  assumes "policy_ok R (reg, h)" "b \<in># reg_refs reg"
  shows "\<exists>r h'. policy_registry_import_batch mem h b d = Some (r, h') \<and> policy_ok R (reg, h')"
proof -
  from assms have "batch_ready b h" by (auto simp: policy_ok_def intro: heap_ok_ready)
  from import_batch_becomes [OF this, of mem d] obtain r h' G where
    "policy_registry_import_batch mem h b d = Some (r, h')" "batch_becomes b h h' (\<lambda>_. d_connect d) G" by blast
  with assms(1) show ?thesis by (auto simp: policy_ok_def intro: heap_ok_becomes)
qed

lemma policy_registry_at_uid_ok:
  assumes "policy_ok R (reg, h)" "policy_registry_at_uid mem h reg uid = (n, reg', h')"
  shows "policy_ok R (reg', h')" "n = Some nd \<Longrightarrow> node_batch nd \<in># reg_refs reg'"
proof -
  let ?R = "add_mset (default_batch reg) (mset (map node_batch (uid_range_tree reg)) +
    mset (map node_batch (gid_tree reg)) + R)"
  have "heap_ok h (mset (map node_batch (uid_tree reg)) + ?R)"
    and reg: "registry_ok reg" using assms(1) by (simp_all add: policy_ok_def reg_refs_def ac_simps)
  moreover from reg have "node_index.ordered (uid_tree reg)" by (simp add: registry_ok_def)
  ultimately have at: "case policy_registry_at_uidgid mem h (uid_tree reg) uid uid of (n, t', h') \<Rightarrow>
    heap_ok h' (mset (map node_batch t') + ?R) \<and> node_index.ordered t' \<and>
    (case n of None \<Rightarrow> t' = uid_tree reg
     | Some nd \<Rightarrow> nd \<in> set t' \<and> node_key nd = (uid, uid) \<and> set t' \<subseteq> insert nd (set (uid_tree reg)))"
    by (intro policy_registry_at_uidgid_ok)
  from at assms(2) reg
  show "policy_ok R (reg', h')" "n = Some nd \<Longrightarrow> node_batch nd \<in># reg_refs reg'"
    by (auto simp: policy_registry_at_uid_def policy_ok_def reg_refs_def registry_ok_def node_key_def ac_simps
        split: prod.splits option.splits)
qed

lemma policy_registry_at_gid_ok:
  assumes "policy_ok R (reg, h)" "policy_registry_at_gid mem h reg gid = (n, reg', h')"
  shows "policy_ok R (reg', h')" "n = Some nd \<Longrightarrow> node_batch nd \<in># reg_refs reg'"
proof -
  let ?R = "add_mset (default_batch reg) (mset (map node_batch (uid_range_tree reg)) +
    mset (map node_batch (uid_tree reg)) + R)"
  have "heap_ok h (mset (map node_batch (gid_tree reg)) + ?R)"
    and reg: "registry_ok reg" using assms(1) by (simp_all add: policy_ok_def reg_refs_def ac_simps)
  moreover from reg have "node_index.ordered (gid_tree reg)" by (simp add: registry_ok_def)
  ultimately have at: "case policy_registry_at_uidgid mem h (gid_tree reg) gid gid of (n, t', h') \<Rightarrow>
    heap_ok h' (mset (map node_batch t') + ?R) \<and> node_index.ordered t' \<and>
    (case n of None \<Rightarrow> t' = gid_tree reg
     | Some nd \<Rightarrow> nd \<in> set t' \<and> node_key nd = (gid, gid) \<and> set t' \<subseteq> insert nd (set (gid_tree reg)))"
    by (intro policy_registry_at_uidgid_ok)
  from at assms(2) reg
  show "policy_ok R (reg', h')" "n = Some nd \<Longrightarrow> node_batch nd \<in># reg_refs reg'"
    by (auto simp: policy_registry_at_gid_def policy_ok_def reg_refs_def registry_ok_def node_key_def ac_simps
        split: prod.splits option.splits)
qed

lemma policy_registry_at_uid_range_ok:
  assumes "policy_ok R (reg, h)" "policy_registry_at_uid_range mem h reg s e = (n, reg', h')"
  shows "policy_ok R (reg', h')" "n = Some nd \<Longrightarrow> node_batch nd \<in># reg_refs reg'"
proof -
  let ?R = "add_mset (default_batch reg) (mset (map node_batch (uid_tree reg)) +
    mset (map node_batch (gid_tree reg)) + R)"
  have "heap_ok h (mset (map node_batch (uid_range_tree reg)) + ?R)"
    and reg: "registry_ok reg" using assms(1) by (simp_all add: policy_ok_def reg_refs_def ac_simps)
  moreover from reg have "node_index.ordered (uid_range_tree reg)" by (simp add: registry_ok_def)
  ultimately have at: "case policy_registry_at_uidgid mem h (uid_range_tree reg) s e of (n, t', h') \<Rightarrow>
    heap_ok h' (mset (map node_batch t') + ?R) \<and> node_index.ordered t' \<and>
    (case n of None \<Rightarrow> t' = uid_range_tree reg
     | Some nd \<Rightarrow> nd \<in> set t' \<and> node_key nd = (s, e) \<and> set t' \<subseteq> insert nd (set (uid_range_tree reg)))"
    by (intro policy_registry_at_uidgid_ok)
  from at assms(2) reg
  show "policy_ok R (reg', h')" "n = Some nd \<Longrightarrow> node_batch nd \<in># reg_refs reg'"
    by (auto simp: policy_registry_at_uid_range_def policy_ok_def reg_refs_def registry_ok_def ac_simps
        split: prod.splits option.splits)
qed

text \<open>The common tail of the two loops over the serialised batches.\<close>

lemma node_then_import:
  assumes "policy_ok R (reg', h')" "\<And>nd. n = Some nd \<Longrightarrow> node_batch nd \<in># reg_refs reg'"
  shows "\<exists>r st'. (case (n, reg', h') of
      (None, reg, h) \<Rightarrow> Some (POLICY_ENOMEM, reg, h)
    | (Some node, reg, h) \<Rightarrow> do {
        (r, h) \<leftarrow> policy_registry_import_batch mem h (node_batch node) d;
        Some (r, reg, h) }) = Some (r, st') \<and> policy_ok R st'"
proof (cases n)
  case None
  with assms show ?thesis by simp
next
  case (Some nd)
  from import_into [OF assms(1) assms(2) [OF Some], of mem d] Some show ?thesis by auto
qed

lemma import_uid_ok:
  assumes "policy_ok R st"
  shows "\<exists>r st'. import_uid mem st x = Some (r, st') \<and> policy_ok R st'"
proof -
  obtain reg h uid d where [simp]: "st = (reg, h)" "x = (uid, d)" by (cases st; cases x) auto
  show ?thesis
  proof (cases "uid = - 1")
    case True
    from import_into [of R reg h "default_batch reg" mem d] assms True show ?thesis
      by (auto simp: import_uid_def reg_refs_def)
  next
    case False
    obtain n reg' h' where at: "policy_registry_at_uid mem h reg uid = (n, reg', h')"
      by (cases "policy_registry_at_uid mem h reg uid")
    from assms have "policy_ok R (reg, h)" by simp
    note ok = policy_registry_at_uid_ok [OF this at]
    from node_then_import [where n = n and mem = mem and d = d, OF ok] False at show ?thesis
      by (simp add: import_uid_def)
  qed
qed

lemma import_range_ok:
  assumes "policy_ok R st"
  shows "\<exists>r st'. import_range mem st x = Some (r, st') \<and> policy_ok R st'"
proof -
  obtain reg h group s e d where [simp]: "st = (reg, h)" "x = (group, s, e, d)" by (cases st; cases x) auto
  from assms have ok: "policy_ok R (reg, h)" by simp
  show ?thesis
  proof (cases "group \<and> s \<noteq> e")
    case True
    with assms show ?thesis by (simp add: import_range_def)
  next
    case False
    obtain n reg' h' where at: "(if group then policy_registry_at_gid mem h reg s
        else policy_registry_at_uid_range mem h reg s e) = (n, reg', h')"
      by (cases "if group then policy_registry_at_gid mem h reg s else policy_registry_at_uid_range mem h reg s e")
    then have "policy_ok R (reg', h')" "\<And>nd. n = Some nd \<Longrightarrow> node_batch nd \<in># reg_refs reg'"
      using policy_registry_at_gid_ok [OF ok] policy_registry_at_uid_range_ok [OF ok]
      by (cases group; simp)+
    from node_then_import [where n = n and mem = mem and d = d, OF this] show ?thesis
      unfolding import_range_def \<open>st = (reg, h)\<close> \<open>x = (group, s, e, d)\<close> Let_def prod.case at
      using False by (simp only: if_False)
  qed
qed

lemma import_selinux_ok:
  assumes "policy_ok R st"
  shows "\<exists>r st'. import_selinux M st x = Some (r, st') \<and> policy_ok R st'"
  using assms by (cases st) (auto simp: import_selinux_def policy_ok_def reg_refs_def registry_ok_def split: option.splits)

section \<open>Snapshots keep their batches alive\<close>

lemma policy_batches_ref_ok:
  assumes "heap_ok h R" "set bs \<subseteq> set_mset R"
  shows "\<exists>h'. policy_batches_ref bs h = Some h' \<and> heap_ok h' (mset bs + R)"
  using assms
proof (induction bs arbitrary: h R)
  case Nil
  then show ?case by simp
next
  case (Cons b bs)
  then obtain h' where h': "policy_batch_ref b h = Some h'" "heap_ok h' (add_mset b R)"
    using policy_batch_ref_ok [of h R b] by auto
  moreover from Cons.prems(2) have "set bs \<subseteq> set_mset (add_mset b R)" by auto
  ultimately show ?case using Cons.IH [OF h'(2)] by auto
qed

lemma policy_batches_unref_ok:
  assumes "heap_ok h (mset bs + R)"
  shows "\<exists>h'. policy_batches_unref bs h = Some h' \<and> heap_ok h' R"
  using assms
proof (induction bs arbitrary: h)
  case Nil
  then show ?case by simp
next
  case (Cons b bs)
  then obtain h' where "policy_batch_unref b h = Some h'" "heap_ok h' (mset bs + R)"
    using policy_batch_unref_ok [of h b "mset bs + R"] by auto
  with Cons.IH show ?case by auto
qed

lemma policy_nodes_free_unref: "policy_nodes_free ns = policy_batches_unref (map node_batch ns)"
  by (induction ns) (auto simp: policy_registry_node_free_def)

lemma policy_batches_unref_append:
  "policy_batches_unref (xs @ ys) = (\<lambda>h. Option.bind (policy_batches_unref xs h) (policy_batches_unref ys))"
  by (induction xs) auto

lemma policy_registry_free_unref:
  "policy_registry_free reg h = policy_batches_unref (map node_batch (gid_tree reg) @ map node_batch (uid_tree reg) @
     map node_batch (uid_range_tree reg) @ [default_batch reg]) h"
proof -
  have "policy_batches_unref [default_batch reg] = policy_batch_unref (default_batch reg)"
    by (rule ext) (simp split: bind_split)
  then show ?thesis
    by (simp only: policy_registry_free_def policy_nodes_free_unref policy_batches_unref_append)
qed

lemma policy_registry_free_ok:
  assumes "heap_ok h (reg_refs reg + R)"
  shows "\<exists>h'. policy_registry_free reg h = Some h' \<and> heap_ok h' R"
  unfolding policy_registry_free_unref
  by (rule policy_batches_unref_ok) (use assms in \<open>simp add: reg_refs_def ac_simps\<close>)

text \<open>References come and go without a change of what a live batch holds.\<close>

definition same_content :: "policy_heap \<Rightarrow> policy_heap \<Rightarrow> batch_id \<Rightarrow> bool" where
  "same_content h h' b \<longleftrightarrow> (\<exists>bt bt'. batches h b = Some bt \<and> batches h' b = Some bt' \<and>
     connect_verdict bt' = connect_verdict bt \<and> name_tree bt' = name_tree bt)"

lemma same_content_refl: "b \<in> dom (batches h) \<Longrightarrow> same_content h h b"
  by (auto simp: same_content_def)

lemma same_content_trans: "\<lbrakk>same_content h h' b; same_content h' h'' b\<rbrakk> \<Longrightarrow> same_content h h'' b"
  by (auto simp: same_content_def)

lemma unref_same_content:
  "\<lbrakk>policy_batch_unref c h = Some h'; b \<in> dom (batches h')\<rbrakk> \<Longrightarrow> same_content h h' b"
  by (auto simp: policy_batch_unref_def same_content_def policy_batch_free_def upd_batch_def
      split: bind_splits if_splits)

lemma ref_same_content:
  "\<lbrakk>policy_batch_ref c h = Some h'; b \<in> dom (batches h)\<rbrakk> \<Longrightarrow> same_content h h' b"
  by (auto simp: policy_batch_ref_def same_content_def upd_batch_def split: bind_splits if_splits)

lemma batches_unref_same_content:
  "\<lbrakk>policy_batches_unref bs h = Some h'; b \<in> dom (batches h')\<rbrakk> \<Longrightarrow> same_content h h' b"
proof (induction bs arbitrary: h)
  case Nil
  then show ?case by (simp add: same_content_refl)
next
  case (Cons c bs)
  then obtain h1 where h1: "policy_batch_unref c h = Some h1" "policy_batches_unref bs h1 = Some h'"
    by (auto split: bind_splits)
  with Cons.IH Cons.prems have c: "same_content h1 h' b" by blast
  then have "b \<in> dom (batches h1)" by (auto simp: same_content_def)
  with unref_same_content [OF h1(1)] c show ?case by (blast intro: same_content_trans)
qed

lemma batches_ref_same_content:
  "\<lbrakk>policy_batches_ref bs h = Some h'; b \<in> dom (batches h)\<rbrakk> \<Longrightarrow> same_content h h' b"
proof (induction bs arbitrary: h)
  case Nil
  then show ?case by (simp add: same_content_refl)
next
  case (Cons c bs)
  then obtain h1 where h1: "policy_batch_ref c h = Some h1" "policy_batches_ref bs h1 = Some h'"
    by (auto split: bind_splits)
  from ref_same_content [OF h1(1)] Cons.prems have c: "same_content h h1 b" by blast
  then have "b \<in> dom (batches h1)" by (auto simp: same_content_def)
  with Cons.IH [OF h1(2)] c show ?case by (blast intro: same_content_trans)
qed

lemma for_batches_same:
  assumes "\<forall>b \<in> set bs. same_content h h' b"
    and "\<And>bt bt' v. \<lbrakk>connect_verdict bt' = connect_verdict bt; name_tree bt' = name_tree bt\<rbrakk> \<Longrightarrow> f bt' v = f bt v"
  shows "for_batches f h' bs v = for_batches f h bs v"
  using assms(1)
proof (induction bs arbitrary: v)
  case Nil
  then show ?case by simp
next
  case (Cons b bs)
  then obtain bt bt' where bt: "batches h b = Some bt" "batches h' b = Some bt'"
    "connect_verdict bt' = connect_verdict bt" "name_tree bt' = name_tree bt" by (auto simp: same_content_def)
  from Cons have "for_batches f h' bs (f bt v) = for_batches f h bs (f bt v)" by simp
  then show ?case using bt(1,2) assms(2) [OF bt(3,4), of v] by simp
qed

lemma own_prefixes_same:
  assumes "name_tree bt' = name_tree bt"
  shows "own_prefixes bt' s 0 v = own_prefixes bt s 0 v"
  using assms by (simp add: own_prefixes_rules entry_own_rules_def policy_batch_find_name_def)

lemma check_xmit_same:
  assumes "name_tree bt' = name_tree bt"
  shows "policy_snapshot_check_xmit w is_send ns q bt' v = policy_snapshot_check_xmit w is_send ns q bt v"
  using assms
  by (simp add: policy_snapshot_check_xmit_def policy_snapshot_check_xmit_name_def policy_batch_find_name_def)

lemma decisions_same:
  assumes "\<forall>b \<in> set (snap_batches s). same_content h h' b"
  shows "policy_snapshot_check_connect h' s = policy_snapshot_check_connect h s"
    and "policy_snapshot_check_own M h' s name_str = policy_snapshot_check_own M h s name_str"
    and "policy_snapshot_check_send M h' w s l ns i q = policy_snapshot_check_send M h w s l ns i q"
    and "policy_snapshot_check_receive h' w s ns q = policy_snapshot_check_receive h w s ns q"
proof -
  show "policy_snapshot_check_connect h' s = policy_snapshot_check_connect h s"
    unfolding policy_snapshot_check_connect_def by (subst for_batches_same [OF assms]) simp_all
  have "for_batches (\<lambda>bt. own_prefixes bt name_str 0) h' (snap_batches s) v =
      for_batches (\<lambda>bt. own_prefixes bt name_str 0) h (snap_batches s) v" for v
    by (rule for_batches_same [OF assms]) (rule own_prefixes_same)
  then show "policy_snapshot_check_own M h' s name_str = policy_snapshot_check_own M h s name_str"
    unfolding policy_snapshot_check_own_def by (simp only:)
  have x: "for_batches (policy_snapshot_check_xmit w is_send ns q) h' (snap_batches s) v =
      for_batches (policy_snapshot_check_xmit w is_send ns q) h (snap_batches s) v" for is_send v
    by (rule for_batches_same [OF assms]) (rule check_xmit_same)
  then show "policy_snapshot_check_send M h' w s l ns i q = policy_snapshot_check_send M h w s l ns i q"
    unfolding policy_snapshot_check_send_def by (simp only:)
  from x show "policy_snapshot_check_receive h' w s ns q = policy_snapshot_check_receive h w s ns q"
    by (simp add: policy_snapshot_check_receive_def)
qed

lemma gid_batches_bound: "length (gid_batches reg gids n) \<le> n"
  by (induction n) (auto split: option.splits)

lemma gid_batches_rev:
  "n \<le> length gids \<Longrightarrow> gid_batches reg gids n =
   map node_batch (List.map_filter (policy_registry_find_gid reg) (rev (take n gids)))"
  by (induction n) (auto simp: take_Suc_conv_app_nth map_filter_simps split: option.splits)

lemma snapshot_batches_known:
  "set (uid_batch reg uid # range_batches reg uid @ gid_batches reg gids n) \<subseteq> set_mset (reg_refs reg)"
proof -
  have "uid_batch reg uid \<in># reg_refs reg"
    unfolding uid_batch_def reg_refs_def policy_registry_find_uid_def
    by (cases "rb_find policy_registry_node_compare (uid, uid) (uid_tree reg)") (auto dest!: rb_find_SomeD)
  moreover have "set (range_batches reg uid) \<subseteq> set_mset (reg_refs reg)"
    by (auto simp: range_batches_def reg_refs_def)
  moreover have "set (gid_batches reg gids n) \<subseteq> set_mset (reg_refs reg)"
  proof (induction n)
    case (Suc n)
    moreover have "policy_registry_find_gid reg g = Some nd \<Longrightarrow> node_batch nd \<in># reg_refs reg" for g nd
      unfolding policy_registry_find_gid_def reg_refs_def by (auto dest!: rb_find_SomeD)
    ultimately show ?case by (simp split: option.split)
  qed simp
  ultimately show ?thesis by auto
qed

lemma policy_snapshot_new_cases:
  assumes "policy_ok R (reg, h)"
  obtains (enomem) h1 where "policy_snapshot_new mem h reg label uid gids = Some (POLICY_ENOMEM, None, h1)"
      "heap_ok h1 (reg_refs reg + R)"
  | (ok) s h1 where "policy_snapshot_new mem h reg label uid gids = Some (POLICY_OK, Some s, h1)"
      "snap_batches s = uid_batch reg uid # range_batches reg uid @
         map node_batch (List.map_filter (policy_registry_find_gid reg) (rev gids))"
      "heap_ok h1 (mset (snap_batches s) + (reg_refs reg + R))"
      "\<forall>b \<in> set (snap_batches s). same_content h h1 b"
proof (cases "mem (n_allocs h) \<and> mem (n_allocs h + 1)")
  case False
  let ?h1 = "h\<lparr>n_allocs := (if mem (n_allocs h) then n_allocs h + 2 else n_allocs h + 1)\<rparr>"
  have "policy_snapshot_new mem h reg label uid gids = Some (POLICY_ENOMEM, None, ?h1)"
    using False by (auto simp: policy_snapshot_new_def policy_calloc_def split: bool.split)
  moreover have "heap_ok ?h1 (reg_refs reg + R)" using assms by (simp add: policy_ok_def heap_ok_allocs)
  ultimately show ?thesis by (rule enomem)
next
  case True
  let ?h = "h\<lparr>n_allocs := n_allocs h + 2\<rparr>"
  let ?bs = "uid_batch reg uid # range_batches reg uid @ gid_batches reg gids (length gids)"
  have h: "heap_ok ?h (reg_refs reg + R)" using assms by (simp add: policy_ok_def heap_ok_allocs)
  moreover have "set ?bs \<subseteq> set_mset (reg_refs reg + R)"
    using snapshot_batches_known [of reg uid gids "length gids"] by auto
  ultimately obtain h1 where h1: "policy_batches_ref ?bs ?h = Some h1" "heap_ok h1 (mset ?bs + (reg_refs reg + R))"
    using policy_batches_ref_ok by blast
  have "length ?bs \<le> 1 + length gids + length (filter (range_matches uid) (uid_range_tree reg))"
    using gid_batches_bound [of reg gids "length gids"] by (simp add: range_batches_def)
  with True h1(1) have new: "policy_snapshot_new mem h reg label uid gids = Some (POLICY_OK,
      Some \<lparr>snap_apparmor = reg_apparmor reg, snap_selinux = reg_selinux reg, seclabel = label, snap_batches = ?bs\<rparr>, h1)"
    by (simp add: policy_snapshot_new_def policy_calloc_def Let_def split: bool.split)
  have "b \<in> set ?bs \<Longrightarrow> same_content h h1 b" for b
  proof -
    assume "b \<in> set ?bs"
    then have "b \<in># reg_refs reg + R" using snapshot_batches_known [of reg uid gids "length gids"] by auto
    with h have "b \<in> dom (batches ?h)" by (metis domI heap_okD)
    with batches_ref_same_content [OF h1(1)] show "same_content h h1 b" by (fastforce simp: same_content_def)
  qed
  then have same: "\<forall>b \<in> set ?bs. same_content h h1 b" by blast
  show ?thesis
    by (rule ok [OF new]) (use h1(2) same in \<open>simp_all add: gid_batches_rev\<close>)
qed

section \<open>Properties\<close>

definition sample_heap :: policy_heap where
  "sample_heap = \<lparr>next_batch = 2, n_allocs = 0, batches =
     [0 \<mapsto> \<lparr>pb_refs = 1, connect_verdict = \<lparr>v_verdict = True, v_priority = 1\<rparr>, name_tree = [
           \<lparr>bn_name = [], own_verdict = POLICY_VERDICT_INIT, own_prefix_verdict = POLICY_VERDICT_INIT,
            send_unindexed = [\<lparr>x_verdict = \<lparr>v_verdict = False, v_priority = 2\<rparr>, x_type = 4, x_broadcast = 0,
              x_path = None, x_interface = None, x_member = None, x_min_fds = 0, x_max_fds = - 1\<rparr>],
            recv_unindexed = []\<rparr>,
           \<lparr>bn_name = ''a.b'', own_verdict = \<lparr>v_verdict = True, v_priority = 3\<rparr>,
            own_prefix_verdict = POLICY_VERDICT_INIT,
            send_unindexed = [\<lparr>x_verdict = \<lparr>v_verdict = True, v_priority = 5\<rparr>, x_type = 0, x_broadcast = 0,
              x_path = None, x_interface = Some ''i.f'', x_member = None, x_min_fds = 0, x_max_fds = - 1\<rparr>],
            recv_unindexed = []\<rparr>]\<rparr>]\<rparr>"

definition sample_snapshot :: "(unit, unit) policy_snapshot" where
  "sample_snapshot = \<lparr>snap_apparmor = (), snap_selinux = (), seclabel = [], snap_batches = [0]\<rparr>"

definition sample_registry :: "(unit, unit) policy_registry" where
  "sample_registry = \<lparr>reg_apparmor = (), reg_selinux = (), default_batch = 0,
     uid_range_tree = [], uid_tree = [], gid_tree = []\<rparr>"

definition sample_query :: policy_query where
  "sample_query = \<lparr>q_interface = Some ''i.f'', q_member = None, q_path = None, q_type = 4,
     q_broadcast = False, q_fds = 0\<rparr>"

lemma sample_contents:
  "snapshot_contents sample_heap sample_snapshot = Some [the (batches sample_heap 0)]"
  by (simp add: snapshot_contents_def sample_heap_def sample_snapshot_def)

lemma sample_policy_ok: "policy_ok {#} (sample_registry, sample_heap)"
  by (auto simp: policy_ok_def heap_ok_def sample_registry_def sample_heap_def reg_refs_def registry_ok_def
      name_index.ordered_def node_index.ordered_def)

lemma fallback_permits:
  "apparmor_check_send fallback_mac a l sl ns i p f m = MAC_OK" "selinux_check_send fallback_mac s l sl = MAC_OK"
  "apparmor_check_own fallback_mac a l n = MAC_OK" "selinux_check_own fallback_mac s l n = MAC_OK"
  by (simp_all add: fallback_mac_def)

text \<open>
  C24: a message may be sent exactly if both access control modules permit it and the
  first among the applicable send rules of the highest priority, taken over the batches of
  the snapshot in order, says so; without an applicable rule of positive priority the
  message is denied. The check never touches a freed batch.
\<close>
theorem policy_check_send_highest_priority:
  assumes "snapshot_contents h s = Some bts"
  shows "policy_snapshot_check_send M h w s l subject i q = Some POLICY_OK \<longleftrightarrow>
    apparmor_check_send M (snap_apparmor s) (seclabel s) l subject i (q_path q) (q_interface q) (q_member q) = MAC_OK \<and>
    selinux_check_send M (snap_selinux s) (seclabel s) l = MAC_OK \<and>
    allows (concat (map (xmit_rules w True subject q) bts))"
  using xmit_check.decision [OF assms, of w True subject q]
  by (auto simp: policy_snapshot_check_send_def split: mac_ret.split if_splits)

lemma sample_xmit_rules:
  "xmit_rules w True (Some (NAME_SET_TYPE_SNAPSHOT [''a.b''])) sample_query (the (batches sample_heap 0)) =
   [\<lparr>v_verdict = False, v_priority = 2\<rparr>, \<lparr>v_verdict = True, v_priority = 5\<rparr>]"
  by (simp add: xmit_rules_def nameset_names_def name_xmit_rules_def policy_batch_find_name_def rb_find_def
      sample_heap_def sample_query_def entry_xmit_rules_def xmit_matches_def pattern_matches_def
      UTIL_TRISTATE_YES_def UTIL_TRISTATE_NO_def)

theorem policy_check_send_highest_priority_witness:
  "policy_snapshot_check_send fallback_mac sample_heap name_registry_init sample_snapshot []
     (Some (NAME_SET_TYPE_SNAPSHOT [''a.b''])) 1 sample_query = Some POLICY_OK"
proof -
  have "allows [\<lparr>v_verdict = False, v_priority = 2\<rparr>, \<lparr>v_verdict = True, v_priority = 5\<rparr>]"
    by (simp add: fold_supersede_allows [symmetric] supersede_def POLICY_VERDICT_INIT_def)
  then show ?thesis
    by (simp add: policy_check_send_highest_priority [OF sample_contents] sample_xmit_rules fallback_permits)
qed

text \<open>
  C25: a peer may own a name exactly if both access control modules permit it and the first
  of the highest-priority ownership rules allows it. The rules that count are those stored
  for the empty prefix, for every prefix that ends before a dot, and for the whole name; the
  search with the bounded comparison finds the same entries as a lookup of the prefix.
\<close>
theorem policy_check_own_highest_priority:
  assumes "snapshot_contents h s = Some bts"
  shows "policy_snapshot_check_own M h s name_str = Some POLICY_OK \<longleftrightarrow>
    apparmor_check_own M (snap_apparmor s) (seclabel s) name_str = MAC_OK \<and>
    selinux_check_own M (snap_selinux s) (seclabel s) name_str = MAC_OK \<and>
    allows (concat (map (\<lambda>bt. concat (map (entry_own_rules bt) (name_prefixes name_str))) bts))"
  using own_check.decision [OF assms, of name_str]
  by (auto simp: policy_snapshot_check_own_def own_rules_def [abs_def] split: mac_ret.split if_splits)

theorem policy_check_own_highest_priority_witness:
  "policy_snapshot_check_own fallback_mac sample_heap sample_snapshot ''a.b'' = Some POLICY_OK"
proof -
  have "name_prefixes ''a.b'' = [[], ''a'', ''a.b'']"
    by (simp add: name_prefixes_def prefix_ends_def upt_rec)
  then have "concat (map (entry_own_rules (the (batches sample_heap 0))) (name_prefixes ''a.b'')) =
    [POLICY_VERDICT_INIT, POLICY_VERDICT_INIT, \<lparr>v_verdict = True, v_priority = 3\<rparr>, POLICY_VERDICT_INIT]"
    by (simp add: entry_own_rules_def policy_batch_find_name_def rb_find_def sample_heap_def)
  moreover have "allows [POLICY_VERDICT_INIT, POLICY_VERDICT_INIT, \<lparr>v_verdict = True, v_priority = 3\<rparr>, POLICY_VERDICT_INIT]"
    by (simp add: fold_supersede_allows [symmetric] supersede_def POLICY_VERDICT_INIT_def)
  ultimately show ?thesis
    by (simp add: policy_check_own_highest_priority [OF sample_contents] fallback_permits)
qed

text \<open>
  A serialised batch that is imported successfully into a batch leaves there, for every
  name, the last of the highest-priority ownership rules, the same for prefix rules, and all
  send and receive rules of the name appended in their order; the connection verdict is
  replaced, and no other batch changes.
\<close>
theorem policy_import_batch_contents:
  assumes "batch_ready b h" "policy_registry_import_batch mem h b d = Some (POLICY_OK, h')"
  shows "batch_becomes b h h' (\<lambda>_. d_connect d) (import_effect d)"
  using import_batch_becomes [OF assms(1), of mem d] assms(2) by auto

definition sample_dump :: batch_dump where
  "sample_dump = \<lparr>d_connect = \<lparr>v_verdict = False, v_priority = 9\<rparr>,
     d_own = [\<lparr>o_verdict = \<lparr>v_verdict = False, v_priority = 3\<rparr>, o_prefix = False, o_name = ''a.b''\<rparr>,
              \<lparr>o_verdict = \<lparr>v_verdict = True, v_priority = 4\<rparr>, o_prefix = True, o_name = ''a''\<rparr>],
     d_send = [], d_recv = [\<lparr>r_verdict = \<lparr>v_verdict = True, v_priority = 6\<rparr>, r_name = None, r_path = Some [],
       r_interface = None, r_member = Some ''M'', r_type = 1, r_broadcast = 2, r_min_fds = 0, r_max_fds = - 1\<rparr>]\<rparr>"

lemmas import_defs = policy_registry_import_batch_def import_own_def import_recv_def import_send_def
  policy_batch_add_own_def policy_batch_add_own_prefix_def policy_batch_add_recv_def policy_batch_at_name_def
  policy_batch_find_name_def rb_find_def policy_xmit_new_def policy_calloc_def upd_batch_def upd_name_entry_def
  rb_modify_def rule_name_def UTIL_TRISTATE_N_def POLICY_VERDICT_INIT_def policy_batch_name_new_def

lemma sample_import:
  "fst (the (policy_registry_import_batch (\<lambda>_. True) sample_heap 0 sample_dump)) = POLICY_OK \<and>
   policy_registry_import_batch (\<lambda>_. True) sample_heap 0 sample_dump \<noteq> None"
  by (simp add: import_defs sample_heap_def sample_dump_def)

theorem policy_import_batch_contents_witness:
  "batch_becomes 0 sample_heap (snd (the (policy_registry_import_batch (\<lambda>_. True) sample_heap 0 sample_dump)))
     (\<lambda>_. \<lparr>v_verdict = False, v_priority = 9\<rparr>) (import_effect sample_dump)"
proof -
  have "batch_ready 0 sample_heap"
    by (simp add: batch_ready_def sample_heap_def name_index.ordered_def)
  moreover have "policy_registry_import_batch (\<lambda>_. True) sample_heap 0 sample_dump = Some (POLICY_OK,
      snd (the (policy_registry_import_batch (\<lambda>_. True) sample_heap 0 sample_dump)))"
    using sample_import by (cases "policy_registry_import_batch (\<lambda>_. True) sample_heap 0 sample_dump") auto
  moreover have "d_connect sample_dump = \<lparr>v_verdict = False, v_priority = 9\<rparr>" by (simp add: sample_dump_def)
  ultimately show ?thesis using policy_import_batch_contents by fastforce
qed

text \<open>
  C27: importing a serialised policy, whatever it contains and whichever allocations fail,
  never aborts, never touches a freed batch and never loses or forges a reference: on every
  return the live batches are exactly those the registry and the other holders refer to,
  with exact counters and ordered indices.
\<close>
theorem policy_registry_import_safe:
  assumes "policy_ok R st"
  shows "\<exists>r st'. policy_registry_import M mem st v = Some (r, st') \<and> policy_ok R st'"
proof -
  from while_more_invariant [of "policy_ok R" "import_uid mem" st "dump_uids v"] import_uid_ok assms obtain r1 st1 where
    1: "while_more (import_uid mem) st (dump_uids v) = Some (r1, st1)" "policy_ok R st1" by blast
  from while_more_invariant [of "policy_ok R" "import_range mem" st1 "dump_ranges v"] import_range_ok 1(2) obtain r2 st2 where
    2: "while_more (import_range mem) st1 (dump_ranges v) = Some (r2, st2)" "policy_ok R st2" by blast
  from while_more_invariant [of "policy_ok R" "import_selinux M" st2 "dump_selinux v"] import_selinux_ok 2(2) obtain r3 st3 where
    3: "while_more (import_selinux M) st2 (dump_selinux v) = Some (r3, st3)" "policy_ok R st3" by blast
  have "policy_ok R ((fst st3)\<lparr>reg_apparmor := a\<rparr>, snd st3)" for a
    using 3(2) by (simp add: policy_ok_def reg_refs_def registry_ok_def)
  then show ?thesis
    using 1 2 3
    by (cases st1; cases st2; cases st3; cases "apparmor_set_bus_type M (reg_apparmor (fst st3))
          (if dump_apparmor v then Some (dump_bustype v) else None)";
        cases "r1 = POLICY_OK"; cases "r2 = POLICY_OK"; cases "r3 = POLICY_OK")
      (simp_all add: policy_registry_import_def)
qed

theorem policy_registry_import_safe_witness:
  "\<exists>r st'. policy_registry_import fallback_mac (\<lambda>i. i \<noteq> 3) (sample_registry, sample_heap)
      \<lparr>dump_uids = [(- 1, sample_dump), (1000, sample_dump)], dump_ranges = [(True, 4, 5, sample_dump)],
       dump_selinux = [], dump_apparmor = False, dump_bustype = [], dump_poison = False\<rparr> = Some (r, st') \<and>
    policy_ok {#} st'"
  by (rule policy_registry_import_safe [OF sample_policy_ok])

text \<open>
  C28: a policy that is accepted is well-formed: the reader was not poisoned, every rule for a
  group names a single group, and every transmission rule of every batch has one of the
  three broadcast settings.
\<close>
theorem policy_registry_import_rejects:
  fixes st st' :: "('a, 's) policy_state"
  assumes "policy_registry_import M mem st v = Some (POLICY_OK, st')"
  shows "\<not> dump_poison v \<and> (\<forall>(group, s, e, d) \<in> set (dump_ranges v). group \<longrightarrow> s = e) \<and>
    (\<forall>d \<in> snd ` set (dump_uids v) \<union> (\<lambda>(_, _, _, d). d) ` set (dump_ranges v).
       \<forall>x \<in> set (d_send d) \<union> set (d_recv d). r_broadcast x < 3)"
proof -
  from assms obtain st1 st2 st3 where
    1: "while_more (import_uid mem) st (dump_uids v) = Some (POLICY_OK, st1)" and
    2: "while_more (import_range mem) st1 (dump_ranges v) = Some (POLICY_OK, st2)" and
    "while_more (import_selinux M) st2 (dump_selinux v) = Some (POLICY_OK, st3)" and p: "\<not> dump_poison v"
    by (auto simp: policy_registry_import_def split: bind_splits if_splits option.splits)
  have batch: "\<forall>x \<in> set (d_send d) \<union> set (d_recv d). r_broadcast x < 3"
    if "policy_registry_import_batch mem h b d = Some (POLICY_OK, h')" for h b d h'
  proof -
    from that obtain h1 h2 h3 where
      "while_more (import_send mem b) h1 (d_send d) = Some (POLICY_OK, h2)"
      "while_more (import_recv mem b) h2 (d_recv d) = Some (POLICY_OK, h3)"
      by (auto simp: policy_registry_import_batch_def split: bind_splits if_splits)
    then show ?thesis
      by (auto simp: import_send_def import_recv_def UTIL_TRISTATE_N_def dest!: while_more_OK split: if_splits)
  qed
  have "\<forall>x \<in> set (d_send d) \<union> set (d_recv d). r_broadcast x < 3" if d: "(uid, d) \<in> set (dump_uids v)" for uid d
  proof -
    from while_more_OK [OF 1 d] obtain t t' :: "('a, 's) policy_state" where "import_uid mem t (uid, d) = Some (POLICY_OK, t')" by blast
    then obtain h b h' where "policy_registry_import_batch mem h b d = Some (POLICY_OK, h')"
      by (auto simp: import_uid_def Let_def split: prod.splits if_splits option.splits bind_splits)
    with batch show ?thesis by blast
  qed
  moreover have "(group \<longrightarrow> s = e) \<and> (\<forall>x \<in> set (d_send d) \<union> set (d_recv d). r_broadcast x < 3)"
    if d: "(group, s, e, d) \<in> set (dump_ranges v)" for group s e d
  proof -
    from while_more_OK [OF 2 d] obtain t t' :: "('a, 's) policy_state" where "import_range mem t (group, s, e, d) = Some (POLICY_OK, t')" by blast
    then obtain h b h' where "policy_registry_import_batch mem h b d = Some (POLICY_OK, h')" "group \<longrightarrow> s = e"
      by (auto simp: import_range_def Let_def split: prod.splits if_splits option.splits bind_splits)
    with batch show ?thesis by blast
  qed
  ultimately show ?thesis using p by fastforce
qed

theorem policy_registry_import_rejects_witness:
  "d_recv sample_dump \<noteq> [] \<and> r_broadcast (d_recv sample_dump ! 0) < 3"
proof -
  let ?v = "\<lparr>dump_uids = [(- 1, sample_dump)], dump_ranges = [], dump_selinux = [], dump_apparmor = False,
    dump_bustype = [], dump_poison = False\<rparr>"
  obtain h' where "policy_registry_import_batch (\<lambda>_. True) sample_heap 0 sample_dump = Some (POLICY_OK, h')"
    using sample_import by (cases "policy_registry_import_batch (\<lambda>_. True) sample_heap 0 sample_dump") auto
  then have "policy_registry_import fallback_mac (\<lambda>_. True) (sample_registry, sample_heap) ?v =
      Some (POLICY_OK, sample_registry, h')"
    by (simp add: policy_registry_import_def import_uid_def sample_registry_def fallback_mac_def)
  from policy_registry_import_rejects [OF this] show ?thesis by (simp add: sample_dump_def)
qed

text \<open>
  C26: a snapshot of a sound registry refers to the batch of the user (or the default one),
  then to those of the matching ranges in their order and of the groups from the last to the
  first; the array reserved for them suffices. When the registry is freed afterwards, the
  snapshot still decides everything as before, and freeing the snapshot in turn releases
  exactly its own references. A failed allocation takes no reference.
\<close>
theorem policy_snapshot_outlives_registry:
  assumes "policy_ok R (reg, h)"
  shows "\<exists>r so h1. policy_snapshot_new mem h reg label uid gids = Some (r, so, h1) \<and>
    (case so of
       None \<Rightarrow> r = POLICY_ENOMEM \<and> heap_ok h1 (reg_refs reg + R)
     | Some s \<Rightarrow> r = POLICY_OK \<and>
         snap_batches s = uid_batch reg uid # range_batches reg uid @
           map node_batch (List.map_filter (policy_registry_find_gid reg) (rev gids)) \<and>
         (\<exists>h2 h3. policy_registry_free reg h1 = Some h2 \<and> heap_ok h2 (mset (snap_batches s) + R) \<and>
            policy_snapshot_check_connect h2 s = policy_snapshot_check_connect h s \<and>
            policy_snapshot_check_own M h2 s n = policy_snapshot_check_own M h s n \<and>
            policy_snapshot_check_send M h2 w s l ns i q = policy_snapshot_check_send M h w s l ns i q \<and>
            policy_snapshot_check_receive h2 w s ns q = policy_snapshot_check_receive h w s ns q \<and>
            policy_snapshot_free s h2 = Some h3 \<and> heap_ok h3 R))"
proof (cases rule: policy_snapshot_new_cases [OF assms, of mem label uid gids])
  case (1 h1)
  then show ?thesis by auto
next
  case (2 s h1)
  note ok = 2
  have "heap_ok h1 (reg_refs reg + (mset (snap_batches s) + R))" using ok(3) by (simp add: ac_simps)
  from policy_registry_free_ok [OF this] obtain h2 where
    h2: "policy_registry_free reg h1 = Some h2" "heap_ok h2 (mset (snap_batches s) + R)" by blast
  have same: "\<forall>b \<in> set (snap_batches s). same_content h h2 b"
  proof
    fix b assume b: "b \<in> set (snap_batches s)"
    then have "b \<in># mset (snap_batches s) + R" by simp
    with h2(2) have "b \<in> dom (batches h2)" by (metis domI heap_okD)
    with h2(1) have "same_content h1 h2 b"
      unfolding policy_registry_free_unref by (rule batches_unref_same_content)
    with ok(4) b show "same_content h h2 b" by (blast intro: same_content_trans)
  qed
  have "mset (snap_batches s) = mset (rev (snap_batches s))" by simp
  with h2(2) obtain h3 where h3: "policy_snapshot_free s h2 = Some h3" "heap_ok h3 R"
    unfolding policy_snapshot_free_def using policy_batches_unref_ok by metis
  show ?thesis
    using ok(1,2) h2 h3 decisions_same [OF same]
    by (intro exI [of _ POLICY_OK] exI [of _ "Some s"] exI [of _ h1] conjI, simp)
      (simp only: option.case, blast)
qed

theorem policy_snapshot_outlives_registry_witness:
  "\<exists>r so h1. policy_snapshot_new (\<lambda>_. True) sample_heap sample_registry ''l'' 1000 [4, 27] = Some (r, so, h1) \<and>
    (case so of
       None \<Rightarrow> r = POLICY_ENOMEM \<and> heap_ok h1 (reg_refs sample_registry + {#})
     | Some s \<Rightarrow> r = POLICY_OK \<and> (\<exists>h2. policy_registry_free sample_registry h1 = Some h2 \<and>
         policy_snapshot_check_connect h2 s = policy_snapshot_check_connect sample_heap s))"
proof -
  obtain r so h1 where
    "policy_snapshot_new (\<lambda>_. True) sample_heap sample_registry ''l'' 1000 [4, 27] = Some (r, so, h1)"
    "case so of
       None \<Rightarrow> r = POLICY_ENOMEM \<and> heap_ok h1 (reg_refs sample_registry + {#})
     | Some s \<Rightarrow> r = POLICY_OK \<and>
         snap_batches s = uid_batch sample_registry 1000 # range_batches sample_registry 1000 @
           map node_batch (List.map_filter (policy_registry_find_gid sample_registry) (rev [4, 27])) \<and>
         (\<exists>h2 h3. policy_registry_free sample_registry h1 = Some h2 \<and> heap_ok h2 (mset (snap_batches s) + {#}) \<and>
            policy_snapshot_check_connect h2 s = policy_snapshot_check_connect sample_heap s \<and>
            policy_snapshot_check_own fallback_mac h2 s ''a.b'' = policy_snapshot_check_own fallback_mac sample_heap s ''a.b'' \<and>
            policy_snapshot_check_send fallback_mac h2 name_registry_init s [] None 1 sample_query =
              policy_snapshot_check_send fallback_mac sample_heap name_registry_init s [] None 1 sample_query \<and>
            policy_snapshot_check_receive h2 name_registry_init s None sample_query =
              policy_snapshot_check_receive sample_heap name_registry_init s None sample_query \<and>
            policy_snapshot_free s h2 = Some h3 \<and> heap_ok h3 {#})"
    using policy_snapshot_outlives_registry [OF sample_policy_ok] by blast
  then show ?thesis by (auto split: option.splits)
qed

text \<open>
  A rule for owning exactly one name also decides for every name below it: with the only
  ownership rule of the policy an allow rule for the name itself, not for the prefix, its
  holder may own \<open>a.b.c\<close> as well as \<open>a.b\<close>.
\<close>
theorem policy_own_rule_acts_as_prefix:
  "policy_snapshot_check_own fallback_mac sample_heap sample_snapshot ''a.b'' = Some POLICY_OK \<and>
   policy_snapshot_check_own fallback_mac sample_heap sample_snapshot ''a.b.c'' = Some POLICY_OK \<and>
   map own_prefix_verdict (name_tree (the (batches sample_heap 0))) = [POLICY_VERDICT_INIT, POLICY_VERDICT_INIT]"
proof -
  let ?bt = "the (batches sample_heap 0)"
  have entries: "entry_own_rules ?bt [] = [POLICY_VERDICT_INIT, POLICY_VERDICT_INIT]"
    "entry_own_rules ?bt ''a'' = []" "entry_own_rules ?bt ''a.b.c'' = []"
    "entry_own_rules ?bt ''a.b'' = [\<lparr>v_verdict = True, v_priority = 3\<rparr>, POLICY_VERDICT_INIT]"
    by (simp_all add: entry_own_rules_def policy_batch_find_name_def rb_find_def sample_heap_def)
  have prefixes: "name_prefixes ''a.b'' = [[], ''a'', ''a.b'']"
    "name_prefixes ''a.b.c'' = [[], ''a'', ''a.b'', ''a.b.c'']"
    by (simp_all add: name_prefixes_def prefix_ends_def upt_rec)
  have "allows (concat (map (own_rules n) [?bt]))" if "n \<in> {''a.b'', ''a.b.c''}" for n
    using that by (auto simp: own_rules_def prefixes entries fold_supersede_allows [symmetric] supersede_def
        POLICY_VERDICT_INIT_def)
  then have "policy_snapshot_check_own fallback_mac sample_heap sample_snapshot n = Some POLICY_OK"
    if "n \<in> {''a.b'', ''a.b.c''}" for n
    using that unfolding policy_snapshot_check_own_def fallback_permits mac_ret.case
    by (subst own_check.decision [OF sample_contents]) simp
  moreover have "map own_prefix_verdict (name_tree ?bt) = [POLICY_VERDICT_INIT, POLICY_VERDICT_INIT]"
    by (simp add: sample_heap_def)
  ultimately show ?thesis by simp
qed


end
