(* ===== verification/Peer.thy ===== *)
theory Peer
  imports Connection Reply Match Policy
begin

text \<open>
  Peers (\<open>src/bus/peer.h\<close>, \<open>src/bus/peer.c\<close>) and the state of the bus they share
  (\<open>src/bus/bus.h\<close>): where all the components meet. A peer has a connection, owns names and
  match rules, expects replies and is expected to reply.

  A peer is identified by its id. The parts of a peer that other objects point into
  (\<open>owned_names\<close>, \<open>owned_matches\<close>, \<open>sender_matches\<close>, \<open>name_owner_changed_matches\<close>,
  \<open>replies\<close>, \<open>owned_replies\<close>) are in the worlds of the name, match and reply components under
  that id; the two match registries of a name are in the match world under the name, and
  \<open>n_matches\<close> of the name is the number of rules they hold (\<open>name_matches_sync\<close>). The tree of
  peers is a map. Both builds are modelled: on Zephyr (\<open>zephyr\<close> of the socket environment)
  peers have no policy. \<open>None\<close> is a failed assertion or an access to a missing object, such as
  the policy of a peer that has none.
\<close>

section \<open>State\<close>

datatype peer_ret = PEER_OK | PEER_E_QUOTA | PEER_E_CONNECTION_REFUSED | PEER_E_EOF | PEER_E_PROTOCOL_VIOLATION
  | PEER_E_SEND_DENIED | PEER_E_RECEIVE_DENIED | PEER_E_NAME_RESERVED | PEER_E_NAME_UNIQUE | PEER_E_NAME_REFUSED
  | PEER_E_NAME_ALREADY_OWNER | PEER_E_NAME_IN_QUEUE | PEER_E_NAME_EXISTS | PEER_E_NAME_NOT_FOUND
  | PEER_E_NAME_NOT_OWNER | PEER_E_MATCH_INVALID | PEER_E_MATCH_NOT_FOUND | PEER_E_EXPECTED_REPLY_EXISTS
  | PEER_E_UNEXPECTED_REPLY | PEER_E_UNEXPECTED_FDS | PEER_FAILED

record ('a, 's) peer =
  p_user :: uid
  p_pid :: int
  p_pid_fd :: int
  p_gids :: "u32 list"
  p_seclabel :: string
  p_charge0 :: user_charge
  p_charge1 :: user_charge
  p_charge2 :: user_charge
  p_connection :: connection
  p_registered :: bool
  p_monitor :: bool
  p_policy :: "('a, 's) policy_snapshot option"

record ('a, 's) bus =
  b_user :: uid
  b_users :: user_registry
  b_names :: name_world
  b_matches :: match_world
  b_replies :: reply_world
  b_peers :: "owner_id \<rightharpoonup> ('a, 's) peer"
  b_ids :: u64
  b_n_peers :: u64
  b_n_registered :: u64
  b_n_monitors :: u64
  b_dispatch :: dispatch
  b_policies :: policy_heap

text \<open>The outcomes of the allocations and system calls of one operation, and of writing the log.\<close>

record peer_env =
  pe_socket :: socket_env
  pe_name :: name_env
  pe_match :: match_env
  pe_link :: link_env
  pe_keys :: bool
  pe_slot :: bool
  pe_slot_usage :: bool
  pe_log :: bool

text \<open>The fields of a parsed message that routing needs beyond those the match rules see.\<close>

record routed_metadata = message_metadata +
  md_destination :: "string option"
  md_reply_serial :: u32
  md_unix_fds :: u32

definition upd_peer :: "owner_id \<Rightarrow> (('a, 's) peer \<Rightarrow> ('a, 's) peer) \<Rightarrow> ('a, 's) bus \<Rightarrow> ('a, 's) bus" where
  "upd_peer i f b = b\<lparr>b_peers := (b_peers b)(i := map_option f (b_peers b i))\<rparr>"

definition rules_at_name :: "match_world \<Rightarrow> string \<Rightarrow> nat" where
  "rules_at_name w n =
     card (set (index_rule_list (reg_tree w (NAME_SENDER_MATCHES n) False))) +
     card (set (index_rule_list (reg_tree w (NAME_SENDER_MATCHES n) True))) +
     card (set (index_rule_list (reg_tree w (NAME_NAME_OWNER_CHANGED_MATCHES n) False))) +
     card (set (index_rule_list (reg_tree w (NAME_NAME_OWNER_CHANGED_MATCHES n) True)))"

definition name_matches_sync :: "string \<Rightarrow> ('a, 's) bus \<Rightarrow> ('a, 's) bus" where
  "name_matches_sync n b =
     b\<lparr>b_names := upd_name n (\<lambda>e. e\<lparr>n_matches := rules_at_name (b_matches b) n\<rparr>) (b_names b)\<rparr>"

section \<open>The registry of peers\<close>

definition peer_compare :: "u64 \<Rightarrow> u64 \<Rightarrow> int" where
  "peer_compare i j = (if i < j then - 1 else if i > j then 1 else 0)"

definition peer_registry_find_peer :: "('a, 's) bus \<Rightarrow> u64 \<Rightarrow> ('a, 's) peer option" where
  "peer_registry_find_peer b i =
     (case b_peers b i of Some p \<Rightarrow> if p_registered p then Some p else None | None \<Rightarrow> None)"

definition peer_register :: "('a, 's) bus \<Rightarrow> owner_id \<Rightarrow> ('a, 's) bus option" where
  "peer_register b i = do {
     p \<leftarrow> b_peers b i;
     _ \<leftarrow> c_assert (\<not> p_registered p);
     _ \<leftarrow> c_assert (\<not> p_monitor p);
     Some ((upd_peer i (\<lambda>p. p\<lparr>p_registered := True\<rparr>) b)\<lparr>b_n_registered := b_n_registered b + 1\<rparr>) }"

definition peer_unregister :: "('a, 's) bus \<Rightarrow> owner_id \<Rightarrow> ('a, 's) bus option" where
  "peer_unregister b i = do {
     p \<leftarrow> b_peers b i;
     _ \<leftarrow> c_assert (p_registered p);
     _ \<leftarrow> c_assert (\<not> p_monitor p);
     Some ((upd_peer i (\<lambda>p. p\<lparr>p_registered := False\<rparr>) b)\<lparr>b_n_registered := b_n_registered b - 1\<rparr>) }"

definition peer_is_privileged :: "('a, 's) bus \<Rightarrow> ('a, 's) peer \<Rightarrow> bool" where
  "peer_is_privileged b p = (if p_user p = 0 then True else if p_user p = b_user b then True else False)"

section \<open>Names\<close>

definition policy_denies :: "policy_ret \<Rightarrow> bool" where
  "policy_denies r \<longleftrightarrow> r = POLICY_E_ACCESS_DENIED \<or> r = POLICY_E_SELINUX_ACCESS_DENIED \<or> r = POLICY_E_APPARMOR_ACCESS_DENIED"

definition request_ret :: "name_ret \<Rightarrow> peer_ret" where
  "request_ret r =
     (if r = NAME_E_QUOTA then PEER_E_QUOTA
      else if r = NAME_E_ALREADY_OWNER then PEER_E_NAME_ALREADY_OWNER
      else if r = NAME_E_IN_QUEUE then PEER_E_NAME_IN_QUEUE
      else if r = NAME_E_EXISTS then PEER_E_NAME_EXISTS
      else if r \<noteq> NAME_OK then PEER_FAILED
      else PEER_OK)"

text \<open>The check before a name is requested; \<open>PEER_OK\<close> lets the request through.\<close>

definition peer_check_own ::
  "('a, 's) mac \<Rightarrow> peer_env \<Rightarrow> ('a, 's) bus \<Rightarrow> ('a, 's) peer \<Rightarrow> string \<Rightarrow> peer_ret option" where
  "peer_check_own M env b p name =
     (if zephyr (pe_socket env) then Some (if p_policy p \<noteq> None then PEER_E_NAME_REFUSED else PEER_OK)
      else do {
        policy \<leftarrow> p_policy p;
        r \<leftarrow> policy_snapshot_check_own M (b_policies b) policy name;
        Some (if r = POLICY_OK then PEER_OK else if policy_denies r then PEER_E_NAME_REFUSED else PEER_FAILED) })"

definition peer_request_name ::
  "('a, 's) mac \<Rightarrow> peer_env \<Rightarrow> ('a, 's) bus \<Rightarrow> owner_id \<Rightarrow> string \<Rightarrow> u32 \<Rightarrow> name_change \<Rightarrow>
   (peer_ret \<times> ('a, 's) bus \<times> name_change) option" where
  "peer_request_name M env b i name flags change = do {
     p \<leftarrow> b_peers b i;
     if strcmp name DBUS_DRIVER_NAME = 0 then Some (PEER_E_NAME_RESERVED, b, change)
     else if take 1 name = '':'' then Some (PEER_E_NAME_UNIQUE, b, change)
     else do {
       r \<leftarrow> peer_check_own M env b p name;
       if r \<noteq> PEER_OK then Some (r, b, change)
       else do {
         (r, w, us, change) \<leftarrow> name_registry_request_name (pe_name env) (b_names b) (b_users b) i (Some (p_user p)) name flags change;
         Some (request_ret r, b\<lparr>b_names := w, b_users := us\<rparr>, change) } } }"

definition peer_release_name ::
  "('a, 's) bus \<Rightarrow> owner_id \<Rightarrow> string \<Rightarrow> name_change \<Rightarrow> (peer_ret \<times> ('a, 's) bus \<times> name_change) option" where
  "peer_release_name b i name change =
     (if strcmp name DBUS_DRIVER_NAME = 0 then Some (PEER_E_NAME_RESERVED, b, change)
      else if take 1 name = '':'' then Some (PEER_E_NAME_UNIQUE, b, change)
      else do {
        (r, w, us, change) \<leftarrow> name_registry_release_name (b_names b) (b_users b) i name change;
        Some (if r = NAME_E_NOT_FOUND then PEER_E_NAME_NOT_FOUND
              else if r = NAME_E_NOT_OWNER then PEER_E_NAME_NOT_OWNER
              else if r \<noteq> NAME_OK then PEER_FAILED else PEER_OK,
              b\<lparr>b_names := w, b_users := us\<rparr>, change) })"

definition peer_release_name_ownership ::
  "('a, 's) bus \<Rightarrow> owner_id \<Rightarrow> string \<Rightarrow> name_change \<Rightarrow> (('a, 's) bus \<times> name_change) option" where
  "peer_release_name_ownership b i name change = do {
     (w, us, change) \<leftarrow> name_ownership_release (b_names b) (b_users b) i name change;
     Some (b\<lparr>b_names := w, b_users := us\<rparr>, change) }"

section \<open>Match rules\<close>

text \<open>
  Where a rule is linked: in a registry of the bus or of a peer, in a registry of a name (which
  then is referenced), or nowhere.
\<close>

datatype link_target = LINK_AT reg_id | LINK_AT_NAME string reg_id | LINK_NOWHERE

definition link_target_at_address ::
  "('a, 's) bus \<Rightarrow> string \<Rightarrow> (owner_id \<Rightarrow> reg_id) \<Rightarrow> reg_id \<Rightarrow> (string \<Rightarrow> reg_id) \<Rightarrow> link_target" where
  "link_target_at_address b str peer_reg future_reg name_reg =
     (case address_from_string str of
        ADDRESS_TYPE_ID i \<Rightarrow>
          if peer_registry_find_peer b i \<noteq> None then LINK_AT (peer_reg i)
          else if i \<ge> b_ids b then LINK_AT future_reg
          else LINK_NOWHERE
      | _ \<Rightarrow> LINK_AT_NAME str (name_reg str))"

text \<open>The first argument a subscription to \<open>NameOwnerChanged\<close> of one specific name asks for.\<close>

definition owner_changed_arg :: "match_keys \<Rightarrow> string option" where
  "owner_changed_arg keys =
     (case f_member (k_filter keys) of
        None \<Rightarrow> None
      | Some m \<Rightarrow> if strcmp m ''NameOwnerChanged'' \<noteq> 0 then None
          else case f_args (k_filter keys) ! 0 of
            None \<Rightarrow> None
          | Some a \<Rightarrow> if strcmp a DBUS_DRIVER_NAME \<noteq> 0 then Some a else None)"

definition peer_link_target :: "('a, 's) bus \<Rightarrow> match_keys \<Rightarrow> link_target" where
  "peer_link_target b keys =
     (case k_sender keys of
        None \<Rightarrow> LINK_AT WILDCARD_MATCHES
      | Some sender \<Rightarrow>
          if strcmp sender DBUS_DRIVER_NAME = 0 then
            (case owner_changed_arg keys of
               Some a \<Rightarrow> link_target_at_address b a PEER_NAME_OWNER_CHANGED_MATCHES DRIVER_MATCHES NAME_NAME_OWNER_CHANGED_MATCHES
             | None \<Rightarrow> LINK_AT DRIVER_MATCHES)
          else link_target_at_address b sender PEER_SENDER_MATCHES WILDCARD_MATCHES NAME_SENDER_MATCHES)"

definition find_owned_rule :: "('a, 's) bus \<Rightarrow> owner_id \<Rightarrow> match_keys \<Rightarrow> match_rule option" where
  "find_owned_rule b i keys = rb_find match_rule_compare keys (rule_tree (match_owners (b_matches b) i))"

text \<open>Linking the rule of peer \<open>i\<close> with these keys; the result is false on a fatal error.\<close>

definition peer_link_match ::
  "peer_env \<Rightarrow> ('a, 's) bus \<Rightarrow> owner_id \<Rightarrow> match_keys \<Rightarrow> bool \<Rightarrow> (bool \<times> ('a, 's) bus) option" where
  "peer_link_match env b i keys monitor = do {
     r \<leftarrow> find_owned_rule b i keys;
     case peer_link_target b keys of
       LINK_NOWHERE \<Rightarrow> Some (True, b)
     | LINK_AT reg \<Rightarrow> do {
         (good, w) \<leftarrow> match_rule_link (pe_link env) (b_matches b) i r (\<not> monitor) reg monitor;
         Some (good, b\<lparr>b_matches := w\<rparr>) }
     | LINK_AT_NAME n reg \<Rightarrow> do {
         (x, names) \<leftarrow> name_registry_ref_name (pe_name env) (b_names b) n;
         let b = b\<lparr>b_names := names\<rparr>;
         if x \<noteq> NAME_OK then Some (False, b)
         else do {
           (good, w) \<leftarrow> match_rule_link (pe_link env) (b_matches b) i r (\<not> monitor) reg monitor;
           let b = name_matches_sync n (b\<lparr>b_matches := w\<rparr>);
           names \<leftarrow> (if good then name_ref (b_names b) n else Some (b_names b));
           names \<leftarrow> name_unref names n;
           Some (good, b\<lparr>b_names := names\<rparr>) } } }"

text \<open>
  The name a rule is linked at, as computed from the rule. The registry of the rule is cast to
  the name that embeds it: a registry elsewhere would be taken for a part of a name.
\<close>

definition peer_match_rule_to_name :: "match_rule \<Rightarrow> string option option" where
  "peer_match_rule_to_name r =
     (let keys = rule_keys r in
      case k_sender keys of
        None \<Rightarrow> Some None
      | Some sender \<Rightarrow>
          if strcmp sender DBUS_DRIVER_NAME = 0 then
            (case owner_changed_arg keys of
               Some a \<Rightarrow>
                 if take 1 a \<noteq> '':'' then
                   (case rule_registry r of
                      None \<Rightarrow> Some None
                    | Some (NAME_NAME_OWNER_CHANGED_MATCHES n, _) \<Rightarrow> Some (Some n)
                    | _ \<Rightarrow> None)
                 else Some None
             | None \<Rightarrow> Some None)
          else if take 1 sender \<noteq> '':'' then
            (case rule_registry r of
               None \<Rightarrow> Some None
             | Some (NAME_SENDER_MATCHES n, _) \<Rightarrow> Some (Some n)
             | _ \<Rightarrow> None)
          else Some None)"

text \<open>
  Dropping one reference to a rule and then the reference to the name it is linked at. The
  registry the rule was linked into may be one of a name even if no name is found for it.
\<close>

definition registry_name :: "(reg_id \<times> bool) option \<Rightarrow> string option" where
  "registry_name x = (case x of
     Some (NAME_SENDER_MATCHES n, _) \<Rightarrow> Some n | Some (NAME_NAME_OWNER_CHANGED_MATCHES n, _) \<Rightarrow> Some n | _ \<Rightarrow> None)"

definition peer_drop_match :: "('a, 's) bus \<Rightarrow> owner_id \<Rightarrow> match_rule \<Rightarrow> ('a, 's) bus option" where
  "peer_drop_match b i r = do {
     name \<leftarrow> peer_match_rule_to_name r;
     (w, us) \<leftarrow> match_rule_user_unref (b_matches b) (b_users b) i r;
     let b = b\<lparr>b_matches := w, b_users := us\<rparr>;
     let b = (case registry_name (rule_registry r) of None \<Rightarrow> b | Some n \<Rightarrow> name_matches_sync n b);
     case name of
       None \<Rightarrow> Some b
     | Some n \<Rightarrow> do { names \<leftarrow> name_unref (b_names b) n; Some (b\<lparr>b_names := names\<rparr>) } }"

definition peer_add_match :: "peer_env \<Rightarrow> ('a, 's) bus \<Rightarrow> owner_id \<Rightarrow> string \<Rightarrow> (peer_ret \<times> ('a, 's) bus) option" where
  "peer_add_match env b i rule_string = do {
     p \<leftarrow> b_peers b i;
     (x, w, us) \<leftarrow> match_owner_ref_rule (pe_match env) (b_matches b) (b_users b) i (Some (p_user p)) rule_string False;
     let b = b\<lparr>b_matches := w, b_users := us\<rparr>;
     case x of
       Inl e \<Rightarrow> Some (if e = MATCH_E_QUOTA then PEER_E_QUOTA
                     else if e = MATCH_E_INVALID then PEER_E_MATCH_INVALID else PEER_FAILED, b)
     | Inr keys \<Rightarrow> do {
         (good, b) \<leftarrow> peer_link_match env b i keys False;
         if good then Some (PEER_OK, b)
         else do {
           r \<leftarrow> find_owned_rule b i keys;
           (w, us) \<leftarrow> match_rule_user_unref (b_matches b) (b_users b) i r;
           Some (PEER_FAILED, b\<lparr>b_matches := w, b_users := us\<rparr>) } } }"

definition peer_remove_match :: "peer_env \<Rightarrow> ('a, 's) bus \<Rightarrow> owner_id \<Rightarrow> string \<Rightarrow> (peer_ret \<times> ('a, 's) bus) option" where
  "peer_remove_match env b i rule_string = do {
     x \<leftarrow> match_owner_find_rule (pe_keys env) (match_owners (b_matches b) i) rule_string;
     case x of
       Inl e \<Rightarrow> Some (if e = MATCH_E_INVALID then PEER_E_MATCH_INVALID else PEER_FAILED, b)
     | Inr None \<Rightarrow> Some (PEER_E_MATCH_NOT_FOUND, b)
     | Inr (Some r) \<Rightarrow> do { b \<leftarrow> peer_drop_match b i r; Some (PEER_OK, b) } }"

text \<open>
  Becoming a monitor: the prepared rules are moved to the peer, and every rule is linked as
  often as it was given. \<open>envs\<close> are the outcomes of the single links; the flag that is carried
  along is false once a link failed.
\<close>

primrec link_times :: "(nat \<Rightarrow> peer_env) \<Rightarrow> nat \<Rightarrow> owner_id \<Rightarrow> match_keys \<Rightarrow> nat \<Rightarrow> bool \<times> ('a, 's) bus \<Rightarrow>
   (nat \<times> bool \<times> ('a, 's) bus) option" where
  "link_times envs k i keys 0 st = Some (k, st)"
| "link_times envs k i keys (Suc n) st = (case st of (fine, b) \<Rightarrow> do {
     (good, b) \<leftarrow> peer_link_match (envs k) b i keys True;
     link_times envs (Suc k) i keys n (fine \<and> good, b) })"

primrec link_monitor :: "(nat \<Rightarrow> peer_env) \<Rightarrow> owner_id \<Rightarrow> match_rule list \<Rightarrow> nat \<times> bool \<times> ('a, 's) bus \<Rightarrow>
   (nat \<times> bool \<times> ('a, 's) bus) option" where
  "link_monitor envs i [] st = Some st"
| "link_monitor envs i (r # rs) st = (case st of (k, st) \<Rightarrow> do {
     st \<leftarrow> link_times envs k i (rule_keys r) (n_user_refs r) st;
     link_monitor envs i rs st })"

definition peer_become_monitor ::
  "(nat \<Rightarrow> peer_env) \<Rightarrow> ('a, 's) bus \<Rightarrow> owner_id \<Rightarrow> match_owner \<Rightarrow> (bool \<times> ('a, 's) bus \<times> match_owner) option" where
  "peer_become_monitor envs b i owned_matches = do {
     p \<leftarrow> b_peers b i;
     _ \<leftarrow> c_assert (\<not> p_registered p);
     _ \<leftarrow> c_assert (\<not> p_monitor p);
     _ \<leftarrow> c_assert (rule_tree (match_owners (b_matches b) i) = []);
     (to, from) \<leftarrow> match_owner_move (match_owners (b_matches b) i) owned_matches;
     let b = b\<lparr>b_matches := (b_matches b)\<lparr>match_owners := (match_owners (b_matches b))(i := to)\<rparr>\<rparr>;
     (_, fine, b) \<leftarrow> link_monitor envs i (rule_tree to) (0, True, b);
     if \<not> fine then Some (False, b, from)
     else Some (True, (upd_peer i (\<lambda>p. p\<lparr>p_monitor := True\<rparr>) b)\<lparr>b_n_monitors := b_n_monitors b + 1\<rparr>, from) }"

definition peer_stop_monitor :: "('a, 's) bus \<Rightarrow> owner_id \<Rightarrow> ('a, 's) bus option" where
  "peer_stop_monitor b i = do {
     p \<leftarrow> b_peers b i;
     _ \<leftarrow> c_assert (\<not> p_registered p);
     _ \<leftarrow> c_assert (p_monitor p);
     _ \<leftarrow> c_assert (rule_tree (match_owners (b_matches b) i) = []);
     Some ((upd_peer i (\<lambda>p. p\<lparr>p_monitor := False\<rparr>) b)\<lparr>b_n_monitors := b_n_monitors b - 1\<rparr>) }"

text \<open>
  Dropping all rules: the loop takes the root of the tree until the tree is empty. Which
  element is the root depends on the balancing; \<open>root\<close> says where in the order it is.
\<close>

partial_function (option) peer_flush_matches ::
  "(match_rule list \<Rightarrow> nat) \<Rightarrow> owner_id \<Rightarrow> ('a, 's) bus \<Rightarrow> ('a, 's) bus option" where
  "peer_flush_matches root i b =
     (let t = rule_tree (match_owners (b_matches b) i) in
      if t = [] then Some b
      else Option.bind (peer_drop_match b i (t ! root t)) (peer_flush_matches root i))"

section \<open>Messages\<close>

definition unicast_query :: "routed_metadata \<Rightarrow> bool \<Rightarrow> policy_query" where
  "unicast_query md broadcast = \<lparr>q_interface = md_interface md, q_member = md_member md, q_path = md_path md,
     q_type = ucast (md_type md), q_broadcast = broadcast, q_fds = ucast (md_unix_fds md)\<rparr>"

text \<open>
  The two checks of a unicast message. On Zephyr they are made if both sides have a policy, and
  their results are not looked at.
\<close>

definition peer_check_receive ::
  "peer_env \<Rightarrow> ('a, 's) bus \<Rightarrow> ('a, 's) policy_snapshot option \<Rightarrow> name_set \<Rightarrow> ('a, 's) peer \<Rightarrow> routed_metadata \<Rightarrow> policy_ret option" where
  "peer_check_receive env b sender_policy sender_names receiver md =
     (if zephyr (pe_socket env) then
        (case (sender_policy, p_policy receiver) of
           (Some _, Some policy) \<Rightarrow> do {
             _ \<leftarrow> policy_snapshot_check_receive (b_policies b) (b_names b) policy (Some sender_names) (unicast_query md False);
             Some POLICY_OK }
         | _ \<Rightarrow> Some POLICY_OK)
      else do {
        _ \<leftarrow> sender_policy;
        policy \<leftarrow> p_policy receiver;
        policy_snapshot_check_receive (b_policies b) (b_names b) policy (Some sender_names) (unicast_query md False) })"

definition peer_check_send ::
  "('a, 's) mac \<Rightarrow> peer_env \<Rightarrow> ('a, 's) bus \<Rightarrow> ('a, 's) policy_snapshot option \<Rightarrow> owner_id \<Rightarrow> ('a, 's) peer \<Rightarrow> routed_metadata \<Rightarrow>
   policy_ret option" where
  "peer_check_send M env b sender_policy i receiver md =
     (if zephyr (pe_socket env) then
        (case (sender_policy, p_policy receiver) of
           (Some policy, Some _) \<Rightarrow> do {
             _ \<leftarrow> policy_snapshot_check_send M (b_policies b) (b_names b) policy (p_seclabel receiver)
                   (Some (NAME_SET_TYPE_OWNER i)) i (unicast_query md False);
             Some POLICY_OK }
         | _ \<Rightarrow> Some POLICY_OK)
      else do {
        policy \<leftarrow> sender_policy;
        policy_snapshot_check_send M (b_policies b) (b_names b) policy (p_seclabel receiver)
          (Some (NAME_SET_TYPE_OWNER i)) i (unicast_query md False) })"

definition queue_at ::
  "peer_env \<Rightarrow> ('a, 's) bus \<Rightarrow> owner_id \<Rightarrow> uid option \<Rightarrow> message \<Rightarrow> (connection_ret \<times> ('a, 's) bus) option" where
  "queue_at env b i user m = do {
     p \<leftarrow> b_peers b i;
     (r, c, d, us) \<leftarrow> connection_queue (pe_socket env) (p_connection p) user m (b_dispatch b) (b_users b);
     Some (r, (upd_peer i (\<lambda>p. p\<lparr>p_connection := c\<rparr>) b)\<lparr>b_dispatch := d, b_users := us\<rparr>) }"

definition shutdown_at :: "peer_env \<Rightarrow> ('a, 's) bus \<Rightarrow> owner_id \<Rightarrow> ('a, 's) bus option" where
  "shutdown_at env b i = do {
     p \<leftarrow> b_peers b i;
     (c, d, us) \<leftarrow> connection_shutdown (pe_socket env) (p_connection p) (b_dispatch b) (b_users b);
     Some ((upd_peer i (\<lambda>p. p\<lparr>p_connection := c\<rparr>) b)\<lparr>b_dispatch := d, b_users := us\<rparr>) }"

text \<open>The checks and the queueing of a unicast message, without the reply slot around them.\<close>

definition peer_transmit ::
  "('a, 's) mac \<Rightarrow> peer_env \<Rightarrow> ('a, 's) bus \<Rightarrow> ('a, 's) policy_snapshot option \<Rightarrow> name_set \<Rightarrow> uid option \<Rightarrow> owner_id \<Rightarrow>
   message \<Rightarrow> routed_metadata \<Rightarrow> (peer_ret \<times> ('a, 's) bus) option" where
  "peer_transmit M env b sender_policy sender_names sender_user i m md = do {
     receiver \<leftarrow> b_peers b i;
     r \<leftarrow> peer_check_receive env b sender_policy sender_names receiver md;
     if r \<noteq> POLICY_OK then Some (if policy_denies r \<and> pe_log env then PEER_E_RECEIVE_DENIED else PEER_FAILED, b)
     else do {
       r \<leftarrow> peer_check_send M env b sender_policy i receiver md;
       if r \<noteq> POLICY_OK then Some (if policy_denies r \<and> pe_log env then PEER_E_SEND_DENIED else PEER_FAILED, b)
       else do {
         (r, b) \<leftarrow> queue_at env b i sender_user m;
         Some (if r = CONNECTION_OK then PEER_OK
               else if r = CONNECTION_E_QUOTA then PEER_E_QUOTA
               else if r = CONNECTION_E_UNEXPECTED_FDS then PEER_E_UNEXPECTED_FDS
               else PEER_FAILED, b) } } }"

text \<open>Releasing the slot of a reply that is not expected any more.\<close>

definition reply_slot_drop :: "('a, 's) bus \<Rightarrow> owner_id \<Rightarrow> reply_slot \<Rightarrow> ('a, 's) bus option" where
  "reply_slot_drop b i slot = do {
     (w, us) \<leftarrow> reply_slot_free (b_replies b) (b_users b) i slot;
     Some (b\<lparr>b_replies := w, b_users := us\<rparr>) }"

definition peer_queue_unicast ::
  "('a, 's) mac \<Rightarrow> peer_env \<Rightarrow> ('a, 's) bus \<Rightarrow> ('a, 's) policy_snapshot option \<Rightarrow> name_set \<Rightarrow> owner_id option \<Rightarrow> uid option \<Rightarrow>
   u64 \<Rightarrow> owner_id \<Rightarrow> message \<Rightarrow> routed_metadata \<Rightarrow> (peer_ret \<times> ('a, 's) bus) option" where
  "peer_queue_unicast M env b sender_policy sender_names sender_replies sender_user sender_id i m md = do {
     receiver \<leftarrow> b_peers b i;
     let serial = message_read_serial m;
     case sender_replies of
       Some owner \<Rightarrow>
         if serial = 0 then peer_transmit M env b sender_policy sender_names sender_user i m md
         else do {
           (r, w, us) \<leftarrow> reply_slot_new (pe_slot env) (pe_slot_usage env) (pe_log env) (b_replies b) (b_users b) i owner
             (Some (p_user receiver)) sender_user sender_id serial;
           let b = b\<lparr>b_replies := w, b_users := us\<rparr>;
           if r = REPLY_E_EXISTS then Some (PEER_E_EXPECTED_REPLY_EXISTS, b)
           else if r = REPLY_E_QUOTA then Some (PEER_E_QUOTA, b)
           else if r \<noteq> REPLY_OK then Some (PEER_FAILED, b)
           else do {
             (r, b) \<leftarrow> peer_transmit M env b sender_policy sender_names sender_user i m md;
             if r = PEER_OK then Some (PEER_OK, b)
             else do {
               slot \<leftarrow> reply_slot_get_by_id (b_replies b) i sender_id serial;
               b \<leftarrow> reply_slot_drop b i slot;
               Some (r, b) } } }
     | None \<Rightarrow> peer_transmit M env b sender_policy sender_names sender_user i m md }"

text \<open>
  Routing a reply from peer \<open>i\<close>. The log entries of the two failures read the policies of both
  peers.
\<close>

definition peer_deliver_reply ::
  "peer_env \<Rightarrow> ('a, 's) bus \<Rightarrow> ('a, 's) peer \<Rightarrow> owner_id \<Rightarrow> message \<Rightarrow> (peer_ret \<times> ('a, 's) bus) option" where
  "peer_deliver_reply env b sender j m = do {
     receiver \<leftarrow> b_peers b j;
     (r, b) \<leftarrow> queue_at env b j None m;
     if r = CONNECTION_OK then Some (PEER_OK, b)
     else if r = CONNECTION_E_QUOTA then do {
       _ \<leftarrow> p_policy sender;
       _ \<leftarrow> p_policy receiver;
       Some (if pe_log env then PEER_OK else PEER_FAILED, b) }
     else if r = CONNECTION_E_UNEXPECTED_FDS then do {
       b \<leftarrow> shutdown_at env b j;
       _ \<leftarrow> p_policy sender;
       _ \<leftarrow> p_policy receiver;
       Some (if pe_log env then PEER_OK else PEER_FAILED, b) }
     else Some (PEER_FAILED, b) }"

definition peer_queue_reply ::
  "peer_env \<Rightarrow> ('a, 's) bus \<Rightarrow> owner_id \<Rightarrow> string \<Rightarrow> u32 \<Rightarrow> message \<Rightarrow> (peer_ret \<times> ('a, 's) bus) option" where
  "peer_queue_reply env b i destination reply_serial m = do {
     sender \<leftarrow> b_peers b i;
     case address_from_string destination of
       ADDRESS_TYPE_ID j \<Rightarrow>
         (case reply_slot_get_by_id (b_replies b) i j reply_serial of
            None \<Rightarrow> Some (PEER_E_UNEXPECTED_REPLY, b)
          | Some slot \<Rightarrow> do {
              (r, b) \<leftarrow> peer_deliver_reply env b sender (rs_owner slot) m;
              b \<leftarrow> reply_slot_drop b i slot;
              Some (r, b) })
     | _ \<Rightarrow> Some (PEER_E_UNEXPECTED_REPLY, b) }"

section \<open>Life time\<close>

text \<open>What the system calls of \<open>peer_new_with_fd\<close> return, and its allocations.\<close>

datatype pidfd_answer = PIDFD int | PIDFD_UNKNOWN | PIDFD_FAILED

record peer_new_env =
  pn_ucred :: "(uid \<times> u32 \<times> int) option"
  pn_user :: bool
  pn_seclabel :: "string option"
  pn_gids :: "u32 list option"
  pn_pid_fd :: pidfd_answer
  pn_peer :: bool
  pn_usage0 :: bool
  pn_usage1 :: bool
  pn_usage2 :: bool
  pn_log :: bool
  pn_sizeof_Peer :: u32
  pn_snapshot :: "nat \<Rightarrow> bool"
  pn_dispatch :: dispatch_env
  pn_file :: file_id
  pn_buffer :: string

text \<open>
  What \<open>peer_free\<close> releases of a peer beyond the objects that must be gone already; the
  connection is released if it was initialised.
\<close>

definition peer_release ::
  "dispatch_env \<Rightarrow> ('a, 's) bus \<Rightarrow> ('a, 's) policy_snapshot option \<Rightarrow> connection option \<Rightarrow>
   user_charge \<Rightarrow> user_charge \<Rightarrow> user_charge \<Rightarrow> uid \<Rightarrow> ('a, 's) bus option" where
  "peer_release denv b policy conn c0 c1 c2 u = do {
     h \<leftarrow> (case policy of None \<Rightarrow> Some (b_policies b) | Some s \<Rightarrow> policy_snapshot_free s (b_policies b));
     (d, us) \<leftarrow> (case conn of
        None \<Rightarrow> Some (b_dispatch b, b_users b)
      | Some c \<Rightarrow> do { (_, d, us) \<leftarrow> connection_deinit denv c (b_dispatch b) (b_users b); Some (d, us) });
     (_, us) \<leftarrow> user_charge_deinit us c2;
     (_, us) \<leftarrow> user_charge_deinit us c1;
     (_, us) \<leftarrow> user_charge_deinit us c0;
     us \<leftarrow> user_unref us u;
     Some (b\<lparr>b_policies := h, b_dispatch := d, b_users := us, b_n_peers := b_n_peers b - 1\<rparr>) }"

definition peer_credentials :: "peer_new_env \<Rightarrow> socket_env \<Rightarrow> (uid \<times> u32 \<times> int) option" where
  "peer_credentials env senv = (if zephyr senv then Some (0, 0, 1) else pn_ucred env)"

text \<open>The embedded objects of a new peer.\<close>

definition peer_init :: "owner_id \<Rightarrow> ('a, 's) bus \<Rightarrow> ('a, 's) bus" where
  "peer_init i b = b\<lparr>
     b_names := upd_owner i (\<lambda>_. name_owner_init) (b_names b),
     b_matches := (b_matches b)\<lparr>match_owners := (match_owners (b_matches b))(i := match_owner_init),
        match_registries := (match_registries (b_matches b))(PEER_SENDER_MATCHES i := match_registry_init,
          PEER_NAME_OWNER_CHANGED_MATCHES i := match_registry_init)\<rparr>,
     b_replies := reply_owner_init i (reply_registry_init i (b_replies b))\<rparr>"

definition peer_charge3 ::
  "peer_new_env \<Rightarrow> user_registry \<Rightarrow> uid \<Rightarrow> (user_ret \<times> user_charge \<times> user_charge \<times> user_charge \<times> user_registry) option" where
  "peer_charge3 env us u = do {
     (r, c0, us) \<leftarrow> user_charge (pn_usage0 env) (pn_log env) us (Some u) user_charge_init None USER_SLOT_BYTES (pn_sizeof_Peer env);
     (r, c1, us) \<leftarrow> (if r \<noteq> USER_OK then Some (r, user_charge_init, us)
       else user_charge (pn_usage1 env) (pn_log env) us (Some u) user_charge_init None USER_SLOT_FDS 1);
     (r, c2, us) \<leftarrow> (if r \<noteq> USER_OK then Some (r, user_charge_init, us)
       else user_charge (pn_usage2 env) (pn_log env) us (Some u) user_charge_init None USER_SLOT_OBJECTS 1);
     Some (r, c0, c1, c2, us) }"

text \<open>The policy of the new peer: a snapshot that must allow the connection, or none on Zephyr.\<close>

definition peer_snapshot ::
  "peer_new_env \<Rightarrow> socket_env \<Rightarrow> policy_heap \<Rightarrow> ('a, 's) policy_registry option \<Rightarrow> string \<Rightarrow> uid \<Rightarrow> u32 list \<Rightarrow>
   (peer_ret \<times> ('a, 's) policy_snapshot option \<times> policy_heap) option" where
  "peer_snapshot env senv h policy label u gids =
     (if zephyr senv then Some (PEER_OK, None, h)
      else do {
        reg \<leftarrow> policy;
        (r, s, h) \<leftarrow> policy_snapshot_new (pn_snapshot env) h reg label u gids;
        case s of
          None \<Rightarrow> Some (PEER_FAILED, None, h)
        | Some s \<Rightarrow> do {
            r \<leftarrow> policy_snapshot_check_connect h s;
            Some (if r = POLICY_OK then PEER_OK
                  else if r = POLICY_E_ACCESS_DENIED then PEER_E_CONNECTION_REFUSED else PEER_FAILED, Some s, h) } })"

text \<open>The rest of \<open>peer_new_with_fd\<close> once the peer is allocated: every failure releases the peer.\<close>

definition peer_construct ::
  "peer_new_env \<Rightarrow> socket_env \<Rightarrow> ('a, 's) bus \<Rightarrow> ('a, 's) policy_registry option \<Rightarrow> string \<Rightarrow> int \<Rightarrow>
   uid \<Rightarrow> int \<Rightarrow> int \<Rightarrow> u32 list \<Rightarrow> string \<Rightarrow> (peer_ret \<times> owner_id option \<times> ('a, 's) bus) option" where
  "peer_construct env senv b policy guid fd u pid pid_fd gids label = do {
     let b = b\<lparr>b_n_peers := b_n_peers b + 1\<rparr>;
     (r, c0, c1, c2, us) \<leftarrow> peer_charge3 env (b_users b) u;
     let b = b\<lparr>b_users := us\<rparr>;
     if r \<noteq> USER_OK then do {
       b \<leftarrow> peer_release (pn_dispatch env) b None None c0 c1 c2 u;
       Some (if r = USER_E_QUOTA then PEER_E_QUOTA else PEER_FAILED, None, b) }
     else do {
       (r, snapshot, h) \<leftarrow> peer_snapshot env senv (b_policies b) policy label u gids;
       let b = b\<lparr>b_policies := h\<rparr>;
       if r \<noteq> PEER_OK then do {
         b \<leftarrow> peer_release (pn_dispatch env) b snapshot None c0 c1 c2 u;
         Some (r, None, b) }
       else do {
         (good, c, d, us) \<leftarrow> connection_init_server (pn_dispatch env) (pn_file env) fd u guid (pn_buffer env) (b_dispatch b) (b_users b);
         let b = b\<lparr>b_dispatch := d, b_users := us\<rparr>;
         if \<not> good then do {
           b \<leftarrow> peer_release (pn_dispatch env) b snapshot None c0 c1 c2 u;
           Some (PEER_FAILED, None, b) }
         else do {
           let i = b_ids b;
           let b = peer_init i (b\<lparr>b_ids := i + 1\<rparr>);
           _ \<leftarrow> c_assert (b_peers b i = None);
           Some (PEER_OK, Some i, b\<lparr>b_peers := (b_peers b)(i \<mapsto>
             \<lparr>p_user = u, p_pid = pid, p_pid_fd = pid_fd, p_gids = gids, p_seclabel = label,
              p_charge0 = c0, p_charge1 = c1, p_charge2 = c2, p_connection = c,
              p_registered = False, p_monitor = False, p_policy = snapshot\<rparr>)\<rparr>) } } } }"

definition peer_new_with_fd ::
  "peer_new_env \<Rightarrow> socket_env \<Rightarrow> ('a, 's) bus \<Rightarrow> ('a, 's) policy_registry option \<Rightarrow> string \<Rightarrow> int \<Rightarrow>
   (peer_ret \<times> owner_id option \<times> ('a, 's) bus) option" where
  "peer_new_with_fd env senv b policy guid fd =
     (case peer_credentials env senv of
        None \<Rightarrow> Some (PEER_FAILED, None, b)
      | Some (u, gid, pid) \<Rightarrow> do {
          (r, us) \<leftarrow> user_registry_ref_user (pn_user env) (b_users b) u;
          if r \<noteq> USER_OK then Some (PEER_FAILED, None, b)
          else do {
            let b = b\<lparr>b_users := us\<rparr>;
            let drop_user = map_option (\<lambda>us. (PEER_FAILED, None, b\<lparr>b_users := us\<rparr>)) (user_unref us u);
            let label = (if zephyr senv then Some [] else pn_seclabel env);
            let gids = (if zephyr senv then Some [] else pn_gids env);
            case (label, gids, pn_pid_fd env) of
              (None, _, _) \<Rightarrow> drop_user
            | (_, None, _) \<Rightarrow> drop_user
            | (_, _, PIDFD_FAILED) \<Rightarrow> drop_user
            | (Some label, Some gids, pidfd) \<Rightarrow>
                if \<not> pn_peer env then drop_user
                else peer_construct env senv b policy guid fd u pid
                  (case pidfd of PIDFD x \<Rightarrow> x | _ \<Rightarrow> -1) gids label } })"

definition peer_free :: "dispatch_env \<Rightarrow> ('a, 's) bus \<Rightarrow> owner_id \<Rightarrow> ('a, 's) bus option" where
  "peer_free denv b i = do {
     p \<leftarrow> b_peers b i;
     _ \<leftarrow> c_assert (\<not> p_registered p);
     let b = b\<lparr>b_peers := (b_peers b)(i := None)\<rparr>;
     _ \<leftarrow> reply_owner_deinit i (b_replies b);
     _ \<leftarrow> reply_registry_deinit i (b_replies b);
     _ \<leftarrow> match_owner_deinit (match_owners (b_matches b) i);
     _ \<leftarrow> match_registry_deinit (match_registries (b_matches b) (PEER_NAME_OWNER_CHANGED_MATCHES i));
     _ \<leftarrow> match_registry_deinit (match_registries (b_matches b) (PEER_SENDER_MATCHES i));
     _ \<leftarrow> name_owner_deinit (owners (b_names b) i);
     peer_release denv b (p_policy p) (Some (p_connection p)) (p_charge0 p) (p_charge1 p) (p_charge2 p) (p_user p) }"

definition peer_spawn :: "peer_env \<Rightarrow> ('a, 's) bus \<Rightarrow> owner_id \<Rightarrow> (bool \<times> ('a, 's) bus) option" where
  "peer_spawn env b i = do {
     p \<leftarrow> b_peers b i;
     (r, c, d, us) \<leftarrow> connection_open (pe_socket env) (p_connection p) (b_dispatch b) (b_users b);
     Some (r = CONNECTION_OK, (upd_peer i (\<lambda>p. p\<lparr>p_connection := c\<rparr>) b)\<lparr>b_dispatch := d, b_users := us\<rparr>) }"

definition peer_registry_init :: "('a, 's) bus \<Rightarrow> ('a, 's) bus" where
  "peer_registry_init b = b\<lparr>b_peers := Map.empty, b_ids := 0, b_n_peers := 0, b_n_registered := 0\<rparr>"

definition peer_registry_deinit :: "('a, 's) bus \<Rightarrow> ('a, 's) bus option" where
  "peer_registry_deinit b = do {
     _ \<leftarrow> c_assert (b_peers b = Map.empty);
     Some (b\<lparr>b_ids := 0\<rparr>) }"

section \<open>Finding the receivers of a message\<close>

text \<open>
  \<open>src/bus/bus.c\<close>. The names of a sender are visited in the order of its tree, which is by
  address in memory and hence arbitrary; here it is the order in which they were acquired.
\<close>

definition bus_find_peer_by_name :: "('a, 's) bus \<Rightarrow> string \<Rightarrow> owner_id option \<times> string option" where
  "bus_find_peer_by_name b name_str =
     (case address_from_string name_str of
        ADDRESS_TYPE_ID i \<Rightarrow> (if peer_registry_find_peer b i \<noteq> None then Some i else None, None)
      | ADDRESS_TYPE_NAME n \<Rightarrow>
          (case name_registry_find_name (b_names b) n of
             None \<Rightarrow> (None, None)
           | Some _ \<Rightarrow> (name_primary (b_names b) n, Some n))
      | ADDRESS_TYPE_OTHER \<Rightarrow> (None, None))"

definition primary_names :: "name_world \<Rightarrow> owner_id \<Rightarrow> string list" where
  "primary_names w i = filter (name_ownership_is_primary w i) (map fst (ownership_tree (owners w i)))"

definition collect_monitors :: "match_world \<Rightarrow> message_metadata \<Rightarrow> owner_id list \<Rightarrow> reg_id \<Rightarrow> owner_id list" where
  "collect_monitors w md ds reg = match_registry_get_monitors (match_registries w reg) ds md"

definition collect_subscribers :: "match_world \<Rightarrow> message_metadata \<Rightarrow> owner_id list \<Rightarrow> reg_id \<Rightarrow> owner_id list" where
  "collect_subscribers w md ds reg = match_registry_get_subscribers (match_registries w reg) ds md"

definition bus_get_monitor_destinations ::
  "('a, 's) bus \<Rightarrow> owner_id list \<Rightarrow> owner_id option \<Rightarrow> message_metadata \<Rightarrow> owner_id list" where
  "bus_get_monitor_destinations b ds sender md =
     (if b_n_monitors b = 0 then ds
      else
        let w = b_matches b; ds = collect_monitors w md ds WILDCARD_MATCHES in
        case sender of
          Some i \<Rightarrow>
            let ds = foldl (\<lambda>ds n. collect_monitors w md ds (NAME_SENDER_MATCHES n)) ds (primary_names (b_names b) i)
            in collect_monitors w md ds (PEER_SENDER_MATCHES i)
        | None \<Rightarrow> collect_monitors w md ds DRIVER_MATCHES)"

definition bus_get_broadcast_destinations ::
  "('a, 's) bus \<Rightarrow> owner_id list \<Rightarrow> reg_id option \<Rightarrow> owner_id option \<Rightarrow> message_metadata \<Rightarrow> owner_id list" where
  "bus_get_broadcast_destinations b ds matches sender md =
     (let w = b_matches b;
          ds = collect_subscribers w md ds WILDCARD_MATCHES;
          ds = (case matches of None \<Rightarrow> ds | Some reg \<Rightarrow> collect_subscribers w md ds reg)
      in case sender of
           Some i \<Rightarrow> foldl (\<lambda>ds n. collect_subscribers w md ds (NAME_SENDER_MATCHES n)) ds (primary_names (b_names b) i)
         | None \<Rightarrow> collect_subscribers w md ds DRIVER_MATCHES)"

end
