(* ===== verification/Subscription.thy ===== *)
theory Subscription
  imports Peer
begin

text \<open>
  The match rules of peers in the bus (\<open>src/bus/peer.c\<close>, \<open>src/bus/bus.c\<close>): where the rules are
  linked, which names they keep alive, and who receives a broadcast.
\<close>

section \<open>Where rules are linked\<close>

text \<open>
  What a peer puts into the key \<open>sender\<close> of a rule and what the rule is linked at belong
  together. A rule on a peer that was not connected yet is linked with the general rules.
\<close>

definition placed_by_address :: "string \<Rightarrow> (owner_id \<Rightarrow> reg_id) \<Rightarrow> reg_id \<Rightarrow> (string \<Rightarrow> reg_id) \<Rightarrow> reg_id \<Rightarrow> bool" where
  "placed_by_address str peer_reg future_reg name_reg reg \<longleftrightarrow>
     (case address_from_string str of
        ADDRESS_TYPE_ID i \<Rightarrow> reg = peer_reg i \<or> reg = future_reg
      | _ \<Rightarrow> reg = name_reg str)"

definition placed :: "match_keys \<Rightarrow> reg_id \<Rightarrow> bool" where
  "placed keys reg \<longleftrightarrow>
     (case k_sender keys of
        None \<Rightarrow> reg = WILDCARD_MATCHES
      | Some sender \<Rightarrow>
          if strcmp sender DBUS_DRIVER_NAME = 0 then
            (case owner_changed_arg keys of
               Some a \<Rightarrow> placed_by_address a PEER_NAME_OWNER_CHANGED_MATCHES DRIVER_MATCHES NAME_NAME_OWNER_CHANGED_MATCHES reg
             | None \<Rightarrow> reg = DRIVER_MATCHES)
          else placed_by_address sender PEER_SENDER_MATCHES WILDCARD_MATCHES NAME_SENDER_MATCHES reg)"

definition rules_placed :: "match_world \<Rightarrow> bool" where
  "rules_placed w \<longleftrightarrow>
     (\<forall>ow. \<forall>r \<in> owner_rules w ow. \<forall>reg m. rule_registry r = Some (reg, m) \<longrightarrow> placed (rule_keys r) reg)"

lemma peer_link_target_placed:
  "peer_link_target b keys = LINK_AT reg \<Longrightarrow> placed keys reg"
  "peer_link_target b keys = LINK_AT_NAME n reg \<Longrightarrow> placed keys reg"
  by (auto simp: peer_link_target_def placed_def link_target_at_address_def placed_by_address_def
      split: option.splits if_splits address.splits)

lemma link_at_name_registry:
  assumes "peer_link_target b keys = LINK_AT_NAME n reg"
  shows "registry_name (Some (reg, m)) = Some n"
  using assms by (auto simp: peer_link_target_def link_target_at_address_def registry_name_def
      split: option.splits if_splits address.splits)

lemma link_at_no_name:
  assumes "peer_link_target b keys = LINK_AT reg"
  shows "registry_name (Some (reg, m)) = None"
  using assms by (auto simp: peer_link_target_def link_target_at_address_def registry_name_def
      split: option.splits if_splits address.splits)

section \<open>Broadcasts\<close>

lemma collected:
  assumes "match_inv w"
  shows "set (match_registry_get_destinations (reg_tree w reg m) ds md) =
    set ds \<union> {ow. \<exists>r \<in> owner_rules w ow. rule_registry r = Some (reg, m) \<and> match_keys_match_metadata (rule_keys r) md}"
  using path_lookup.list_lookup [of "reg_tree w reg m" md ds] match_invD(5,6) [OF assms, of reg m]
  by (auto simp: index_ok_def index_rules_def match_registry_get_destinations_def linked_rules_def)

lemma collect_sets:
  assumes "match_inv w"
  shows "set (collect_subscribers w md ds reg) =
      set ds \<union> {ow. \<exists>r \<in> owner_rules w ow. rule_registry r = Some (reg, False) \<and> match_keys_match_metadata (rule_keys r) md}"
    and "set (collect_monitors w md ds reg) =
      set ds \<union> {ow. \<exists>r \<in> owner_rules w ow. rule_registry r = Some (reg, True) \<and> match_keys_match_metadata (rule_keys r) md}"
  using collected [OF assms, of reg False ds md] collected [OF assms, of reg True ds md]
  by (simp_all add: collect_subscribers_def collect_monitors_def match_registry_get_subscribers_def
      match_registry_get_monitors_def reg_tree_def)

lemma collect_distinct:
  assumes "distinct ds"
  shows "distinct (collect_subscribers w md ds reg)" "distinct (collect_monitors w md ds reg)"
  using path_lookup.list_lookup_distinct [OF assms]
  by (simp_all add: collect_subscribers_def collect_monitors_def match_registry_get_subscribers_def
      match_registry_get_monitors_def match_registry_get_destinations_def)

lemma foldl_collect:
  assumes "\<And>ds n. set (f ds n) = set ds \<union> S n" "\<And>ds n. distinct ds \<Longrightarrow> distinct (f ds n)"
  shows "set (foldl f ds ns) = set ds \<union> (\<Union>n \<in> set ns. S n) \<and> (distinct ds \<longrightarrow> distinct (foldl f ds ns))"
  using assms by (induction ns arbitrary: ds) auto

text \<open>Whether the key \<open>sender\<close> of a rule denotes peer \<open>i\<close>.\<close>

definition sender_denotes :: "name_world \<Rightarrow> owner_id \<Rightarrow> string option \<Rightarrow> bool" where
  "sender_denotes w i sender \<longleftrightarrow>
     (case sender of
        None \<Rightarrow> True
      | Some s \<Rightarrow> (case address_from_string s of ADDRESS_TYPE_ID j \<Rightarrow> j = i | _ \<Rightarrow> name_primary w s = Some i))"

lemma primary_names_set:
  assumes "name_inv ext (\<lambda>_. {}) w"
  shows "set (primary_names w i) = {n. name_primary w n = Some i}"
proof -
  have "n \<in> fst ` set (ownership_tree (owners w i))" if "name_primary w n = Some i" for n
  proof -
    from that have "i \<in> set (queue w n)" by (simp add: name_primary_def c_list_first_mem)
    then have "owned w i n \<noteq> None" using owned_iff_queued [OF assms] by blast
    then show ?thesis by (force simp: owned_def dest: map_of_SomeD)
  qed
  then show ?thesis by (auto simp: primary_names_def name_ownership_is_primary_def)
qed

text \<open>The registries a signal of peer \<open>i\<close> is looked up in, and the rules found there.\<close>

definition sender_registries :: "name_world \<Rightarrow> owner_id \<Rightarrow> reg_id set" where
  "sender_registries w i = {WILDCARD_MATCHES, PEER_SENDER_MATCHES i} \<union> {NAME_SENDER_MATCHES n | n. name_primary w n = Some i}"

lemma driver_address [simp]: "address_from_string DBUS_DRIVER_NAME = ADDRESS_TYPE_NAME DBUS_DRIVER_NAME"
  by (simp add: address_from_string_def DBUS_DRIVER_NAME_def)

lemma placed_denotes:
  assumes "keys_ok keys" "match_keys_match_metadata keys md" "md_sender_id md = i" "placed keys reg"
    and "name_primary w DBUS_DRIVER_NAME = None"
  shows "reg \<in> sender_registries w i \<longleftrightarrow> sender_denotes w i (k_sender keys)"
proof -
  have "sender_id_of (k_sender keys) \<noteq> ADDRESS_ID_INVALID \<Longrightarrow> i = sender_id_of (k_sender keys)"
    using assms(1-3) match_metadata_iff [OF assms(1)] by (simp add: matches_code_def)
  then have own: "j = i" if "k_sender keys = Some s" "address_from_string s = ADDRESS_TYPE_ID j" for s j
    using that address_from_string_id_valid [of s j] by (auto simp: sender_id_of_def)
  show ?thesis
    using assms(4,5) own
    by (auto simp: placed_def placed_by_address_def sender_registries_def sender_denotes_def strcmp_simps
        split: option.splits if_splits address.splits)
qed

lemma bus_monitor_destinations_set:
  assumes "match_inv (b_matches b)" "name_inv ext (\<lambda>_. {}) (b_names b)" "distinct ds"
  shows "set (bus_get_monitor_destinations b ds (Some i) md) = set ds \<union> (if b_n_monitors b = 0 then {} else
      {j. \<exists>r \<in> owner_rules (b_matches b) j. \<exists>reg \<in> sender_registries (b_names b) i.
         rule_registry r = Some (reg, True) \<and> match_keys_match_metadata (rule_keys r) md}) \<and>
    distinct (bus_get_monitor_destinations b ds (Some i) md)"
proof -
  let ?w = "b_matches b"
  note c = foldl_collect [of "\<lambda>ds n. collect_monitors ?w md ds (NAME_SENDER_MATCHES n)",
      OF collect_sets(2) [OF assms(1)] collect_distinct(2)]
  show ?thesis
    using c [of "collect_monitors ?w md ds WILDCARD_MATCHES" "primary_names (b_names b) i"] assms(3)
    by (simp add: bus_get_monitor_destinations_def Let_def collect_sets [OF assms(1)] collect_distinct
        primary_names_set [OF assms(2)]) (auto simp: sender_registries_def)
qed

lemma bus_broadcast_destinations_set:
  assumes "match_inv (b_matches b)" "name_inv ext (\<lambda>_. {}) (b_names b)" "distinct ds"
  shows "set (bus_get_broadcast_destinations b ds (Some (PEER_SENDER_MATCHES i)) (Some i) md) = set ds \<union>
      {j. \<exists>r \<in> owner_rules (b_matches b) j. \<exists>reg \<in> sender_registries (b_names b) i.
         rule_registry r = Some (reg, False) \<and> match_keys_match_metadata (rule_keys r) md} \<and>
    distinct (bus_get_broadcast_destinations b ds (Some (PEER_SENDER_MATCHES i)) (Some i) md)"
proof -
  let ?w = "b_matches b"
  note c = foldl_collect [of "\<lambda>ds n. collect_subscribers ?w md ds (NAME_SENDER_MATCHES n)",
      OF collect_sets(1) [OF assms(1)] collect_distinct(1)]
  show ?thesis
    using c [of "collect_subscribers ?w md (collect_subscribers ?w md ds WILDCARD_MATCHES) (PEER_SENDER_MATCHES i)"
        "primary_names (b_names b) i"] assms(3)
    by (simp add: bus_get_broadcast_destinations_def Let_def collect_sets [OF assms(1)] collect_distinct
        primary_names_set [OF assms(2)]) (auto simp: sender_registries_def)
qed

lemma sender_rules:
  assumes "match_inv w" "rules_placed w" "name_primary nw DBUS_DRIVER_NAME = None" "md_sender_id md = i"
  shows "(\<exists>r \<in> owner_rules w j. \<exists>reg \<in> sender_registries nw i.
      rule_registry r = Some (reg, m) \<and> match_keys_match_metadata (rule_keys r) md) \<longleftrightarrow>
    (\<exists>r \<in> owner_rules w j. \<exists>reg. rule_registry r = Some (reg, m) \<and>
      match_keys_match_metadata (rule_keys r) md \<and> sender_denotes nw i (k_sender (rule_keys r)))"
proof -
  have "reg \<in> sender_registries nw i \<longleftrightarrow> sender_denotes nw i (k_sender (rule_keys r))"
    if "r \<in> owner_rules w j" "rule_registry r = Some (reg, m)" "match_keys_match_metadata (rule_keys r) md" for r reg
    using placed_denotes [OF match_invD(3) [OF assms(1) that(1)] that(3) assms(4) _ assms(3)] assms(2) that
    by (auto simp: rules_placed_def)
  then show ?thesis by blast
qed

text \<open>
  C9: who receives a signal. If the rules are indexed consistently and linked where their keys
  say, the destinations of a signal that peer \<open>i\<close> broadcasts are exactly the peers that have a
  linked subscription whose keys match the message and whose sender, if it has one, is the unique
  name of \<open>i\<close> or a name of which \<open>i\<close> is the primary owner; each of them is found once, although
  a rule can be in the registry of the bus, of the peer or of any of the names of the peer. A
  peer that waits in the queue of a name does not count as its sender.
\<close>
theorem bus_broadcast_exact:
  assumes "match_inv (b_matches b)" "rules_placed (b_matches b)" "name_inv ext (\<lambda>_. {}) (b_names b)"
    "name_primary (b_names b) DBUS_DRIVER_NAME = None" "md_sender_id md = i"
  shows "distinct (bus_get_broadcast_destinations b [] (Some (PEER_SENDER_MATCHES i)) (Some i) md) \<and>
    set (bus_get_broadcast_destinations b [] (Some (PEER_SENDER_MATCHES i)) (Some i) md) =
      {j. \<exists>r \<in> owner_rules (b_matches b) j. \<exists>reg. rule_registry r = Some (reg, False) \<and>
         match_keys_match_metadata (rule_keys r) md \<and> sender_denotes (b_names b) i (k_sender (rule_keys r))}"
  using bus_broadcast_destinations_set [OF assms(1,3), of "[]" i md] sender_rules [OF assms(1,2,4,5)] by simp

text \<open>
  The same for the monitors of a message of peer \<open>i\<close>; if no peer is a monitor, nothing is
  looked up.
\<close>
theorem bus_monitors_exact:
  assumes "match_inv (b_matches b)" "rules_placed (b_matches b)" "name_inv ext (\<lambda>_. {}) (b_names b)"
    "name_primary (b_names b) DBUS_DRIVER_NAME = None" "md_sender_id md = i" "b_n_monitors b \<noteq> 0"
  shows "distinct (bus_get_monitor_destinations b [] (Some i) md) \<and>
    set (bus_get_monitor_destinations b [] (Some i) md) =
      {j. \<exists>r \<in> owner_rules (b_matches b) j. \<exists>reg. rule_registry r = Some (reg, True) \<and>
         match_keys_match_metadata (rule_keys r) md \<and> sender_denotes (b_names b) i (k_sender (rule_keys r))}"
  using bus_monitor_destinations_set [OF assms(1,3), of "[]" i md] sender_rules [OF assms(1,2,4,5)] assms(6) by simp

section \<open>Rules and the names they keep alive\<close>

text \<open>The name a rule is linked at; every rule that has one is linked there at all times.\<close>

definition name_by_address :: "string \<Rightarrow> string option" where
  "name_by_address str = (case address_from_string str of ADDRESS_TYPE_ID i \<Rightarrow> None | _ \<Rightarrow> Some str)"

definition name_of_keys :: "match_keys \<Rightarrow> string option" where
  "name_of_keys keys =
     (case k_sender keys of
        None \<Rightarrow> None
      | Some sender \<Rightarrow>
          if strcmp sender DBUS_DRIVER_NAME = 0 then Option.bind (owner_changed_arg keys) name_by_address
          else name_by_address sender)"

definition rules_named :: "match_world \<Rightarrow> bool" where
  "rules_named w \<longleftrightarrow> (\<forall>ow. \<forall>r \<in> owner_rules w ow. registry_name (rule_registry r) = name_of_keys (rule_keys r))"

lemma link_target_name:
  "(case peer_link_target b keys of LINK_AT_NAME n _ \<Rightarrow> Some n | _ \<Rightarrow> None) = name_of_keys keys"
  by (auto simp: peer_link_target_def link_target_at_address_def name_of_keys_def name_by_address_def
      split: option.splits if_splits address.splits)

lemma link_at_name_iff: "name_of_keys keys = Some n \<longleftrightarrow> (\<exists>reg. peer_link_target b keys = LINK_AT_NAME n reg)"
  using link_target_name [of b keys] by (auto split: link_target.splits)

definition name_rules :: "match_world \<Rightarrow> owner_id \<Rightarrow> string \<Rightarrow> match_rule set" where
  "name_rules w ow n = {r \<in> owner_rules w ow. name_of_keys (rule_keys r) = Some n}"

definition n_rules_at :: "match_world \<Rightarrow> string \<Rightarrow> nat" where
  "n_rules_at w n = (\<Sum>ow \<in> UNIV. card (name_rules w ow n))"

definition extra_pins :: "match_world \<Rightarrow> string \<Rightarrow> nat" where
  "extra_pins w n = (\<Sum>ow \<in> UNIV. \<Sum>r \<in> name_rules w ow n. n_user_refs r - 1)"

lemma finite_name_rules [simp]: "finite (name_rules w ow n)"
  by (simp add: name_rules_def)

lemma card_linked_rules:
  assumes "match_inv w"
  shows "card (linked_rules w reg m) = (\<Sum>ow \<in> UNIV. card {r \<in> owner_rules w ow. rule_registry r = Some (reg, m)})"
proof -
  let ?R = "\<lambda>ow. {r \<in> owner_rules w ow. rule_registry r = Some (reg, m)}"
  have "linked_rules w reg m = (SIGMA ow:UNIV. rule_keys ` ?R ow)"
    by (auto simp: linked_rules_def)
  moreover have "card (rule_keys ` ?R ow) = card (?R ow)" for ow
    using rule_unique [OF assms] by (intro card_image inj_onI) blast
  ultimately show ?thesis by simp
qed

lemma rules_at_name_count:
  assumes "match_inv w" "rules_named w"
  shows "rules_at_name w n = n_rules_at w n"
proof -
  let ?R = "\<lambda>reg m ow. {r \<in> owner_rules w ow. rule_registry r = Some (reg, m)}"
  let ?N = "NAME_SENDER_MATCHES n" and ?C = "NAME_NAME_OWNER_CHANGED_MATCHES n"
  have "card (name_rules w ow n) = card (?R ?N False ow) + card (?R ?N True ow) + card (?R ?C False ow) + card (?R ?C True ow)" for ow
  proof -
    have "name_rules w ow n = ?R ?N False ow \<union> ?R ?N True ow \<union> ?R ?C False ow \<union> ?R ?C True ow"
    proof -
      have "registry_name x = Some n \<longleftrightarrow> x = Some (?N, False) \<or> x = Some (?N, True) \<or> x = Some (?C, False) \<or> x = Some (?C, True)" for x
        by (cases x; auto simp: registry_name_def split: reg_id.splits)
      moreover have "name_rules w ow n = {r \<in> owner_rules w ow. registry_name (rule_registry r) = Some n}"
        using assms(2) by (auto simp: name_rules_def rules_named_def)
      ultimately show ?thesis by auto
    qed
    moreover have "card (A \<union> B \<union> C \<union> D) = card A + card B + card C + card D"
      if "finite A" "finite B" "finite C" "finite D" "(A \<union> B \<union> C) \<inter> D = {}" "(A \<union> B) \<inter> C = {}" "A \<inter> B = {}"
      for A B C D :: "match_rule set"
      using that by (simp add: card_Un_disjoint)
    moreover have "finite (?R reg m ow)" for reg m by simp
    moreover have "?R reg m ow \<inter> ?R reg' m' ow = {}" if "(reg, m) \<noteq> (reg', m')" for reg m reg' m' using that by auto
    ultimately show ?thesis by (simp add: Int_Un_distrib2)
  qed
  then show ?thesis
    using card_linked_rules [OF assms(1)] match_invD(6) [OF assms(1)]
    by (simp add: rules_at_name_def n_rules_at_def index_rule_list_set sum.distrib)
qed

text \<open>What the operations on rules do to the rules of all owners.\<close>

lemma link_rules:
  assumes inv: "match_inv w" and r: "r \<in> owner_rules w ow"
    and link: "match_rule_link env w ow r counters reg monitor = Some (good, w')"
  shows "owner_rules w' = (if good \<and> rule_registry r = None
    then (owner_rules w)(ow := insert (r\<lparr>rule_registry := Some (reg, monitor), rule_counted := counters\<rparr>) (owner_rules w ow - {r}))
    else owner_rules w)"
proof (cases "rule_registry r")
  case None
  let ?r = "r\<lparr>rule_registry := Some (reg, monitor), rule_counted := counters\<rparr>"
  from link None obtain t where
    "index_link env ow (rule_keys r) (rule_n_buffer r) (reg_tree w reg monitor) = Some (good, t)"
    by (auto simp: match_rule_link_def Let_def split: bind_splits if_splits)
  with link None have "\<not> good \<longrightarrow> w' = set_reg_tree reg monitor t w"
    "good \<longrightarrow> (\<forall>o'. rule_tree (match_owners w' o') = rule_tree (match_owners (put_rule ow ?r w) o'))"
    by (auto simp: match_rule_link_def Let_def put_rule_def split: if_splits)
  then have "\<not> good \<longrightarrow> owner_rules w' = owner_rules w" "good \<longrightarrow> owner_rules w' = owner_rules (put_rule ow ?r w)"
    by (auto simp: owner_rules_def fun_eq_iff)
  moreover have "owner_rules (put_rule ow ?r w) = (owner_rules w)(ow := insert ?r (owner_rules w ow - {r}))"
    using put_rule_rules(2,3) [OF inv r, of ?r] by (auto simp: fun_eq_iff owner_rules_def)
  ultimately show ?thesis using None by simp
qed (use link in \<open>auto simp: match_rule_link_def split: bind_splits if_splits\<close>)

lemma unlink_owners:
  "match_rule_unlink w ow r = Some (w', r') \<Longrightarrow> o' \<noteq> ow \<Longrightarrow> match_owners w' o' = match_owners w o'"
  by (auto simp: match_rule_unlink_def Let_def split: option.splits bind_splits if_splits)

lemma unref_rules:
  assumes "match_inv w" "r \<in> owner_rules w ow" "user_inv us ext (all_charges w + C)"
    "match_rule_user_unref w us ow r = Some (w', us')"
  shows "owner_rules w' = (owner_rules w)(ow := (if n_user_refs r = 1 then owner_rules w ow - {r}
    else insert (r\<lparr>n_user_refs := n_user_refs r - 1\<rparr>) (owner_rules w ow - {r})))"
proof
  fix o'
  show "owner_rules w' o' = ((owner_rules w)(ow := (if n_user_refs r = 1 then owner_rules w ow - {r}
    else insert (r\<lparr>n_user_refs := n_user_refs r - 1\<rparr>) (owner_rules w ow - {r})))) o'"
  proof (cases "o' = ow")
    case True
    with match_rule_user_unref_ok [OF assms(1-3)] assms(4) show ?thesis by auto
  next
    case False
    with assms(4) have "match_owners w' o' = match_owners w o'"
      by (auto simp: match_rule_user_unref_def match_rule_free_def put_rule_def Let_def
          split: if_splits bind_splits dest!: unlink_owners)
    with False show ?thesis by (simp add: owner_rules_def)
  qed
qed

lemma ref_rule_owners:
  assumes "match_owner_ref_rule env w us ow user s a = Some (x, w', us')" "o' \<noteq> ow"
  shows "match_owners w' o' = match_owners w o'"
  using assms by (auto simp: match_owner_ref_rule_def match_rule_user_ref_def put_rule_def Let_def
      split: if_splits bind_splits sum.splits option.splits)

lemma sum_change_nat:
  fixes f g :: "owner_id \<Rightarrow> nat"
  assumes "\<And>o'. o' \<noteq> ow \<Longrightarrow> g o' = f o'"
  shows "(\<Sum>o' \<in> UNIV. g o') + f ow = (\<Sum>o' \<in> UNIV. f o') + g ow"
  using sum.remove [of UNIV ow g] sum.remove [of UNIV ow f] assms
    sum.cong [of "UNIV - {ow}" "UNIV - {ow}" g f] by simp

text \<open>
  Replacing the rules of one owner that have certain keys. There is at most one rule with these
  keys before, and afterwards.
\<close>

definition rule_part :: "match_rule set \<Rightarrow> string \<Rightarrow> nat \<times> nat" where
  "rule_part X n = (let Y = {r \<in> X. name_of_keys (rule_keys r) = Some n} in (card Y, \<Sum>r \<in> Y. n_user_refs r - 1))"

lemma pins_change:
  assumes rules: "owner_rules w' = (owner_rules w)(ow := (owner_rules w ow - X) \<union> Y)"
    and X: "X \<subseteq> owner_rules w ow" and Y: "finite Y" "Y \<inter> (owner_rules w ow - X) = {}"
  shows "n_rules_at w' n + fst (rule_part X n) = n_rules_at w n + fst (rule_part Y n)"
    and "extra_pins w' n + snd (rule_part X n) = extra_pins w n + snd (rule_part Y n)"
proof -
  let ?P = "\<lambda>Z. {r \<in> Z. name_of_keys (rule_keys r) = Some n}"
  have other: "name_rules w' o' n = name_rules w o' n" if "o' \<noteq> ow" for o'
    using that rules by (simp add: name_rules_def)
  let ?B = "?P (owner_rules w ow - X)"
  have new: "name_rules w' ow n = ?B \<union> ?P Y" using rules by (auto simp: name_rules_def)
  have old: "name_rules w ow n = ?B \<union> ?P X" using X by (auto simp: name_rules_def)
  have fin: "finite ?B" "finite (?P Y)" "finite (?P X)" using Y(1) finite_subset [OF X] by simp_all
  have dis: "?B \<inter> ?P Y = {}" "?B \<inter> ?P X = {}" using Y(2) by auto
  have "n_rules_at w' n + card (name_rules w ow n) = n_rules_at w n + card (name_rules w' ow n)"
    unfolding n_rules_at_def by (rule sum_change_nat) (simp add: other)
  then show "n_rules_at w' n + fst (rule_part X n) = n_rules_at w n + fst (rule_part Y n)"
    unfolding new old using card_Un_disjoint [OF fin(1,2) dis(1)] card_Un_disjoint [OF fin(1,3) dis(2)]
    by (simp add: rule_part_def Let_def)
  have "extra_pins w' n + (\<Sum>r \<in> name_rules w ow n. n_user_refs r - 1) =
      extra_pins w n + (\<Sum>r \<in> name_rules w' ow n. n_user_refs r - 1)"
    unfolding extra_pins_def by (rule sum_change_nat) (simp add: other)
  then show "extra_pins w' n + snd (rule_part X n) = extra_pins w n + snd (rule_part Y n)"
    unfolding new old sum.union_disjoint [OF fin(1,2) dis(1)] sum.union_disjoint [OF fin(1,3) dis(2)]
    by (simp add: rule_part_def Let_def)
qed

lemma rule_part_simps [simp]:
  "rule_part {} n = (0, 0)"
  "rule_part {r} n = (if name_of_keys (rule_keys r) = Some n then (1, n_user_refs r - 1) else (0, 0))"
proof -
  have "{s \<in> {r}. name_of_keys (rule_keys s) = Some n} = (if name_of_keys (rule_keys r) = Some n then {r} else {})"
    by auto
  then show "rule_part {r} n = (if name_of_keys (rule_keys r) = Some n then (1, n_user_refs r - 1) else (0, 0))"
    by (simp only: rule_part_def Let_def) simp
qed (simp add: rule_part_def)

text \<open>The number of rules a name knows of; references do not change it.\<close>

definition matches_of :: "name_world \<Rightarrow> string \<Rightarrow> nat" where
  "matches_of w n = (case names w n of None \<Rightarrow> 0 | Some e \<Rightarrow> n_matches e)"

lemma matches_of_refs:
  "name_ref w n = Some w' \<Longrightarrow> matches_of w' = matches_of w"
  "name_unref w n = Some w' \<Longrightarrow> matches_of w' = matches_of w"
  "name_registry_ref_name env w n = Some (r, w') \<Longrightarrow> matches_of w' = matches_of w"
proof -
  show ref: "matches_of w' = matches_of w" if "name_ref w n = Some w'" for w'
    using that by (auto simp: name_ref_def matches_of_def fun_eq_iff split: bind_splits if_splits option.splits)
  show "name_unref w n = Some w' \<Longrightarrow> matches_of w' = matches_of w"
    by (auto simp: name_unref_def name_free_def matches_of_def fun_eq_iff Let_def split: bind_splits if_splits option.splits)
  assume r: "name_registry_ref_name env w n = Some (r, w')"
  show "matches_of w' = matches_of w"
  proof (cases "names w n")
    case None
    with r show ?thesis
      by (auto simp: name_registry_ref_name_def matches_of_def name_new_def fun_eq_iff split: if_splits)
  next
    case (Some e)
    with r have "name_ref w n = Some w'" by (auto simp: name_registry_ref_name_def)
    then show ?thesis by (rule ref)
  qed
qed

lemma set_matches_inv:
  assumes inv: "name_inv ext pend w" and e: "names w n = Some e" and k: "ext n + n_matches e = k + c"
  shows "name_inv (ext(n := k)) pend (upd_name n (\<lambda>e. e\<lparr>n_matches := c\<rparr>) w)"
    and "matches_of (upd_name n (\<lambda>e. e\<lparr>n_matches := c\<rparr>) w) = (matches_of w)(n := c)"
proof -
  let ?w = "upd_name n (\<lambda>e. e\<lparr>n_matches := c\<rparr>) w"
  have own: "name_owners ?w = name_owners w" by (simp add: name_owners_def fun_eq_iff)
  from name_inv_entry [OF inv e] k have "entry_ok k (name_owners w n) (pend n) (e\<lparr>n_matches := c\<rparr>)"
    by (auto simp: entry_ok_def)
  with e own have "name_ok k (pend n) ?w n" by (simp add: name_ok_def)
  then show "name_inv (ext(n := k)) pend ?w"
    using inv by (intro name_inv_update [OF inv, where n = n]) (auto simp: name_inv_def)
  show "matches_of ?w = (matches_of w)(n := c)" using e by (auto simp: matches_of_def fun_eq_iff)
qed

text \<open>The steps of linking a rule at a name: \<open>d\<close> is one if the rule was not linked before.\<close>

definition pin_name :: "bool \<Rightarrow> nat \<Rightarrow> string \<Rightarrow> name_world \<Rightarrow> name_world option" where
  "pin_name good c n w = do {
     let w = upd_name n (\<lambda>e. e\<lparr>n_matches := c\<rparr>) w;
     w \<leftarrow> (if good then name_ref w n else Some w);
     name_unref w n }"

lemma unref_inv:
  assumes "name_inv (ext(n := Suc k)) pend w"
  obtains w' where "name_unref w n = Some w'" "name_inv (ext(n := k)) pend w'" "same_state w w'" "matches_of w' = matches_of w"
proof -
  have "(ext(n := Suc k)) n \<noteq> 0" by simp
  from name_unref_inv [OF assms this] obtain w' where
    u: "name_unref w n = Some w'" "name_inv ((ext(n := Suc k))(n := (ext(n := Suc k)) n - 1)) pend w'" "same_state w w'" by blast
  have "(ext(n := Suc k))(n := (ext(n := Suc k)) n - 1) = ext(n := k)" by simp
  with u(2) have "name_inv (ext(n := k)) pend w'" by (simp only:)
  then show ?thesis using that u matches_of_refs(2) by blast
qed

lemma ref_inv:
  assumes "name_inv (ext(n := k)) pend w" "names w n \<noteq> None"
  obtains w' where "name_ref w n = Some w'" "name_inv (ext(n := Suc k)) pend w'" "same_state w w'" "matches_of w' = matches_of w"
proof -
  from assms(2) obtain e where "names w n = Some e" by blast
  from name_ref_inv [OF assms(1) this] obtain w' where
    u: "name_ref w n = Some w'" "name_inv ((ext(n := k))(n := (ext(n := k)) n + 1)) pend w'" "same_state w w'" by blast
  have "(ext(n := k))(n := (ext(n := k)) n + 1) = ext(n := Suc k)" by simp
  with u(2) have "name_inv (ext(n := Suc k)) pend w'" by (simp only:)
  then show ?thesis using that u matches_of_refs(1) by blast
qed

lemma pin_name_ok:
  assumes inv: "name_inv (ext(n := Suc (ext n))) pend w" and e: "names w n \<noteq> None"
    and c: "c = matches_of w n + d" "d \<le> 1" "\<not> good \<longrightarrow> d = 0"
  shows "\<exists>w'. pin_name good c n w = Some w' \<and> name_inv (ext(n := ext n + of_bool good - d)) pend w' \<and>
    matches_of w' = (matches_of w)(n := c) \<and> same_state w w'"
proof -
  obtain x where x: "names w n = Some x" using e by blast
  let ?w = "upd_name n (\<lambda>e. e\<lparr>n_matches := c\<rparr>) w"
  have "(ext(n := Suc (ext n))) n + n_matches x = (Suc (ext n) - d) + c" using c x by (simp add: matches_of_def)
  from set_matches_inv [OF inv x this] have
    s: "name_inv (ext(n := Suc (ext n) - d)) pend ?w" "matches_of ?w = (matches_of w)(n := c)"
    by (simp_all only: fun_upd_upd)
  have same: "same_state w ?w" "names ?w n \<noteq> None"
    using x by (auto simp: same_state_def queue_def fun_eq_iff)
  show ?thesis
  proof (cases good)
    case False
    with c(3) s(1) have "name_inv (ext(n := Suc (ext n))) pend ?w" by simp
    then show ?thesis
      by (rule unref_inv) (use False c(3) s(2) same_state_trans [OF same(1)] in \<open>auto simp: pin_name_def\<close>)
  next
    case True
    from ref_inv [OF s(1) same(2)] obtain w1 where
      1: "name_ref ?w n = Some w1" "name_inv (ext(n := Suc (Suc (ext n) - d))) pend w1" "same_state ?w w1" "matches_of w1 = matches_of ?w"
      by blast
    from 1(2) show ?thesis
      by (rule unref_inv) (use True 1 s(2) same_state_trans [OF same(1) same_state_trans [OF 1(3)]] in \<open>auto simp: pin_name_def\<close>)
  qed
qed

section \<open>The invariant of the rules in the bus\<close>

text \<open>The rules of monitors, and no others, are linked without being counted.\<close>

definition rules_counted :: "match_world \<Rightarrow> bool" where
  "rules_counted w \<longleftrightarrow> (\<forall>ow. \<forall>r \<in> owner_rules w ow. \<forall>reg m. rule_registry r = Some (reg, m) \<longrightarrow> rule_counted r = (\<not> m))"

text \<open>
  Rules are consistent, linked where their keys say, charged, and every name that a rule is
  linked at has one reference for every reference to such a rule, besides \<open>ext\<close> other ones.
\<close>

definition rules_inv :: "(uid \<Rightarrow> nat) \<Rightarrow> user_charge multiset \<Rightarrow> (string \<Rightarrow> nat) \<Rightarrow> ('a, 's) bus \<Rightarrow> bool" where
  "rules_inv eu C ext b \<longleftrightarrow>
     match_inv (b_matches b) \<and> rules_placed (b_matches b) \<and> rules_named (b_matches b) \<and>
     user_inv (b_users b) eu (all_charges (b_matches b) + C) \<and>
     name_inv (\<lambda>n. ext n + extra_pins (b_matches b) n) (\<lambda>_. {}) (b_names b) \<and>
     matches_of (b_names b) = n_rules_at (b_matches b) \<and> rules_counted (b_matches b)"

lemma rules_invD:
  assumes "rules_inv eu C ext b"
  shows "match_inv (b_matches b)" "rules_placed (b_matches b)" "rules_named (b_matches b)"
    "user_inv (b_users b) eu (all_charges (b_matches b) + C)"
    "name_inv (\<lambda>n. ext n + extra_pins (b_matches b) n) (\<lambda>_. {}) (b_names b)"
    "matches_of (b_names b) = n_rules_at (b_matches b)" "rules_counted (b_matches b)"
  using assms by (simp_all add: rules_inv_def)

lemma placed_name: "placed keys reg \<Longrightarrow> registry_name (Some (reg, m)) = name_of_keys keys"
  by (auto simp: placed_def placed_by_address_def name_of_keys_def name_by_address_def registry_name_def
      split: option.splits if_splits address.splits)

definition rule_fits :: "match_rule \<Rightarrow> bool" where
  "rule_fits r \<longleftrightarrow> (case rule_registry r of None \<Rightarrow> name_of_keys (rule_keys r) = None | Some (reg, m) \<Rightarrow> placed (rule_keys r) reg \<and> rule_counted r = (\<not> m))"

lemma rule_fits_parts:
  "rule_fits r \<longleftrightarrow> (\<forall>reg m. rule_registry r = Some (reg, m) \<longrightarrow> placed (rule_keys r) reg) \<and>
     registry_name (rule_registry r) = name_of_keys (rule_keys r) \<and>
     (\<forall>reg m. rule_registry r = Some (reg, m) \<longrightarrow> rule_counted r = (\<not> m))"
  using placed_name [of "rule_keys r"] by (cases "rule_registry r") (auto simp: rule_fits_def registry_name_def)

lemma rules_fit: "rules_placed w \<and> rules_named w \<and> rules_counted w \<longleftrightarrow> (\<forall>ow. \<forall>r \<in> owner_rules w ow. rule_fits r)"
  unfolding rules_placed_def rules_named_def rules_counted_def rule_fits_parts by blast

lemma rules_inv_change:
  assumes inv: "rules_inv eu C ext b" and match: "match_inv (b_matches b')"
    and users: "user_inv (b_users b') eu (all_charges (b_matches b') + C)"
    and rules: "owner_rules (b_matches b') = (owner_rules (b_matches b))(i := (owner_rules (b_matches b) i - X) \<union> Y)"
    and fits: "\<And>y. y \<in> Y \<Longrightarrow> rule_fits y"
    and names: "name_inv (\<lambda>n. ext' n + extra_pins (b_matches b') n) (\<lambda>_. {}) (b_names b')"
      "matches_of (b_names b') = n_rules_at (b_matches b')"
  shows "rules_inv eu C ext' b'"
proof -
  have "\<forall>ow. \<forall>r \<in> owner_rules (b_matches b') ow. rule_fits r"
    using rules_invD(2,3,7) [OF inv] fits rules_fit [of "b_matches b"] by (auto simp: rules)
  then show ?thesis using match users names rules_fit by (auto simp: rules_inv_def)
qed

section \<open>Adding a rule\<close>

text \<open>How often a peer asked for a rule: the abstract content of its tree.\<close>

definition rule_refs :: "match_world \<Rightarrow> owner_id \<Rightarrow> match_keys \<Rightarrow> nat" where
  "rule_refs w ow keys = (\<Sum>r \<in> {r \<in> owner_rules w ow. rule_keys r = keys}. n_user_refs r)"

lemma rule_refs_change:
  assumes rules: "owner_rules w' = (owner_rules w)(i := (owner_rules w i - X) \<union> Y)"
    and X: "X \<subseteq> owner_rules w i" and Y: "finite Y" "Y \<inter> (owner_rules w i - X) = {}"
    and keys: "\<And>r. r \<in> X \<union> Y \<Longrightarrow> rule_keys r = keys"
  shows "rule_refs w' i keys + (\<Sum>r \<in> X. n_user_refs r) = rule_refs w i keys + (\<Sum>r \<in> Y. n_user_refs r)"
    and "(j, k) \<noteq> (i, keys) \<Longrightarrow> rule_refs w' j k = rule_refs w j k"
proof -
  let ?B = "{r \<in> owner_rules w i - X. rule_keys r = keys}"
  have new: "{r \<in> owner_rules w' i. rule_keys r = keys} = ?B \<union> Y" and old: "{r \<in> owner_rules w i. rule_keys r = keys} = ?B \<union> X"
    using X keys by (auto simp: rules)
  have fin: "finite X" "?B \<inter> Y = {}" "?B \<inter> X = {}" using Y finite_subset [OF X] by auto
  show "rule_refs w' i keys + (\<Sum>r \<in> X. n_user_refs r) = rule_refs w i keys + (\<Sum>r \<in> Y. n_user_refs r)"
    unfolding rule_refs_def new old using fin Y(1) by (simp add: sum.union_disjoint)
  have "{r \<in> owner_rules w' j. rule_keys r = k} = {r \<in> owner_rules w j. rule_keys r = k}" if "(j, k) \<noteq> (i, keys)"
    using that keys X by (auto simp: rules)
  then show "(j, k) \<noteq> (i, keys) \<Longrightarrow> rule_refs w' j k = rule_refs w j k" by (simp add: rule_refs_def)
qed

text \<open>One more reference to a rule, before it is linked.\<close>

definition one_more :: "match_world \<Rightarrow> owner_id \<Rightarrow> match_keys \<Rightarrow> match_rule set \<Rightarrow> match_rule \<Rightarrow> bool" where
  "one_more w i keys X r \<longleftrightarrow> rule_keys r = keys \<and> X \<subseteq> owner_rules w i \<and> (\<forall>q \<in> owner_rules w i - X. rule_keys q \<noteq> keys) \<and>
     (X = {} \<and> n_user_refs r = 1 \<and> rule_registry r = None \<or>
      (\<exists>old. X = {old} \<and> r = old\<lparr>n_user_refs := n_user_refs old + 1\<rparr> \<and> n_user_refs old > 0))"

lemma ref_rule_step:
  assumes inv: "match_inv w" "user_inv us eu (all_charges w + C)" and can: "can_match us user"
  obtains (refused) e us1 where "match_owner_ref_rule env w us i user s a = Some (Inl e, w, us1)" "user_inv us1 eu (all_charges w + C)"
  | (added) keys r X w1 us1 where "match_owner_ref_rule env w us i user s a = Some (Inr keys, w1, us1)"
      "match_inv w1" "user_inv us1 eu (all_charges w1 + C)" "one_more w i keys X r"
      "owner_rules w1 = (owner_rules w)(i := (owner_rules w i - X) \<union> {r})" "keys_ok keys"
proof -
  from match_owner_ref_rule_ok [OF inv can, of env i s a] obtain x w1 us1 where
    r: "match_owner_ref_rule env w us i user s a = Some (x, w1, us1)" "match_inv w1" "user_inv us1 eu (all_charges w1 + C)"
    and x: "case x of Inl e \<Rightarrow> w1 = w
       | Inr keys \<Rightarrow> (\<exists>r. r \<in> owner_rules w1 i \<and> rule_keys r = keys \<and>
         (case rb_find match_rule_compare keys (rule_tree (match_owners w i)) of
            None \<Rightarrow> n_user_refs r = 1 \<and> rule_registry r = None \<and> owner_rules w1 i = insert r (owner_rules w i)
          | Some old \<Rightarrow> r = old\<lparr>n_user_refs := n_user_refs old + 1\<rparr> \<and>
              owner_rules w1 i = insert r (owner_rules w i - {old})))" by blast
  show ?thesis
  proof (cases x)
    case (Inl e)
    with r x show ?thesis by (intro refused) auto
  next
    case (Inr keys)
    with x obtain q where q: "q \<in> owner_rules w1 i" "rule_keys q = keys"
      and old: "case rb_find match_rule_compare keys (rule_tree (match_owners w i)) of
            None \<Rightarrow> n_user_refs q = 1 \<and> rule_registry q = None \<and> owner_rules w1 i = insert q (owner_rules w i)
          | Some old \<Rightarrow> q = old\<lparr>n_user_refs := n_user_refs old + 1\<rparr> \<and> owner_rules w1 i = insert q (owner_rules w i - {old})"
      by auto
    have ok: "keys_ok keys" using match_invD(3) [OF r(2) q(1)] q(2) by simp
    have upd: "owner_rules w1 = (owner_rules w)(i := owner_rules w1 i)"
      using ref_rule_owners [OF r(1)] by (auto simp: owner_rules_def fun_eq_iff)
    show ?thesis
    proof (cases "rb_find match_rule_compare keys (rule_tree (match_owners w i))")
      case None
      then have "\<forall>r \<in> owner_rules w i. rule_keys r \<noteq> keys" using find_rule_iff [OF inv(1) ok, of i] by fastforce
      then have m: "one_more w i keys {} q" using old None q(2) by (simp add: one_more_def)
      have "owner_rules w1 i = (owner_rules w i - {}) \<union> {q}" using old None by auto
      then have "owner_rules w1 = (owner_rules w)(i := (owner_rules w i - {}) \<union> {q})" by (subst upd) (simp only:)
      from added [OF r(1) [unfolded Inr] r(2,3) m this ok] show ?thesis .
    next
      case (Some o')
      then have o': "o' \<in> owner_rules w i" "rule_keys o' = keys" using find_rule_iff [OF inv(1) ok] by blast+
      then have "n_user_refs o' > 0" using match_invD(2) [OF inv(1)] by (auto simp: rule_ok_def)
      moreover have "rule_keys r \<noteq> keys" if "r \<in> owner_rules w i - {o'}" for r
        using that rule_unique [OF inv(1) _ o'(1), of r] o'(2) by auto
      moreover have q': "q = o'\<lparr>n_user_refs := n_user_refs o' + 1\<rparr>" using old Some by simp
      ultimately have m: "one_more w i keys {o'} q" using q(2) o'(1) unfolding one_more_def by (intro conjI disjI2 exI [of _ o']) simp_all
      have "owner_rules w1 i = (owner_rules w i - {o'}) \<union> {q}" using old Some by auto
      then have "owner_rules w1 = (owner_rules w)(i := (owner_rules w i - {o'}) \<union> {q})" by (subst upd) (simp only:)
      from added [OF r(1) [unfolded Inr] r(2,3) m this ok] show ?thesis .
    qed
  qed
qed

lemma one_moreD:
  assumes "one_more w i keys X r" and rules: "owner_rules w' = (owner_rules w)(i := (owner_rules w i - X) \<union> {r'})"
    and r': "r' = r\<lparr>rule_registry := reg, rule_counted := c\<rparr>"
  shows "rule_refs w' i keys = rule_refs w i keys + 1" "(j, k) \<noteq> (i, keys) \<Longrightarrow> rule_refs w' j k = rule_refs w j k"
    "n_rules_at w' n = n_rules_at w n + (if X = {} \<and> name_of_keys keys = Some n then 1 else 0)"
    "extra_pins w' n = extra_pins w n + (if X \<noteq> {} \<and> name_of_keys keys = Some n then 1 else 0)"
proof -
  have X: "X \<subseteq> owner_rules w i" "finite {r'}" "{r'} \<inter> (owner_rules w i - X) = {}" "\<And>r. r \<in> X \<union> {r'} \<Longrightarrow> rule_keys r = keys"
  proof -
    from assms(1) have k: "rule_keys r' = keys" "X \<subseteq> owner_rules w i" "\<And>q. q \<in> owner_rules w i - X \<Longrightarrow> rule_keys q \<noteq> keys"
      by (auto simp: one_more_def r')
    then show "X \<subseteq> owner_rules w i" "finite {r'}" "{r'} \<inter> (owner_rules w i - X) = {}" by auto
    show "rule_keys q = keys" if "q \<in> X \<union> {r'}" for q using that k(1) assms(1) by (auto simp: one_more_def)
  qed
  note c = rule_refs_change [OF rules X] pins_change [OF rules X(1-3), of n]
  have n: "n_user_refs r' = n_user_refs r" "rule_keys r' = keys" using assms(1) by (simp_all add: r' one_more_def)
  from c(2) show "(j, k) \<noteq> (i, keys) \<Longrightarrow> rule_refs w' j k = rule_refs w j k" .
  consider "X = {}" "n_user_refs r = 1"
    | old where "X = {old}" "n_user_refs r = n_user_refs old + 1" "n_user_refs old > 0" "rule_keys old = keys"
    using assms(1) unfolding one_more_def by auto
  then have "rule_refs w' i keys = rule_refs w i keys + 1 \<and>
      n_rules_at w' n = n_rules_at w n + (if X = {} \<and> name_of_keys keys = Some n then 1 else 0) \<and>
      extra_pins w' n = extra_pins w n + (if X \<noteq> {} \<and> name_of_keys keys = Some n then 1 else 0)"
  proof cases
    case 1
    with c(1,3,4) n show ?thesis by simp
  next
    case 2
    with c(1,3,4) n show ?thesis by (simp split: if_splits)
  qed
  then show "rule_refs w' i keys = rule_refs w i keys + 1"
    "n_rules_at w' n = n_rules_at w n + (if X = {} \<and> name_of_keys keys = Some n then 1 else 0)"
    "extra_pins w' n = extra_pins w n + (if X \<noteq> {} \<and> name_of_keys keys = Some n then 1 else 0)"
    by blast+
qed

lemma pins_cong: "owner_rules w' = owner_rules w \<Longrightarrow> n_rules_at w' = n_rules_at w \<and> extra_pins w' = extra_pins w"
  by (simp add: n_rules_at_def extra_pins_def name_rules_def fun_eq_iff)

lemma rules_inv_same:
  assumes inv: "rules_inv eu C ext b" and match: "match_inv (b_matches b')"
    "user_inv (b_users b') eu (all_charges (b_matches b') + C)" "owner_rules (b_matches b') = owner_rules (b_matches b)"
    and names: "name_inv (\<lambda>n. ext n + extra_pins (b_matches b) n) (\<lambda>_. {}) (b_names b')" "matches_of (b_names b') = matches_of (b_names b)"
  shows "rules_inv eu C ext b'"
  by (rule rules_inv_change [OF inv match(1,2), of 0 "{}" "{}"])
    (use match(3) names rules_invD(6) [OF inv] pins_cong [OF match(3)] in auto)

lemma add_undone:
  assumes one: "one_more w i keys X r" and inv: "match_inv w2" "user_inv us eu (all_charges w2 + C)"
    and rules: "owner_rules w2 = (owner_rules w)(i := (owner_rules w i - X) \<union> {r})"
  shows "\<exists>w3 us3. match_rule_user_unref w2 us i r = Some (w3, us3) \<and> match_inv w3 \<and>
    user_inv us3 eu (all_charges w3 + C) \<and> owner_rules w3 = owner_rules w"
proof -
  have r: "r \<in> owner_rules w2 i" by (simp add: rules)
  from match_rule_user_unref_ok [OF inv(1) r inv(2)] obtain w3 us3 where
    u: "match_rule_user_unref w2 us i r = Some (w3, us3)" "match_inv w3" "user_inv us3 eu (all_charges w3 + C)" by blast
  have others: "owner_rules w i - X \<union> {r} - {r} = owner_rules w i - X" using one by (auto simp: one_more_def)
  from one consider "X = {}" "n_user_refs r = 1"
    | old where "X = {old}" "r = old\<lparr>n_user_refs := n_user_refs old + 1\<rparr>" "n_user_refs old > 0" "old \<in> owner_rules w i"
    unfolding one_more_def by auto
  then have "owner_rules w3 = owner_rules w"
  proof cases
    case 1
    then show ?thesis using unref_rules [OF inv(1) r inv(2) u(1)] others by (simp add: rules)
  next
    case 2
    then have "n_user_refs r \<noteq> 1" "r\<lparr>n_user_refs := n_user_refs r - 1\<rparr> = old" by simp_all
    moreover have "insert old (owner_rules w i - X) = owner_rules w i" using 2 by blast
    ultimately show ?thesis using unref_rules [OF inv(1) r inv(2) u(1)] others by (simp only: rules if_False) simp
  qed
  with u show ?thesis by blast
qed

text \<open>The rule is linked where it would be linked now, if anywhere.\<close>

definition linked_now :: "('a, 's) bus \<Rightarrow> match_rule \<Rightarrow> bool" where
  "linked_now b r \<longleftrightarrow> (case peer_link_target b (rule_keys r) of
     LINK_AT reg \<Rightarrow> rule_registry r = Some (reg, False)
   | LINK_AT_NAME n reg \<Rightarrow> rule_registry r = Some (reg, False)
   | LINK_NOWHERE \<Rightarrow> True)"

text \<open>
  The peer already has this rule, linked elsewhere than it would be linked now: as the rule of a
  monitor, or with the rules on peers that do not exist yet, while the peer exists by now.
\<close>

definition stale_link :: "('a, 's) bus \<Rightarrow> owner_id \<Rightarrow> match_keys \<Rightarrow> bool" where
  "stale_link b i keys \<longleftrightarrow> (\<exists>r \<in> owner_rules (b_matches b) i. rule_keys r = keys \<and> rule_registry r \<noteq> None \<and> \<not> linked_now b r)"

text \<open>A rule that is linked nowhere, once it is linked where it belongs.\<close>

definition relinked :: "('a, 's) bus \<Rightarrow> match_rule \<Rightarrow> match_rule" where
  "relinked b r = (if rule_registry r \<noteq> None then r
     else case peer_link_target b (rule_keys r) of
       LINK_NOWHERE \<Rightarrow> r
     | LINK_AT reg \<Rightarrow> r\<lparr>rule_registry := Some (reg, False), rule_counted := True\<rparr>
     | LINK_AT_NAME n reg \<Rightarrow> r\<lparr>rule_registry := Some (reg, False), rule_counted := True\<rparr>)"

lemma relinked_refs: "relinked b (r\<lparr>n_user_refs := k\<rparr>) = (relinked b r)\<lparr>n_user_refs := k\<rparr>"
  by (simp add: relinked_def split: link_target.split)

lemma relinked_sel [simp]: "rule_keys (relinked b r) = rule_keys r" "n_user_refs (relinked b r) = n_user_refs r"
  by (simp_all add: relinked_def split: link_target.split)

lemma link_target_cong:
  assumes "b_peers b' = b_peers b" "b_ids b' = b_ids b"
  shows "peer_link_target b' = peer_link_target b"
  by (rule ext) (unfold peer_link_target_def link_target_at_address_def peer_registry_find_peer_def assms, rule refl)

lemma one_more_registry:
  assumes inv: "rules_inv eu C ext b" and cur: "\<not> stale_link b i keys" and one: "one_more (b_matches b) i keys X r"
    and target: "peer_link_target b keys = LINK_AT reg \<or> peer_link_target b keys = LINK_AT_NAME n reg"
    and reg: "rule_registry r = Some (reg', m)"
  shows "reg' = reg \<and> \<not> m \<and> rule_counted r"
proof -
  from one reg obtain old where old: "X = {old}" "r = old\<lparr>n_user_refs := n_user_refs old + 1\<rparr>" "old \<in> owner_rules (b_matches b) i"
    unfolding one_more_def by auto
  then have o': "rule_registry old = Some (reg', m)" "rule_keys old = keys" "rule_counted old = rule_counted r"
    using reg one by (auto simp: one_more_def)
  then have "linked_now b old" using cur old(3) by (auto simp: stale_link_def)
  with target o' have "reg' = reg \<and> \<not> m" by (auto simp: linked_now_def)
  moreover have "rule_counted old = (\<not> m)" using rules_invD(7) [OF inv] old(3) o'(1) by (auto simp: rules_counted_def)
  ultimately show ?thesis using o'(3) by simp
qed

lemma rule_fits_refs [simp]: "rule_fits (r\<lparr>n_user_refs := k\<rparr>) = rule_fits r"
  by (simp add: rule_fits_def split: option.split)

lemma one_more_fits:
  assumes inv: "rules_inv eu C ext b" and one: "one_more (b_matches b) i keys X r" and none: "name_of_keys keys = None"
  shows "rule_fits r"
proof -
  have "rule_fits old" if "old \<in> owner_rules (b_matches b) i" for old
    using rules_fit rules_invD(2,3,7) [OF inv] that by blast
  moreover have "rule_fits r" if "rule_registry r = None" using that one none by (simp add: one_more_def rule_fits_def)
  moreover have "rule_registry r = None \<or> (\<exists>old k. old \<in> owner_rules (b_matches b) i \<and> r = old\<lparr>n_user_refs := k\<rparr>)"
    using one unfolding one_more_def by blast
  ultimately show ?thesis by auto
qed

text \<open>What \<open>peer_add_match\<close> establishes.\<close>

definition add_result ::
  "(uid \<Rightarrow> nat) \<Rightarrow> user_charge multiset \<Rightarrow> (string \<Rightarrow> nat) \<Rightarrow> ('a, 's) bus \<Rightarrow> owner_id \<Rightarrow> match_keys \<Rightarrow> peer_ret \<Rightarrow> ('a, 's) bus \<Rightarrow> bool" where
  "add_result eu C ext b i keys r b' \<longleftrightarrow> rules_inv eu C ext b' \<and> same_state (b_names b) (b_names b') \<and>
     (if r = PEER_OK
      then rule_refs (b_matches b') = (rule_refs (b_matches b))(i := (rule_refs (b_matches b) i)(keys := rule_refs (b_matches b) i keys + 1)) \<and>
        (\<exists>X rule. one_more (b_matches b) i keys X rule \<and> linked_now b (relinked b rule) \<and>
           owner_rules (b_matches b') = (owner_rules (b_matches b))(i := (owner_rules (b_matches b) i - X) \<union> {relinked b rule}))
      else owner_rules (b_matches b') = owner_rules (b_matches b))"

lemma rule_refs_upd:
  assumes "rule_refs w' i keys = rule_refs w i keys + 1" "\<And>j k. (j, k) \<noteq> (i, keys) \<Longrightarrow> rule_refs w' j k = rule_refs w j k"
  shows "rule_refs w' = (rule_refs w)(i := (rule_refs w i)(keys := rule_refs w i keys + 1))"
  using assms by (intro ext) auto

lemma add_result_ok:
  assumes inv: "rules_inv eu C ext b" and one: "one_more (b_matches b) i keys X r"
    and match: "match_inv (b_matches b')" "user_inv (b_users b') eu (all_charges (b_matches b') + C)"
    and r': "r' = r\<lparr>rule_registry := reg, rule_counted := c\<rparr>"
    and rules: "owner_rules (b_matches b') = (owner_rules (b_matches b))(i := (owner_rules (b_matches b) i - X) \<union> {r'})"
    and fits: "rule_fits r'" "linked_now b r'" "r' = relinked b r"
    and names: "same_state (b_names b) (b_names b')"
      "name_inv (\<lambda>n. ext n + extra_pins (b_matches b') n) (\<lambda>_. {}) (b_names b')" "matches_of (b_names b') = n_rules_at (b_matches b')"
  shows "add_result eu C ext b i keys PEER_OK b'"
proof -
  note d = one_moreD [OF one rules r']
  have "rule_refs (b_matches b') = (rule_refs (b_matches b))(i := (rule_refs (b_matches b) i)(keys := rule_refs (b_matches b) i keys + 1))"
    by (rule rule_refs_upd) (use d(1,2) in blast)+
  moreover have "rules_inv eu C ext b'"
    by (rule rules_inv_change [OF inv match rules _ names(2,3)]) (use fits in simp)
  ultimately show ?thesis using names(1) fits(2) one rules unfolding add_result_def fits(3) by auto
qed

text \<open>The state in which a failed link leaves the bus: the reference is still to be dropped.\<close>

definition undo_ready ::
  "(uid \<Rightarrow> nat) \<Rightarrow> user_charge multiset \<Rightarrow> (string \<Rightarrow> nat) \<Rightarrow> ('a, 's) bus \<Rightarrow> owner_id \<Rightarrow> match_rule set \<Rightarrow> match_rule \<Rightarrow> ('a, 's) bus \<Rightarrow> bool" where
  "undo_ready eu C ext b i X r b2 \<longleftrightarrow> match_inv (b_matches b2) \<and> user_inv (b_users b2) eu (all_charges (b_matches b2) + C) \<and>
     owner_rules (b_matches b2) = (owner_rules (b_matches b))(i := (owner_rules (b_matches b) i - X) \<union> {r}) \<and>
     name_inv (\<lambda>n. ext n + extra_pins (b_matches b) n) (\<lambda>_. {}) (b_names b2) \<and>
     matches_of (b_names b2) = matches_of (b_names b) \<and> same_state (b_names b) (b_names b2)"

lemma same_state_refl [simp]: "same_state w w"
  by (simp add: same_state_def)

text \<open>Linking a rule that just got one more reference, wherever it belongs.\<close>

lemma link_step_rule:
  assumes inv: "rules_inv eu C ext b" and cur: "\<not> stale_link b i keys" and one: "one_more (b_matches b) i keys X r"
    and w1: "match_inv w1" "owner_rules w1 = (owner_rules (b_matches b))(i := (owner_rules (b_matches b) i - X) \<union> {r})"
    and target: "peer_link_target b keys = LINK_AT reg \<or> peer_link_target b keys = LINK_AT_NAME n reg"
  obtains good w2 r' reg' c where "match_rule_link env w1 i r True reg False = Some (good, w2)" "match_inv w2" "all_charges w2 = all_charges w1"
    "owner_rules w2 = (owner_rules (b_matches b))(i := (owner_rules (b_matches b) i - X) \<union> {r'})"
    "r' = r\<lparr>rule_registry := reg', rule_counted := c\<rparr>" "good \<longrightarrow> reg' = Some (reg, False)" "good \<longrightarrow> rule_fits r'"
    "good \<longrightarrow> linked_now b r' \<and> r' = relinked b r" "\<not> good \<longrightarrow> r' = r \<and> rule_registry r = None"
proof -
  have r: "r \<in> owner_rules w1 i" by (simp add: w1(2))
  have reg: "reg' = reg \<and> \<not> m \<and> rule_counted r" if "rule_registry r = Some (reg', m)" for reg' m
    by (rule one_more_registry [OF inv cur one target that])
  from match_rule_link_ok [OF w1(1) r, of reg True env False] reg obtain good w2 where
    l: "match_rule_link env w1 i r True reg False = Some (good, w2)" "match_inv w2" "all_charges w2 = all_charges w1" by blast
  note rules = link_rules [OF w1(1) r l(1)]
  have keys: "rule_keys r = keys" using one by (simp add: one_more_def)
  have placed: "placed keys reg" using target peer_link_target_placed by blast
  have others: "owner_rules (b_matches b) i - X \<union> {r} - {r} = owner_rules (b_matches b) i - X"
    using one by (auto simp: one_more_def)
  show ?thesis
  proof (cases "rule_registry r")
    case (Some x)
    obtain reg' m where x: "x = (reg', m)" by (cases x)
    with Some reg have c: "rule_registry r = Some (reg, False)" "rule_counted r" by auto
    then have good: good using l(1) by (auto simp: match_rule_link_def)
    have e: "r = r\<lparr>rule_registry := Some (reg, False), rule_counted := True\<rparr>" using c by (cases r) simp
    show ?thesis
      by (rule that [OF l _ e]) (use rules w1(2) c good keys placed target in \<open>auto simp: rule_fits_def linked_now_def relinked_def\<close>)
  next
    case None
    let ?r = "r\<lparr>rule_registry := Some (reg, False), rule_counted := True\<rparr>"
    show ?thesis
    proof (cases good)
      case True
      have "owner_rules w2 = (owner_rules (b_matches b))(i := (owner_rules (b_matches b) i - X) \<union> {?r})"
        using rules True None others by (simp add: w1(2))
      then show ?thesis
        by (rule that [OF l _ refl]) (use True None keys placed target in \<open>auto simp: rule_fits_def linked_now_def relinked_def\<close>)
    next
      case False
      have e: "r = r\<lparr>rule_registry := rule_registry r, rule_counted := rule_counted r\<rparr>" by simp
      show ?thesis
        by (rule that [OF l _ e]) (use rules False None w1(2) in auto)
    qed
  qed
qed

lemma link_at_name_eq:
  assumes "find_owned_rule b i keys = Some r" "peer_link_target b keys = LINK_AT_NAME n reg"
    "name_registry_ref_name (pe_name env) (b_names b) n = Some (NAME_OK, nw)"
    "match_rule_link (pe_link env) (b_matches b) i r (\<not> monitor) reg monitor = Some (good, w)"
  shows "peer_link_match env b i keys monitor =
    map_option (\<lambda>nw. (good, b\<lparr>b_names := nw, b_matches := w\<rparr>)) (pin_name good (rules_at_name w n) n nw)"
  using assms by (simp add: peer_link_match_def name_matches_sync_def pin_name_def Let_def split: option.split bind_split)

lemma rules_at_name_linked:
  assumes "match_inv w"
  shows "rules_at_name w n = card (linked_rules w (NAME_SENDER_MATCHES n) False) + card (linked_rules w (NAME_SENDER_MATCHES n) True) +
    card (linked_rules w (NAME_NAME_OWNER_CHANGED_MATCHES n) False) + card (linked_rules w (NAME_NAME_OWNER_CHANGED_MATCHES n) True)"
  using match_invD(6) [OF assms] by (simp add: rules_at_name_def index_rule_list_set)

lemma rules_named_fits:
  assumes inv: "rules_inv eu C ext b" and rules: "owner_rules w' = (owner_rules (b_matches b))(i := (owner_rules (b_matches b) i - X) \<union> {r'})"
    and fits: "rule_fits r'"
  shows "rules_named w'"
proof -
  have "rule_fits r" if "r \<in> owner_rules w' ow" for ow r
    using that rules_fit [of "b_matches b"] rules_invD(2,3,7) [OF inv] fits by (auto simp: rules split: if_splits)
  then show ?thesis using rules_fit [of w'] by blast
qed

text \<open>The number of rules a name is told about after linking a rule at it, successfully or not.\<close>

lemma count_after_link:
  assumes inv: "rules_inv eu C ext b" and one: "one_more (b_matches b) i keys X r" and name: "name_of_keys keys = Some n"
    and w2: "match_inv w2" "owner_rules w2 = (owner_rules (b_matches b))(i := (owner_rules (b_matches b) i - X) \<union> {r'})"
      "r' = r\<lparr>rule_registry := reg', rule_counted := c\<rparr>"
    and good: "good \<Longrightarrow> rule_fits r'" "\<not> good \<Longrightarrow> r' = r \<and> rule_registry r = None"
  shows "rules_at_name w2 n = n_rules_at (b_matches b) n + (if good \<and> X = {} then 1 else 0)"
    and "\<not> good \<Longrightarrow> X = {}"
proof -
  let ?w = "b_matches b"
  have keys: "rule_keys r = keys" using one by (simp add: one_more_def)
  show X: "X = {}" if "\<not> good"
  proof (rule ccontr)
    assume "X \<noteq> {}"
    with one obtain old where "old \<in> owner_rules ?w i" "r = old\<lparr>n_user_refs := n_user_refs old + 1\<rparr>" "rule_keys old = keys"
      unfolding one_more_def by fastforce
    moreover from this rules_invD(3) [OF inv] name have "registry_name (rule_registry old) = Some n" by (simp add: rules_named_def)
    ultimately show False using good(2) [OF that] by (simp add: registry_name_def)
  qed
  show "rules_at_name w2 n = n_rules_at ?w n + (if good \<and> X = {} then 1 else 0)"
  proof (cases good)
    case True
    then have "rules_at_name w2 n = n_rules_at w2 n"
      using rules_at_name_count [OF w2(1) rules_named_fits [OF inv w2(2)]] good(1) by simp
    with one_moreD(3) [OF one w2(2,3), of n] True name show ?thesis by simp
  next
    case False
    then have e: "X = {}" "r' = r" "rule_registry r = None" using X good(2) by blast+
    have "linked_rules w2 reg m = linked_rules ?w reg m" for reg m
      unfolding linked_rules_def w2(2) using e by auto
    then have "rules_at_name w2 n = rules_at_name ?w n"
      by (simp add: rules_at_name_linked [OF w2(1)] rules_at_name_linked [OF rules_invD(1) [OF inv]])
    with rules_at_name_count [OF rules_invD(1,3) [OF inv]] False show ?thesis by simp
  qed
qed

lemma link_step_name:
  fixes b :: "('a, 's) bus"
  assumes inv: "rules_inv eu C ext b" and cur: "\<not> stale_link b i keys" and one: "one_more (b_matches b) i keys X r"
    and w1: "match_inv w1" "user_inv us1 eu (all_charges w1 + C)"
      "owner_rules w1 = (owner_rules (b_matches b))(i := (owner_rules (b_matches b) i - X) \<union> {r})"
    and b1: "b1 = b\<lparr>b_matches := w1, b_users := us1\<rparr>"
    and find: "find_owned_rule b1 i keys = Some r" and tgt: "peer_link_target b1 keys = LINK_AT_NAME n reg" "peer_link_target b keys = LINK_AT_NAME n reg"
  shows "\<exists>good b2. peer_link_match env b1 i keys False = Some (good, b2) \<and>
    (if good then add_result eu C ext b i keys PEER_OK b2 else undo_ready eu C ext b i X r b2)"
proof -
  let ?w = "b_matches b" and ?k = "\<lambda>m. ext m + extra_pins (b_matches b) m"
  note names = rules_invD(5,6) [OF inv]
  have name: "name_of_keys keys = Some n" using link_target_name [of b keys] tgt(2) by simp
  from name_registry_ref_name_inv [OF names(1), of "pe_name env" n] obtain x nw where
    ref: "name_registry_ref_name (pe_name env) (b_names b) n = Some (x, nw)"
    and nw: "if x = NAME_OK then name_inv (?k(n := ?k n + 1)) (\<lambda>_. {}) nw \<and> same_state (b_names b) nw \<and> names nw n \<noteq> None
      else x = NAME_ENOMEM \<and> nw = b_names b" by blast
  show ?thesis
  proof (cases "x = NAME_OK")
    case False
    then have "peer_link_match env b1 i keys False = Some (False, b1)"
      using find tgt(1) ref nw by (simp add: peer_link_match_def b1)
    moreover have "undo_ready eu C ext b i X r b1" using w1 names by (simp add: undo_ready_def b1)
    ultimately show ?thesis by auto
  next
    case True
    with nw have nw: "name_inv (?k(n := Suc (?k n))) (\<lambda>_. {}) nw" "same_state (b_names b) nw" "names nw n \<noteq> None" by simp_all
    from tgt(2) have t: "peer_link_target b keys = LINK_AT reg \<or> peer_link_target b keys = LINK_AT_NAME n reg" by simp
    obtain good w2 r' reg' c where
      l: "match_rule_link (pe_link env) w1 i r True reg False = Some (good, w2)" "match_inv w2" "all_charges w2 = all_charges w1"
        "owner_rules w2 = (owner_rules ?w)(i := (owner_rules ?w i - X) \<union> {r'})" "r' = r\<lparr>rule_registry := reg', rule_counted := c\<rparr>"
      and good: "good \<longrightarrow> reg' = Some (reg, False)" "good \<longrightarrow> rule_fits r'" "good \<longrightarrow> linked_now b r' \<and> r' = relinked b r"
        "\<not> good \<longrightarrow> r' = r \<and> rule_registry r = None"
      by (rule link_step_rule [OF inv cur one w1(1,3) t, of "pe_link env"])
    let ?d = "if good \<and> X = {} then 1 else (0 :: nat)"
    have count: "rules_at_name w2 n = n_rules_at ?w n + ?d"
      by (rule count_after_link(1) [OF inv one name l(2,4,5)]) (use good(2,4) in blast)+
    have m: "matches_of nw = n_rules_at ?w" using matches_of_refs(3) [OF ref] names(2) by simp
    have "rules_at_name w2 n = matches_of nw n + ?d" "?d \<le> 1" "\<not> good \<longrightarrow> ?d = 0" using count m by simp_all
    from pin_name_ok [OF nw(1,3) this] obtain nw' where
      p: "pin_name good (rules_at_name w2 n) n nw = Some nw'" "name_inv (?k(n := ?k n + of_bool good - ?d)) (\<lambda>_. {}) nw'"
        "matches_of nw' = (matches_of nw)(n := rules_at_name w2 n)" "same_state nw nw'"
      by blast
    let ?b2 = "b1\<lparr>b_names := nw', b_matches := w2\<rparr>"
    note d = one_moreD [OF one l(4,5)]
    have "add_result eu C ext b i keys PEER_OK ?b2" if good
    proof (rule add_result_ok [OF inv one _ _ l(5)])
      have "?k(n := ?k n + of_bool good - ?d) = (\<lambda>m. ext m + extra_pins w2 m)"
        using that d(4) name by (auto simp: fun_eq_iff)
      with p(2) show "name_inv (\<lambda>m. ext m + extra_pins (b_matches ?b2) m) (\<lambda>_. {}) (b_names ?b2)" by simp
      show "matches_of (b_names ?b2) = n_rules_at (b_matches ?b2)"
        using p(3) m count that d(3) name by (auto simp: fun_eq_iff)
    qed (use w1 l good that same_state_trans [OF nw(2) p(4)] in \<open>auto simp: b1\<close>)
    moreover have "undo_ready eu C ext b i X r ?b2" if "\<not> good"
    proof -
      have "?k(n := ?k n + of_bool good - ?d) = ?k" "matches_of nw' = matches_of (b_names b)"
        using that p(3) m names(2) count by (auto simp: fun_eq_iff)
      with p(2) that w1 l(2-4) good(4) same_state_trans [OF nw(2) p(4)] show ?thesis by (simp add: undo_ready_def b1)
    qed
    moreover have "peer_link_match env b1 i keys False = Some (good, ?b2)"
    proof -
      have "name_registry_ref_name (pe_name env) (b_names b1) n = Some (NAME_OK, nw)"
        "match_rule_link (pe_link env) (b_matches b1) i r (\<not> False) reg False = Some (good, w2)"
        using ref True l(1) by (simp_all add: b1)
      from link_at_name_eq [OF find tgt(1) this] p(1) show ?thesis by simp
    qed
    ultimately show ?thesis by auto
  qed
qed

lemma link_step:
  fixes b :: "('a, 's) bus"
  assumes inv: "rules_inv eu C ext b" and cur: "\<not> stale_link b i keys" and one: "one_more (b_matches b) i keys X r" and ok: "keys_ok keys"
    and w1: "match_inv w1" "user_inv us1 eu (all_charges w1 + C)"
      "owner_rules w1 = (owner_rules (b_matches b))(i := (owner_rules (b_matches b) i - X) \<union> {r})"
    and b1: "b1 = b\<lparr>b_matches := w1, b_users := us1\<rparr>"
  shows "\<exists>good b2. peer_link_match env b1 i keys False = Some (good, b2) \<and>
    (if good then add_result eu C ext b i keys PEER_OK b2 else undo_ready eu C ext b i X r b2)"
proof -
  let ?w = "b_matches b"
  have keys: "rule_keys r = keys" using one by (simp add: one_more_def)
  have find: "find_owned_rule b1 i keys = Some r"
    using find_rule_iff [OF w1(1) ok] w1(3) keys by (simp add: find_owned_rule_def b1)
  have tgt: "peer_link_target b1 = peer_link_target b" by (rule link_target_cong) (simp_all add: b1)
  note names = rules_invD(5,6) [OF inv]
  show ?thesis
  proof (cases "peer_link_target b keys")
    case LINK_NOWHERE
    then have none: "name_of_keys keys = None" using link_target_name [of b keys] by simp
    have e: "r = r\<lparr>rule_registry := rule_registry r, rule_counted := rule_counted r\<rparr>" by simp
    note d = one_moreD [OF one w1(3) e]
    have "add_result eu C ext b i keys PEER_OK b1"
      by (rule add_result_ok [OF inv one _ _ e])
        (use w1 names d(3,4) none LINK_NOWHERE one_more_fits [OF inv one none] keys in \<open>auto simp: b1 linked_now_def relinked_def fun_eq_iff\<close>)
    with find tgt LINK_NOWHERE show ?thesis by (auto simp: peer_link_match_def)
  next
    case (LINK_AT reg)
    then have none: "name_of_keys keys = None" using link_target_name [of b keys] by simp
    from LINK_AT have t: "peer_link_target b keys = LINK_AT reg \<or> peer_link_target b keys = LINK_AT_NAME [] reg" by simp
    obtain good w2 r' reg' c where
      l: "match_rule_link (pe_link env) w1 i r True reg False = Some (good, w2)" "match_inv w2" "all_charges w2 = all_charges w1"
        "owner_rules w2 = (owner_rules ?w)(i := (owner_rules ?w i - X) \<union> {r'})" "r' = r\<lparr>rule_registry := reg', rule_counted := c\<rparr>"
      and good: "good \<longrightarrow> reg' = Some (reg, False)" "good \<longrightarrow> rule_fits r'" "good \<longrightarrow> linked_now b r' \<and> r' = relinked b r"
        "\<not> good \<longrightarrow> r' = r \<and> rule_registry r = None"
      by (rule link_step_rule [OF inv cur one w1(1,3) t, of "pe_link env"])
    note d = one_moreD [OF one l(4,5)]
    let ?b2 = "b1\<lparr>b_matches := w2\<rparr>"
    have "add_result eu C ext b i keys PEER_OK ?b2" if good
      by (rule add_result_ok [OF inv one _ _ l(5)])
        (use w1 l names d(3,4) none good(2,3) that in \<open>auto simp: b1 fun_eq_iff\<close>)
    moreover have "undo_ready eu C ext b i X r ?b2" if "\<not> good"
      using w1 l(2-4) names good(4) that by (simp add: undo_ready_def b1)
    moreover have "peer_link_match env b1 i keys False = Some (good, ?b2)"
      using find tgt LINK_AT l(1) by (simp add: peer_link_match_def b1)
    ultimately show ?thesis by auto
  next
    case (LINK_AT_NAME n reg)
    with find tgt show ?thesis by (intro link_step_name [OF inv cur one w1 b1]) auto
  qed
qed

lemma link_step_stale:
  fixes b :: "('a, 's) bus"
  assumes inv: "rules_inv eu C ext b" and stale: "stale_link b i keys" and one: "one_more (b_matches b) i keys X r" and ok: "keys_ok keys"
    and w1: "match_inv w1" "user_inv us1 eu (all_charges w1 + C)"
      "owner_rules w1 = (owner_rules (b_matches b))(i := (owner_rules (b_matches b) i - X) \<union> {r})"
    and b1: "b1 = b\<lparr>b_matches := w1, b_users := us1\<rparr>"
    and link: "peer_link_match env b1 i keys False = Some (good, b2)"
  shows "\<not> good \<and> undo_ready eu C ext b i X r b2"
proof -
  have keys: "rule_keys r = keys" using one by (simp add: one_more_def)
  have find: "find_owned_rule b1 i keys = Some r"
    using find_rule_iff [OF w1(1) ok] w1(3) keys by (simp add: find_owned_rule_def b1)
  have tgt: "peer_link_target b1 = peer_link_target b" by (rule link_target_cong) (simp_all add: b1)
  from stale obtain old where old: "old \<in> owner_rules (b_matches b) i" "rule_keys old = keys" "rule_registry old \<noteq> None" "\<not> linked_now b old"
    by (auto simp: stale_link_def)
  with one have "r = old\<lparr>n_user_refs := n_user_refs old + 1\<rparr>" by (auto simp: one_more_def)
  moreover obtain reg' m where reg: "rule_registry old = Some (reg', m)" using old(3) by auto
  moreover have "rule_counted old = (\<not> m)" using rules_invD(7) [OF inv] old(1) reg by (auto simp: rules_counted_def)
  ultimately have r: "rule_registry r = Some (reg', m)" "rule_counted r = (\<not> m)" by simp_all
  have none: "match_rule_link le w1 i r True reg False = None" if "peer_link_target b keys = LINK_AT reg \<or> peer_link_target b keys = LINK_AT_NAME n reg" for le reg n
    using that old(2,4) reg r by (auto simp: match_rule_link_def linked_now_def)
  show ?thesis
  proof (cases "peer_link_target b keys")
    case LINK_NOWHERE
    with old(2,4) show ?thesis by (simp add: linked_now_def)
  next
    case (LINK_AT reg)
    with link find tgt none [of reg] show ?thesis by (simp add: peer_link_match_def b1)
  next
    case (LINK_AT_NAME n reg)
    note names = rules_invD(5,6) [OF inv]
    from name_registry_ref_name_inv [OF names(1), of "pe_name env" n] obtain x nw where
      ref: "name_registry_ref_name (pe_name env) (b_names b) n = Some (x, nw)" "x \<noteq> NAME_OK \<Longrightarrow> nw = b_names b" by metis
    with link find tgt LINK_AT_NAME none [of reg n] have "x \<noteq> NAME_OK" "good = False" "b2 = b1"
      by (auto simp: peer_link_match_def b1 Let_def split: if_splits)
    with w1 names show ?thesis by (simp add: undo_ready_def b1)
  qed
qed

lemma rule_refs_cong: "owner_rules w' = owner_rules w \<Longrightarrow> rule_refs w' = rule_refs w"
  by (simp add: rule_refs_def fun_eq_iff)

lemma ref_rule_keys:
  assumes inv: "match_inv w" and r: "match_owner_ref_rule env w us i user s a = Some (Inr keys, w1, us1)"
  shows "length s \<le> MATCH_RULE_LENGTH_MAX \<and> (\<exists>n. match_keys_init s (length s + 1) a = Some (Inr (keys, n)))"
proof -
  from r obtain q us0 where q: "match_rule_new env us user s a = Some (Inr q, us0)"
    and keys: "(case rb_find match_rule_compare (rule_keys q) (rule_tree (match_owners w i)) of
      Some old \<Rightarrow> keys = rule_keys old | None \<Rightarrow> keys = rule_keys q)"
    by (auto simp: match_owner_ref_rule_def Let_def split: bind_splits sum.splits option.splits)
  from q obtain n where n: "match_keys_init s (length s + 1) a = Some (Inr (rule_keys q, n))" "length s \<le> MATCH_RULE_LENGTH_MAX"
    by (auto simp: match_rule_new_def Let_def split: bind_splits sum.splits if_splits)
  from n(2) have "keys_ok (rule_keys q)" by (rule match_keys_init_total [where a = a]) (use n(1) in auto)
  then have "keys = rule_keys q" using keys find_rule_iff [OF inv] by (auto split: option.splits)
  with n show ?thesis by blast
qed

definition rule_string :: "string \<Rightarrow> match_keys \<Rightarrow> bool" where
  "rule_string s keys \<longleftrightarrow> length s \<le> MATCH_RULE_LENGTH_MAX \<and> (\<exists>n. match_keys_init s (length s + 1) False = Some (Inr (keys, n)))"

lemma peer_add_match_ok:
  fixes b :: "('a, 's) bus"
  assumes inv: "rules_inv eu C ext b" and p: "b_peers b i = Some p" and can: "can_match (b_users b) (Some (p_user p))"
  shows "case peer_add_match env b i s of
      None \<Rightarrow> \<exists>keys. rule_string s keys \<and> stale_link b i keys
    | Some (r, b') \<Rightarrow> \<exists>keys. add_result eu C ext b i keys r b' \<and> (r = PEER_OK \<longrightarrow> rule_string s keys \<and> \<not> stale_link b i keys)"
proof (rule ref_rule_step [OF rules_invD(1,4) [OF inv] can, of "pe_match env" i s False], goal_cases)
  case refused: (1 e us1)
  let ?b' = "b\<lparr>b_users := us1\<rparr>"
  have "rules_inv eu C ext ?b'"
    by (rule rules_inv_same [OF inv]) (use refused(2) rules_invD [OF inv] in simp_all)
  moreover have "\<exists>r. r \<noteq> PEER_OK \<and> peer_add_match env b i s = Some (r, ?b')"
    using p refused(1) by (auto simp: peer_add_match_def)
  ultimately show ?thesis by (auto simp: add_result_def)
next
  case added: (2 keys r X w1 us1)
  let ?b1 = "b\<lparr>b_matches := w1, b_users := us1\<rparr>"
  have parsed: "rule_string s keys" using ref_rule_keys [OF rules_invD(1) [OF inv] added(1)] by (simp add: rule_string_def)
  show ?thesis
  proof (cases "peer_link_match env ?b1 i keys False")
    case None
    with link_step [OF inv _ added(4,6,2,3,5) refl, of env] have "stale_link b i keys" by auto
    moreover have "peer_add_match env b i s = None" using p added(1) None by (simp add: peer_add_match_def)
    ultimately show ?thesis using parsed by auto
  next
    case (Some x)
    then obtain good b2 where l: "peer_link_match env ?b1 i keys False = Some (good, b2)" by (cases x) simp
    have step: "if good then \<not> stale_link b i keys \<and> add_result eu C ext b i keys PEER_OK b2 else undo_ready eu C ext b i X r b2"
    proof (cases "stale_link b i keys")
      case True
      from link_step_stale [OF inv True added(4,6,2,3,5) refl l] show ?thesis by simp
    next
      case False
      from link_step [OF inv False added(4,6,2,3,5) refl, of env] l False show ?thesis by auto
    qed
    show ?thesis
    proof (cases good)
      case True
      with p added(1) l step have "peer_add_match env b i s = Some (PEER_OK, b2)" "add_result eu C ext b i keys PEER_OK b2"
        by (simp_all add: peer_add_match_def)
      with parsed step True show ?thesis by auto
    next
      case False
      with step have u: "undo_ready eu C ext b i X r b2" by simp
      have "rule_keys r = keys" using added(4) by (simp add: one_more_def)
      then have find: "find_owned_rule b2 i keys = Some r"
        using u find_rule_iff [OF _ added(6), of "b_matches b2" i r] by (simp add: undo_ready_def find_owned_rule_def)
      from u add_undone [OF added(4), of "b_matches b2" "b_users b2" eu C] obtain w3 us3 where
        d: "match_rule_user_unref (b_matches b2) (b_users b2) i r = Some (w3, us3)" "match_inv w3"
          "user_inv us3 eu (all_charges w3 + C)" "owner_rules w3 = owner_rules (b_matches b)"
        by (auto simp: undo_ready_def)
      let ?b3 = "b2\<lparr>b_matches := w3, b_users := us3\<rparr>"
      have "rules_inv eu C ext ?b3"
        by (rule rules_inv_same [OF inv]) (use d u in \<open>simp_all add: undo_ready_def\<close>)
      moreover have "peer_add_match env b i s = Some (PEER_FAILED, ?b3)"
        using p added(1) l False find d(1) by (simp add: peer_add_match_def)
      ultimately show ?thesis
        using u d(4) by (auto simp: add_result_def undo_ready_def)
    qed
  qed
qed

section \<open>Dropping a rule\<close>

text \<open>
  A rule whose name reference is found again when the rule is dropped. The string of an address
  that starts with a colon and is no unique name is not.
\<close>

definition name_found :: "match_keys \<Rightarrow> bool" where
  "name_found keys \<longleftrightarrow> (\<forall>n. name_of_keys keys = Some n \<longrightarrow> take 1 n \<noteq> '':'')"

lemma id_has_colon: "address_from_string s = ADDRESS_TYPE_ID i \<Longrightarrow> take 1 s = '':''"
  by (auto simp: address_from_string_def Let_def split: list.splits if_splits prod.splits)

lemma name_by_address_cases:
  obtains "name_by_address s = None" "take 1 s = '':''" "placed_by_address s P F N reg \<longleftrightarrow> reg = P (sender_id_of (Some s)) \<or> reg = F"
  | "name_by_address s = Some s" "placed_by_address s P F N reg \<longleftrightarrow> reg = N s"
  using id_has_colon [of s] that
  by (cases "address_from_string s") (auto simp: name_by_address_def placed_by_address_def sender_id_of_def)

lemma rule_to_name:
  assumes fits: "rule_fits r"
  shows "peer_match_rule_to_name r = Some (if name_found (rule_keys r) then name_of_keys (rule_keys r) else None)"
proof (cases "k_sender (rule_keys r)")
  case None
  then show ?thesis by (simp add: peer_match_rule_to_name_def name_of_keys_def name_found_def)
next
  case (Some sender)
  show ?thesis
  proof (cases "sender = DBUS_DRIVER_NAME")
    case driver: True
    show ?thesis
    proof (cases "owner_changed_arg (rule_keys r)")
      case None
      with Some driver show ?thesis by (simp add: peer_match_rule_to_name_def name_of_keys_def name_found_def)
    next
      case arg: (Some a)
      show ?thesis
      proof (rule name_by_address_cases [of a PEER_NAME_OWNER_CHANGED_MATCHES DRIVER_MATCHES NAME_NAME_OWNER_CHANGED_MATCHES
            "fst (the (rule_registry r))"])
        assume "name_by_address a = None" "take 1 a = '':''"
        with Some driver arg show ?thesis by (simp add: peer_match_rule_to_name_def name_of_keys_def name_found_def)
      next
        assume a: "name_by_address a = Some a" "placed_by_address a PEER_NAME_OWNER_CHANGED_MATCHES DRIVER_MATCHES NAME_NAME_OWNER_CHANGED_MATCHES
            (fst (the (rule_registry r))) \<longleftrightarrow> fst (the (rule_registry r)) = NAME_NAME_OWNER_CHANGED_MATCHES a"
        with fits Some driver arg obtain m where "rule_registry r = Some (NAME_NAME_OWNER_CHANGED_MATCHES a, m)"
          by (cases "rule_registry r") (auto simp: rule_fits_def name_of_keys_def placed_def)
        with a Some driver arg show ?thesis by (simp add: peer_match_rule_to_name_def name_of_keys_def name_found_def)
      qed
    qed
  next
    case peer: False
    show ?thesis
    proof (rule name_by_address_cases [of sender PEER_SENDER_MATCHES WILDCARD_MATCHES NAME_SENDER_MATCHES "fst (the (rule_registry r))"])
      assume "name_by_address sender = None" "take 1 sender = '':''"
      with Some peer show ?thesis by (simp add: peer_match_rule_to_name_def name_of_keys_def name_found_def)
    next
      assume a: "name_by_address sender = Some sender" "placed_by_address sender PEER_SENDER_MATCHES WILDCARD_MATCHES NAME_SENDER_MATCHES
          (fst (the (rule_registry r))) \<longleftrightarrow> fst (the (rule_registry r)) = NAME_SENDER_MATCHES sender"
      with fits Some peer obtain m where "rule_registry r = Some (NAME_SENDER_MATCHES sender, m)"
        by (cases "rule_registry r") (auto simp: rule_fits_def name_of_keys_def placed_def)
      with a Some peer show ?thesis by (simp add: peer_match_rule_to_name_def name_of_keys_def name_found_def)
    qed
  qed
qed

text \<open>The references to names that are never released again once this rule is dropped.\<close>

definition leaks :: "match_keys \<Rightarrow> string \<Rightarrow> nat" where
  "leaks keys n = of_bool (name_of_keys keys = Some n \<and> \<not> name_found keys)"

lemma drop_rules:
  assumes inv: "rules_inv eu C ext b" and r: "r \<in> owner_rules (b_matches b) i"
  obtains w us Y where "match_rule_user_unref (b_matches b) (b_users b) i r = Some (w, us)" "match_inv w"
    "user_inv us eu (all_charges w + C)" "owner_rules w = (owner_rules (b_matches b))(i := (owner_rules (b_matches b) i - {r}) \<union> Y)"
    "rules_placed w" "rules_named w" "rules_counted w"
    "rule_refs w = (rule_refs (b_matches b))(i := (rule_refs (b_matches b) i)(rule_keys r := rule_refs (b_matches b) i (rule_keys r) - 1))"
    "\<forall>n. n_rules_at w n + of_bool (name_of_keys (rule_keys r) = Some n \<and> n_user_refs r = 1) = n_rules_at (b_matches b) n"
    "\<forall>n. extra_pins w n + of_bool (name_of_keys (rule_keys r) = Some n \<and> n_user_refs r \<noteq> 1) = extra_pins (b_matches b) n"
proof -
  let ?w = "b_matches b" and ?Y = "if n_user_refs r = 1 then {} else {r\<lparr>n_user_refs := n_user_refs r - 1\<rparr>}"
  note iw = rules_invD [OF inv]
  from match_rule_user_unref_ok [OF iw(1) r iw(4)] obtain w us where
    u: "match_rule_user_unref ?w (b_users b) i r = Some (w, us)" "match_inv w" "user_inv us eu (all_charges w + C)" by blast
  have rules: "owner_rules w = (owner_rules ?w)(i := (owner_rules ?w i - {r}) \<union> ?Y)"
    using unref_rules [OF iw(1) r iw(4) u(1)] by auto
  have ref: "n_user_refs r > 0" "rule_fits r" using match_invD(2) [OF iw(1) r] rules_fit iw(2,3,7) r by (auto simp: rule_ok_def)
  have X: "{r} \<subseteq> owner_rules ?w i" "finite ?Y" using r by auto
  have Y: "?Y \<inter> (owner_rules ?w i - {r}) = {}" "\<And>q. q \<in> {r} \<union> ?Y \<Longrightarrow> rule_keys q = rule_keys r"
    using rule_unique [OF iw(1) _ r] by (auto split: if_splits)
  have fits: "rule_fits y" if "y \<in> ?Y" for y using that ref(2) by (auto split: if_splits)
  have "\<forall>ow. \<forall>q \<in> owner_rules w ow. rule_fits q" using rules_fit [of ?w] iw(2,3,7) fits by (auto simp: rules)
  then have rp: "rules_placed w" "rules_named w" "rules_counted w" using rules_fit by blast+
  note p = pins_change [OF rules X Y(1)] and rr = rule_refs_change [OF rules X Y]
  have "rule_refs w i (rule_keys r) = rule_refs ?w i (rule_keys r) - 1" using rr(1) ref(1) by (auto split: if_splits)
  then have refs: "rule_refs w = (rule_refs ?w)(i := (rule_refs ?w i)(rule_keys r := rule_refs ?w i (rule_keys r) - 1))"
    using rr(2) by (intro ext) auto
  have "n_rules_at w n + of_bool (name_of_keys (rule_keys r) = Some n \<and> n_user_refs r = 1) = n_rules_at ?w n" for n
    using p(1) [of n] by (cases "n_user_refs r = 1") (auto split: if_splits)
  then have n1: "\<forall>n. n_rules_at w n + of_bool (name_of_keys (rule_keys r) = Some n \<and> n_user_refs r = 1) = n_rules_at ?w n" by blast
  have "extra_pins w n + of_bool (name_of_keys (rule_keys r) = Some n \<and> n_user_refs r \<noteq> 1) = extra_pins ?w n" for n
    using p(2) [of n] ref(1) by (cases "n_user_refs r = 1") (auto split: if_splits)
  then show ?thesis using that [OF u rules rp refs n1] by blast
qed

definition drop_result ::
  "(uid \<Rightarrow> nat) \<Rightarrow> user_charge multiset \<Rightarrow> (string \<Rightarrow> nat) \<Rightarrow> ('a, 's) bus \<Rightarrow> owner_id \<Rightarrow> match_keys \<Rightarrow> ('a, 's) bus \<Rightarrow> bool" where
  "drop_result eu C ext b i keys b' \<longleftrightarrow> rules_inv eu C (\<lambda>n. ext n + leaks keys n) b' \<and> same_state (b_names b) (b_names b') \<and>
     rule_refs (b_matches b') = (rule_refs (b_matches b))(i := (rule_refs (b_matches b) i)(keys := rule_refs (b_matches b) i keys - 1))"

lemma peer_drop_match_ok:
  fixes b :: "('a, 's) bus"
  assumes inv: "rules_inv eu C ext b" and r: "r \<in> owner_rules (b_matches b) i"
  shows "\<exists>b'. peer_drop_match b i r = Some b' \<and> drop_result eu C ext b i (rule_keys r) b'"
proof -
  let ?w = "b_matches b"
  note iw = rules_invD [OF inv]
  obtain w us Y where u: "match_rule_user_unref ?w (b_users b) i r = Some (w, us)" "match_inv w"
    "user_inv us eu (all_charges w + C)" "owner_rules w = (owner_rules ?w)(i := (owner_rules ?w i - {r}) \<union> Y)"
    "rules_placed w" "rules_named w" "rules_counted w"
    and refs: "rule_refs w = (rule_refs ?w)(i := (rule_refs ?w i)(rule_keys r := rule_refs ?w i (rule_keys r) - 1))"
    and cnt: "\<forall>n. n_rules_at w n + of_bool (name_of_keys (rule_keys r) = Some n \<and> n_user_refs r = 1) = n_rules_at ?w n"
      "\<forall>n. extra_pins w n + of_bool (name_of_keys (rule_keys r) = Some n \<and> n_user_refs r \<noteq> 1) = extra_pins ?w n"
    by (rule drop_rules [OF inv r])
  have fits: "rule_fits r" using rules_fit iw(2,3,7) r by blast
  have reg: "registry_name (rule_registry r) = name_of_keys (rule_keys r)" using iw(3) r by (simp add: rules_named_def)
  show ?thesis
  proof (cases "name_of_keys (rule_keys r)")
    case None
    let ?b' = "b\<lparr>b_matches := w, b_users := us\<rparr>"
    have eq: "n_rules_at w = n_rules_at ?w" "extra_pins w = extra_pins ?w" "leaks (rule_keys r) = (\<lambda>_. 0)"
      using cnt None by (auto simp: fun_eq_iff leaks_def)
    have "rules_inv eu C ext ?b'" using u iw(5,6) eq by (simp add: rules_inv_def)
    with refs eq have "drop_result eu C ext b i (rule_keys r) ?b'" by (simp add: drop_result_def)
    moreover have "peer_drop_match b i r = Some ?b'"
      using rule_to_name [OF fits] None u(1) reg by (simp add: peer_drop_match_def Let_def)
    ultimately show ?thesis by blast
  next
    case (Some n)
    let ?k = "\<lambda>m. ext m + extra_pins w m" and ?c = "rules_at_name w n"
    have c: "?c = n_rules_at w n" by (rule rules_at_name_count [OF u(2,6)])
    have "r \<in> name_rules ?w i n" using r Some by (simp add: name_rules_def)
    then have "0 < card (name_rules ?w i n)" by (auto simp: card_gt_0_iff)
    then have "0 < n_rules_at ?w n" unfolding n_rules_at_def by (simp add: sum_pos2)
    with iw(6) have "matches_of (b_names b) n \<noteq> 0" by simp
    then obtain e where e: "names (b_names b) n = Some e" by (cases "names (b_names b) n") (auto simp: matches_of_def)
    have em: "n_matches e = n_rules_at ?w n" using iw(6) e by (auto simp: matches_of_def fun_eq_iff split: option.splits)
    have "(ext n + extra_pins ?w n) + n_matches e = Suc (?k n) + ?c"
      using cnt [rule_format, of n] Some by (cases "n_user_refs r = 1") (auto simp: em c)
    from set_matches_inv [OF iw(5) e this] have
      s: "name_inv ((\<lambda>m. ext m + extra_pins ?w m)(n := Suc (?k n))) (\<lambda>_. {}) (upd_name n (\<lambda>e. e\<lparr>n_matches := ?c\<rparr>) (b_names b))"
        "matches_of (upd_name n (\<lambda>e. e\<lparr>n_matches := ?c\<rparr>) (b_names b)) = (matches_of (b_names b))(n := ?c)" .
    let ?nw = "upd_name n (\<lambda>e. e\<lparr>n_matches := ?c\<rparr>) (b_names b)"
    have k: "(\<lambda>m. ext m + extra_pins ?w m)(n := Suc (?k n)) = ?k(n := Suc (?k n))"
    proof
      fix m
      show "((\<lambda>m. ext m + extra_pins ?w m)(n := Suc (?k n))) m = (?k(n := Suc (?k n))) m"
        using cnt(2) [rule_format, of m] Some by (cases "m = n") auto
    qed
    have m: "(matches_of (b_names b))(n := ?c) = n_rules_at w"
    proof
      fix m
      show "((matches_of (b_names b))(n := ?c)) m = n_rules_at w m" using cnt(1) [rule_format, of m] Some iw(6) c by (cases "m = n") auto
    qed
    have same: "same_state (b_names b) ?nw" using e by (auto simp: same_state_def queue_def fun_eq_iff)
    let ?b1 = "b\<lparr>b_matches := w, b_users := us, b_names := ?nw\<rparr>"
    have code: "peer_drop_match b i r =
        (if name_found (rule_keys r) then map_option (\<lambda>nw. ?b1\<lparr>b_names := nw\<rparr>) (name_unref ?nw n) else Some ?b1)"
      using rule_to_name [OF fits] Some u(1) reg
      by (simp add: peer_drop_match_def name_matches_sync_def Let_def split: option.split bind_split)
    show ?thesis
    proof (cases "name_found (rule_keys r)")
      case True
      from s(1) [unfolded k] obtain nw where n: "name_unref ?nw n = Some nw" "name_inv (?k(n := ?k n)) (\<lambda>_. {}) nw"
        "same_state ?nw nw" "matches_of nw = matches_of ?nw" by (rule unref_inv)
      have "?k(n := ?k n) = ?k" by auto
      with n(2) have "name_inv ?k (\<lambda>_. {}) nw" by (simp only:)
      then have "rules_inv eu C ext (?b1\<lparr>b_names := nw\<rparr>)" using u n(4) s(2) m by (simp add: rules_inv_def)
      moreover have "leaks (rule_keys r) = (\<lambda>_. 0)" using True by (simp add: leaks_def fun_eq_iff)
      ultimately show ?thesis using code True n refs same_state_trans [OF same n(3)] by (simp add: drop_result_def)
    next
      case False
      have "(\<lambda>m. ext m + leaks (rule_keys r) m + extra_pins w m) = ?k(n := Suc (?k n))"
        using Some False by (auto simp: fun_eq_iff leaks_def)
      then have "rules_inv eu C (\<lambda>m. ext m + leaks (rule_keys r) m) ?b1" using u s m k by (simp add: rules_inv_def)
      then show ?thesis using code False refs same by (simp add: drop_result_def)
    qed
  qed
qed

lemma peer_remove_match_ok:
  fixes b :: "('a, 's) bus"
  assumes inv: "rules_inv eu C ext b"
  shows "\<exists>r b'. peer_remove_match env b i s = Some (r, b') \<and>
    (if r = PEER_OK then \<exists>keys n. match_keys_init s (length s + 1) False = Some (Inr (keys, n)) \<and>
        0 < rule_refs (b_matches b) i keys \<and> drop_result eu C ext b i keys b'
     else b' = b)"
proof -
  note iw = rules_invD [OF inv]
  consider (bad) e where "match_keys_new (pe_keys env) s = Some (Inl e)"
    | (good) keys n where "match_keys_new (pe_keys env) s = Some (Inr (keys, n))" "keys_ok keys"
        "match_keys_init s (length s + 1) False = Some (Inr (keys, n))"
  proof (cases "length s \<le> MATCH_RULE_LENGTH_MAX")
    case True
    from this show ?thesis
      by (rule match_keys_init_total [where a = False])
        (use True bad good in \<open>cases "pe_keys env"; auto simp: match_keys_new_def\<close>)+
  next
    case False
    then show ?thesis using bad by (simp add: match_keys_new_def)
  qed
  then show ?thesis
  proof cases
    case (bad e)
    then show ?thesis by (auto simp: peer_remove_match_def match_owner_find_rule_def)
  next
    case (good keys n)
    show ?thesis
    proof (cases "rb_find match_rule_compare keys (rule_tree (match_owners (b_matches b) i))")
      case None
      with good show ?thesis by (auto simp: peer_remove_match_def match_owner_find_rule_def)
    next
      case (Some r)
      with find_rule_iff [OF iw(1) good(2)] have r: "r \<in> owner_rules (b_matches b) i" "rule_keys r = keys" by blast+
      have "0 < n_user_refs r" using match_invD(2) [OF iw(1) r(1)] by (simp add: rule_ok_def)
      then have "0 < rule_refs (b_matches b) i keys"
        unfolding rule_refs_def using r by (intro sum_pos2 [of _ r]) auto
      with peer_drop_match_ok [OF inv r(1)] r(2) good Some show ?thesis
        by (auto simp: peer_remove_match_def match_owner_find_rule_def)
    qed
  qed
qed

section \<open>Dropping all rules\<close>

lemma drop_less:
  assumes inv: "rules_inv eu C ext b" and r: "r \<in> owner_rules (b_matches b) i" and d: "peer_drop_match b i r = Some b'"
  shows "(\<Sum>q \<in> owner_rules (b_matches b') i. n_user_refs q) < (\<Sum>q \<in> owner_rules (b_matches b) i. n_user_refs q)"
    and "j \<noteq> i \<Longrightarrow> owner_rules (b_matches b') j = owner_rules (b_matches b) j"
    and "b_peers b' = b_peers b \<and> b_replies b' = b_replies b \<and> b_ids b' = b_ids b"
proof -
  let ?w = "b_matches b"
  note iw = rules_invD [OF inv]
  from d obtain w us where u: "match_rule_user_unref ?w (b_users b) i r = Some (w, us)" and w: "b_matches b' = w"
    and same: "b_peers b' = b_peers b \<and> b_replies b' = b_replies b \<and> b_ids b' = b_ids b"
    by (auto simp: peer_drop_match_def name_matches_sync_def Let_def split: bind_splits option.splits)
  note rules = unref_rules [OF iw(1) r iw(4) u]
  have ref: "0 < n_user_refs r" using match_invD(2) [OF iw(1) r] by (simp add: rule_ok_def)
  have all: "(\<Sum>q \<in> owner_rules ?w i. n_user_refs q) = n_user_refs r + (\<Sum>q \<in> owner_rules ?w i - {r}. n_user_refs q)"
    using r by (simp add: sum.remove)
  have "r\<lparr>n_user_refs := n_user_refs r - 1\<rparr> \<notin> owner_rules ?w i - {r}" using rule_unique [OF iw(1) _ r] by auto
  with ref all show "(\<Sum>q \<in> owner_rules (b_matches b') i. n_user_refs q) < (\<Sum>q \<in> owner_rules ?w i. n_user_refs q)"
    by (simp add: w rules)
  show "j \<noteq> i \<Longrightarrow> owner_rules (b_matches b') j = owner_rules ?w j" by (simp add: w rules)
  show "b_peers b' = b_peers b \<and> b_replies b' = b_replies b \<and> b_ids b' = b_ids b" by (rule same)
qed

lemma peer_flush_matches_ok:
  fixes b :: "('a, 's) bus"
  assumes root: "\<And>t. t \<noteq> [] \<Longrightarrow> root t < length t" and "rules_inv eu C ext b"
  shows "\<exists>b' ext'. peer_flush_matches root i b = Some b' \<and> rules_inv eu C ext' b' \<and> same_state (b_names b) (b_names b') \<and>
    owner_rules (b_matches b') = (owner_rules (b_matches b))(i := {}) \<and> b_peers b' = b_peers b \<and> b_replies b' = b_replies b \<and>
    ((\<forall>r \<in> owner_rules (b_matches b) i. name_found (rule_keys r)) \<longrightarrow> ext' = ext)"
  using assms(2)
proof (induction "\<Sum>q \<in> owner_rules (b_matches b) i. n_user_refs q" arbitrary: b ext rule: less_induct)
  case less
  let ?t = "rule_tree (match_owners (b_matches b) i)"
  show ?case
  proof (cases "?t = []")
    case True
    then have "owner_rules (b_matches b) i = {}" by (simp add: owner_rules_def)
    with True less.prems show ?thesis
      by (intro exI [of _ b] exI [of _ ext]) (auto simp: peer_flush_matches.simps [of root i b] fun_eq_iff)
  next
    case False
    let ?r = "?t ! root ?t"
    have r: "?r \<in> owner_rules (b_matches b) i" using root [OF False] by (simp add: owner_rules_def)
    from peer_drop_match_ok [OF less.prems r] obtain b1 where
      d: "peer_drop_match b i ?r = Some b1" "drop_result eu C ext b i (rule_keys ?r) b1" by blast
    let ?ext = "\<lambda>n. ext n + leaks (rule_keys ?r) n"
    from d(2) have inv1: "rules_inv eu C ?ext b1" "same_state (b_names b) (b_names b1)" by (simp_all add: drop_result_def)
    note l = drop_less [OF less.prems r d(1)]
    from less.hyps [OF l(1) inv1(1)] obtain b' ext' where
      f: "peer_flush_matches root i b1 = Some b'" "rules_inv eu C ext' b'" "same_state (b_names b1) (b_names b')"
        "owner_rules (b_matches b') = (owner_rules (b_matches b1))(i := {})" "b_peers b' = b_peers b1" "b_replies b' = b_replies b1"
        "(\<forall>r \<in> owner_rules (b_matches b1) i. name_found (rule_keys r)) \<longrightarrow> ext' = ?ext" by blast
    have "peer_flush_matches root i b = Some b'"
      using False d(1) f(1) by (simp add: peer_flush_matches.simps [of root i b] Let_def)
    moreover have "owner_rules (b_matches b') = (owner_rules (b_matches b))(i := {})"
      using f(4) l(2) by (auto simp: fun_eq_iff)
    moreover have "ext' = ext" if found: "\<forall>r \<in> owner_rules (b_matches b) i. name_found (rule_keys r)"
    proof -
      have "rule_keys ` owner_rules (b_matches b1) i \<subseteq> rule_keys ` owner_rules (b_matches b) i"
      proof
        fix k assume "k \<in> rule_keys ` owner_rules (b_matches b1) i"
        then obtain q where q: "q \<in> owner_rules (b_matches b1) i" "rule_keys q = k" by blast
        have "0 < n_user_refs q" using match_invD(2) [OF rules_invD(1) [OF inv1(1)] q(1)] by (simp add: rule_ok_def)
        then have "0 < rule_refs (b_matches b1) i k" unfolding rule_refs_def using q by (intro sum_pos2 [of _ q]) auto
        then have "0 < rule_refs (b_matches b) i k" using d(2) by (auto simp: drop_result_def split: if_splits)
        then have "{q \<in> owner_rules (b_matches b) i. rule_keys q = k} \<noteq> {}" unfolding rule_refs_def by (metis less_irrefl sum.empty)
        then show "k \<in> rule_keys ` owner_rules (b_matches b) i" by blast
      qed
      with found f(7) r have "ext' = ?ext" by (metis (no_types, lifting) image_iff imageI subsetD)
      also have "\<dots> = ext" using found r by (simp add: leaks_def)
      finally show ?thesis .
    qed
    ultimately show ?thesis using f l(3) same_state_trans [OF inv1(2) f(3)] by auto
  qed
qed

section \<open>Properties of the rules of peers\<close>


lemma drop_exact:
  assumes inv: "rules_inv eu C ext b" and r: "r \<in> owner_rules (b_matches b) i" and d: "peer_drop_match b i r = Some b'"
  shows "owner_rules (b_matches b') = (owner_rules (b_matches b))(i := (if n_user_refs r = 1 then owner_rules (b_matches b) i - {r}
    else insert (r\<lparr>n_user_refs := n_user_refs r - 1\<rparr>) (owner_rules (b_matches b) i - {r})))"
proof -
  from d obtain w us where "match_rule_user_unref (b_matches b) (b_users b) i r = Some (w, us)" "b_matches b' = w"
    by (auto simp: peer_drop_match_def name_matches_sync_def Let_def split: bind_splits option.splits)
  with unref_rules [OF rules_invD(1) [OF inv] r rules_invD(4) [OF inv]] show ?thesis by blast
qed

text \<open>Dropping the reference that was added leaves the rules of before, of which one may be linked by now.\<close>

lemma dropped_again:
  assumes one: "one_more w i keys X r" and q: "q = relinked b r"
  shows "(if n_user_refs q = 1 then (owner_rules w i - X) \<union> {q} - {q}
      else insert (q\<lparr>n_user_refs := n_user_refs q - 1\<rparr>) ((owner_rules w i - X) \<union> {q} - {q})) =
    (\<lambda>r. if rule_keys r = keys then relinked b r else r) ` owner_rules w i"
proof -
  have keys: "rule_keys q = keys" using one by (simp add: one_more_def q)
  have others: "owner_rules w i - X \<union> {q} - {q} = owner_rules w i - X" using one keys by (auto simp: one_more_def)
  have same: "(\<lambda>r. if rule_keys r = keys then relinked b r else r) ` (owner_rules w i - X) = owner_rules w i - X"
    using one by (auto simp: one_more_def image_iff)
  from one consider "X = {}" "n_user_refs r = 1"
    | old where "X = {old}" "r = old\<lparr>n_user_refs := n_user_refs old + 1\<rparr>" "n_user_refs old > 0" "old \<in> owner_rules w i"
    unfolding one_more_def by auto
  then show ?thesis
  proof cases
    case 1
    with same others show ?thesis by (simp add: q)
  next
    case 2
    let ?f = "\<lambda>r. if rule_keys r = keys then relinked b r else r"
    have "rule_keys old = keys" using 2(2) keys by (simp add: q)
    moreover have "insert old (owner_rules w i - X) = owner_rules w i" using 2(1,4) by blast
    then have "?f ` owner_rules w i = insert (?f old) (?f ` (owner_rules w i - X))"
      using image_insert [of ?f old "owner_rules w i - X"] by (simp only:)
    ultimately have "?f ` owner_rules w i = insert (relinked b old) (owner_rules w i - X)" using same by simp
    moreover have "q\<lparr>n_user_refs := n_user_refs q - 1\<rparr> = relinked b old" "n_user_refs q \<noteq> 1"
      using 2(2,3) by (simp_all add: q relinked_refs)
    ultimately show ?thesis unfolding others by (simp only: if_False)
  qed
qed


text \<open>
  C12: a peer that disconnects leaves no rule behind. The loop that drops the rules of a peer,
  one reference per round and always at the root of the tree, ends, wherever the balancing puts
  the root; no round aborts. Afterwards the peer has no rule, the rules of all other peers are
  as before and the bus is consistent; no reference to a name is left over unless a rule had a
  malformed unique name as its address.
\<close>
theorem peer_flush_matches_ends:
  assumes "\<And>t. t \<noteq> [] \<Longrightarrow> root t < length t" "rules_inv eu C ext b"
  shows "\<exists>b' ext'. peer_flush_matches root i b = Some b' \<and> rules_inv eu C ext' b' \<and> same_state (b_names b) (b_names b') \<and>
    owner_rules (b_matches b') = (owner_rules (b_matches b))(i := {}) \<and> b_peers b' = b_peers b \<and> b_replies b' = b_replies b \<and>
    ((\<forall>r \<in> owner_rules (b_matches b) i. name_found (rule_keys r)) \<longrightarrow> ext' = ext)"
  by (rule peer_flush_matches_ok [OF assms])

text \<open>
  A reference is lost. Removing a rule whose address starts with a colon but is no unique name,
  such as \<open>sender=':2.1'\<close>, does not drop the reference to the name object that was created
  for it: the name is still there when no rule is linked at it any more and nobody owns it.
\<close>
theorem peer_remove_match_leaks:
  assumes "rules_inv eu C ext b" "r \<in> owner_rules (b_matches b) i" "name_of_keys (rule_keys r) = Some n" "take 1 n = '':''"
  shows "\<exists>b'. peer_drop_match b i r = Some b' \<and> rules_inv eu C (ext(n := ext n + 1)) b' \<and> names (b_names b') n \<noteq> None"
proof -
  from peer_drop_match_ok [OF assms(1,2)] obtain b' where
    d: "peer_drop_match b i r = Some b'" "drop_result eu C ext b i (rule_keys r) b'" by blast
  have "(\<lambda>m. ext m + leaks (rule_keys r) m) = ext(n := ext n + 1)"
    using assms(3,4) by (auto simp: leaks_def name_found_def fun_eq_iff)
  with d(2) have inv: "rules_inv eu C (ext(n := ext n + 1)) b'" by (simp add: drop_result_def)
  have "name_ok ((ext(n := ext n + 1)) n + extra_pins (b_matches b') n) {} (b_names b') n"
    using rules_invD(5) [OF inv] unfolding name_inv_def by blast
  then have "names (b_names b') n \<noteq> None" by (auto simp: name_ok_def split: option.splits)
  with d(1) inv show ?thesis by blast
qed

text \<open>
  Adding a rule can abort the bus. A rule on the unique name of a peer that is not connected yet
  is linked with the general rules; when that peer has appeared, adding the same rule again
  asserts that the rule is in the registry of that peer, which it is not.
\<close>
theorem peer_link_match_aborts:
  assumes "find_owned_rule b i keys = Some r" "rule_registry r = Some (WILDCARD_MATCHES, False)"
    "k_sender keys = Some sender" "address_from_string sender = ADDRESS_TYPE_ID j" "peer_registry_find_peer b j \<noteq> None"
  shows "peer_link_match env b i keys False = None"
proof -
  have "sender \<noteq> DBUS_DRIVER_NAME" using assms(4) by auto
  with assms(3-5) have "peer_link_target b keys = LINK_AT (PEER_SENDER_MATCHES j)"
    by (simp add: peer_link_target_def link_target_at_address_def)
  with assms(1,2) show ?thesis by (simp add: peer_link_match_def match_rule_link_def)
qed

text \<open>
  A rule on a peer that is connected but has not said hello yet is linked nowhere, as if that
  peer were gone for good: its id is already allocated, but it is not found.
\<close>
theorem peer_link_match_ignores_connecting:
  assumes "find_owned_rule b i keys = Some r" "k_sender keys = Some sender" "address_from_string sender = ADDRESS_TYPE_ID j"
    "b_peers b j = Some p" "\<not> p_registered p" "j < b_ids b"
  shows "peer_link_match env b i keys False = Some (True, b)"
proof -
  have "sender \<noteq> DBUS_DRIVER_NAME" using assms(3) by auto
  with assms(2-6) have "peer_link_target b keys = LINK_NOWHERE"
    by (simp add: peer_link_target_def link_target_at_address_def peer_registry_find_peer_def)
  with assms(1) show ?thesis by (simp add: peer_link_match_def)
qed

section \<open>Witnesses\<close>

text \<open>A bus with one peer of user 1, and the same bus with one wildcard subscription of that peer.\<close>

definition some_peer :: "(unit, unit) peer" where
  "some_peer = \<lparr>p_user = 1, p_pid = 1, p_pid_fd = -1, p_gids = [], p_seclabel = [], p_charge0 = user_charge_init,
     p_charge1 = user_charge_init, p_charge2 = user_charge_init, p_connection = some_connection [],
     p_registered = True, p_monitor = False, p_policy = None\<rparr>"

definition some_bus :: "(unit, unit) bus" where
  "some_bus = \<lparr>b_user = 0, b_users = one_user 4 [9999, 9, 9, 9] 1, b_names = name_registry_init, b_matches = match_start,
     b_replies = no_replies, b_peers = [7 \<mapsto> some_peer], b_ids = 8, b_n_peers = 1, b_n_registered = 1, b_n_monitors = 0,
     b_dispatch = some_dispatch, b_policies = \<lparr>next_batch = 0, n_allocs = 0, batches = Map.empty\<rparr>\<rparr>"

definition some_peer_env :: peer_env where
  "some_peer_env = \<lparr>pe_socket = some_env, pe_name = \<lparr>mem_name = True, mem_ownership = True, mem_usage = True, log_works = True\<rparr>,
     pe_match = plenty, pe_link = full_memory, pe_keys = True, pe_slot = True, pe_slot_usage = True, pe_log = True\<rparr>"

lemma no_rules: "owner_rules match_start = (\<lambda>_. {})" "n_rules_at match_start = (\<lambda>_. 0)" "extra_pins match_start = (\<lambda>_. 0)"
  by (simp_all add: owner_rules_def match_start_def match_owner_init_def n_rules_at_def extra_pins_def name_rules_def fun_eq_iff)

lemma some_bus_sel [simp]:
  "b_matches some_bus = match_start" "b_names some_bus = name_registry_init" "b_users some_bus = one_user 4 [9999, 9, 9, 9] 1"
  "b_peers some_bus 7 = Some some_peer" "p_user some_peer = 1"
  by (simp_all add: some_bus_def some_peer_def)

lemma some_bus_inv: "rules_inv ((\<lambda>_. 0)(1 := 1)) {#} (\<lambda>_. 0) some_bus"
proof -
  have "matches_of name_registry_init = (\<lambda>_. 0)" by (simp add: matches_of_def name_registry_init_def fun_eq_iff)
  moreover have "name_inv (\<lambda>_. 0) (\<lambda>_. {}) name_registry_init" using name_registry_init_inv by blast
  ultimately show ?thesis
    using match_start_inv(1) one_user_start
    by (simp add: rules_inv_def rules_placed_def rules_named_def rules_counted_def no_rules)
qed

theorem peer_flush_matches_ends_witness:
  "\<exists>b' ext'. peer_flush_matches (\<lambda>t. length t div 2) 7 some_bus = Some b' \<and> rules_inv ((\<lambda>_. 0)(1 := 1)) {#} ext' b' \<and>
     owner_rules (b_matches b') 7 = {}"
  using peer_flush_matches_ends [OF _ some_bus_inv, of "\<lambda>t. length t div 2" 7] by auto

lemma one_subscription:
  obtains w where "match_inv w" "owner_rules w = (\<lambda>_. {})(7 := {one_rule\<lparr>rule_registry := Some (WILDCARD_MATCHES, False), rule_counted := True\<rparr>})"
proof -
  let ?w = "upd_owner_rules 7 (rb_add match_rule_compare (rule_keys one_rule) one_rule) match_start"
  have "keys_ok (rule_keys one_rule)" "rule_ok one_rule" "rule_registry one_rule = None"
    by (simp_all add: one_rule_def match_keys_null_ok rule_ok_def)
  note add = match_inv_add [OF match_start_inv(1) this, of 7]
  have w: "match_inv ?w" using add by (simp add: rb_find_def match_start_def match_owner_init_def)
  have "owner_rules ?w = (\<lambda>_. {})(7 := {one_rule})"
    by (auto simp: owner_rules_def fun_eq_iff match_start_def match_owner_init_def set_rb_add)
  moreover from this have "one_rule \<in> owner_rules ?w 7" by simp
  moreover from match_rule_link_ok [OF w this, of WILDCARD_MATCHES True full_memory False] obtain w' where
    "match_rule_link full_memory ?w 7 one_rule True WILDCARD_MATCHES False = Some (True, w')" "match_inv w'"
    by (auto simp: one_rule_def env_ok_def full_memory_def)
  ultimately show ?thesis
    using that link_rules [OF w, of one_rule 7 full_memory True WILDCARD_MATCHES False True w'] by (auto simp: one_rule_def)
qed

theorem bus_broadcast_exact_witness:
  "\<exists>b :: (unit, unit) bus. set (bus_get_broadcast_destinations b [] (Some (PEER_SENDER_MATCHES 7)) (Some 7) sample_metadata) = {7}"
proof -
  obtain w where w: "match_inv w"
    "owner_rules w = (\<lambda>_. {})(7 := {one_rule\<lparr>rule_registry := Some (WILDCARD_MATCHES, False), rule_counted := True\<rparr>})"
    by (rule one_subscription)
  let ?b = "some_bus\<lparr>b_matches := w\<rparr>"
  have keys: "rule_keys one_rule = MATCH_KEYS_NULL" "k_sender MATCH_KEYS_NULL = None"
    by (simp_all add: one_rule_def MATCH_KEYS_NULL_def)
  have p: "rules_placed w" by (simp add: rules_placed_def w(2) placed_def keys)
  have m: "match_keys_match_metadata MATCH_KEYS_NULL sample_metadata" by code_simp
  have n: "name_inv (\<lambda>_. 0) (\<lambda>_. {}) name_registry_init" "name_primary name_registry_init DBUS_DRIVER_NAME = None"
    using name_registry_init_inv by (auto simp: name_primary_def queue_def name_registry_init_def c_list_first_def)
  have "md_sender_id sample_metadata = 7" by (simp add: sample_metadata_def)
  with bus_broadcast_exact [of ?b "\<lambda>_. 0" sample_metadata 7] w p n m
  have "set (bus_get_broadcast_destinations ?b [] (Some (PEER_SENDER_MATCHES 7)) (Some 7) sample_metadata) = {7}"
    by (auto simp: keys sender_denotes_def split: if_splits)
  then show ?thesis by blast
qed

lemma some_bus_adds: "\<exists>b1. peer_add_match some_peer_env some_bus 7 [] = Some (PEER_OK, b1)"
proof -
  have parse: "match_keys_init [] (length ([] :: string) + 1) False = Some (Inr (MATCH_KEYS_NULL, 0))" by code_simp
  have good: "map_option (\<lambda>(x, _). \<not> isl x) (match_owner_ref_rule plenty match_start (one_user 4 [9999, 9, 9, 9] 1) 7 (Some 1) [] False) = Some True"
    by code_simp
  show ?thesis
  proof (rule ref_rule_step [OF match_start_inv(1) one_user_start can_match_one_user, of plenty 7 "[]" False], goal_cases)
    case (1 e us1)
    with good show ?case by simp
  next
    case (2 keys r X w1 us1)
    have keys: "keys = MATCH_KEYS_NULL" using ref_rule_keys [OF match_start_inv(1) 2(1)] parse by simp
    have r: "r \<in> owner_rules w1 7" "rule_keys r = keys" "rule_registry r = None" using 2(4,5) by (auto simp: one_more_def no_rules)
    let ?b = "some_bus\<lparr>b_matches := w1, b_users := us1\<rparr>"
    have find: "find_owned_rule ?b 7 keys = Some r"
      using find_rule_iff [OF 2(2,6)] r(1,2) by (simp add: find_owned_rule_def)
    have target: "peer_link_target ?b keys = LINK_AT WILDCARD_MATCHES" by (simp add: keys peer_link_target_def MATCH_KEYS_NULL_def)
    from match_rule_link_ok [OF 2(2) r(1), of WILDCARD_MATCHES True full_memory False] r(3) obtain w2 where
      "match_rule_link full_memory w1 7 r True WILDCARD_MATCHES False = Some (True, w2)"
      by (auto simp: env_ok_def full_memory_def)
    then have "peer_link_match some_peer_env ?b 7 keys False = Some (True, ?b\<lparr>b_matches := w2\<rparr>)"
      using find target by (simp add: peer_link_match_def some_peer_env_def)
    with 2(1) show ?thesis by (auto simp: peer_add_match_def some_peer_env_def)
  qed
qed

lemma empty_rule: "rule_string [] keys \<Longrightarrow> keys = MATCH_KEYS_NULL"
proof -
  have "match_keys_init [] (length ([] :: string) + 1) False = Some (Inr (MATCH_KEYS_NULL, 0))" by code_simp
  then show "rule_string [] keys \<Longrightarrow> keys = MATCH_KEYS_NULL" by (simp add: rule_string_def)
qed



end
