(* ===== verification/Unicast.thy ===== *)
theory Unicast
  imports Subscription
begin

text \<open>
  Messages to one receiver (\<open>peer_queue_unicast\<close> and \<open>peer_queue_reply\<close> of \<open>src/bus/peer.c\<close>):
  what they keep of the bus, which messages are delivered, and that a call is answered once.
  The definitions are in \<open>Peer\<close>.
\<close>

section \<open>Queueing a message on a connection\<close>

lemma buffer_new_message_ok:
  assumes "accounts A us ext C" "payer A ext (s_user s) user"
  shows "\<exists>r bo us'. socket_buffer_new_message env s us user m = Some (r, bo, us') \<and>
    (case bo of
       None \<Rightarrow> r \<noteq> SOCKET_OK \<and> r \<noteq> SOCKET_E_SHUTDOWN \<and> accounts A us' ext C
     | Some b \<Rightarrow> r = SOCKET_OK \<and> accounts A us' ext (buffer_charges b + C) \<and> sb_message b = Some m \<and>
         sb_vecs b = map (iov_bytes m) (m_vecs m) \<and> sb_writer b = None)"
proof (cases "alloc env")
  case True
  let ?b = "(socket_buffer_new_internal (map (iov_bytes m) (m_vecs m)) 0)\<lparr>sb_message := Some m\<rparr>"
  let ?n = "of_nat (sizeof_SocketBuffer env + sizeof_Message env + m_n_data m) :: u32"
  let ?k = "of_nat (fdlist_count (m_fds m)) :: u32"
  have c: "sb_charge0 ?b = user_charge_init" "sb_charge1 ?b = user_charge_init" by (simp_all add: socket_buffer_new_internal_def)
  have "accounts A us ext (add_mset user_charge_init C)" using assms(1) by simp
  from accounts_charge [OF this assms(2) usable_init, of USER_SLOT_BYTES "alloc_usage0 env" "socket_env.log_works env" ?n] obtain r0 ch0 us1 where
    1: "user_charge (alloc_usage0 env) (socket_env.log_works env) us (s_user s) user_charge_init user USER_SLOT_BYTES ?n = Some (r0, ch0, us1)"
      "accounts A us1 ext (add_mset ch0 C)" by (auto simp: USER_SLOT_BYTES_def)
  let ?b1 = "?b\<lparr>sb_charge0 := ch0\<rparr>"
  have 2: "accounts A us1 ext (buffer_charges ?b1 + C)"
    using 1(2) c accounts_init [of A us1 ext "add_mset ch0 C"] by (simp add: buffer_charges_def add_mset_commute)
  from socket_buffer_free_ok [OF this] obtain us2 where 3: "socket_buffer_free us1 ?b1 = Some us2" "accounts A us2 ext C" by blast
  show ?thesis
  proof (cases "r0 = USER_OK")
    case False
    with True 1(1) 3 c show ?thesis by (auto simp: socket_buffer_new_message_def Let_def socket_quota_def)
  next
    case ok: True
    have "accounts A us1 ext (add_mset user_charge_init (add_mset ch0 C))" using 1(2) by simp
    from accounts_charge [OF this assms(2) usable_init, of USER_SLOT_FDS "alloc_usage1 env" "socket_env.log_works env" ?k] obtain r1 ch1 us3 where
      4: "user_charge (alloc_usage1 env) (socket_env.log_works env) us1 (s_user s) user_charge_init user USER_SLOT_FDS ?k = Some (r1, ch1, us3)"
        "accounts A us3 ext (add_mset ch1 (add_mset ch0 C))" by (auto simp: USER_SLOT_FDS_def)
    let ?b2 = "?b1\<lparr>sb_charge1 := ch1\<rparr>"
    have 5: "accounts A us3 ext (buffer_charges ?b2 + C)" using 4(2) by (simp add: buffer_charges_def add_mset_commute)
    from socket_buffer_free_ok [OF this] obtain us4 where 6: "socket_buffer_free us3 ?b2 = Some us4" "accounts A us4 ext C" by blast
    have f: "sb_message ?b2 = Some m" "sb_vecs ?b2 = map (iov_bytes m) (m_vecs m)" "sb_writer ?b2 = None"
      by (simp_all add: socket_buffer_new_internal_def)
    show ?thesis
      using True ok 1(1) 4(1) 5 6 c f by (cases "r1 = USER_OK") (auto simp: socket_buffer_new_message_def Let_def socket_quota_def)
  qed
qed (use assms in \<open>simp add: socket_buffer_new_message_def\<close>)

text \<open>The message was appended to the output of the connection, or the connection is as before.\<close>

definition output_closed :: "connection \<Rightarrow> bool" where
  "output_closed c \<longleftrightarrow> s_hup_out (c_socket c) \<or> s_shutdown (c_socket c)"

definition message_buffer :: "message \<Rightarrow> socket_buffer \<Rightarrow> bool" where
  "message_buffer m buf \<longleftrightarrow> sb_message buf = Some m \<and> sb_vecs buf = map (iov_bytes m) (m_vecs m) \<and> sb_writer buf = None"

definition appended :: "message \<Rightarrow> connection \<Rightarrow> connection \<Rightarrow> bool" where
  "appended m c c' \<longleftrightarrow> (if output_closed c then c' = c
     else \<exists>buf. message_buffer m buf \<and> c' = c\<lparr>c_socket := (c_socket c)\<lparr>s_queue := s_queue (c_socket c) @ [buf]\<rparr>\<rparr>)"

lemma socket_queue_ok:
  assumes "accounts A us ext (socket_charges s + C)" "payer A ext (s_user s) user" "flags_ok s"
  shows "\<exists>r s' us'. socket_queue env s us user m = Some (r, s', us') \<and> accounts A us' ext (socket_charges s' + C) \<and> flags_ok s' \<and>
    s_user s' = s_user s \<and> (r = SOCKET_E_SHUTDOWN \<longleftrightarrow> s_hup_out s \<or> s_shutdown s) \<and>
    (if r = SOCKET_OK then \<exists>buf. message_buffer m buf \<and> s' = s\<lparr>s_queue := s_queue s @ [buf]\<rparr> else s' = s)"
proof (cases "s_hup_out s \<or> s_shutdown s")
  case True
  with assms show ?thesis by (simp add: socket_queue_def)
next
  case False
  from buffer_new_message_ok [OF assms(1,2), of env m] obtain r bo us' where
    n: "socket_buffer_new_message env s us user m = Some (r, bo, us')"
      "case bo of None \<Rightarrow> r \<noteq> SOCKET_OK \<and> r \<noteq> SOCKET_E_SHUTDOWN \<and> accounts A us' ext (socket_charges s + C)
       | Some b \<Rightarrow> r = SOCKET_OK \<and> accounts A us' ext (buffer_charges b + (socket_charges s + C)) \<and> sb_message b = Some m \<and>
         sb_vecs b = map (iov_bytes m) (m_vecs m) \<and> sb_writer b = None" by blast
  show ?thesis
  proof (cases bo)
    case None
    with False n assms show ?thesis by (simp add: socket_queue_def)
  next
    case (Some b)
    let ?s = "s\<lparr>s_queue := s_queue s @ [b]\<rparr>"
    have "socket_charges ?s = buffer_charges b + socket_charges s" by (simp add: socket_charges_def ac_simps)
    moreover have "flags_ok ?s" using assms(3) False by (auto simp: flags_ok_def)
    moreover have "socket_queue env s us user m = Some (SOCKET_OK, ?s, us')" "message_buffer m b" using False n Some by (simp_all add: socket_queue_def message_buffer_def)
    ultimately show ?thesis using False n(2) Some by (intro exI [of _ SOCKET_OK] exI [of _ ?s] exI [of _ us']) (auto simp: ac_simps)
  qed
qed

text \<open>
  The charge of a message that is not on behalf of a sender is one of the receiver itself: it is
  refused exactly if the budget of the receiver does not cover it.
\<close>

definition affords :: "socket_env \<Rightarrow> user_registry \<Rightarrow> uid \<Rightarrow> message \<Rightarrow> bool" where
  "affords env us u m \<longleftrightarrow>
     of_nat (sizeof_SocketBuffer env + sizeof_Message env + m_n_data m) \<le> remaining us u USER_SLOT_BYTES \<and>
     of_nat (fdlist_count (m_fds m)) \<le> remaining us u USER_SLOT_FDS"

definition resources :: "socket_env \<Rightarrow> bool" where
  "resources env \<longleftrightarrow> alloc env \<and> alloc_usage0 env \<and> alloc_usage1 env \<and> socket_env.log_works env"

definition paid :: "socket_env \<Rightarrow> user_registry \<Rightarrow> uid \<Rightarrow> message \<Rightarrow> 'r \<Rightarrow> 'r \<Rightarrow> 'r \<Rightarrow> 'r \<Rightarrow> bool" where
  "paid env us u m ok quota failed r \<longleftrightarrow> r \<in> {ok, quota, failed} \<and>
     (affords env us u m \<longrightarrow> r = ok \<or> r = failed \<and> \<not> resources env) \<and> (r = ok \<longrightarrow> affords env us u m) \<and>
     (resources env \<longrightarrow> r = ok \<or> r = quota)"

lemma buffer_new_message_self:
  assumes "socket_buffer_new_message env s us None m = Some (r, bo, us')" "s_user s = Some u"
  shows "paid env us u m SOCKET_OK SOCKET_E_QUOTA SOCKET_FAILED r"
proof (cases "alloc env")
  case True
  let ?n = "of_nat (sizeof_SocketBuffer env + sizeof_Message env + m_n_data m) :: u32"
  let ?k = "of_nat (fdlist_count (m_fds m)) :: u32"
  from assms True obtain r0 ch0 us1 where
    1: "user_charge (alloc_usage0 env) (socket_env.log_works env) us (Some u) user_charge_init None USER_SLOT_BYTES ?n = Some (r0, ch0, us1)"
    and r0: "r0 \<noteq> USER_OK \<Longrightarrow> r = socket_quota r0"
      "r0 = USER_OK \<Longrightarrow> \<exists>r1 ch1 us2. user_charge (alloc_usage1 env) (socket_env.log_works env) us1 (Some u) user_charge_init None USER_SLOT_FDS ?k =
         Some (r1, ch1, us2) \<and> r = (if r1 = USER_OK then SOCKET_OK else socket_quota r1)"
    by (auto simp: socket_buffer_new_message_def socket_buffer_new_internal_def Let_def split: bind_splits if_splits)
  note c1 = user_charge_self [OF 1, of USER_SLOT_FDS]
  show ?thesis
  proof (cases "r0 = USER_OK")
    case False
    with r0(1) c1 True show ?thesis
      by (auto simp: paid_def affords_def resources_def socket_quota_def)
  next
    case ok: True
    from r0(2) [OF this] obtain r1 ch1 us2 where
      2: "user_charge (alloc_usage1 env) (socket_env.log_works env) us1 (Some u) user_charge_init None USER_SLOT_FDS ?k = Some (r1, ch1, us2)"
        "r = (if r1 = USER_OK then SOCKET_OK else socket_quota r1)" by blast
    have "USER_SLOT_FDS \<noteq> USER_SLOT_BYTES" by (simp add: USER_SLOT_FDS_def USER_SLOT_BYTES_def)
    with user_charge_self [OF 2(1)] 2(2) c1 ok True show ?thesis
      by (auto simp: paid_def affords_def resources_def socket_quota_def)
  qed
next
  case False
  with assms show ?thesis by (auto simp: paid_def resources_def socket_buffer_new_message_def)
qed

lemma connection_queue_self:
  assumes "connection_queue env c None m d us = Some (r, c', d', us')" "s_user (c_socket c) = Some u"
    "\<not> (fdlist_count (m_fds m) > 0 \<and> c_server c \<and> \<not> fds_allowed (c_sasl_server c))"
  shows "if output_closed c then r = CONNECTION_OK else paid env us u m CONNECTION_OK CONNECTION_E_QUOTA CONNECTION_FAILED r"
proof (cases "output_closed c")
  case True
  with assms show ?thesis by (auto simp: connection_queue_def socket_queue_def output_closed_def)
next
  case False
  with assms(1,3) obtain r1 bo us1 where
    1: "socket_buffer_new_message env (c_socket c) us None m = Some (r1, bo, us1)"
      "r = (if r1 = SOCKET_E_QUOTA then CONNECTION_E_QUOTA else if r1 = SOCKET_E_SHUTDOWN then CONNECTION_OK
            else if r1 \<noteq> SOCKET_OK then CONNECTION_FAILED else CONNECTION_OK)"
    by (auto simp: connection_queue_def socket_queue_def output_closed_def Let_def split: bind_splits if_splits)
  with buffer_new_message_self [OF 1(1) assms(2)] False show ?thesis by (auto simp: paid_def)
qed

lemma select_keeps:
  assumes "disp_ok d f" "bits AND EPOLL_ALL = bits"
  shows "\<exists>d'. dispatch_file_select f bits d = Some d' \<and> (\<forall>g. disp_ok d g \<longrightarrow> disp_ok d' g)"
proof -
  from select_disp_ok [OF assms] obtain d' where d': "dispatch_file_select f bits d = Some d'" "disp_ok d' f" by blast
  moreover have "disp_ok d' g" if g: "disp_ok d g" for g
  proof -
    have "registered d' g EPOLL_ALL"
    proof (cases "g = f")
      case False
      then have "d_files d' g = d_files d g"
        using d'(1) by (auto simp: dispatch_file_select_def Let_def split: bind_splits if_splits)
      with g show ?thesis by (simp add: disp_ok_def registered_def)
    qed (use d'(2) in \<open>simp add: disp_ok_def\<close>)
    with d'(2) show ?thesis by (simp add: disp_ok_def)
  qed
  ultimately show ?thesis by blast
qed

lemma connection_queue_ok:
  assumes "accounts A us ext (socket_charges (c_socket c) + C)" "payer A ext (s_user (c_socket c)) user" "flags_ok (c_socket c)"
    "disp_ok d (c_socket_file c)"
  shows "\<exists>r c' d' us'. connection_queue env c user m d us = Some (r, c', d', us') \<and>
    accounts A us' ext (socket_charges (c_socket c') + C) \<and> flags_ok (c_socket c') \<and> s_user (c_socket c') = s_user (c_socket c) \<and>
    c_socket_file c' = c_socket_file c \<and> (\<forall>g. disp_ok d g \<longrightarrow> disp_ok d' g) \<and>
    (r = CONNECTION_E_UNEXPECTED_FDS \<longleftrightarrow> fdlist_count (m_fds m) > 0 \<and> c_server c \<and> \<not> fds_allowed (c_sasl_server c)) \<and>
    (if r = CONNECTION_OK then appended m c c' else c' = c \<and> d' = d)"
proof (cases "fdlist_count (m_fds m) > 0 \<and> c_server c \<and> \<not> fds_allowed (c_sasl_server c)")
  case True
  with assms show ?thesis by (auto simp: connection_queue_def)
next
  case False
  from socket_queue_ok [OF assms(1-3), of env m] obtain r s us' where
    q: "socket_queue env (c_socket c) us user m = Some (r, s, us')" "accounts A us' ext (socket_charges s + C)" "flags_ok s"
      "s_user s = s_user (c_socket c)" "r = SOCKET_E_SHUTDOWN \<longleftrightarrow> output_closed c"
      "if r = SOCKET_OK then \<exists>buf. message_buffer m buf \<and> s = (c_socket c)\<lparr>s_queue := s_queue (c_socket c) @ [buf]\<rparr> else s = c_socket c"
    unfolding output_closed_def by blast
  from select_keeps [OF assms(4) event_bits_all [of EPOLLOUT]] obtain d' where
    d': "dispatch_file_select (c_socket_file c) (event_bits EPOLLOUT) d = Some d'" "\<forall>g. disp_ok d g \<longrightarrow> disp_ok d' g" by blast
  have keep: "c\<lparr>c_socket := c_socket c\<rparr> = c" by simp
  from False have eq: "connection_queue env c user m d us =
     (if r = SOCKET_E_QUOTA then Some (CONNECTION_E_QUOTA, c\<lparr>c_socket := s\<rparr>, d, us')
      else if r = SOCKET_E_SHUTDOWN then Some (CONNECTION_OK, c\<lparr>c_socket := s\<rparr>, d, us')
      else if r \<noteq> SOCKET_OK then Some (CONNECTION_FAILED, c\<lparr>c_socket := s\<rparr>, d, us')
      else Some (CONNECTION_OK, c\<lparr>c_socket := s\<rparr>, d', us'))"
    by (auto simp: connection_queue_def q(1) d'(1) Let_def simp del: event_bits.simps)
  show ?thesis
    unfolding eq using q(2-6) d'(2) False by (auto simp: appended_def keep)
qed

section \<open>What the messages keep of the bus\<close>

text \<open>
  The connections of all peers are in order and belong to a user that is charged, the reply
  slots are consistent and those of the peers that exist, and all charges of output, input and
  slots are accounted for, together with further ones.
\<close>

definition peer_conn_ok :: "uid set \<Rightarrow> (uid \<Rightarrow> nat) \<Rightarrow> dispatch \<Rightarrow> ('a, 's) peer \<Rightarrow> bool" where
  "peer_conn_ok A ext d p \<longleftrightarrow> flags_ok (c_socket (p_connection p)) \<and> disp_ok d (c_socket_file (p_connection p)) \<and>
     s_user (c_socket (p_connection p)) = Some (p_user p) \<and> 0 < ext (p_user p) \<and> p_user p \<in> A"

definition conn_charges :: "(owner_id \<rightharpoonup> ('a, 's) peer) \<Rightarrow> user_charge multiset" where
  "conn_charges ps = (\<Sum>i\<in>dom ps. socket_charges (c_socket (p_connection (the (ps i)))))"

definition slot_charges :: "owner_id set \<Rightarrow> reply_world \<Rightarrow> user_charge multiset" where
  "slot_charges D w = (\<Sum>i\<in>D. tree_charges (reply_tree w i))"

definition traffic_inv :: "uid set \<Rightarrow> (uid \<Rightarrow> nat) \<Rightarrow> user_charge multiset \<Rightarrow> ('a, 's) bus \<Rightarrow> bool" where
  "traffic_inv A ext C b \<longleftrightarrow> finite (dom (b_peers b)) \<and> reply_inv (b_replies b) \<and>
     (\<forall>i. b_peers b i = None \<longrightarrow> reply_tree (b_replies b) i = [] \<and> reply_list (b_replies b) i = []) \<and>
     accounts A (b_users b) ext (conn_charges (b_peers b) + slot_charges (dom (b_peers b)) (b_replies b) + C) \<and>
     (\<forall>i p. b_peers b i = Some p \<longrightarrow> peer_conn_ok A ext (b_dispatch b) p)"

lemma sum_single:
  fixes f g :: "'i \<Rightarrow> 'v::comm_monoid_add"
  assumes "finite D" "i \<in> D" "\<And>j. j \<noteq> i \<Longrightarrow> g j = f j"
  shows "sum f D = f i + sum f (D - {i})" "sum g D = g i + sum f (D - {i})"
proof -
  show "sum f D = f i + sum f (D - {i})" by (rule sum.remove [OF assms(1,2)])
  have "sum g (D - {i}) = sum f (D - {i})" by (rule sum.cong) (use assms(3) in auto)
  then show "sum g D = g i + sum f (D - {i})" using sum.remove [OF assms(1,2), of g] by simp
qed

lemma conn_charges_split:
  assumes "finite (dom ps)" "ps i = Some p"
  shows "\<exists>R. conn_charges ps = socket_charges (c_socket (p_connection p)) + R \<and>
    (\<forall>c. conn_charges (ps(i \<mapsto> p\<lparr>p_connection := c\<rparr>)) = socket_charges (c_socket c) + R)"
proof -
  let ?f = "\<lambda>ps i. socket_charges (c_socket (p_connection (the (ps i))))"
  have i: "i \<in> dom ps" using assms(2) by blast
  then have d: "dom (ps(i \<mapsto> x)) = dom ps" for x by (simp add: insert_absorb)
  have "conn_charges (ps(i \<mapsto> p\<lparr>p_connection := c\<rparr>)) = socket_charges (c_socket c) + sum (?f ps) (dom ps - {i})" for c
    unfolding conn_charges_def d
    using sum_single(2) [OF assms(1) i, of "?f (ps(i \<mapsto> p\<lparr>p_connection := c\<rparr>))" "?f ps"] by simp
  moreover have "conn_charges ps = socket_charges (c_socket (p_connection p)) + sum (?f ps) (dom ps - {i})"
    unfolding conn_charges_def using sum_single(1) [OF assms(1) i, of "?f ps" "?f ps"] assms(2) by simp
  ultimately show ?thesis by blast
qed

lemma slot_charges_split:
  assumes "finite D" "i \<in> D"
  shows "\<exists>R. slot_charges D w = tree_charges (reply_tree w i) + R \<and>
    (\<forall>t l. slot_charges D (w\<lparr>reply_tree := (reply_tree w)(i := t), reply_list := l\<rparr>) = tree_charges t + R)"
  using sum_single [OF assms, of "\<lambda>j. tree_charges (((reply_tree w)(i := _)) j)" "\<lambda>j. tree_charges (reply_tree w j)"]
  by (auto simp: slot_charges_def)

section \<open>Delivery\<close>

text \<open>An operation on the connection of one peer.\<close>

definition at_peer :: "owner_id \<Rightarrow> ('a, 's) peer \<Rightarrow> connection \<Rightarrow> ('a, 's) bus \<Rightarrow> ('a, 's) bus \<Rightarrow> bool" where
  "at_peer i p c b b' \<longleftrightarrow> (\<exists>d us. b' = b\<lparr>b_peers := (b_peers b)(i \<mapsto> p\<lparr>p_connection := c\<rparr>), b_dispatch := d, b_users := us\<rparr>)"

lemma at_peer_sel:
  assumes "at_peer i p c b b'"
  shows "b_peers b' = (b_peers b)(i \<mapsto> p\<lparr>p_connection := c\<rparr>)" "b_replies b' = b_replies b"
    "b' = b\<lparr>b_peers := b_peers b', b_replies := b_replies b', b_dispatch := b_dispatch b', b_users := b_users b'\<rparr>"
  using assms by (auto simp: at_peer_def)

definition set_connection :: "owner_id \<Rightarrow> connection \<Rightarrow> dispatch \<Rightarrow> user_registry \<Rightarrow> ('a, 's) bus \<Rightarrow> ('a, 's) bus" where
  "set_connection i c d us b = (upd_peer i (\<lambda>p. p\<lparr>p_connection := c\<rparr>) b)\<lparr>b_dispatch := d, b_users := us\<rparr>"

lemma set_connection_dispatch [simp]: "b_dispatch (set_connection i c d us b) = d"
  by (simp add: set_connection_def)

lemma set_connection_at: "b_peers b i = Some p \<Longrightarrow> at_peer i p c b (set_connection i c d us b)"
  unfolding set_connection_def at_peer_def upd_peer_def by (intro exI [of _ d] exI [of _ us]) simp

lemma traffic_inv_peer:
  assumes "traffic_inv A ext C b" "b_peers b i = Some p"
  shows "flags_ok (c_socket (p_connection p))" "disp_ok (b_dispatch b) (c_socket_file (p_connection p))"
    "s_user (c_socket (p_connection p)) = Some (p_user p)" "0 < ext (p_user p)" "p_user p \<in> A"
  using assms by (auto simp: traffic_inv_def peer_conn_ok_def)

lemma traffic_inv_split:
  assumes "traffic_inv A ext C b" "b_peers b i = Some p"
  shows "\<exists>R. accounts A (b_users b) ext (socket_charges (c_socket (p_connection p)) + R) \<and>
    (\<forall>c d us. accounts A us ext (socket_charges (c_socket c) + R) \<and> flags_ok (c_socket c) \<and>
       s_user (c_socket c) = s_user (c_socket (p_connection p)) \<and> c_socket_file c = c_socket_file (p_connection p) \<and>
       (\<forall>g. disp_ok (b_dispatch b) g \<longrightarrow> disp_ok d g) \<longrightarrow> traffic_inv A ext C (set_connection i c d us b))"
proof -
  from conn_charges_split [of "b_peers b" i p] assms obtain R where
    R: "conn_charges (b_peers b) = socket_charges (c_socket (p_connection p)) + R"
      "\<And>c. conn_charges ((b_peers b)(i \<mapsto> p\<lparr>p_connection := c\<rparr>)) = socket_charges (c_socket c) + R" by (auto simp: traffic_inv_def)
  let ?R = "R + slot_charges (dom (b_peers b)) (b_replies b) + C"
  have dom: "dom ((b_peers b)(i \<mapsto> x)) = dom (b_peers b)" for x using assms(2) by auto
  have "accounts A (b_users b) ext (socket_charges (c_socket (p_connection p)) + ?R)"
    using assms(1) R(1) by (simp add: traffic_inv_def ac_simps)
  moreover have "traffic_inv A ext C (set_connection i c d us b)"
    if h: "accounts A us ext (socket_charges (c_socket c) + ?R)" "flags_ok (c_socket c)"
      "s_user (c_socket c) = s_user (c_socket (p_connection p))" "c_socket_file c = c_socket_file (p_connection p)"
      "\<And>g. disp_ok (b_dispatch b) g \<Longrightarrow> disp_ok d g" for c d us
  proof -
    have ps: "b_peers (set_connection i c d us b) = (b_peers b)(i \<mapsto> p\<lparr>p_connection := c\<rparr>)"
      using assms(2) by (simp add: set_connection_def upd_peer_def)
    have "peer_conn_ok A ext d q" if q: "((b_peers b)(i \<mapsto> p\<lparr>p_connection := c\<rparr>)) j = Some q" for j q
      using q traffic_inv_peer [OF assms] h(2-5) assms(1) by (auto simp: traffic_inv_def peer_conn_ok_def split: if_splits)
    moreover have "accounts A us ext (conn_charges ((b_peers b)(i \<mapsto> p\<lparr>p_connection := c\<rparr>)) + slot_charges (dom (b_peers b)) (b_replies b) + C)"
      using h(1) R(2) by (simp add: ac_simps)
    ultimately show ?thesis
      using assms(1) dom unfolding traffic_inv_def ps by (auto simp: set_connection_def upd_peer_def split: if_splits)
  qed
  ultimately show ?thesis by blast
qed

lemma queue_at_ok:
  assumes "traffic_inv A ext C b" "b_peers b i = Some p" "case user of None \<Rightarrow> True | Some a \<Rightarrow> a \<in> A"
  shows "\<exists>r b' c. queue_at env b i user m = Some (r, b') \<and> traffic_inv A ext C b' \<and> at_peer i p c b b' \<and>
    (r = CONNECTION_E_UNEXPECTED_FDS \<longleftrightarrow> fdlist_count (m_fds m) > 0 \<and> c_server (p_connection p) \<and> \<not> fds_allowed (c_sasl_server (p_connection p))) \<and>
    (if r = CONNECTION_OK then appended m (p_connection p) c else c = p_connection p \<and> b_dispatch b' = b_dispatch b)"
proof -
  note P = traffic_inv_peer [OF assms(1,2)]
  have pay: "payer A ext (s_user (c_socket (p_connection p))) user"
    using P(3-5) assms(3) by (auto simp: payer_def charge_actor_def split: option.splits)
  from traffic_inv_split [OF assms(1,2)] obtain R where
    R: "accounts A (b_users b) ext (socket_charges (c_socket (p_connection p)) + R)"
      "\<And>c d us. accounts A us ext (socket_charges (c_socket c) + R) \<and> flags_ok (c_socket c) \<and>
         s_user (c_socket c) = s_user (c_socket (p_connection p)) \<and> c_socket_file c = c_socket_file (p_connection p) \<and>
         (\<forall>g. disp_ok (b_dispatch b) g \<longrightarrow> disp_ok d g) \<Longrightarrow> traffic_inv A ext C (set_connection i c d us b)" by blast
  from connection_queue_ok [OF R(1) pay P(1,2), of "pe_socket env" m] obtain r c d us where
    q: "connection_queue (pe_socket env) (p_connection p) user m (b_dispatch b) (b_users b) = Some (r, c, d, us)"
      "accounts A us ext (socket_charges (c_socket c) + R)" "flags_ok (c_socket c)" "s_user (c_socket c) = s_user (c_socket (p_connection p))"
      "c_socket_file c = c_socket_file (p_connection p)" "\<forall>g. disp_ok (b_dispatch b) g \<longrightarrow> disp_ok d g"
      "r = CONNECTION_E_UNEXPECTED_FDS \<longleftrightarrow> fdlist_count (m_fds m) > 0 \<and> c_server (p_connection p) \<and> \<not> fds_allowed (c_sasl_server (p_connection p))"
      "if r = CONNECTION_OK then appended m (p_connection p) c else c = p_connection p \<and> d = b_dispatch b" by blast
  have "queue_at env b i user m = Some (r, set_connection i c d us b)" using assms(2) q(1) by (simp add: queue_at_def set_connection_def)
  moreover have "traffic_inv A ext C (set_connection i c d us b)" using R(2) q(2-6) by blast
  ultimately show ?thesis using q(7,8) set_connection_at [OF assms(2), of c d us]
    by (intro exI [of _ r] exI [of _ "set_connection i c d us b"] exI [of _ c]) simp
qed

lemma shutdown_at_ok:
  assumes "traffic_inv A ext C b" "b_peers b i = Some p" "can_shutdown (pe_socket env)"
  shows "\<exists>b' c. shutdown_at env b i = Some b' \<and> traffic_inv A ext C b' \<and> at_peer i p c b b' \<and> s_shutdown (c_socket c)"
proof -
  note P = traffic_inv_peer [OF assms(1,2)]
  from traffic_inv_split [OF assms(1,2)] obtain R where
    R: "accounts A (b_users b) ext (socket_charges (c_socket (p_connection p)) + R)"
      "\<And>c d us. accounts A us ext (socket_charges (c_socket c) + R) \<and> flags_ok (c_socket c) \<and>
         s_user (c_socket c) = s_user (c_socket (p_connection p)) \<and> c_socket_file c = c_socket_file (p_connection p) \<and>
         (\<forall>g. disp_ok (b_dispatch b) g \<longrightarrow> disp_ok d g) \<Longrightarrow> traffic_inv A ext C (set_connection i c d us b)" by blast
  from shutdown_ok [OF R(1) assms(3) P(1)] obtain s us where
    s: "socket_shutdown (pe_socket env) (c_socket (p_connection p)) (b_users b) = Some (s, us)"
      "accounts A us ext (socket_charges s + R)" "flags_ok s" "input_kept (c_socket (p_connection p)) s" "s_shutdown s" by blast
  from select_keeps [OF P(2) event_bits_all [of EPOLLHUP]] obtain d' where
    d': "dispatch_file_select (c_socket_file (p_connection p)) (event_bits EPOLLHUP) (b_dispatch b) = Some d'"
      "\<forall>g. disp_ok (b_dispatch b) g \<longrightarrow> disp_ok d' g" by blast
  define d where "d = (if socket_is_running s then b_dispatch b else d')"
  let ?c = "(p_connection p)\<lparr>c_socket := s\<rparr>"
  have "shutdown_at env b i = Some (set_connection i ?c d us b)"
    using assms(2) s(1) d'(1) by (simp add: shutdown_at_def connection_shutdown_def set_connection_def d_def)
  moreover have "\<forall>g. disp_ok (b_dispatch b) g \<longrightarrow> disp_ok d g" using d'(2) by (simp add: d_def)
  moreover have "s_user s = s_user (c_socket (p_connection p))" using s(4) by (simp add: input_kept_def)
  ultimately show ?thesis using R(2) [of us ?c d] s(2,3,5) set_connection_at [of b i p ?c, OF assms(2)] by fastforce
qed

section \<open>Reply slots\<close>

definition add_slot :: "reply_world \<Rightarrow> peer_id \<Rightarrow> reply_slot \<Rightarrow> reply_world" where
  "add_slot w reg slot = w\<lparr>reply_tree := (reply_tree w)(reg := rb_add reply_slot_compare (slot_key slot) slot (reply_tree w reg)),
     reply_list := (reply_list w)(rs_owner slot := reply_list w (rs_owner slot) @ [(reg, slot_key slot)])\<rparr>"

definition drop_slot :: "reply_world \<Rightarrow> peer_id \<Rightarrow> reply_slot \<Rightarrow> reply_world" where
  "drop_slot w reg slot = w\<lparr>reply_tree := (reply_tree w)(reg := rb_unlink reply_slot_compare (slot_key slot) (reply_tree w reg)),
     reply_list := (reply_list w)(rs_owner slot := filter (\<lambda>x. x \<noteq> (reg, slot_key slot)) (reply_list w (rs_owner slot)))\<rparr>"

lemma get_add_slot:
  assumes "reply_inv w" "reply_slot_get_by_id w reg (rs_id slot) (rs_serial slot) = None"
  shows "reply_slot_get_by_id (add_slot w reg slot) g i s =
    (if g = reg \<and> (i, s) = slot_key slot then Some slot else reply_slot_get_by_id w g i s)"
proof -
  have ord: "reply_index.ordered (reply_tree w reg)" using assms(1) by (simp add: reply_inv_def)
  have "rb_find reply_slot_compare (slot_key slot) (reply_tree w reg) = None"
    using assms(2) by (simp add: reply_slot_get_by_id_def slot_key_def)
  from reply_index.find_add [OF ord TrueI this TrueI, of "(i, s)"] show ?thesis
    by (cases "(i, s) = slot_key slot") (simp_all add: reply_slot_get_by_id_def add_slot_def)
qed

lemma get_drop_slot:
  assumes "reply_inv w"
  shows "reply_slot_get_by_id (drop_slot w reg slot) g i s =
    (if g = reg \<and> (i, s) = slot_key slot then None else reply_slot_get_by_id w g i s)"
  using assms reply_index.find_unlink [of "reply_tree w reg" "(i, s)" "slot_key slot"]
  by (cases "(i, s) = slot_key slot") (simp_all add: reply_slot_get_by_id_def drop_slot_def reply_inv_def)

lemma drop_slot_free:
  "w\<lparr>reply_list := (reply_list w)(rs_owner slot := filter (\<lambda>x. x \<noteq> (reg, slot_key slot)) (reply_list w (rs_owner slot))),
     reply_tree := (reply_tree w)(reg := rb_unlink reply_slot_compare (slot_key slot) (reply_tree w reg))\<rparr> = drop_slot w reg slot"
  by (simp add: drop_slot_def)

text \<open>Giving up a call leaves no trace of its slot.\<close>

lemma drop_add_slot:
  assumes "reply_inv w" "reply_slot_get_by_id w reg (rs_id slot) (rs_serial slot) = None"
  shows "drop_slot (add_slot w reg slot) reg slot = w"
proof -
  have none: "\<forall>e \<in> set (reply_tree w reg). reply_slot_compare (slot_key slot) e \<noteq> 0"
    using assms(2) by (simp add: reply_slot_get_by_id_def rb_find_None slot_key_def)
  have "rb_unlink reply_slot_compare (slot_key slot) (rb_add reply_slot_compare (slot_key slot) slot t) = t"
    if "\<forall>e \<in> set t. reply_slot_compare (slot_key slot) e \<noteq> 0" for t
    using that by (induction t) (auto simp: rb_unlink_def reply_slot_compare_def slot_key_def)
  moreover have "(reg, slot_key slot) \<notin> set (reply_list w (rs_owner slot))"
  proof
    assume "(reg, slot_key slot) \<in> set (reply_list w (rs_owner slot))"
    then have "\<exists>s \<in> set (reply_tree w reg). slot_key s = slot_key slot" using assms(1) unfolding reply_inv_def by blast
    with none show False by (auto simp: reply_slot_compare_def slot_key_def)
  qed
  then have "filter (\<lambda>x. x \<noteq> (reg, slot_key slot)) (reply_list w (rs_owner slot)) = reply_list w (rs_owner slot)"
    by (auto intro: filter_True)
  ultimately show ?thesis using none by (simp add: drop_slot_def add_slot_def)
qed

lemma traffic_inv_slots:
  assumes "traffic_inv A ext C b" "b_peers b i = Some p"
  shows "\<exists>R. accounts A (b_users b) ext (tree_charges (reply_tree (b_replies b) i) + R) \<and>
    (\<forall>L t l us. accounts A us ext (L + tree_charges t + R) \<and> reply_inv ((b_replies b)\<lparr>reply_tree := (reply_tree (b_replies b))(i := t), reply_list := l\<rparr>) \<and>
       (\<forall>j. b_peers b j = None \<longrightarrow> l j = []) \<longrightarrow>
       traffic_inv A ext (L + C) (b\<lparr>b_replies := (b_replies b)\<lparr>reply_tree := (reply_tree (b_replies b))(i := t), reply_list := l\<rparr>, b_users := us\<rparr>))"
proof -
  have i: "finite (dom (b_peers b))" "i \<in> dom (b_peers b)" using assms by (auto simp: traffic_inv_def)
  from slot_charges_split [OF this, of "b_replies b"] obtain R where
    R: "slot_charges (dom (b_peers b)) (b_replies b) = tree_charges (reply_tree (b_replies b) i) + R"
      "\<And>t l. slot_charges (dom (b_peers b)) ((b_replies b)\<lparr>reply_tree := (reply_tree (b_replies b))(i := t), reply_list := l\<rparr>) = tree_charges t + R"
    by blast
  let ?R = "R + conn_charges (b_peers b) + C"
  have "accounts A (b_users b) ext (tree_charges (reply_tree (b_replies b) i) + ?R)"
    using assms(1) R(1) by (simp add: traffic_inv_def ac_simps)
  moreover have "traffic_inv A ext (L + C) (b\<lparr>b_replies := (b_replies b)\<lparr>reply_tree := (reply_tree (b_replies b))(i := t), reply_list := l\<rparr>, b_users := us\<rparr>)"
    if "accounts A us ext (L + tree_charges t + ?R)" "reply_inv ((b_replies b)\<lparr>reply_tree := (reply_tree (b_replies b))(i := t), reply_list := l\<rparr>)"
      "\<forall>j. b_peers b j = None \<longrightarrow> l j = []" for L t l us
    using that assms R(2) by (auto simp: traffic_inv_def ac_simps)
  ultimately show ?thesis by blast
qed

lemma slot_new_ok:
  assumes "traffic_inv A ext C b" "b_peers b i = Some p" "b_peers b ow \<noteq> None" "case user of None \<Rightarrow> True | Some a \<Rightarrow> a \<in> A"
  shows "\<exists>r w us. reply_slot_new mem mem' log_ok (b_replies b) (b_users b) i ow (Some (p_user p)) user sid serial = Some (r, w, us) \<and>
    (r = REPLY_E_EXISTS \<longleftrightarrow> reply_slot_get_by_id (b_replies b) i sid serial \<noteq> None) \<and>
    (if r = REPLY_OK then traffic_inv A ext C (b\<lparr>b_replies := w, b_users := us\<rparr>) \<and> reply_slot_get_by_id (b_replies b) i sid serial = None \<and>
       (\<exists>ch. w = add_slot (b_replies b) i \<lparr>rs_owner = ow, rs_charge = ch, rs_id = sid, rs_serial = serial\<rparr>)
     else w = b_replies b \<and> (\<exists>L. size L \<le> 1 \<and> traffic_inv A ext (L + C) (b\<lparr>b_users := us\<rparr>)))"
proof (cases "reply_slot_get_by_id (b_replies b) i sid serial")
  case (Some slot)
  have "b\<lparr>b_users := b_users b\<rparr> = b" by simp
  with Some assms(1) show ?thesis
    by (simp add: reply_slot_new_def reply_slot_get_by_id_def) (intro exI [of _ "{#}"], simp)
next
  case None
  note P = traffic_inv_peer [OF assms(1,2)]
  have new: "rb_find reply_slot_compare (sid, serial) (reply_tree (b_replies b) i) = None"
    using None by (simp add: reply_slot_get_by_id_def)
  from traffic_inv_slots [OF assms(1,2)] obtain R where
    R: "accounts A (b_users b) ext (tree_charges (reply_tree (b_replies b) i) + R)"
      "\<And>L t l us. accounts A us ext (L + tree_charges t + R) \<Longrightarrow>
         reply_inv ((b_replies b)\<lparr>reply_tree := (reply_tree (b_replies b))(i := t), reply_list := l\<rparr>) \<Longrightarrow> (\<forall>j. b_peers b j = None \<longrightarrow> l j = []) \<Longrightarrow>
         traffic_inv A ext (L + C) (b\<lparr>b_replies := (b_replies b)\<lparr>reply_tree := (reply_tree (b_replies b))(i := t), reply_list := l\<rparr>, b_users := us\<rparr>)"
    by blast
  have pay: "payer A ext (Some (p_user p)) user" using P(4,5) assms(4) by (auto simp: payer_def charge_actor_def split: option.splits)
  have inv: "reply_inv (b_replies b)" "\<forall>j. b_peers b j = None \<longrightarrow> reply_list (b_replies b) j = []"
    using assms(1) by (auto simp: traffic_inv_def)
  have same: "(b_replies b)\<lparr>reply_tree := (reply_tree (b_replies b))(i := reply_tree (b_replies b) i), reply_list := reply_list (b_replies b)\<rparr> = b_replies b"
    "b\<lparr>b_replies := b_replies b, b_users := us\<rparr> = b\<lparr>b_users := us\<rparr>" for us by simp_all
  have leak: "traffic_inv A ext (L + C) (b\<lparr>b_users := us\<rparr>)"
    if "accounts A us ext (L + tree_charges (reply_tree (b_replies b) i) + R)" for L us
    using R(2) [of us L "reply_tree (b_replies b) i" "reply_list (b_replies b)"] that inv unfolding same by blast
  have "accounts A (b_users b) ext (add_mset user_charge_init (tree_charges (reply_tree (b_replies b) i) + R))" using R(1) by simp
  from accounts_charge [OF this pay usable_init, of USER_SLOT_OBJECTS mem' log_ok 1] obtain r ch us where
    c: "user_charge mem' log_ok (b_users b) (Some (p_user p)) user_charge_init user USER_SLOT_OBJECTS 1 = Some (r, ch, us)"
      "accounts A us ext (add_mset ch (tree_charges (reply_tree (b_replies b) i) + R))" by (auto simp: USER_SLOT_OBJECTS_def)
  let ?slot = "\<lparr>rs_owner = ow, rs_charge = ch, rs_id = sid, rs_serial = serial\<rparr>"
  have key: "slot_key ?slot = (sid, serial)" by (simp add: slot_key_def)
  consider (nomem) "\<not> mem" | (bad) "mem" "r \<noteq> USER_OK" | (good) "mem" "r = USER_OK" by blast
  then show ?thesis
  proof cases
    case nomem
    with new None leak [of "b_users b" "{#}"] R(1) show ?thesis by (auto simp: reply_slot_new_def intro!: exI [of _ "{#}"])
  next
    case bad
    with new None c leak [of us "{#ch#}"] show ?thesis by (auto simp: reply_slot_new_def intro!: exI [of _ "{#ch#}"])
  next
    case good
    have "reply_inv (add_slot (b_replies b) i ?slot)" using reply_add_inv [OF inv(1), of ?slot i] new key by (simp add: add_slot_def)
    moreover have "tree_charges (rb_add reply_slot_compare (sid, serial) ?slot (reply_tree (b_replies b) i)) =
        add_mset ch (tree_charges (reply_tree (b_replies b) i))" by (simp add: tree_charges_add)
    ultimately have "traffic_inv A ext C (b\<lparr>b_replies := add_slot (b_replies b) i ?slot, b_users := us\<rparr>)"
      using R(2) [of us "{#}" "rb_add reply_slot_compare (sid, serial) ?slot (reply_tree (b_replies b) i)"
          "(reply_list (b_replies b))(ow := reply_list (b_replies b) ow @ [(i, sid, serial)])"] c(2) inv(2) assms(3) key
      by (simp add: add_slot_def)
    moreover have "reply_slot_new mem mem' log_ok (b_replies b) (b_users b) i ow (Some (p_user p)) user sid serial =
        Some (REPLY_OK, add_slot (b_replies b) i ?slot, us)"
      using new good c(1) by (simp add: reply_slot_new_def add_slot_def key)
    ultimately show ?thesis using None by auto
  qed
qed

lemma slot_drop_ok:
  assumes "traffic_inv A ext C b" "b_peers b i = Some p" "reply_slot_get_by_id (b_replies b) i sid serial = Some slot"
  shows "\<exists>us. reply_slot_drop b i slot = Some (b\<lparr>b_replies := drop_slot (b_replies b) i slot, b_users := us\<rparr>) \<and>
    traffic_inv A ext C (b\<lparr>b_replies := drop_slot (b_replies b) i slot, b_users := us\<rparr>)"
proof -
  have inv: "reply_inv (b_replies b)" "\<forall>j. b_peers b j = None \<longrightarrow> reply_list (b_replies b) j = []"
    using assms(1) by (auto simp: traffic_inv_def)
  have slot: "slot \<in> set (reply_tree (b_replies b) i)" "slot_key slot = (sid, serial)"
    using assms(3) inv(1) by (simp_all add: reply_slot_get_by_id_iff)
  from traffic_inv_slots [OF assms(1,2)] obtain R where
    R: "accounts A (b_users b) ext (tree_charges (reply_tree (b_replies b) i) + R)"
      "\<And>L t l us. accounts A us ext (L + tree_charges t + R) \<Longrightarrow>
         reply_inv ((b_replies b)\<lparr>reply_tree := (reply_tree (b_replies b))(i := t), reply_list := l\<rparr>) \<Longrightarrow> (\<forall>j. b_peers b j = None \<longrightarrow> l j = []) \<Longrightarrow>
         traffic_inv A ext (L + C) (b\<lparr>b_replies := (b_replies b)\<lparr>reply_tree := (reply_tree (b_replies b))(i := t), reply_list := l\<rparr>, b_users := us\<rparr>)"
    by blast
  let ?t = "rb_unlink reply_slot_compare (slot_key slot) (reply_tree (b_replies b) i)"
  have "reply_index.ordered (reply_tree (b_replies b) i)" using inv(1) by (simp add: reply_inv_def)
  from tree_charges_unlink [OF this slot(1)] R(1) have "accounts A (b_users b) ext (add_mset (rs_charge slot) (tree_charges ?t + R))" by simp
  from accounts_deinit [OF this] obtain ch us where
    d: "user_charge_deinit (b_users b) (rs_charge slot) = Some (ch, us)" "accounts A us ext (tree_charges ?t + R)" by blast
  have "reply_inv (drop_slot (b_replies b) i slot)" using reply_unlink_inv [OF inv(1) slot(1)] unfolding drop_slot_free .
  then have "traffic_inv A ext C (b\<lparr>b_replies := drop_slot (b_replies b) i slot, b_users := us\<rparr>)"
    using R(2) [of us "{#}" ?t "(reply_list (b_replies b))(rs_owner slot := filter (\<lambda>x. x \<noteq> (i, slot_key slot)) (reply_list (b_replies b) (rs_owner slot)))"]
      d(2) inv(2) by (simp add: drop_slot_def)
  with d(1) show ?thesis by (auto simp: reply_slot_drop_def reply_slot_free_def drop_slot_free)
qed

section \<open>Calls\<close>

text \<open>
  What the policies of both sides say of a message, by the rules they contain. On Zephyr peers
  have no policy, and everything is permitted.
\<close>

definition may_receive :: "('a, 's) bus \<Rightarrow> ('a, 's) policy_snapshot \<Rightarrow> name_set \<Rightarrow> routed_metadata \<Rightarrow> bool" where
  "may_receive b rp sender_names md \<longleftrightarrow> (\<exists>bts. snapshot_contents (b_policies b) rp = Some bts \<and>
     allows (concat (map (xmit_rules (b_names b) False (Some sender_names) (unicast_query md False)) bts)))"

definition may_send ::
  "('a, 's) mac \<Rightarrow> ('a, 's) bus \<Rightarrow> ('a, 's) policy_snapshot \<Rightarrow> owner_id \<Rightarrow> ('a, 's) peer \<Rightarrow> routed_metadata \<Rightarrow> bool" where
  "may_send M b sp i p md \<longleftrightarrow>
     apparmor_check_send M (snap_apparmor sp) (seclabel sp) (p_seclabel p) (Some (NAME_SET_TYPE_OWNER i)) i (md_path md) (md_interface md) (md_member md) = MAC_OK \<and>
     selinux_check_send M (snap_selinux sp) (seclabel sp) (p_seclabel p) = MAC_OK \<and>
     (\<exists>bts. snapshot_contents (b_policies b) sp = Some bts \<and>
        allows (concat (map (xmit_rules (b_names b) True (Some (NAME_SET_TYPE_OWNER i)) (unicast_query md False)) bts)))"

definition policies_usable :: "peer_env \<Rightarrow> ('a, 's) bus \<Rightarrow> ('a, 's) policy_snapshot option \<Rightarrow> ('a, 's) peer \<Rightarrow> bool" where
  "policies_usable env b sender_policy p \<longleftrightarrow> (if zephyr (pe_socket env) then p_policy p = None
     else \<exists>sp rp. sender_policy = Some sp \<and> p_policy p = Some rp \<and>
       snapshot_contents (b_policies b) sp \<noteq> None \<and> snapshot_contents (b_policies b) rp \<noteq> None)"

definition permitted ::
  "('a, 's) mac \<Rightarrow> peer_env \<Rightarrow> ('a, 's) bus \<Rightarrow> ('a, 's) policy_snapshot option \<Rightarrow> name_set \<Rightarrow> owner_id \<Rightarrow> ('a, 's) peer \<Rightarrow> routed_metadata \<Rightarrow> bool" where
  "permitted M env b sender_policy sender_names i p md \<longleftrightarrow> zephyr (pe_socket env) \<or>
     (\<exists>sp rp. sender_policy = Some sp \<and> p_policy p = Some rp \<and> may_receive b rp sender_names md \<and> may_send M b sp i p md)"

lemma policies_decide:
  assumes "policies_usable env b sender_policy p"
  shows "\<exists>r r'. peer_check_receive env b sender_policy sender_names p md = Some r \<and> peer_check_send M env b sender_policy i p md = Some r' \<and>
    (permitted M env b sender_policy sender_names i p md \<longleftrightarrow> r = POLICY_OK \<and> r' = POLICY_OK)"
proof (cases "zephyr (pe_socket env)")
  case True
  with assms show ?thesis
    by (auto simp: policies_usable_def permitted_def peer_check_receive_def peer_check_send_def split: option.splits)
next
  case False
  with assms obtain sp rp sbts rbts where
    p: "sender_policy = Some sp" "p_policy p = Some rp" "snapshot_contents (b_policies b) sp = Some sbts"
      "snapshot_contents (b_policies b) rp = Some rbts" by (auto simp: policies_usable_def)
  note d = xmit_check.decision [OF p(4), of "b_names b" False "Some sender_names" "unicast_query md False"]
    xmit_check.decision [OF p(3), of "b_names b" True "Some (NAME_SET_TYPE_OWNER i)" "unicast_query md False"]
  have "peer_check_receive env b sender_policy sender_names p md = Some (if may_receive b rp sender_names md then POLICY_OK else POLICY_E_ACCESS_DENIED)"
    using False p d(1) by (simp add: peer_check_receive_def policy_snapshot_check_receive_def may_receive_def)
  moreover have "\<exists>r'. peer_check_send M env b sender_policy i p md = Some r' \<and> (r' = POLICY_OK \<longleftrightarrow> may_send M b sp i p md)"
    using False p d(2)
    by (auto simp: peer_check_send_def policy_snapshot_check_send_def may_send_def unicast_query_def split: mac_ret.split)
  ultimately show ?thesis using False p by (auto simp: permitted_def)
qed

lemma at_peer_refl: "b_peers b i = Some p \<Longrightarrow> at_peer i p (p_connection p) b b"
  unfolding at_peer_def by (intro exI [of _ "b_dispatch b"] exI [of _ "b_users b"]) (simp add: fun_upd_idem)

lemma peer_transmit_ok:
  assumes "traffic_inv A ext C b" "b_peers b i = Some p" "case user of None \<Rightarrow> True | Some a \<Rightarrow> a \<in> A" "policies_usable env b sender_policy p"
  shows "\<exists>r b' c. peer_transmit M env b sender_policy sender_names user i m md = Some (r, b') \<and> traffic_inv A ext C b' \<and> at_peer i p c b b' \<and>
    (if r = PEER_OK then permitted M env b sender_policy sender_names i p md \<and> appended m (p_connection p) c
     else c = p_connection p \<and> b_dispatch b' = b_dispatch b)"
proof -
  from policies_decide [OF assms(4)] obtain r1 r2 where
    d: "peer_check_receive env b sender_policy sender_names p md = Some r1" "peer_check_send M env b sender_policy i p md = Some r2"
      "permitted M env b sender_policy sender_names i p md \<longleftrightarrow> r1 = POLICY_OK \<and> r2 = POLICY_OK" by blast
  from queue_at_ok [OF assms(1-3), of env m] obtain r b' c where
    q: "queue_at env b i user m = Some (r, b')" "traffic_inv A ext C b'" "at_peer i p c b b'"
      "if r = CONNECTION_OK then appended m (p_connection p) c else c = p_connection p \<and> b_dispatch b' = b_dispatch b" by blast
  show ?thesis
  proof (cases "r1 = POLICY_OK \<and> r2 = POLICY_OK")
    case True
    with assms(2) d q show ?thesis by (auto simp: peer_transmit_def)
  next
    case False
    with assms(1,2) d(1,2) at_peer_refl [OF assms(2)] show ?thesis by (auto simp: peer_transmit_def)
  qed
qed

text \<open>How a successful call is remembered.\<close>

definition expects :: "reply_world \<Rightarrow> reply_world \<Rightarrow> owner_id \<Rightarrow> owner_id option \<Rightarrow> u64 \<Rightarrow> u32 \<Rightarrow> bool" where
  "expects w w' i replies sid serial \<longleftrightarrow> (case replies of
     None \<Rightarrow> w' = w
   | Some ow \<Rightarrow> if serial = 0 then w' = w
       else reply_slot_get_by_id w i sid serial = None \<and>
         (\<exists>ch. w' = add_slot w i \<lparr>rs_owner = ow, rs_charge = ch, rs_id = sid, rs_serial = serial\<rparr>))"

definition unicast_result ::
  "uid set \<Rightarrow> (uid \<Rightarrow> nat) \<Rightarrow> user_charge multiset \<Rightarrow> ('a, 's) bus \<Rightarrow> ('a, 's) bus \<Rightarrow> owner_id \<Rightarrow> ('a, 's) peer \<Rightarrow> message \<Rightarrow> bool \<Rightarrow>
   owner_id option \<Rightarrow> u64 \<Rightarrow> peer_ret \<Rightarrow> bool" where
  "unicast_result A ext C b b' i p m ok replies sid r \<longleftrightarrow>
     (if r = PEER_OK then traffic_inv A ext C b' \<and> ok \<and> expects (b_replies b) (b_replies b') i replies sid (message_read_serial m) \<and>
        (\<exists>c. appended m (p_connection p) c \<and> b_peers b' = (b_peers b)(i \<mapsto> p\<lparr>p_connection := c\<rparr>))
      else b_replies b' = b_replies b \<and> b_peers b' = b_peers b \<and> b_dispatch b' = b_dispatch b \<and>
        (\<exists>L. size L \<le> 1 \<and> traffic_inv A ext (L + C) b')) \<and>
     b' = b\<lparr>b_peers := b_peers b', b_replies := b_replies b', b_dispatch := b_dispatch b', b_users := b_users b'\<rparr>"

lemma transmit_result:
  assumes "traffic_inv A ext C b'" "at_peer i p c b b'" "b_peers b i = Some p"
    "if r = PEER_OK then ok \<and> appended m (p_connection p) c else c = p_connection p \<and> b_dispatch b' = b_dispatch b"
    "replies = None \<or> message_read_serial m = 0"
  shows "unicast_result A ext C b b' i p m ok replies sid r"
proof -
  note b' = at_peer_sel [OF assms(2)]
  have "\<exists>L. size L \<le> 1 \<and> traffic_inv A ext (L + C) b'" using assms(1) by (intro exI [of _ "{#}"]) simp
  moreover have "expects (b_replies b) (b_replies b') i replies sid (message_read_serial m)"
    using assms(5) b'(2) by (auto simp: expects_def split: option.splits)
  moreover have "b_peers b' = b_peers b" if "c = p_connection p" using that b'(1) assms(3) by (simp add: fun_upd_idem)
  ultimately show ?thesis
    unfolding unicast_result_def using assms(1,4) b'(1,2) by (intro conjI b'(3)) (cases "r = PEER_OK"; auto)
qed

lemma peer_queue_unicast_ok:
  assumes "traffic_inv A ext C b" "b_peers b i = Some p" "case user of None \<Rightarrow> True | Some a \<Rightarrow> a \<in> A" "policies_usable env b sender_policy p"
    "case replies of None \<Rightarrow> True | Some ow \<Rightarrow> b_peers b ow \<noteq> None"
  shows "\<exists>r b'. peer_queue_unicast M env b sender_policy sender_names replies user sid i m md = Some (r, b') \<and>
    unicast_result A ext C b b' i p m (permitted M env b sender_policy sender_names i p md) replies sid r"
proof (cases "replies = None \<or> message_read_serial m = 0")
  case True
  from peer_transmit_ok [OF assms(1-4), of M sender_names m md] obtain r b' c where
    t: "peer_transmit M env b sender_policy sender_names user i m md = Some (r, b')" "traffic_inv A ext C b'" "at_peer i p c b b'"
      "if r = PEER_OK then permitted M env b sender_policy sender_names i p md \<and> appended m (p_connection p) c
       else c = p_connection p \<and> b_dispatch b' = b_dispatch b" by blast
  have "peer_queue_unicast M env b sender_policy sender_names replies user sid i m md = Some (r, b')"
    using True assms(2) t(1) by (auto simp: peer_queue_unicast_def split: option.splits)
  with transmit_result [OF t(2,3) assms(2) t(4) True] show ?thesis by blast
next
  case False
  then obtain ow where ow: "replies = Some ow" "message_read_serial m \<noteq> 0" by auto
  let ?serial = "message_read_serial m"
  from slot_new_ok [OF assms(1,2) _ assms(3), of ow "pe_slot env" "pe_slot_usage env" "pe_log env" sid ?serial] assms(5) ow obtain r w us where
    n: "reply_slot_new (pe_slot env) (pe_slot_usage env) (pe_log env) (b_replies b) (b_users b) i ow (Some (p_user p)) user sid ?serial = Some (r, w, us)"
      "if r = REPLY_OK then traffic_inv A ext C (b\<lparr>b_replies := w, b_users := us\<rparr>) \<and> reply_slot_get_by_id (b_replies b) i sid ?serial = None \<and>
         (\<exists>ch. w = add_slot (b_replies b) i \<lparr>rs_owner = ow, rs_charge = ch, rs_id = sid, rs_serial = ?serial\<rparr>)
       else w = b_replies b \<and> (\<exists>L. size L \<le> 1 \<and> traffic_inv A ext (L + C) (b\<lparr>b_users := us\<rparr>))" by auto
  let ?b = "b\<lparr>b_replies := w, b_users := us\<rparr>"
  show ?thesis
  proof (cases "r = REPLY_OK")
    case bad: False
    then have w: "w = b_replies b" "\<exists>L. size L \<le> 1 \<and> traffic_inv A ext (L + C) ?b" using n(2) by auto
    have "\<exists>x. x \<noteq> PEER_OK \<and> peer_queue_unicast M env b sender_policy sender_names replies user sid i m md = Some (x, ?b)"
      using bad ow assms(2) n(1) by (auto simp: peer_queue_unicast_def Let_def)
    then obtain x where "x \<noteq> PEER_OK" "peer_queue_unicast M env b sender_policy sender_names replies user sid i m md = Some (x, ?b)" by blast
    then show ?thesis using w by (intro exI [of _ x] exI [of _ ?b]) (auto simp: unicast_result_def)
  next
    case good: True
    then obtain ch where w: "traffic_inv A ext C ?b" "reply_slot_get_by_id (b_replies b) i sid ?serial = None"
      "w = add_slot (b_replies b) i \<lparr>rs_owner = ow, rs_charge = ch, rs_id = sid, rs_serial = ?serial\<rparr>" using n(2) by auto
    let ?slot = "\<lparr>rs_owner = ow, rs_charge = ch, rs_id = sid, rs_serial = ?serial\<rparr>"
    have inv: "reply_inv (b_replies b)" using assms(1) by (simp add: traffic_inv_def)
    have pu: "policies_usable env ?b sender_policy p" "permitted M env ?b sender_policy sender_names i p md \<longleftrightarrow> permitted M env b sender_policy sender_names i p md"
      using assms(4) by (auto simp: policies_usable_def permitted_def may_receive_def may_send_def split: if_splits)
    have p: "b_peers ?b i = Some p" using assms(2) by simp
    from peer_transmit_ok [OF w(1) p assms(3) pu(1), of M sender_names m md] obtain r' b' c where
      t: "peer_transmit M env ?b sender_policy sender_names user i m md = Some (r', b')" "traffic_inv A ext C b'" "at_peer i p c ?b b'"
        "if r' = PEER_OK then permitted M env b sender_policy sender_names i p md \<and> appended m (p_connection p) c
         else c = p_connection p \<and> b_dispatch b' = b_dispatch ?b" unfolding pu(2) by blast
    have b': "b_peers b' = (b_peers b)(i \<mapsto> p\<lparr>p_connection := c\<rparr>)" "b_replies b' = w"
      "b' = b\<lparr>b_peers := b_peers b', b_replies := b_replies b', b_dispatch := b_dispatch b', b_users := b_users b'\<rparr>"
      using t(3) by (auto simp: at_peer_def)
    show ?thesis
    proof (cases "r' = PEER_OK")
      case True
      have "peer_queue_unicast M env b sender_policy sender_names replies user sid i m md = Some (PEER_OK, b')"
        using True good ow assms(2) n(1) t(1) by (simp add: peer_queue_unicast_def Let_def)
      moreover have "unicast_result A ext C b b' i p m (permitted M env b sender_policy sender_names i p md) replies sid PEER_OK"
        unfolding unicast_result_def using True t(2,4) b'(1,2) w(2,3) ow by (intro conjI b'(3)) (auto simp: expects_def)
      ultimately show ?thesis by blast
    next
      case False
      have slot: "reply_slot_get_by_id (b_replies b') i sid ?serial = Some ?slot"
        using get_add_slot [OF inv, of i ?slot i sid ?serial] w(2,3) b'(2) by (simp add: slot_key_def)
      have p': "b_peers b' i = Some (p\<lparr>p_connection := c\<rparr>)" using b'(1) by simp
      from slot_drop_ok [OF t(2) p' slot] obtain us' where
        d: "reply_slot_drop b' i ?slot = Some (b'\<lparr>b_replies := drop_slot (b_replies b') i ?slot, b_users := us'\<rparr>)"
          "traffic_inv A ext C (b'\<lparr>b_replies := drop_slot (b_replies b') i ?slot, b_users := us'\<rparr>)" by blast
      have undone: "drop_slot (b_replies b') i ?slot = b_replies b" using drop_add_slot [OF inv, of i ?slot] w(2,3) b'(2) by simp
      let ?b2 = "b'\<lparr>b_replies := b_replies b, b_users := us'\<rparr>"
      have "peer_queue_unicast M env b sender_policy sender_names replies user sid i m md = Some (r', ?b2)"
        using False good ow assms(2) n(1) t(1) slot d(1) undone by (simp add: peer_queue_unicast_def Let_def)
      moreover have "b_peers b' = b_peers b" "b_dispatch b' = b_dispatch b" using False t(4) b'(1) assms(2) by (auto simp: fun_upd_idem)
      moreover have "?b2 = b\<lparr>b_peers := b_peers b', b_replies := b_replies b, b_dispatch := b_dispatch b', b_users := us'\<rparr>"
        using t(3) by (auto simp: at_peer_def)
      moreover have "traffic_inv A ext ({#} + C) ?b2" using d(2) undone by simp
      ultimately show ?thesis using False unfolding unicast_result_def
        by (intro exI [of _ r'] exI [of _ ?b2]) (auto intro!: exI [of _ "{#}"])
    qed
  qed
qed

section \<open>Replies\<close>

text \<open>
  What becomes of a reply to the peer \<open>q\<close>, whose connection is \<open>c\<close> afterwards, if the result is \<open>r\<close>. A
  connection that did not negotiate file descriptors is shut down if the reply has some.
  Otherwise the reply is appended to the output if that is open and the budget of the peer covers
  it; only if memory is short it is not, and the result is a failure. If the budget does not
  cover the reply, it is lost.
\<close>

definition refuses_fds :: "message \<Rightarrow> connection \<Rightarrow> bool" where
  "refuses_fds m c \<longleftrightarrow> fdlist_count (m_fds m) > 0 \<and> c_server c \<and> \<not> fds_allowed (c_sasl_server c)"

definition reply_fate ::
  "peer_env \<Rightarrow> user_registry \<Rightarrow> ('a, 's) peer \<Rightarrow> message \<Rightarrow> connection \<Rightarrow> peer_ret \<Rightarrow> bool" where
  "reply_fate env us q m c r \<longleftrightarrow>
     (if refuses_fds m (p_connection q) then s_shutdown (c_socket c)
      else if output_closed (p_connection q) then c = p_connection q \<and> r = PEER_OK
      else if affords (pe_socket env) us (p_user q) m then (if r = PEER_OK then appended m (p_connection q) c else c = p_connection q)
      else c = p_connection q) \<and>
     (resources (pe_socket env) \<and> pe_log env \<longrightarrow> r = PEER_OK)"

definition all_have_policies :: "('a, 's) bus \<Rightarrow> bool" where
  "all_have_policies b \<longleftrightarrow> (\<forall>i p. b_peers b i = Some p \<longrightarrow> p_policy p \<noteq> None)"

lemma at_peer_trans: "at_peer i p c b b1 \<Longrightarrow> at_peer i (p\<lparr>p_connection := c\<rparr>) c' b1 b2 \<Longrightarrow> at_peer i p c' b b2"
  unfolding at_peer_def by (elim exE, rule exI, rule exI) simp

lemma queue_at_self:
  assumes "traffic_inv A ext C b" "b_peers b i = Some p" "queue_at env b i None m = Some (r, b')" "\<not> refuses_fds m (p_connection p)"
  shows "if output_closed (p_connection p) then r = CONNECTION_OK
    else paid (pe_socket env) (b_users b) (p_user p) m CONNECTION_OK CONNECTION_E_QUOTA CONNECTION_FAILED r"
proof -
  from assms(2,3) obtain c d us where
    "connection_queue (pe_socket env) (p_connection p) None m (b_dispatch b) (b_users b) = Some (r, c, d, us)"
    by (auto simp: queue_at_def split: bind_splits)
  from connection_queue_self [OF this traffic_inv_peer(3) [OF assms(1,2)]] assms(4) show ?thesis by (simp add: refuses_fds_def)
qed

lemma peer_deliver_reply_ok:
  assumes "traffic_inv A ext C b" "b_peers b j = Some p" "p_policy sender \<noteq> None" "p_policy p \<noteq> None" "can_shutdown (pe_socket env)"
  shows "\<exists>r b' c. peer_deliver_reply env b sender j m = Some (r, b') \<and> traffic_inv A ext C b' \<and> at_peer j p c b b' \<and>
    r \<in> {PEER_OK, PEER_FAILED} \<and> reply_fate env (b_users b) p m c r"
proof -
  from queue_at_ok [OF assms(1,2), of None env m] obtain r b' c where
    q: "queue_at env b j None m = Some (r, b')" "traffic_inv A ext C b'" "at_peer j p c b b'"
      "r = CONNECTION_E_UNEXPECTED_FDS \<longleftrightarrow> refuses_fds m (p_connection p)"
      "if r = CONNECTION_OK then appended m (p_connection p) c else c = p_connection p \<and> b_dispatch b' = b_dispatch b"
    unfolding refuses_fds_def by auto
  show ?thesis
  proof (cases "r = CONNECTION_E_UNEXPECTED_FDS")
    case True
    have p': "b_peers b' j = Some (p\<lparr>p_connection := c\<rparr>)" using at_peer_sel(1) [OF q(3)] by simp
    from shutdown_at_ok [OF q(2) p' assms(5)] obtain b2 c2 where
      s: "shutdown_at env b' j = Some b2" "traffic_inv A ext C b2" "at_peer j (p\<lparr>p_connection := c\<rparr>) c2 b' b2" "s_shutdown (c_socket c2)" by blast
    have "peer_deliver_reply env b sender j m = Some (if pe_log env then PEER_OK else PEER_FAILED, b2)"
      using True assms(2-4) q(1) s(1) by (auto simp: peer_deliver_reply_def)
    moreover have "reply_fate env (b_users b) p m c2 (if pe_log env then PEER_OK else PEER_FAILED)"
      using True q(4) s(4) by (simp add: reply_fate_def)
    ultimately show ?thesis using s(2) at_peer_trans [OF q(3) s(3)] by (auto split: if_splits)
  next
    case False
    let ?x = "if r = CONNECTION_OK \<or> r = CONNECTION_E_QUOTA \<and> pe_log env then PEER_OK else PEER_FAILED"
    have "peer_deliver_reply env b sender j m = Some (?x, b')"
      using False assms(2-4) q(1) by (auto simp: peer_deliver_reply_def)
    moreover have "reply_fate env (b_users b) p m c ?x"
      using queue_at_self [OF assms(1,2) q(1)] False q(4,5) by (auto simp: reply_fate_def paid_def appended_def split: if_splits)
    ultimately show ?thesis using q(2,3) by auto
  qed
qed

lemma slot_owner_exists:
  assumes "traffic_inv A ext C b" "reply_slot_get_by_id (b_replies b) i j serial = Some slot"
  shows "\<exists>q. b_peers b (rs_owner slot) = Some q"
proof -
  have inv: "reply_inv (b_replies b)" "\<And>k. b_peers b k = None \<Longrightarrow> reply_list (b_replies b) k = []"
    using assms(1) by (auto simp: traffic_inv_def)
  have "slot \<in> set (reply_tree (b_replies b) i)" using assms(2) inv(1) by (simp add: reply_slot_get_by_id_iff)
  then have "(i, slot_key slot) \<in> set (reply_list (b_replies b) (rs_owner slot))" using inv(1) unfolding reply_inv_def by blast
  with inv(2) show ?thesis by fastforce
qed

lemma peer_queue_reply_ok:
  assumes "traffic_inv A ext C b" "b_peers b i = Some sender" "all_have_policies b" "can_shutdown (pe_socket env)"
    "address_from_string dest = ADDRESS_TYPE_ID j" "reply_slot_get_by_id (b_replies b) i j serial = Some slot"
  shows "\<exists>r b' q c. peer_queue_reply env b i dest serial m = Some (r, b') \<and> traffic_inv A ext C b' \<and> r \<in> {PEER_OK, PEER_FAILED} \<and>
    b_replies b' = drop_slot (b_replies b) i slot \<and> b_peers b (rs_owner slot) = Some q \<and>
    b_peers b' = (b_peers b)(rs_owner slot \<mapsto> q\<lparr>p_connection := c\<rparr>) \<and> reply_fate env (b_users b) q m c r"
proof -
  from slot_owner_exists [OF assms(1,6)] obtain q where q: "b_peers b (rs_owner slot) = Some q" by blast
  have pol: "p_policy sender \<noteq> None" "p_policy q \<noteq> None" using assms(2,3) q by (auto simp: all_have_policies_def)
  from peer_deliver_reply_ok [OF assms(1) q pol assms(4), of m] obtain r b1 c where
    d: "peer_deliver_reply env b sender (rs_owner slot) m = Some (r, b1)" "traffic_inv A ext C b1" "at_peer (rs_owner slot) q c b b1"
      "r \<in> {PEER_OK, PEER_FAILED}" "reply_fate env (b_users b) q m c r" by blast
  note b1 = at_peer_sel [OF d(3)]
  obtain sender' where s': "b_peers b1 i = Some sender'" using b1(1) assms(2) by fastforce
  have "reply_slot_get_by_id (b_replies b1) i j serial = Some slot" using assms(6) b1(2) by simp
  from slot_drop_ok [OF d(2) s' this] obtain us where
    f: "reply_slot_drop b1 i slot = Some (b1\<lparr>b_replies := drop_slot (b_replies b1) i slot, b_users := us\<rparr>)"
      "traffic_inv A ext C (b1\<lparr>b_replies := drop_slot (b_replies b1) i slot, b_users := us\<rparr>)" by blast
  have "peer_queue_reply env b i dest serial m = Some (r, b1\<lparr>b_replies := drop_slot (b_replies b1) i slot, b_users := us\<rparr>)"
    using assms(2,5,6) d(1) f(1) by (simp add: peer_queue_reply_def)
  with d(4,5) f(2) b1(1,2) q show ?thesis by auto
qed

lemma reply_refused:
  assumes "b_peers b i \<noteq> None" "address_from_string dest = ADDRESS_TYPE_ID j" "reply_slot_get_by_id (b_replies b) i j serial = None"
  shows "peer_queue_reply env b i dest serial m = Some (PEER_E_UNEXPECTED_REPLY, b)"
  using assms by (auto simp: peer_queue_reply_def)

section \<open>Properties\<close>

text \<open>
  C8: delivery of a message to one receiver. In a consistent bus in which the policies of both sides
  are intact, queueing a message never aborts and keeps the bus consistent. If it succeeds, the
  rules of the receiver allow to receive and the rules of the sender allow to send the message,
  exactly this message was appended to the output of the receiver, unless that is being shut
  down, and, if a reply is expected, exactly one slot for its serial is registered at the
  receiver, where there was none. Otherwise no connection, no reply slot and no registration
  of events has changed; the accounts are those of before, up to the one charge of a slot that is
  lost if the quota of reply slots is exceeded.
\<close>
theorem peer_queue_unicast_permitted:
  assumes "traffic_inv A ext C b" "b_peers b i = Some p" "case user of None \<Rightarrow> True | Some a \<Rightarrow> a \<in> A" "policies_usable env b sender_policy p"
    "case replies of None \<Rightarrow> True | Some ow \<Rightarrow> b_peers b ow \<noteq> None"
  shows "\<exists>r b'. peer_queue_unicast M env b sender_policy sender_names replies user sid i m md = Some (r, b') \<and>
    unicast_result A ext C b b' i p m (permitted M env b sender_policy sender_names i p md) replies sid r"
  by (rule peer_queue_unicast_ok [OF assms])


text \<open>
  A reply is lost. If the caller is over its quota, the log says that it is being disconnected, but
  the reply is taken as delivered, its slot is gone, and the connection of the caller is neither shut
  down nor changed in any way: the caller waits for a reply that never comes.
\<close>
theorem peer_queue_reply_loses_reply:
  assumes "traffic_inv A ext C b" "b_peers b i = Some sender" "all_have_policies b" "pe_log env"
    "address_from_string dest = ADDRESS_TYPE_ID j" "reply_slot_get_by_id (b_replies b) i j serial = Some slot"
    "queue_at env b (rs_owner slot) None m = Some (CONNECTION_E_QUOTA, b1)"
  shows "\<exists>b2. peer_queue_reply env b i dest serial m = Some (PEER_OK, b2) \<and> b_peers b2 = b_peers b \<and>
    reply_slot_get_by_id (b_replies b2) i j serial = None"
proof -
  from slot_owner_exists [OF assms(1,6)] obtain q where q: "b_peers b (rs_owner slot) = Some q" by blast
  have pol: "p_policy sender \<noteq> None" "p_policy q \<noteq> None" using assms(2,3) q by (auto simp: all_have_policies_def)
  from queue_at_ok [OF assms(1) q, of None env m] assms(7) have
    b1: "traffic_inv A ext C b1" "at_peer (rs_owner slot) q (p_connection q) b b1" by auto
  then have same: "b_peers b1 = b_peers b" "b_replies b1 = b_replies b" using at_peer_sel [OF b1(2)] q by (simp_all add: fun_upd_idem)
  have inv: "reply_inv (b_replies b)" using assms(1) by (simp add: traffic_inv_def)
  have key: "slot_key slot = (j, serial)" using assms(6) inv by (simp add: reply_slot_get_by_id_iff)
  have p1: "b_peers b1 i = Some sender" "reply_slot_get_by_id (b_replies b1) i j serial = Some slot" using assms(2,6) same by simp_all
  from slot_drop_ok [OF b1(1) p1] obtain us where
    d: "reply_slot_drop b1 i slot = Some (b1\<lparr>b_replies := drop_slot (b_replies b1) i slot, b_users := us\<rparr>)" by blast
  have "peer_deliver_reply env b sender (rs_owner slot) m = Some (PEER_OK, b1)"
    using q pol assms(4,7) by (auto simp: peer_deliver_reply_def)
  then have "peer_queue_reply env b i dest serial m = Some (PEER_OK, b1\<lparr>b_replies := drop_slot (b_replies b1) i slot, b_users := us\<rparr>)"
    using assms(2,5,6) d by (simp add: peer_queue_reply_def)
  with same key show ?thesis using get_drop_slot [OF inv, of i slot i j serial] by simp
qed

text \<open>
  On Zephyr peers have no policy, but the log entry for such a reply reads the security label of
  the policies of both peers: the broker dereferences a null pointer.
\<close>
theorem peer_queue_reply_without_policy:
  assumes "b_peers b i = Some sender" "p_policy sender = None" "address_from_string dest = ADDRESS_TYPE_ID j"
    "reply_slot_get_by_id (b_replies b) i j serial = Some slot"
    "queue_at env b (rs_owner slot) None m = Some (r, b1)" "r = CONNECTION_E_QUOTA \<or> r = CONNECTION_E_UNEXPECTED_FDS"
  shows "peer_queue_reply env b i dest serial m = None"
proof -
  have "peer_deliver_reply env b sender (rs_owner slot) m = None"
    using assms(2,5,6) by (auto simp: peer_deliver_reply_def bind_eq_None_conv)
  with assms(1,3,4) show ?thesis by (simp add: peer_queue_reply_def)
qed

section \<open>Witnesses\<close>

text \<open>Two peers of one user that may send each other everything, and a call with the serial 5.\<close>

definition open_heap :: policy_heap where
  "open_heap = \<lparr>next_batch = 1, n_allocs = 0, batches = [0 \<mapsto> \<lparr>pb_refs = 1, connect_verdict = \<lparr>v_verdict = True, v_priority = 1\<rparr>, name_tree = [
     \<lparr>bn_name = [], own_verdict = POLICY_VERDICT_INIT, own_prefix_verdict = POLICY_VERDICT_INIT,
      send_unindexed = [\<lparr>x_verdict = \<lparr>v_verdict = True, v_priority = 1\<rparr>, x_type = 0, x_broadcast = 0,
        x_path = None, x_interface = None, x_member = None, x_min_fds = 0, x_max_fds = - 1\<rparr>],
      recv_unindexed = [\<lparr>x_verdict = \<lparr>v_verdict = True, v_priority = 1\<rparr>, x_type = 0, x_broadcast = 0,
        x_path = None, x_interface = None, x_member = None, x_min_fds = 0, x_max_fds = - 1\<rparr>]\<rparr>]\<rparr>]\<rparr>"

definition talker :: "file_id \<Rightarrow> (unit, unit) peer" where
  "talker f = \<lparr>p_user = 1, p_pid = 1, p_pid_fd = -1, p_gids = [], p_seclabel = [], p_charge0 = user_charge_init,
     p_charge1 = user_charge_init, p_charge2 = user_charge_init, p_connection = \<lparr>c_socket = \<lparr>s_user = Some 1, s_shutdown = False,
       s_reset = False, s_hup_in = False, s_hup_out = False, s_in = iqueue_null (Some 1) [], s_message = None, s_queue = [], s_pending = []\<rparr>,
       c_socket_file = f, c_sasl_server = sasl_server_init 1 (replicate 16 (CHR 0x00)), c_sasl_client = SASL_CLIENT_NULL,
       c_server = True, c_authenticated = True\<rparr>,
     p_registered = True, p_monitor = False, p_policy = Some sample_snapshot\<rparr>"

definition two_peers :: "(unit, unit) bus" where
  "two_peers = \<lparr>b_user = 0, b_users = one_user 4 [9999, 9, 9, 9] 1, b_names = name_registry_init, b_matches = match_start,
     b_replies = no_replies, b_peers = [7 \<mapsto> talker 0, 8 \<mapsto> talker 1], b_ids = 9, b_n_peers = 2, b_n_registered = 2, b_n_monitors = 0,
     b_dispatch = some_dispatch, b_policies = open_heap\<rparr>"

definition talk_env :: peer_env where
  "talk_env = \<lparr>pe_socket = \<lparr>zephyr = False, shutdown_ok = True, alloc = True, alloc_usage0 = True, alloc_usage1 = True, log_works = True,
       line_memory = [], message_memory = (\<lambda>_. CHR 0x00), sizeof_SocketBuffer = 1, sizeof_Message = 1\<rparr>,
     pe_name = \<lparr>mem_name = True, mem_ownership = True, mem_usage = True, log_works = True\<rparr>,
     pe_match = plenty, pe_link = full_memory, pe_keys = True, pe_slot = True, pe_slot_usage = True, pe_log = True\<rparr>"

definition some_call :: message where
  "some_call = (message_new False)\<lparr>m_data := [CHR ''l'', CHR 0x01, CHR 0x00, CHR 0x01, CHR 0x00, CHR 0x00, CHR 0x00, CHR 0x00,
     CHR 0x05, CHR 0x00, CHR 0x00, CHR 0x00, CHR 0x00, CHR 0x00, CHR 0x00, CHR 0x00], m_n_data := 16\<rparr>"

definition call_metadata :: routed_metadata where
  "call_metadata = \<lparr>md_type = 1, md_flags = 0, md_version = 1, md_serial = 5, md_sender_id = 7, md_path = Some ''/'', md_interface = None,
     md_member = Some ''M'', md_args = [], md_n_args = 0, md_destination = None, md_reply_serial = 0, md_unix_fds = 0\<rparr>"

lemma two_peers_sel:
  "b_users two_peers = one_user 4 [9999, 9, 9, 9] 1" "b_replies two_peers = no_replies" "b_dispatch two_peers = some_dispatch"
  "b_peers two_peers 7 = Some (talker 0)" "b_peers two_peers 8 = Some (talker 1)" "b_policies two_peers = open_heap"
  "p_user (talker f) = 1" "p_policy (talker f) = Some sample_snapshot" "b_names two_peers = name_registry_init"
  by (simp_all add: two_peers_def talker_def)

lemma call_serial: "message_read_serial some_call = 5"
  by (simp add: message_read_serial_def some_call_def message_new_def load32_def DBUS_MESSAGE_TYPE_METHOD_CALL_def)

lemma call_env: "pe_slot talk_env" "pe_slot_usage talk_env" "pe_log talk_env" "\<not> zephyr (pe_socket talk_env)"
  by (simp_all add: talk_env_def)

lemma call_checks:
  "peer_check_receive talk_env two_peers (Some sample_snapshot) (NAME_SET_TYPE_OWNER 7) (talker 1) call_metadata = Some POLICY_OK"
  "peer_check_send fallback_mac talk_env two_peers (Some sample_snapshot) 8 (talker 1) call_metadata = Some POLICY_OK"
  by code_simp+

lemma call_queued:
  "(case reply_slot_new True True True no_replies (one_user 4 [9999, 9, 9, 9] 1) 8 7 (Some 1) (Some 1) 7 5 of
      None \<Rightarrow> None
    | Some (r, w, us) \<Rightarrow> if r \<noteq> REPLY_OK then None
        else map_option (\<lambda>(r, c, d, us). (r, affords (pe_socket talk_env) us 1 some_call))
          (connection_queue (pe_socket talk_env) (p_connection (talker 1)) (Some 1) some_call some_dispatch us)) = Some (CONNECTION_OK, True)"
  by code_simp

lemma call_delivered:
  "\<exists>b1. peer_queue_unicast fallback_mac talk_env two_peers (Some sample_snapshot) (NAME_SET_TYPE_OWNER 7) (Some 7) (Some 1) 7 8
     some_call call_metadata = Some (PEER_OK, b1) \<and> b_peers b1 7 = Some (talker 0) \<and> affords (pe_socket talk_env) (b_users b1) 1 some_call"
proof -
  from call_queued obtain w us c d us' where
    1: "reply_slot_new True True True no_replies (one_user 4 [9999, 9, 9, 9] 1) 8 7 (Some 1) (Some 1) 7 5 = Some (REPLY_OK, w, us)"
    and 2: "connection_queue (pe_socket talk_env) (p_connection (talker 1)) (Some 1) some_call some_dispatch us = Some (CONNECTION_OK, c, d, us')"
      "affords (pe_socket talk_env) us' 1 some_call"
    by (auto split: option.splits if_splits)
  let ?b = "two_peers\<lparr>b_replies := w, b_users := us\<rparr>"
  have "peer_check_receive talk_env ?b (Some sample_snapshot) (NAME_SET_TYPE_OWNER 7) (talker 1) call_metadata = Some POLICY_OK"
    "peer_check_send fallback_mac talk_env ?b (Some sample_snapshot) 8 (talker 1) call_metadata = Some POLICY_OK"
    using call_checks call_env(4) by (simp_all add: peer_check_receive_def peer_check_send_def)
  then have "\<exists>b1. peer_transmit fallback_mac talk_env ?b (Some sample_snapshot) (NAME_SET_TYPE_OWNER 7) (Some 1) 8 some_call call_metadata = Some (PEER_OK, b1) \<and>
      b_peers b1 7 = Some (talker 0) \<and> affords (pe_socket talk_env) (b_users b1) 1 some_call"
    using 2 by (simp add: peer_transmit_def queue_at_def two_peers_sel upd_peer_def)
  with 1 call_env call_serial show ?thesis by (auto simp: peer_queue_unicast_def two_peers_sel)
qed

lemma two_peers_inv: "traffic_inv {1} ((\<lambda>_. 0)(1 := 1)) {#} two_peers"
proof -
  have reg: "disp_ok some_dispatch 0" "disp_ok some_dispatch 1"
    unfolding disp_ok_def
    by (rule conjI; (rule exI [of _ "[0]"], rule exI [of _ "[]"])?;
        use some_dispatch_files some_dispatch_links in \<open>auto simp: registered_def EPOLL_ALL_def pending_def dispatch_file_events_def\<close>)+
  have peers: "b_peers two_peers = [7 \<mapsto> talker 0, 8 \<mapsto> talker 1]" by (simp add: two_peers_def)
  have "socket_charges (c_socket (p_connection (talker f))) = iq_charges (iqueue_null (Some 1) [])" for f
    by (simp add: talker_def socket_charges_def)
  then have c: "conn_charges (b_peers two_peers) = iq_charges (iqueue_null (Some 1) []) + iq_charges (iqueue_null (Some 1) [])"
    by (simp add: conn_charges_def peers)
  have sl: "slot_charges D (b_replies two_peers) = {#}" for D
    by (simp add: slot_charges_def two_peers_sel no_replies_def tree_charges_def)
  have acc: "accounts {1} (one_user 4 [9999, 9, 9, 9] 1) ((\<lambda>_. 0)(1 := 1)) {#}"
    using one_user_inv [of 4 "[9999, 9, 9, 9]" 1]
    by (simp add: accounts_def actors_in_def) (simp add: one_user_def user_new_def)
  then have "accounts {1} (b_users two_peers) ((\<lambda>_. 0)(1 := 1)) (conn_charges (b_peers two_peers) + slot_charges (dom (b_peers two_peers)) (b_replies two_peers) + {#})"
    by (simp add: c sl two_peers_sel(1) iq_charges_def iqueue_null_def)
  moreover have "peer_conn_ok {1} ((\<lambda>_. 0)(1 := 1)) some_dispatch (talker f)" if "f \<in> {0, 1}" for f
    using that reg by (auto simp: peer_conn_ok_def talker_def flags_ok_def)
  ultimately show ?thesis
    using no_replies_inv unfolding traffic_inv_def peers by (auto simp: two_peers_sel no_replies_def split: if_splits)
qed

lemma two_peers_policies:
  "policies_usable talk_env two_peers (Some sample_snapshot) (talker 1)" "all_have_policies two_peers" "can_shutdown (pe_socket talk_env)"
  using call_env(4)
  by (auto simp: policies_usable_def two_peers_sel snapshot_contents_def open_heap_def sample_snapshot_def all_have_policies_def two_peers_def
      can_shutdown_def talk_env_def talker_def split: if_splits)

theorem peer_queue_unicast_permitted_witness:
  "\<exists>b1. peer_queue_unicast fallback_mac talk_env two_peers (Some sample_snapshot) (NAME_SET_TYPE_OWNER 7) (Some 7) (Some 1) 7 8
     some_call call_metadata = Some (PEER_OK, b1) \<and> expects no_replies (b_replies b1) 8 (Some 7) 7 5"
proof -
  from call_delivered obtain b1 where
    b1: "peer_queue_unicast fallback_mac talk_env two_peers (Some sample_snapshot) (NAME_SET_TYPE_OWNER 7) (Some 7) (Some 1) 7 8
      some_call call_metadata = Some (PEER_OK, b1)" by blast
  with peer_queue_unicast_permitted [OF two_peers_inv, of 8 "talker 1" "Some 1" talk_env "Some sample_snapshot" "Some 7" fallback_mac
      "NAME_SET_TYPE_OWNER 7" 7 some_call call_metadata]
  show ?thesis using two_peers_policies by (auto simp: two_peers_sel unicast_result_def call_serial)
qed


end
