(* ===== verification/Utf8.thy ===== *)
theory Utf8
  imports Prelude
begin

text \<open>
  Validation of UTF-8 (\<open>subprojects/libcutf8-1/src/c-utf8.c\<close>). Strings of the bus are checked by
  \<open>c_utf8_verify\<close>, which scans runs of ASCII a machine word at a time. A pointer is its address
  and the memory from there on; \<open>None\<close> is a read outside this memory. The size of \<open>size_t\<close> is a
  parameter, since the constants of the word-wise scan are truncated to it.
\<close>

unbundle bit_operations_syntax

section \<open>The code\<close>

definition C_UTF8_ASCII_MASK :: "nat \<Rightarrow> nat" where
  "C_UTF8_ASCII_MASK k = 0x8080808080808080 mod 256 ^ k"

definition C_UTF8_ASCII_SUB :: "nat \<Rightarrow> nat" where
  "C_UTF8_ASCII_SUB k = 0x0101010101010101 mod 256 ^ k"

text \<open>\<open>k\<close> is \<open>sizeof(size_t)\<close>; the subtraction wraps around.\<close>

definition c_utf8_word_is_ascii :: "nat \<Rightarrow> nat \<Rightarrow> bool" where
  "c_utf8_word_is_ascii k word \<longleftrightarrow> (((word + 256 ^ k - C_UTF8_ASCII_SUB k) mod 256 ^ k) OR word) AND C_UTF8_ASCII_MASK k = 0"

definition load_8 :: "string \<Rightarrow> nat \<Rightarrow> nat option" where
  "load_8 s i = (if i < length s then Some (of_char (s ! i)) else None)"

definition load_word :: "nat \<Rightarrow> string \<Rightarrow> nat \<Rightarrow> nat option" where
  "load_word k s i = (if i + k \<le> length s then Some (horner_sum of_char 256 (take k (drop i s))) else None)"

text \<open>The loop over two words at a time.\<close>

function ascii_words :: "nat \<Rightarrow> nat \<Rightarrow> string \<Rightarrow> nat \<Rightarrow> (nat \<times> string \<times> nat) option" where
  "ascii_words k a s len =
     (if 0 < k \<and> len \<ge> 2 * k then do {
        w0 \<leftarrow> load_word k s 0;
        w1 \<leftarrow> (if \<not> c_utf8_word_is_ascii k w0 then Some 0 else load_word k s k);
        if \<not> c_utf8_word_is_ascii k w0 \<or> \<not> c_utf8_word_is_ascii k w1 then Some (a, s, len)
        else ascii_words k (a + 2 * k) (drop (2 * k) s) (len - 2 * k) }
      else Some (a, s, len))"
  by auto
termination by (relation "measure (\<lambda>(k, a, s, len). len)") auto

text \<open>The loop over single bytes; the flag is true if it ends at a null byte.\<close>

fun ascii_bytes :: "nat \<Rightarrow> string \<Rightarrow> nat \<Rightarrow> (bool \<times> nat \<times> string \<times> nat) option" where
  "ascii_bytes a s 0 = Some (False, a, s, 0)"
| "ascii_bytes a s (Suc len) = do {
     c \<leftarrow> load_8 s 0;
     if c < 128 then
       if c = 0 then Some (True, a, s, Suc len)
       else ascii_bytes (a + 1) (drop 1 s) len
     else Some (False, a, s, Suc len) }"

declare ascii_words.simps [simp del]

lemma ascii_words_le: "ascii_words k a s len = Some (a', s', len') \<Longrightarrow> len' \<le> len"
proof (induction k a s len rule: ascii_words.induct)
  case (1 k a s len)
  show ?case using "1.prems" "1.IH" unfolding ascii_words.simps [of k a s len] by (fastforce split: if_splits bind_splits)
qed

lemma ascii_bytes_le: "ascii_bytes a s len = Some (z, a', s', len') \<Longrightarrow> len' \<le> len"
  by (induction a s len rule: ascii_bytes.induct) (auto split: if_splits bind_splits)

text \<open>If the scan of words gets nowhere, the scan of bytes starts at the same place.\<close>

lemma ascii_scan_progress:
  assumes "load_8 s 0 = Some c" "c < 128" "0 < len" "ascii_words k a s len = Some (a1, s1, len1)"
    "ascii_bytes a1 s1 len1 = Some (z, a2, s2, len2)" "c \<noteq> 0 \<or> \<not> z"
  shows "len2 < len"
proof (cases "len1 < len")
  case True
  with ascii_bytes_le [OF assms(5)] show ?thesis by simp
next
  case False
  with ascii_words_le [OF assms(4)] have "len1 = len" by simp
  have "s1 = s \<and> a1 = a"
  proof (rule ccontr)
    assume ne: "\<not> (s1 = s \<and> a1 = a)"
    from assms(4) ne have "0 < k" "2 * k \<le> len" "ascii_words k (a + 2 * k) (drop (2 * k) s) (len - 2 * k) = Some (a1, s1, len1)"
      unfolding ascii_words.simps [of k a s len] by (auto split: if_splits bind_splits)
    with ascii_words_le [OF this(3)] \<open>len1 = len\<close> show False by simp
  qed
  with assms(1,2,5,6) \<open>len1 = len\<close> \<open>0 < len\<close> ascii_bytes_le show ?thesis
    by (cases len) (auto split: if_splits simp: less_Suc_eq_le)
qed

function c_utf8_verify_ascii :: "nat \<Rightarrow> nat \<Rightarrow> string \<Rightarrow> nat \<Rightarrow> (nat \<times> string \<times> nat) option" where
  "c_utf8_verify_ascii k a s len =
     (if len = 0 then Some (a, s, len)
      else do {
        c \<leftarrow> load_8 s 0;
        if c \<ge> 128 then Some (a, s, len)
        else if a mod k = 0 then
          (case ascii_words k a s len of
             None \<Rightarrow> None
           | Some (a1, s1, len1) \<Rightarrow>
             case ascii_bytes a1 s1 len1 of
               None \<Rightarrow> None
             | Some (True, a2, s2, len2) \<Rightarrow> Some (a2, s2, len2)
             | Some (False, a2, s2, len2) \<Rightarrow> c_utf8_verify_ascii k a2 s2 len2)
        else if c = 0 then Some (a, s, len)
        else c_utf8_verify_ascii k (a + 1) (drop 1 s) (len - 1) })"
  by auto
termination
  by (relation "measure (\<lambda>(k, a, s, len). len)") (auto dest: ascii_scan_progress)

definition C_UTF8_CHAR_IS_TAIL :: "nat \<Rightarrow> bool" where
  "C_UTF8_CHAR_IS_TAIL x \<longleftrightarrow> x AND 0xC0 = 0x80"

text \<open>
  The bytes of a character beyond ASCII, by its first byte: how many there are, and whether the
  later ones are as required; zero stands for the end of the scan. The byte at an offset is read
  only if the length was checked and all bytes before it are as required.
\<close>

definition tails :: "string \<Rightarrow> nat \<Rightarrow> nat \<Rightarrow> (nat \<Rightarrow> bool) \<Rightarrow> nat option" where
  "tails s len n second =
     (if len < n then Some 0
      else do {
        c \<leftarrow> load_8 s 1;
        if \<not> second c then Some 0
        else if n = 2 then Some 2
        else do {
          c \<leftarrow> load_8 s 2;
          if \<not> C_UTF8_CHAR_IS_TAIL c then Some 0
          else if n = 3 then Some 3
          else do {
            c \<leftarrow> load_8 s 3;
            Some (if \<not> C_UTF8_CHAR_IS_TAIL c then 0 else 4) } } })"

definition multibyte :: "nat \<Rightarrow> string \<Rightarrow> nat \<Rightarrow> nat option" where
  "multibyte c s len =
     (if 0xC2 \<le> c \<and> c \<le> 0xDF then tails s len 2 C_UTF8_CHAR_IS_TAIL
      else if c = 0xE0 then tails s len 3 (\<lambda>x. \<not> (x < 0xA0 \<or> x > 0xBF))
      else if 0xE1 \<le> c \<and> c \<le> 0xEC then tails s len 3 C_UTF8_CHAR_IS_TAIL
      else if c = 0xED then tails s len 3 (\<lambda>x. \<not> (x < 0x80 \<or> x > 0x9F))
      else if 0xEE \<le> c \<and> c \<le> 0xEF then tails s len 3 C_UTF8_CHAR_IS_TAIL
      else if c = 0xF0 then tails s len 4 (\<lambda>x. \<not> (x < 0x90 \<or> x > 0xBF))
      else if 0xF1 \<le> c \<and> c \<le> 0xF3 then tails s len 4 C_UTF8_CHAR_IS_TAIL
      else if c = 0xF4 then tails s len 4 (\<lambda>x. \<not> (x < 0x80 \<or> x > 0x8F))
      else Some 0)"

declare c_utf8_verify_ascii.simps [simp del]

lemma verify_ascii_le: "c_utf8_verify_ascii k a s len = Some (a', s', len') \<Longrightarrow> len' \<le> len"
proof (induction k a s len rule: c_utf8_verify_ascii.induct)
  case (1 k a s len)
  show ?case using "1.prems" "1.IH" ascii_words_le ascii_bytes_le unfolding c_utf8_verify_ascii.simps [of k a s len]
    by (fastforce split: if_splits bind_splits option.splits bool.splits)
qed

lemma verify_ascii_progress:
  assumes "load_8 s 0 = Some c" "0 < c" "c < 128" "0 < len" "c_utf8_verify_ascii k a s len = Some (a', s', len')"
  shows "len' < len"
proof (cases "a mod k = 0")
  case True
  with assms obtain a1 s1 len1 z a2 s2 len2 where
    w: "ascii_words k a s len = Some (a1, s1, len1)" "ascii_bytes a1 s1 len1 = Some (z, a2, s2, len2)"
    and r: "if z then len' = len2 else c_utf8_verify_ascii k a2 s2 len2 = Some (a', s', len')"
    unfolding c_utf8_verify_ascii.simps [of k a s len] by (auto split: if_splits bind_splits option.splits bool.splits)
  have "len2 < len" using ascii_scan_progress [OF assms(1,3,4) w] assms(2) by simp
  with r verify_ascii_le show ?thesis by (fastforce split: if_splits)
next
  case False
  with assms(1-5) verify_ascii_le [of k "a + 1" "drop 1 s" "len - 1" a' s' len'] show ?thesis
    unfolding c_utf8_verify_ascii.simps [of k a s len] by (auto split: if_splits)
qed

lemma multibyte_le:
  assumes "multibyte c s len = Some n"
  shows "n \<le> len"
proof -
  have "n \<le> len" if "tails s len k P = Some n" "2 \<le> k" for k P
    using that unfolding tails_def by (auto split: if_splits bind_splits)
  with assms show ?thesis unfolding multibyte_def by (auto split: if_splits)
qed

function c_utf8_verify :: "nat \<Rightarrow> nat \<Rightarrow> string \<Rightarrow> nat \<Rightarrow> (nat \<times> string \<times> nat) option" where
  "c_utf8_verify k a s len =
     (if len = 0 then Some (a, s, len)
      else
        case load_8 s 0 of
          None \<Rightarrow> None
        | Some c \<Rightarrow>
          if c = 0 then Some (a, s, len)
          else if c < 128 then
            (case c_utf8_verify_ascii k a s len of
               None \<Rightarrow> None
             | Some (a1, s1, len1) \<Rightarrow> c_utf8_verify k a1 s1 len1)
          else
            (case multibyte c s len of
               None \<Rightarrow> None
             | Some n \<Rightarrow> if n = 0 then Some (a, s, len) else c_utf8_verify k (a + n) (drop n s) (len - n)))"
  by auto
termination
  by (relation "measure (\<lambda>(k, a, s, len). len)") (auto dest: verify_ascii_progress)

declare c_utf8_verify.simps [simp del]

section \<open>The bit tricks\<close>

lemma or_split: "((a::nat) OR b) mod 256 = (a mod 256) OR (b mod 256)" "(a OR b) div 256 = (a div 256) OR (b div 256)"
  using take_bit_or [of 8 a b] drop_bit_or [of 8 a b] by (simp_all add: take_bit_eq_mod drop_bit_eq_div)

lemma and_split: "((a::nat) AND b) mod 256 = (a mod 256) AND (b mod 256)" "(a AND b) div 256 = (a div 256) AND (b div 256)"
  using take_bit_and [of 8 a b] drop_bit_and [of 8 a b] by (simp_all add: take_bit_eq_mod drop_bit_eq_div)

lemma zero_split: "(x::nat) = 0 \<longleftrightarrow> x mod 256 = 0 \<and> x div 256 = 0"
  by auto

lemma and_128: "(x::nat) AND 128 = 0 \<longleftrightarrow> even (x div 128)"
  using and_exp_eq_0_iff_not_bit [of x 7] by (simp add: bit_iff_odd)

lemma masks_Suc:
  assumes "k < 8"
  shows "C_UTF8_ASCII_MASK (Suc k) = 128 + 256 * C_UTF8_ASCII_MASK k" "C_UTF8_ASCII_SUB (Suc k) = 1 + 256 * C_UTF8_ASCII_SUB k"
proof -
  have "k = 0 \<or> k = 1 \<or> k = 2 \<or> k = 3 \<or> k = 4 \<or> k = 5 \<or> k = 6 \<or> k = 7" using assms by linarith
  then show "C_UTF8_ASCII_MASK (Suc k) = 128 + 256 * C_UTF8_ASCII_MASK k" "C_UTF8_ASCII_SUB (Suc k) = 1 + 256 * C_UTF8_ASCII_SUB k"
    by (auto simp: C_UTF8_ASCII_MASK_def C_UTF8_ASCII_SUB_def)
qed

lemma sub_less: "C_UTF8_ASCII_SUB k < 256 ^ k"
  by (simp add: C_UTF8_ASCII_SUB_def)

lemma word_is_ascii_Suc:
  assumes "k < 8" "b < 256" "w < 256 ^ k"
  shows "c_utf8_word_is_ascii (Suc k) (b + 256 * w) \<longleftrightarrow> 0 < b \<and> b < 128 \<and> c_utf8_word_is_ascii k w"
proof -
  define x where "x = (b + 256 * w + 256 ^ Suc k - C_UTF8_ASCII_SUB (Suc k)) mod 256 ^ Suc k"
  have lo: "(b + 256 * w) mod 256 = b" "(b + 256 * w) div 256 = w" using assms(2) by simp_all
  have m: "C_UTF8_ASCII_MASK (Suc k) mod 256 = 128" "C_UTF8_ASCII_MASK (Suc k) div 256 = C_UTF8_ASCII_MASK k"
    using masks_Suc(1) [OF assms(1)] by simp_all
  have split: "c_utf8_word_is_ascii (Suc k) (b + 256 * w) \<longleftrightarrow>
      (x mod 256 OR b) AND 128 = 0 \<and> (x div 256 OR w) AND C_UTF8_ASCII_MASK k = 0"
    unfolding c_utf8_word_is_ascii_def x_def [symmetric]
    by (subst zero_split) (simp add: and_split or_split m lo assms(2))
  have xm: "z mod 256 ^ Suc k = 256 * (z div 256 mod 256 ^ k) + z mod 256" for z :: nat
    by (simp add: mod_mult2_eq)
  show ?thesis
  proof (cases "b = 0")
    case True
    have "b + 256 * w + 256 ^ Suc k - C_UTF8_ASCII_SUB (Suc k) = 255 + 256 * (w + 256 ^ k - C_UTF8_ASCII_SUB k - 1)"
      using True sub_less [of k] masks_Suc(2) [OF assms(1)] by (simp add: algebra_simps)
    then have "x = 256 * ((w + 256 ^ k - C_UTF8_ASCII_SUB k - 1) mod 256 ^ k) + 255" unfolding x_def xm by simp
    then have "x mod 256 = 255" by simp
    with True split show ?thesis by (simp add: and_128)
  next
    case False
    have "b + 256 * w + 256 ^ Suc k - C_UTF8_ASCII_SUB (Suc k) = (b - 1) + 256 * (w + 256 ^ k - C_UTF8_ASCII_SUB k)"
      using False sub_less [of k] masks_Suc(2) [OF assms(1)] by (simp add: algebra_simps)
    then have x: "x = 256 * ((w + 256 ^ k - C_UTF8_ASCII_SUB k) mod 256 ^ k) + (b - 1)"
      using assms(2) unfolding x_def xm by simp
    then have "x mod 256 = b - 1" "x div 256 = (w + 256 ^ k - C_UTF8_ASCII_SUB k) mod 256 ^ k" using assms(2) by simp_all
    moreover have "((b - 1) OR b) AND 128 = 0 \<longleftrightarrow> b < 128"
    proof -
      have "((b - 1) OR b) AND 128 = 0 \<longleftrightarrow> \<not> bit (b - 1) 7 \<and> \<not> bit b 7"
        using and_exp_eq_0_iff_not_bit [of "(b - 1) OR b" 7] by (simp add: bit_or_iff)
      also have "\<dots> \<longleftrightarrow> b < 128"
      proof (cases "b < 128")
        case False
        then have "b div 128 = 1" using assms(2) by linarith
        with False show ?thesis by (simp add: bit_iff_odd)
      qed (simp add: bit_iff_odd)
      finally show ?thesis .
    qed
    ultimately show ?thesis using False split c_utf8_word_is_ascii_def [of k w] by simp
  qed
qed

lemma horner_bytes_less: "(horner_sum of_char 256 bs :: nat) < 256 ^ length bs"
proof (induction bs)
  case (Cons c bs)
  then have "(of_char c :: nat) + 256 * horner_sum of_char 256 bs < 256 * 256 ^ length bs"
    using nat_of_char_less_256 [of c] by linarith
  then show ?case by simp
qed simp

lemma word_is_ascii_bytes:
  "length bs \<le> 8 \<Longrightarrow> c_utf8_word_is_ascii (length bs) (horner_sum of_char 256 bs) \<longleftrightarrow>
     (\<forall>c \<in> set bs. (0::nat) < of_char c \<and> of_char c < (128::nat))"
proof (induction bs)
  case Nil
  show ?case by (simp add: c_utf8_word_is_ascii_def C_UTF8_ASCII_MASK_def)
next
  case (Cons b bs)
  have "(horner_sum of_char 256 bs :: nat) < 256 ^ length bs"
    by (rule horner_bytes_less)
  with Cons word_is_ascii_Suc [of "length bs" "of_char b" "horner_sum of_char 256 bs"] show ?case by simp
qed

lemma is_tail_iff: "x < 256 \<Longrightarrow> C_UTF8_CHAR_IS_TAIL x \<longleftrightarrow> 128 \<le> x \<and> x < 192"
proof -
  assume "x < 256"
  have "x AND 192 = 64 * ((x div 64) AND 3)"
    using take_bit_and [of 6 x 192] drop_bit_and [of 6 x 192] div_mult_mod_eq [of "x AND 192" 64]
    by (simp add: take_bit_eq_mod drop_bit_eq_div)
  also have "(x div 64) AND 3 = x div 64"
    using \<open>x < 256\<close> take_bit_eq_mask [of 2 "x div 64"] by (simp add: take_bit_eq_mod mask_eq_exp_minus_1)
  finally show ?thesis unfolding C_UTF8_CHAR_IS_TAIL_def by auto
qed

section \<open>The scan of ASCII\<close>

definition ascii_char :: "char \<Rightarrow> bool" where
  "ascii_char c \<longleftrightarrow> (0::nat) < of_char c \<and> of_char c < (128::nat)"

text \<open>A scan that went from one place to another over characters with a property.\<close>

definition moved :: "(string \<Rightarrow> bool) \<Rightarrow> nat \<Rightarrow> string \<Rightarrow> nat \<Rightarrow> nat \<Rightarrow> string \<Rightarrow> nat \<Rightarrow> bool" where
  "moved P a s len a' s' len' \<longleftrightarrow> (\<exists>n \<le> len. a' = a + n \<and> s' = drop n s \<and> len' = len - n \<and> n \<le> length s \<and> P (take n s))"

lemma moved_refl: "P [] \<Longrightarrow> moved P a s len a s len"
  unfolding moved_def by (rule exI [of _ 0]) simp

lemma moved_trans:
  assumes "moved P a s len a1 s1 len1" "moved P a1 s1 len1 a2 s2 len2" "\<And>x y. P x \<Longrightarrow> P y \<Longrightarrow> P (x @ y)"
  shows "moved P a s len a2 s2 len2"
proof -
  from assms(1,2) obtain n m where
    n: "n \<le> len" "a1 = a + n" "s1 = drop n s" "len1 = len - n" "n \<le> length s" "P (take n s)"
    and m: "m \<le> len1" "a2 = a1 + m" "s2 = drop m s1" "len2 = len1 - m" "m \<le> length s1" "P (take m s1)"
    by (auto simp: moved_def)
  have "P (take (n + m) s)" using assms(3) [OF n(6) m(6)] n(3) by (simp add: take_add)
  with n m show ?thesis unfolding moved_def by (intro exI [of _ "n + m"]) (auto simp: add.commute)
qed

abbreviation all_ascii :: "string \<Rightarrow> bool" where
  "all_ascii \<equiv> list_all ascii_char"

lemma moved_one: "load_8 s 0 = Some c \<Longrightarrow> 0 < c \<Longrightarrow> c < 128 \<Longrightarrow> 0 < len \<Longrightarrow> moved all_ascii a s len (a + 1) (drop 1 s) (len - 1)"
  unfolding moved_def by (rule exI [of _ 1]) (cases s; auto simp: load_8_def ascii_char_def split: if_splits)

lemma ascii_words_ok:
  "len \<le> length s \<Longrightarrow> k \<le> 8 \<Longrightarrow> \<exists>a' s' len'. ascii_words k a s len = Some (a', s', len') \<and> moved all_ascii a s len a' s' len'"
proof (induction k a s len rule: ascii_words.induct)
  case (1 k a s len)
  let ?w0 = "horner_sum of_char 256 (take k s) :: nat" and ?w1 = "horner_sum of_char 256 (take k (drop k s)) :: nat"
  show ?case
  proof (cases "0 < k \<and> len \<ge> 2 * k \<and> c_utf8_word_is_ascii k ?w0 \<and> c_utf8_word_is_ascii k ?w1")
    case False
    then have "ascii_words k a s len = Some (a, s, len)"
      using "1.prems" unfolding ascii_words.simps [of k a s len] by (auto simp: load_word_def)
    then show ?thesis by (auto intro: moved_refl)
  next
    case True
    then have l: "load_word k s 0 = Some ?w0" "load_word k s k = Some ?w1" "length (take k s) = k" "length (take k (drop k s)) = k"
      using "1.prems" by (auto simp: load_word_def)
    have "all_ascii (take k s)" "all_ascii (take k (drop k s))"
      using True word_is_ascii_bytes [of "take k s"] word_is_ascii_bytes [of "take k (drop k s)"] l(3,4) "1.prems"(2)
      by (auto simp: list_all_iff ascii_char_def)
    then have asc: "all_ascii (take (2 * k) s)" by (simp add: mult_2 take_add)
    have step: "moved all_ascii a s len (a + 2 * k) (drop (2 * k) s) (len - 2 * k)"
      unfolding moved_def using True "1.prems" asc by (intro exI [of _ "2 * k"]) auto
    have "\<exists>a' s' len'. ascii_words k (a + 2 * k) (drop (2 * k) s) (len - 2 * k) = Some (a', s', len') \<and>
        moved all_ascii (a + 2 * k) (drop (2 * k) s) (len - 2 * k) a' s' len'"
      using "1.IH" [of ?w0 ?w1] True l "1.prems" by auto
    with step show ?thesis
      using True l moved_trans [OF step] unfolding ascii_words.simps [of k a s len] by fastforce
  qed
qed

text \<open>Where a scan of ASCII stops.\<close>

definition no_ascii :: "string \<Rightarrow> nat \<Rightarrow> bool" where
  "no_ascii s len \<longleftrightarrow> len = 0 \<or> \<not> ascii_char (s ! 0)"

lemma ascii_bytes_ok:
  "len \<le> length s \<Longrightarrow> \<exists>z a' s' len'. ascii_bytes a s len = Some (z, a', s', len') \<and> moved all_ascii a s len a' s' len' \<and> no_ascii s' len'"
proof (induction a s len rule: ascii_bytes.induct)
  case (1 a s)
  show ?case by (auto simp: no_ascii_def intro: moved_refl)
next
  case (2 a s len)
  then obtain c where c: "load_8 s 0 = Some c" "c = of_char (s ! 0)" by (cases s) (auto simp: load_8_def)
  show ?case
  proof (cases "0 < c \<and> c < 128")
    case True
    with 2 c have "\<exists>z a' s' len'. ascii_bytes (a + 1) (drop 1 s) len = Some (z, a', s', len') \<and>
        moved all_ascii (a + 1) (drop 1 s) len a' s' len' \<and> no_ascii s' len'" by fastforce
    with True c moved_one [OF c(1), of "Suc len" a] moved_trans [of all_ascii a s "Suc len" "a + 1" "drop 1 s" len] show ?thesis
      by fastforce
  next
    case False
    with c show ?thesis by (auto simp: no_ascii_def ascii_char_def intro: moved_refl)
  qed
qed

lemma verify_ascii_ok:
  "len \<le> length s \<Longrightarrow> k \<le> 8 \<Longrightarrow>
   \<exists>a' s' len'. c_utf8_verify_ascii k a s len = Some (a', s', len') \<and> moved all_ascii a s len a' s' len' \<and> no_ascii s' len'"
proof (induction k a s len rule: c_utf8_verify_ascii.induct)
  case (1 k a s len)
  show ?case
  proof (cases "len = 0")
    case True
    then show ?thesis unfolding c_utf8_verify_ascii.simps [of k a s len] by (auto simp: no_ascii_def intro: moved_refl)
  next
    case len: False
    with "1.prems" obtain c where c: "load_8 s 0 = Some c" "c = of_char (s ! 0)" by (cases s) (auto simp: load_8_def)
    consider (high) "c \<ge> 128" | (nul) "c = 0" "a mod k \<noteq> 0" | (aligned) "c < 128" "a mod k = 0" | (single) "0 < c" "c < 128" "a mod k \<noteq> 0" by linarith
    then show ?thesis
    proof cases
      case high
      with c show ?thesis unfolding c_utf8_verify_ascii.simps [of k a s len] by (auto simp: no_ascii_def ascii_char_def intro: moved_refl)
    next
      case nul
      with c show ?thesis unfolding c_utf8_verify_ascii.simps [of k a s len] by (auto simp: no_ascii_def ascii_char_def intro: moved_refl)
    next
      case aligned
      from ascii_words_ok [OF "1.prems"] obtain a1 s1 len1 where
        w: "ascii_words k a s len = Some (a1, s1, len1)" "moved all_ascii a s len a1 s1 len1" by blast
      then have l1: "len1 \<le> length s1" using "1.prems"(1) by (auto simp: moved_def)
      from ascii_bytes_ok [OF this] obtain z a2 s2 len2 where
        b: "ascii_bytes a1 s1 len1 = Some (z, a2, s2, len2)" "moved all_ascii a1 s1 len1 a2 s2 len2" "no_ascii s2 len2" by blast
      have m: "moved all_ascii a s len a2 s2 len2" by (rule moved_trans [OF w(2) b(2)]) simp
      then have l2: "len2 \<le> length s2" using "1.prems"(1) by (auto simp: moved_def)
      show ?thesis
      proof (cases z)
        case True
        with aligned len c(1) w(1) b(1,3) m show ?thesis unfolding c_utf8_verify_ascii.simps [of k a s len] by simp
      next
        case False
        have "\<exists>a' s' len'. c_utf8_verify_ascii k a2 s2 len2 = Some (a', s', len') \<and> moved all_ascii a2 s2 len2 a' s' len' \<and> no_ascii s' len'"
          using "1.IH" (1) [of c "(a1, s1, len1)" a1 "(s1, len1)" s1 len1 "(z, a2, s2, len2)" z "(a2, s2, len2)" a2 "(s2, len2)" s2 len2]
            len c(1) aligned w(1) b(1) False l2 "1.prems"(2) by simp
        then obtain a' s' len' where r: "c_utf8_verify_ascii k a2 s2 len2 = Some (a', s', len')" "moved all_ascii a2 s2 len2 a' s' len'" "no_ascii s' len'"
          by blast
        have "moved all_ascii a s len a' s' len'" by (rule moved_trans [OF m r(2)]) simp
        with False aligned len c(1) w(1) b(1) r(1,3) show ?thesis unfolding c_utf8_verify_ascii.simps [of k a s len] by simp
      qed
    next
      case single
      have "\<exists>a' s' len'. c_utf8_verify_ascii k (a + 1) (drop 1 s) (len - 1) = Some (a', s', len') \<and>
          moved all_ascii (a + 1) (drop 1 s) (len - 1) a' s' len' \<and> no_ascii s' len'"
        using "1.IH" (2) [of c] len c(1) single "1.prems" by simp
      then obtain a' s' len' where r: "c_utf8_verify_ascii k (a + 1) (drop 1 s) (len - 1) = Some (a', s', len')"
        "moved all_ascii (a + 1) (drop 1 s) (len - 1) a' s' len'" "no_ascii s' len'" by blast
      have "moved all_ascii a s len a' s' len'" by (rule moved_trans [OF moved_one [OF c(1) single(1,2)] r(2)]) (use len in simp_all)
      with single len c(1) r(1,3) show ?thesis unfolding c_utf8_verify_ascii.simps [of k a s len] by simp
    qed
  qed
qed

section \<open>The encoding\<close>

text \<open>The reference: the encoding of a scalar value of Unicode; the null character does not count.\<close>

definition scalar_value :: "nat \<Rightarrow> bool" where
  "scalar_value c \<longleftrightarrow> 0 < c \<and> c < 0x110000 \<and> \<not> (0xD800 \<le> c \<and> c \<le> 0xDFFF)"

definition utf8_bytes :: "nat \<Rightarrow> nat list" where
  "utf8_bytes c =
     (if c < 0x80 then [c]
      else if c < 0x800 then [0xC0 + c div 0x40, 0x80 + c mod 0x40]
      else if c < 0x10000 then [0xE0 + c div 0x1000, 0x80 + c div 0x40 mod 0x40, 0x80 + c mod 0x40]
      else [0xF0 + c div 0x40000, 0x80 + c div 0x1000 mod 0x40, 0x80 + c div 0x40 mod 0x40, 0x80 + c mod 0x40])"

definition utf8_encode :: "nat \<Rightarrow> string" where
  "utf8_encode c = map char_of (utf8_bytes c)"

definition utf8_text :: "string \<Rightarrow> bool" where
  "utf8_text s \<longleftrightarrow> (\<exists>cs. (\<forall>c \<in> set cs. scalar_value c) \<and> s = concat (map utf8_encode cs))"

definition tail :: "nat \<Rightarrow> bool" where
  "tail x \<longleftrightarrow> 0x80 \<le> x \<and> x < 0xC0"

text \<open>The table of well-formed sequences, which the code follows, and the encoding.\<close>

definition wf2 :: "nat \<Rightarrow> nat \<Rightarrow> bool" where
  "wf2 c b1 \<longleftrightarrow> 0xC2 \<le> c \<and> c \<le> 0xDF \<and> tail b1"

definition wf3 :: "nat \<Rightarrow> nat \<Rightarrow> nat \<Rightarrow> bool" where
  "wf3 c b1 b2 \<longleftrightarrow> 0xE0 \<le> c \<and> c \<le> 0xEF \<and> tail b1 \<and> (c = 0xE0 \<longrightarrow> 0xA0 \<le> b1) \<and> (c = 0xED \<longrightarrow> b1 \<le> 0x9F) \<and> tail b2"

definition wf4 :: "nat \<Rightarrow> nat \<Rightarrow> nat \<Rightarrow> nat \<Rightarrow> bool" where
  "wf4 c b1 b2 b3 \<longleftrightarrow> 0xF0 \<le> c \<and> c \<le> 0xF4 \<and> tail b1 \<and> (c = 0xF0 \<longrightarrow> 0x90 \<le> b1) \<and> (c = 0xF4 \<longrightarrow> b1 \<le> 0x8F) \<and> tail b2 \<and> tail b3"

lemma digits: "(x::nat) = q * 0x40 + r \<Longrightarrow> r < 0x40 \<Longrightarrow> x div 0x40 = q \<and> x mod 0x40 = r"
  by simp

lemma wf2_encodes: "wf2 c b1 \<longleftrightarrow> (\<exists>x. scalar_value x \<and> utf8_bytes x = [c, b1])"
proof
  assume w: "wf2 c b1"
  define x where "x = (c - 0xC0) * 0x40 + (b1 - 0x80)"
  have "b1 - 0x80 < 0x40" using w by (auto simp: wf2_def tail_def)
  note d = digits [OF x_def this]
  have "0x80 \<le> x" "x < 0x800" using w by (auto simp: wf2_def tail_def x_def)
  then have "utf8_bytes x = [c, b1]" "scalar_value x" using w d by (simp_all add: utf8_bytes_def scalar_value_def wf2_def tail_def)
  then show "\<exists>x. scalar_value x \<and> utf8_bytes x = [c, b1]" by blast
next
  assume "\<exists>x. scalar_value x \<and> utf8_bytes x = [c, b1]"
  then obtain x where "utf8_bytes x = [c, b1]" by blast
  then have "0x80 \<le> x" "x < 0x800" "c = 0xC0 + x div 0x40" "b1 = 0x80 + x mod 0x40"
    by (auto simp: utf8_bytes_def split: if_splits)
  then show "wf2 c b1" by (auto simp: wf2_def tail_def)
qed

lemma wf3_encodes: "wf3 c b1 b2 \<longleftrightarrow> (\<exists>x. scalar_value x \<and> utf8_bytes x = [c, b1, b2])"
proof
  assume w: "wf3 c b1 b2"
  have t: "b1 - 0x80 < 0x40" "b2 - 0x80 < 0x40" using w by (auto simp: wf3_def tail_def)
  define y where "y = (c - 0xE0) * 0x40 + (b1 - 0x80)"
  define x where "x = y * 0x40 + (b2 - 0x80)"
  note d = digits [OF x_def t(2)]
  have "x div 0x40 div 0x40 = c - 0xE0" "x div 0x40 mod 0x40 = b1 - 0x80" using d digits [OF y_def t(1)] by simp_all
  moreover have "x div 0x40 div 0x40 = x div 0x1000" by (simp add: div_mult2_eq [symmetric])
  moreover have "0x800 \<le> x" "x < 0x10000" using w by (auto simp: wf3_def tail_def x_def y_def)
  moreover have "\<not> (0xD800 \<le> x \<and> x \<le> 0xDFFF)"
  proof -
    consider "c \<le> 0xEC" | "c = 0xED" | "0xEE \<le> c" by linarith
    then show ?thesis by cases (use w in \<open>auto simp: wf3_def tail_def x_def y_def\<close>)
  qed
  moreover have "c = 0xE0 + (c - 0xE0)" "b1 = 0x80 + (b1 - 0x80)" "b2 = 0x80 + (b2 - 0x80)" using w by (simp_all add: wf3_def tail_def)
  ultimately have "utf8_bytes x = [c, b1, b2]" "scalar_value x"
    using d by (simp_all add: utf8_bytes_def scalar_value_def)
  then show "\<exists>x. scalar_value x \<and> utf8_bytes x = [c, b1, b2]" by blast
next
  assume "\<exists>x. scalar_value x \<and> utf8_bytes x = [c, b1, b2]"
  then obtain x where "scalar_value x" "utf8_bytes x = [c, b1, b2]" by blast
  then have x: "scalar_value x" "0x800 \<le> x" "x < 0x10000" "c = 0xE0 + x div 0x1000" "b1 = 0x80 + x div 0x40 mod 0x40" "b2 = 0x80 + x mod 0x40"
    by (auto simp: utf8_bytes_def split: if_splits)
  define q r where "q = x div 0x40 div 0x40" and "r = x div 0x40 mod 0x40"
  have "x div 0x1000 = q" by (simp add: q_def div_mult2_eq [symmetric])
  moreover have "x div 0x40 = q * 0x40 + r" "r < 0x40" by (simp_all add: q_def r_def)
  moreover have "0x20 \<le> x div 0x40" "x div 0x40 < 0x400" using x(2,3) by auto
  moreover have "\<not> (0x360 \<le> x div 0x40 \<and> x div 0x40 \<le> 0x37F)" using x(1) by (auto simp: scalar_value_def)
  ultimately have "c = 0xE0 + q" "b1 = 0x80 + r" "r < 0x40" "0x20 \<le> q * 0x40 + r" "q * 0x40 + r < 0x400" "\<not> (0x360 \<le> q * 0x40 + r \<and> q * 0x40 + r \<le> 0x37F)"
    using x(4,5) by (simp_all add: r_def)
  with x(6) show "wf3 c b1 b2" by (auto simp: wf3_def tail_def)
qed

lemma wf4_encodes: "wf4 c b1 b2 b3 \<longleftrightarrow> (\<exists>x. scalar_value x \<and> utf8_bytes x = [c, b1, b2, b3])"
proof
  assume w: "wf4 c b1 b2 b3"
  have t: "b1 - 0x80 < 0x40" "b2 - 0x80 < 0x40" "b3 - 0x80 < 0x40" using w by (auto simp: wf4_def tail_def)
  define z where "z = (c - 0xF0) * 0x40 + (b1 - 0x80)"
  define y where "y = z * 0x40 + (b2 - 0x80)"
  define x where "x = y * 0x40 + (b3 - 0x80)"
  note d = digits [OF x_def t(3)] digits [OF y_def t(2)] digits [OF z_def t(1)]
  have g: "x div 0x40 div 0x40 = x div 0x1000" "x div 0x40 div 0x40 div 0x40 = x div 0x40000" by (simp_all add: div_mult2_eq [symmetric])
  have "0x10000 \<le> x" "x < 0x110000" using w by (auto simp: wf4_def tail_def x_def y_def z_def)
  then have "utf8_bytes x = [c, b1, b2, b3]" "scalar_value x"
    using w d g by (simp_all add: utf8_bytes_def scalar_value_def wf4_def tail_def)
  then show "\<exists>x. scalar_value x \<and> utf8_bytes x = [c, b1, b2, b3]" by blast
next
  assume "\<exists>x. scalar_value x \<and> utf8_bytes x = [c, b1, b2, b3]"
  then obtain x where "scalar_value x" "utf8_bytes x = [c, b1, b2, b3]" by blast
  then have x: "0x10000 \<le> x" "x < 0x110000" "c = 0xF0 + x div 0x40000" "b1 = 0x80 + x div 0x1000 mod 0x40"
    "b2 = 0x80 + x div 0x40 mod 0x40" "b3 = 0x80 + x mod 0x40"
    by (auto simp: utf8_bytes_def scalar_value_def split: if_splits)
  define q r where "q = x div 0x1000 div 0x40" and "r = x div 0x1000 mod 0x40"
  have "x div 0x40000 = q" by (simp add: q_def div_mult2_eq [symmetric])
  moreover have "x div 0x1000 = q * 0x40 + r" "r < 0x40" by (simp_all add: q_def r_def)
  moreover have "0x10 \<le> x div 0x1000" "x div 0x1000 < 0x110" using x(1,2) by auto
  ultimately have "c = 0xF0 + q" "b1 = 0x80 + r" "r < 0x40" "0x10 \<le> q * 0x40 + r" "q * 0x40 + r < 0x110" using x(3,4) by (simp_all add: r_def)
  with x(5,6) show "wf4 c b1 b2 b3" by (auto simp: wf4_def tail_def)
qed

section \<open>Properties\<close>

lemma utf8_bytes_less: "scalar_value x \<Longrightarrow> b \<in> set (utf8_bytes x) \<Longrightarrow> b < 256"
  unfolding utf8_bytes_def scalar_value_def by (auto split: if_splits)

text \<open>One step of the scan over a character beyond ASCII, by the bytes of the memory.\<close>

definition byte :: "string \<Rightarrow> nat \<Rightarrow> nat" where
  "byte s i = of_char (s ! i)"

lemma byte_less: "byte s i < 256"
  by (simp add: byte_def)

lemma tails_eq:
  assumes "len \<le> length s" "n \<in> {2, 3, 4}"
  shows "tails s len n P = Some (if n \<le> len \<and> P (byte s 1) \<and> (3 \<le> n \<longrightarrow> tail (byte s 2)) \<and> (n = 4 \<longrightarrow> tail (byte s 3)) then n else 0)"
  using assms is_tail_iff [OF byte_less, of s 2] is_tail_iff [OF byte_less, of s 3]
  by (auto simp: tails_def load_8_def tail_def byte_def)

definition sequence_length :: "string \<Rightarrow> nat \<Rightarrow> nat" where
  "sequence_length s len =
     (if 2 \<le> len \<and> wf2 (byte s 0) (byte s 1) then 2
      else if 3 \<le> len \<and> wf3 (byte s 0) (byte s 1) (byte s 2) then 3
      else if 4 \<le> len \<and> wf4 (byte s 0) (byte s 1) (byte s 2) (byte s 3) then 4
      else 0)"

lemma multibyte_eq:
  assumes "len \<le> length s"
  shows "multibyte (byte s 0) s len = Some (sequence_length s len)"
proof -
  note t = tails_eq [OF assms, of 2] tails_eq [OF assms, of 3] tails_eq [OF assms, of 4]
  have tl: "C_UTF8_CHAR_IS_TAIL (byte s (Suc 0)) \<longleftrightarrow> tail (byte s (Suc 0))" using is_tail_iff [OF byte_less, of s 1] by (simp add: tail_def)
  define c where "c = byte s 0"
  consider "c < 0xC2" | "0xC2 \<le> c" "c \<le> 0xDF" | "c = 0xE0" | "0xE1 \<le> c" "c \<le> 0xEC" | "c = 0xED" | "0xEE \<le> c" "c \<le> 0xEF"
    | "c = 0xF0" | "0xF1 \<le> c" "c \<le> 0xF3" | "c = 0xF4" | "0xF4 < c" by linarith
  then show ?thesis
    unfolding c_def [symmetric] multibyte_def sequence_length_def wf2_def wf3_def wf4_def
    by cases (simp_all add: t tl, auto simp: tail_def)
qed

lemma take_nth: "n \<le> length s \<Longrightarrow> take n s = map char_of (map (byte s) [0..<n])"
  by (rule nth_equalityI) (simp_all add: byte_def)

lemma sequence_encodes:
  assumes "len \<le> length s" "sequence_length s len = n" "n \<noteq> 0"
  shows "\<exists>x. scalar_value x \<and> take n s = utf8_encode x \<and> n \<le> len"
proof -
  have "n \<le> len" using assms(2,3) by (auto simp: sequence_length_def split: if_splits)
  moreover have "n = 2 \<and> wf2 (byte s 0) (byte s 1) \<or> n = 3 \<and> wf3 (byte s 0) (byte s 1) (byte s 2) \<or>
      n = 4 \<and> wf4 (byte s 0) (byte s 1) (byte s 2) (byte s 3)"
    using assms(2,3) by (auto simp: sequence_length_def split: if_splits)
  moreover have "map (byte s) [0..<2] = [byte s 0, byte s 1]" "map (byte s) [0..<3] = [byte s 0, byte s 1, byte s 2]"
    "map (byte s) [0..<4] = [byte s 0, byte s 1, byte s 2, byte s 3]" by (simp_all add: numeral_eq_Suc)
  ultimately have "n \<le> len" "\<exists>x. scalar_value x \<and> utf8_bytes x = map (byte s) [0..<n]"
    using wf2_encodes wf3_encodes wf4_encodes by metis+
  then show ?thesis using take_nth [of n s] assms(1) by (auto simp: utf8_encode_def)
qed

lemma utf8_bytes_cases:
  assumes "scalar_value x"
  obtains "x < 0x80" "utf8_bytes x = [x]"
  | c b1 where "utf8_bytes x = [c, b1]" "wf2 c b1"
  | c b1 b2 where "utf8_bytes x = [c, b1, b2]" "wf3 c b1 b2"
  | c b1 b2 b3 where "utf8_bytes x = [c, b1, b2, b3]" "wf4 c b1 b2 b3"
proof -
  have "utf8_bytes x = [x] \<and> x < 0x80 \<or> (\<exists>c b1. utf8_bytes x = [c, b1]) \<or> (\<exists>c b1 b2. utf8_bytes x = [c, b1, b2]) \<or>
      (\<exists>c b1 b2 b3. utf8_bytes x = [c, b1, b2, b3])" by (simp add: utf8_bytes_def)
  then show thesis using that assms wf2_encodes wf3_encodes wf4_encodes by metis
qed

lemma encode_nth:
  assumes "scalar_value x" "take (length (utf8_encode x)) s = utf8_encode x" "i < length (utf8_bytes x)"
  shows "byte s i = utf8_bytes x ! i"
proof -
  have "s ! i = utf8_encode x ! i" using assms(2,3) by (metis length_map nth_take utf8_encode_def)
  moreover have "utf8_bytes x ! i < 256" using utf8_bytes_less [OF assms(1)] assms(3) by simp
  ultimately show ?thesis using assms(3) by (simp add: byte_def utf8_encode_def of_char_of)
qed

lemma encode_sequence:
  assumes "scalar_value x" "take (length (utf8_encode x)) s = utf8_encode x" "length (utf8_encode x) \<le> len" "128 \<le> byte s 0"
  shows "sequence_length s len = length (utf8_encode x)"
proof -
  note nth = encode_nth [OF assms(1,2)]
  have len: "length (utf8_encode x) = length (utf8_bytes x)" by (simp add: utf8_encode_def)
  from assms(1) show ?thesis
  proof (cases rule: utf8_bytes_cases)
    case 1
    with nth [of 0] assms(4) show ?thesis by simp
  next
    case (2 c b1)
    with nth [of 0] nth [of 1] assms(3) len show ?thesis by (simp add: sequence_length_def)
  next
    case (3 c b1 b2)
    with nth [of 0] nth [of 1] nth [of 2] assms(3) len show ?thesis by (simp add: sequence_length_def wf2_def wf3_def)
  next
    case (4 c b1 b2 b3)
    with nth [of 0] nth [of 1] nth [of 2] nth [of 3] assms(3) len show ?thesis by (simp add: sequence_length_def wf2_def wf3_def wf4_def)
  qed
qed

lemma utf8_text_Nil [simp]: "utf8_text []"
  unfolding utf8_text_def by (rule exI [of _ "[]"]) simp

lemma utf8_text_append: "utf8_text x \<Longrightarrow> utf8_text y \<Longrightarrow> utf8_text (x @ y)"
  unfolding utf8_text_def by (elim exE conjE, rule_tac x = "cs @ csa" in exI) auto

lemma utf8_text_encode: "scalar_value x \<Longrightarrow> utf8_text (utf8_encode x)"
  unfolding utf8_text_def by (rule exI [of _ "[x]"]) simp

lemma utf8_encode_ascii: "ascii_char c \<Longrightarrow> utf8_encode (of_char c) = [c] \<and> scalar_value (of_char c)"
  by (simp add: utf8_encode_def utf8_bytes_def scalar_value_def ascii_char_def)

lemma ascii_text: "all_ascii x \<Longrightarrow> utf8_text x"
proof (induction x)
  case (Cons c x)
  then have "utf8_text [c]" using utf8_encode_ascii utf8_text_encode by (metis list.pred_inject(2))
  with Cons show ?case using utf8_text_append [of "[c]" x] by simp
qed simp

lemma utf8_text_split:
  assumes "utf8_text t" "t \<noteq> []"
  obtains x t' where "scalar_value x" "t = utf8_encode x @ t'" "utf8_text t'"
proof -
  from assms(1) obtain cs where cs: "\<forall>c \<in> set cs. scalar_value c" "t = concat (map utf8_encode cs)" by (auto simp: utf8_text_def)
  with assms(2) obtain x cs' where "cs = x # cs'" by (cases cs) auto
  with cs that show thesis by (auto simp: utf8_text_def)
qed

lemma encode_first: "scalar_value x \<Longrightarrow> byte (utf8_encode x @ t) 0 = utf8_bytes x ! 0"
  by (rule encode_nth) (auto simp: utf8_encode_def utf8_bytes_def)

lemma strip_ascii:
  assumes "utf8_text (c # t)" "ascii_char c"
  shows "utf8_text t"
proof -
  from utf8_text_split [OF assms(1)] obtain x t' where x: "scalar_value x" "c # t = utf8_encode x @ t'" "utf8_text t'" by blast
  have "utf8_bytes x ! 0 < 128" using encode_first [OF x(1), of t'] assms(2) by (simp add: x(2) [symmetric] byte_def ascii_char_def)
  from x(1) this have "length (utf8_encode x) = 1" by (cases rule: utf8_bytes_cases) (auto simp: utf8_encode_def wf2_def wf3_def wf4_def)
  with x(2,3) show ?thesis by (cases "utf8_encode x") auto
qed

lemma strip_ascii_prefix: "utf8_text (p @ t) \<Longrightarrow> all_ascii p \<Longrightarrow> utf8_text t"
  by (induction p) (auto dest: strip_ascii)

text \<open>No text goes further than the scan.\<close>

definition furthest :: "string \<Rightarrow> nat \<Rightarrow> nat \<Rightarrow> bool" where
  "furthest s len len' \<longleftrightarrow> (\<forall>m \<le> len. utf8_text (take m s) \<longrightarrow> m \<le> len - len')"

lemma furthest_step:
  assumes "n \<le> len" "furthest (drop n s) (len - n) len'" "len' \<le> len - n"
    "\<And>m. n \<le> m \<Longrightarrow> m \<le> len \<Longrightarrow> utf8_text (take m s) \<Longrightarrow> utf8_text (drop n (take m s))"
  shows "furthest s len len'"
  unfolding furthest_def
proof (intro allI impI)
  fix m assume m: "m \<le> len" "utf8_text (take m s)"
  show "m \<le> len - len'"
  proof (cases "n \<le> m")
    case True
    have "utf8_text (take (m - n) (drop n s))" using assms(4) [OF True m] by (simp add: drop_take)
    with assms(2) m(1) have "m - n \<le> len - n - len'" unfolding furthest_def by simp
    with True assms(1,3) show ?thesis by simp
  qed (use assms(1,3) in simp)
qed

lemma furthest_stop:
  assumes "len \<le> length s" "\<And>x. scalar_value x \<Longrightarrow> take (length (utf8_encode x)) s = utf8_encode x \<Longrightarrow> len < length (utf8_encode x)"
  shows "furthest s len len"
  unfolding furthest_def
proof (intro allI impI)
  fix m assume m: "m \<le> len" "utf8_text (take m s)"
  show "m \<le> len - len"
  proof (rule ccontr)
    assume "\<not> m \<le> len - len"
    then have "take m s \<noteq> []" using m(1) assms(1) by auto
    with m(2) obtain x t where x: "scalar_value x" "take m s = utf8_encode x @ t" using utf8_text_split by metis
    then have "length (utf8_encode x) \<le> m" using m(1) assms(1) by (metis length_append length_take le_add1 min.absorb2 order_trans)
    moreover have "take (length (utf8_encode x)) s = utf8_encode x"
      using x(2) calculation by (metis append_eq_conv_conj min.absorb1 take_take)
    ultimately show False using assms(2) [OF x(1)] m(1) by simp
  qed
qed

lemma c_utf8_verify_ok:
  "len \<le> length s \<Longrightarrow> k \<le> 8 \<Longrightarrow>
   \<exists>a' s' len'. c_utf8_verify k a s len = Some (a', s', len') \<and> moved utf8_text a s len a' s' len' \<and> furthest s len len'"
proof (induction k a s len rule: c_utf8_verify.induct)
  case (1 k a s len)
  have stop: "moved utf8_text a s len a s len" by (rule moved_refl) simp
  show ?case
  proof (cases "len = 0")
    case True
    with stop show ?thesis unfolding c_utf8_verify.simps [of k a s len] by (simp add: furthest_def)
  next
    case len: False
    then have c: "load_8 s 0 = Some (byte s 0)" using "1.prems" by (cases s) (auto simp: load_8_def byte_def)
    consider (nul) "byte s 0 = 0" | (ascii) "0 < byte s 0" "byte s 0 < 128" | (multi) "128 \<le> byte s 0" by linarith
    then show ?thesis
    proof cases
      case nul
      have "furthest s len len"
      proof (rule furthest_stop [OF "1.prems"(1)])
        fix x assume x: "scalar_value x" "take (length (utf8_encode x)) s = utf8_encode x"
        then have "utf8_bytes x ! 0 = 0" using encode_nth [OF x, of 0] nul by (simp add: utf8_bytes_def split: if_splits)
        with x(1) show "len < length (utf8_encode x)" by (simp add: utf8_bytes_def scalar_value_def split: if_splits)
      qed
      with nul len c stop show ?thesis unfolding c_utf8_verify.simps [of k a s len] by simp
    next
      case ascii
      from verify_ascii_ok [OF "1.prems"] obtain a1 s1 len1 where
        v: "c_utf8_verify_ascii k a s len = Some (a1, s1, len1)" "moved all_ascii a s len a1 s1 len1" by blast
      from v(2) obtain n where n: "n \<le> len" "a1 = a + n" "s1 = drop n s" "len1 = len - n" "n \<le> length s" "all_ascii (take n s)"
        by (auto simp: moved_def)
      have m: "moved utf8_text a s len a1 s1 len1" using n ascii_text unfolding moved_def by blast
      from "1.IH" (1) [of "byte s 0" "(a1, s1, len1)" a1 "(s1, len1)" s1 len1] len c ascii v(1) n "1.prems" diff_le_mono [OF "1.prems"(1), of n] obtain a' s' len' where
        r: "c_utf8_verify k a1 s1 len1 = Some (a', s', len')" "moved utf8_text a1 s1 len1 a' s' len'" "furthest s1 len1 len'" by auto
      have "furthest s len len'"
      proof (rule furthest_step [OF n(1)])
        show "furthest (drop n s) (len - n) len'" "len' \<le> len - n" using r(2,3) n by (auto simp: moved_def)
        fix p assume p: "n \<le> p" "p \<le> len" "utf8_text (take p s)"
        have "take p s = take n s @ drop n (take p s)" using p(1) by (metis append_take_drop_id min.absorb1 take_take)
        with p(3) n(6) strip_ascii_prefix show "utf8_text (drop n (take p s))" by metis
      qed
      moreover have "moved utf8_text a s len a' s' len'" by (rule moved_trans [OF m r(2)]) (rule utf8_text_append)
      ultimately show ?thesis using len c ascii v(1) r(1) unfolding c_utf8_verify.simps [of k a s len] by simp
    next
      case multi
      define n where "n = sequence_length s len"
      have mb: "multibyte (byte s 0) s len = Some n" using multibyte_eq [OF "1.prems"(1)] by (simp add: n_def)
      show ?thesis
      proof (cases "n = 0")
        case True
        have "furthest s len len"
        proof (rule furthest_stop [OF "1.prems"(1)])
          fix x assume x: "scalar_value x" "take (length (utf8_encode x)) s = utf8_encode x"
          have "0 < length (utf8_encode x)" by (simp add: utf8_encode_def utf8_bytes_def)
          with encode_sequence [OF x, of len] multi True n_def show "len < length (utf8_encode x)" by (metis not_le less_irrefl)
        qed
        with True multi len c mb stop show ?thesis unfolding c_utf8_verify.simps [of k a s len] by simp
      next
        case False
        from sequence_encodes [OF "1.prems"(1) n_def [symmetric] False] obtain x where
          x: "scalar_value x" "take n s = utf8_encode x" "n \<le> len" by blast
        have ln: "length (utf8_encode x) = n" using x(2,3) "1.prems"(1) by (metis le_trans length_take min.absorb2)
        have m: "moved utf8_text a s len (a + n) (drop n s) (len - n)"
          unfolding moved_def using x utf8_text_encode [OF x(1)] "1.prems"(1) by (intro exI [of _ n]) auto
        from "1.IH" (2) [of "byte s 0" n] len c multi mb False x(3) "1.prems" diff_le_mono [OF "1.prems"(1), of n] obtain a' s' len' where
          r: "c_utf8_verify k (a + n) (drop n s) (len - n) = Some (a', s', len')" "moved utf8_text (a + n) (drop n s) (len - n) a' s' len'"
            "furthest (drop n s) (len - n) len'" by auto
        have "furthest s len len'"
        proof (rule furthest_step [OF x(3) r(3)])
          show "len' \<le> len - n" using r(2) by (auto simp: moved_def)
          fix p assume p: "n \<le> p" "p \<le> len" "utf8_text (take p s)"
          have "take p s \<noteq> []" using p(1,2) False "1.prems"(1) by auto
          from utf8_text_split [OF p(3) this] obtain y t where y: "scalar_value y" "take p s = utf8_encode y @ t" "utf8_text t" by blast
          have lp: "length (utf8_encode y) \<le> p" using y(2) p(2) "1.prems"(1) by (metis length_append length_take le_add1 min.absorb2 order_trans)
          then have ty: "take (length (utf8_encode y)) s = utf8_encode y" using y(2) by (metis append_eq_conv_conj min.absorb1 take_take)
          have "n = length (utf8_encode y)" using encode_sequence [OF y(1) ty, of len] multi lp p(2) by (simp add: n_def)
          with y(2,3) show "utf8_text (drop n (take p s))" by simp
        qed
        moreover have "moved utf8_text a s len a' s' len'" by (rule moved_trans [OF m r(2)]) (rule utf8_text_append)
        ultimately show ?thesis using len c multi mb False r(1) unfolding c_utf8_verify.simps [of k a s len] by simp
      qed
    qed
  qed
qed

text \<open>
  C16: validation of UTF-8. On a machine with words of up to eight bytes, and at whatever address the
  string is, \<open>c_utf8_verify\<close> does not read outside the given length and stops exactly behind the
  longest prefix that is the encoding of a sequence of Unicode scalar values without the null
  character. In particular neither overlong forms nor surrogates are accepted, and the scan of
  ASCII by whole words accepts the same strings as a scan by bytes.
\<close>
theorem c_utf8_verify_longest:
  assumes "len \<le> length s" "k \<le> 8"
  shows "\<exists>n \<le> len. c_utf8_verify k a s len = Some (a + n, drop n s, len - n) \<and> utf8_text (take n s) \<and>
    (\<forall>m \<le> len. utf8_text (take m s) \<longrightarrow> m \<le> n)"
proof -
  from c_utf8_verify_ok [OF assms, of a] obtain a' s' len' where
    v: "c_utf8_verify k a s len = Some (a', s', len')" "moved utf8_text a s len a' s' len'" "furthest s len len'" by blast
  then obtain n where "n \<le> len" "a' = a + n" "s' = drop n s" "len' = len - n" "utf8_text (take n s)" by (auto simp: moved_def)
  with v(1,3) show ?thesis by (intro exI [of _ n]) (auto simp: furthest_def)
qed

theorem c_utf8_verify_longest_witness:
  "\<exists>n \<le> 4. c_utf8_verify 8 3 [CHR ''a'', CHR 0xC3, CHR 0xA4, CHR 0xFF] 4 = Some (3 + n, drop n [CHR ''a'', CHR 0xC3, CHR 0xA4, CHR 0xFF], 4 - n) \<and>
     utf8_text (take n [CHR ''a'', CHR 0xC3, CHR 0xA4, CHR 0xFF])"
  using c_utf8_verify_longest [of 4 "[CHR ''a'', CHR 0xC3, CHR 0xA4, CHR 0xFF]" 8 3] by auto

end
