(* ===== verification/Signature.thy ===== *)
theory Signature
  imports Prelude
begin

text \<open>
  Type signatures: the validator of the variant library (\<open>libcdvar-1/src/c-dvar-reader.c\<close>,
  \<open>c_dvar_verify_type\<close>). It scans a signature once, and keeps the kinds of the open containers in
  two 64-bit maps. It is first shown to run the automaton \<open>accept\<close> on a stack of containers,
  which is then shown to recognise exactly the types of the grammar.
\<close>

unbundle bit_operations_syntax

section \<open>The code\<close>

definition C_DVAR_TYPE_LENGTH_MAX :: nat where "C_DVAR_TYPE_LENGTH_MAX = 255"

definition C_DVAR_TYPE_DEPTH_MAX :: nat where "C_DVAR_TYPE_DEPTH_MAX = 64"

definition is_basic :: "char \<Rightarrow> bool" where
  "is_basic c \<longleftrightarrow> c \<in> set ''ybnqiuxthdsog''"

text \<open>The byte \<open>k\<close> positions before \<open>i\<close>; a position outside the string is not read.\<close>

definition char_before :: "string \<Rightarrow> nat \<Rightarrow> nat \<Rightarrow> char option" where
  "char_before s i k = (if k \<le> i \<and> i - k < length s then Some (s ! (i - k)) else None)"

text \<open>The container at a depth, from the two maps; a null byte if there is none.\<close>

definition container_at :: "nat \<Rightarrow> u64 \<Rightarrow> u64 \<Rightarrow> char" where
  "container_at depth tuples arrays =
     (if depth = 0 then CHR 0x00
      else if arrays AND push_bit (depth - 1) 1 \<noteq> 0 then CHR ''a''
      else if tuples AND push_bit (depth - 1) 1 \<noteq> 0 then CHR ''{''
      else CHR ''('')"

text \<open>A complete type completes the arrays around it.\<close>

fun verify_close_arrays :: "nat \<Rightarrow> u64 \<Rightarrow> u64 \<Rightarrow> char \<Rightarrow> (nat \<times> u64 \<times> char) option" where
  "verify_close_arrays depth tuples arrays container =
     (if container \<noteq> CHR ''a'' then Some (depth, arrays, container)
      else case depth of
        0 \<Rightarrow> None
      | Suc d \<Rightarrow> let arrays = arrays AND NOT (push_bit d 1)
                 in verify_close_arrays d tuples arrays (container_at d tuples arrays))"

text \<open>What may follow at this place in a dict.\<close>

definition verify_dict :: "string \<Rightarrow> nat \<Rightarrow> char \<Rightarrow> char \<Rightarrow> bool option" where
  "verify_dict s i container c =
     (if container \<noteq> CHR ''{'' then Some True
      else do {
        p1 \<leftarrow> char_before s i 1;
        if p1 = CHR ''{'' then Some (is_basic c)
        else do {
          p2 \<leftarrow> char_before s i 2;
          if p2 = CHR ''{'' then Some (c \<noteq> CHR ''}'')
          else Some (c = CHR ''}'') } })"

text \<open>
  The scan, from position \<open>i\<close>. \<open>None\<close> stands for an access outside the string, \<open>Some None\<close> for
  the rejection, and \<open>Some (Some n)\<close> for the end of the first complete type.
\<close>

function verify_loop :: "string \<Rightarrow> nat \<Rightarrow> nat \<Rightarrow> nat \<Rightarrow> u64 \<Rightarrow> u64 \<Rightarrow> char \<Rightarrow> nat option option" where
  "verify_loop s i depth n_tuple tuples arrays container =
     (if i \<ge> length s then Some None
      else let c = s ! i in
        if i \<ge> C_DVAR_TYPE_LENGTH_MAX then Some None
        else do {
          ok \<leftarrow> verify_dict s i container c;
          if \<not> ok then Some None
          else if c = CHR ''{'' \<and> container \<noteq> CHR ''a'' then Some None
          else if c = CHR ''{'' \<or> c = CHR ''('' \<or> c = CHR ''a'' then
            let n_tuple = (if c = CHR ''a'' then n_tuple else n_tuple + 1);
                depth = depth + 1
            in if depth > C_DVAR_TYPE_DEPTH_MAX \<or> n_tuple > C_DVAR_TYPE_DEPTH_MAX div 2 \<or>
                  depth - n_tuple > C_DVAR_TYPE_DEPTH_MAX div 2 then Some None
               else verify_loop s (i + 1) depth n_tuple
                 (if c = CHR ''{'' then tuples OR push_bit (depth - 1) 1 else tuples)
                 (if c = CHR ''a'' then arrays OR push_bit (depth - 1) 1 else arrays) c
          else if c = CHR ''}'' \<or> c = CHR '')'' then
            if container \<noteq> (if c = CHR ''}'' then CHR ''{'' else CHR ''('') then Some None
            else do {
              p \<leftarrow> char_before s i 1;
              if p = CHR ''('' then Some None
              else do {
                let n_tuple = n_tuple - 1;
                let depth = depth - 1;
                let tuples = tuples AND NOT (push_bit depth 1);
                (depth, arrays, container) \<leftarrow> verify_close_arrays depth tuples arrays (container_at depth tuples arrays);
                if container = CHR 0x00 then Some (Some (i + 1))
                else verify_loop s (i + 1) depth n_tuple tuples arrays container } }
          else if is_basic c \<or> c = CHR ''v'' then do {
            (depth, arrays, container) \<leftarrow> verify_close_arrays depth tuples arrays container;
            if container = CHR 0x00 then Some (Some (i + 1))
            else verify_loop s (i + 1) depth n_tuple tuples arrays container }
          else Some None })"
  by auto
termination by (relation "measure (\<lambda>(s, i, _). length s - i)") auto

declare verify_loop.simps [simp del] verify_close_arrays.simps [simp del]

definition c_dvar_verify_type :: "string \<Rightarrow> nat option option" where
  "c_dvar_verify_type s = verify_loop s 0 0 0 0 0 (CHR 0x00)"

section \<open>The automaton\<close>

text \<open>An open container, and what of it was seen: whether a struct has a member, and how many parts a dict has.\<close>

datatype open_type = O_array | O_struct bool | O_dict nat

fun letter :: "open_type \<Rightarrow> char" where
  "letter O_array = CHR ''a''"
| "letter (O_struct _) = CHR ''(''"
| "letter (O_dict _) = CHR ''{''"

fun complete :: "open_type list \<Rightarrow> open_type list" where
  "complete (O_array # st) = complete st"
| "complete (O_struct _ # st) = O_struct True # st"
| "complete (O_dict n # st) = O_dict (Suc n) # st"
| "complete [] = []"

definition n_arrays :: "open_type list \<Rightarrow> nat" where
  "n_arrays st = length (filter (\<lambda>x. x = O_array) st)"

definition n_tuples :: "open_type list \<Rightarrow> nat" where
  "n_tuples st = length (filter (\<lambda>x. x \<noteq> O_array) st)"

definition in_array :: "open_type list \<Rightarrow> bool" where
  "in_array st \<longleftrightarrow> (case st of O_array # _ \<Rightarrow> True | _ \<Rightarrow> False)"

fun accept :: "open_type list \<Rightarrow> char \<Rightarrow> open_type list option" where
  "accept st c =
     (if (case st of O_dict n # _ \<Rightarrow> (if n = 0 then is_basic c else if n = 1 then c \<noteq> CHR ''}'' else c = CHR ''}'') | _ \<Rightarrow> True) then
        if c = CHR ''a'' then (if n_arrays st < 32 then Some (O_array # st) else None)
        else if c = CHR ''('' then (if n_tuples st < 32 then Some (O_struct False # st) else None)
        else if c = CHR ''{'' then (if n_tuples st < 32 \<and> in_array st then Some (O_dict 0 # st) else None)
        else if c = CHR '')'' then (case st of O_struct True # st \<Rightarrow> Some (complete st) | _ \<Rightarrow> None)
        else if c = CHR ''}'' then (case st of O_dict _ # st \<Rightarrow> Some (complete st) | _ \<Rightarrow> None)
        else if is_basic c \<or> c = CHR ''v'' then Some (complete st)
        else None
      else None)"

declare accept.simps [simp del]

fun run :: "open_type list \<Rightarrow> string \<Rightarrow> nat \<Rightarrow> nat option" where
  "run st [] n = None"
| "run st (c # s) n =
     (if n \<ge> C_DVAR_TYPE_LENGTH_MAX then None
      else case accept st c of
        None \<Rightarrow> None
      | Some st' \<Rightarrow> if st' = [] then Some (n + 1) else run st' s (n + 1))"

section \<open>The code runs the automaton\<close>

text \<open>How the maps represent a stack.\<close>

definition maps_stack :: "open_type list \<Rightarrow> u64 \<Rightarrow> u64 \<Rightarrow> bool" where
  "maps_stack st tuples arrays \<longleftrightarrow>
     length st \<le> 64 \<and>
     (\<forall>i < 64. bit arrays i \<longleftrightarrow> i < length st \<and> letter (rev st ! i) = CHR ''a'') \<and>
     (\<forall>i < 64. bit tuples i \<longleftrightarrow> i < length st \<and> letter (rev st ! i) = CHR ''{'')"

definition top :: "open_type list \<Rightarrow> char" where
  "top st = (case st of [] \<Rightarrow> CHR 0x00 | x # _ \<Rightarrow> letter x)"

text \<open>What the bytes before the position say of the innermost container.\<close>

definition looks_back :: "string \<Rightarrow> nat \<Rightarrow> open_type list \<Rightarrow> bool" where
  "looks_back s i st \<longleftrightarrow>
     (st \<noteq> [] \<longrightarrow> 0 < i) \<and> i \<le> length s \<and>
     (case st of
        O_struct b # _ \<Rightarrow> s ! (i - 1) \<noteq> CHR ''{'' \<and> (s ! (i - 1) = CHR ''('' \<longleftrightarrow> \<not> b)
      | O_dict n # _ \<Rightarrow> (s ! (i - 1) = CHR ''{'' \<longleftrightarrow> n = 0) \<and> s ! (i - 1) \<noteq> CHR ''('' \<and>
          (n > 0 \<longrightarrow> 2 \<le> i \<and> (s ! (i - 2) = CHR ''{'' \<longleftrightarrow> n = 1))
      | O_array # _ \<Rightarrow> s ! (i - 1) = CHR ''a''
      | [] \<Rightarrow> True)"

lemma and_power_bit: "i < 64 \<Longrightarrow> (w :: u64) AND 2 ^ i = 0 \<longleftrightarrow> \<not> bit w i"
proof -
  assume "i < 64"
  have "w AND push_bit i 1 = (if bit w i then push_bit i 1 else 0)"
    by (rule bit_eqI) (auto simp: bit_simps)
  with \<open>i < 64\<close> show ?thesis by (auto simp: push_bit_eq_mult)
qed

lemma letter_cases: "letter x \<in> {CHR ''a'', CHR ''('', CHR ''{''}"
  by (cases x) auto

lemma top_null: "top st = CHR 0x00 \<longleftrightarrow> st = []"
proof (cases st)
  case (Cons x xs)
  then show ?thesis by (cases x) (auto simp: top_def)
qed (simp add: top_def)

lemma top_Cons [simp]: "top (x # st) = letter x"
  by (simp add: top_def)

lemma container_at_top:
  assumes "maps_stack st tuples arrays"
  shows "container_at (length st) tuples arrays = top st"
proof (cases st)
  case (Cons x st')
  with assms have "length st' < 64" by (simp add: maps_stack_def)
  moreover from this assms Cons have "bit arrays (length st') \<longleftrightarrow> letter x = CHR ''a''" "bit tuples (length st') \<longleftrightarrow> letter x = CHR ''{''"
    by (auto simp: maps_stack_def nth_append)
  ultimately show ?thesis using Cons letter_cases [of x] by (auto simp: container_at_def top_def and_power_bit)
qed (simp add: container_at_def top_def)

lemma maps_stack_letters: "map letter st = map letter st' \<Longrightarrow> maps_stack st tuples arrays = maps_stack st' tuples arrays"
proof -
  assume l: "map letter st = map letter st'"
  then have "length st = length st'" by (metis length_map)
  moreover have "letter (rev st ! i) = letter (rev st' ! i)" if "i < length st" for i
    using that l \<open>length st = length st'\<close> by (metis length_rev nth_map rev_map)
  ultimately show ?thesis by (auto simp: maps_stack_def)
qed

lemma maps_push:
  assumes "maps_stack st tuples arrays" "length st < 64"
  shows "maps_stack (x # st) (if letter x = CHR ''{'' then tuples OR push_bit (length st) 1 else tuples)
    (if letter x = CHR ''a'' then arrays OR push_bit (length st) 1 else arrays)"
  using assms by (auto simp: maps_stack_def bit_simps nth_append less_Suc_eq)

lemma maps_pop_tuple:
  assumes "maps_stack (x # st) tuples arrays" "letter x \<noteq> CHR ''a''"
  shows "maps_stack st (tuples AND NOT (push_bit (length st) 1)) arrays"
  using assms by (auto simp: maps_stack_def bit_simps nth_append less_Suc_eq split: if_splits)

lemma maps_pop_array:
  assumes "maps_stack (O_array # st) tuples arrays"
  shows "maps_stack st tuples (arrays AND NOT (push_bit (length st) 1))"
  using assms by (auto simp: maps_stack_def bit_simps nth_append less_Suc_eq split: if_splits)

lemma n_tuples_complete [simp]: "n_tuples (complete st) = n_tuples st"
  by (induction st rule: complete.induct) (auto simp: n_tuples_def)

lemma n_arrays_complete: "n_arrays (complete st) \<le> n_arrays st"
  by (induction st rule: complete.induct) (auto simp: n_arrays_def)

lemma length_stack: "length st = n_arrays st + n_tuples st"
  by (induction st) (auto simp: n_arrays_def n_tuples_def)

lemma top_neq_array: "top st \<noteq> CHR ''a'' \<Longrightarrow> complete st = [] \<longleftrightarrow> st = []"
  by (induction st rule: complete.induct) (auto simp: top_def)

lemma top_complete: "top (complete st) \<noteq> CHR ''a''"
  by (induction st rule: complete.induct) (auto simp: top_def)

lemma close_arrays_complete:
  assumes "maps_stack st tuples arrays"
  shows "\<exists>arrays'. verify_close_arrays (length st) tuples arrays (top st) = Some (length (complete st), arrays', top (complete st)) \<and>
    maps_stack (complete st) tuples arrays'"
  using assms
proof (induction st arbitrary: arrays rule: complete.induct)
  case (1 st)
  from maps_pop_array [OF "1.prems"] have m: "maps_stack st tuples (arrays AND NOT (push_bit (length st) 1))" .
  from "1.IH" [OF this] container_at_top [OF m] show ?case
    by (subst verify_close_arrays.simps) (simp add: top_def Let_def)
next
  case (2 b st)
  then show ?case using maps_stack_letters [of "O_struct b # st" "O_struct True # st"]
    by (subst verify_close_arrays.simps) (simp add: top_def)
next
  case (3 n st)
  then show ?case using maps_stack_letters [of "O_dict n # st" "O_dict (Suc n) # st"]
    by (subst verify_close_arrays.simps) (simp add: top_def)
next
  case 4
  then show ?case by (subst verify_close_arrays.simps) (simp add: top_def)
qed

lemma looks_back_complete:
  assumes "i < length s" "st \<noteq> [] \<longrightarrow> 0 < i" "s ! i \<noteq> CHR ''{''" "s ! i \<noteq> CHR ''(''"
    and "\<And>n st'. dropWhile (\<lambda>x. x = O_array) st = O_dict n # st' \<Longrightarrow> n = 0 \<longleftrightarrow> s ! (i - 1) = CHR ''{''"
  shows "looks_back s (Suc i) (complete st)"
  using assms by (induction st rule: complete.induct) (auto simp: looks_back_def)

definition nested :: "open_type list \<Rightarrow> bool" where
  "nested st \<longleftrightarrow> (\<forall>n. O_dict n \<in> set (tl st) \<longrightarrow> n = 1)"

lemma nested_complete: "nested st \<Longrightarrow> nested (complete st)"
proof (induction st rule: complete.induct)
  case (1 st)
  then have "nested st" by (cases st) (auto simp: nested_def)
  with "1.IH" show ?case by simp
qed (auto simp: nested_def)

lemma nested_tl: "nested (x # st) \<Longrightarrow> nested (complete st)"
  by (rule nested_complete) (cases st, auto simp: nested_def)

definition scan_inv :: "string \<Rightarrow> nat \<Rightarrow> open_type list \<Rightarrow> bool" where
  "scan_inv s i st \<longleftrightarrow> looks_back s i st \<and> nested st \<and> n_arrays st \<le> 32 \<and> n_tuples st \<le> 32"

lemma verify_dict_top:
  assumes "looks_back s i st" "i < length s"
  shows "verify_dict s i (top st) c =
    Some (case st of O_dict n # _ \<Rightarrow> (if n = 0 then is_basic c else if n = 1 then c \<noteq> CHR ''}'' else c = CHR ''}'') | _ \<Rightarrow> True)"
  using assms by (auto simp: verify_dict_def top_def looks_back_def char_before_def split: list.splits open_type.splits)

lemma dropWhile_head:
  assumes "dropWhile (\<lambda>x. x = O_array) st = O_dict n # st'"
  shows "O_dict n \<in> set st"
  using assms by (metis list.set_intros(1) set_dropWhileD)

lemma looks_back_basic:
  assumes "looks_back s i st" "nested st" "i < length s" "s ! i \<noteq> CHR ''{''" "s ! i \<noteq> CHR ''(''"
  shows "looks_back s (Suc i) (complete st)"
proof (rule looks_back_complete [OF assms(3) _ assms(4,5)])
  show "st \<noteq> [] \<longrightarrow> 0 < i" using assms(1) by (simp add: looks_back_def)
  fix n st' assume d: "dropWhile (\<lambda>x. x = O_array) st = O_dict n # st'"
  show "n = 0 \<longleftrightarrow> s ! (i - 1) = CHR ''{''"
  proof (cases st)
    case (Cons x xs)
    show ?thesis
    proof (cases "x = O_array")
      case True
      with d Cons dropWhile_head have "O_dict n \<in> set xs" by fastforce
      with assms(1,2) Cons True show ?thesis by (auto simp: nested_def looks_back_def)
    qed (use d Cons assms(1) in \<open>auto simp: looks_back_def\<close>)
  qed (use d in simp)
qed

lemma looks_back_closed:
  assumes "looks_back s i (x # st)" "nested (x # st)" "i < length s" "s ! i \<noteq> CHR ''{''" "s ! i \<noteq> CHR ''(''" "s ! (i - 1) \<noteq> CHR ''{''"
  shows "looks_back s (Suc i) (complete st)"
proof (rule looks_back_complete [OF assms(3) _ assms(4,5)])
  show "st \<noteq> [] \<longrightarrow> 0 < i" using assms(1) by (simp add: looks_back_def)
  fix n st' assume "dropWhile (\<lambda>x. x = O_array) st = O_dict n # st'"
  with dropWhile_head assms(2) show "n = 0 \<longleftrightarrow> s ! (i - 1) = CHR ''{''" using assms(6) by (fastforce simp: nested_def)
qed

lemma scan_inv_accept:
  assumes "scan_inv s i st" "i < length s" "accept st (s ! i) = Some st'"
  shows "scan_inv s (Suc i) st'"
proof -
  from assms(1) have l: "looks_back s i st" and n: "nested st" and b: "n_arrays st \<le> 32" "n_tuples st \<le> 32"
    by (auto simp: scan_inv_def)
  have b': "n_arrays (complete st) \<le> 32" "n_arrays (complete (tl st)) \<le> 32" "n_tuples (tl st) \<le> 32"
    using b n_arrays_complete [of st] n_arrays_complete [of "tl st"] by (cases st; auto simp: n_arrays_def n_tuples_def split: if_splits)+
  consider (push) x where "st' = x # st" "letter x = s ! i" "x \<in> {O_array, O_struct False, O_dict 0}" "n_arrays st' \<le> 32" "n_tuples st' \<le> 32"
      "\<forall>m st''. st = O_dict m # st'' \<longrightarrow> m = 1"
    | (close) x st1 where "st = x # st1" "st' = complete st1" "s ! i \<noteq> CHR ''{''" "s ! i \<noteq> CHR ''(''" "s ! (i - 1) \<noteq> CHR ''{''"
    | (basic) "st' = complete st" "s ! i \<noteq> CHR ''{''" "s ! i \<noteq> CHR ''(''"
    using assms(3) l b by (force simp: accept.simps is_basic_def n_arrays_def n_tuples_def looks_back_def split: if_splits list.splits open_type.splits bool.splits)
  then show ?thesis
  proof cases
    case push
    then have "looks_back s (Suc i) st'" using assms(2) by (auto simp: looks_back_def)
    moreover have "nested st'" using n push(1,6) by (cases st) (auto simp: nested_def)
    ultimately show ?thesis using push(4,5) by (simp add: scan_inv_def)
  next
    case close
    then show ?thesis using looks_back_closed [of s i x st1] l n assms(2) b' nested_tl by (auto simp: scan_inv_def)
  next
    case basic
    then show ?thesis using looks_back_basic [OF l n assms(2)] nested_complete [OF n] b b' by (simp add: scan_inv_def)
  qed
qed

lemma verify_loop_close:
  assumes "i < length s" "i < C_DVAR_TYPE_LENGTH_MAX" "verify_dict s i container (s ! i) = Some True" "s ! i = c" "c = CHR '')'' \<or> c = CHR ''}''"
  shows "verify_loop s i depth n_tuple tuples arrays container =
    (if container \<noteq> (if c = CHR ''}'' then CHR ''{'' else CHR ''('') then Some None
     else char_before s i 1 \<bind> (\<lambda>p.
       if p = CHR ''('' then Some None
       else verify_close_arrays (depth - 1) (tuples AND NOT (push_bit (depth - 1) 1)) arrays
              (container_at (depth - 1) (tuples AND NOT (push_bit (depth - 1) 1)) arrays) \<bind> (\<lambda>(depth', arrays', container').
         if container' = CHR 0x00 then Some (Some (i + 1))
         else verify_loop s (i + 1) depth' (n_tuple - 1) (tuples AND NOT (push_bit (depth - 1) 1)) arrays' container')))"
  unfolding verify_loop.simps [of s i] Let_def using assms(1-4) by (cases rule: disjE [OF assms(5)]; simp)

lemma stack_counts [simp]:
  "n_arrays (O_array # st) = Suc (n_arrays st)" "n_tuples (O_array # st) = n_tuples st"
  "n_arrays (O_struct b # st) = n_arrays st" "n_tuples (O_struct b # st) = Suc (n_tuples st)"
  "n_arrays (O_dict k # st) = n_arrays st" "n_tuples (O_dict k # st) = Suc (n_tuples st)"
  "in_array (O_array # st)" "\<not> in_array (O_struct b # st)" "\<not> in_array (O_dict k # st)" "\<not> in_array []"
  by (auto simp: n_arrays_def n_tuples_def in_array_def)

definition expects :: "open_type list \<Rightarrow> bool" where
  "expects st \<longleftrightarrow> (case st of O_dict n # _ \<Rightarrow> n = 1 | _ \<Rightarrow> True)"

lemma accept_simps:
  "expects st \<Longrightarrow> accept st (CHR ''a'') = (if n_arrays st < 32 then Some (O_array # st) else None)"
  "expects st \<Longrightarrow> accept st (CHR ''('') = (if n_tuples st < 32 then Some (O_struct False # st) else None)"
  "expects st \<Longrightarrow> accept st (CHR ''{'') = (if n_tuples st < 32 \<and> in_array st then Some (O_dict 0 # st) else None)"
  "expects st \<Longrightarrow> is_basic c \<or> c = CHR ''v'' \<Longrightarrow> accept st c = Some (complete st)"
  "accept (O_struct b # st) (CHR '')'') = (if b then Some (complete st) else None)"
  "accept (O_dict 0 # st) c = (if is_basic c then Some (O_dict 1 # st) else None)"
  "accept (O_dict (Suc (Suc n)) # st) c = (if c = CHR ''}'' then Some (complete st) else None)"
  by (auto simp: accept.simps expects_def is_basic_def split: list.splits open_type.splits bool.splits)

lemma in_array_top: "in_array st \<longleftrightarrow> top st = CHR ''a''"
proof (cases st)
  case (Cons x xs)
  then show ?thesis by (cases x) auto
qed (simp add: top_def)

lemma verify_loop_push:
  assumes "i < length s" "i < C_DVAR_TYPE_LENGTH_MAX" "verify_dict s i container (s ! i) = Some True" "s ! i = letter x"
  shows "verify_loop s i depth n_tuple tuples arrays container =
    (if letter x = CHR ''{'' \<and> container \<noteq> CHR ''a'' \<or> depth + 1 > 64 \<or> n_tuple + (if letter x = CHR ''a'' then 0 else 1) > 32 \<or>
        depth + 1 - (n_tuple + (if letter x = CHR ''a'' then 0 else 1)) > 32 then Some None
     else verify_loop s (Suc i) (Suc depth) (n_tuple + (if letter x = CHR ''a'' then 0 else 1))
       (if letter x = CHR ''{'' then tuples OR push_bit depth 1 else tuples)
       (if letter x = CHR ''a'' then arrays OR push_bit depth 1 else arrays) (letter x))"
  unfolding verify_loop.simps [of s i] Let_def using assms by (cases x) (simp_all add: C_DVAR_TYPE_DEPTH_MAX_def)

text \<open>A step of the code does what the automaton does.\<close>

definition same_step :: "string \<Rightarrow> nat \<Rightarrow> open_type list \<Rightarrow> u64 \<Rightarrow> u64 \<Rightarrow> bool" where
  "same_step s i st tuples arrays \<longleftrightarrow>
     (case accept st (s ! i) of
        None \<Rightarrow> verify_loop s i (length st) (n_tuples st) tuples arrays (top st) = Some None
      | Some st' \<Rightarrow> \<exists>tuples' arrays'. maps_stack st' tuples' arrays' \<and>
          verify_loop s i (length st) (n_tuples st) tuples arrays (top st) =
            (if st' = [] then Some (Some (i + 1)) else verify_loop s (Suc i) (length st') (n_tuples st') tuples' arrays' (top st')))"

lemma same_stepI:
  assumes "accept st (s ! i) = Some st'" "maps_stack st' tuples' arrays'"
    "verify_loop s i (length st) (n_tuples st) tuples arrays (top st) =
      (if st' = [] then Some (Some (i + 1)) else verify_loop s (Suc i) (length st') (n_tuples st') tuples' arrays' (top st'))"
  shows "same_step s i st tuples arrays"
  unfolding same_step_def using assms by auto

lemma same_step_push:
  assumes "i < length s" "i < C_DVAR_TYPE_LENGTH_MAX" "scan_inv s i st" "maps_stack st tuples arrays"
    and v: "verify_dict s i (top st) (s ! i) = Some True" and push: "s ! i = letter x" "x \<in> {O_array, O_struct False, O_dict 0}"
  shows "same_step s i st tuples arrays"
proof -
  from assms(1,3) v have "expects st" using verify_dict_top [of s i st "s ! i"] push
    by (auto simp: scan_inv_def expects_def is_basic_def split: list.splits open_type.splits if_splits)
  note acc = accept_simps(1-3) [OF this] and vp = verify_loop_push [OF assms(1,2) v push(1)]
  from assms(3) have b: "n_arrays st \<le> 32" "n_tuples st \<le> 32" by (auto simp: scan_inv_def)
  show ?thesis
  proof (cases "accept st (s ! i)")
    case None
    with push length_stack [of st] show ?thesis by (auto simp: same_step_def vp acc in_array_top)
  next
    case (Some st')
    with push b have st': "st' = x # st" "n_arrays st' \<le> 32" "n_tuples st' \<le> 32" "letter x = CHR ''{'' \<longrightarrow> top st = CHR ''a''"
      by (auto simp: acc in_array_top split: if_splits)
    have g: "length st < 64" "Suc (length st) - n_tuples st' \<le> 32" using length_stack [of st'] st' by auto
    have n: "n_tuples st' = n_tuples st + (if letter x = CHR ''a'' then 0 else 1)" using push st'(1) by auto
    show ?thesis
      by (rule same_stepI [OF Some, of "if letter x = CHR ''{'' then tuples OR push_bit (length st) 1 else tuples"
            "if letter x = CHR ''a'' then arrays OR push_bit (length st) 1 else arrays"])
        (use maps_push [OF assms(4) g(1)] st' g n in \<open>auto simp: vp\<close>)
  qed
qed

lemma same_step_close:
  assumes "i < length s" "i < C_DVAR_TYPE_LENGTH_MAX" "looks_back s i st" "maps_stack st tuples arrays"
    and v: "verify_dict s i (top st) (s ! i) = Some True" and close: "s ! i = CHR '')'' \<or> s ! i = CHR ''}''"
  shows "same_step s i st tuples arrays"
proof (cases "accept st (s ! i)")
  let ?c = "s ! i"
  have p: "char_before s i 1 = (if i = 0 then None else Some (s ! (i - 1)))" using assms(1) by (auto simp: char_before_def)
  note vc = verify_loop_close [OF assms(1,2) v refl close]
  have ok: "case st of O_dict n # _ \<Rightarrow> (if n = 0 then is_basic ?c else if n = 1 then ?c \<noteq> CHR ''}'' else ?c = CHR ''}'') | _ \<Rightarrow> True"
    using v verify_dict_top [OF assms(3,1)] by simp
  {
    case None
    have rej: "top st \<noteq> (if ?c = CHR ''}'' then CHR ''{'' else CHR ''('') \<or> 0 < i \<and> s ! (i - 1) = CHR ''(''"
    proof (cases st)
      case (Cons x xs)
      with None close assms(3) ok show ?thesis
        by (cases x) (auto simp: accept.simps looks_back_def split: bool.splits)
    qed (simp add: top_def)
    with None p show ?thesis by (simp add: same_step_def vc) auto
  next
    case (Some st')
    then obtain x st1 where st: "st = x # st1" "st' = complete st1" "x = O_struct True \<or> (\<exists>n. x = O_dict n)"
        "letter x = (if ?c = CHR ''}'' then CHR ''{'' else CHR ''('')"
      using close by (auto simp: accept.simps split: if_splits list.splits open_type.splits bool.splits)
    let ?tuples = "tuples AND NOT (push_bit (length st1) 1)"
    have m: "maps_stack st1 ?tuples arrays" using maps_pop_tuple [of x st1] assms(4) st by auto
    from close_arrays_complete [OF m] obtain arrays' where
      c: "verify_close_arrays (length st1) ?tuples arrays (top st1) = Some (length st', arrays', top st')"
        "maps_stack st' ?tuples arrays'" using st(2) by blast
    have n: "n_tuples st' = n_tuples st - 1" using st n_tuples_complete [of st1] by (auto simp: n_tuples_def)
    have q: "0 < i" "s ! (i - 1) \<noteq> CHR ''(''" using assms(3) st by (auto simp: looks_back_def)
    have "verify_loop s i (length st) (n_tuples st) tuples arrays (top st) =
        (if st' = [] then Some (Some (i + 1)) else verify_loop s (Suc i) (length st') (n_tuples st') ?tuples arrays' (top st'))"
      using st(1,4) c(1) n q container_at_top [OF m] p by (subst vc) (simp add: top_null)
    then show ?thesis by (rule same_stepI [OF Some c(2)])
  }
qed

lemma same_step_basic:
  assumes "i < length s" "i < C_DVAR_TYPE_LENGTH_MAX" "looks_back s i st" "maps_stack st tuples arrays"
    and v: "verify_dict s i (top st) (s ! i) = Some True" and basic: "is_basic (s ! i) \<or> s ! i = CHR ''v''"
  shows "same_step s i st tuples arrays"
proof -
  from close_arrays_complete [OF assms(4)] obtain arrays' where
    c: "verify_close_arrays (length st) tuples arrays (top st) = Some (length (complete st), arrays', top (complete st))"
      "maps_stack (complete st) tuples arrays'" by blast
  have a: "accept st (s ! i) = Some (complete st)"
    using v basic verify_dict_top [OF assms(3,1)] by (auto simp: accept.simps is_basic_def)
  have "s ! i \<notin> set ''a({)}''" using basic by (auto simp: is_basic_def)
  then have "verify_loop s i (length st) (n_tuples st) tuples arrays (top st) =
      (if complete st = [] then Some (Some (i + 1))
       else verify_loop s (Suc i) (length (complete st)) (n_tuples (complete st)) tuples arrays' (top (complete st)))"
    using assms(1,2) v basic c(1) unfolding verify_loop.simps [of s i] by (simp add: Let_def top_null)
  then show ?thesis by (rule same_stepI [OF a c(2)])
qed

lemma same_step:
  assumes "i < length s" "i < C_DVAR_TYPE_LENGTH_MAX" "scan_inv s i st" "maps_stack st tuples arrays"
  shows "same_step s i st tuples arrays"
proof -
  let ?c = "s ! i"
  from assms(3) have l: "looks_back s i st" by (simp add: scan_inv_def)
  define ok where "ok = (case st of O_dict n # _ \<Rightarrow> (if n = 0 then is_basic ?c else if n = 1 then ?c \<noteq> CHR ''}'' else ?c = CHR ''}'') | _ \<Rightarrow> True)"
  have v: "verify_dict s i (top st) ?c = Some ok" unfolding ok_def by (rule verify_dict_top [OF l assms(1)])
  consider (bad) "\<not> ok" | (push) "ok" "?c \<in> {CHR ''a'', CHR ''('', CHR ''{''}"
    | (close) "ok" "?c = CHR '')'' \<or> ?c = CHR ''}''" | (basic) "ok" "is_basic ?c \<or> ?c = CHR ''v''"
    | (other) "ok" "?c \<notin> {CHR ''a'', CHR ''('', CHR ''{''}" "\<not> (?c = CHR '')'' \<or> ?c = CHR ''}'')" "\<not> (is_basic ?c \<or> ?c = CHR ''v'')"
    by blast
  then show ?thesis
  proof cases
    case bad
    then show ?thesis using v assms(1,2) unfolding same_step_def verify_loop.simps [of s i]
      by (simp add: Let_def accept.simps ok_def)
  next
    case push
    then obtain x where "?c = letter x" "x \<in> {O_array, O_struct False, O_dict 0}"
      by (elim insertE emptyE) (metis insertI1 insertI2 letter.simps)+
    moreover have "verify_dict s i (top st) ?c = Some True" using v push(1) by simp
    ultimately show ?thesis by (intro same_step_push [OF assms])
  next
    case close
    with v show ?thesis by (intro same_step_close [OF assms(1,2) l assms(4)]) simp_all
  next
    case basic
    with v show ?thesis by (intro same_step_basic [OF assms(1,2) l assms(4)]) simp_all
  next
    case other
    then show ?thesis using v assms(1,2) unfolding same_step_def verify_loop.simps [of s i]
      by (simp add: Let_def accept.simps ok_def)
  qed
qed

lemma verify_loop_run:
  assumes "scan_inv s i st" "maps_stack st tuples arrays"
  shows "verify_loop s i (length st) (n_tuples st) tuples arrays (top st) = Some (run st (drop i s) i)"
  using assms
proof (induction "length s - i" arbitrary: i st tuples arrays rule: less_induct)
  case less
  show ?case
  proof (cases "i < length s \<and> i < C_DVAR_TYPE_LENGTH_MAX")
    case False
    then show ?thesis unfolding verify_loop.simps [of s i] by (cases "drop i s") (auto simp: Let_def)
  next
    case True
    then have d: "drop i s = s ! i # drop (Suc i) s" by (simp add: Cons_nth_drop_Suc)
    from True less.prems have step: "same_step s i st tuples arrays" by (simp add: same_step)
    show ?thesis
    proof (cases "accept st (s ! i)")
      case None
      with step True d show ?thesis by (simp add: same_step_def)
    next
      case (Some st')
      with step obtain tuples' arrays' where m: "maps_stack st' tuples' arrays'"
        "verify_loop s i (length st) (n_tuples st) tuples arrays (top st) =
           (if st' = [] then Some (Some (i + 1)) else verify_loop s (Suc i) (length st') (n_tuples st') tuples' arrays' (top st'))"
        by (auto simp: same_step_def)
      with less.hyps [of "Suc i" st' tuples' arrays'] scan_inv_accept [OF less.prems(1) _ Some] True Some d show ?thesis by auto
    qed
  qed
qed

lemma c_dvar_verify_type_run: "c_dvar_verify_type s = Some (run [] s 0)"
proof -
  have "scan_inv s 0 []" by (simp add: scan_inv_def looks_back_def nested_def n_arrays_def n_tuples_def)
  moreover have "maps_stack [] 0 0" by (simp add: maps_stack_def)
  ultimately show ?thesis using verify_loop_run [of s 0 "[]" 0 0] by (simp add: c_dvar_verify_type_def n_tuples_def top_def)
qed

lemma run_bounds: "run st s n = Some m \<Longrightarrow> n < m \<and> m \<le> n + length s \<and> m \<le> 255"
proof (induction s arbitrary: st n)
  case (Cons c s)
  then show ?case by (fastforce simp: C_DVAR_TYPE_LENGTH_MAX_def split: if_splits option.splits)
qed simp

section \<open>Signatures and types\<close>

function signature_loop :: "string \<Rightarrow> bool option" where
  "signature_loop s =
     (if s = [] then Some True
      else case c_dvar_verify_type s of
        None \<Rightarrow> None
      | Some None \<Rightarrow> Some False
      | Some (Some n) \<Rightarrow> signature_loop (drop n s))"
  by auto
termination
  by (relation "measure length") (auto simp: c_dvar_verify_type_run dest: run_bounds)

declare signature_loop.simps [simp del]

definition c_dvar_is_signature :: "string \<Rightarrow> bool option" where
  "c_dvar_is_signature s = (if length s > C_DVAR_TYPE_LENGTH_MAX then Some False else signature_loop s)"

definition c_dvar_is_type :: "string \<Rightarrow> bool option" where
  "c_dvar_is_type s = do { next \<leftarrow> c_dvar_verify_type s; Some (next = Some (length s)) }"

section \<open>The grammar\<close>

datatype dtype = D_basic char | D_variant | D_array dtype | D_struct "dtype list" | D_dict char dtype

fun sig :: "dtype \<Rightarrow> string" where
  "sig (D_basic c) = [c]"
| "sig D_variant = ''v''"
| "sig (D_array t) = CHR ''a'' # sig t"
| "sig (D_struct ts) = CHR ''('' # concat (map sig ts) @ '')''"
| "sig (D_dict k v) = CHR ''{'' # k # sig v @ ''}''"

text \<open>
  The types of the specification: inside \<open>a\<close> arrays and \<open>n\<close> structs and dicts, each of which may
  be nested 32 times; a dict stands only directly in an array, and a struct has a member.
\<close>

fun type_ok :: "nat \<Rightarrow> nat \<Rightarrow> bool \<Rightarrow> dtype \<Rightarrow> bool" where
  "type_ok a n arr (D_basic c) \<longleftrightarrow> is_basic c"
| "type_ok a n arr D_variant \<longleftrightarrow> True"
| "type_ok a n arr (D_array t) \<longleftrightarrow> a < 32 \<and> type_ok (a + 1) n True t"
| "type_ok a n arr (D_struct ts) \<longleftrightarrow> n < 32 \<and> ts \<noteq> [] \<and> (\<forall>t \<in> set ts. type_ok a (n + 1) False t)"
| "type_ok a n arr (D_dict k v) \<longleftrightarrow> n < 32 \<and> arr \<and> is_basic k \<and> type_ok a (n + 1) False v"

definition dbus_type :: "dtype \<Rightarrow> bool" where
  "dbus_type t \<longleftrightarrow> type_ok 0 0 False t"

definition stack_ok :: "open_type list \<Rightarrow> dtype \<Rightarrow> bool" where
  "stack_ok st t \<longleftrightarrow> type_ok (n_arrays st) (n_tuples st) (in_array st) t"

lemma sig_nonempty [simp]: "sig t \<noteq> []"
  by (cases t) auto

text \<open>Running over the signature of a type completes it, whatever follows.\<close>

definition runs :: "open_type list \<Rightarrow> string \<Rightarrow> open_type list \<Rightarrow> bool" where
  "runs st s st' \<longleftrightarrow> (\<forall>r n. n + length s \<le> 255 \<longrightarrow>
     run st (s @ r) n = (if st' = [] then Some (n + length s) else run st' r (n + length s)))"

lemma runs_Cons:
  assumes "accept st c = Some st1" "st1 \<noteq> []" "runs st1 s st'"
  shows "runs st (c # s) st'"
  using assms by (auto simp: runs_def C_DVAR_TYPE_LENGTH_MAX_def)

lemma runs_single: "accept st c = Some st1 \<Longrightarrow> runs st [c] st1"
  by (auto simp: runs_def C_DVAR_TYPE_LENGTH_MAX_def)

lemma runs_append:
  assumes "runs st s st1" "st1 \<noteq> []" "runs st1 s' st'"
  shows "runs st (s @ s') st'"
  using assms by (auto simp: runs_def add.assoc)

lemma runs_Nil: "st \<noteq> [] \<Longrightarrow> runs st [] st"
  by (simp add: runs_def)

lemma runs_sig: "stack_ok st t \<Longrightarrow> expects st \<Longrightarrow> runs st (sig t) (complete st)"
proof (induction t arbitrary: st)
  case (D_basic c)
  then show ?case by (auto simp: stack_ok_def accept_simps intro!: runs_single)
next
  case D_variant
  then show ?case by (auto simp: accept_simps intro!: runs_single)
next
  case (D_array t)
  have "runs (O_array # st) (sig t) (complete st)"
    using D_array.IH [of "O_array # st"] D_array.prems by (simp add: stack_ok_def expects_def)
  then show ?case using D_array.prems by (auto simp: stack_ok_def accept_simps intro!: runs_Cons)
next
  case (D_struct ts)
  have mem: "runs (O_struct b # st) (sig t) (O_struct True # st)" if "t \<in> set ts" for t b
    using D_struct.IH [OF that, of "O_struct b # st"] D_struct.prems that by (simp add: stack_ok_def expects_def)
  have "runs (O_struct b # st) (concat (map sig us)) (O_struct (b \<or> us \<noteq> []) # st)" if "set us \<subseteq> set ts" for us b
    using that
  proof (induction us arbitrary: b)
    case (Cons t us)
    then show ?case using runs_append [OF mem [of t b], of "concat (map sig us)"] by fastforce
  qed (simp add: runs_Nil)
  from this [of ts False] D_struct.prems have "runs (O_struct False # st) (concat (map sig ts)) (O_struct True # st)"
    by (simp add: stack_ok_def)
  then have "runs (O_struct False # st) (concat (map sig ts) @ '')'') (complete st)"
    by (rule runs_append) (auto simp: accept_simps intro!: runs_single)
  then show ?case using D_struct.prems by (auto simp: stack_ok_def accept_simps intro!: runs_Cons)
next
  case (D_dict k v)
  have "runs (O_dict 1 # st) (sig v) (O_dict (Suc (Suc 0)) # st)"
    using D_dict.IH [of "O_dict 1 # st"] D_dict.prems by (simp add: stack_ok_def expects_def)
  then have "runs (O_dict 1 # st) (sig v @ ''}'') (complete st)"
    by (rule runs_append) (auto simp: accept_simps intro!: runs_single)
  then have "runs (O_dict 0 # st) (k # sig v @ ''}'') (complete st)"
    using D_dict.prems by (auto simp: stack_ok_def accept_simps intro!: runs_Cons)
  then show ?case using runs_Cons [of st "CHR ''{''" "O_dict 0 # st"] D_dict.prems by (simp add: stack_ok_def accept_simps)
qed

text \<open>Conversely, where a type is expected, a successful run starts with one.\<close>

definition starts_type :: "string \<Rightarrow> bool" where
  "starts_type s \<longleftrightarrow> (\<forall>st n m. run st s n = Some m \<and> expects st \<and> hd s \<notin> {CHR '')'', CHR ''}''} \<longrightarrow>
     (\<exists>t r. s = sig t @ r \<and> stack_ok st t \<and> n + length (sig t) \<le> 255))"

lemma starts_typeE:
  assumes "starts_type s" "run st s n = Some m" "expects st" "hd s \<noteq> CHR '')''" "hd s \<noteq> CHR ''}''"
  obtains t r where "s = sig t @ r" "stack_ok st t" "n + length (sig t) \<le> 255"
  using assms unfolding starts_type_def by blast

lemma run_ConsE:
  assumes "run st s n = Some m"
  obtains c s' st' where "s = c # s'" "accept st c = Some st'" "n < 255" "if st' = [] then m = n + 1 else run st' s' (n + 1) = Some m"
  using assms by (cases s) (auto simp: C_DVAR_TYPE_LENGTH_MAX_def split: if_splits option.splits)

lemma run_after_type:
  assumes "run st (sig t @ r) n = Some m" "stack_ok st t" "expects st" "n + length (sig t) \<le> 255" "complete st \<noteq> []"
  shows "run (complete st) r (n + length (sig t)) = Some m"
  using runs_sig [OF assms(2,3)] assms(1,4,5) by (simp add: runs_def)

lemma run_members:
  assumes "\<And>s'. length s' \<le> length s \<Longrightarrow> starts_type s'" "run (O_struct b # st) s n = Some m"
  shows "\<exists>ts r. s = concat (map sig ts) @ CHR '')'' # r \<and> (b \<or> ts \<noteq> []) \<and>
    (\<forall>t \<in> set ts. type_ok (n_arrays st) (Suc (n_tuples st)) False t) \<and> n + length (concat (map sig ts)) < 255"
  using assms
proof (induction "length s" arbitrary: s b n rule: less_induct)
  case less
  from less.prems(2) obtain c s' st' where
    c: "s = c # s'" "accept (O_struct b # st) c = Some st'" "n < 255" by (rule run_ConsE)
  have "c \<noteq> CHR ''}''" using c(2) by (auto simp: accept.simps)
  show ?case
  proof (cases "c = CHR '')''")
    case True
    with c have "b" by (auto simp: accept_simps split: if_splits)
    with c True show ?thesis by (intro exI [of _ "[]"] exI [of _ s']) simp
  next
    case False
    have "expects (O_struct b # st)" by (simp add: expects_def)
    with False c(1) \<open>c \<noteq> CHR ''}''\<close> less.prems obtain t r where
      t: "s = sig t @ r" "stack_ok (O_struct b # st) t" "n + length (sig t) \<le> 255"
      by (metis starts_typeE list.sel(1) order_refl)
    from run_after_type [of "O_struct b # st" t r n m] t less.prems(2)
    have "run (O_struct True # st) r (n + length (sig t)) = Some m" by (simp add: expects_def)
    moreover have "length r < length s" using t(1) by simp
    ultimately obtain ts r' where "r = concat (map sig ts) @ CHR '')'' # r'"
      "\<forall>t \<in> set ts. type_ok (n_arrays st) (Suc (n_tuples st)) False t" "n + length (sig t) + length (concat (map sig ts)) < 255"
      using less.hyps [of r True "n + length (sig t)"] less.prems(1) by force
    with t show ?thesis by (intro exI [of _ "t # ts"] exI [of _ r']) (auto simp: stack_ok_def)
  qed
qed

lemma starts_type: "starts_type s"
proof (induction "length s" arbitrary: s rule: less_induct)
  case less
  show ?case unfolding starts_type_def
  proof (intro allI impI)
    fix st n m
    assume "run st s n = Some m \<and> expects st \<and> hd s \<notin> {CHR '')'', CHR ''}''}"
    then have run: "run st s n = Some m" and e: "expects st" and h: "hd s \<notin> {CHR '')'', CHR ''}''}" by blast+
    from run obtain c s' st' where
      c: "s = c # s'" "accept st c = Some st'" "n < 255" "if st' = [] then m = n + 1 else run st' s' (n + 1) = Some m" by (rule run_ConsE)
    have IH: "\<And>x. length x \<le> length s' \<Longrightarrow> starts_type x" using less.hyps c(1) by simp
    consider (array) "c = CHR ''a''" | (struct) "c = CHR ''(''" | (dict) "c = CHR ''{''" | (variant) "c = CHR ''v''" | (basic) "is_basic c"
      using c(1,2) h by (fastforce simp: accept.simps split: if_splits)
    then show "\<exists>t r. s = sig t @ r \<and> stack_ok st t \<and> n + length (sig t) \<le> 255"
    proof cases
      case array
      with c e have a: "n_arrays st < 32" "st' = O_array # st" "run (O_array # st) s' (n + 1) = Some m" by (auto simp: accept_simps split: if_splits)
      from a(3) obtain c1 s1 st1 where "s' = c1 # s1" "accept (O_array # st) c1 = Some st1" by (rule run_ConsE)
      then have "hd s' \<notin> {CHR '')'', CHR ''}''}" by (auto simp: accept.simps)
      with IH [of s'] a obtain t r where "s' = sig t @ r" "stack_ok (O_array # st) t" "n + 1 + length (sig t) \<le> 255"
        unfolding starts_type_def by (fastforce simp: expects_def)
      with a c array show ?thesis by (intro exI [of _ "D_array t"] exI [of _ r]) (auto simp: stack_ok_def)
    next
      case struct
      with c e have a: "n_tuples st < 32" "run (O_struct False # st) s' (n + 1) = Some m" by (auto simp: accept_simps split: if_splits)
      from run_members [OF IH a(2)] obtain ts r where
        "s' = concat (map sig ts) @ CHR '')'' # r" "ts \<noteq> []" "n + 1 + length (concat (map sig ts)) < 255"
        "\<forall>t \<in> set ts. type_ok (n_arrays st) (Suc (n_tuples st)) False t" by blast
      with a c struct show ?thesis by (intro exI [of _ "D_struct ts"] exI [of _ r]) (auto simp: stack_ok_def)
    next
      case dict
      with c e have a: "n_tuples st < 32" "in_array st" "run (O_dict 0 # st) s' (n + 1) = Some m" by (auto simp: accept_simps split: if_splits)
      from a(3) obtain k s1 st1 where k: "s' = k # s1" "accept (O_dict 0 # st) k = Some st1" "if st1 = [] then m = n + 1 + 1 else run st1 s1 (n + 1 + 1) = Some m"
        by (rule run_ConsE)
      then have k1: "is_basic k" "run (O_dict 1 # st) s1 (n + 2) = Some m" by (auto simp: accept_simps split: if_splits)
      from k1(2) obtain c2 s2 st2 where "s1 = c2 # s2" "accept (O_dict 1 # st) c2 = Some st2" by (rule run_ConsE)
      then have "hd s1 \<notin> {CHR '')'', CHR ''}''}" by (auto simp: accept.simps)
      with IH [of s1] k(1) k1 obtain t r where t: "s1 = sig t @ r" "stack_ok (O_dict 1 # st) t" "n + 2 + length (sig t) \<le> 255"
        unfolding starts_type_def by (fastforce simp: expects_def)
      with run_after_type [of "O_dict 1 # st" t r "n + 2" m] k1(2) have r: "run (O_dict (Suc (Suc 0)) # st) r (n + 2 + length (sig t)) = Some m"
        by (simp add: expects_def)
      then obtain c3 s3 st3 where "r = c3 # s3" "accept (O_dict (Suc (Suc 0)) # st) c3 = Some st3" "n + 2 + length (sig t) < 255" by (rule run_ConsE)
      with a c dict k k1 t show ?thesis
        by (intro exI [of _ "D_dict k t"] exI [of _ s3]) (auto simp: stack_ok_def accept_simps split: if_splits)
    next
      case variant
      with c show ?thesis by (intro exI [of _ D_variant] exI [of _ s']) (simp add: stack_ok_def)
    next
      case basic
      with c show ?thesis by (intro exI [of _ "D_basic c"] exI [of _ s']) (simp add: stack_ok_def)
    qed
  qed
qed

lemma run_type_iff:
  "run [] s 0 = Some n \<longleftrightarrow> n \<le> length s \<and> n \<le> 255 \<and> (\<exists>t. take n s = sig t \<and> dbus_type t)"
proof -
  have emp: "stack_ok [] t \<longleftrightarrow> dbus_type t" "expects []" for t
    by (auto simp: stack_ok_def dbus_type_def expects_def n_arrays_def n_tuples_def)
  have run: "run [] (sig t @ r) 0 = Some (length (sig t))" if "dbus_type t" "length (sig t) \<le> 255" for t r
    using runs_sig [of "[]" t] that emp by (simp add: runs_def)
  show ?thesis
  proof
    assume r: "run [] s 0 = Some n"
    then obtain c s' st' where "s = c # s'" "accept [] c = Some st'" by (rule run_ConsE)
    then have "hd s \<notin> {CHR '')'', CHR ''}''}" by (auto simp: accept.simps)
    with starts_typeE [OF starts_type r emp(2)] emp(1) obtain t r' where "s = sig t @ r'" "dbus_type t" "length (sig t) \<le> 255"
      by (metis insertCI add_0)
    with run [of t r'] r show "n \<le> length s \<and> n \<le> 255 \<and> (\<exists>t. take n s = sig t \<and> dbus_type t)" by auto
  next
    assume "n \<le> length s \<and> n \<le> 255 \<and> (\<exists>t. take n s = sig t \<and> dbus_type t)"
    then obtain t where "take n s = sig t" "dbus_type t" "length (sig t) = n" "n \<le> 255" by (metis length_take min.absorb2)
    with run [of t "drop n s"] show "run [] s 0 = Some n" by (metis append_take_drop_id)
  qed
qed

lemma concat_typesE:
  assumes "\<exists>ts. s = concat (map sig ts) \<and> list_all dbus_type ts" "s \<noteq> []"
  obtains t ts where "s = sig t @ concat (map sig ts)" "dbus_type t" "list_all dbus_type ts"
proof -
  from assms(1) obtain ts where ts: "s = concat (map sig ts)" "list_all dbus_type ts" by blast
  with assms(2) that show thesis by (cases ts) auto
qed

lemma signature_loop_iff:
  "length s \<le> 255 \<Longrightarrow> signature_loop s = Some (\<exists>ts. s = concat (map sig ts) \<and> list_all dbus_type ts)"
proof (induction s rule: signature_loop.induct)
  case (1 s)
  show ?case
  proof (cases "run [] s 0")
    case None
    have "\<not> (\<exists>ts. s = concat (map sig ts) \<and> list_all dbus_type ts)" if ne: "s \<noteq> []"
    proof
      assume "\<exists>ts. s = concat (map sig ts) \<and> list_all dbus_type ts"
      then obtain t ts where "s = sig t @ concat (map sig ts)" "dbus_type t" using ne
        by (rule concat_typesE) blast
      then have "run [] s 0 = Some (length (sig t))" using "1.prems" by (subst run_type_iff) auto
      with None show False by simp
    qed
    then show ?thesis using None unfolding signature_loop.simps [of s]
      by (cases "s = []") (auto simp: c_dvar_verify_type_run intro: exI [of _ "[]"])
  next
    case (Some n)
    then have s: "s \<noteq> []" by auto
    from Some obtain t where t: "n \<le> length s" "take n s = sig t" "dbus_type t" unfolding run_type_iff by blast
    have "(\<exists>ts. drop n s = concat (map sig ts) \<and> list_all dbus_type ts) \<longleftrightarrow> (\<exists>ts. s = concat (map sig ts) \<and> list_all dbus_type ts)"
    proof
      assume "\<exists>ts. drop n s = concat (map sig ts) \<and> list_all dbus_type ts"
      then obtain ts where "drop n s = concat (map sig ts)" "list_all dbus_type ts" by blast
      with t show "\<exists>ts. s = concat (map sig ts) \<and> list_all dbus_type ts"
        by (intro exI [of _ "t # ts"]) (simp, metis append_take_drop_id)
    next
      assume "\<exists>ts. s = concat (map sig ts) \<and> list_all dbus_type ts"
      then obtain u us where u: "s = sig u @ concat (map sig us)" "dbus_type u" "list_all dbus_type us" using s
        by (rule concat_typesE) blast
      then have "run [] s 0 = Some (length (sig u))" using "1.prems" by (subst run_type_iff) auto
      with Some u show "\<exists>ts. drop n s = concat (map sig ts) \<and> list_all dbus_type ts" by (intro exI [of _ us]) simp
    qed
    moreover have "signature_loop (drop n s) = Some (\<exists>ts. drop n s = concat (map sig ts) \<and> list_all dbus_type ts)"
      using "1.IH" [OF s] Some "1.prems" by (simp add: c_dvar_verify_type_run)
    ultimately show ?thesis using s Some unfolding signature_loop.simps [of s] by (simp add: c_dvar_verify_type_run)
  qed
qed

lemma is_type_iff: "c_dvar_is_type s = Some (length s \<le> 255 \<and> (\<exists>t. s = sig t \<and> dbus_type t))"
  by (auto simp: c_dvar_is_type_def c_dvar_verify_type_run run_type_iff)

lemma is_signature_iff:
  "c_dvar_is_signature s = Some (length s \<le> 255 \<and> (\<exists>ts. s = concat (map sig ts) \<and> list_all dbus_type ts))"
  by (simp add: c_dvar_is_signature_def C_DVAR_TYPE_LENGTH_MAX_def signature_loop_iff)

text \<open>
  C17: the grammar of signatures. On every string the validator returns without an access outside the
  string. It finds a complete type at its beginning exactly if a prefix of at most 255 bytes is the
  signature of a D-Bus type, and then returns its end; \<open>c_dvar_is_type\<close> accepts exactly the
  signatures of one D-Bus type, and \<open>c_dvar_is_signature\<close> exactly the sequences of D-Bus types, of
  at most 255 bytes. D-Bus types nest at most 32 arrays and 32 structs and dicts, have dicts only
  as elements of arrays, with a basic key, and no empty structs.
\<close>
theorem c_dvar_is_signature_grammar:
  "(\<exists>next. c_dvar_verify_type s = Some next \<and>
     (\<forall>n. next = Some n \<longleftrightarrow> n \<le> length s \<and> n \<le> 255 \<and> (\<exists>t. take n s = sig t \<and> dbus_type t))) \<and>
   c_dvar_is_type s = Some (length s \<le> 255 \<and> (\<exists>t. s = sig t \<and> dbus_type t)) \<and>
   c_dvar_is_signature s = Some (length s \<le> 255 \<and> (\<exists>ts. s = concat (map sig ts) \<and> list_all dbus_type ts))"
proof (intro conjI)
  show "\<exists>next. c_dvar_verify_type s = Some next \<and>
     (\<forall>n. next = Some n \<longleftrightarrow> n \<le> length s \<and> n \<le> 255 \<and> (\<exists>t. take n s = sig t \<and> dbus_type t))"
    by (simp add: c_dvar_verify_type_run run_type_iff)
  show "c_dvar_is_type s = Some (length s \<le> 255 \<and> (\<exists>t. s = sig t \<and> dbus_type t))" by (rule is_type_iff)
  show "c_dvar_is_signature s = Some (length s \<le> 255 \<and> (\<exists>ts. s = concat (map sig ts) \<and> list_all dbus_type ts))"
    by (rule is_signature_iff)
qed

end
