(* ===== verification/Spec2Isabelle.thy ===== *)
theory Spec2Isabelle
  imports Unicast Utf8 Signature
begin

text \<open>
  \<^bold>\<open>A verification library for the D-Bus message broker.\<close>

  The broker accepts connections from peers, authenticates them, and routes their messages.
  This development models its state and its operations as HOL functions, one theory per
  component, and proves what makes each component correct. Paths below are relative to
  \<open>src/\<close> of the repository.

  \<^bold>\<open>The program.\<close> A \<open>DispatchContext\<close> waits for events of the kernel and calls back the object that
  registered for them. For a peer this is its \<open>Connection\<close>, which owns a \<open>Socket\<close>: bytes arrive
  in an \<open>IQueue\<close>, leave it as lines while the two ends authenticate (\<open>SASLServer\<close>, \<open>SASLClient\<close>)
  and as \<open>Message\<close>s afterwards; outgoing lines and messages wait in the socket. All memory and
  all descriptors a peer makes the broker hold are charged on a \<open>User\<close>. A message is routed by the
  bus: a well-known \<open>Name\<close> has a queue of owners, a broadcast goes to the peers with a matching
  \<open>MatchRule\<close>, a call is remembered in a \<open>ReplySlot\<close> so that exactly one reply gets back, and the
  \<open>Policy\<close> decides who may own a name and who may send what to whom.

  \<^bold>\<open>Conventions.\<close> A struct is a record, an enum a datatype, an integer a word of its width where
  overflow matters, a string the list of its bytes. An operation that changes state takes the
  state and returns it, on every path, error returns included. \<open>None\<close> as the result of an
  operation stands for a failed \<open>c_assert\<close>, an access to freed memory, or a loop that does not
  end, so a theorem of the form \<open>\<exists>r. f x = Some r \<and> \<dots>\<close> states that the operation returns. Objects
  that share state live in one record and refer to each other by what identifies them (a UID, a
  name, a peer id, an address), so aliasing is explicit. Loops are structural recursion, a
  \<open>function\<close> with a measure, or, where a corrupted structure could keep them running, a
  \<open>partial_function\<close> whose termination is then a theorem; no fuel is used. Whether an allocation
  succeeds, and what the kernel answers to a system call, are arguments.

  \<^bold>\<open>The theories, in the order of the layers.\<close>

  \<^descr> \<open>Prelude\<close>: vocabulary, and the locale \<open>compare_order\<close>, which states what a comparison function
  must satisfy for the intrusive red-black trees (\<open>c-rbtree\<close>) to behave as finite maps. The trees
  are their in-order sequences; every comparison of the program is an interpretation.
  \<^descr> \<open>Strings\<close>, \<open>Protocol\<close>, \<open>Address\<close> (\<open>util/string.c\<close>, \<open>util/misc.c\<close>, \<open>dbus/protocol.c\<close>,
  \<open>dbus/address.c\<close>): codings round-trip, and the one-pass validators accept exactly the grammar
  of names and interfaces.
  \<^descr> \<open>Utf8\<close> (\<open>libcutf8-1/src/c-utf8.c\<close>): the scanner stops exactly behind the longest prefix that is
  valid UTF-8, at every alignment and word size.
  \<^descr> \<open>Signature\<close> (\<open>libcdvar-1/src/c-dvar-reader.c\<close>): the validator of type signatures, with its bit maps,
  accepts exactly the types of the specification.
  \<^descr> \<open>User\<close>, \<open>Accounts\<close> (\<open>util/user.c\<close>): quotas are computed without overflow, and reference counts
  and budgets stay exact. The locale \<open>accounting\<close> is the interface the holders of charges use;
  \<open>Accounts\<close> adds what components with many charges need.
  \<^descr> \<open>Clist\<close>, \<open>Dispatch\<close> (\<open>libclist-3/src/c-list.h\<close>, \<open>util/dispatch.c\<close>): linked lists on an explicit store
  of nodes refine sequences; the ready list of the dispatcher is exact, and a round runs every
  ready callback once, if the callbacks keep to a contract. Two lemmas show how callbacks of
  the program break it.
  \<^descr> \<open>Queue\<close>, \<open>Message\<close>, \<open>Socket\<close>, \<open>Framing\<close> (\<open>dbus/queue.c\<close>, \<open>dbus/message.c\<close>, \<open>dbus/socket.c\<close>): the
  receive cursor stays in its memory; the output is sent in order, byte for byte, whatever
  parts of it the kernel takes; the input is cut into messages exactly as the function
  \<open>next_frame\<close> on the byte stream says; the sender field of a message is replaced consistently.
  \<^descr> \<open>Sasl\<close>, \<open>Connection\<close> (\<open>dbus/sasl.c\<close>, \<open>dbus/connection.c\<close>): the state machines of both ends, and the
  connection that feeds them with lines and then hands out messages. The theorem of this
  theory is on the composition: no message without an accepted credential.
  \<^descr> \<open>Name\<close> (\<open>bus/name.c\<close>): requests and releases of names refine an abstract queue of owners, and all
  reachable registries are consistent.
  \<^descr> \<open>Reply\<close> (\<open>bus/reply.c\<close>): a call is tracked under its key, and its slot is released once.
  \<^descr> \<open>MatchKeys\<close>, \<open>MatchIndex\<close>, \<open>Match\<close> (\<open>bus/match.c\<close>): parsing stays inside its buffer, matching is what
  the keys say, and the four-level index finds exactly the owners of the matching rules. The
  levels have the same shape: the locale \<open>index_child\<close> is what a level promises to the one
  above, \<open>index_lookup\<close> extends it by the lookup, and each level is an interpretation.
  \<^descr> \<open>Policy\<close> (\<open>bus/policy.c\<close>): import, snapshots and decisions. The locale \<open>rule_check\<close> captures that
  all decisions take the first rule of the highest priority, \<open>batch_loop\<close> the loops of the
  import; both are interpreted for each kind of rule.

  \<^descr> \<open>Peer\<close>, \<open>Subscription\<close> (\<open>bus/peer.c\<close>, \<open>bus/bus.c\<close>): the peers and the state of the bus they share,
  where the components meet. A rule pins the name it is linked at: subscribing and
  unsubscribing keep rules, names and references consistent, and a broadcast reaches exactly
  the peers that subscribed to its sender. Three lemmas show where the code misses this.
  \<^descr> \<open>Unicast\<close> (\<open>bus/peer.c\<close>): a message is delivered only if the policies of both sides permit it,
  and a call is answered exactly once.

  \<^bold>\<open>Parameters.\<close> The access control modules of the host (SELinux, AppArmor) are functions, with the
  fallback of the build as an instance. The values that the reader of the variant library
  delivers for a serialised policy are a datatype. The memory that an allocation returns, the
  sizes of C structures that are charged, the success of a log commit and the answers of
  \<open>recvmsg\<close>, \<open>sendmmsg\<close>, \<open>poll\<close> and \<open>epoll\<close> are arguments, without assumptions except that the
  kernel does not report more bytes than it was offered, and that it lets the broker shut down
  a socket.

  \<^bold>\<open>Not modelled.\<close> The method handlers of the driver (\<open>bus/driver.c\<close>) and the loop of \<open>peer_dispatch\<close> that
  calls it, activation, the parser of the header fields, and the type parser, reader
  and writer of the variant library. The launcher
  (\<open>launch/\<close>) is a separate process that reads XML and talks to systemd. Logging, metrics and
  diagnostics only format values. The listener, the wrappers of kernel interfaces in \<open>util/\<close> and the
  replacements of C library functions for the port are system calls. The red-black trees are
  vendored; their contract is the locale of the prelude.
\<close>

section \<open>Authentication of messages\<close>

text \<open>The lines a server connection has taken since it was created.\<close>

definition conversed :: "uid \<Rightarrow> string \<Rightarrow> string list \<Rightarrow> connection \<Rightarrow> bool" where
  "conversed uid guid lines c \<longleftrightarrow> (\<exists>outs. sasl_server_run (sasl_server_init uid guid) lines = Inr (c_sasl_server c, outs))"

lemma sasl_server_run_append:
  "sasl_server_run s xs = Inr (s', outs) \<Longrightarrow> sasl_server_run s' ys = Inr (s'', outs') \<Longrightarrow>
   \<exists>outs''. sasl_server_run s (xs @ ys) = Inr (s'', outs'')"
proof (induction xs arbitrary: s outs)
  case (Cons x xs)
  then obtain s1 out outs1 where "sasl_server_dispatch s x = Inr (s1, out)" "sasl_server_run s1 xs = Inr (s', outs1)"
    by (auto split: sum.splits prod.splits)
  with Cons.IH [OF this(2) Cons.prems(2)] show ?case by auto
qed simp

lemma conversed_feed:
  assumes "conversed uid guid before c" "c_server c" "feed_all c lines = Inr c1" "c' = c1\<lparr>c_socket := s\<rparr>"
  shows "conversed uid guid (before @ lines) c'"
  using assms feed_all_server [OF assms(3,2)] sasl_server_run_append by (fastforce simp: conversed_def)



end
